(* ===== verification/Prelude.thy ===== *)
theory Prelude
  imports Main "HOL-Library.Word"
begin

section \<open>Shared vocabulary of the development\<close>

text \<open>
  What every component of the library uses: the outcome of a Rust call that may panic, the
  checked arithmetic of \<open>u64\<close> and \<open>usize\<close>, Rust's \<open>Option\<close> idioms and the
  generic facts on lists that carry the proofs about deques.

  Integers. A \<open>u64\<close> (and a \<open>usize\<close>, on the 64-bit targets the repository is built
  for) is a \<^typ>\<open>nat\<close>; the arithmetic that can leave the range is written out with the
  operations below, which panic as rustc's overflow checks do. Where the source works on bits
  the component uses \<open>64 word\<close> instead. A theorem that a call returns is therefore also a
  theorem that none of its additions wraps, so it holds for builds without the checks as well.
\<close>

named_theorems run_simps "elimination of panics from the checked operations"

subsection \<open>Calls that may panic\<close>

datatype 'a run = Panic | Ret 'a

fun bind_run :: "'a run \<Rightarrow> ('a \<Rightarrow> 'b run) \<Rightarrow> 'b run" where
  "bind_run Panic f = Panic"
| "bind_run (Ret a) f = f a"

definition returns :: "'a run \<Rightarrow> bool" where
  "returns r \<longleftrightarrow> (\<exists>a. r = Ret a)"

definition assert_run :: "bool \<Rightarrow> 'a run \<Rightarrow> 'a run" where
  "assert_run b r = (if b then r else Panic)"

definition expect :: "'a option \<Rightarrow> 'a run" where
  "expect v = (case v of None \<Rightarrow> Panic | Some a \<Rightarrow> Ret a)"

definition unwrap_result :: "'e + 'a \<Rightarrow> 'a run" where
  "unwrap_result v = (case v of Inl _ \<Rightarrow> Panic | Inr a \<Rightarrow> Ret a)"

lemma bind_run_Ret_iff [run_simps]:
  "bind_run r f = Ret b \<longleftrightarrow> (\<exists>a. r = Ret a \<and> f a = Ret b)"
  by (cases r) auto

lemma bind_run_Panic_iff [run_simps]:
  "bind_run r f = Panic \<longleftrightarrow> r = Panic \<or> (\<exists>a. r = Ret a \<and> f a = Panic)"
  by (cases r) auto

lemma bind_run_assoc: "bind_run (bind_run r f) g = bind_run r (\<lambda>a. bind_run (f a) g)"
  by (cases r) auto

lemma assert_run_Ret_iff [run_simps]: "assert_run b r = Ret a \<longleftrightarrow> b \<and> r = Ret a"
  by (simp add: assert_run_def)

lemma assert_run_True [simp]: "assert_run True r = r"
  by (simp add: assert_run_def)

lemma assert_run_False [simp]: "assert_run False r = Panic"
  by (simp add: assert_run_def)

lemma expect_simps [simp]: "expect None = Panic" "expect (Some a) = Ret a"
  by (simp_all add: expect_def)

lemma expect_Ret_iff [run_simps]: "expect v = Ret a \<longleftrightarrow> v = Some a"
  by (cases v) auto

lemma unwrap_result_simps [simp]: "unwrap_result (Inl e) = Panic" "unwrap_result (Inr a) = Ret a"
  by (simp_all add: unwrap_result_def)

lemma returns_simps [simp]: "returns (Ret a)" "\<not> returns Panic"
  by (auto simp: returns_def)

lemma returnsE: "returns r \<Longrightarrow> (\<And>a. r = Ret a \<Longrightarrow> P) \<Longrightarrow> P"
  by (auto simp: returns_def)

text \<open>The answer of a polled operation; a waker is a number.\<close>

datatype 'a poll = Ready 'a | Pending

subsection \<open>Checked arithmetic on u64 and usize\<close>

abbreviation u64_bound :: nat where
  "u64_bound \<equiv> 2 ^ 64"

definition add64 :: "nat \<Rightarrow> nat \<Rightarrow> nat run" where
  "add64 a b = (if a + b < u64_bound then Ret (a + b) else Panic)"

definition sub64 :: "nat \<Rightarrow> nat \<Rightarrow> nat run" where
  "sub64 a b = (if b \<le> a then Ret (a - b) else Panic)"

definition mul64 :: "nat \<Rightarrow> nat \<Rightarrow> nat run" where
  "mul64 a b = (if a * b < u64_bound then Ret (a * b) else Panic)"

text \<open>\<open>overflowing_add\<close>, \<open>wrapping_sub\<close> and \<open>saturating_add\<close> never panic.\<close>

definition overflowing_add64 :: "nat \<Rightarrow> nat \<Rightarrow> nat \<times> bool" where
  "overflowing_add64 a b = ((a + b) mod u64_bound, u64_bound \<le> a + b)"

lemma add64_Ret_iff [run_simps]: "add64 a b = Ret c \<longleftrightarrow> c = a + b \<and> a + b < u64_bound"
  by (auto simp: add64_def)

lemma sub64_Ret_iff [run_simps]: "sub64 a b = Ret c \<longleftrightarrow> b \<le> a \<and> c = a - b"
  by (auto simp: sub64_def)

lemma mul64_Ret_iff [run_simps]: "mul64 a b = Ret c \<longleftrightarrow> c = a * b \<and> a * b < u64_bound"
  by (auto simp: mul64_def)

lemma add64_ok: "a + b < u64_bound \<Longrightarrow> add64 a b = Ret (a + b)"
  by (simp add: add64_def)

lemma sub64_ok: "b \<le> a \<Longrightarrow> sub64 a b = Ret (a - b)"
  by (simp add: sub64_def)

subsection \<open>Lists as deques\<close>

text \<open>
  \<open>VecDeque::drain(i..j)\<close> and \<open>VecDeque::insert\<close> on the list of a deque's elements; the
  callers check the bounds, out of which Rust panics.
\<close>

definition drain_range :: "nat \<Rightarrow> nat \<Rightarrow> 'a list \<Rightarrow> 'a list" where
  "drain_range i j xs = take i xs @ drop j xs"

definition insert_at :: "nat \<Rightarrow> 'a \<Rightarrow> 'a list \<Rightarrow> 'a list" where
  "insert_at i x xs = take i xs @ x # drop i xs"

definition get :: "'a list \<Rightarrow> nat \<Rightarrow> 'a option" where
  "get xs i = (if i < length xs then Some (xs ! i) else None)"

text \<open>\<open>&xs[a..b]\<close> panics out of range.\<close>

definition slice_range :: "'a list \<Rightarrow> nat \<Rightarrow> nat \<Rightarrow> 'a list run" where
  "slice_range xs a b = (if a \<le> b \<and> b \<le> length xs then Ret (take (b - a) (drop a xs)) else Panic)"

lemma get_Some_iff: "get xs i = Some x \<longleftrightarrow> i < length xs \<and> xs ! i = x"
  by (auto simp: get_def)

lemma get_None_iff: "get xs i = None \<longleftrightarrow> length xs \<le> i"
  by (auto simp: get_def)

lemma length_drain_range: "i \<le> j \<Longrightarrow> j \<le> length xs \<Longrightarrow> length (drain_range i j xs) = length xs - (j - i)"
  by (simp add: drain_range_def)

lemma length_insert_at [simp]: "i \<le> length xs \<Longrightarrow> length (insert_at i x xs) = Suc (length xs)"
  by (simp add: insert_at_def)

lemma takeWhile_length_le: "length (takeWhile P xs) \<le> length xs"
  by (rule length_takeWhile_le)

lemma takeWhile_is_prefix: "take (length (takeWhile P xs)) xs = takeWhile P xs"
  by (metis append_eq_conv_conj takeWhile_dropWhile_id)

lemma drop_length_takeWhile: "drop (length (takeWhile P xs)) xs = dropWhile P xs"
  by (metis append_eq_conv_conj takeWhile_dropWhile_id)

end
