(* ===== verification/Peer_Limits.thy ===== *)
theory Peer_Limits
  imports Prelude
begin

section \<open>Limits announced by the peer\<close>

text \<open>
  MAX\_DATA, MAX\_STREAM\_DATA and MAX\_STREAMS frames announce a limit. They are lost, repeated and reordered
  by the network, so a handler may only raise the limit it keeps. The locale states this contract for the
  values a handler accepts; its lemmas show that then the limit only depends on which values arrived, not on
  their order or number. Every component with such a handler interprets it.
\<close>

fun foldl_run :: "('s \<Rightarrow> 'a \<Rightarrow> 's run) \<Rightarrow> 's \<Rightarrow> 'a list \<Rightarrow> 's run" where
  "foldl_run f s [] = Ret s"
| "foldl_run f s (x # xs) = bind_run (f s x) (\<lambda>s. foldl_run f s xs)"

locale raised_limit =
  fixes valid :: "nat \<Rightarrow> bool" and limit :: "'s \<Rightarrow> nat" and raise_to :: "'s \<Rightarrow> nat \<Rightarrow> 's run"
  assumes raise_to_max: "valid n \<Longrightarrow> \<exists>s'. raise_to s n = Ret s' \<and> limit s' = max (limit s) n"
begin

lemma limit_fold:
  "list_all valid ns \<Longrightarrow> \<exists>s'. foldl_run raise_to s ns = Ret s' \<and> limit s' = Max (set (limit s # ns))"
proof (induction ns arbitrary: s)
  case (Cons n ns)
  obtain s1 where s1: "raise_to s n = Ret s1" "limit s1 = max (limit s) n" using raise_to_max [of n s] Cons.prems by auto
  obtain s2 where s2: "foldl_run raise_to s1 ns = Ret s2" "limit s2 = Max (set (limit s1 # ns))"
    using Cons.IH Cons.prems by fastforce
  show ?case using s1 s2 by (cases "ns = []") (simp_all add: max.assoc)
qed simp

lemma limit_order_irrelevant:
  assumes "list_all valid ms" "set ms = set ns"
  shows "\<exists>s1 s2. foldl_run raise_to s ms = Ret s1 \<and> foldl_run raise_to s ns = Ret s2 \<and> limit s1 = limit s2"
proof -
  have "list_all valid ns" using assms by (simp add: list_all_iff)
  then show ?thesis using limit_fold [of ms s] limit_fold [of ns s] assms by auto
qed

end

end
