(* ===== verification/Index_Deque.thy ===== *)
theory Index_Deque
  imports Prelude
begin

section \<open>The indexed deque: qbase/src/util/index_deque.rs\<close>

text \<open>
  \<open>IndexDeque<T, LIMIT>\<close> is a deque whose elements keep the sequence number they were enqueued
  with: the first element has number \<open>offset\<close>. The const generic \<open>LIMIT\<close> is an argument of
  the operations that read it. Connection ids, packet journals and stream buffers are kept in it.
\<close>

datatype index_error = ExceedLimit nat nat | TooSmall nat nat

record 'a index_deque =
  id_deque :: "'a list"
  id_offset :: nat

definition id_default :: "'a index_deque" where
  "id_default = \<lparr>id_deque = [], id_offset = 0\<rparr>"

definition id_is_empty :: "'a index_deque \<Rightarrow> bool" where
  "id_is_empty d \<longleftrightarrow> id_deque d = []"

definition id_len :: "'a index_deque \<Rightarrow> nat" where
  "id_len d = length (id_deque d)"

definition largest :: "'a index_deque \<Rightarrow> nat" where
  "largest d = id_offset d + length (id_deque d)"

definition contain :: "'a index_deque \<Rightarrow> nat \<Rightarrow> bool" where
  "contain d idx \<longleftrightarrow> id_offset d \<le> idx \<and> idx < largest d"

definition id_get :: "'a index_deque \<Rightarrow> nat \<Rightarrow> 'a option" where
  "id_get d idx = (if contain d idx then Some (id_deque d ! (idx - id_offset d)) else None)"

text \<open>Writing through the reference \<open>get_mut\<close> returns: \<open>None\<close> where it returns none.\<close>

definition id_get_mut :: "'a index_deque \<Rightarrow> nat \<Rightarrow> ('a \<Rightarrow> 'a) \<Rightarrow> 'a index_deque option" where
  "id_get_mut d idx f =
     (if contain d idx
      then Some (d\<lparr>id_deque := (id_deque d)[idx - id_offset d := f (id_deque d ! (idx - id_offset d))]\<rparr>)
      else None)"

definition id_push_back :: "nat \<Rightarrow> 'a \<Rightarrow> 'a index_deque \<Rightarrow> (index_error + nat) \<times> 'a index_deque" where
  "id_push_back LIMIT v d =
     (let (next_idx, overflowed) = overflowing_add64 (id_offset d) (length (id_deque d))
      in if overflowed \<or> LIMIT < next_idx then (Inl (ExceedLimit next_idx LIMIT), d)
         else let d' = d\<lparr>id_deque := id_deque d @ [v]\<rparr>
              in (Inr (length (id_deque d') - 1 + id_offset d'), d'))"

definition id_pop_front :: "'a index_deque \<Rightarrow> (nat \<times> 'a) option \<times> 'a index_deque" where
  "id_pop_front d =
     (case id_deque d of
        [] \<Rightarrow> (None, d)
      | v # vs \<Rightarrow> (Some (id_offset d, v), d\<lparr>id_deque := vs, id_offset := id_offset d + 1\<rparr>))"

definition id_front :: "'a index_deque \<Rightarrow> 'a option" where
  "id_front d = (case id_deque d of [] \<Rightarrow> None | v # _ \<Rightarrow> Some v)"

definition id_enumerate :: "'a index_deque \<Rightarrow> (nat \<times> 'a) list" where
  "id_enumerate d = zip [id_offset d ..< largest d] (id_deque d)"

text \<open>\<open>drain(..n)\<close> panics when \<open>n\<close> is past the end.\<close>

definition advance :: "nat \<Rightarrow> 'a index_deque \<Rightarrow> 'a index_deque run" where
  "advance n d =
     bind_run (add64 (id_offset d) n) (\<lambda>off.
     assert_run (n \<le> length (id_deque d))
       (Ret (d\<lparr>id_offset := off, id_deque := drop n (id_deque d)\<rparr>)))"

text \<open>
  \<open>drain_to\<close> clamps its argument into the deque's range. Its \<open>debug_assert\<close> is compiled in
  debug builds other than the crate's own tests: it is the separate predicate below, which callers
  establish.
\<close>

definition drain_to_debug_ok :: "nat \<Rightarrow> 'a index_deque \<Rightarrow> bool" where
  "drain_to_debug_ok end d \<longleftrightarrow> id_offset d \<le> end \<and> end \<le> id_offset d + length (id_deque d)"

definition drain_to :: "nat \<Rightarrow> 'a index_deque \<Rightarrow> 'a list \<times> 'a index_deque" where
  "drain_to end d =
     (let end1 = max end (id_offset d);
          off = min end1 (id_offset d + length (id_deque d));
          n = off - id_offset d
      in (take n (id_deque d), d\<lparr>id_offset := off, id_deque := drop n (id_deque d)\<rparr>))"

definition reset_offset :: "nat \<Rightarrow> 'a index_deque \<Rightarrow> 'a index_deque" where
  "reset_offset new_offset d = d\<lparr>id_offset := new_offset\<rparr>"

definition id_extend :: "'a list \<Rightarrow> 'a index_deque \<Rightarrow> 'a index_deque" where
  "id_extend vs d = d\<lparr>id_deque := id_deque d @ vs\<rparr>"

text \<open>\<open>VecDeque::resize\<close>: cut to the length, or fill up with the value.\<close>

definition vec_resize :: "nat \<Rightarrow> 'a \<Rightarrow> 'a list \<Rightarrow> 'a list" where
  "vec_resize n v xs = take n xs @ replicate (n - length xs) v"

definition id_insert ::
    "nat \<Rightarrow> 'a \<Rightarrow> nat \<Rightarrow> 'a \<Rightarrow> 'a index_deque \<Rightarrow> (index_error + 'a option) \<times> 'a index_deque" where
  "id_insert LIMIT dflt idx v d =
     (if LIMIT < idx then (Inl (ExceedLimit idx LIMIT), d)
      else if idx < id_offset d then (Inl (TooSmall idx (id_offset d)), d)
      else let pos = idx - id_offset d
           in if pos < length (id_deque d)
              then (Inr (Some (id_deque d ! pos)), d\<lparr>id_deque := (id_deque d)[pos := v]\<rparr>)
              else let q = (if length (id_deque d) < pos then vec_resize pos dflt (id_deque d) else id_deque d)
                   in (Inr None, d\<lparr>id_deque := q @ [v]\<rparr>))"

definition id_resize :: "nat \<Rightarrow> nat \<Rightarrow> 'a \<Rightarrow> 'a index_deque \<Rightarrow> (index_error + unit) \<times> 'a index_deque" where
  "id_resize LIMIT new_end v d =
     (if new_end < id_offset d then (Inl (TooSmall new_end (id_offset d)), d)
      else if LIMIT < new_end then (Inl (ExceedLimit new_end LIMIT), d)
      else (Inr (), d\<lparr>id_deque := vec_resize (new_end - id_offset d) v (id_deque d)\<rparr>))"

text \<open>The indexing operators panic where the deque holds no such number.\<close>

definition id_index :: "'a index_deque \<Rightarrow> nat \<Rightarrow> 'a run" where
  "id_index d idx =
     bind_run (sub64 idx (id_offset d)) (\<lambda>i. if i < length (id_deque d) then Ret (id_deque d ! i) else Panic)"

subsection \<open>The deque as a window of numbered elements\<close>

lemma largest_simps [simp]:
  "largest (d\<lparr>id_deque := xs\<rparr>) = id_offset d + length xs"
  "largest (d\<lparr>id_offset := n\<rparr>) = n + length (id_deque d)"
  by (simp_all add: largest_def)

lemma id_get_iff:
  "id_get d i = Some v \<longleftrightarrow> id_offset d \<le> i \<and> i < largest d \<and> id_deque d ! (i - id_offset d) = v"
  by (auto simp: id_get_def contain_def)

lemma id_get_None_iff: "id_get d i = None \<longleftrightarrow> \<not> contain d i"
  by (simp add: id_get_def)

lemma id_push_back_ok:
  assumes "largest d \<le> LIMIT" and "LIMIT < u64_bound"
  shows "id_push_back LIMIT v d = (Inr (largest d), d\<lparr>id_deque := id_deque d @ [v]\<rparr>)"
  using assms by (simp add: id_push_back_def overflowing_add64_def largest_def)

lemma id_push_back_exceeds:
  assumes "LIMIT < largest d"
  shows "\<exists>n. id_push_back LIMIT v d = (Inl (ExceedLimit n LIMIT), d)"
proof (cases "largest d < u64_bound")
  case True
  then have "largest d mod u64_bound = largest d" by simp
  with assms show ?thesis
    by (auto simp: id_push_back_def overflowing_add64_def largest_def Let_def)
next
  case False
  then show ?thesis
    by (auto simp: id_push_back_def overflowing_add64_def largest_def Let_def)
qed

lemma id_push_back_Inr:
  assumes "id_push_back LIMIT v d = (Inr i, d')"
  shows "i = largest d \<and> d' = d\<lparr>id_deque := id_deque d @ [v]\<rparr> \<and> largest d \<le> LIMIT"
  using assms
  by (auto simp: id_push_back_def overflowing_add64_def largest_def Let_def split: if_splits)

lemma id_get_snoc:
  "id_get (d\<lparr>id_deque := id_deque d @ [v]\<rparr>) i = (if i = largest d then Some v else id_get d i)"
  by (auto simp: id_get_def contain_def largest_def nth_append)

lemma vec_resize_length [simp]: "length (vec_resize n v xs) = n"
  by (simp add: vec_resize_def min_def)

lemma vec_resize_nth:
  "i < n \<Longrightarrow> vec_resize n v xs ! i = (if i < length xs then xs ! i else v)"
  by (auto simp: vec_resize_def nth_append min_def)

text \<open>A successful \<open>insert\<close> writes one number, fills the gap with the default and keeps the rest.\<close>

lemma id_insert_get:
  assumes "id_insert LIMIT dflt idx v d = (Inr old, d')"
  shows "id_get d' i =
           (if i = idx then Some v
            else if largest d \<le> i \<and> i < idx then Some dflt
            else id_get d i)"
    and "old = id_get d idx" and "id_offset d' = id_offset d"
    and "largest d' = max (largest d) (Suc idx)" and "id_offset d \<le> idx"
  using assms
  by (auto simp: id_insert_def id_get_def contain_def largest_def vec_resize_nth nth_append
      nth_list_update Let_def split: if_splits)

lemma id_insert_ok:
  assumes "id_offset d \<le> idx" and "idx \<le> LIMIT"
  shows "\<exists>old d'. id_insert LIMIT dflt idx v d = (Inr old, d')"
  using assms by (auto simp: id_insert_def Let_def)

lemma drain_to_offset:
  "id_offset (snd (drain_to n d)) = min (max n (id_offset d)) (largest d)"
  by (simp add: drain_to_def largest_def Let_def)

lemma drain_to_largest: "largest (snd (drain_to n d)) = largest d"
  by (auto simp: drain_to_def largest_def Let_def)

lemma drain_to_get: "id_get (snd (drain_to n d)) i = (if i < n then None else id_get d i)"
  by (auto simp: drain_to_def id_get_def contain_def largest_def Let_def)

lemma drain_to_taken:
  assumes "drain_to_debug_ok n d"
  shows "fst (drain_to n d) = map (\<lambda>i. the (id_get d i)) [id_offset d ..< n]"
  using assms
  by (intro nth_equalityI)
    (auto simp: drain_to_def drain_to_debug_ok_def id_get_def contain_def largest_def Let_def)

lemma advance_ok:
  assumes "n \<le> id_len d" and "largest d < u64_bound"
  shows "advance n d = Ret (d\<lparr>id_offset := id_offset d + n, id_deque := drop n (id_deque d)\<rparr>)"
  using assms by (simp add: advance_def id_len_def largest_def add64_def)

lemma advance_is_drain_to:
  assumes "n \<le> id_len d" and "largest d < u64_bound"
  shows "advance n d = Ret (snd (drain_to (id_offset d + n) d))"
  using assms
  by (simp add: advance_ok drain_to_def Let_def id_len_def)

subsection \<open>The interface the users of the deque rely on\<close>

text \<open>
  What the connection-id queues and the packet journals need of the deque, as an interface: a
  window \<open>[first_no, next_no)\<close> of numbered elements that grows by \<open>push\<close> at its end and
  shrinks by \<open>drop_to\<close> at its front. The lemmas inside hold of every history of the two.
\<close>

datatype 'a window_op = Push 'a | Drop_to nat

fun play :: "('a \<Rightarrow> 's \<Rightarrow> 's option) \<Rightarrow> (nat \<Rightarrow> 's \<Rightarrow> 's) \<Rightarrow> 'a window_op list \<Rightarrow> 's \<Rightarrow> 's option" where
  "play push drop_to [] s = Some s"
| "play push drop_to (Push v # ops) s =
     (case push v s of None \<Rightarrow> None | Some s' \<Rightarrow> play push drop_to ops s')"
| "play push drop_to (Drop_to n # ops) s = play push drop_to ops (drop_to n s)"

lemma window_ops_induct [case_names Nil Push Drop]:
  assumes "P []" and "\<And>v ops. P ops \<Longrightarrow> P (Push v # ops)" and "\<And>n ops. P ops \<Longrightarrow> P (Drop_to n # ops)"
  shows "P ops"
proof (induction ops)
  case (Cons x ops)
  then show ?case using assms by (cases x) auto
qed (rule assms)

locale indexed_window =
  fixes lookup :: "'s \<Rightarrow> nat \<Rightarrow> 'a option"
    and first_no :: "'s \<Rightarrow> nat"
    and next_no :: "'s \<Rightarrow> nat"
    and push :: "'a \<Rightarrow> 's \<Rightarrow> 's option"
    and drop_to :: "nat \<Rightarrow> 's \<Rightarrow> 's"
  assumes lookup_dom: "lookup s i \<noteq> None \<longleftrightarrow> first_no s \<le> i \<and> i < next_no s"
    and push_first: "push v s = Some s' \<Longrightarrow> first_no s' = first_no s"
    and push_next: "push v s = Some s' \<Longrightarrow> next_no s' = Suc (next_no s)"
    and push_lookup: "push v s = Some s' \<Longrightarrow> i \<noteq> next_no s \<Longrightarrow> lookup s' i = lookup s i"
    and push_new: "push v s = Some s' \<Longrightarrow> first_no s \<le> next_no s \<Longrightarrow> lookup s' (next_no s) = Some v"
    and drop_first: "first_no s \<le> first_no (drop_to n s)"
    and drop_next: "next_no (drop_to n s) = next_no s"
    and drop_lookup: "lookup (drop_to n s) i = (if i < n then None else lookup s i)"
begin

lemma play_next_mono: "play push drop_to ops s = Some t \<Longrightarrow> next_no s \<le> next_no t"
proof (induction ops arbitrary: s rule: window_ops_induct)
  case (Push v ops)
  then obtain s' where "push v s = Some s'" "next_no s' \<le> next_no t"
    by (auto split: option.splits)
  then show ?case using push_next by fastforce
next
  case (Drop n ops)
  then show ?case using drop_next [of n s] by fastforce
qed simp

lemma play_first_mono: "play push drop_to ops s = Some t \<Longrightarrow> first_no s \<le> first_no t"
proof (induction ops arbitrary: s rule: window_ops_induct)
  case (Push v ops)
  then obtain s' where "push v s = Some s'" "first_no s' \<le> first_no t"
    by (auto split: option.splits)
  then show ?case using push_first by fastforce
next
  case (Drop n ops)
  then show ?case using drop_first [of s n] by fastforce
qed simp

lemma lookup_below_next: "lookup s i = Some v \<Longrightarrow> i < next_no s"
  using lookup_dom [of s i] by simp

lemma dropped_stays_dropped:
  "play push drop_to ops s = Some t \<Longrightarrow> lookup s i = None \<Longrightarrow> i < next_no s \<Longrightarrow> lookup t i = None"
proof (induction ops arbitrary: s rule: window_ops_induct)
  case (Push v ops)
  then obtain s' where s': "push v s = Some s'" "play push drop_to ops s' = Some t"
    by (auto split: option.splits)
  have "lookup s' i = None" using push_lookup [OF s'(1)] Push.prems by simp
  moreover have "i < next_no s'" using push_next [OF s'(1)] Push.prems(3) by simp
  ultimately show ?case using Push.IH s'(2) by blast
next
  case (Drop n ops)
  then show ?case by (simp add: drop_lookup drop_next)
qed simp

lemma lookup_stable:
  "play push drop_to ops s = Some t \<Longrightarrow> lookup s i = Some v \<Longrightarrow> first_no t \<le> i \<Longrightarrow> lookup t i = Some v"
proof (induction ops arbitrary: s rule: window_ops_induct)
  case (Push u ops)
  then obtain s' where s': "push u s = Some s'" "play push drop_to ops s' = Some t"
    by (auto split: option.splits)
  from Push.prems(2) have "i \<noteq> next_no s" using lookup_below_next by blast
  with s' Push.prems(2) have "lookup s' i = Some v" by (simp add: push_lookup)
  with Push.IH Push.prems(3) s' show ?case by blast
next
  case (Drop n ops)
  have t: "play push drop_to ops (drop_to n s) = Some t" using Drop.prems(1) by simp
  have "lookup t i \<noteq> None"
    using lookup_dom [of t i] play_next_mono [OF t] Drop.prems drop_next [of n s]
      lookup_below_next [of s i v] by simp
  then have "lookup (drop_to n s) i \<noteq> None"
    using dropped_stays_dropped [OF t, of i] lookup_below_next [OF Drop.prems(2)] drop_next [of n s]
    by (metis)
  then have "lookup (drop_to n s) i = Some v"
    using Drop.prems(2) by (simp add: drop_lookup split: if_splits)
  with Drop.IH t Drop.prems(3) show ?case by blast
qed simp

end

definition window_push :: "nat \<Rightarrow> 'a \<Rightarrow> 'a index_deque \<Rightarrow> 'a index_deque option" where
  "window_push LIMIT v d =
     (case id_push_back LIMIT v d of (Inl _, _) \<Rightarrow> None | (Inr _, d') \<Rightarrow> Some d')"

lemma window_push_Some:
  "window_push LIMIT v d = Some d' \<Longrightarrow> d' = d\<lparr>id_deque := id_deque d @ [v]\<rparr>"
  by (auto simp: window_push_def split: prod.splits sum.splits dest!: id_push_back_Inr)

interpretation dw: indexed_window id_get id_offset largest "window_push LIMIT"
  "\<lambda>n d. snd (drain_to n d)" for LIMIT
proof (unfold_locales, goal_cases)
  case (1 d i)
  then show ?case by (simp add: id_get_None_iff contain_def)
next
  case (2 v d d')
  then show ?case by (auto dest!: window_push_Some)
next
  case (3 v d d')
  then show ?case by (auto dest!: window_push_Some simp: largest_def)
next
  case (4 v d d' i)
  then show ?case by (auto dest!: window_push_Some simp: id_get_snoc)
next
  case (5 v d d')
  then show ?case by (auto dest!: window_push_Some simp: id_get_snoc)
next
  case (6 d n)
  then show ?case by (simp add: drain_to_offset) (simp add: largest_def)
next
  case (7 n d)
  then show ?case by (rule drain_to_largest)
next
  case (8 n d i)
  then show ?case by (rule drain_to_get)
qed

text \<open>
  the indexed deque numbers its elements for good. Take any history of successful
  \<open>push_back\<close>s and of \<open>drain_to\<close>s: an element that was stored under number \<open>i\<close> is
  still found under \<open>i\<close> at the end of the history unless the front has passed \<open>i\<close>, and
  no other element ever appears under that number.
\<close>

theorem index_deque_numbering_stable:
  assumes "play (window_push LIMIT) (\<lambda>n d. snd (drain_to n d)) ops d = Some d'" and "id_get d i = Some v"
  shows "id_get d' i = (if i < id_offset d' then None else Some v)"
  using assms by (auto simp: id_get_None_iff contain_def intro: dw.lookup_stable)

theorem index_deque_numbering_stable_witness:
  "play (window_push 9) (\<lambda>n d. snd (drain_to n d)) [Push (7::nat), Drop_to 1, Push 8]
     (id_default\<lparr>id_deque := [5, 6]\<rparr>) =
     Some \<lparr>id_deque = [6, 7, 8], id_offset = 1\<rparr> \<and>
   id_get \<lparr>id_deque = [6, 7, 8::nat], id_offset = 1\<rparr> 1 = Some 6"
proof -
  have run: "play (window_push 9) (\<lambda>n d. snd (drain_to n d)) [Push (7::nat), Drop_to 1, Push 8]
     (id_default\<lparr>id_deque := [5, 6]\<rparr>) =
     Some \<lparr>id_deque = [6, 7, 8], id_offset = 1\<rparr>"
    by (simp add: window_push_def id_push_back_def overflowing_add64_def id_default_def
        drain_to_def)
  moreover have "id_get (id_default\<lparr>id_deque := [5, 6::nat]\<rparr>) 1 = Some 6"
    by (simp add: id_get_def contain_def largest_def id_default_def)
  ultimately show ?thesis
    using index_deque_numbering_stable [OF run, of 1 6] by simp
qed

end
