(* ===== verification/Wire.thy ===== *)
theory Wire
  imports Prelude
begin

section \<open>Bytes on the wire and the two crates that read and write them\<close>

text \<open>
  The codecs of the repository are written against two crates that are not part of it: \<open>nom\<close>
  (parsers) and \<open>bytes\<close> (the \<open>BufMut\<close> writers). Their primitives are parameters of the
  model, gathered in the records \<open>nom\<close> and \<open>bufmut\<close>, which the codec definitions take as
  arguments; what the crates document about them is stated by the predicates \<open>nom_ok\<close> and
  \<open>bufmut_ok\<close>, which appear as hypotheses of the theorems. The reference instances at the end
  show that the predicates can be satisfied.

  A growing buffer is the list of the bytes written to it so far, and a slice is the list of its
  bytes. Sequencing parsers with \<open>?\<close> or with nom's \<open>map\<close> and \<open>flat_map\<close> is the
  control flow of \<open>pbind\<close> below: stop at the first parser that does not succeed.
\<close>

type_synonym byte = "8 word"

fun be_val :: "byte list \<Rightarrow> nat" where
  "be_val [] = 0"
| "be_val (b # bs) = unat b * 256 ^ length bs + be_val bs"

fun be_bytes :: "nat \<Rightarrow> nat \<Rightarrow> byte list" where
  "be_bytes 0 x = []"
| "be_bytes (Suc n) x = word_of_nat (x div 256 ^ n) # be_bytes n x"

lemma length_be_bytes [simp]: "length (be_bytes n x) = n"
  by (induction n) auto

lemma be_bytes_numeral:
  "be_bytes (numeral k) x = word_of_nat (x div 256 ^ pred_numeral k) # be_bytes (pred_numeral k) x"
  by (simp add: numeral_eq_Suc)

lemma unat_byte_bound [simp]: "unat (b :: byte) < 256"
  using unsigned_less [of b] by simp

lemma be_val_bound: "be_val bs < 256 ^ length bs"
proof (induction bs)
  case (Cons b bs)
  have "unat b * 256 ^ length bs + be_val bs < unat b * 256 ^ length bs + 256 ^ length bs"
    using Cons by simp
  also have "\<dots> = (unat b + 1) * 256 ^ length bs" by (simp add: algebra_simps)
  also have "\<dots> \<le> 256 * 256 ^ length bs"
    by (rule mult_le_mono1) (use unat_byte_bound [of b] in linarith)
  finally show ?case by simp
qed simp

lemma be_val_append: "be_val (as @ bs) = be_val as * 256 ^ length bs + be_val bs"
  by (induction as) (simp_all add: algebra_simps power_add)

lemma unat_word_of_nat_byte: "unat (word_of_nat n :: byte) = n mod 256"
  by (simp add: unat_of_nat)

lemma be_val_be_bytes: "be_val (be_bytes n x) = x mod 256 ^ n"
proof (induction n)
  case (Suc n)
  have "x mod (256 ^ n * 256) = 256 ^ n * (x div 256 ^ n mod 256) + x mod 256 ^ n"
    by (rule mod_mult2_eq)
  then have "x mod 256 ^ Suc n = 256 ^ n * (x div 256 ^ n mod 256) + x mod 256 ^ n"
    by (simp only: power_Suc2)
  with Suc show ?case by (simp add: unat_word_of_nat_byte mult.commute)
qed simp

subsection \<open>Results of parsers\<close>

text \<open>
  \<open>IResult\<close> with the cases of \<open>nom::Err\<close>; \<open>Incomplete (Some n)\<close> asks for \<open>n\<close>
  more. A parser that reaches an \<open>unreachable!\<close> or an overflowing subtraction panics.
\<close>

datatype ('e, 'a) presult =
  PDone "byte list" 'a | PIncomplete "nat option" | PError 'e | PFailure 'e | PPanic

fun pbind :: "('e, 'a) presult \<Rightarrow> (byte list \<Rightarrow> 'a \<Rightarrow> ('e, 'b) presult) \<Rightarrow> ('e, 'b) presult" where
  "pbind (PDone rest a) f = f rest a"
| "pbind (PIncomplete n) f = PIncomplete n"
| "pbind (PError e) f = PError e"
| "pbind (PFailure e) f = PFailure e"
| "pbind PPanic f = PPanic"

definition pmap :: "('a \<Rightarrow> 'b) \<Rightarrow> ('e, 'a) presult \<Rightarrow> ('e, 'b) presult" where
  "pmap g r = pbind r (\<lambda>rest a. PDone rest (g a))"

lemma pmap_simps [simp]:
  "pmap g (PDone rest a) = PDone rest (g a)" "pmap g (PIncomplete n) = PIncomplete n"
  "pmap g (PError e) = PError e" "pmap g (PFailure e) = PFailure e" "pmap g PPanic = PPanic"
  by (simp_all add: pmap_def)

text \<open>The same outcome with its error translated; the errors of nom's own parsers carry their kind.\<close>

fun pmap_err :: "('e \<Rightarrow> 'f) \<Rightarrow> ('e, 'a) presult \<Rightarrow> ('f, 'a) presult" where
  "pmap_err g (PDone rest a) = PDone rest a"
| "pmap_err g (PIncomplete n) = PIncomplete n"
| "pmap_err g (PError e) = PError (g e)"
| "pmap_err g (PFailure e) = PFailure (g e)"
| "pmap_err g PPanic = PPanic"

text \<open>A step of a parser that may panic.\<close>

fun prun :: "byte list \<Rightarrow> 'a run \<Rightarrow> ('e, 'a) presult" where
  "prun rest Panic = PPanic"
| "prun rest (Ret a) = PDone rest a"

lemma pbind_PDone_iff:
  "pbind r f = PDone rest b \<longleftrightarrow> (\<exists>rest' a. r = PDone rest' a \<and> f rest' a = PDone rest b)"
  by (cases r) auto

lemma pbind_PPanic_iff:
  "pbind r f = PPanic \<longleftrightarrow> r = PPanic \<or> (\<exists>rest a. r = PDone rest a \<and> f rest a = PPanic)"
  by (cases r) auto

text \<open>The nom error kinds the codecs construct themselves.\<close>

datatype nom_error_kind = TooLarge | Verify | Eof | Alt | ManyTill

subsection \<open>nom's primitives\<close>

text \<open>
  \<open>bits_take\<close> is \<open>nom::bits::streaming::take\<close> on an input with a bit offset, \<open>be_u8\<close> to
  \<open>be_u32\<close> are the big-endian readers of \<open>nom::number::complete\<close>, \<open>be_u8_streaming\<close> and
  \<open>be_u32_streaming\<close> those of \<open>nom::number::streaming\<close>, \<open>take_streaming\<close> and
  \<open>take_complete\<close> are the two \<open>nom::bytes::take\<close>.
\<close>

record nom =
  bits_take :: "nat \<Rightarrow> byte list \<times> nat \<Rightarrow> nat option + (byte list \<times> nat) \<times> nat"
  be_u8 :: "byte list \<Rightarrow> (nom_error_kind, nat) presult"
  be_u16 :: "byte list \<Rightarrow> (nom_error_kind, nat) presult"
  be_u24 :: "byte list \<Rightarrow> (nom_error_kind, nat) presult"
  be_u32 :: "byte list \<Rightarrow> (nom_error_kind, nat) presult"
  be_u8_streaming :: "byte list \<Rightarrow> (nom_error_kind, nat) presult"
  be_u32_streaming :: "byte list \<Rightarrow> (nom_error_kind, nat) presult"
  take_streaming :: "nat \<Rightarrow> byte list \<Rightarrow> (nom_error_kind, byte list) presult"
  take_complete :: "nat \<Rightarrow> byte list \<Rightarrow> (nom_error_kind, byte list) presult"

text \<open>The number read by \<open>count\<close> bits of \<open>input\<close> from bit \<open>off\<close> on, most significant first.\<close>

definition bits_at :: "byte list \<Rightarrow> nat \<Rightarrow> nat \<Rightarrow> nat" where
  "bits_at input off count =
     (let n = (off + count + 7) div 8
      in be_val (take n input) div 2 ^ (8 * n - (off + count)) mod 2 ^ count)"

definition be_complete :: "nat \<Rightarrow> byte list \<Rightarrow> (nom_error_kind, nat) presult" where
  "be_complete n input =
     (if length input < n then PError Eof else PDone (drop n input) (be_val (take n input)))"

definition be_streaming :: "nat \<Rightarrow> byte list \<Rightarrow> (nom_error_kind, nat) presult" where
  "be_streaming n input =
     (if length input < n then PIncomplete (Some (n - length input))
      else PDone (drop n input) (be_val (take n input)))"

definition nom_ok :: "nom \<Rightarrow> bool" where
  "nom_ok N \<longleftrightarrow>
     (\<forall>count input off. off < 8 \<longrightarrow> 0 < count \<longrightarrow> 8 * length input < off + count \<longrightarrow>
        bits_take N count (input, off) = Inl (Some count)) \<and>
     (\<forall>count input off. off < 8 \<longrightarrow> 0 < count \<longrightarrow> off + count \<le> 8 * length input \<longrightarrow>
        bits_take N count (input, off) =
          Inr ((drop ((off + count) div 8) input, (off + count) mod 8), bits_at input off count)) \<and>
     (\<forall>input. be_u8 N input = be_complete 1 input) \<and>
     (\<forall>input. be_u16 N input = be_complete 2 input) \<and>
     (\<forall>input. be_u24 N input = be_complete 3 input) \<and>
     (\<forall>input. be_u32 N input = be_complete 4 input) \<and>
     (\<forall>input. be_u8_streaming N input = be_streaming 1 input) \<and>
     (\<forall>input. be_u32_streaming N input = be_streaming 4 input) \<and>
     (\<forall>n input. take_streaming N n input =
        (if length input < n then PIncomplete (Some (n - length input))
         else PDone (drop n input) (take n input))) \<and>
     (\<forall>n input. take_complete N n input =
        (if length input < n then PError Eof else PDone (drop n input) (take n input)))"

lemma nom_bits_short:
  "nom_ok N \<Longrightarrow> off < 8 \<Longrightarrow> 0 < count \<Longrightarrow> 8 * length input < off + count \<Longrightarrow>
     bits_take N count (input, off) = Inl (Some count)"
  unfolding nom_ok_def by blast

lemma nom_bits_take:
  "nom_ok N \<Longrightarrow> off < 8 \<Longrightarrow> 0 < count \<Longrightarrow> off + count \<le> 8 * length input \<Longrightarrow>
     bits_take N count (input, off) =
       Inr ((drop ((off + count) div 8) input, (off + count) mod 8), bits_at input off count)"
  unfolding nom_ok_def by blast

lemma nom_be:
  assumes "nom_ok N"
  shows "be_u8 N input = be_complete 1 input" "be_u16 N input = be_complete 2 input"
    "be_u24 N input = be_complete 3 input" "be_u32 N input = be_complete 4 input"
    "be_u8_streaming N input = be_streaming 1 input" "be_u32_streaming N input = be_streaming 4 input"
  using assms unfolding nom_ok_def by blast+

lemma nom_take:
  assumes "nom_ok N"
  shows "take_streaming N n input =
      (if length input < n then PIncomplete (Some (n - length input))
       else PDone (drop n input) (take n input))"
    and "take_complete N n input =
      (if length input < n then PError Eof else PDone (drop n input) (take n input))"
  using assms unfolding nom_ok_def by blast+

definition nom_ref :: nom where
  "nom_ref =
     \<lparr>bits_take = (\<lambda>count (input, off).
        if 8 * length input < off + count then Inl (Some count)
        else Inr ((drop ((off + count) div 8) input, (off + count) mod 8), bits_at input off count)),
      be_u8 = be_complete 1, be_u16 = be_complete 2, be_u24 = be_complete 3, be_u32 = be_complete 4,
      be_u8_streaming = be_streaming 1, be_u32_streaming = be_streaming 4,
      take_streaming = (\<lambda>n input. if length input < n then PIncomplete (Some (n - length input))
         else PDone (drop n input) (take n input)),
      take_complete = (\<lambda>n input. if length input < n then PError Eof
         else PDone (drop n input) (take n input))\<rparr>"

lemma nom_ok_ref: "nom_ok nom_ref"
  by (simp add: nom_ok_def nom_ref_def)

subsection \<open>The writers of the bytes crate\<close>

text \<open>
  \<open>BufMut::put_u8\<close>, \<open>put_u16\<close>, \<open>put_u32\<close>, \<open>put_u64\<close> append big-endian bytes,
  \<open>put_slice\<close> appends a slice. The buffers the packets are assembled in are checked for room by
  their callers, so running out of room (a panic of the crate) is not part of the contract.
\<close>

record bufmut =
  put_u8 :: "nat \<Rightarrow> byte list \<Rightarrow> byte list"
  put_u16 :: "nat \<Rightarrow> byte list \<Rightarrow> byte list"
  put_u32 :: "nat \<Rightarrow> byte list \<Rightarrow> byte list"
  put_u64 :: "nat \<Rightarrow> byte list \<Rightarrow> byte list"
  put_slice :: "byte list \<Rightarrow> byte list \<Rightarrow> byte list"

definition bufmut_ok :: "bufmut \<Rightarrow> bool" where
  "bufmut_ok B \<longleftrightarrow>
     (\<forall>x buf. put_u8 B x buf = buf @ be_bytes 1 x) \<and>
     (\<forall>x buf. put_u16 B x buf = buf @ be_bytes 2 x) \<and>
     (\<forall>x buf. put_u32 B x buf = buf @ be_bytes 4 x) \<and>
     (\<forall>x buf. put_u64 B x buf = buf @ be_bytes 8 x) \<and>
     (\<forall>bs buf. put_slice B bs buf = buf @ bs)"

lemma bufmut_puts:
  assumes "bufmut_ok B"
  shows "put_u8 B x buf = buf @ be_bytes 1 x" "put_u16 B x buf = buf @ be_bytes 2 x"
    "put_u32 B x buf = buf @ be_bytes 4 x" "put_u64 B x buf = buf @ be_bytes 8 x"
    "put_slice B bs buf = buf @ bs"
  using assms unfolding bufmut_ok_def by blast+

definition bufmut_ref :: bufmut where
  "bufmut_ref =
     \<lparr>put_u8 = (\<lambda>x buf. buf @ be_bytes 1 x), put_u16 = (\<lambda>x buf. buf @ be_bytes 2 x),
      put_u32 = (\<lambda>x buf. buf @ be_bytes 4 x), put_u64 = (\<lambda>x buf. buf @ be_bytes 8 x),
      put_slice = (\<lambda>bs buf. buf @ bs)\<rparr>"

lemma bufmut_ok_ref: "bufmut_ok bufmut_ref"
  by (simp add: bufmut_ok_def bufmut_ref_def)

end
