(* ===== verification/Varint.thy ===== *)
theory Varint
  imports Wire
begin

section \<open>Variable-length integers: qbase/src/varint.rs\<close>

text \<open>
  A \<open>VarInt\<close> wraps a \<open>u64\<close> below \<open>2^62\<close>; the field is private, so every value is made by
  the constructors below. Reading goes through nom's bit reader, writing through \<open>BufMut\<close>.
\<close>

unbundle bit_operations_syntax

datatype varint = VarInt (into_inner: nat)

datatype encode_bytes = One | Two | Four | Eight

datatype varint_overflow = Overflow nat

definition VARINT_MAX :: nat where
  "VARINT_MAX = 0x3fffffffffffffff"

definition from_u32 :: "nat \<Rightarrow> varint" where
  "from_u32 x = VarInt x"

definition from_u64 :: "nat \<Rightarrow> varint_overflow + varint" where
  "from_u64 x = (if x < push_bit 62 1 then Inr (VarInt x) else Inl (Overflow x))"

definition from_u128 :: "nat \<Rightarrow> varint_overflow + varint" where
  "from_u128 x = (if x < push_bit 62 1 then Inr (VarInt (x mod 2 ^ 64)) else Inl (Overflow x))"

definition encoding_size :: "varint \<Rightarrow> nat run" where
  "encoding_size v =
     (let x = into_inner v
      in if x < push_bit 6 1 then Ret 1
         else if x < push_bit 14 1 then Ret 2
         else if x < push_bit 30 1 then Ret 4
         else if x < push_bit 62 1 then Ret 8
         else Panic)"

text \<open>
  \<open>be_varint\<close>: two bits of length code, then the rest of the integer. The two errors of the bit
  reader are turned into the number of missing bytes; the subtraction panics if it underflows.
\<close>

definition varint_needed :: "nat option \<Rightarrow> byte list \<Rightarrow> ('e, 'a) presult" where
  "varint_needed needed input =
     (case needed of
        None \<Rightarrow> PIncomplete None
      | Some n \<Rightarrow>
          (let total = (n + 7) div 8
           in if length input \<le> total
              then PIncomplete (if total - length input = 0 then None else Some (total - length input))
              else PPanic))"

definition be_varint :: "nom \<Rightarrow> byte list \<Rightarrow> ('e, varint) presult" where
  "be_varint N input =
     (case bits_take N 2 (input, 0) of
        Inl needed \<Rightarrow> varint_needed needed input
      | Inr (rest, prefix) \<Rightarrow>
          (case bits_take N (push_bit prefix 8 - 2) rest of
             Inl needed \<Rightarrow> varint_needed needed input
           | Inr ((buf, _), value) \<Rightarrow> PDone buf (VarInt value)))"

definition put_varint :: "bufmut \<Rightarrow> varint \<Rightarrow> byte list \<Rightarrow> byte list run" where
  "put_varint B v buf =
     (let x = into_inner v
      in if x < push_bit 6 1 then Ret (put_u8 B (x mod 2 ^ 8) buf)
         else if x < push_bit 14 1 then Ret (put_u16 B (push_bit 14 1 OR x mod 2 ^ 16) buf)
         else if x < push_bit 30 1 then Ret (put_u32 B (push_bit 30 2 OR x mod 2 ^ 32) buf)
         else if x < push_bit 62 1 then Ret (put_u64 B (push_bit 62 3 OR x) buf)
         else Panic)"

fun encode_varint :: "bufmut \<Rightarrow> varint \<Rightarrow> encode_bytes \<Rightarrow> byte list \<Rightarrow> byte list run" where
  "encode_varint B v One buf =
     assert_run (into_inner v < push_bit 6 1) (Ret (put_u8 B (into_inner v mod 2 ^ 8) buf))"
| "encode_varint B v Two buf =
     assert_run (into_inner v < push_bit 14 1)
       (Ret (put_u16 B (push_bit 14 1 OR into_inner v mod 2 ^ 16) buf))"
| "encode_varint B v Four buf =
     assert_run (into_inner v < push_bit 30 1)
       (Ret (put_u32 B (push_bit 30 2 OR into_inner v mod 2 ^ 32) buf))"
| "encode_varint B v Eight buf =
     assert_run (into_inner v < push_bit 62 1) (Ret (put_u64 B (push_bit 62 3 OR into_inner v) buf))"

subsection \<open>Well-formed integers\<close>

definition varint_ok :: "varint \<Rightarrow> bool" where
  "varint_ok v \<longleftrightarrow> into_inner v < 2 ^ 62"

lemma VARINT_MAX_eq: "VARINT_MAX = 2 ^ 62 - 1"
  by (simp add: VARINT_MAX_def)

lemma from_u64_Inr_iff: "from_u64 x = Inr v \<longleftrightarrow> x < 2 ^ 62 \<and> v = VarInt x"
  by (auto simp: from_u64_def)

lemma from_u64_varint_ok: "from_u64 x = Inr v \<Longrightarrow> varint_ok v"
  by (auto simp: from_u64_Inr_iff varint_ok_def)

subsection \<open>The tagged big-endian form\<close>

lemma or_disjoint_nat:
  assumes "(x::nat) < 2 ^ k"
  shows "push_bit k t OR x = t * 2 ^ k + x"
proof -
  have "push_bit k t AND x = 0"
  proof (rule bit_eqI)
    fix n
    show "bit (push_bit k t AND x) n = bit (0::nat) n"
    proof (cases "k \<le> n")
      case True
      then have "x < 2 ^ n" using assms by (meson less_le_trans one_le_numeral power_increasing)
      then have "\<not> bit x n" by (simp add: bit_iff_odd)
      then show ?thesis by (simp add: bit_and_iff)
    next
      case False
      then show ?thesis by (simp add: bit_and_iff bit_push_bit_iff)
    qed
  qed
  then have "push_bit k t OR x = push_bit k t + x" by (rule disjunctive_add_eq_or [symmetric])
  then show ?thesis by (simp add: push_bit_eq_mult)
qed

lemma or_tag:
  "x < 16384 \<Longrightarrow> 16384 OR x = 16384 + (x::nat)"
  "x < 1073741824 \<Longrightarrow> 2147483648 OR x = 2147483648 + (x::nat)"
  "x < 4611686018427387904 \<Longrightarrow> 13835058055282163712 OR x = 13835058055282163712 + (x::nat)"
  using or_disjoint_nat [of x 14 1] or_disjoint_nat [of x 30 2] or_disjoint_nat [of x 62 3]
  by simp_all

text \<open>The four forms: tag \<open>t\<close>, \<open>2^t\<close> bytes, the value below the tag.\<close>

definition varint_form :: "nat \<Rightarrow> nat \<Rightarrow> byte list" where
  "varint_form t x = be_bytes (2 ^ t) (t * 2 ^ (8 * 2 ^ t - 2) + x)"

lemma length_varint_form [simp]: "length (varint_form t x) = 2 ^ t"
  by (simp add: varint_form_def)

definition varint_class :: "nat \<Rightarrow> nat" where
  "varint_class x = (if x < 2 ^ 6 then 0 else if x < 2 ^ 14 then 1 else if x < 2 ^ 30 then 2 else 3)"

lemma varint_class_bounds: "varint_class x < 4" "x < 2 ^ 62 \<Longrightarrow> x < 2 ^ (8 * 2 ^ varint_class x - 2)"
  by (auto simp: varint_class_def)

lemma put_varint_form:
  assumes "bufmut_ok B" and "into_inner v < 2 ^ 62"
  shows "put_varint B v buf = Ret (buf @ varint_form (varint_class (into_inner v)) (into_inner v))"
  using assms
  by (auto simp: put_varint_def Let_def bufmut_puts varint_form_def or_tag varint_class_def)

lemma encode_varint_form:
  assumes "bufmut_ok B" and "encode_varint B v n buf = Ret buf'"
  shows "\<exists>t<4. into_inner v < 2 ^ (8 * 2 ^ t - 2) \<and> buf' = buf @ varint_form t (into_inner v)"
proof (cases n)
  case One
  with assms show ?thesis
    by (intro exI [of _ 0]) (auto simp: run_simps bufmut_puts varint_form_def)
next
  case Two
  with assms show ?thesis
    by (intro exI [of _ 1]) (auto simp: run_simps bufmut_puts varint_form_def or_tag)
next
  case Four
  with assms show ?thesis
    by (intro exI [of _ 2]) (auto simp: run_simps bufmut_puts varint_form_def or_tag)
next
  case Eight
  with assms show ?thesis
    by (intro exI [of _ 3]) (auto simp: run_simps bufmut_puts varint_form_def or_tag)
qed

subsection \<open>What the reader returns, on every input\<close>

lemma be_val_take:
  assumes "k \<le> length bs"
  shows "be_val (take k bs) = be_val bs div 256 ^ (length bs - k)"
proof -
  have "be_val bs = be_val (take k bs) * 256 ^ (length bs - k) + be_val (drop k bs)"
    using be_val_append [of "take k bs" "drop k bs"] by simp
  moreover have "be_val (drop k bs) < 256 ^ (length bs - k)"
    using be_val_bound [of "drop k bs"] by simp
  ultimately show ?thesis by simp
qed

lemma bits_at_tag: "bs \<noteq> [] \<Longrightarrow> bits_at bs 0 2 = unat (hd bs) div 64"
proof -
  assume "bs \<noteq> []"
  then obtain b bs' where "bs = b # bs'" by (cases bs) auto
  moreover have "unat b div 64 < 4" using unat_byte_bound [of b] by linarith
  ultimately show ?thesis by (simp add: bits_at_def)
qed

lemma eight_pow: "(8::nat) * 2 ^ t - 2 + 2 = 8 * 2 ^ t" "2 < (8::nat) * 2 ^ t"
proof -
  have "(1::nat) \<le> 2 ^ t" by simp
  then show "(8::nat) * 2 ^ t - 2 + 2 = 8 * 2 ^ t" "2 < (8::nat) * 2 ^ t" by linarith+
qed

lemma bits_at_rest:
  "bits_at bs 2 (8 * 2 ^ t - 2) = be_val (take (2 ^ t) bs) mod 2 ^ (8 * 2 ^ t - 2)"
proof -
  have "2 + (8 * 2 ^ t - 2) = (8::nat) * 2 ^ t" using eight_pow [of t] by linarith
  then show ?thesis by (simp add: bits_at_def Let_def)
qed

definition varint_tag :: "byte list \<Rightarrow> nat" where
  "varint_tag input = unat (hd input) div 64"

lemma varint_tag_less: "varint_tag input < 4"
  using unat_byte_bound [of "hd input"] unfolding varint_tag_def by linarith

lemma be_varint_eq:
  assumes "nom_ok N"
  shows "be_varint N input =
    (if input = [] then PIncomplete (Some 1)
     else let n = 2 ^ varint_tag input
          in if length input < n then PIncomplete (Some (n - length input))
             else PDone (drop n input) (VarInt (be_val (take n input) mod 2 ^ (8 * n - 2))))"
proof (cases "input = []")
  case True
  then show ?thesis
    using nom_bits_short [OF assms, of 0 2 "[]"] by (simp add: be_varint_def varint_needed_def)
next
  case False
  define t where "t = varint_tag input"
  have two: "bits_take N 2 (input, 0) = Inr ((input, 2), t)"
    using False nom_bits_take [OF assms, of 0 2 input] bits_at_tag [OF False]
    by (cases input) (simp_all add: t_def varint_tag_def)
  have cnt: "push_bit t 8 - 2 = 8 * 2 ^ t - (2::nat)" by (simp add: push_bit_eq_mult mult.commute)
  have pos: "0 < 8 * 2 ^ t - (2::nat)" and sum: "2 + (8 * 2 ^ t - 2) = (8::nat) * 2 ^ t"
    using eight_pow [of t] by linarith+
  show ?thesis
  proof (cases "length input < 2 ^ t")
    case True
    then have "bits_take N (8 * 2 ^ t - 2) (input, 2) = Inl (Some (8 * 2 ^ t - 2))"
      using sum pos by (intro nom_bits_short [OF assms]) auto
    moreover have "(8 * 2 ^ t - 2 + 7) div 8 = (2::nat) ^ t" using eight_pow [of t] by simp
    ultimately show ?thesis
      using True False two cnt by (simp add: be_varint_def varint_needed_def t_def [symmetric])
  next
    case len: False
    then have "bits_take N (8 * 2 ^ t - 2) (input, 2) =
        Inr ((drop (2 ^ t) input, 0), be_val (take (2 ^ t) input) mod 2 ^ (8 * 2 ^ t - 2))"
      using sum pos nom_bits_take [OF assms, of 2 "8 * 2 ^ t - 2" input] bits_at_rest [of input t]
      by simp
    with len False two cnt show ?thesis by (simp add: be_varint_def t_def [symmetric] Let_def)
  qed
qed

text \<open>
  \<open>be_varint\<close> is total and never panics. On an empty input it asks for one byte; otherwise the
  two top bits of the first byte give the length \<open>2^t\<close>, an input that is too short is reported
  with exactly the number of missing bytes, and a long enough one yields the big-endian value below
  the tag together with everything after those \<open>2^t\<close> bytes.
\<close>

theorem be_varint_total:
  assumes "nom_ok N"
  shows "be_varint N input =
    (if input = [] then PIncomplete (Some 1)
     else let n = 2 ^ varint_tag input
          in if length input < n then PIncomplete (Some (n - length input))
             else PDone (drop n input) (VarInt (be_val (take n input) mod 2 ^ (8 * n - 2))))"
  using assms by (rule be_varint_eq)

theorem be_varint_total_witness:
  "nom_ok nom_ref \<and>
   (be_varint nom_ref [0xc0, 6] :: (unit, varint) presult) = PIncomplete (Some 6) \<and>
   (be_varint nom_ref [0x40, 6, 9] :: (unit, varint) presult) = PDone [9] (VarInt 6)"
  using be_varint_total [OF nom_ok_ref, of "[0xc0, 6]"] be_varint_total [OF nom_ok_ref, of "[0x40, 6, 9]"]
  by (simp add: nom_ok_ref varint_tag_def)

subsection \<open>Writing and reading back\<close>

lemma varint_form_tag:
  assumes "t < 4" and "x < 2 ^ (8 * 2 ^ t - 2)"
  shows "varint_tag (varint_form t x @ rest) = t"
proof -
  define m where "m = (2::nat) ^ t"
  define V where "V = t * 2 ^ (8 * m - 2) + x"
  have m: "1 \<le> m" by (simp add: m_def)
  have "unat (hd (varint_form t x @ rest)) = be_val (take 1 (varint_form t x))"
    using m by (cases m) (simp_all add: varint_form_def m_def [symmetric])
  also have "\<dots> = be_val (varint_form t x) div 256 ^ (m - 1)"
    using m by (subst be_val_take) (simp_all add: m_def)
  also have "be_val (varint_form t x) = V mod 256 ^ m"
    by (simp add: varint_form_def be_val_be_bytes m_def V_def)
  also have "V mod 256 ^ m = V"
  proof -
    have "V < (t + 1) * 2 ^ (8 * m - 2)" using assms(2) by (simp add: V_def m_def)
    also have "\<dots> \<le> 4 * 2 ^ (8 * m - 2)" using assms(1) by (intro mult_le_mono1) simp
    finally have "V < 4 * 2 ^ (8 * m - 2)" .
    also have "\<dots> = 2 ^ (8 * m - 2 + 2)" by (simp add: power_add)
    also have "\<dots> = 256 ^ m" using eight_pow(1) [of t] by (simp add: m_def power_mult)
    finally show ?thesis by simp
  qed
  finally have "varint_tag (varint_form t x @ rest) = V div (256 ^ (m - 1) * 64)"
    by (simp add: varint_tag_def div_mult2_eq)
  also have "(256::nat) ^ (m - 1) * 64 = 2 ^ (8 * m - 2)"
  proof -
    have "(256::nat) ^ (m - 1) * 64 = 2 ^ (8 * (m - 1) + 6)" by (simp add: power_mult power_add)
    also have "8 * (m - 1) + 6 = 8 * m - 2" using m by simp
    finally show ?thesis .
  qed
  also have "V div 2 ^ (8 * m - 2) = t" using assms by (simp add: V_def m_def)
  finally show ?thesis .
qed

lemma be_varint_form:
  assumes "nom_ok N" and "t < 4" and "x < 2 ^ (8 * 2 ^ t - 2)"
  shows "be_varint N (varint_form t x @ rest) = PDone rest (VarInt x)"
proof -
  define m where "m = (2::nat) ^ t"
  have "be_val (varint_form t x) mod 2 ^ (8 * m - 2) = x"
  proof -
    have "(256::nat) ^ m = 2 ^ (8 * m - 2) * 4"
      using eight_pow(1) [of t] power_add [of "2::nat" "8 * m - 2" 2]
      by (simp add: m_def power_mult)
    then show ?thesis
      using assms(3) by (simp add: varint_form_def be_val_be_bytes m_def mod_mod_cancel)
  qed
  moreover have "varint_form t x \<noteq> []"
    by (metis length_varint_form list.size(3) power_not_zero zero_neq_numeral)
  ultimately show ?thesis
    using varint_form_tag [OF assms(2,3), of rest]
    by (simp add: be_varint_eq [OF assms(1)] m_def)
qed

lemma put_varint_appends:
  assumes "bufmut_ok B" and "varint_ok v"
  obtains enc where "\<And>buf. put_varint B v buf = Ret (buf @ enc)"
    and "\<And>N rest. nom_ok N \<Longrightarrow> be_varint N (enc @ rest) = PDone rest v"
    and "encoding_size v = Ret (length enc)"
proof
  let ?t = "varint_class (into_inner v)"
  show "put_varint B v buf = Ret (buf @ varint_form ?t (into_inner v))" for buf
    using put_varint_form [OF assms(1)] assms(2) by (simp add: varint_ok_def)
  show "be_varint N (varint_form ?t (into_inner v) @ rest) = PDone rest v" if "nom_ok N" for N rest
    by (subst be_varint_form [OF that varint_class_bounds(1) varint_class_bounds(2)])
      (use assms(2) in \<open>simp_all add: varint_ok_def\<close>)
  show "encoding_size v = Ret (length (varint_form ?t (into_inner v)))"
    using assms(2) by (simp add: encoding_size_def varint_ok_def varint_class_def Let_def)
qed

text \<open>
  every way of writing a variable-length integer is read back. \<open>put_varint\<close> returns on every
  \<open>VarInt\<close>, writes exactly \<open>encoding_size\<close> bytes, and \<open>be_varint\<close> gives back the integer
  and whatever follows it; so does the form \<open>encode_varint\<close> writes on a caller-chosen width,
  whenever its assertion lets it return.
\<close>

theorem varint_roundtrip:
  assumes "nom_ok N" and "bufmut_ok B" and "varint_ok v"
  shows "(\<exists>enc. put_varint B v [] = Ret enc \<and> encoding_size v = Ret (length enc) \<and>
            be_varint N (enc @ rest) = PDone rest v) \<and>
         (\<forall>width enc. encode_varint B v width [] = Ret enc \<longrightarrow> be_varint N (enc @ rest) = PDone rest v)"
proof (intro conjI allI impI)
  show "\<exists>enc. put_varint B v [] = Ret enc \<and> encoding_size v = Ret (length enc) \<and>
           be_varint N (enc @ rest) = PDone rest v"
    by (rule put_varint_appends [OF assms(2,3)]) (use assms(1) in fastforce)
  show "be_varint N (enc @ rest) = PDone rest v" if "encode_varint B v width [] = Ret enc" for width enc
    using encode_varint_form [OF assms(2) that] be_varint_form [OF assms(1)] by fastforce
qed

theorem varint_roundtrip_witness:
  "nom_ok nom_ref \<and> bufmut_ok bufmut_ref \<and> varint_ok (VarInt 300) \<and>
   encode_varint bufmut_ref (VarInt 300) Four [] = Ret [0x80, 0, 1, 44] \<and>
   be_varint nom_ref ([0x80, 0, 1, 44] @ [7]) = (PDone [7] (VarInt 300) :: (unit, varint) presult) \<and>
   (\<exists>enc. put_varint bufmut_ref (VarInt 300) [] = Ret enc \<and> encoding_size (VarInt 300) = Ret (length enc))"
proof -
  have v: "varint_ok (VarInt 300)" by (simp add: varint_ok_def)
  have e: "encode_varint bufmut_ref (VarInt 300) Four [] = Ret [0x80, 0, 1, 44]"
    by (simp add: bufmut_ref_def be_bytes_numeral or_tag)
  from varint_roundtrip [OF nom_ok_ref bufmut_ok_ref v, of "[7]"] e v nom_ok_ref bufmut_ok_ref
  show ?thesis by blast
qed

end
