(* ===== verification/Packet_Number.thy ===== *)
theory Packet_Number
  imports Wire
begin

section \<open>Packet numbers: qbase/src/packet/number.rs\<close>

text \<open>
  A packet number is sent truncated to 1 to 4 bytes. \<open>encode\<close> chooses the width from the distance
  to the largest acknowledged number, \<open>decode\<close> recovers the full number from the next one the
  receiver expects. The arithmetic is on \<open>u64\<close>; the mask of \<open>decode\<close> is written on 64-bit
  words as in the source.
\<close>

unbundle bit_operations_syntax

datatype packet_number = U8 nat | U16 nat | U24 nat | U32 nat

datatype invalid_packet_number = TooOld | PnTooLarge | Duplicate

fun put_packet_number :: "bufmut \<Rightarrow> packet_number \<Rightarrow> byte list \<Rightarrow> byte list" where
  "put_packet_number B (U8 x) buf = put_u8 B x buf"
| "put_packet_number B (U16 x) buf = put_u16 B x buf"
| "put_packet_number B (U24 x) buf = put_u16 B (x mod 2 ^ 16) (put_u8 B (drop_bit 16 x mod 2 ^ 8) buf)"
| "put_packet_number B (U32 x) buf = put_u32 B x buf"

definition take_pn_len :: "nom \<Rightarrow> nat \<Rightarrow> byte list \<Rightarrow> (nom_error_kind, packet_number) presult" where
  "take_pn_len N pn_len input =
     (if pn_len = 1 then pmap U8 (be_u8 N input)
      else if pn_len = 2 then pmap U16 (be_u16 N input)
      else if pn_len = 3 then pmap U24 (be_u24 N input)
      else if pn_len = 4 then pmap U32 (be_u32 N input)
      else PPanic)"

definition pn_encode :: "nat \<Rightarrow> nat \<Rightarrow> packet_number run" where
  "pn_encode pn largest_acked =
     bind_run (sub64 pn largest_acked) (\<lambda>d.
     bind_run (mul64 d 2) (\<lambda>r.
       let range = max r (push_bit 16 1 - 1)
       in if range < push_bit 8 1 then Ret (U8 (pn mod 2 ^ 8))
          else if range < push_bit 16 1 then Ret (U16 (pn mod 2 ^ 16))
          else if range < push_bit 24 1 then Ret (U24 (pn mod 2 ^ 32))
          else if range < push_bit 32 1 then Ret (U32 (pn mod 2 ^ 32))
          else Panic))"

fun pn_size :: "packet_number \<Rightarrow> nat" where
  "pn_size (U8 _) = 1"
| "pn_size (U16 _) = 2"
| "pn_size (U24 _) = 3"
| "pn_size (U32 _) = 4"

fun pn_truncated :: "packet_number \<Rightarrow> nat \<times> nat" where
  "pn_truncated (U8 x) = (x, 8)"
| "pn_truncated (U16 x) = (x, 16)"
| "pn_truncated (U24 x) = (x, 24)"
| "pn_truncated (U32 x) = (x, 32)"

definition pn_decode :: "packet_number \<Rightarrow> nat \<Rightarrow> nat run" where
  "pn_decode p expected =
     (let (truncated, nbits) = pn_truncated p;
          win = push_bit nbits 1;
          hwin = win div 2;
          mask = win - 1;
          candidate = unat ((word_of_nat expected AND NOT (word_of_nat mask) :: 64 word)
                            OR word_of_nat truncated)
      in if hwin \<le> expected \<and> candidate \<le> expected - hwin then add64 candidate win
         else bind_run (add64 expected hwin) (\<lambda>bound.
           if bound < candidate \<and> win < candidate then sub64 candidate win else Ret candidate))"

subsection \<open>The candidate of the decoder\<close>

lemma word_candidate:
  fixes e t :: nat
  assumes "e < 2 ^ 64" and "k < 64" and "t < 2 ^ k"
  shows "unat ((word_of_nat e AND NOT (word_of_nat (2 ^ k - 1)) :: 64 word) OR word_of_nat t) =
           e div 2 ^ k * 2 ^ k + t"
proof -
  define E T M where "E = (word_of_nat e :: 64 word)" and "T = (word_of_nat t :: 64 word)"
    and "M = (mask k :: 64 word)"
  have m: "word_of_nat (2 ^ k - 1) = M" unfolding M_def
    by (simp add: mask_eq_exp_minus_1)
  have uE: "unat E = e" using assms(1) by (simp add: E_def unat_of_nat)
  have "t < 2 ^ 64" using assms(2,3) by (meson less_trans one_less_numeral_iff power_strict_increasing_iff semiring_norm(76))
  then have uT: "unat T = t" by (simp add: T_def unat_of_nat)
  have hi: "E AND NOT M = push_bit k (drop_bit k E)"
    unfolding M_def by (rule bit_word_eqI) (auto simp: bit_simps)
  have "(E AND NOT M) AND T = 0"
  proof (rule bit_word_eqI)
    fix n assume n: "n < LENGTH(64)"
    show "bit ((E AND NOT M) AND T) n = bit (0 :: 64 word) n"
    proof (cases "k \<le> n")
      case True
      then have "t < 2 ^ n" using assms(3) by (meson less_le_trans one_le_numeral power_increasing)
      then have "\<not> bit T n" by (simp add: T_def bit_simps) (simp add: bit_iff_odd)
      then show ?thesis by (simp add: bit_simps)
    next
      case False
      with n show ?thesis by (simp add: hi bit_simps)
    qed
  qed
  then have "(E AND NOT M) OR T = (E AND NOT M) + T" by (rule disjunctive_add_eq_or [symmetric])
  moreover have uh: "unat (E AND NOT M) = e div 2 ^ k * 2 ^ k"
  proof -
    have "unat (drop_bit k E) = e div 2 ^ k"
      by (metis drop_bit_eq_div uE unat_drop_bit_eq)
    moreover have "e div 2 ^ k * 2 ^ k < 2 ^ 64"
      using assms(1) by (meson div_times_less_eq_dividend le_less_trans)
    moreover have "unat ((2 :: 64 word) ^ k) = 2 ^ k"
    proof -
      have "(2::nat) ^ k < 2 ^ 64" using assms(2) by (intro power_strict_increasing) auto
      moreover have "unat (word_of_nat (2 ^ k) :: 64 word) = 2 ^ k mod 2 ^ LENGTH(64)" by (rule unat_of_nat)
      ultimately show ?thesis by simp
    qed
    ultimately show ?thesis
      by (simp add: hi push_bit_eq_mult unat_word_ariths)
  qed
  moreover have "e div 2 ^ k * 2 ^ k + t < 2 ^ 64"
  proof -
    have "e div 2 ^ k < 2 ^ (64 - k)"
      using assms(1,2) by (simp add: less_mult_imp_div_less flip: power_add)
    then have "(e div 2 ^ k + 1) * 2 ^ k \<le> 2 ^ (64 - k) * 2 ^ k" by (intro mult_le_mono1) simp
    also have "\<dots> = 2 ^ 64" using assms(2) by (simp flip: power_add)
    finally show ?thesis using assms(3) by simp
  qed
  ultimately show ?thesis
    by (simp add: unat_word_ariths uT flip: E_def T_def m)
qed

text \<open>
  The window argument on naturals: of the numbers congruent to \<open>t\<close> modulo the window, the decoder
  picks the only one that is less than half a window away from the expected number.
\<close>

lemma window_unique:
  fixes a b r t h e pn c :: nat
  assumes e: "e = b * (2 * h) + r" and r: "r < 2 * h"
    and pn: "pn = a * (2 * h) + t" and t: "t < 2 * h"
    and c: "c = b * (2 * h) + t"
    and lo: "e < pn + h" and hi: "pn < e + h"
  shows "(if h \<le> e \<and> c \<le> e - h then c + 2 * h
          else if e + h < c \<and> 2 * h < c then c - 2 * h else c) = pn"
proof -
  have "a < b + 2"
  proof (rule ccontr)
    assume "\<not> a < b + 2"
    then have "(b + 2) * (2 * h) \<le> a * (2 * h)" by (intro mult_le_mono1) simp
    then show False using e r pn hi by (simp add: algebra_simps)
  qed
  moreover have "b < a + 2"
  proof (rule ccontr)
    assume "\<not> b < a + 2"
    then have "(a + 2) * (2 * h) \<le> b * (2 * h)" by (intro mult_le_mono1) simp
    then show False using e t pn lo by (simp add: algebra_simps)
  qed
  ultimately consider "a = b" | "a = Suc b" | "b = Suc a" by linarith
  then show ?thesis
  proof cases
    case 1
    then show ?thesis using assms by auto
  next
    case 2
    then have "pn = c + 2 * h" using pn c by simp
    then show ?thesis using lo hi by auto
  next
    case 3
    then have "c = pn + 2 * h" using pn c by simp
    moreover have "2 * h \<le> e" using e 3 by simp
    ultimately show ?thesis using lo hi t by (cases "c = 2 * h") auto
  qed
qed

definition pn_fits :: "packet_number \<Rightarrow> bool" where
  "pn_fits p \<longleftrightarrow> (case p of U8 x \<Rightarrow> x < 2 ^ 8 | U16 x \<Rightarrow> x < 2 ^ 16 | U24 x \<Rightarrow> x < 2 ^ 24 | U32 x \<Rightarrow> x < 2 ^ 32)"

lemma pn_decode_window:
  assumes k: "pn_truncated p = (pn mod 2 ^ k, k)" "0 < k" "k \<le> 32"
    and e: "expected < 2 ^ 63" and pn: "pn < 2 ^ 63"
    and lo: "expected < pn + 2 ^ (k - 1)" and hi: "pn < expected + 2 ^ (k - 1)"
  shows "pn_decode p expected = Ret pn"
proof -
  define h c where "h = (2::nat) ^ (k - 1)" and "c = expected div 2 ^ k * 2 ^ k + pn mod 2 ^ k"
  have w: "(2::nat) ^ k = 2 * h" using k(2) by (cases k) (simp_all add: h_def)
  have "h \<le> 2 ^ 31" using k(3) unfolding h_def by (intro power_increasing) auto
  then have h31: "h \<le> 2147483648" by simp
  have cand: "unat ((word_of_nat expected AND NOT (word_of_nat (2 ^ k - 1)) :: 64 word)
      OR word_of_nat (pn mod 2 ^ k)) = c"
    unfolding c_def using e k(3) by (intro word_candidate) auto
  have "c \<le> expected + 2 * h"
    unfolding c_def w [symmetric]
    by (intro add_mono) (auto intro: div_times_less_eq_dividend less_imp_le)
  then have small: "c + 2 * h < u64_bound" "expected + h < u64_bound" using e h31 by simp_all
  have "(if h \<le> expected \<and> c \<le> expected - h then c + 2 * h
         else if expected + h < c \<and> 2 * h < c then c - 2 * h else c) = pn"
  proof (rule window_unique)
    show "expected = expected div 2 ^ k * (2 * h) + expected mod 2 ^ k"
      and "pn = pn div 2 ^ k * (2 * h) + pn mod 2 ^ k"
      and "c = expected div 2 ^ k * (2 * h) + pn mod 2 ^ k"
      unfolding w [symmetric] c_def by (simp_all only: div_mult_mod_eq)
    show "expected mod 2 ^ k < 2 * h" "pn mod 2 ^ k < 2 * h" by (simp_all add: w [symmetric])
  qed (use lo hi in \<open>simp_all add: h_def\<close>)
  moreover have "pn_decode p expected =
      (if h \<le> expected \<and> c \<le> expected - h then add64 c (2 * h)
       else bind_run (add64 expected h) (\<lambda>b. if b < c \<and> 2 * h < c then sub64 c (2 * h) else Ret c))"
  proof -
    have win: "push_bit k (1::nat) = 2 ^ k" by (simp add: push_bit_eq_mult)
    have half: "(2::nat) ^ k div 2 = h" by (simp add: w)
    show ?thesis
      unfolding pn_decode_def Let_def k(1) prod.case win half cand unfolding w ..
  qed
  ultimately show ?thesis
    using small by (auto simp: add64_ok sub64_ok split: if_splits)
qed

lemma pn_encode_Ret_iff:
  "pn_encode pn la = Ret p \<longleftrightarrow>
     la \<le> pn \<and> pn - la < 2 ^ 31 \<and>
     p = (if pn - la < 2 ^ 15 then U16 (pn mod 2 ^ 16)
          else if pn - la < 2 ^ 23 then U24 (pn mod 2 ^ 32) else U32 (pn mod 2 ^ 32))"
  by (auto simp: pn_encode_def run_simps Let_def max_def split: if_splits)


subsection \<open>From the sender to the receiver\<close>

lemma drop_bit_24: "x div 65536 mod 256 * 65536 + x mod 65536 = x mod (16777216::nat)"
proof -
  have "x mod (65536 * 256) = 65536 * (x div 65536 mod 256) + x mod 65536" by (rule mod_mult2_eq)
  then show ?thesis by simp
qed

lemma take_put_packet_number:
  assumes "nom_ok N" and "bufmut_ok B"
  shows "take_pn_len N (pn_size p) (put_packet_number B p [] @ rest) =
    PDone rest (case p of U8 x \<Rightarrow> U8 (x mod 2 ^ 8) | U16 x \<Rightarrow> U16 (x mod 2 ^ 16)
                | U24 x \<Rightarrow> U24 (x mod 2 ^ 24) | U32 x \<Rightarrow> U32 (x mod 2 ^ 32))"
proof (cases p)
  case (U24 x)
  have "be_val (put_packet_number B (U24 x) []) = x mod 2 ^ 24"
    using drop_bit_24 [of x]
    by (simp add: bufmut_puts [OF assms(2)] be_val_append be_val_be_bytes drop_bit_eq_div
        del: be_bytes.simps)
  moreover have "length (put_packet_number B (U24 x) []) = 3"
    by (simp add: bufmut_puts [OF assms(2)])
  ultimately show ?thesis
    using U24 by (simp add: take_pn_len_def nom_be [OF assms(1)] be_complete_def del: put_packet_number.simps)
qed (simp_all add: take_pn_len_def nom_be [OF assms(1)] bufmut_puts [OF assms(2)] be_complete_def
      be_val_be_bytes del: be_bytes.simps)

text \<open>
  C20: a packet number survives truncation. Whenever the sender has not run more than
  \<open>2^31 - 1\<close> numbers ahead of the largest acknowledged one, \<open>encode\<close> returns; and if the
  receiver already got that acknowledged packet and is less than \<open>2^15\<close> numbers ahead of this one
  (packets may be reordered), then writing the truncated number, reading it with the length the
  header announces and decoding it gives the original number back.
\<close>

theorem packet_number_roundtrip:
  assumes "nom_ok N" and "bufmut_ok B"
    and "pn < 2 ^ 62" and "la \<le> pn" and "pn - la < 2 ^ 31"
    and "la \<le> expected" and "expected < pn + 2 ^ 15"
  shows "\<exists>p q. pn_encode pn la = Ret p \<and>
           take_pn_len N (pn_size p) (put_packet_number B p [] @ rest) = PDone rest q \<and>
           pn_decode q expected = Ret pn"
proof -
  obtain p where p: "pn_encode pn la = Ret p"
    and pd: "p = (if pn - la < 2 ^ 15 then U16 (pn mod 2 ^ 16)
          else if pn - la < 2 ^ 23 then U24 (pn mod 2 ^ 32) else U32 (pn mod 2 ^ 32))"
    using pn_encode_Ret_iff [of pn la] assms by blast
  have e: "expected < 2 ^ 63" using assms by simp
  consider "pn - la < 2 ^ 15" | "\<not> pn - la < 2 ^ 15" "pn - la < 2 ^ 23" | "\<not> pn - la < 2 ^ 23" by blast
  then obtain k q where "pn_truncated q = (pn mod 2 ^ k, k)" "0 < k" "k \<le> 32" "2 ^ 15 \<le> (2::nat) ^ (k - 1)"
    "pn - la < 2 ^ (k - 1)"
    and q: "take_pn_len N (pn_size p) (put_packet_number B p [] @ rest) = PDone rest q"
  proof cases
    case 1
    then show ?thesis using that [of "U16 (pn mod 2 ^ 16)" 16] take_put_packet_number [OF assms(1,2), of p rest]
      by (simp add: pd)
  next
    case 2
    then show ?thesis using that [of "U24 (pn mod 2 ^ 24)" 24] take_put_packet_number [OF assms(1,2), of p rest]
      by (simp add: pd mod_mod_cancel)
  next
    case 3
    then show ?thesis using that [of "U32 (pn mod 2 ^ 32)" 32] take_put_packet_number [OF assms(1,2), of p rest] assms(5)
      by (simp add: pd)
  qed
  then have "pn_decode q expected = Ret pn"
    using e assms by (intro pn_decode_window [of q pn k]) auto
  with p q show ?thesis by blast
qed

theorem packet_number_roundtrip_witness:
  "\<exists>p q. pn_encode 0xa82f9b32 0xa82f30ea = Ret p \<and>
     take_pn_len nom_ref (pn_size p) (put_packet_number bufmut_ref p [] @ [1]) = PDone [1] q \<and>
     pn_decode q 0xa82f30eb = Ret 0xa82f9b32"
  by (rule packet_number_roundtrip) (simp_all add: nom_ok_ref bufmut_ok_ref)

text \<open>
  \<open>encode\<close> panics exactly when the number is not after the largest acknowledged one or is
  \<open>2^31\<close> or more ahead of it, and it never chooses the one-byte form: at least 16 bits are sent,
  which is what keeps packets delayed on slower paths decodable.
\<close>

theorem packet_number_encode_domain:
  "(pn < la \<or> 2 ^ 31 \<le> pn - la) = (pn_encode pn la = Panic) \<and>
   pn_encode pn la \<notin> Ret ` {p. pn_size p < 2}"
proof (intro conjI)
  have "(\<exists>p. pn_encode pn la = Ret p) \<longleftrightarrow> la \<le> pn \<and> pn - la < 2 ^ 31"
    by (simp only: pn_encode_Ret_iff) simp
  then show "(pn < la \<or> 2 ^ 31 \<le> pn - la) = (pn_encode pn la = Panic)"
    by (cases "pn_encode pn la") auto
  show "pn_encode pn la \<notin> Ret ` {p. pn_size p < 2}"
    by (auto simp: pn_encode_Ret_iff split: if_splits)
qed

end
