(* ===== verification/Send_Waker.thy ===== *)
theory Send_Waker
  imports Prelude
begin

section \<open>Waking the send task: qbase/src/net/tx.rs\<close>

text \<open>
  A path's send task that finds nothing to send goes to sleep until one of several conditions may have changed; the components call
  \<open>wake_by\<close> with the conditions they changed. \<open>Signals\<close> is a set of eight bits, so the byte \<open>state\<close> is the set of its bits. The
  theorem is that no signal is lost, in whatever order the task goes to sleep and the signals are raised. A task is a number, and a call
  returns the tasks it wakes.
\<close>

datatype signal = CONGESTION | FLOW_CONTROL | TRANSPORT | WRITTEN | CONNECTION_ID | CREDIT | KEYS | PING

type_synonym signals = "signal set"

record send_waker =
  sw_waker :: "nat option"
  sw_state :: signals

definition send_waker_new :: send_waker where
  "send_waker_new = \<lparr>sw_waker = None, sw_state = {}\<rparr>"

definition WAITING :: signals where "WAITING = {}"

definition wait_for :: "nat \<Rightarrow> signals \<Rightarrow> send_waker \<Rightarrow> nat list \<times> send_waker" where
  "wait_for cx signals w =
     (if sw_state w \<inter> signals = {}
      then ([], w\<lparr>sw_state := - signals, sw_waker := Some cx\<rparr>)
      else ([cx], w\<lparr>sw_state := WAITING\<rparr>))"

definition wake_by :: "signals \<Rightarrow> send_waker \<Rightarrow> nat list \<times> send_waker" where
  "wake_by signals w =
     (if sw_state w \<inter> signals \<noteq> signals \<and> sw_waker w \<noteq> None
      then ([the (sw_waker w)], w\<lparr>sw_waker := None, sw_state := WAITING\<rparr>)
      else ([], w\<lparr>sw_state := sw_state w \<union> signals\<rparr>))"

text \<open>The wakers of all paths; \<open>'p\<close> is the type of pathways.\<close>

type_synonym 'p send_wakers = "('p \<times> send_waker) list"

definition sws_insert :: "'p \<Rightarrow> send_waker \<Rightarrow> 'p send_wakers \<Rightarrow> 'p send_wakers" where
  "sws_insert p w ws = (if p \<in> fst ` set ws then ws else (p, w) # ws)"

definition sws_remove :: "'p \<Rightarrow> 'p send_wakers \<Rightarrow> 'p send_wakers" where
  "sws_remove p ws = filter (\<lambda>(q, _). q \<noteq> p) ws"

definition wake_all_by :: "signals \<Rightarrow> 'p send_wakers \<Rightarrow> nat list \<times> 'p send_wakers" where
  "wake_all_by signals ws =
     (concat (map (\<lambda>(_, w). fst (wake_by signals w)) ws), map (\<lambda>(p, w). (p, snd (wake_by signals w))) ws)"

subsection \<open>No signal is lost\<close>

text \<open>
  One task and its waker. \<open>since\<close> are the signals raised since the task was last woken (or since the start), \<open>asleep\<close> is the set the task sleeps
  on while it sleeps. A task runs after it was woken and may go to sleep only while it runs.
\<close>

inductive wk_reach :: "nat \<Rightarrow> send_waker \<Rightarrow> signals option \<Rightarrow> signals \<Rightarrow> bool" for cx where
  wk_init: "wk_reach cx send_waker_new None {}"
| wk_sleep: "wk_reach cx w None since \<Longrightarrow> wait_for cx s w = ([], w') \<Longrightarrow> wk_reach cx w' (Some s) since"
| wk_again: "wk_reach cx w None since \<Longrightarrow> wait_for cx s w = ([cx], w') \<Longrightarrow> wk_reach cx w' None {}"
| wk_spurious: "wk_reach cx w (Some s) since \<Longrightarrow> wk_reach cx w None since"
| wk_quiet: "wk_reach cx w asleep since \<Longrightarrow> wake_by t w = ([], w') \<Longrightarrow> wk_reach cx w' asleep (since \<union> t)"
| wk_wake: "wk_reach cx w asleep since \<Longrightarrow> wake_by t w = ([cx], w') \<Longrightarrow> wk_reach cx w' None {}"

lemma wake_by_eq:
  "wake_by t w = (case sw_waker w of
     Some c \<Rightarrow> if t \<subseteq> sw_state w then ([], w\<lparr>sw_state := sw_state w \<union> t\<rparr>) else ([c], \<lparr>sw_waker = None, sw_state = {}, \<dots> = send_waker.more w\<rparr>)
   | None \<Rightarrow> ([], w\<lparr>sw_state := sw_state w \<union> t\<rparr>))"
proof -
  have "sw_state w \<inter> t \<noteq> t \<longleftrightarrow> \<not> t \<subseteq> sw_state w" by blast
  then show ?thesis by (cases "sw_waker w"; cases w) (simp_all add: wake_by_def WAITING_def)
qed

lemma wait_for_eq:
  "wait_for cx s w = (if s \<subseteq> - sw_state w then ([], w\<lparr>sw_state := - s, sw_waker := Some cx\<rparr>) else ([cx], w\<lparr>sw_state := {}\<rparr>))"
proof -
  have "sw_state w \<inter> s = {} \<longleftrightarrow> s \<subseteq> - sw_state w" by blast
  then show ?thesis by (simp add: wait_for_def WAITING_def)
qed

text \<open>A sleeping task is registered and what it waits for has not been raised; what a running task may have missed is recorded.\<close>

definition wk_inv :: "nat \<Rightarrow> send_waker \<Rightarrow> signals option \<Rightarrow> signals \<Rightarrow> bool" where
  "wk_inv cx w asleep since \<longleftrightarrow> since \<subseteq> sw_state w \<and> sw_waker w \<in> {None, Some cx} \<and>
     (case asleep of None \<Rightarrow> True | Some s \<Rightarrow> sw_waker w = Some cx \<and> sw_state w = - s)"

lemma wk_reach_inv: "wk_reach cx w asleep since \<Longrightarrow> wk_inv cx w asleep since"
proof (induction rule: wk_reach.induct)
  case (wk_sleep w since s w')
  then have "since \<subseteq> - s" by (simp add: wk_inv_def wait_for_eq split: if_splits) blast
  then show ?case using wk_sleep by (auto simp: wk_inv_def wait_for_eq split: if_splits)
next
  case (wk_quiet w asleep since t w')
  then show ?case by (cases "sw_waker w") (auto simp: wk_inv_def wake_by_eq split: if_splits option.splits)
next
  case (wk_wake w asleep since t w')
  then show ?case by (cases "sw_waker w") (auto simp: wk_inv_def wake_by_eq split: if_splits)
next
  case (wk_again w since s w')
  then show ?case by (auto simp: wk_inv_def wait_for_eq split: if_splits)
next
  case (wk_spurious w s since)
  then show ?case by (simp add: wk_inv_def) blast
qed (simp add: wk_inv_def send_waker_new_def)

text \<open>
  C7: The send task misses no signal. While it sleeps on the signals \<open>s\<close>, none of them has been raised since it was last woken, and raising any of
  them wakes it, whatever else is raised with it. While it runs, going to sleep on a set with a signal that was raised since it was last
  woken does not put it to sleep but schedules it again.
\<close>

theorem no_signal_lost:
  assumes "wk_reach cx w asleep since"
  shows "(\<forall>s. asleep = Some s \<longrightarrow> since \<inter> s = {} \<and> (\<forall>t. t \<inter> s \<noteq> {} \<longrightarrow> fst (wake_by t w) = [cx])) \<and>
    (\<forall>s. since \<inter> s \<noteq> {} \<longrightarrow> fst (wait_for cx s w) = [cx])"
proof (intro conjI allI impI)
  note inv = wk_reach_inv [OF assms]
  fix s
  show "since \<inter> s = {}" if "asleep = Some s" using inv that by (simp add: wk_inv_def) blast
  show "fst (wake_by t w) = [cx]" if "asleep = Some s" "t \<inter> s \<noteq> {}" for t
  proof -
    have "\<not> t \<subseteq> - s" using that(2) by blast
    then show ?thesis using inv that(1) by (simp add: wk_inv_def wake_by_eq)
  qed
  show "fst (wait_for cx s w) = [cx]" if "since \<inter> s \<noteq> {}"
  proof -
    have "\<not> s \<subseteq> - sw_state w" using inv that unfolding wk_inv_def by blast
    then show ?thesis by (simp add: wait_for_eq)
  qed
qed

theorem no_signal_lost_witness:
  "wk_reach 5 (snd (wait_for 5 {WRITTEN} (snd (wake_by {TRANSPORT} send_waker_new)))) (Some {WRITTEN}) {TRANSPORT} \<and>
   fst (wake_by {WRITTEN, PING} (snd (wait_for 5 {WRITTEN} (snd (wake_by {TRANSPORT} send_waker_new))))) = [5]"
proof -
  let ?w = "snd (wake_by {TRANSPORT} send_waker_new)"
  have "wk_reach 5 ?w None ({} \<union> {TRANSPORT})"
    by (rule wk_quiet [OF wk_init]) (simp add: wake_by_def send_waker_new_def)
  then have "wk_reach 5 (snd (wait_for 5 {WRITTEN} ?w)) (Some {WRITTEN}) ({} \<union> {TRANSPORT})"
    by (rule wk_sleep) (simp add: wait_for_def wake_by_def send_waker_new_def)
  from this no_signal_lost [OF this] show ?thesis by simp
qed

end
