(* ===== verification/Buf_Map.thy ===== *)
theory Buf_Map
  imports Send_Waker
begin

section \<open>The map of the send buffer: qrecovery/src/send/sndbuf.rs, BufMap\<close>

text \<open>
  The sender of a stream keeps, for every byte written, whether it is still to be sent
  (\<open>Pending\<close>), in flight, judged lost or acknowledged. \<open>BufMap\<close> stores this as a deque of
  interval starts: each \<open>State\<close> gives the colour of the bytes from its offset up to the next
  state's offset, the last one up to the end position; bytes before the first state have been
  acknowledged and forgotten.

  In the source a \<open>State\<close> is one \<open>u64\<close>, the colour in its two top bits; the packed form and
  the proof that it represents the pair used here are in theory \<open>Packed_State\<close>. The
  \<open>debug_assert!\<close>s are panics of the model, so a theorem that an operation returns also shows that
  they hold.
\<close>

datatype color = Pending | Flighting | Recved | Lost

datatype state = State (st_offset: nat) (st_color: color)

definition set_color :: "color \<Rightarrow> state \<Rightarrow> state" where
  "set_color c s = State (st_offset s) c"

record buf_map =
  bm_states :: "state list"
  bm_end :: nat

subsection \<open>Searching and merging\<close>

text \<open>
  \<open>VecDeque::binary_search_by\<close> on offsets in increasing order: the index of the state that starts
  at \<open>key\<close>, or the index where such a state would be inserted.
\<close>

definition lower_bound :: "nat \<Rightarrow> state list \<Rightarrow> nat" where
  "lower_bound key xs = length (takeWhile (\<lambda>s. st_offset s < key) xs)"

definition binary_search :: "nat \<Rightarrow> state list \<Rightarrow> nat + nat" where
  "binary_search key xs =
     (let i = lower_bound key xs
      in if i < length xs \<and> st_offset (xs ! i) = key then Inr i else Inl i)"

text \<open>\<open>same_before\<close>: index 0 steps to \<open>usize::MAX\<close>, which is out of the deque.\<close>

fun same_before :: "state list \<Rightarrow> nat \<Rightarrow> color \<Rightarrow> nat" where
  "same_before xs 0 c = 0"
| "same_before xs (Suc i) c =
     (case get xs i of
        Some s \<Rightarrow> if st_color s = c then same_before xs i c else Suc i
      | None \<Rightarrow> Suc i)"

text \<open>
  \<open>same_after\<close> starts one after its argument, with wrap-around: callers pass
  \<open>drain_end.overflowing_sub(1)\<close>, which is \<open>usize::MAX\<close> for 0. The loop is \<open>run_end\<close>,
  the index behind the run of states of that colour.
\<close>

definition wsub1 :: "nat \<Rightarrow> nat" where
  "wsub1 i = (i + (u64_bound - 1)) mod u64_bound"

definition wadd1 :: "nat \<Rightarrow> nat" where
  "wadd1 i = (i + 1) mod u64_bound"

function run_end :: "state list \<Rightarrow> nat \<Rightarrow> color \<Rightarrow> nat" where
  "run_end xs i c =
     (case get xs i of
        Some s \<Rightarrow> if st_color s = c then run_end xs (Suc i) c else i
      | None \<Rightarrow> i)"
  by pat_completeness auto
termination
  by (relation "measure (\<lambda>(xs, i, c). length xs - i)") (auto simp: get_def split: if_splits)

declare run_end.simps [simp del]

definition same_after :: "state list \<Rightarrow> nat \<Rightarrow> color \<Rightarrow> nat" where
  "same_after xs i c = wsub1 (run_end xs (wadd1 i) c)"

definition merge_after :: "nat \<Rightarrow> color \<Rightarrow> state list \<Rightarrow> state list" where
  "merge_after i c xs =
     (let sa = same_after xs i c
      in if i < sa then drain_range (i + 1) (sa + 1) xs else xs)"

subsection \<open>Writing and picking\<close>

definition extend_to :: "nat \<Rightarrow> buf_map \<Rightarrow> (nat \<times> buf_map) run" where
  "extend_to pos m =
     assert_run (pos < push_bit 62 1 \<and> bm_end m < pos)
       (if bm_end m < pos
        then let xs = bm_states m;
                 xs' = (if xs \<noteq> [] \<and> st_color (last xs) = Pending then xs
                        else xs @ [State (bm_end m) Pending])
             in Ret (pos, \<lparr>bm_states = xs', bm_end = pos\<rparr>)
        else Ret (bm_end m, m))"

definition sent :: "buf_map \<Rightarrow> nat" where
  "sent m =
     (if bm_states m \<noteq> [] \<and> st_color (last (bm_states m)) = Pending
      then st_offset (last (bm_states m)) else bm_end m)"

text \<open>
  \<open>pick\<close> looks for the first state that may be sent; on the way it records why nothing was found.
\<close>

fun pick_find :: "nat \<Rightarrow> nat \<Rightarrow> state list \<Rightarrow> signals \<Rightarrow> (nat \<times> state) option \<times> signals" where
  "pick_find flow_limit i [] sigs = (None, sigs)"
| "pick_find flow_limit i (s # ss) sigs =
     (case st_color s of
        Pending \<Rightarrow>
          if flow_limit \<noteq> 0 then (Some (i, s), sigs)
          else pick_find flow_limit (Suc i) ss (sigs - {WRITTEN} \<union> {FLOW_CONTROL})
      | Lost \<Rightarrow> (Some (i, s), sigs)
      | _ \<Rightarrow> pick_find flow_limit (Suc i) ss sigs)"

definition pick_split :: "nat \<Rightarrow> state \<Rightarrow> nat \<Rightarrow> buf_map \<Rightarrow> (((nat \<times> nat) \<times> bool) \<times> buf_map) run" where
  "pick_split index origin allowance m =
     (let xs = (bm_states m)[index := set_color Flighting (bm_states m ! index)];
          start = st_offset origin;
          color = st_color origin;
          end0 = (case get xs (index + 1) of Some s \<Rightarrow> st_offset s | None \<Rightarrow> bm_end m);
          i = same_before xs index Flighting
      in bind_run (add64 start allowance) (\<lambda>limit.
           let (end1, i', xs') =
                 (if limit < end0
                  then (limit, i + 1,
                        if i < index then xs[i + 1 := State limit color]
                        else insert_at (i + 1) (State limit color) xs)
                  else (end0, i, merge_after index Flighting xs));
               xs'' = (if i' < index then drain_range (i' + 1) (index + 1) xs' else xs')
           in Ret (((start, end1), color = Pending), m\<lparr>bm_states := xs''\<rparr>)))"

definition pick ::
    "(nat \<Rightarrow> nat option) \<Rightarrow> nat \<Rightarrow> buf_map \<Rightarrow> ((signals + (nat \<times> nat) \<times> bool) \<times> buf_map) run" where
  "pick predicate flow_limit m =
     (case pick_find flow_limit 0 (bm_states m) {WRITTEN, TRANSPORT} of
        (None, sigs) \<Rightarrow> Ret (Inl sigs, m)
      | (Some (index, state), sigs) \<Rightarrow>
          (case predicate (st_offset state) of
             None \<Rightarrow> Ret (Inl (sigs \<union> {CONGESTION}), m)
           | Some available \<Rightarrow>
               bind_run
                 (pick_split index state
                    (if st_color state = Lost then available else min available flow_limit) m)
                 (\<lambda>(r, m'). Ret (Inr r, m'))))"

subsection \<open>Acknowledged and lost ranges\<close>

text \<open>
  Both operations end with the same edit: put a state at the start of the range, one at its end,
  and drain what lies between.
\<close>

definition put_or_insert :: "nat \<Rightarrow> nat \<Rightarrow> state \<Rightarrow> state list \<Rightarrow> state list" where
  "put_or_insert i drain_end s xs = (if i < drain_end then xs[i := s] else insert_at i s xs)"

definition finish_edit ::
    "nat \<Rightarrow> nat \<Rightarrow> bool \<Rightarrow> state \<Rightarrow> bool \<Rightarrow> state \<Rightarrow> state list \<Rightarrow> state list" where
  "finish_edit drain_start drain_end at_start s1 at_end s2 xs =
     (let (xs1, ds1) = (if at_start then (put_or_insert drain_start drain_end s1 xs, drain_start + 1)
                        else (xs, drain_start));
          (xs2, ds2) = (if at_end then (put_or_insert ds1 drain_end s2 xs1, ds1 + 1) else (xs1, ds1))
      in if ds2 < drain_end then drain_range ds2 drain_end xs2 else xs2)"

function ack_scan :: "nat \<Rightarrow> nat \<Rightarrow> state list \<Rightarrow> nat \<Rightarrow> color \<Rightarrow> (nat \<times> bool \<times> color) run" where
  "ack_scan bend rend xs drain_end pre_color =
     (case get xs drain_end of
        Some s \<Rightarrow>
          if st_offset s < rend
          then assert_run (st_color s \<noteq> Pending) (ack_scan bend rend xs (drain_end + 1) (st_color s))
          else if st_offset s = rend
          then Ret (wadd1 (same_after xs (wsub1 drain_end) Recved), False, pre_color)
          else Ret (drain_end, pre_color \<noteq> Recved, pre_color)
      | None \<Rightarrow>
          assert_run (rend \<le> bend) (Ret (drain_end, rend < bend \<and> pre_color \<noteq> Recved, pre_color)))"
  by pat_completeness auto
termination
  by (relation "measure (\<lambda>(b, r, xs, i, c). length xs - i)") (auto simp: get_def split: if_splits)

declare ack_scan.simps [simp del]

definition ack_rcvd :: "nat \<times> nat \<Rightarrow> buf_map \<Rightarrow> buf_map run" where
  "ack_rcvd rng m =
     (let (rstart, rend) = rng; xs = bm_states m
      in bind_run
           (case binary_search rstart xs of
              Inr idx \<Rightarrow>
                (let pre_color = st_color (xs ! idx);
                     xs1 = xs[idx := set_color Recved (xs ! idx)]
                 in assert_run (pre_color \<noteq> Pending)
                      (Ret (xs1, same_before xs1 idx Recved + 1, False, idx + 1, pre_color)))
            | Inl idx \<Rightarrow>
                if idx = 0 then Ret (xs, 0, False, 0, Recved)
                else let pre_color = st_color (xs ! (idx - 1))
                     in assert_run (pre_color \<noteq> Pending)
                          (Ret (xs, idx, pre_color \<noteq> Recved, idx, pre_color)))
           (\<lambda>(xs1, drain_start, at_start, drain_end, pre_color).
              bind_run (ack_scan (bm_end m) rend xs1 drain_end pre_color)
                (\<lambda>(drain_end', at_end, pre_color').
                   Ret (m\<lparr>bm_states :=
                     finish_edit drain_start drain_end' at_start (State rstart Recved)
                       at_end (State rend pre_color') xs1\<rparr>))))"

fun drop_recved :: "state list \<Rightarrow> state list" where
  "drop_recved [] = []"
| "drop_recved (s # ss) = (if st_color s = Recved then drop_recved ss else s # ss)"

definition shift :: "buf_map \<Rightarrow> nat \<times> buf_map" where
  "shift m =
     (let xs = drop_recved (bm_states m); m' = m\<lparr>bm_states := xs\<rparr>
      in case xs of s # _ \<Rightarrow> (st_offset s, m') | [] \<Rightarrow> (bm_end m, m'))"

text \<open>\<open>lost_from\<close>: its loop calls the function again behind an acknowledged state.\<close>

definition lost_finish :: "nat \<Rightarrow> nat \<Rightarrow> bool \<Rightarrow> state \<Rightarrow> state list \<Rightarrow> state list" where
  "lost_finish idx_start idx at_end s xs =
     (let (xs1, is1) =
            (if at_end
             then (if idx_start + 1 < idx then xs[idx_start + 1 := s] else insert_at (idx_start + 1) s xs,
                   idx_start + 1)
             else (xs, idx_start))
      in if is1 + 1 < idx then drain_range (is1 + 1) idx xs1 else xs1)"

function lost_loop :: "nat \<Rightarrow> nat \<Rightarrow> state list \<Rightarrow> nat \<Rightarrow> nat \<Rightarrow> color \<Rightarrow> state list run" where
  "lost_loop bend rend xs idx_start idx pre_color =
     (case get xs idx of
        Some s \<Rightarrow>
          if st_offset s < rend
          then assert_run (st_color s \<noteq> Pending)
                 (if st_color s = Recved
                  then bind_run (lost_loop bend rend xs (idx + 1) (idx + 1) Recved)
                         (\<lambda>xs'. Ret (lost_finish idx_start idx False s xs'))
                  else lost_loop bend rend (xs[idx := set_color Lost s]) idx_start (idx + 1) (st_color s))
          else if st_offset s = rend
          then Ret (lost_finish idx_start (wadd1 (same_after xs (wsub1 idx) Lost)) False s xs)
          else Ret (lost_finish idx_start idx (pre_color = Flighting) (State rend pre_color) xs)
      | None \<Rightarrow>
          assert_run (rend \<le> bend)
            (Ret (lost_finish idx_start idx (rend < bend \<and> pre_color = Flighting)
                    (State rend pre_color) xs)))"
  by pat_completeness auto
termination
  by (relation "measure (\<lambda>(b, r, xs, is, i, c). length xs - i)") (auto simp: get_def split: if_splits)

declare lost_loop.simps [simp del]

definition lost_from :: "nat \<Rightarrow> nat \<Rightarrow> nat \<Rightarrow> state list \<Rightarrow> state list run" where
  "lost_from bend rend idx_start xs = lost_loop bend rend xs idx_start idx_start Recved"

function loss_scan ::
    "nat \<Rightarrow> nat \<Rightarrow> state list \<Rightarrow> nat \<Rightarrow> color \<Rightarrow> (state list \<times> nat \<times> bool \<times> color) run" where
  "loss_scan bend rend xs drain_end pre_color =
     (case get xs drain_end of
        Some s \<Rightarrow>
          if st_offset s < rend
          then assert_run (st_color s \<noteq> Pending)
                 (if st_color s = Recved
                  then bind_run (lost_from bend rend (drain_end + 1) xs)
                         (\<lambda>xs'. Ret (xs', drain_end, False, pre_color))
                  else loss_scan bend rend xs (drain_end + 1) (st_color s))
          else if st_offset s = rend
          then Ret (xs, wadd1 (same_after xs (wsub1 drain_end) Lost), False, pre_color)
          else Ret (xs, drain_end, pre_color = Flighting, pre_color)
      | None \<Rightarrow>
          assert_run (rend \<le> bend)
            (Ret (xs, drain_end, rend < bend \<and> pre_color = Flighting, pre_color)))"
  by pat_completeness auto
termination
  by (relation "measure (\<lambda>(b, r, xs, i, c). length xs - i)") (auto simp: get_def split: if_splits)

declare loss_scan.simps [simp del]

definition may_loss :: "nat \<times> nat \<Rightarrow> buf_map \<Rightarrow> buf_map run" where
  "may_loss rng m =
     (let (rstart, rend) = rng; xs = bm_states m;
          finish = (\<lambda>xs1 drain_start at_start drain_end pre_color.
             bind_run (loss_scan (bm_end m) rend xs1 drain_end pre_color)
               (\<lambda>(xs2, drain_end', at_end, pre_color').
                  Ret (m\<lparr>bm_states :=
                    finish_edit drain_start drain_end' at_start (State rstart Lost)
                      at_end (State rend pre_color') xs2\<rparr>)))
      in case binary_search rstart xs of
           Inr idx \<Rightarrow>
             (let pre_color = st_color (xs ! idx);
                  xs1 = (if pre_color = Flighting then xs[idx := set_color Lost (xs ! idx)] else xs);
                  drain_start = (if pre_color = Flighting then same_before xs1 idx Lost + 1 else idx + 1)
              in assert_run (pre_color \<noteq> Pending) (finish xs1 drain_start False (idx + 1) pre_color))
         | Inl idx \<Rightarrow>
             if idx = 0 then finish xs 1 False 0 Recved
             else let pre_color = st_color (xs ! (idx - 1))
                  in assert_run (pre_color \<noteq> Pending)
                       (if pre_color = Recved
                        then bind_run (lost_from (bm_end m) rend idx xs) (\<lambda>xs'. Ret (m\<lparr>bm_states := xs'\<rparr>))
                        else finish xs idx (pre_color = Flighting) idx pre_color))"

subsection \<open>The colour of every byte\<close>

text \<open>What a map means: the colour of each position, \<open>d\<close> before the first state.\<close>

fun color_at :: "state list \<Rightarrow> color \<Rightarrow> nat \<Rightarrow> color" where
  "color_at [] d p = d"
| "color_at (s # ss) d p = (if p < st_offset s then d else color_at ss (st_color s) p)"

definition bm_color :: "buf_map \<Rightarrow> nat \<Rightarrow> color" where
  "bm_color m p = color_at (bm_states m) Recved p"


text \<open>
  The shape of the deque: offsets increase, and only the last state can be \<open>Pending\<close>. While a stream is
  written every state starts before the end (\<open>bm_inv\<close>). An empty frame that carries only the end of the stream is
  acknowledged or lost as an empty range at the end, which can leave a last state of length 0 there: then the shape has the
  slack \<open>sl = 1\<close>.
\<close>

definition bm_wf :: "state list \<Rightarrow> bool" where
  "bm_wf xs \<longleftrightarrow> sorted_wrt (\<lambda>s t. st_offset s < st_offset t \<and> st_color s \<noteq> Pending) xs"

definition bm_shape :: "nat \<Rightarrow> buf_map \<Rightarrow> bool" where
  "bm_shape sl m \<longleftrightarrow>
     bm_wf (bm_states m) \<and> (\<forall>s \<in> set (bm_states m). st_offset s < bm_end m + sl) \<and>
     (\<forall>s \<in> set (bm_states m). bm_end m \<le> st_offset s \<longrightarrow> st_color s \<noteq> Pending) \<and> bm_end m < 2 ^ 62 \<and> sl \<le> 1"

abbreviation bm_inv :: "buf_map \<Rightarrow> bool" where
  "bm_inv \<equiv> bm_shape 0"

lemma bm_wf_append:
  "bm_wf (xs @ ys) \<longleftrightarrow>
     bm_wf xs \<and> bm_wf ys \<and>
     (\<forall>s \<in> set xs. \<forall>t \<in> set ys. st_offset s < st_offset t \<and> st_color s \<noteq> Pending)"
  by (auto simp: bm_wf_def sorted_wrt_append)

lemma bm_wf_Cons:
  "bm_wf (s # ys) \<longleftrightarrow>
     bm_wf ys \<and> (\<forall>t \<in> set ys. st_offset s < st_offset t \<and> st_color s \<noteq> Pending)"
  by (auto simp: bm_wf_def)

lemma bm_wf_Nil [simp]: "bm_wf []"
  by (simp add: bm_wf_def)

lemma bm_wf_dropWhile: "bm_wf xs \<Longrightarrow> bm_wf (dropWhile P xs)"
  by (metis bm_wf_append takeWhile_dropWhile_id)

lemma bm_wf_nth: "bm_wf xs \<Longrightarrow> i < j \<Longrightarrow> j < length xs \<Longrightarrow> st_offset (xs ! i) < st_offset (xs ! j)"
  by (simp add: bm_wf_def sorted_wrt_iff_nth_less)

lemma bm_wf_length: "bm_wf xs \<Longrightarrow> \<forall>s \<in> set xs. st_offset s < n \<Longrightarrow> length xs \<le> n"
proof -
  assume wf: "bm_wf xs" and lt: "\<forall>s \<in> set xs. st_offset s < n"
  have "sorted_wrt (<) (map st_offset xs)"
    using wf by (auto simp: bm_wf_def sorted_wrt_map elim: sorted_wrt_mono_rel [rotated])
  then have "distinct (map st_offset xs)" by (simp add: strict_sorted_iff)
  then have "length xs = card (set (map st_offset xs))" by (metis distinct_card length_map)
  also have "\<dots> \<le> card {..<n}" using lt by (intro card_mono) auto
  finally show ?thesis by simp
qed

lemma color_at_before: "\<forall>s \<in> set xs. p < st_offset s \<Longrightarrow> color_at xs d p = d"
  by (cases xs) auto

lemma color_at_after: "\<forall>s \<in> set xs. st_offset s \<le> p \<Longrightarrow> color_at xs d p = (if xs = [] then d else st_color (last xs))"
  by (induction xs arbitrary: d) auto

lemma color_at_append:
  "bm_wf (xs @ ys) \<Longrightarrow> color_at (xs @ ys) d p = color_at ys (color_at xs d p) p"
proof (induction xs arbitrary: d)
  case (Cons s xs)
  show ?case
  proof (cases "p < st_offset s")
    case True
    then have "color_at ys d p = d"
      using Cons.prems by (intro color_at_before) (auto simp: bm_wf_Cons dest!: bspec)
    with True show ?thesis by simp
  next
    case False
    with Cons show ?thesis by (simp add: bm_wf_Cons)
  qed
qed simp

lemma color_at_same: "\<forall>s \<in> set xs. st_color s = c \<Longrightarrow> color_at xs c p = c"
  by (induction xs) auto

lemma color_at_started: "xs \<noteq> [] \<Longrightarrow> st_offset (hd xs) \<le> p \<Longrightarrow> color_at xs d p = color_at xs e p"
  by (cases xs) auto

lemma color_at_range: "xs \<noteq> [] \<Longrightarrow> st_offset (hd xs) \<le> p \<Longrightarrow> \<exists>s \<in> set xs. color_at xs d p = st_color s"
proof (induction xs arbitrary: d)
  case (Cons s xs)
  then show ?case by (cases xs) auto
qed simp

lemma color_at_cong_prefix:
  assumes "bm_wf (A @ Z)" "bm_wf (B @ Z)" "color_at A d p = color_at B d p"
  shows "color_at (A @ Z) d p = color_at (B @ Z) d p"
  using assms by (simp add: color_at_append)

lemma color_at_dropWhile:
  assumes "bm_wf R"
  shows "color_at (dropWhile (\<lambda>s. st_color s = c) R) c p = color_at R c p"
proof -
  let ?P = "\<lambda>s. st_color s = c"
  have "color_at (takeWhile ?P R @ dropWhile ?P R) c p =
      color_at (dropWhile ?P R) (color_at (takeWhile ?P R) c p) p"
    using assms by (subst color_at_append) simp_all
  moreover have "color_at (takeWhile ?P R) c p = c"
    by (rule color_at_same) (auto dest: set_takeWhileD)
  ultimately show ?thesis by simp
qed

text \<open>
  Painting: the states \<open>M\<close> that start inside \<open>[rs, re)\<close> are replaced by colour \<open>X\<close>. The
  prefix \<open>A\<close> ends in colour \<open>X\<close>, a state at \<open>re\<close> restores the colour that was there
  where it is needed, and a run of states of colour \<open>X\<close> behind the range may be merged. All four
  operations of the map that change colours are instances.
\<close>

lemma paint:
  assumes wf: "bm_wf (L @ M @ R)" and L: "\<forall>s \<in> set L. st_offset s < rs"
    and M: "\<forall>s \<in> set M. rs \<le> st_offset s \<and> st_offset s < re" and R: "\<forall>s \<in> set R. re \<le> st_offset s"
    and range: "rs < re" and X: "X \<noteq> Pending"
    and A: "bm_wf A" "\<forall>s \<in> set A. st_offset s \<le> rs \<and> st_color s \<noteq> Pending"
      "\<And>p. color_at A d p = (if rs \<le> p then X else color_at L d p)"
    and E: "at_end \<longrightarrow> c2 = color_at (L @ M) d re \<and> (\<forall>s \<in> set R. re < st_offset s) \<and> (c2 \<noteq> Pending \<or> R = [])"
      "at_end \<or> color_at (L @ M) d re = X \<or> (R \<noteq> [] \<and> st_offset (hd R) = re) \<or> (R = [] \<and> bend \<le> re)"
    and R': "R' = R \<or> (\<not> at_end \<and> R' = dropWhile (\<lambda>s. st_color s = X) R)"
  shows "bm_wf (A @ (if at_end then [State re c2] else []) @ R')"
    and "p < bend \<Longrightarrow> color_at (A @ (if at_end then [State re c2] else []) @ R') d p =
           (if rs \<le> p \<and> p < re then X else color_at (L @ M @ R) d p)"
proof -
  let ?E = "if at_end then [State re c2] else []"
  have R'set: "set R' \<subseteq> set R" using R' by (auto dest: set_dropWhileD)
  have wfR: "bm_wf R" using wf by (simp add: bm_wf_append)
  then have wfR': "bm_wf R'" using R' bm_wf_dropWhile by auto
  show wf': "bm_wf (A @ ?E @ R')"
    using A(1,2) E(1) R R'set wfR' range by (auto simp: bm_wf_append bm_wf_Cons; fastforce)
  show "color_at (A @ ?E @ R') d p = (if rs \<le> p \<and> p < re then X else color_at (L @ M @ R) d p)"
    if "p < bend"
  proof -
    have split: "color_at (A @ ?E @ R') d p = color_at (?E @ R') (color_at A d p) p"
      "color_at (L @ M @ R) d p = color_at R (color_at (L @ M) d p) p"
      using color_at_append [OF wf'] color_at_append [of "L @ M" R] wf by simp_all
    consider (low) "p < rs" | (mid) "rs \<le> p" "p < re" | (high) "re \<le> p" by linarith
    then show ?thesis
    proof cases
      case low
      have "color_at (L @ M @ R) d p = color_at L d p"
        using low L M R range color_at_append [OF wf] color_at_before [of "M @ R" p]
        by (metis (no_types, lifting) Un_iff less_le_trans set_append order.strict_trans)
      moreover have "color_at (?E @ R') (color_at A d p) p = color_at A d p"
        using low range R R'set by (intro color_at_before) fastforce
      ultimately show ?thesis using low split A(3) by simp
    next
      case mid
      have "color_at (?E @ R') (color_at A d p) p = color_at A d p"
        using mid R R'set by (intro color_at_before) fastforce
      then show ?thesis using mid split A(3) by simp
    next
      case high
      have LM: "color_at (L @ M) d p = color_at (L @ M) d re"
        using high L M range by (subst (1 2) color_at_after) fastforce+
      show ?thesis
      proof (cases at_end)
        case True
        then have "R' = R" using R' by simp
        then show ?thesis using True high E(1) split LM range by simp
      next
        case False
        have "color_at R' X p = color_at R X p"
          using R' color_at_dropWhile [OF wfR] by auto
        moreover have "color_at R X p = color_at R (color_at (L @ M) d re) p"
          using E(2) False high that color_at_started [of R p] by auto
        ultimately show ?thesis using False high split LM A(3) range by simp
      qed
    qed
  qed
qed

subsection \<open>The loops in closed form\<close>

lemma run_end_eq: "run_end xs i c = i + length (takeWhile (\<lambda>s. st_color s = c) (drop i xs))"
proof (induction xs i c rule: run_end.induct)
  case (1 xs i c)
  show ?case
  proof (cases "i < length xs")
    case True
    then show ?thesis
      using 1 by (simp add: run_end.simps [of xs i c] get_def Cons_nth_drop_Suc [symmetric])
  next
    case False
    then show ?thesis by (simp add: run_end.simps [of xs i c] get_def)
  qed
qed

lemma run_end_bounds: "i \<le> run_end xs i c" "i \<le> length xs \<Longrightarrow> run_end xs i c \<le> length xs"
proof -
  have "length (takeWhile (\<lambda>s. st_color s = c) (drop i xs)) \<le> length xs - i"
    using length_takeWhile_le [of _ "drop i xs"] by simp
  then show "i \<le> run_end xs i c" "i \<le> length xs \<Longrightarrow> run_end xs i c \<le> length xs"
    unfolding run_end_eq by linarith+
qed

lemma drop_run_end: "drop (run_end xs i c) xs = dropWhile (\<lambda>s. st_color s = c) (drop i xs)"
  unfolding run_end_eq by (metis add.commute drop_drop drop_length_takeWhile)

lemma wadd1_wsub1: "n < u64_bound \<Longrightarrow> wadd1 (wsub1 n) = n"
  by (cases n) (simp_all add: wadd1_def wsub1_def)

lemma same_after_wrapped:
  assumes "i \<le> length xs" and "length xs < u64_bound"
  shows "wadd1 (same_after xs (wsub1 i) c) = run_end xs i c"
  using assms run_end_bounds(2) [of i xs c] by (simp add: same_after_def wadd1_wsub1)

lemma wsub1_Suc: "n < u64_bound \<Longrightarrow> 0 < n \<Longrightarrow> wsub1 n = n - 1"
  by (cases n) (simp_all add: wsub1_def)

lemma merge_after_eq:
  assumes "i < length xs" and "length xs < u64_bound"
  shows "merge_after i c xs = take (i + 1) xs @ dropWhile (\<lambda>s. st_color s = c) (drop (i + 1) xs)"
proof -
  define r where "r = run_end xs (i + 1) c"
  have r: "i + 1 \<le> r" "r \<le> length xs" using run_end_bounds [of "i + 1" xs c] assms(1) by (simp_all add: r_def)
  have "same_after xs i c = r - 1"
    using assms r unfolding same_after_def r_def by (simp add: wadd1_def wsub1_Suc)
  moreover have "dropWhile (\<lambda>s. st_color s = c) (drop (i + 1) xs) = drop r xs"
    unfolding r_def drop_run_end ..
  ultimately show ?thesis
    using r by (cases "r = i + 1") (auto simp: merge_after_def drain_range_def Let_def)
qed

lemma same_before_run:
  assumes "i \<le> length xs"
  shows "same_before xs i c \<le> i" and "\<forall>k. same_before xs i c \<le> k \<and> k < i \<longrightarrow> st_color (xs ! k) = c"
  using assms
proof (induction i)
  case (Suc i)
  { case 1 then show ?case using Suc by (auto simp: get_def le_SucI)
  next
    case 2
    then show ?case using Suc by (auto simp: get_def less_Suc_eq) }
qed auto

text \<open>A prefix that ends in colour \<open>c\<close> may be cut at the start of its last run of that colour.\<close>

lemma cut_same_before:
  assumes wf: "bm_wf xs" and i: "i < length xs" and c: "st_color (xs ! i) = c"
  defines "j \<equiv> same_before xs i c"
  shows "j \<le> i" and "color_at (take (j + 1) xs) d p = color_at (take (i + 1) xs) d p"
    and "bm_wf (take (j + 1) xs)" and "set (take (j + 1) xs) \<subseteq> set (take (i + 1) xs)"
proof -
  show ji: "j \<le> i" unfolding j_def using i by (intro same_before_run) simp
  have run: "st_color (xs ! k) = c" if "j \<le> k" "k \<le> i" for k
    using same_before_run(2) [of i xs c] i c that by (cases "k = i") (auto simp: j_def)
  define T where "T = drop (j + 1) (take (i + 1) xs)"
  have eq: "take (i + 1) xs = take (j + 1) xs @ T"
    using ji by (simp add: T_def) (metis add.commute append_take_drop_id le_add_diff_inverse take_add plus_1_eq_Suc Suc_le_mono min.absorb1 take_take)
  have wf1: "bm_wf (take (j + 1) xs @ T)" using wf eq by (metis append_take_drop_id bm_wf_append)
  then show "bm_wf (take (j + 1) xs)" by (simp add: bm_wf_append)
  show "set (take (j + 1) xs) \<subseteq> set (take (i + 1) xs)" using eq by auto
  have T: "st_color s = c" if "s \<in> set T" for s
  proof -
    from that obtain k where "k < length T" "s = T ! k" by (metis in_set_conv_nth)
    then show ?thesis using run [of "j + 1 + k"] i ji by (simp add: T_def)
  qed
  have last: "last (take (j + 1) xs) = xs ! j" "take (j + 1) xs \<noteq> []"
    using i ji by (auto simp: take_Suc_conv_app_nth)
  show "color_at (take (j + 1) xs) d p = color_at (take (i + 1) xs) d p"
  proof (cases "st_offset (xs ! j) \<le> p")
    case True
    have "\<forall>s \<in> set (take (j + 1) xs). st_offset s \<le> p"
    proof
      fix s assume "s \<in> set (take (j + 1) xs)"
      then obtain k where k: "k \<le> j" "s = xs ! k"
        using i ji by (auto simp: in_set_conv_nth less_Suc_eq_le)
      then show "st_offset s \<le> p"
        using bm_wf_nth [OF wf, of k j] i ji True by (cases "k = j") auto
    qed
    then have "color_at (take (j + 1) xs) d p = c"
      using last run [of j] ji by (simp add: color_at_after)
    then show ?thesis
      using color_at_append [OF wf1] color_at_same [of T c] T eq by simp
  next
    case False
    have "\<forall>s \<in> set T. p < st_offset s"
    proof
      fix s assume "s \<in> set T"
      then have "st_offset (xs ! j) < st_offset s"
        using wf1 last by (metis bm_wf_append last_in_set)
      then show "p < st_offset s" using False by simp
    qed
    then show ?thesis using color_at_append [OF wf1] color_at_before [of T p] eq by simp
  qed
qed

lemma finish_edit_eq:
  assumes "ds \<le> de" and "de \<le> length xs"
  shows "finish_edit ds de a s1 b s2 xs =
    take ds xs @ (if a then [s1] else []) @ (if b then [s2] else []) @ drop de xs"
proof -
  define P M S where "P = take ds xs" and "M = drop ds (take de xs)" and "S = drop de xs"
  have "take de xs = P @ M" using assms by (metis M_def P_def append_take_drop_id min.absorb1 take_take)
  then have xs: "xs = P @ M @ S" by (metis S_def append.assoc append_take_drop_id)
  have len: "length P = ds" "de = ds + length M" using assms by (simp_all add: P_def M_def)
  consider "M = []" | m where "M = [m]" | m m' M' where "M = m # m' # M'"
    by (metis list.exhaust)
  then show ?thesis
    unfolding xs len(2)
    by cases (auto simp: finish_edit_def put_or_insert_def drain_range_def insert_at_def
        list_update_append len(1) [symmetric])
qed

subsection \<open>Acknowledging a range\<close>

text \<open>The states from index \<open>i\<close> on that start before \<open>re\<close>, and those behind them.\<close>

definition inside :: "state list \<Rightarrow> nat \<Rightarrow> nat \<Rightarrow> state list" where
  "inside xs i re = takeWhile (\<lambda>s. st_offset s < re) (drop i xs)"

definition last_color :: "state list \<Rightarrow> color \<Rightarrow> color" where
  "last_color M c = (if M = [] then c else st_color (last M))"

lemma inside_step:
  "i < length xs \<Longrightarrow> st_offset (xs ! i) < re \<Longrightarrow> inside xs i re = xs ! i # inside xs (Suc i) re"
  by (simp add: inside_def Cons_nth_drop_Suc [symmetric])

lemma inside_stop: "i < length xs \<Longrightarrow> \<not> st_offset (xs ! i) < re \<Longrightarrow> inside xs i re = []"
  "length xs \<le> i \<Longrightarrow> inside xs i re = []"
  by (simp_all add: inside_def Cons_nth_drop_Suc [symmetric])

lemma last_color_Cons: "last_color (s # M) c = last_color M (st_color s)"
  by (simp add: last_color_def)

text \<open>The end of the edit both scans compute: merge a run of colour \<open>X\<close>, or restore a colour.\<close>

definition scan_end :: "color \<Rightarrow> (color \<Rightarrow> bool) \<Rightarrow> nat \<Rightarrow> nat \<Rightarrow> state list \<Rightarrow> nat \<Rightarrow> color \<Rightarrow> nat \<times> bool \<times> color" where
  "scan_end X keep bend re xs i pre =
     (if i < length xs
      then if st_offset (xs ! i) = re then (run_end xs i X, False, pre) else (i, keep pre, pre)
      else (i, re < bend \<and> keep pre, pre))"

lemma ack_scan_eq:
  assumes "length xs < u64_bound" and "re \<le> bend" and "i \<le> length xs"
    and "\<forall>s \<in> set (inside xs i re). st_color s \<noteq> Pending"
  shows "ack_scan bend re xs i pre =
    Ret (scan_end Recved (\<lambda>c. c \<noteq> Recved) bend re xs (i + length (inside xs i re)) (last_color (inside xs i re) pre))"
  using assms
proof (induction bend re xs i pre rule: ack_scan.induct)
  case (1 bend re xs i pre)
  note unf = ack_scan.simps [of bend re xs i pre]
  show ?case
  proof (cases "i < length xs")
    case True
    show ?thesis
    proof (cases "st_offset (xs ! i) < re")
      case lt: True
      then show ?thesis
        using "1.IH" [of "xs ! i"] "1.prems" True
        by (simp add: unf get_def inside_step last_color_Cons)
    next
      case False
      then show ?thesis
        using True same_after_wrapped [of i xs Recved] "1.prems"
        by (auto simp: unf get_def inside_stop scan_end_def last_color_def)
    qed
  next
    case False
    then show ?thesis
      using "1.prems" by (subst unf) (simp add: get_def inside_stop scan_end_def last_color_def)
  qed
qed

lemma scan_end_paint:
  assumes xs: "xs = L @ M @ R" and wf: "bm_wf (L @ M @ R)" and L: "\<forall>s \<in> set L. st_offset s < rs"
    and M: "\<forall>s \<in> set M. rs \<le> st_offset s \<and> st_offset s < re" and R: "\<forall>s \<in> set R. re \<le> st_offset s"
    and range: "rs < re" "re \<le> bend" and bnd: "\<forall>s \<in> set R. st_offset s \<le> bend" and X: "X \<noteq> Pending"
    and A: "bm_wf A" "\<forall>s \<in> set A. st_offset s \<le> rs \<and> st_color s \<noteq> Pending"
      "\<And>p. color_at A d p = (if rs \<le> p then X else color_at L d p)"
    and c: "c = color_at (L @ M) d re" "c \<noteq> Pending" "keep c \<or> c = X"
    and scan: "scan_end X keep bend re xs (length L + length M) c = (de, at_end, c')"
  defines "ys \<equiv> A @ (if at_end then [State re c'] else []) @ drop de xs"
  shows "length L + length M \<le> de" and "de \<le> length xs" and "bm_wf ys"
    and "p < bend \<Longrightarrow> color_at ys d p = (if rs \<le> p \<and> p < re then X else color_at xs d p)"
    and "\<forall>s \<in> set ys. s \<in> set A \<or> (at_end \<and> s = State re c') \<or> s \<in> set xs" and "at_end \<Longrightarrow> re < bend"
proof -
  let ?k = "length L + length M"
  have dropk: "drop ?k xs = R" by (simp add: xs)
  have k: "?k \<le> length xs" by (simp add: xs)
  have hdR: "xs ! ?k = hd R" if "R \<noteq> []" using that by (simp add: xs nth_append hd_conv_nth)
  have nonempty: "?k < length xs \<longleftrightarrow> R \<noteq> []" by (simp add: xs)
  have c': "c' = c" using scan by (auto simp: scan_end_def split: if_splits)
  have greater: "\<forall>s \<in> set R. re < st_offset s" if "at_end"
  proof (cases R)
    case (Cons r R')
    then have "st_offset r \<noteq> re" using scan that nonempty hdR by (auto simp: scan_end_def split: if_splits)
    with Cons R wf show ?thesis by (auto simp: bm_wf_append bm_wf_Cons)
  qed simp
  show "length L + length M \<le> de" and "de \<le> length xs"
    using scan k run_end_bounds [of ?k xs X] by (auto simp: scan_end_def split: if_splits)
  show "re < bend" if "at_end"
  proof (cases "R = []")
    case True
    then show ?thesis using scan that nonempty by (auto simp: scan_end_def split: if_splits)
  next
    case False
    then have "hd R \<in> set R" by simp
    then show ?thesis using greater [OF that] bnd by fastforce
  qed
  have R': "drop de xs = R \<or> (\<not> at_end \<and> drop de xs = dropWhile (\<lambda>s. st_color s = X) R)"
    using scan dropk drop_run_end [of xs ?k X] by (auto simp: scan_end_def split: if_splits)
  have E1: "at_end \<longrightarrow> c' = color_at (L @ M) d re \<and> (\<forall>s \<in> set R. re < st_offset s) \<and> (c' \<noteq> Pending \<or> R = [])"
    using c greater c' by simp
  have E2: "at_end \<or> color_at (L @ M) d re = X \<or> (R \<noteq> [] \<and> st_offset (hd R) = re) \<or> (R = [] \<and> bend \<le> re)"
    using scan c nonempty hdR by (auto simp: scan_end_def split: if_splits)
  note p = paint [OF wf L M R range(1) X A E1 E2 R']
  show "bm_wf ys" unfolding ys_def by (rule p(1))
  show "color_at ys d p = (if rs \<le> p \<and> p < re then X else color_at xs d p)" if "p < bend"
    unfolding ys_def xs by (rule p(2) [OF that, unfolded xs])
  show "\<forall>s \<in> set ys. s \<in> set A \<or> (at_end \<and> s = State re c') \<or> s \<in> set xs"
    by (auto simp: ys_def dest: in_set_dropD)
qed

lemma color_at_mem: "bm_wf xs \<Longrightarrow> s \<in> set xs \<Longrightarrow> color_at xs d (st_offset s) = st_color s"
proof -
  assume wf: "bm_wf xs" and "s \<in> set xs"
  then obtain A B where xs: "xs = A @ s # B" by (meson split_list)
  have "color_at xs d (st_offset s) = color_at (s # B) (color_at A d (st_offset s)) (st_offset s)"
    using wf by (simp only: xs color_at_append)
  also have "\<dots> = st_color s"
    using wf by (auto simp: xs bm_wf_append bm_wf_Cons intro: color_at_before)
  finally show ?thesis .
qed

text \<open>Cutting the deque at a range: before it, inside it, behind it.\<close>

lemma cut_range:
  assumes wf: "bm_wf xs" and "rs < re"
  defines "i \<equiv> lower_bound rs xs"
  shows "xs = take i xs @ inside xs i re @ drop (i + length (inside xs i re)) xs"
    and "\<forall>s \<in> set (take i xs). st_offset s < rs"
    and "\<forall>s \<in> set (inside xs i re). rs \<le> st_offset s \<and> st_offset s < re"
    and "\<forall>s \<in> set (drop (i + length (inside xs i re)) xs). re \<le> st_offset s"
    and "i \<le> length xs" and "i < length xs \<Longrightarrow> rs \<le> st_offset (xs ! i)"
proof -
  have D: "drop i xs = dropWhile (\<lambda>s. st_offset s < rs) xs"
    by (simp add: i_def lower_bound_def drop_length_takeWhile)
  have T: "take i xs = takeWhile (\<lambda>s. st_offset s < rs) xs"
    by (simp add: i_def lower_bound_def takeWhile_is_prefix)
  have tail: "\<forall>s \<in> set (dropWhile (\<lambda>s. st_offset s < q) ys). q \<le> st_offset s" if "bm_wf ys" for q ys
    using that
  proof (induction ys)
    case (Cons y ys)
    then show ?case by (auto simp: bm_wf_Cons)
  qed simp
  have wfD: "bm_wf (drop i xs)" using wf by (metis append_take_drop_id bm_wf_append)
  have I: "drop (i + length (inside xs i re)) xs = dropWhile (\<lambda>s. st_offset s < re) (drop i xs)"
    by (metis add.commute drop_drop drop_length_takeWhile inside_def)
  show "xs = take i xs @ inside xs i re @ drop (i + length (inside xs i re)) xs"
    by (metis I append_take_drop_id inside_def takeWhile_dropWhile_id)
  show "\<forall>s \<in> set (take i xs). st_offset s < rs" unfolding T by (auto dest: set_takeWhileD)
  show "\<forall>s \<in> set (inside xs i re). rs \<le> st_offset s \<and> st_offset s < re"
    using tail [OF wf, of rs] unfolding inside_def D [symmetric]
    by (auto dest: set_takeWhileD)
  show "\<forall>s \<in> set (drop (i + length (inside xs i re)) xs). re \<le> st_offset s"
    unfolding I by (rule tail [OF wfD])
  show "i \<le> length xs" by (simp add: i_def lower_bound_def length_takeWhile_le)
  show "rs \<le> st_offset (xs ! i)" if "i < length xs"
    using tail [OF wf, of rs] that unfolding D [symmetric] by (metis Cons_nth_drop_Suc list.set_intros(1))
qed

lemma last_color_color_at:
  "\<forall>s \<in> set xs. st_offset s \<le> p \<Longrightarrow> color_at xs d p = last_color xs d"
  by (simp add: color_at_after last_color_def)

lemma last_color_append: "last_color (xs @ ys) d = last_color ys (last_color xs d)"
  by (simp add: last_color_def)

lemma last_color_mem: "\<forall>s \<in> set M. st_color s \<in> C \<Longrightarrow> M = [] \<longrightarrow> d \<in> C \<Longrightarrow> last_color M d \<in> C"
  by (simp add: last_color_def)

lemma paint_prefix_plain:
  assumes "\<forall>s \<in> set L. st_offset s < rs"
  shows "color_at (L @ [State rs X]) d p = (if rs \<le> p then X else color_at L d p)"
  using assms by (induction L arbitrary: d) auto

lemma paint_prefix_same:
  assumes "\<forall>s \<in> set L. st_offset s < rs" and "last_color L d = X"
  shows "color_at L d p = (if rs \<le> p then X else color_at L d p)"
proof (cases "rs \<le> p")
  case True
  then have "\<forall>s \<in> set L. st_offset s \<le> p" using assms(1) by fastforce
  then show ?thesis using True assms(2) by (simp add: last_color_color_at)
qed simp

lemma scan_end_drop:
  assumes "drop i xs = drop i ys" and "length xs = length ys"
  shows "scan_end X keep bend re xs i c = scan_end X keep bend re ys i c"
proof -
  have "i < length xs \<Longrightarrow> xs ! i = ys ! i" using assms by (metis hd_drop_conv_nth)
  then show ?thesis using assms by (simp add: scan_end_def run_end_eq)
qed

lemma binary_search_cases:
  obtains (found) i where "binary_search key xs = Inr i" "i = lower_bound key xs" "i < length xs"
      "st_offset (xs ! i) = key"
  | (absent) i where "binary_search key xs = Inl i" "i = lower_bound key xs"
      "i < length xs \<Longrightarrow> st_offset (xs ! i) \<noteq> key"
  by (cases "binary_search key xs") (auto simp: binary_search_def Let_def split: if_splits)

lemma inside_update: "inside (xs[i := s]) (Suc i) re = inside xs (Suc i) re"
  by (simp add: inside_def)

lemma bm_wf_recolor:
  assumes "bm_wf xs" and "i < length xs" and "c \<noteq> Pending"
  shows "bm_wf (xs[i := State (st_offset (xs ! i)) c])"
proof -
  have "xs = take i xs @ xs ! i # drop (Suc i) xs" using assms(2) by (rule id_take_nth_drop)
  then have "bm_wf (take i xs @ xs ! i # drop (Suc i) xs)" using assms(1) by simp
  then show ?thesis
    using assms(2,3) by (simp add: upd_conv_take_nth_drop bm_wf_append bm_wf_Cons)
qed

text \<open>
  One map is another with a range painted in a colour; the three lemmas below give the prefix and
  the result every painting operation shares.
\<close>

definition painted_shape :: "nat \<Rightarrow> buf_map \<Rightarrow> nat \<Rightarrow> nat \<Rightarrow> color \<Rightarrow> buf_map \<Rightarrow> bool" where
  "painted_shape sl m rs re X m' \<longleftrightarrow>
     bm_shape sl m' \<and> bm_end m' = bm_end m \<and>
     (\<forall>p < bm_end m. bm_color m' p = (if rs \<le> p \<and> p < re then X else bm_color m p))"

abbreviation painted :: "buf_map \<Rightarrow> nat \<Rightarrow> nat \<Rightarrow> color \<Rightarrow> buf_map \<Rightarrow> bool" where
  "painted \<equiv> painted_shape 0"

definition prefix_ok :: "state list \<Rightarrow> nat \<Rightarrow> nat \<Rightarrow> color \<Rightarrow> state list \<Rightarrow> bool" where
  "prefix_ok xs i rs X A \<longleftrightarrow>
     bm_wf A \<and> (\<forall>s \<in> set A. st_offset s \<le> rs \<and> st_color s \<noteq> Pending) \<and>
     (\<forall>p. color_at A Recved p = (if rs \<le> p then X else color_at (take i xs) Recved p))"

lemma bm_shape_length: "bm_shape sl m \<Longrightarrow> length (bm_states m) < u64_bound"
  using bm_wf_length [of "bm_states m" "bm_end m + sl"] by (auto simp: bm_shape_def)

lemma bm_wf_not_last_Pending: "bm_wf xs \<Longrightarrow> i < length xs \<Longrightarrow> s \<in> set (take i xs) \<Longrightarrow> st_color s \<noteq> Pending"
  by (metis Cons_nth_drop_Suc append_take_drop_id bm_wf_append list.set_intros(1))

lemma found_prefix:
  assumes wf: "bm_wf xs" and "rs < re" and i: "i = lower_bound rs xs" "i < length xs" "st_offset (xs ! i) = rs"
    and X: "X \<noteq> Pending"
  defines "xs1 \<equiv> xs[i := State rs X]"
  shows "prefix_ok xs i rs X (take (same_before xs1 i X + 1) xs1)" and "same_before xs1 i X \<le> i"
proof -
  have wf1: "bm_wf xs1" using bm_wf_recolor [OF wf i(2) X] i(3) by (simp add: xs1_def)
  have i1: "i < length xs1" "st_color (xs1 ! i) = X" using i(2) by (simp_all add: xs1_def)
  note cb = cut_same_before [OF wf1 i1]
  have pre: "take (i + 1) xs1 = take i xs @ [State rs X]"
    using i(2) by (simp add: xs1_def take_Suc_conv_app_nth)
  note cut = cut_range [OF wf assms(2), folded i(1)]
  have "st_offset s \<le> rs \<and> st_color s \<noteq> Pending" if "s \<in> set (take (i + 1) xs1)" for s
    using that cut(2) bm_wf_not_last_Pending [OF wf i(2), of s] X unfolding pre by fastforce
  then have "\<forall>s \<in> set (take (same_before xs1 i X + 1) xs1). st_offset s \<le> rs \<and> st_color s \<noteq> Pending"
    using cb(4) by blast
  then show "prefix_ok xs i rs X (take (same_before xs1 i X + 1) xs1)"
    using cb(3) cb(2) [of Recved] paint_prefix_plain [OF cut(2), of X Recved]
    unfolding prefix_ok_def pre by simp
  show "same_before xs1 i X \<le> i" by (rule cb(1))
qed

lemma found_prefix_plain:
  assumes wf: "bm_wf xs" and "rs < re" and i: "i = lower_bound rs xs" "i < length xs" and X: "X \<noteq> Pending"
  shows "prefix_ok xs i rs X (take i xs @ [State rs X])"
  using cut_range(2) [OF wf assms(2), folded i(1)] bm_wf_not_last_Pending [OF wf i(2)] X
    paint_prefix_plain [of "take i xs" rs X Recved] wf
  by (auto simp: prefix_ok_def bm_wf_append bm_wf_Cons intro: less_imp_le)
     (metis append_take_drop_id bm_wf_append)

lemma absent_prefix:
  assumes wf: "bm_wf xs" and "rs < re" and i: "i = lower_bound rs xs"
    and c: "last_color (take i xs) Recved \<noteq> Pending" and X: "X \<noteq> Pending"
  shows "prefix_ok xs i rs X
    (take i xs @ (if last_color (take i xs) Recved \<noteq> X then [State rs X] else []))"
proof -
  note cut = cut_range [OF wf assms(2), folded i]
  have wfL: "bm_wf (take i xs)" using wf by (metis append_take_drop_id bm_wf_append)
  then have L: "\<forall>s \<in> set (take i xs). st_color s \<noteq> Pending"
    using c by (cases "take i xs" rule: rev_cases) (auto simp: bm_wf_append last_color_def)
  show ?thesis
  proof (cases "last_color (take i xs) Recved = X")
    case True
    then show ?thesis
      using wfL L cut(2) paint_prefix_same [OF cut(2), of Recved X]
      unfolding prefix_ok_def by (simp add: less_imp_le)
  next
    case False
    then show ?thesis
      using wfL L X cut(2) paint_prefix_plain [OF cut(2), of X Recved]
      unfolding prefix_ok_def by (auto simp: bm_wf_append bm_wf_Cons intro: less_imp_le)
  qed
qed

lemma paint_result:
  assumes inv: "bm_shape sl m" and range: "rs < re" "re \<le> bm_end m" and X: "X \<noteq> Pending"
    and xs: "xs = bm_states m" and i: "i = lower_bound rs xs" and M: "M = inside xs i re"
    and A: "prefix_ok xs i rs X A"
    and c: "c = last_color M (last_color (take i xs) Recved)" "c \<noteq> Pending" "keep c \<or> c = X"
    and scan: "scan_end X keep (bm_end m) re xs (i + length M) c = (de, at_end, c')"
  shows "painted_shape sl m rs re X (m\<lparr>bm_states := A @ (if at_end then [State re c'] else []) @ drop de xs\<rparr>)"
    and "i + length M \<le> de" and "de \<le> length xs"
proof -
  have wf: "bm_wf xs" and bnd: "\<forall>s \<in> set xs. st_offset s < bm_end m + sl" and e62: "bm_end m < 2 ^ 62" "sl \<le> 1"
    using inv by (auto simp: bm_shape_def xs)
  note cut = cut_range [OF wf range(1), folded i, folded M]
  let ?L = "take i xs" and ?R = "drop (i + length M) xs"
  have iL: "length ?L = i" using cut(5) by simp
  have wf3: "bm_wf (?L @ M @ ?R)" using wf cut(1) by simp
  have c1: "c = color_at (?L @ M) Recved re"
    using c(1) cut(2,3) range(1) by (subst last_color_color_at) (fastforce simp: last_color_append)+
  have bndR: "\<forall>s \<in> set ?R. st_offset s \<le> bm_end m" using bnd e62(2) by (fastforce dest: in_set_dropD)
  have A1: "bm_wf A" "\<forall>s \<in> set A. st_offset s \<le> rs \<and> st_color s \<noteq> Pending"
    "\<And>p. color_at A Recved p = (if rs \<le> p then X else color_at ?L Recved p)"
    using A by (auto simp: prefix_ok_def)
  have scan': "scan_end X keep (bm_end m) re xs (length ?L + length M) c = (de, at_end, c')"
    using scan iL by simp
  note sp = scan_end_paint [OF cut(1) wf3 cut(2-4) range bndR X A1 c1 c(2,3) scan']
  let ?ys = "A @ (if at_end then [State re c'] else []) @ drop de xs"
  have "st_offset s < bm_end m + sl" if "s \<in> set ?ys" for s
    using bspec [OF sp(5) that] sp(6) bnd A1(2) range by force
  moreover have "st_color s \<noteq> Pending" if "s \<in> set ?ys" "bm_end m \<le> st_offset s" for s
    using bspec [OF sp(5) that(1)] sp(6) that(2) inv A1(2) range by (auto simp: bm_shape_def xs)
  ultimately show "painted_shape sl m rs re X (m\<lparr>bm_states := ?ys\<rparr>)"
    using sp(3,4) e62 by (simp add: painted_shape_def bm_shape_def bm_color_def xs)
  show "i + length M \<le> de" and "de \<le> length xs" using sp(1,2) iL by simp_all
qed

lemma inside_color:
  assumes wf: "bm_wf xs" and "rs < re" and "i = lower_bound rs xs" and "s \<in> set (inside xs i re)"
  shows "color_at xs d (st_offset s) = st_color s" and "rs \<le> st_offset s \<and> st_offset s < re"
proof -
  note cut = cut_range [OF assms(1,2), folded assms(3)]
  have "s \<in> set xs" using cut(1) assms(4) by (metis Un_iff set_append)
  then show "color_at xs d (st_offset s) = st_color s" by (rule color_at_mem [OF wf])
  show "rs \<le> st_offset s \<and> st_offset s < re" using cut(3) assms(4) by blast
qed

lemma start_color:
  assumes wf: "bm_wf xs" and "rs < re" and i: "i = lower_bound rs xs"
    and absent: "i < length xs \<Longrightarrow> st_offset (xs ! i) \<noteq> rs"
  shows "color_at xs d rs = last_color (take i xs) d"
proof -
  note cut = cut_range [OF wf assms(2), folded i]
  have "\<forall>s \<in> set (drop i xs). rs < st_offset s"
  proof
    fix s assume "s \<in> set (drop i xs)"
    then obtain k where k: "i \<le> k" "k < length xs" "s = xs ! k"
      by (auto simp: in_set_conv_nth) (metis le_add1 less_diff_conv add.commute)
    then have "st_offset (xs ! i) \<le> st_offset s"
      using bm_wf_nth [OF wf, of i k] by (cases "i = k") auto
    then show "rs < st_offset s" using absent cut(6) k by force
  qed
  then have "color_at (drop i xs) (color_at (take i xs) d rs) rs = color_at (take i xs) d rs"
    by (rule color_at_before)
  moreover have "color_at (take i xs) d rs = last_color (take i xs) d"
    using cut(2) by (intro last_color_color_at) (auto intro: less_imp_le)
  ultimately show ?thesis using color_at_append [of "take i xs" "drop i xs"] wf by simp
qed

text \<open>
  What \<open>ack_rcvd\<close> does: the range turns \<open>Recved\<close>, everything else keeps its colour. The range
  must be non-empty, inside what was written, and must not reach into unsent data.
\<close>

lemma ack_rcvd_correct:
  assumes inv: "bm_shape sl m" and range: "rs < re" "re \<le> bm_end m"
    and nopend: "\<forall>p. rs \<le> p \<and> p < re \<longrightarrow> bm_color m p \<noteq> Pending"
  obtains m' where "ack_rcvd (rs, re) m = Ret m'" and "painted_shape sl m rs re Recved m'"
proof -
  define xs where "xs = bm_states m"
  define i where "i = lower_bound rs xs"
  define M where "M = inside xs i re"
  define c where "c = last_color M (last_color (take i xs) Recved)"
  have X: "Recved \<noteq> Pending" by simp
  have wf: "bm_wf xs" using inv by (simp add: bm_shape_def xs_def)
  have len: "length xs < u64_bound" using bm_shape_length [OF inv] by (simp add: xs_def)
  have il: "i \<le> length xs" using cut_range(5) [OF wf range(1)] by (simp add: i_def)
  have col: "bm_color m p = color_at xs Recved p" for p by (simp add: bm_color_def xs_def)
  have Mcol: "\<forall>s \<in> set M. st_color s \<noteq> Pending"
    using nopend inside_color [OF wf range(1) i_def] col by (metis M_def)
  obtain de at_end c' where scan: "scan_end Recved (\<lambda>c. c \<noteq> Recved) (bm_end m) re xs (i + length M) c = (de, at_end, c')"
    by (metis prod_cases3)
  show thesis
  proof (cases rule: binary_search_cases [of rs xs])
    case (found k)
    then have k: "k = i" and ri: "i < length xs" "st_offset (xs ! i) = rs" by (simp_all add: i_def)
    define xs1 where "xs1 = xs[i := State rs Recved]"
    define M1 where "M1 = inside xs (Suc i) re"
    have M: "M = xs ! i # M1" using ri range(1) by (simp add: inside_step M1_def M_def)
    have np: "c \<noteq> Pending" using Mcol M by (simp add: c_def last_color_def)
    have "ack_scan (bm_end m) re xs1 (i + 1) (st_color (xs ! i)) =
        Ret (scan_end Recved (\<lambda>c. c \<noteq> Recved) (bm_end m) re xs1 (i + 1 + length M1) (last_color M1 (st_color (xs ! i))))"
      using len range(2) ri(1) Mcol M
      by (subst ack_scan_eq) (simp_all add: xs1_def inside_update M1_def)
    also have "scan_end Recved (\<lambda>c. c \<noteq> Recved) (bm_end m) re xs1 (i + 1 + length M1) (last_color M1 (st_color (xs ! i)))
        = (de, at_end, c')"
      using scan M by (subst scan_end_drop [of _ _ xs]) (simp_all add: xs1_def c_def last_color_Cons)
    finally have sc: "ack_scan (bm_end m) re xs1 (i + 1) (st_color (xs ! i)) = Ret (de, at_end, c')" .
    note fp = found_prefix [OF wf range(1) i_def ri X, folded xs1_def]
    note pr = paint_result [OF inv range X xs_def i_def M_def fp(1) c_def np _ scan, simplified]
    show thesis
    proof (rule that [OF _ pr(1)])
      show "ack_rcvd (rs, re) m = Ret (m\<lparr>bm_states := take (Suc (same_before xs1 i Recved)) xs1 @
          (if at_end then [State re c'] else []) @ drop de xs\<rparr>)"
        using found sc Mcol M pr(2,3) fp(2) ri k
        by (simp add: ack_rcvd_def Let_def xs_def [symmetric] set_color_def xs1_def finish_edit_eq)
    qed
  next
    case (absent k)
    then have k: "k = i" and ab: "i < length xs \<Longrightarrow> st_offset (xs ! i) \<noteq> rs" by (simp_all add: i_def)
    let ?pre = "last_color (take i xs) Recved"
    have pre: "?pre \<noteq> Pending"
      using start_color [OF wf range(1) i_def ab, of Recved] nopend [rule_format, of rs] range(1) col by simp
    have np: "c \<noteq> Pending" using Mcol pre by (simp add: c_def last_color_def)
    have sc: "ack_scan (bm_end m) re xs i ?pre = Ret (de, at_end, c')"
      using len range(2) il Mcol scan by (subst ack_scan_eq) (simp_all add: M_def c_def)
    have pre_eq: "?pre = (if i = 0 then Recved else st_color (xs ! (i - 1)))"
      using il by (auto simp: last_color_def last_conv_nth)
    note ap = absent_prefix [OF wf range(1) i_def pre X]
    note pr = paint_result [OF inv range X xs_def i_def M_def ap c_def np _ scan, simplified]
    show thesis
    proof (rule that [OF _ pr(1)])
      show "ack_rcvd (rs, re) m = Ret (m\<lparr>bm_states := take i xs @
          (if ?pre \<noteq> Recved then [State rs Recved] else []) @
          (if at_end then [State re c'] else []) @ drop de xs\<rparr>)"
        using absent sc pre pr(2,3) k pre_eq
        by (cases "i = 0"; cases "st_color (xs ! (i - 1)) = Recved")
          (simp_all add: ack_rcvd_def xs_def [symmetric] finish_edit_eq)
    qed
  qed
qed

end
