(* ===== verification/Packed_State.thy ===== *)
theory Packed_State
  imports Buf_Map
begin

section \<open>The packed interval state: qrecovery/src/send/sndbuf.rs, State and Color\<close>

text \<open>
  The deque of \<open>BufMap\<close> stores each interval start as one \<open>u64\<close>: the colour in the two top
  bits, the offset in the other 62. The operations on this word are translated here on \<open>64 word\<close>;
  \<open>unpack\<close> reads the pair that theory \<open>Buf_Map\<close> works with, and the theorem says that each packed
  operation is the corresponding operation on pairs.
\<close>

unbundle bit_operations_syntax

fun color_prefix :: "color \<Rightarrow> 64 word" where
  "color_prefix Pending = 0"
| "color_prefix Flighting = push_bit 62 1"
| "color_prefix Lost = push_bit 62 2"
| "color_prefix Recved = push_bit 62 3"

definition SUFFIX :: "64 word" where
  "SUFFIX = drop_bit 2 (- 1)"

definition state_encode :: "64 word \<Rightarrow> color \<Rightarrow> 64 word" where
  "state_encode pos color = color_prefix color OR pos"

definition packed_offset :: "64 word \<Rightarrow> 64 word" where
  "packed_offset s = s AND SUFFIX"

text \<open>The fifth branch of the source is \<open>unreachable!\<close>: \<open>self.0 >> 62\<close> has two bits.\<close>

definition packed_color :: "64 word \<Rightarrow> color run" where
  "packed_color s =
     (let p = drop_bit 62 s
      in if p = 0 then Ret Pending else if p = 1 then Ret Flighting
         else if p = 2 then Ret Lost else if p = 3 then Ret Recved else Panic)"

definition packed_set_color :: "color \<Rightarrow> 64 word \<Rightarrow> 64 word" where
  "packed_set_color value s = (s AND SUFFIX) OR color_prefix value"

definition packed_decode :: "64 word \<Rightarrow> (64 word \<times> color) run" where
  "packed_decode s = bind_run (packed_color s) (\<lambda>c. Ret (packed_offset s, c))"

definition unpack :: "64 word \<Rightarrow> state run" where
  "unpack s = bind_run (packed_decode s) (\<lambda>(pos, c). Ret (State (unat pos) c))"

lemma SUFFIX_mask: "SUFFIX = mask 62"
  by (rule bit_word_eqI) (auto simp: SUFFIX_def bit_simps)

lemma unat_top: "unat (drop_bit 62 (x :: 64 word)) = unat x div 2 ^ 62"
  by (subst unat_drop_bit_eq) (rule drop_bit_eq_div)

lemma offset_small: "pos < 2 ^ 62 \<Longrightarrow> drop_bit 62 (word_of_nat pos :: 64 word) = 0"
  by (simp add: word_unat_eq_iff unat_top unsigned_of_nat take_bit_nat_eq_self)

lemma prefix_and_suffix: "color_prefix c AND mask 62 = 0"
  by (cases c) (simp_all add: mask_eq_exp_minus_1)

lemma prefix_top: "drop_bit 62 (color_prefix c) = (case c of Pending \<Rightarrow> 0 | Flighting \<Rightarrow> 1 | Lost \<Rightarrow> 2 | Recved \<Rightarrow> 3)"
  by (cases c) simp_all

lemma packed_color_or:
  assumes "drop_bit 62 x = 0"
  shows "packed_color (color_prefix c OR x) = Ret c"
  using assms prefix_top [of c] by (cases c) (simp_all add: packed_color_def)

lemma packed_offset_or:
  assumes "drop_bit 62 x = 0"
  shows "packed_offset (color_prefix c OR x) = x"
proof -
  have "x AND mask 62 = x"
    using assms by (metis bits_ident or.right_neutral add.left_neutral push_bit_of_0 take_bit_eq_mask)
  then show ?thesis using prefix_and_suffix [of c] by (simp add: packed_offset_def SUFFIX_mask bit.conj_disj_distrib2)
qed

lemma top_bits: "drop_bit 62 (s :: 64 word) \<in> {0, 1, 2, 3}"
proof -
  have "unat (drop_bit 62 s) < 4"
    unfolding unat_top using unsigned_less [of s, where ?'a = nat] by (simp add: div_less_iff_less_mult)
  then have "unat (drop_bit 62 s) \<in> {0, 1, 2, 3}" by auto
  then show ?thesis by (auto simp: word_unat_eq_iff)
qed

lemma packed_color_total: "\<exists>c. packed_color s = Ret c"
  using top_bits [of s] by (auto simp: packed_color_def Let_def)

text \<open>The packed \<open>u64\<close> of an interval state represents the pair of its offset and colour:
encoding an offset below \<open>2^62\<close> and unpacking gives the pair back, recolouring the word
recolours the pair, and reading the colour of any word never reaches the \<open>unreachable!\<close> branch.\<close>

theorem packed_state_represents_pair:
  "(pos < 2 ^ 62 \<longrightarrow> unpack (state_encode (word_of_nat pos) c) = Ret (State pos c)) \<and>
   (\<exists>st. unpack s = Ret st \<and> unpack (packed_set_color c s) = Ret (set_color c st))"
proof (intro conjI impI)
  assume pos: "pos < 2 ^ 62"
  note sm = offset_small [OF pos]
  have "unat (word_of_nat pos :: 64 word) = pos" using pos by (simp add: unsigned_of_nat take_bit_nat_eq_self)
  then show "unpack (state_encode (word_of_nat pos) c) = Ret (State pos c)"
    using packed_color_or [OF sm] packed_offset_or [OF sm] by (simp add: unpack_def packed_decode_def state_encode_def)
next
  obtain d where d: "packed_color s = Ret d" using packed_color_total by blast
  have sm: "drop_bit 62 (s AND SUFFIX) = 0"
    by (rule bit_word_eqI) (auto simp: SUFFIX_mask bit_simps)
  show "\<exists>st. unpack s = Ret st \<and> unpack (packed_set_color c s) = Ret (set_color c st)"
    using d packed_color_or [OF sm, of c] packed_offset_or [OF sm, of c]
    by (simp add: unpack_def packed_decode_def packed_set_color_def set_color_def or.commute packed_offset_def)
qed

theorem packed_state_represents_pair_witness:
  "unpack (state_encode (word_of_nat 100) Lost) = Ret (State 100 Lost)"
  using packed_state_represents_pair [of 100 Lost 0] by simp

end
