(* ===== verification/Packet_Types.thy ===== *)
theory Packet_Types
  imports Packet_Number
begin

section \<open>Packet types and the first byte: qbase/src/packet/type.rs and signal.rs\<close>

text \<open>
  The type of a packet is read from its first byte and, for a long header, from the version that
  follows. The low bits of the first byte carry the length of the packet number and, in a 1-RTT
  packet, the key phase; they are written when the packet is finished
  (qbase/src/packet/encrypt.rs) and read back after header protection is removed
  (qbase/src/packet/decrypt.rs). The text inside the error values is not modelled.
\<close>

unbundle bit_operations_syntax

subsection \<open>Toggle bits\<close>

text \<open>\<open>Toggle<B>\<close> is indexed by its mask \<open>B\<close>, an argument of the operations here.\<close>

datatype toggle = ToggleZero | ToggleOne

type_synonym spin_bit = toggle
type_synonym key_phase_bit = toggle

definition SPIN_BIT :: byte where
  "SPIN_BIT = 0x20"

definition KEY_PHASE_BIT :: byte where
  "KEY_PHASE_BIT = 0x04"

fun toggle_not :: "toggle \<Rightarrow> toggle" where
  "toggle_not ToggleZero = ToggleOne"
| "toggle_not ToggleOne = ToggleZero"

fun toggle_value :: "byte \<Rightarrow> toggle \<Rightarrow> byte" where
  "toggle_value B ToggleZero = 0"
| "toggle_value B ToggleOne = B"

fun toggle_imply :: "byte \<Rightarrow> toggle \<Rightarrow> byte \<Rightarrow> byte" where
  "toggle_imply B ToggleZero b = b AND NOT B"
| "toggle_imply B ToggleOne b = b OR B"

definition toggle_from :: "byte \<Rightarrow> byte \<Rightarrow> toggle" where
  "toggle_from B value = (if value AND B = 0 then ToggleZero else ToggleOne)"

subsection \<open>Types and errors\<close>

datatype v1_type = Initial | ZeroRtt | Handshake | Retry

datatype long_type = VersionNegotiation | V1 v1_type

datatype packet_type = Long long_type | Short spin_bit

datatype packet_error =
    UnsupportedVersion nat
  | InvalidFixedBit
  | IncompletePacketType
  | IncompleteHeader packet_type
  | IncompletePacket packet_type
  | UnderSampling nat
  | RemoveProtectionFailure
  | InvalidReservedBits byte byte
  | DecryptPacketFailure

fun packet_type_encoding_size :: "packet_type \<Rightarrow> nat" where
  "packet_type_encoding_size (Short _) = 1"
| "packet_type_encoding_size (Long _) = 5"

definition HEADER_FORM_MASK :: byte where
  "HEADER_FORM_MASK = 0x80"

definition FIXED_BIT :: byte where
  "FIXED_BIT = 0x40"

definition LONG_RESERVED_MASK :: byte where
  "LONG_RESERVED_MASK = 0x0C"

definition SHORT_RESERVED_MASK :: byte where
  "SHORT_RESERVED_MASK = 0x18"

fun v1_into_u8 :: "v1_type \<Rightarrow> byte" where
  "v1_into_u8 Retry = 0x30"
| "v1_into_u8 Initial = 0x00"
| "v1_into_u8 ZeroRtt = 0x10"
| "v1_into_u8 Handshake = 0x20"

definition v1_try_from :: "byte \<Rightarrow> (packet_error + v1_type) run" where
  "v1_try_from value =
     (if value AND FIXED_BIT = 0 then Ret (Inl InvalidFixedBit)
      else let ty = value AND 0x30
           in if ty = 0x00 then Ret (Inr Initial)
              else if ty = 0x10 then Ret (Inr ZeroRtt)
              else if ty = 0x20 then Ret (Inr Handshake)
              else if ty = 0x30 then Ret (Inr Retry)
              else Panic)"

text \<open>
  The packet parsers use nom with the crate's own error type, whose \<open>from_error_kind\<close> is
  \<open>unreachable!\<close>: an error of a nom primitive would be a panic.
\<close>

fun packet_parser :: "(nom_error_kind, 'a) presult \<Rightarrow> (packet_error, 'a) presult" where
  "packet_parser (PDone rest a) = PDone rest a"
| "packet_parser (PIncomplete n) = PIncomplete n"
| "packet_parser (PError _) = PPanic"
| "packet_parser (PFailure _) = PPanic"
| "packet_parser PPanic = PPanic"

definition parse_long_type :: "nom \<Rightarrow> byte \<Rightarrow> byte list \<Rightarrow> (packet_error, long_type) presult" where
  "parse_long_type N ty input =
     pbind (packet_parser (be_u32_streaming N input)) (\<lambda>remain version.
       if version = 0 then PDone remain VersionNegotiation
       else if version = 1
       then (case v1_try_from ty of
               Panic \<Rightarrow> PPanic
             | Ret (Inl e) \<Rightarrow> PError e
             | Ret (Inr t) \<Rightarrow> PDone remain (V1 t))
       else PError (UnsupportedVersion version))"

definition be_packet_type :: "nom \<Rightarrow> byte list \<Rightarrow> (packet_error, packet_type) presult" where
  "be_packet_type N input =
     pbind (packet_parser (be_u8_streaming N input)) (\<lambda>remain t.
       let ty = word_of_nat t
       in if ty AND HEADER_FORM_MASK = 0 then PDone remain (Short (toggle_from SPIN_BIT ty))
          else pbind (parse_long_type N ty remain) (\<lambda>remain ty. PDone remain (Long ty)))"

fun put_packet_type :: "bufmut \<Rightarrow> packet_type \<Rightarrow> byte list \<Rightarrow> byte list" where
  "put_packet_type B (Short spin) buf =
     put_u8 B (unat (0x00 OR FIXED_BIT OR toggle_value SPIN_BIT spin)) buf"
| "put_packet_type B (Long VersionNegotiation) buf = put_u32 B 0 (put_u8 B 0x80 buf)"
| "put_packet_type B (Long (V1 ty)) buf =
     put_u32 B 1 (put_u8 B (unat (0x80 OR FIXED_BIT OR v1_into_u8 ty)) buf)"

subsection \<open>The specific bits of the first byte\<close>

definition with_pn_len :: "nat \<Rightarrow> byte run" where
  "with_pn_len n = assert_run (n \<le> 4 \<and> 0 < n) (Ret (word_of_nat n - 1))"

definition pn_len :: "byte \<Rightarrow> byte \<Rightarrow> packet_error + nat" where
  "pn_len R b =
     (let reserved_bit = b AND R
      in if reserved_bit = 0 then Inr (unat ((b AND 0x03) + 1)) else Inl (InvalidReservedBits reserved_bit R))"

definition encode_long_first_byte :: "byte \<Rightarrow> nat \<Rightarrow> byte run" where
  "encode_long_first_byte first_byte n = bind_run (with_pn_len n) (\<lambda>bits. Ret (first_byte OR bits))"

definition encode_short_first_byte :: "byte \<Rightarrow> nat \<Rightarrow> key_phase_bit \<Rightarrow> byte run" where
  "encode_short_first_byte first_byte n key_phase =
     bind_run (with_pn_len n) (\<lambda>bits. Ret (first_byte OR toggle_imply KEY_PHASE_BIT key_phase bits))"

lemmas packet_type_consts =
  SPIN_BIT_def KEY_PHASE_BIT_def HEADER_FORM_MASK_def FIXED_BIT_def LONG_RESERVED_MASK_def SHORT_RESERVED_MASK_def

subsection \<open>Round trips and totality\<close>

lemma be_val_Cons_small: "be_val [b] = unat b"
  by simp

lemma be_u8_Cons: "nom_ok N \<Longrightarrow> be_u8_streaming N (b # bs) = PDone bs (unat b)"
  by (simp add: nom_be be_streaming_def)

lemma be_u32_of_bytes: "nom_ok N \<Longrightarrow> be_u32_streaming N (be_bytes 4 x @ bs) = PDone bs (x mod 2 ^ 32)"
  by (simp add: nom_be be_streaming_def be_val_be_bytes)

lemma put_packet_type_appends: "bufmut_ok B \<Longrightarrow> put_packet_type B ty buf = buf @ put_packet_type B ty []"
  by (induction B ty buf rule: put_packet_type.induct) (simp_all add: bufmut_puts)

lemma put_packet_type_length:
  "bufmut_ok B \<Longrightarrow> length (put_packet_type B ty buf) = length buf + packet_type_encoding_size ty"
  by (induction B ty buf rule: put_packet_type.induct) (simp_all add: bufmut_puts)

lemma be_bytes_1: "be_bytes 1 (unat b) = [b]"
  by simp

lemma v1_try_from_into: "v1_try_from (0x80 OR FIXED_BIT OR v1_into_u8 ty) = Ret (Inr ty)"
  by (cases ty) (simp_all add: v1_try_from_def packet_type_consts)

lemma packet_type_read_back:
  assumes "nom_ok N" and "bufmut_ok B"
  shows "be_packet_type N (put_packet_type B ty [] @ rest) = PDone rest ty"
proof (cases ty)
  case (Long l)
  show ?thesis
  proof (cases l)
    case VersionNegotiation
    then show ?thesis
      using Long be_u32_of_bytes [OF assms(1), of 0 rest]
      by (simp add: be_packet_type_def parse_long_type_def bufmut_puts [OF assms(2)] be_u8_Cons [OF assms(1)] packet_type_consts)
  next
    case (V1 t)
    have "(0x80 OR FIXED_BIT OR v1_into_u8 t) AND HEADER_FORM_MASK \<noteq> 0"
      by (cases t) (simp_all add: packet_type_consts)
    then show ?thesis
      using Long V1 be_u32_of_bytes [OF assms(1), of 1 rest] v1_try_from_into [of t]
      by (simp add: be_packet_type_def parse_long_type_def bufmut_puts [OF assms(2)] be_u8_Cons [OF assms(1)])
  qed
next
  case (Short s)
  then show ?thesis
    by (cases s) (simp_all add: be_packet_type_def bufmut_puts [OF assms(2)] be_u8_Cons [OF assms(1)]
        packet_type_consts toggle_from_def)
qed

lemma two_bits_of_byte: "(b :: byte) AND 0x30 \<in> {0, 0x10, 0x20, 0x30}"
proof -
  have "b AND 0x30 = (if bit b 4 then 0x10 else 0) OR (if bit b 5 then 0x20 else 0)"
    by (rule bit_word_eqI) (auto simp: bit_simps numeral_eq_Suc less_Suc_eq)
  then show ?thesis by (auto split: if_splits)
qed

lemma be_packet_type_no_panic:
  assumes "nom_ok N"
  shows "be_packet_type N input \<noteq> PPanic"
proof -
  have "\<exists>r. v1_try_from b = Ret r" for b
    using two_bits_of_byte [of b] by (auto simp: v1_try_from_def Let_def)
  then have "parse_long_type N b i \<noteq> PPanic" for b i
    by (auto simp: parse_long_type_def nom_be [OF assms] be_streaming_def split: run.splits sum.splits)
      (metis run.distinct(1))
  then show ?thesis
    by (auto simp: be_packet_type_def nom_be [OF assms] be_streaming_def Let_def pbind_PPanic_iff)
qed

text \<open>Parsing a packet type never panics on any input, its \<open>unreachable!\<close> branches included,
and reads back every packet type that was written, leaving what follows.\<close>

theorem packet_type_roundtrip:
  assumes "nom_ok N" and "bufmut_ok B"
  shows "be_packet_type N (put_packet_type B ty [] @ rest) = PDone rest ty \<and>
    length (put_packet_type B ty []) = packet_type_encoding_size ty \<and> be_packet_type N input \<noteq> PPanic"
  using packet_type_read_back [OF assms] put_packet_type_length [OF assms(2), of ty "[]"]
    be_packet_type_no_panic [OF assms(1)] by simp

theorem packet_type_roundtrip_witness:
  "be_packet_type nom_ref (put_packet_type bufmut_ref (Long (V1 Handshake)) [] @ [7]) = PDone [7] (Long (V1 Handshake))"
  using packet_type_roundtrip [OF nom_ok_ref bufmut_ok_ref, of "Long (V1 Handshake)" "[7]" "[]"] by simp

lemma pn_len_cases: "n \<le> 4 \<Longrightarrow> 0 < n \<Longrightarrow> n = 1 \<or> n = 2 \<or> n = 3 \<or> n = (4::nat)"
  by auto

text \<open>The length of the packet number and the key phase that a finished packet carries in its
first byte are read back from it, with the spin bit and the type unchanged and the reserved bits zero;
a length outside 1 to 4 is the only way for the writers to panic.\<close>

theorem first_byte_roundtrip:
  "(returns (with_pn_len n) \<longleftrightarrow> 0 < n \<and> n \<le> 4) \<and>
   (0 < n \<and> n \<le> 4 \<longrightarrow>
     (\<exists>b. encode_short_first_byte (FIXED_BIT OR toggle_value SPIN_BIT spin) n kp = Ret b \<and>
        pn_len SHORT_RESERVED_MASK b = Inr n \<and> toggle_from KEY_PHASE_BIT b = kp \<and> toggle_from SPIN_BIT b = spin) \<and>
     (\<exists>b. encode_long_first_byte (0x80 OR FIXED_BIT OR v1_into_u8 ty) n = Ret b \<and>
        pn_len LONG_RESERVED_MASK b = Inr n \<and> v1_try_from b = Ret (Inr ty)))"
proof (intro conjI impI)
  show "returns (with_pn_len n) \<longleftrightarrow> 0 < n \<and> n \<le> 4"
    by (auto simp: with_pn_len_def assert_run_def)
next
  assume "0 < n \<and> n \<le> 4"
  then consider "n = 1" | "n = 2" | "n = 3" | "n = 4" using pn_len_cases by blast
  then show "\<exists>b. encode_short_first_byte (FIXED_BIT OR toggle_value SPIN_BIT spin) n kp = Ret b \<and>
        pn_len SHORT_RESERVED_MASK b = Inr n \<and> toggle_from KEY_PHASE_BIT b = kp \<and> toggle_from SPIN_BIT b = spin"
    by cases (cases spin; cases kp; simp add: encode_short_first_byte_def with_pn_len_def pn_len_def
        toggle_from_def packet_type_consts)+
next
  assume "0 < n \<and> n \<le> 4"
  then consider "n = 1" | "n = 2" | "n = 3" | "n = 4" using pn_len_cases by blast
  then show "\<exists>b. encode_long_first_byte (0x80 OR FIXED_BIT OR v1_into_u8 ty) n = Ret b \<and>
        pn_len LONG_RESERVED_MASK b = Inr n \<and> v1_try_from b = Ret (Inr ty)"
    by cases (cases ty; simp add: encode_long_first_byte_def with_pn_len_def pn_len_def v1_try_from_def
        packet_type_consts)+
qed

theorem first_byte_roundtrip_witness:
  "\<exists>b. encode_short_first_byte (FIXED_BIT OR toggle_value SPIN_BIT ToggleOne) 3 ToggleOne = Ret b \<and>
     pn_len SHORT_RESERVED_MASK b = Inr 3"
  using first_byte_roundtrip [of 3 ToggleOne ToggleOne Initial] by auto

end
