(* ===== verification/Packet_Headers.thy ===== *)
theory Packet_Headers
  imports Packet_Types Varint
begin

section \<open>Connection IDs, packet headers and packets: qbase/src/cid/connection_id.rs, qbase/src/packet\<close>

text \<open>
  The codecs of connection IDs and reset tokens (cid/connection_id.rs, token.rs), of the packet
  headers (packet/header.rs, header/long.rs, header/short.rs) and the cutting of a datagram into
  packets (packet/io.rs, packet.rs). nom's \<open>length_data\<close> reads a length and takes that many bytes,
  \<open>many_till\<close> repeats a parser until another one succeeds and stops with an error when nothing was
  consumed.
\<close>

subsection \<open>Connection IDs and reset tokens\<close>

text \<open>
  \<open>ConnectionId\<close> is an array of 20 bytes with a length; equality, hashing and \<open>Deref\<close> only see
  the first \<open>len\<close> bytes, which is what the model keeps.
\<close>

datatype connection_id = ConnectionId (cid_bytes: "byte list")

definition MAX_CID_SIZE :: nat where
  "MAX_CID_SIZE = 20"

definition cid_from_slice :: "byte list \<Rightarrow> connection_id run" where
  "cid_from_slice bs = assert_run (length bs \<le> MAX_CID_SIZE) (Ret (ConnectionId bs))"

definition be_connection_id_with_len :: "nom \<Rightarrow> byte list \<Rightarrow> nat \<Rightarrow> (nom_error_kind, connection_id) presult" where
  "be_connection_id_with_len N input len =
     (if MAX_CID_SIZE < len then PError TooLarge
      else pbind (take_streaming N len input) (\<lambda>remain bs. prun remain (cid_from_slice bs)))"

definition be_connection_id :: "nom \<Rightarrow> byte list \<Rightarrow> (nom_error_kind, connection_id) presult" where
  "be_connection_id N input =
     pbind (be_u8_streaming N input) (\<lambda>remain len. be_connection_id_with_len N remain len)"

definition put_connection_id :: "bufmut \<Rightarrow> connection_id \<Rightarrow> byte list \<Rightarrow> byte list" where
  "put_connection_id B cid buf = put_slice B (cid_bytes cid) (put_u8 B (length (cid_bytes cid)) buf)"

definition cid_encoding_size :: "connection_id \<Rightarrow> nat" where
  "cid_encoding_size cid = 1 + length (cid_bytes cid)"

definition RESET_TOKEN_SIZE :: nat where
  "RESET_TOKEN_SIZE = 16"

definition reset_token_new :: "byte list \<Rightarrow> byte list run" where
  "reset_token_new bs = assert_run (length bs = RESET_TOKEN_SIZE) (Ret bs)"

definition be_reset_token :: "nom \<Rightarrow> byte list \<Rightarrow> (nom_error_kind, byte list) presult" where
  "be_reset_token N input =
     pbind (take_complete N RESET_TOKEN_SIZE input) (\<lambda>input bs. prun input (reset_token_new bs))"

definition cid_ok :: "connection_id \<Rightarrow> bool" where
  "cid_ok cid \<longleftrightarrow> length (cid_bytes cid) \<le> MAX_CID_SIZE"

subsection \<open>Headers\<close>

datatype 'a long_header = LongHeader (lh_dcid: connection_id) (lh_scid: connection_id) (lh_specific: 'a)

datatype header =
    HVN "nat list long_header"
  | HRetry "(byte list \<times> byte list) long_header"
  | HInitial "byte list long_header"
  | HZeroRtt "unit long_header"
  | HHandshake "unit long_header"
  | HOneRtt spin_bit connection_id

fun header_type :: "header \<Rightarrow> packet_type" where
  "header_type (HVN _) = Long VersionNegotiation"
| "header_type (HRetry _) = Long (V1 Retry)"
| "header_type (HInitial _) = Long (V1 Initial)"
| "header_type (HZeroRtt _) = Long (V1 ZeroRtt)"
| "header_type (HHandshake _) = Long (V1 Handshake)"
| "header_type (HOneRtt spin _) = Short spin"

function vn_loop :: "nom \<Rightarrow> byte list \<Rightarrow> nat list \<Rightarrow> (nom_error_kind, nat list) presult" where
  "vn_loop N input res =
     (if input = [] then PDone input res
      else case be_u32_streaming N input of
             PDone i1 v \<Rightarrow>
               if length i1 < length input then vn_loop N i1 (res @ [v]) else PError ManyTill
           | PIncomplete n \<Rightarrow> PIncomplete n
           | PError e \<Rightarrow> PError e
           | PFailure e \<Rightarrow> PFailure e
           | PPanic \<Rightarrow> PPanic)"
  by pat_completeness auto
termination
  by (relation "measure (\<lambda>(N, i, r). length i)") auto

declare vn_loop.simps [simp del]

definition be_version_negotiation :: "nom \<Rightarrow> byte list \<Rightarrow> (nom_error_kind, nat list) presult" where
  "be_version_negotiation N input = vn_loop N input []"

definition retry_new :: "byte list \<Rightarrow> byte list \<Rightarrow> (byte list \<times> byte list) run" where
  "retry_new token integrity = assert_run (length integrity = 16) (Ret (token, integrity))"

definition be_retry :: "nom \<Rightarrow> byte list \<Rightarrow> (nom_error_kind, byte list \<times> byte list) presult" where
  "be_retry N input =
     (if length input < 16 then PIncomplete (Some 16)
      else pbind (take_streaming N (length input - 16) input) (\<lambda>integrity token.
             prun [] (retry_new token integrity)))"

definition length_data :: "nom \<Rightarrow> byte list \<Rightarrow> (nom_error_kind, byte list) presult" where
  "length_data N input = pbind (be_varint N input) (\<lambda>i len. take_streaming N (into_inner len) i)"

definition be_initial :: "nom \<Rightarrow> byte list \<Rightarrow> (nom_error_kind, byte list) presult" where
  "be_initial N input = length_data N input"

fun long_header_parse ::
    "nom \<Rightarrow> connection_id \<Rightarrow> connection_id \<Rightarrow> long_type \<Rightarrow> byte list \<Rightarrow> (nom_error_kind, header) presult" where
  "long_header_parse N dcid scid VersionNegotiation input =
     pmap (\<lambda>vs. HVN (LongHeader dcid scid vs)) (be_version_negotiation N input)"
| "long_header_parse N dcid scid (V1 Retry) input =
     pmap (\<lambda>r. HRetry (LongHeader dcid scid r)) (be_retry N input)"
| "long_header_parse N dcid scid (V1 Initial) input =
     pmap (\<lambda>t. HInitial (LongHeader dcid scid t)) (be_initial N input)"
| "long_header_parse N dcid scid (V1 ZeroRtt) input = PDone input (HZeroRtt (LongHeader dcid scid ()))"
| "long_header_parse N dcid scid (V1 Handshake) input = PDone input (HHandshake (LongHeader dcid scid ()))"

definition be_one_rtt_header :: "nom \<Rightarrow> spin_bit \<Rightarrow> nat \<Rightarrow> byte list \<Rightarrow> (nom_error_kind, header) presult" where
  "be_one_rtt_header N spin dcid_len input =
     pbind (take_streaming N dcid_len input) (\<lambda>remain dcid.
       pbind (prun remain (cid_from_slice dcid)) (\<lambda>remain dcid. PDone remain (HOneRtt spin dcid)))"

fun be_header :: "nom \<Rightarrow> packet_type \<Rightarrow> nat \<Rightarrow> byte list \<Rightarrow> (nom_error_kind, header) presult" where
  "be_header N (Long long_ty) dcid_len input =
     pbind (be_connection_id N input) (\<lambda>remain dcid.
     pbind (be_connection_id N remain) (\<lambda>remain scid.
       long_header_parse N dcid scid long_ty remain))"
| "be_header N (Short spin) dcid_len input = be_one_rtt_header N spin dcid_len input"

definition token_len_varint :: "byte list \<Rightarrow> varint run" where
  "token_len_varint token = unwrap_result (from_u64 (length token))"

text \<open>\<open>EncodeHeader\<close> is not implemented for version negotiation and retry headers.\<close>

fun header_size :: "header \<Rightarrow> nat run" where
  "header_size (HInitial h) =
     bind_run (token_len_varint (lh_specific h)) (\<lambda>v. bind_run (encoding_size v) (\<lambda>n.
       Ret (1 + 4 + 1 + length (cid_bytes (lh_dcid h)) + 1 + length (cid_bytes (lh_scid h)) +
            (n + length (lh_specific h)))))"
| "header_size (HZeroRtt h) = Ret (1 + 4 + 1 + length (cid_bytes (lh_dcid h)) + 1 + length (cid_bytes (lh_scid h)))"
| "header_size (HHandshake h) = Ret (1 + 4 + 1 + length (cid_bytes (lh_dcid h)) + 1 + length (cid_bytes (lh_scid h)))"
| "header_size (HOneRtt spin dcid) = Ret (1 + length (cid_bytes dcid))"
| "header_size (HVN h) = Panic"
| "header_size (HRetry h) = Panic"

definition put_long :: "bufmut \<Rightarrow> packet_type \<Rightarrow> 'a long_header \<Rightarrow> byte list \<Rightarrow> byte list" where
  "put_long B ty h buf =
     put_connection_id B (lh_scid h) (put_connection_id B (lh_dcid h) (put_packet_type B ty buf))"

fun put_header :: "bufmut \<Rightarrow> header \<Rightarrow> byte list \<Rightarrow> byte list run" where
  "put_header B (HVN h) buf =
     Ret (fold (\<lambda>v buf. put_u32 B v buf) (lh_specific h) (put_long B (Long VersionNegotiation) h buf))"
| "put_header B (HRetry h) buf =
     Ret (put_slice B (snd (lh_specific h)) (put_slice B (fst (lh_specific h)) (put_long B (Long (V1 Retry)) h buf)))"
| "put_header B (HInitial h) buf =
     bind_run (token_len_varint (lh_specific h)) (\<lambda>v.
     bind_run (put_varint B v (put_long B (Long (V1 Initial)) h buf)) (\<lambda>buf.
       Ret (put_slice B (lh_specific h) buf)))"
| "put_header B (HZeroRtt h) buf = Ret (put_long B (Long (V1 ZeroRtt)) h buf)"
| "put_header B (HHandshake h) buf = Ret (put_long B (Long (V1 Handshake)) h buf)"
| "put_header B (HOneRtt spin dcid) buf = Ret (put_slice B (cid_bytes dcid) (put_packet_type B (Short spin) buf))"

subsection \<open>Cutting a datagram into packets\<close>

datatype packet =
    PacketVN "nat list long_header"
  | PacketRetry "(byte list \<times> byte list) long_header"
  | PacketData header "byte list" nat

text \<open>
  \<open>be_payload\<close> and \<open>be_packet\<close> return the packet and what is left of the datagram. Only
  \<open>Incomplete\<close> is expected of the header parsers; anything else is \<open>unreachable!\<close>.
\<close>

definition be_payload ::
    "nom \<Rightarrow> packet_type \<Rightarrow> byte list \<Rightarrow> nat \<Rightarrow> ((packet_error + (byte list \<times> nat)) \<times> byte list) run" where
  "be_payload N pkty datagram remain_len =
     bind_run (sub64 (length datagram) remain_len) (\<lambda>offset.
       case length_data N (drop offset datagram) of
         PDone remain payload \<Rightarrow>
           if length payload < 20 then Ret (Inl (UnderSampling (length payload)), datagram)
           else bind_run (sub64 (length datagram) (length remain)) (\<lambda>packet_length.
                bind_run (sub64 packet_length (length payload)) (\<lambda>off.
                  Ret (Inr (take packet_length datagram, off), drop packet_length datagram)))
       | PIncomplete _ \<Rightarrow> Ret (Inl (IncompleteHeader pkty), datagram)
       | _ \<Rightarrow> Panic)"

definition be_packet :: "nom \<Rightarrow> byte list \<Rightarrow> nat \<Rightarrow> ((packet_error + packet) \<times> byte list) run" where
  "be_packet N datagram dcid_len =
     (case be_packet_type N datagram of
        PIncomplete _ \<Rightarrow> Ret (Inl IncompletePacketType, datagram)
      | PError e \<Rightarrow> Ret (Inl e, datagram)
      | PFailure _ \<Rightarrow> Panic
      | PPanic \<Rightarrow> Panic
      | PDone remain pkty \<Rightarrow>
          (case be_header N pkty dcid_len remain of
             PIncomplete _ \<Rightarrow> Ret (Inl (IncompleteHeader pkty), datagram)
           | PError _ \<Rightarrow> Panic
           | PFailure _ \<Rightarrow> Panic
           | PPanic \<Rightarrow> Panic
           | PDone remain header \<Rightarrow>
               (case header of
                  HVN h \<Rightarrow> Ret (Inr (PacketVN h), [])
                | HRetry h \<Rightarrow> Ret (Inr (PacketRetry h), [])
                | HOneRtt spin dcid \<Rightarrow>
                    if length remain < 20 then Ret (Inl (UnderSampling (length remain)), datagram)
                    else bind_run (sub64 (length datagram) (length remain)) (\<lambda>offset.
                           Ret (Inr (PacketData header datagram offset), []))
                | _ \<Rightarrow>
                    bind_run (be_payload N pkty datagram (length remain)) (\<lambda>(r, datagram').
                      case r of
                        Inl e \<Rightarrow> Ret (Inl e, datagram')
                      | Inr (bs, offset) \<Rightarrow> Ret (Inr (PacketData header bs offset), datagram')))))"

text \<open>\<open>PacketReader::next\<close>: an unparsable rest of the datagram is dropped.\<close>

definition packet_reader_next ::
    "nom \<Rightarrow> nat \<Rightarrow> byte list \<Rightarrow> ((packet_error + packet) option \<times> byte list) run" where
  "packet_reader_next N dcid_len raw_bytes =
     (if raw_bytes = [] then Ret (None, raw_bytes)
      else bind_run (be_packet N raw_bytes dcid_len) (\<lambda>(r, rest).
             case r of
               Inr p \<Rightarrow> Ret (Some (Inr p), rest)
             | Inl e \<Rightarrow> Ret (Some (Inl e), [])))"

subsection \<open>Reading back what was written\<close>

lemma put_connection_id_eq:
  "bufmut_ok B \<Longrightarrow> put_connection_id B cid buf = buf @ be_bytes 1 (length (cid_bytes cid)) @ cid_bytes cid"
  by (simp add: put_connection_id_def bufmut_puts)

lemma be_u8_be_bytes:
  assumes "nom_ok N" and "x < 256"
  shows "be_u8_streaming N (be_bytes 1 x @ rest) = PDone rest x"
  using be_u8_Cons [OF assms(1), of "word_of_nat x" rest] assms(2) by (simp add: unat_word_of_nat_byte)

lemma be_connection_id_read_back:
  assumes "nom_ok N" and "cid_ok cid"
  shows "be_connection_id N (be_bytes 1 (length (cid_bytes cid)) @ cid_bytes cid @ rest) = PDone rest cid"
  using assms be_u8_be_bytes [OF assms(1), of "length (cid_bytes cid)" "cid_bytes cid @ rest"]
  by (simp add: be_connection_id_def be_connection_id_with_len_def nom_take cid_from_slice_def cid_ok_def MAX_CID_SIZE_def
      del: be_bytes.simps)

lemma put_long_eq:
  assumes "bufmut_ok B"
  shows "put_long B ty h buf = buf @ put_packet_type B ty [] @
    be_bytes 1 (length (cid_bytes (lh_dcid h))) @ cid_bytes (lh_dcid h) @
    be_bytes 1 (length (cid_bytes (lh_scid h))) @ cid_bytes (lh_scid h)"
  by (simp add: put_long_def put_connection_id_eq [OF assms] put_packet_type_appends [OF assms, of ty buf] del: be_bytes.simps)

lemma be_header_long:
  assumes "nom_ok N" and "cid_ok dcid" and "cid_ok scid"
  shows "be_header N (Long ty) dlen (be_bytes 1 (length (cid_bytes dcid)) @ cid_bytes dcid @
      be_bytes 1 (length (cid_bytes scid)) @ cid_bytes scid @ rest) = long_header_parse N dcid scid ty rest"
  using be_connection_id_read_back [OF assms(1,2)] be_connection_id_read_back [OF assms(1,3)]
  by (simp del: be_bytes.simps)

lemma vn_loop_read_back:
  assumes "nom_ok N" and "\<forall>v \<in> set vs. v < 2 ^ 32"
  shows "vn_loop N (concat (map (be_bytes 4) vs)) res = PDone [] (res @ vs)"
  using assms(2)
proof (induction vs arbitrary: res)
  case Nil
  then show ?case by (simp add: vn_loop.simps)
next
  case (Cons v vs)
  have "be_u32_streaming N (be_bytes 4 v @ concat (map (be_bytes 4) vs)) = PDone (concat (map (be_bytes 4) vs)) v"
    using be_u32_of_bytes [OF assms(1)] Cons.prems by simp
  moreover have "be_bytes 4 v @ concat (map (be_bytes 4) vs) \<noteq> []"
    by (metis append_is_Nil_conv length_be_bytes list.size(3) zero_neq_numeral)
  ultimately show ?case
    using Cons by (subst vn_loop.simps) simp
qed

lemma fold_put_u32: "bufmut_ok B \<Longrightarrow> fold (\<lambda>v buf. put_u32 B v buf) vs buf = buf @ concat (map (be_bytes 4) vs)"
  by (induction vs arbitrary: buf) (simp_all add: bufmut_puts)

lemma length_data_read_back:
  assumes "nom_ok N"
    and "be_varint N (enc @ data @ rest) = (PDone (data @ rest) (VarInt (length data)) :: (nom_error_kind, varint) presult)"
  shows "length_data N (enc @ data @ rest) = PDone rest data"
  using assms(2) by (simp add: length_data_def nom_take [OF assms(1)])

fun header_ok :: "header \<Rightarrow> bool" where
  "header_ok (HVN h) \<longleftrightarrow> cid_ok (lh_dcid h) \<and> cid_ok (lh_scid h) \<and> (\<forall>v \<in> set (lh_specific h). v < 2 ^ 32)"
| "header_ok (HRetry h) \<longleftrightarrow> cid_ok (lh_dcid h) \<and> cid_ok (lh_scid h) \<and> length (snd (lh_specific h)) = 16"
| "header_ok (HInitial h) \<longleftrightarrow> cid_ok (lh_dcid h) \<and> cid_ok (lh_scid h) \<and> length (lh_specific h) < 2 ^ 62"
| "header_ok (HZeroRtt h) \<longleftrightarrow> cid_ok (lh_dcid h) \<and> cid_ok (lh_scid h)"
| "header_ok (HHandshake h) \<longleftrightarrow> cid_ok (lh_dcid h) \<and> cid_ok (lh_scid h)"
| "header_ok (HOneRtt spin dcid) \<longleftrightarrow> cid_ok dcid"

text \<open>A version negotiation or retry header fills its datagram; the others are followed by a payload.\<close>

fun fills_datagram :: "header \<Rightarrow> bool" where
  "fills_datagram (HVN _) = True"
| "fills_datagram (HRetry _) = True"
| "fills_datagram _ = False"

definition header_read :: "nom \<Rightarrow> nat \<Rightarrow> header \<Rightarrow> byte list \<Rightarrow> byte list \<Rightarrow> bool" where
  "header_read N dlen h input rest \<longleftrightarrow>
     (\<exists>r1. be_packet_type N input = PDone r1 (header_type h) \<and> be_header N (header_type h) dlen r1 = PDone rest h)"

lemma header_read_long:
  assumes "nom_ok N" and "bufmut_ok B" and "cid_ok (lh_dcid h)" and "cid_ok (lh_scid h)"
    and "header_type hd0 = Long ty"
    and "long_header_parse N (lh_dcid h) (lh_scid h) ty spec = PDone rest hd0"
  shows "header_read N dlen hd0 (put_long B (Long ty) h [] @ spec) rest"
  using packet_type_read_back [OF assms(1,2)] be_header_long [OF assms(1,3,4)] assms(5,6)
  by (simp add: header_read_def put_long_eq [OF assms(2)] del: be_bytes.simps)

lemma length_put_long:
  "bufmut_ok B \<Longrightarrow> length (put_long B (Long ty) h buf) =
     length buf + (1 + 4 + 1 + length (cid_bytes (lh_dcid h)) + 1 + length (cid_bytes (lh_scid h)))"
  by (simp add: put_long_eq put_packet_type_length)

lemma put_long_appends: "bufmut_ok B \<Longrightarrow> put_long B ty h buf = buf @ put_long B ty h []"
  by (simp add: put_long_eq)

lemma put_header_read_back:
  assumes N: "nom_ok N" and B: "bufmut_ok B" and ok: "header_ok h"
    and rest: "fills_datagram h \<longrightarrow> rest = []" and dlen: "\<And>spin dcid. h = HOneRtt spin dcid \<Longrightarrow> dlen = length (cid_bytes dcid)"
  shows "\<exists>enc. (\<forall>buf. put_header B h buf = Ret (buf @ enc)) \<and> header_read N dlen h (enc @ rest) rest \<and>
    (\<not> fills_datagram h \<longrightarrow> header_size h = Ret (length enc))"
proof (cases h)
  case (HVN l)
  have "header_read N dlen h (put_long B (Long VersionNegotiation) l [] @ concat (map (be_bytes 4) (lh_specific l))) []"
    using N B ok HVN vn_loop_read_back [OF N]
    by (intro header_read_long) (auto simp: be_version_negotiation_def long_header.expand)
  then show ?thesis
    using HVN rest
    by (intro exI [of _ "put_long B (Long VersionNegotiation) l [] @ concat (map (be_bytes 4) (lh_specific l))"])
      (simp add: fold_put_u32 [OF B] put_long_eq [OF B] del: be_bytes.simps put_packet_type.simps)
next
  case (HRetry l)
  obtain tok integ where sp: "lh_specific l = (tok, integ)" by fastforce
  have "header_read N dlen h (put_long B (Long (V1 Retry)) l [] @ tok @ integ) []"
    using N B ok HRetry sp
    by (intro header_read_long) (auto simp: be_retry_def nom_take retry_new_def long_header.expand)
  then show ?thesis
    using HRetry rest sp
    by (intro exI [of _ "put_long B (Long (V1 Retry)) l [] @ tok @ integ"])
      (simp add: bufmut_puts [OF B] put_long_eq [OF B] del: be_bytes.simps put_packet_type.simps)
next
  case (HInitial l)
  let ?t = "lh_specific l"
  have v: "varint_ok (VarInt (length ?t))" and tl: "token_len_varint ?t = Ret (VarInt (length ?t))"
    using ok HInitial by (auto simp: varint_ok_def token_len_varint_def from_u64_def)
  obtain enc where enc: "\<And>buf. put_varint B (VarInt (length ?t)) buf = Ret (buf @ enc)"
      "\<And>N rest. nom_ok N \<Longrightarrow> be_varint N (enc @ rest) = (PDone rest (VarInt (length ?t)) :: (nom_error_kind, varint) presult)"
      "encoding_size (VarInt (length ?t)) = Ret (length enc)"
    by (rule put_varint_appends [OF B v]) (rule that, assumption+)
  have "header_read N dlen h (put_long B (Long (V1 Initial)) l [] @ enc @ ?t @ rest) rest"
    using N B ok HInitial length_data_read_back [OF N enc(2)]
    by (intro header_read_long) (auto simp: be_initial_def N long_header.expand)
  then show ?thesis
    using HInitial tl enc(1,3) length_put_long [OF B, of "V1 Initial" l "[]"]
    by (intro exI [of _ "put_long B (Long (V1 Initial)) l [] @ enc @ ?t"])
      (simp add: bufmut_puts [OF B] put_long_eq [OF B] del: be_bytes.simps put_packet_type.simps)
next
  case (HZeroRtt l)
  have "header_read N dlen h (put_long B (Long (V1 ZeroRtt)) l [] @ rest) rest"
    using N B ok HZeroRtt by (intro header_read_long) (auto simp: long_header.expand)
  then show ?thesis
    using HZeroRtt length_put_long [OF B, of "V1 ZeroRtt" l "[]"]
    by (intro exI [of _ "put_long B (Long (V1 ZeroRtt)) l []"])
      (simp add: put_long_eq [OF B] del: be_bytes.simps put_packet_type.simps)
next
  case (HHandshake l)
  have "header_read N dlen h (put_long B (Long (V1 Handshake)) l [] @ rest) rest"
    using N B ok HHandshake by (intro header_read_long) (auto simp: long_header.expand)
  then show ?thesis
    using HHandshake length_put_long [OF B, of "V1 Handshake" l "[]"]
    by (intro exI [of _ "put_long B (Long (V1 Handshake)) l []"])
      (simp add: put_long_eq [OF B] del: be_bytes.simps put_packet_type.simps)
next
  case (HOneRtt spin dcid)
  have "header_read N dlen h ((put_packet_type B (Short spin) [] @ cid_bytes dcid) @ rest) rest"
    using HOneRtt ok dlen packet_type_read_back [OF N B, of "Short spin"]
    by (simp add: header_read_def be_one_rtt_header_def nom_take [OF N] cid_from_slice_def cid_ok_def)
  moreover have "length (put_packet_type B (Short spin) [] @ cid_bytes dcid) = 1 + length (cid_bytes dcid)"
    by (simp add: bufmut_puts [OF B])
  ultimately show ?thesis
    using HOneRtt
    by (intro exI [of _ "put_packet_type B (Short spin) [] @ cid_bytes dcid"]) (simp add: bufmut_puts [OF B])
qed

text \<open>C18: Every well-formed packet header is read back from what \<open>put_header\<close> appends: first its
type, then the header, leaving the payload that follows; for the headers that are followed by a payload
the bytes written are as many as \<open>size\<close> announces.\<close>

theorem packet_header_roundtrip:
  assumes "nom_ok N" and "bufmut_ok B" and "header_ok h" and "fills_datagram h \<longrightarrow> rest = []"
    and "\<forall>spin dcid. h = HOneRtt spin dcid \<longrightarrow> dlen = length (cid_bytes dcid)"
  shows "\<exists>enc r1. put_header B h [] = Ret enc \<and> be_packet_type N (enc @ rest) = PDone r1 (header_type h) \<and>
    be_header N (header_type h) dlen r1 = PDone rest h \<and>
    (\<not> fills_datagram h \<longrightarrow> header_size h = Ret (length enc))"
  using put_header_read_back [OF assms(1-4), of dlen] assms(5) unfolding header_read_def
  by (metis append_Nil)

definition sample_header :: header where
  "sample_header = HInitial (LongHeader (ConnectionId [1, 2, 3, 4]) (ConnectionId []) [9, 9])"

theorem packet_header_roundtrip_witness:
  "\<exists>enc r1. put_header bufmut_ref sample_header [] = Ret enc \<and>
     be_packet_type nom_ref (enc @ [7]) = PDone r1 (header_type sample_header) \<and>
     be_header nom_ref (header_type sample_header) 8 r1 = PDone [7] sample_header \<and>
     (\<not> fills_datagram sample_header \<longrightarrow> header_size sample_header = Ret (length enc))"
  by (rule packet_header_roundtrip [OF nom_ok_ref bufmut_ok_ref])
    (simp_all add: sample_header_def cid_ok_def MAX_CID_SIZE_def)

subsection \<open>Datagrams\<close>

lemma be_payload_split:
  assumes N: "nom_ok N" and "length_data N (len @ payload @ rest) = PDone rest payload" and "20 \<le> length payload"
  shows "be_payload N pkty (hdr @ len @ payload @ rest) (length (len @ payload @ rest)) =
    Ret (Inr (hdr @ len @ payload, length (hdr @ len)), rest)"
  using assms(2,3) by (simp add: be_payload_def sub64_def)

text \<open>C19: A datagram of coalesced packets is cut at the packet boundaries: when a long-header packet
(Initial, 0-RTT or Handshake) with a payload of at least 20 bytes behind its length field is followed by
anything, \<open>be_packet\<close> returns exactly the bytes of that packet, the offset of its payload and its header,
and leaves what follows; a 1-RTT packet takes all the rest.\<close>

theorem be_packet_cuts_datagram:
  assumes "nom_ok N" and "bufmut_ok B" and "header_ok h" and "\<not> fills_datagram h"
    and "20 \<le> length payload" and "length payload < 2 ^ 14"
    and "put_header B h [] = Ret hdr" and "encode_varint B (VarInt (length payload)) Two [] = Ret len"
  shows "(case h of
      HOneRtt spin dcid \<Rightarrow>
        be_packet N (hdr @ payload) (length (cid_bytes dcid)) =
          Ret (Inr (PacketData h (hdr @ payload) (length hdr)), [])
    | _ \<Rightarrow>
        be_packet N (hdr @ len @ payload @ rest) dlen =
          Ret (Inr (PacketData h (hdr @ len @ payload) (length (hdr @ len))), rest))"
proof (cases "\<exists>spin dcid. h = HOneRtt spin dcid")
  case True
  then obtain spin dcid where h: "h = HOneRtt spin dcid" by blast
  then obtain enc where "\<forall>buf. put_header B h buf = Ret (buf @ enc)"
      "header_read N (length (cid_bytes dcid)) h (enc @ payload) payload"
    using put_header_read_back [OF assms(1-3), of payload "length (cid_bytes dcid)"] assms(4) by auto
  then have "header_read N (length (cid_bytes dcid)) h (hdr @ payload) payload" using assms(7) by auto
  then show ?thesis using h assms(5) by (auto simp: header_read_def be_packet_def sub64_def)
next
  case False
  obtain enc where "\<forall>buf. put_header B h buf = Ret (buf @ enc)"
      "header_read N dlen h (enc @ len @ payload @ rest) (len @ payload @ rest)"
    using put_header_read_back [OF assms(1-3), of "len @ payload @ rest" dlen] assms(4) False by auto
  then have rd: "header_read N dlen h (hdr @ len @ payload @ rest) (len @ payload @ rest)" using assms(7) by auto
  have "be_varint N (len @ payload @ rest) = (PDone (payload @ rest) (VarInt (length payload)) :: (nom_error_kind, varint) presult)"
    using encode_varint_form [OF assms(2,8)] be_varint_form [OF assms(1)] by fastforce
  then have "length_data N (len @ payload @ rest) = PDone rest payload" by (rule length_data_read_back [OF assms(1)])
  note pl = be_payload_split [OF assms(1) this assms(5), of _ hdr]
  show ?thesis
    using rd pl False assms(4) by (cases h) (auto simp: header_read_def be_packet_def)
qed

theorem be_packet_cuts_datagram_witness:
  "\<exists>hdr len. put_header bufmut_ref sample_header [] = Ret hdr \<and>
     encode_varint bufmut_ref (VarInt 20) Two [] = Ret len \<and>
     be_packet nom_ref (hdr @ len @ replicate 20 0 @ [1, 2]) 8 =
       Ret (Inr (PacketData sample_header (hdr @ len @ replicate 20 0) (length (hdr @ len))), [1, 2])"
proof -
  have ok: "header_ok sample_header" "\<not> fills_datagram sample_header"
    by (simp_all add: sample_header_def cid_ok_def MAX_CID_SIZE_def)
  obtain hdr where h: "put_header bufmut_ref sample_header [] = Ret hdr"
    using put_header_read_back [OF nom_ok_ref bufmut_ok_ref ok(1), of "[]" 8] by (auto simp: sample_header_def)
  obtain len where l: "encode_varint bufmut_ref (VarInt (length (replicate 20 (0::byte)))) Two [] = Ret len"
    by simp
  from be_packet_cuts_datagram [OF nom_ok_ref bufmut_ok_ref ok _ _ h l, of "[1, 2]" 8] show ?thesis
    using h l by (simp add: sample_header_def)
qed

lemma take_streaming_shorter:
  "nom_ok N \<Longrightarrow> take_streaming N n i = PDone r a \<Longrightarrow> length r \<le> length i"
  by (auto simp: nom_take split: if_splits)

text \<open>
  The header parsers do generate an error: a connection ID longer than 20 bytes. \<open>be_packet\<close>
  treats that as \<open>unreachable!\<close>.
\<close>

text \<open>C38: A single datagram makes the packet reader panic: whatever the length announced for local
connection IDs, a long header of version 1 whose destination connection ID claims more than 20 bytes is an
error of the header parser that \<open>be_packet\<close> declares unreachable.\<close>

theorem be_packet_panics_on_long_cid:
  assumes "nom_ok N" and "MAX_CID_SIZE < unat cid_len"
  shows "packet_reader_next N dcid_len ([0xc0, 0, 0, 0, 1, cid_len] @ rest) = Panic"
proof -
  have v: "be_packet_type N ([0xc0, 0, 0, 0, 1, cid_len] @ rest) = PDone (cid_len # rest) (Long (V1 Initial))"
    using be_u8_Cons [OF assms(1), of "0xc0" "[0, 0, 0, 1, cid_len] @ rest"]
    by (simp add: be_packet_type_def parse_long_type_def nom_be [OF assms(1)] be_streaming_def
        v1_try_from_def packet_type_consts)
  have "be_header N (Long (V1 Initial)) dcid_len (cid_len # rest) = PError TooLarge"
    using assms(2) be_u8_Cons [OF assms(1)] by (simp add: be_connection_id_def be_connection_id_with_len_def)
  then show ?thesis using v by (simp add: packet_reader_next_def be_packet_def)
qed

theorem be_packet_panics_on_long_cid_witness:
  "packet_reader_next nom_ref 8 [0xc0, 0, 0, 0, 1, 21] = Panic"
  using be_packet_panics_on_long_cid [OF nom_ok_ref, of 21 8 "[]"] by (simp add: MAX_CID_SIZE_def)

end
