(* ===== verification/Sid.thy ===== *)
theory Sid
  imports Varint
begin

section \<open>Stream identifiers: qbase/src/sid.rs\<close>

text \<open>
  A stream identifier is a 62-bit integer: bit 0 the role of the endpoint that opened the stream,
  bit 1 its direction, the rest its number. The allocation of identifiers is in theory \<open>Stream_Ids\<close>.
\<close>

unbundle bit_operations_syntax

datatype role = Client | Server

fun role_not :: "role \<Rightarrow> role" where
  "role_not Client = Server"
| "role_not Server = Client"

fun role_num :: "role \<Rightarrow> nat" where
  "role_num Client = 0"
| "role_num Server = 1"

datatype dir = Bi | Uni

fun dir_num :: "dir \<Rightarrow> nat" where
  "dir_num Bi = 0"
| "dir_num Uni = 1"

datatype stream_id = StreamId (sid_value: nat)

definition MAX_STREAMS_LIMIT :: nat where
  "MAX_STREAMS_LIMIT = 2 ^ 60 - 1"

definition sid_new :: "role \<Rightarrow> dir \<Rightarrow> nat \<Rightarrow> stream_id run" where
  "sid_new role dir n =
     assert_run (n \<le> MAX_STREAMS_LIMIT)
       (Ret (StreamId (push_bit 1 (push_bit 1 n OR dir_num dir) OR role_num role)))"

definition sid_role :: "stream_id \<Rightarrow> role" where
  "sid_role s = (if sid_value s AND 1 = 0 then Client else Server)"

definition sid_dir :: "stream_id \<Rightarrow> dir" where
  "sid_dir s = (if sid_value s AND 2 = 0 then Bi else Uni)"

definition sid_id :: "stream_id \<Rightarrow> nat" where
  "sid_id s = drop_bit 2 (sid_value s)"

definition next_unchecked :: "stream_id \<Rightarrow> stream_id run" where
  "next_unchecked s = bind_run (add64 (sid_value s) 4) (\<lambda>v. Ret (StreamId v))"

definition sid_of_varint :: "varint \<Rightarrow> stream_id" where
  "sid_of_varint v = StreamId (into_inner v)"

definition varint_of_sid :: "stream_id \<Rightarrow> varint run" where
  "varint_of_sid s = unwrap_result (from_u64 (sid_value s))"

definition sid_encoding_size :: "stream_id \<Rightarrow> nat run" where
  "sid_encoding_size s = bind_run (varint_of_sid s) encoding_size"

definition be_streamid :: "nom \<Rightarrow> byte list \<Rightarrow> ('e, stream_id) presult" where
  "be_streamid N input = pmap sid_of_varint (be_varint N input)"

definition put_streamid :: "bufmut \<Rightarrow> stream_id \<Rightarrow> byte list \<Rightarrow> byte list run" where
  "put_streamid B s buf = bind_run (varint_of_sid s) (\<lambda>v. put_varint B v buf)"

subsection \<open>Parts of an identifier\<close>

definition sid_ok :: "stream_id \<Rightarrow> bool" where
  "sid_ok s \<longleftrightarrow> sid_value s < 2 ^ 62"

lemma role_dir_bound: "role_num r < 2" "dir_num d < 2"
  by (cases r; simp) (cases d; simp)

lemma sid_new_value:
  assumes "n \<le> MAX_STREAMS_LIMIT"
  shows "sid_new r d n = Ret (StreamId (4 * n + 2 * dir_num d + role_num r))"
proof -
  have "push_bit 1 n OR dir_num d = n * 2 + dir_num d"
    using or_disjoint_nat [of "dir_num d" 1 n] role_dir_bound(2) by simp
  then show ?thesis
    using assms or_disjoint_nat [of "role_num r" 1 "n * 2 + dir_num d"] role_dir_bound(1) [of r]
    by (simp add: sid_new_def)
qed

lemma sid_parts_arith:
  "sid_role s = (if sid_value s mod 2 = 0 then Client else Server)"
  "sid_dir s = (if sid_value s div 2 mod 2 = 0 then Bi else Uni)"
  "sid_id s = sid_value s div 4"
proof -
  have "sid_value s AND 1 = sid_value s mod 2" by (simp add: and_one_eq)
  then show "sid_role s = (if sid_value s mod 2 = 0 then Client else Server)" by (simp add: sid_role_def)
  have "sid_value s AND 2 = 2 * (sid_value s div 2 mod 2)"
    by (subst and_rec) (simp add: and_one_eq)
  then show "sid_dir s = (if sid_value s div 2 mod 2 = 0 then Bi else Uni)" by (simp add: sid_dir_def)
  show "sid_id s = sid_value s div 4" by (simp add: sid_id_def drop_bit_eq_div)
qed

lemma sid_new_parts:
  assumes "sid_new r d n = Ret s"
  shows "sid_role s = r" and "sid_dir s = d" and "sid_id s = n" and "sid_ok s"
proof -
  have n: "n \<le> MAX_STREAMS_LIMIT" using assms by (auto simp: sid_new_def run_simps)
  have s: "sid_value s = 4 * n + 2 * dir_num d + role_num r" using assms sid_new_value [OF n] by auto
  have "sid_value s mod 2 = role_num r" by (cases r; cases d) (simp_all add: s, presburger+)
  then show "sid_role s = r" by (cases r) (simp_all add: sid_parts_arith)
  show "sid_dir s = d"
  proof -
    have "sid_value s div 2 mod 2 = dir_num d"
      by (cases r; cases d) (simp_all add: s)
    then show ?thesis by (cases d) (simp_all add: sid_parts_arith)
  qed
  show "sid_id s = n" by (cases r; cases d) (simp_all add: sid_parts_arith s)
  show "sid_ok s" using n by (cases r; cases d) (simp_all add: sid_ok_def s MAX_STREAMS_LIMIT_def)
qed

lemma sid_rebuild:
  assumes "sid_ok s"
  shows "sid_new (sid_role s) (sid_dir s) (sid_id s) = Ret s"
proof -
  have "sid_id s \<le> MAX_STREAMS_LIMIT" using assms by (simp add: sid_parts_arith sid_ok_def MAX_STREAMS_LIMIT_def)
  moreover have "4 * (sid_value s div 4) + 2 * dir_num (sid_dir s) + role_num (sid_role s) = sid_value s"
  proof -
    have "dir_num (sid_dir s) = sid_value s div 2 mod 2" "role_num (sid_role s) = sid_value s mod 2"
      by (auto simp: sid_parts_arith)
    then show ?thesis by presburger
  qed
  ultimately show ?thesis by (simp add: sid_new_value sid_parts_arith(3))
qed

lemma put_streamid_appends:
  assumes "bufmut_ok B" and "sid_ok s"
  obtains enc where "\<And>buf. put_streamid B s buf = Ret (buf @ enc)"
    and "\<And>N rest. nom_ok N \<Longrightarrow> be_streamid N (enc @ rest) = PDone rest s"
    and "sid_encoding_size s = Ret (length enc)"
proof -
  have v: "varint_of_sid s = Ret (VarInt (sid_value s))" "varint_ok (VarInt (sid_value s))"
    using assms(2) by (simp_all add: varint_of_sid_def from_u64_def sid_ok_def varint_ok_def)
  show ?thesis
  proof (rule put_varint_appends [OF assms(1) v(2)])
    fix enc
    assume e: "\<And>buf. put_varint B (VarInt (sid_value s)) buf = Ret (buf @ enc)"
      "\<And>N rest. nom_ok N \<Longrightarrow> be_varint N (enc @ rest) = (PDone rest (VarInt (sid_value s)) :: ('a, varint) presult)"
      "encoding_size (VarInt (sid_value s)) = Ret (length enc)"
    show ?thesis
      by (rule that [of enc]) (use e v in \<open>simp_all add: put_streamid_def be_streamid_def sid_of_varint_def sid_encoding_size_def\<close>)
  qed
qed

end
