(* ===== verification/Frame_Types.thy ===== *)
theory Frame_Types
  imports Packet_Headers Sid
begin

section \<open>Errors and frame types: qbase/src/error.rs, qbase/src/frame.rs and frame/error.rs\<close>

text \<open>
  The transport error codes, the frame types with their wire codes, the packet types a frame may be
  sent in, and the errors of the frame parser. The human-readable reasons inside errors are not
  modelled, except in the CONNECTION\_CLOSE frame, which carries one.
\<close>

unbundle bit_operations_syntax

subsection \<open>Error codes\<close>

datatype error_kind =
    NoError | Internal | ConnectionRefused | FlowControl | StreamLimit | StreamState | FinalSize
  | FrameEncoding | TransportParameter | ConnectionIdLimit | ProtocolViolation | InvalidToken
  | Application | CryptoBufferExceeded | KeyUpdate | AeadLimitReached | NoViablePath
  | CryptoAlert byte

definition error_kind_try_from :: "varint \<Rightarrow> nat + error_kind" where
  "error_kind_try_from v =
     (let x = into_inner v
      in if x = 0x00 then Inr NoError
         else if x = 0x01 then Inr Internal
         else if x = 0x02 then Inr ConnectionRefused
         else if x = 0x03 then Inr FlowControl
         else if x = 0x04 then Inr StreamLimit
         else if x = 0x05 then Inr StreamState
         else if x = 0x06 then Inr FinalSize
         else if x = 0x07 then Inr FrameEncoding
         else if x = 0x08 then Inr TransportParameter
         else if x = 0x09 then Inr ConnectionIdLimit
         else if x = 0x0a then Inr ProtocolViolation
         else if x = 0x0b then Inr InvalidToken
         else if x = 0x0c then Inr Application
         else if x = 0x0d then Inr CryptoBufferExceeded
         else if x = 0x0e then Inr KeyUpdate
         else if x = 0x0f then Inr AeadLimitReached
         else if x = 0x10 then Inr NoViablePath
         else if 0x0100 \<le> x \<and> x \<le> 0x01ff then Inr (CryptoAlert (word_of_nat (x AND 0xff)))
         else Inl x)"

fun varint_of_error_kind :: "error_kind \<Rightarrow> varint" where
  "varint_of_error_kind NoError = VarInt 0x00"
| "varint_of_error_kind Internal = VarInt 0x01"
| "varint_of_error_kind ConnectionRefused = VarInt 0x02"
| "varint_of_error_kind FlowControl = VarInt 0x03"
| "varint_of_error_kind StreamLimit = VarInt 0x04"
| "varint_of_error_kind StreamState = VarInt 0x05"
| "varint_of_error_kind FinalSize = VarInt 0x06"
| "varint_of_error_kind FrameEncoding = VarInt 0x07"
| "varint_of_error_kind TransportParameter = VarInt 0x08"
| "varint_of_error_kind ConnectionIdLimit = VarInt 0x09"
| "varint_of_error_kind ProtocolViolation = VarInt 0x0a"
| "varint_of_error_kind InvalidToken = VarInt 0x0b"
| "varint_of_error_kind Application = VarInt 0x0c"
| "varint_of_error_kind CryptoBufferExceeded = VarInt 0x0d"
| "varint_of_error_kind KeyUpdate = VarInt 0x0e"
| "varint_of_error_kind AeadLimitReached = VarInt 0x0f"
| "varint_of_error_kind NoViablePath = VarInt 0x10"
| "varint_of_error_kind (CryptoAlert x) = VarInt (0x0100 OR unat x)"

subsection \<open>Frame types\<close>

datatype frame_type =
    Padding | Ping | Ack byte | ResetStream | StopSending | Crypto | NewToken | Stream byte
  | MaxData | MaxStreamData | MaxStreams byte | DataBlocked | StreamDataBlocked | StreamsBlocked byte
  | NewConnectionId | RetireConnectionId | PathChallenge | PathResponse | ConnectionClose byte
  | HandshakeDone | Datagram byte

datatype frame_error =
    NoFrames
  | IncompleteType
  | InvalidType varint
  | WrongType frame_type packet_type
  | IncompleteFrame frame_type
  | ParseError frame_type nom_error_kind

definition frame_type_try_from :: "varint \<Rightarrow> frame_error + frame_type" where
  "frame_type_try_from v =
     (let x = into_inner v; ty = (word_of_nat x :: byte)
      in if x = 0x00 then Inr Padding
         else if x = 0x01 then Inr Ping
         else if x = 0x02 \<or> x = 0x03 then Inr (Ack (ty AND 0b1))
         else if x = 0x04 then Inr ResetStream
         else if x = 0x05 then Inr StopSending
         else if x = 0x06 then Inr Crypto
         else if x = 0x07 then Inr NewToken
         else if 0x08 \<le> x \<and> x \<le> 0x0f then Inr (Stream (ty AND 0b111))
         else if x = 0x10 then Inr MaxData
         else if x = 0x11 then Inr MaxStreamData
         else if x = 0x12 \<or> x = 0x13 then Inr (MaxStreams (ty AND 0b1))
         else if x = 0x14 then Inr DataBlocked
         else if x = 0x15 then Inr StreamDataBlocked
         else if x = 0x16 \<or> x = 0x17 then Inr (StreamsBlocked (ty AND 0b1))
         else if x = 0x18 then Inr NewConnectionId
         else if x = 0x19 then Inr RetireConnectionId
         else if x = 0x1a then Inr PathChallenge
         else if x = 0x1b then Inr PathResponse
         else if x = 0x1c \<or> x = 0x1d then Inr (ConnectionClose (ty AND 0x1))
         else if x = 0x1e then Inr HandshakeDone
         else if x = 0x30 \<or> x = 0x31 then Inr (Datagram (ty AND 1))
         else Inl (InvalidType v))"

definition varint_of_u8 :: "byte \<Rightarrow> varint" where
  "varint_of_u8 b = VarInt (unat b)"

fun varint_of_frame_type :: "frame_type \<Rightarrow> varint" where
  "varint_of_frame_type Padding = from_u32 0x00"
| "varint_of_frame_type Ping = from_u32 0x01"
| "varint_of_frame_type (Ack ecn) = varint_of_u8 (0x02 OR ecn)"
| "varint_of_frame_type ResetStream = from_u32 0x04"
| "varint_of_frame_type StopSending = from_u32 0x05"
| "varint_of_frame_type Crypto = from_u32 0x06"
| "varint_of_frame_type NewToken = from_u32 0x07"
| "varint_of_frame_type (Stream flag) = varint_of_u8 (0x08 OR flag)"
| "varint_of_frame_type MaxData = from_u32 0x10"
| "varint_of_frame_type MaxStreamData = from_u32 0x11"
| "varint_of_frame_type (MaxStreams dir) = varint_of_u8 (0x12 OR dir)"
| "varint_of_frame_type DataBlocked = from_u32 0x14"
| "varint_of_frame_type StreamDataBlocked = from_u32 0x15"
| "varint_of_frame_type (StreamsBlocked dir) = varint_of_u8 (0x16 OR dir)"
| "varint_of_frame_type NewConnectionId = from_u32 0x18"
| "varint_of_frame_type RetireConnectionId = from_u32 0x19"
| "varint_of_frame_type PathChallenge = from_u32 0x1a"
| "varint_of_frame_type PathResponse = from_u32 0x1b"
| "varint_of_frame_type (ConnectionClose layer) = varint_of_u8 (0x1c OR layer)"
| "varint_of_frame_type HandshakeDone = from_u32 0x1e"
| "varint_of_frame_type (Datagram with_len) = varint_of_u8 (0x30 OR with_len)"

definition belongs_to :: "frame_type \<Rightarrow> packet_type \<Rightarrow> bool" where
  "belongs_to ft packet_type =
     (let i = (packet_type = Long (V1 Initial));
          h = (packet_type = Long (V1 Handshake));
          z = (packet_type = Long (V1 ZeroRtt));
          l = (case packet_type of Short _ \<Rightarrow> True | _ \<Rightarrow> False)
      in case ft of
           Padding \<Rightarrow> i \<or> h \<or> z \<or> l
         | Ping \<Rightarrow> i \<or> h \<or> z \<or> l
         | Ack _ \<Rightarrow> i \<or> h \<or> l
         | ResetStream \<Rightarrow> z \<or> l
         | StopSending \<Rightarrow> z \<or> l
         | Crypto \<Rightarrow> i \<or> h \<or> l
         | NewToken \<Rightarrow> l
         | Stream _ \<Rightarrow> z \<or> l
         | MaxData \<Rightarrow> z \<or> l
         | MaxStreamData \<Rightarrow> z \<or> l
         | MaxStreams _ \<Rightarrow> z \<or> l
         | DataBlocked \<Rightarrow> z \<or> l
         | StreamDataBlocked \<Rightarrow> z \<or> l
         | StreamsBlocked _ \<Rightarrow> z \<or> l
         | NewConnectionId \<Rightarrow> z \<or> l
         | RetireConnectionId \<Rightarrow> z \<or> l
         | PathChallenge \<Rightarrow> z \<or> l
         | PathResponse \<Rightarrow> l
         | ConnectionClose bit0 \<Rightarrow> (if (bit0 = 0 \<and> i) \<or> h then True else z \<or> l)
         | HandshakeDone \<Rightarrow> l
         | Datagram _ \<Rightarrow> z \<or> l)"

datatype spec = NonAckEliciting | CongestionControlFree | ProbeNewPath | FlowControlled

fun spec_bit :: "spec \<Rightarrow> byte" where
  "spec_bit NonAckEliciting = 1"
| "spec_bit CongestionControlFree = 2"
| "spec_bit ProbeNewPath = 4"
| "spec_bit FlowControlled = 8"

definition contain_spec :: "byte \<Rightarrow> spec \<Rightarrow> bool" where
  "contain_spec b s \<longleftrightarrow> b AND spec_bit s \<noteq> 0"

fun specs :: "frame_type \<Rightarrow> byte" where
  "specs Padding = spec_bit NonAckEliciting OR spec_bit ProbeNewPath"
| "specs (Ack _) = spec_bit NonAckEliciting OR spec_bit CongestionControlFree"
| "specs (Stream _) = spec_bit FlowControlled"
| "specs NewConnectionId = spec_bit ProbeNewPath"
| "specs PathChallenge = spec_bit ProbeNewPath"
| "specs PathResponse = spec_bit ProbeNewPath"
| "specs (ConnectionClose _) = spec_bit NonAckEliciting OR spec_bit CongestionControlFree"
| "specs _ = 0"

text \<open>\<open>PacketContains\<close> (qbase/src/packet.rs) folds the types of the frames of a packet.\<close>

datatype packet_contains = OnlyNonAckEliciting | JustPing | EffectivePayload

definition contains_include :: "packet_contains \<Rightarrow> frame_type \<Rightarrow> packet_contains" where
  "contains_include s fty =
     (if fty = Ping \<and> s \<noteq> EffectivePayload then JustPing
      else if \<not> contain_spec (specs fty) NonAckEliciting then EffectivePayload
      else s)"

definition contains_ack_eliciting :: "packet_contains \<Rightarrow> bool" where
  "contains_ack_eliciting s \<longleftrightarrow> s \<noteq> OnlyNonAckEliciting"

text \<open>
  \<open>be_frame_type\<close>: any failure to read the integer is an incomplete type. A panic of
  \<open>be_varint\<close> stays a panic.
\<close>

definition be_frame_type :: "nom \<Rightarrow> byte list \<Rightarrow> (frame_error, frame_type) presult" where
  "be_frame_type N input =
     pbind (case (be_varint N input :: (nom_error_kind, varint) presult) of
              PDone remain v \<Rightarrow> PDone remain v
            | PPanic \<Rightarrow> PPanic
            | _ \<Rightarrow> PError IncompleteType)
       (\<lambda>remain v. case frame_type_try_from v of Inl e \<Rightarrow> PError e | Inr ft \<Rightarrow> PDone remain ft)"

datatype error_frame_type = ErrV1 frame_type | ErrExt varint

datatype quic_error = QuicError (err_kind: error_kind) (err_frame_type: error_frame_type)

definition with_default_fty :: "error_kind \<Rightarrow> quic_error" where
  "with_default_fty k = QuicError k (ErrV1 Padding)"

fun varint_of_error_frame_type :: "error_frame_type \<Rightarrow> varint" where
  "varint_of_error_frame_type (ErrV1 ft) = varint_of_frame_type ft"
| "varint_of_error_frame_type (ErrExt v) = v"

datatype conn_error = ErrQuic quic_error | ErrApp varint

fun conn_error_kind :: "conn_error \<Rightarrow> error_kind" where
  "conn_error_kind (ErrQuic e) = err_kind e"
| "conn_error_kind (ErrApp _) = Application"

fun conn_error_frame_type :: "conn_error \<Rightarrow> error_frame_type" where
  "conn_error_frame_type (ErrQuic e) = err_frame_type e"
| "conn_error_frame_type (ErrApp _) = ErrV1 Padding"

fun transport_error_of :: "frame_error \<Rightarrow> quic_error" where
  "transport_error_of NoFrames = with_default_fty ProtocolViolation"
| "transport_error_of IncompleteType = with_default_fty FrameEncoding"
| "transport_error_of (InvalidType _) = with_default_fty FrameEncoding"
| "transport_error_of (WrongType fty _) = QuicError FrameEncoding (ErrV1 fty)"
| "transport_error_of (IncompleteFrame fty) = QuicError FrameEncoding (ErrV1 fty)"
| "transport_error_of (ParseError fty _) = QuicError FrameEncoding (ErrV1 fty)"

subsection \<open>Codes and values\<close>

fun frame_type_ok :: "frame_type \<Rightarrow> bool" where
  "frame_type_ok (Ack b) \<longleftrightarrow> unat b < 2"
| "frame_type_ok (Stream b) \<longleftrightarrow> unat b < 8"
| "frame_type_ok (MaxStreams b) \<longleftrightarrow> unat b < 2"
| "frame_type_ok (StreamsBlocked b) \<longleftrightarrow> unat b < 2"
| "frame_type_ok (ConnectionClose b) \<longleftrightarrow> unat b < 2"
| "frame_type_ok (Datagram b) \<longleftrightarrow> unat b < 2"
| "frame_type_ok _ \<longleftrightarrow> True"

lemma unat_less_2: "unat (b :: byte) < 2 \<Longrightarrow> b = 0 \<or> b = 1"
  by (auto simp: word_unat_eq_iff less_2_cases_iff)

lemma nat_lt_8: "(n::nat) < 8 \<Longrightarrow> n = 0 \<or> n = 1 \<or> n = 2 \<or> n = 3 \<or> n = 4 \<or> n = 5 \<or> n = 6 \<or> n = 7"
  by linarith

lemma unat_less_8: "unat (b :: byte) < 8 \<Longrightarrow> b = 0 \<or> b = 1 \<or> b = 2 \<or> b = 3 \<or> b = 4 \<or> b = 5 \<or> b = 6 \<or> b = 7"
  using nat_lt_8 [of "unat b"] by (auto simp: word_unat_eq_iff)

lemma frame_type_code_back:
  assumes "frame_type_ok ft"
  shows "frame_type_try_from (varint_of_frame_type ft) = Inr ft"
proof (cases ft)
  case (Stream b)
  then have "b = 0 \<or> b = 1 \<or> b = 2 \<or> b = 3 \<or> b = 4 \<or> b = 5 \<or> b = 6 \<or> b = 7" using assms unat_less_8 by simp
  then show ?thesis using Stream by (elim disjE) (simp_all add: frame_type_try_from_def varint_of_u8_def)
qed (use assms in \<open>auto dest!: unat_less_2 simp: frame_type_try_from_def from_u32_def varint_of_u8_def\<close>)

lemma frame_type_code_of:
  assumes "frame_type_try_from v = Inr ft"
  shows "frame_type_ok ft" and "varint_of_frame_type ft = v"
proof -
  obtain x where v: "v = VarInt x" by (cases v)
  show "frame_type_ok ft" "varint_of_frame_type ft = v"
  proof (atomize (full), cases "8 \<le> x \<and> x \<le> 15")
    case True
    then have "x = 8 \<or> x = 9 \<or> x = 10 \<or> x = 11 \<or> x = 12 \<or> x = 13 \<or> x = 14 \<or> x = 15" by linarith
    then show "frame_type_ok ft \<and> varint_of_frame_type ft = v"
      using assms by (elim disjE) (auto simp: frame_type_try_from_def v varint_of_u8_def)
  next
    case False
    then show "frame_type_ok ft \<and> varint_of_frame_type ft = v"
      using assms by (auto simp: frame_type_try_from_def v Let_def from_u32_def varint_of_u8_def split: if_splits)
  qed
qed

lemma crypto_alert_code: "0x0100 OR unat (b :: byte) = 256 + unat b" "(256 + unat (b :: byte)) AND 0xff = unat b"
proof -
  show "0x0100 OR unat b = 256 + unat b" using or_disjoint_nat [of "unat b" 8 1] by simp
  have "(256 + unat b) AND 0xff = (256 + unat b) mod 2 ^ 8"
    using take_bit_eq_mask [of 8 "256 + unat b"] by (simp add: take_bit_eq_mod mask_eq_exp_minus_1)
  then show "(256 + unat b) AND 0xff = unat b" by simp
qed

lemma error_kind_code_back: "error_kind_try_from (varint_of_error_kind k) = Inr k"
proof (cases k)
  case (CryptoAlert b)
  have "unat b \<le> 255" using unat_byte_bound [of b] by linarith
  then show ?thesis using CryptoAlert by (simp add: error_kind_try_from_def crypto_alert_code Let_def)
qed (simp_all add: error_kind_try_from_def)

lemma error_kind_code_of:
  assumes "error_kind_try_from v = Inr k"
  shows "varint_of_error_kind k = v"
proof -
  obtain x where v: "v = VarInt x" by (cases v)
  show ?thesis
  proof (cases "0x0100 \<le> x \<and> x \<le> 0x01ff")
    case True
    then obtain y where y1: "x = 256 + y" using le_Suc_ex by auto
    then have y: "x = 256 + y" "y < 256" using True by simp_all
    have "unat (word_of_nat y :: byte) = y" using y(2) by (simp add: unat_word_of_nat_byte)
    moreover from this have "x AND 0xff = y" using crypto_alert_code(2) [of "word_of_nat y"] y(1) by simp
    ultimately show ?thesis
      using assms True y crypto_alert_code(1) [of "word_of_nat y"] by (auto simp: error_kind_try_from_def v Let_def)
  next
    case False
    then show ?thesis using assms by (auto simp: error_kind_try_from_def v Let_def split: if_splits)
  qed
qed

text \<open>The wire codes of frame types are a bijection: every frame type whose flag is in range is
read back from its code, and every code that is accepted is the code of the type it is read as.\<close>

theorem frame_type_codes_bijective:
  "(frame_type_ok ft \<longrightarrow> frame_type_try_from (varint_of_frame_type ft) = Inr ft) \<and>
   (frame_type_try_from v = Inr ft' \<longrightarrow> frame_type_ok ft' \<and> varint_of_frame_type ft' = v)"
  using frame_type_code_back frame_type_code_of by blast

theorem frame_type_codes_bijective_witness:
  "frame_type_try_from (varint_of_frame_type (Stream 5)) = Inr (Stream 5) \<and>
   varint_of_frame_type (Datagram 1) = VarInt 0x31"
  using frame_type_codes_bijective [of "Stream 5" "VarInt 0" Padding]
    frame_type_codes_bijective [of Padding "VarInt 0x31" "Datagram 1"]
  by (simp add: frame_type_try_from_def)

text \<open>The wire codes of transport errors are a bijection onto the accepted codes, all TLS alerts
included: no two errors share a code and every accepted code is the code of the error it is read as.\<close>

theorem error_codes_bijective:
  "error_kind_try_from (varint_of_error_kind k) = Inr k \<and>
   (error_kind_try_from v = Inr k' \<longrightarrow> varint_of_error_kind k' = v)"
  using error_kind_code_back error_kind_code_of by blast

theorem error_codes_bijective_witness:
  "error_kind_try_from (varint_of_error_kind (CryptoAlert 40)) = Inr (CryptoAlert 40) \<and>
   varint_of_error_kind ConnectionIdLimit = VarInt 9"
  using error_codes_bijective [of "CryptoAlert 40" "VarInt 9" ConnectionIdLimit]
  by (simp add: error_kind_try_from_def)

text \<open>\<open>PacketContains\<close> is right about acknowledgements: folding over the frame types of a packet,
the packet is ack-eliciting exactly when one of its frames is not marked \<open>NonAckEliciting\<close>, and it counts
as a bare ping exactly when all of those are PING.\<close>

theorem packet_contains_fold:
  "(contains_ack_eliciting (foldl contains_include OnlyNonAckEliciting fts) \<longleftrightarrow>
      (\<exists>ft \<in> set fts. \<not> contain_spec (specs ft) NonAckEliciting)) \<and>
   (foldl contains_include OnlyNonAckEliciting fts = JustPing \<longleftrightarrow>
      Ping \<in> set fts \<and> \<not> (\<exists>ft \<in> set fts. ft \<noteq> Ping \<and> \<not> contain_spec (specs ft) NonAckEliciting))"
proof (induction fts rule: rev_induct)
  case (snoc ft fts)
  define E where "E ft \<longleftrightarrow> \<not> contain_spec (specs ft) NonAckEliciting" for ft
  have ping: "E Ping" by (simp add: E_def contain_spec_def)
  have step: "contains_include s ft = (if ft = Ping \<and> s \<noteq> EffectivePayload then JustPing else if E ft then EffectivePayload else s)" for s
    by (simp add: E_def contains_include_def)
  define Q where "Q xs \<longleftrightarrow> (\<exists>ft \<in> set xs. ft \<noteq> Ping \<and> E ft)" for xs
  have ex: "(\<exists>ft \<in> set xs. E ft) \<longleftrightarrow> Ping \<in> set xs \<or> Q xs" for xs unfolding Q_def using ping by metis
  have Qs: "Q (fts @ [ft]) \<longleftrightarrow> Q fts \<or> (ft \<noteq> Ping \<and> E ft)" unfolding Q_def by auto
  define s where "s = foldl contains_include OnlyNonAckEliciting fts"
  have s: "s \<noteq> OnlyNonAckEliciting \<longleftrightarrow> Ping \<in> set fts \<or> Q fts" "s = JustPing \<longleftrightarrow> Ping \<in> set fts \<and> \<not> Q fts"
    using snoc unfolding s_def [symmetric] contains_ack_eliciting_def E_def [symmetric] ex Q_def [symmetric] by simp_all
  have new: "foldl contains_include OnlyNonAckEliciting (fts @ [ft]) = contains_include s ft" by (simp add: s_def)
  show ?case
    unfolding new step contains_ack_eliciting_def E_def [symmetric] ex Q_def [symmetric] Qs
    using s ping by (cases s; cases "ft = Ping"; cases "E ft") auto
qed (simp add: contains_ack_eliciting_def)

end
