(* ===== verification/Frames.thy ===== *)
theory Frames
  imports Frame_Types
begin

section \<open>The frames and their codecs: qbase/src/frame\<close>

text \<open>
  One datatype or record per frame struct of qbase/src/frame, with its reader (\<open>be_...\<close>), its writer
  (\<open>put_...\<close>) and the sizes of \<open>EncodeFrame\<close>. Texts are their UTF-8 bytes;
  \<open>String::from_utf8_lossy\<close> is the argument \<open>lossy\<close>, the room left in the output buffer is the
  argument \<open>remaining_mut\<close>.
\<close>

unbundle bit_operations_syntax

subsection \<open>Frames of integers\<close>

datatype max_data_frame = MaxDataFrame (md_max_data: varint)
datatype data_blocked_frame = DataBlockedFrame (db_limit: varint)
datatype retire_connection_id_frame = RetireConnectionIdFrame (rc_sequence: varint)
datatype max_stream_data_frame = MaxStreamDataFrame (msd_stream_id: stream_id) (msd_max: varint)
datatype stream_data_blocked_frame = StreamDataBlockedFrame (sdb_stream_id: stream_id) (sdb_max: varint)
datatype stop_sending_frame = StopSendingFrame (ss_stream_id: stream_id) (ss_app_err_code: varint)
datatype reset_stream_frame =
  ResetStreamFrame (rs_stream_id: stream_id) (rs_app_error_code: varint) (rs_final_size: varint)
datatype reset_stream_error = ResetStreamError (rse_app_error_code: varint) (rse_final_size: varint)
datatype max_streams_frame = MaxStreamsBi varint | MaxStreamsUni varint
datatype streams_blocked_frame = StreamsBlockedBi varint | StreamsBlockedUni varint

definition be_max_data_frame :: "nom \<Rightarrow> byte list \<Rightarrow> (nom_error_kind, max_data_frame) presult" where
  "be_max_data_frame N input = pmap MaxDataFrame (be_varint N input)"

definition put_max_data_frame :: "bufmut \<Rightarrow> max_data_frame \<Rightarrow> byte list \<Rightarrow> byte list run" where
  "put_max_data_frame B f buf = put_varint B (md_max_data f) (put_u8 B 0x10 buf)"

definition be_data_blocked_frame :: "nom \<Rightarrow> byte list \<Rightarrow> (nom_error_kind, data_blocked_frame) presult" where
  "be_data_blocked_frame N input = pmap DataBlockedFrame (be_varint N input)"

definition put_data_blocked_frame :: "bufmut \<Rightarrow> data_blocked_frame \<Rightarrow> byte list \<Rightarrow> byte list run" where
  "put_data_blocked_frame B f buf = put_varint B (db_limit f) (put_u8 B 0x14 buf)"

definition be_retire_connection_id_frame ::
    "nom \<Rightarrow> byte list \<Rightarrow> (nom_error_kind, retire_connection_id_frame) presult" where
  "be_retire_connection_id_frame N input = pmap RetireConnectionIdFrame (be_varint N input)"

definition put_retire_connection_id_frame ::
    "bufmut \<Rightarrow> retire_connection_id_frame \<Rightarrow> byte list \<Rightarrow> byte list run" where
  "put_retire_connection_id_frame B f buf = put_varint B (rc_sequence f) (put_u8 B 0x19 buf)"

definition be_max_stream_data_frame ::
    "nom \<Rightarrow> byte list \<Rightarrow> (nom_error_kind, max_stream_data_frame) presult" where
  "be_max_stream_data_frame N input =
     pbind (be_streamid N input) (\<lambda>i sid. pbind (be_varint N i) (\<lambda>i v. PDone i (MaxStreamDataFrame sid v)))"

definition put_max_stream_data_frame ::
    "bufmut \<Rightarrow> max_stream_data_frame \<Rightarrow> byte list \<Rightarrow> byte list run" where
  "put_max_stream_data_frame B f buf =
     bind_run (put_streamid B (msd_stream_id f) (put_u8 B 0x11 buf)) (put_varint B (msd_max f))"

definition be_stream_data_blocked_frame ::
    "nom \<Rightarrow> byte list \<Rightarrow> (nom_error_kind, stream_data_blocked_frame) presult" where
  "be_stream_data_blocked_frame N input =
     pbind (be_streamid N input) (\<lambda>i sid. pbind (be_varint N i) (\<lambda>i v. PDone i (StreamDataBlockedFrame sid v)))"

definition put_stream_data_blocked_frame ::
    "bufmut \<Rightarrow> stream_data_blocked_frame \<Rightarrow> byte list \<Rightarrow> byte list run" where
  "put_stream_data_blocked_frame B f buf =
     bind_run (put_streamid B (sdb_stream_id f) (put_u8 B 0x15 buf)) (put_varint B (sdb_max f))"

definition be_stop_sending_frame :: "nom \<Rightarrow> byte list \<Rightarrow> (nom_error_kind, stop_sending_frame) presult" where
  "be_stop_sending_frame N input =
     pbind (be_streamid N input) (\<lambda>i sid. pbind (be_varint N i) (\<lambda>i v. PDone i (StopSendingFrame sid v)))"

definition put_stop_sending_frame :: "bufmut \<Rightarrow> stop_sending_frame \<Rightarrow> byte list \<Rightarrow> byte list run" where
  "put_stop_sending_frame B f buf =
     bind_run (put_streamid B (ss_stream_id f) (put_u8 B 0x05 buf)) (put_varint B (ss_app_err_code f))"

definition stop_sending_reset_stream :: "stop_sending_frame \<Rightarrow> varint \<Rightarrow> reset_stream_frame" where
  "stop_sending_reset_stream f final_size = ResetStreamFrame (ss_stream_id f) (ss_app_err_code f) final_size"

definition be_reset_stream_frame :: "nom \<Rightarrow> byte list \<Rightarrow> (nom_error_kind, reset_stream_frame) presult" where
  "be_reset_stream_frame N input =
     pbind (be_streamid N input) (\<lambda>i sid. pbind (be_varint N i) (\<lambda>i code.
       pbind (be_varint N i) (\<lambda>i size. PDone i (ResetStreamFrame sid code size))))"

definition put_reset_stream_frame :: "bufmut \<Rightarrow> reset_stream_frame \<Rightarrow> byte list \<Rightarrow> byte list run" where
  "put_reset_stream_frame B f buf =
     bind_run (put_streamid B (rs_stream_id f) (put_u8 B 0x04 buf)) (\<lambda>buf.
     bind_run (put_varint B (rs_app_error_code f) buf) (put_varint B (rs_final_size f)))"

definition reset_stream_error_combine :: "reset_stream_error \<Rightarrow> stream_id \<Rightarrow> reset_stream_frame" where
  "reset_stream_error_combine e sid = ResetStreamFrame sid (rse_app_error_code e) (rse_final_size e)"

definition reset_stream_error_of :: "reset_stream_frame \<Rightarrow> reset_stream_error" where
  "reset_stream_error_of f = ResetStreamError (rs_app_error_code f) (rs_final_size f)"

fun max_streams_with :: "dir \<Rightarrow> varint \<Rightarrow> max_streams_frame" where
  "max_streams_with Bi v = MaxStreamsBi v"
| "max_streams_with Uni v = MaxStreamsUni v"

definition max_streams_frame_with_dir ::
    "nom \<Rightarrow> byte \<Rightarrow> byte list \<Rightarrow> (nom_error_kind, max_streams_frame) presult" where
  "max_streams_frame_with_dir N dir input =
     pbind (be_varint N input) (\<lambda>remain max_streams.
       if MAX_STREAMS_LIMIT < into_inner max_streams then PError TooLarge
       else PDone remain (if dir AND 0x1 = 0 then MaxStreamsBi max_streams else MaxStreamsUni max_streams))"

fun put_max_streams_frame :: "bufmut \<Rightarrow> max_streams_frame \<Rightarrow> byte list \<Rightarrow> byte list run" where
  "put_max_streams_frame B (MaxStreamsBi v) buf = put_varint B v (put_u8 B 0x12 buf)"
| "put_max_streams_frame B (MaxStreamsUni v) buf = put_varint B v (put_u8 B (0x12 OR 0x1) buf)"

fun streams_blocked_with :: "dir \<Rightarrow> varint \<Rightarrow> streams_blocked_frame" where
  "streams_blocked_with Bi v = StreamsBlockedBi v"
| "streams_blocked_with Uni v = StreamsBlockedUni v"

definition streams_blocked_frame_with_dir ::
    "nom \<Rightarrow> byte \<Rightarrow> byte list \<Rightarrow> (nom_error_kind, streams_blocked_frame) presult" where
  "streams_blocked_frame_with_dir N dir input =
     pbind (be_varint N input) (\<lambda>remain v.
       PDone remain (if dir AND 0x1 = 0 then StreamsBlockedBi v else StreamsBlockedUni v))"

fun put_streams_blocked_frame :: "bufmut \<Rightarrow> streams_blocked_frame \<Rightarrow> byte list \<Rightarrow> byte list run" where
  "put_streams_blocked_frame B (StreamsBlockedBi v) buf = put_varint B v (put_u8 B 0x16 buf)"
| "put_streams_blocked_frame B (StreamsBlockedUni v) buf = put_varint B v (put_u8 B (0x16 OR 0x1) buf)"

subsection \<open>Tokens, connection IDs, path validation\<close>

datatype new_token_frame = NewTokenFrame (nt_token: "byte list")

definition be_new_token_frame :: "nom \<Rightarrow> byte list \<Rightarrow> (nom_error_kind, new_token_frame) presult" where
  "be_new_token_frame N input =
     pbind (be_varint N input) (\<lambda>i len. pmap NewTokenFrame (take_streaming N (into_inner len) i))"

definition put_new_token_frame :: "bufmut \<Rightarrow> new_token_frame \<Rightarrow> byte list \<Rightarrow> byte list run" where
  "put_new_token_frame B f buf =
     bind_run (put_varint B (from_u32 (length (nt_token f) mod 2 ^ 32)) (put_u8 B 0x07 buf)) (\<lambda>buf.
       Ret (put_slice B (nt_token f) buf))"

datatype new_connection_id_frame =
  NewConnectionIdFrame (nc_sequence: varint) (nc_retire_prior_to: varint) (nc_id: connection_id)
    (nc_reset_token: "byte list")

definition be_new_connection_id_frame ::
    "nom \<Rightarrow> byte list \<Rightarrow> (nom_error_kind, new_connection_id_frame) presult" where
  "be_new_connection_id_frame N input =
     pbind (be_varint N input) (\<lambda>remain sequence.
     pbind (be_varint N remain) (\<lambda>remain retire_prior_to.
       if into_inner sequence < into_inner retire_prior_to then PError Verify
       else pbind (be_connection_id N remain) (\<lambda>remain cid.
              if cid_bytes cid = [] then PError Verify
              else pbind (be_reset_token N remain) (\<lambda>remain reset_token.
                     PDone remain (NewConnectionIdFrame sequence retire_prior_to cid reset_token)))))"

definition put_new_connection_id_frame ::
    "bufmut \<Rightarrow> new_connection_id_frame \<Rightarrow> byte list \<Rightarrow> byte list run" where
  "put_new_connection_id_frame B f buf =
     bind_run (put_varint B (nc_sequence f) (put_u8 B 0x18 buf)) (\<lambda>buf.
     bind_run (put_varint B (nc_retire_prior_to f) buf) (\<lambda>buf.
       Ret (put_slice B (nc_reset_token f) (put_connection_id B (nc_id f) buf))))"

datatype path_challenge_frame = PathChallengeFrame (pc_data: "byte list")
datatype path_response_frame = PathResponseFrame (pr_data: "byte list")

text \<open>\<open>copy_from_slice\<close> into the 8-byte array panics on another length.\<close>

definition path_challenge_from_slice :: "byte list \<Rightarrow> path_challenge_frame run" where
  "path_challenge_from_slice bs = assert_run (length bs = 8) (Ret (PathChallengeFrame bs))"

definition path_response_from_slice :: "byte list \<Rightarrow> path_response_frame run" where
  "path_response_from_slice bs = assert_run (length bs = 8) (Ret (PathResponseFrame bs))"

definition path_response_of :: "path_challenge_frame \<Rightarrow> path_response_frame run" where
  "path_response_of c = path_response_from_slice (pc_data c)"

definition be_path_challenge_frame :: "nom \<Rightarrow> byte list \<Rightarrow> (nom_error_kind, path_challenge_frame) presult" where
  "be_path_challenge_frame N input =
     pbind (take_streaming N 8 input) (\<lambda>i bs. prun i (path_challenge_from_slice bs))"

definition put_path_challenge_frame :: "bufmut \<Rightarrow> path_challenge_frame \<Rightarrow> byte list \<Rightarrow> byte list run" where
  "put_path_challenge_frame B f buf = Ret (put_slice B (pc_data f) (put_u8 B 0x1a buf))"

definition be_path_response_frame :: "nom \<Rightarrow> byte list \<Rightarrow> (nom_error_kind, path_response_frame) presult" where
  "be_path_response_frame N input =
     pbind (take_complete N 8 input) (\<lambda>i bs. prun i (path_response_from_slice bs))"

definition put_path_response_frame :: "bufmut \<Rightarrow> path_response_frame \<Rightarrow> byte list \<Rightarrow> byte list run" where
  "put_path_response_frame B f buf = Ret (put_slice B (pr_data f) (put_u8 B 0x1b buf))"

subsection \<open>ACK\<close>

datatype ecn_counts = EcnCounts (ect0: varint) (ect1: varint) (ecn_ce: varint)

record ack_frame =
  ack_largest :: varint
  ack_delay :: varint
  ack_first_range :: varint
  ack_ranges :: "(varint \<times> varint) list"
  ack_ecn :: "ecn_counts option"

fun ack_ranges_loop ::
    "nom \<Rightarrow> nat \<Rightarrow> byte list \<Rightarrow> (varint \<times> varint) list \<Rightarrow> (nom_error_kind, (varint \<times> varint) list) presult" where
  "ack_ranges_loop N 0 remain ranges = PDone remain ranges"
| "ack_ranges_loop N (Suc count) remain ranges =
     pbind (be_varint N remain) (\<lambda>i gap. pbind (be_varint N i) (\<lambda>i ack.
       ack_ranges_loop N count i (ranges @ [(gap, ack)])))"

definition be_ecn_counts :: "nom \<Rightarrow> byte list \<Rightarrow> (nom_error_kind, ecn_counts) presult" where
  "be_ecn_counts N input =
     pbind (be_varint N input) (\<lambda>i a. pbind (be_varint N i) (\<lambda>i b. pbind (be_varint N i) (\<lambda>i c.
       PDone i (EcnCounts a b c))))"

definition ack_frame_with_flag :: "nom \<Rightarrow> byte \<Rightarrow> byte list \<Rightarrow> (nom_error_kind, ack_frame) presult" where
  "ack_frame_with_flag N ecn_flag input =
     pbind (be_varint N input) (\<lambda>i largest. pbind (be_varint N i) (\<lambda>i delay.
     pbind (be_varint N i) (\<lambda>i count. pbind (be_varint N i) (\<lambda>i first_range.
     pbind (ack_ranges_loop N (into_inner count) i []) (\<lambda>remain ranges.
     pbind (if ecn_flag AND 0x1 \<noteq> 0 then pmap Some (be_ecn_counts N remain) else PDone remain None) (\<lambda>remain ecn.
       PDone remain \<lparr>ack_largest = largest, ack_delay = delay, ack_first_range = first_range,
                     ack_ranges = ranges, ack_ecn = ecn\<rparr>))))))"

fun put_ack_ranges :: "bufmut \<Rightarrow> (varint \<times> varint) list \<Rightarrow> byte list \<Rightarrow> byte list run" where
  "put_ack_ranges B [] buf = Ret buf"
| "put_ack_ranges B ((gap, ack) # rs) buf =
     bind_run (put_varint B gap buf) (\<lambda>buf. bind_run (put_varint B ack buf) (put_ack_ranges B rs))"

definition put_ack_frame :: "bufmut \<Rightarrow> ack_frame \<Rightarrow> byte list \<Rightarrow> byte list run" where
  "put_ack_frame B f buf =
     (let ty = (if ack_ecn f \<noteq> None then 0x02 OR 0x1 else 0x02)
      in bind_run (put_varint B (ack_largest f) (put_u8 B ty buf)) (\<lambda>buf.
         bind_run (put_varint B (ack_delay f) buf) (\<lambda>buf.
         bind_run (unwrap_result (from_u64 (length (ack_ranges f)))) (\<lambda>ack_range_count.
         bind_run (put_varint B ack_range_count buf) (\<lambda>buf.
         bind_run (put_varint B (ack_first_range f) buf) (\<lambda>buf.
         bind_run (put_ack_ranges B (ack_ranges f) buf) (\<lambda>buf.
           case ack_ecn f of
             None \<Rightarrow> Ret buf
           | Some e \<Rightarrow>
               bind_run (put_varint B (ect0 e) buf) (\<lambda>buf. bind_run (put_varint B (ect1 e) buf) (put_varint B (ecn_ce e))))))))))"

text \<open>The closed ranges of packet numbers an ACK frame acknowledges, highest first; subtractions underflow with a panic.\<close>

fun ack_scan_ranges :: "nat \<Rightarrow> (varint \<times> varint) list \<Rightarrow> (nat \<times> nat) list run" where
  "ack_scan_ranges largest [] = Ret []"
| "ack_scan_ranges largest ((gap, rng) # rs) =
     bind_run (sub64 largest (into_inner gap)) (\<lambda>t. bind_run (sub64 t 2) (\<lambda>right.
     bind_run (sub64 right (into_inner rng)) (\<lambda>left.
     bind_run (ack_scan_ranges left rs) (\<lambda>tail. Ret ((left, right) # tail)))))"

definition ack_iter :: "ack_frame \<Rightarrow> (nat \<times> nat) list run" where
  "ack_iter f =
     (let right = into_inner (ack_largest f)
      in bind_run (sub64 right (into_inner (ack_first_range f))) (\<lambda>left.
         bind_run (ack_scan_ranges left (ack_ranges f)) (\<lambda>tail. Ret ((left, right) # tail))))"

subsection \<open>CONNECTION\_CLOSE\<close>

datatype close_frame =
    AppClose varint "byte list"
  | QuicClose error_kind error_frame_type "byte list"

definition be_app_close_frame ::
    "nom \<Rightarrow> (byte list \<Rightarrow> byte list) \<Rightarrow> byte list \<Rightarrow> (nom_error_kind, close_frame) presult" where
  "be_app_close_frame N lossy input =
     pbind (be_varint N input) (\<lambda>remain error_code. pbind (be_varint N remain) (\<lambda>remain reason_length.
     pbind (take_complete N (into_inner reason_length) remain) (\<lambda>remain reason.
       PDone remain (AppClose error_code (lossy reason)))))"

text \<open>Every failure of \<open>be_frame_type\<close> becomes the error \<open>Alt\<close>; a panic stays one.\<close>

definition be_quic_close_frame ::
    "nom \<Rightarrow> (byte list \<Rightarrow> byte list) \<Rightarrow> byte list \<Rightarrow> (nom_error_kind, close_frame) presult" where
  "be_quic_close_frame N lossy input =
     pbind (be_varint N input) (\<lambda>remain error_code.
       case error_kind_try_from error_code of
         Inl _ \<Rightarrow> PError Alt
       | Inr kind \<Rightarrow>
           pbind (case be_frame_type N remain of PDone r ft \<Rightarrow> PDone r ft | PPanic \<Rightarrow> PPanic | _ \<Rightarrow> PError Alt)
             (\<lambda>remain ft. pbind (be_varint N remain) (\<lambda>remain reason_length.
                pbind (take_complete N (into_inner reason_length) remain) (\<lambda>remain reason.
                  PDone remain (QuicClose kind (ErrV1 ft) (lossy reason))))))"

definition connection_close_frame_at_layer ::
    "nom \<Rightarrow> (byte list \<Rightarrow> byte list) \<Rightarrow> byte \<Rightarrow> byte list \<Rightarrow> (nom_error_kind, close_frame) presult" where
  "connection_close_frame_at_layer N lossy layer input =
     (if layer = 1 then be_app_close_frame N lossy input
      else if layer = 0 then be_quic_close_frame N lossy input
      else PError Alt)"

definition put_reason :: "bufmut \<Rightarrow> (byte list \<Rightarrow> nat) \<Rightarrow> byte list \<Rightarrow> byte list \<Rightarrow> byte list run" where
  "put_reason B remaining_mut reason buf =
     (let len = min (length reason) (remaining_mut buf)
      in bind_run (put_varint B (from_u32 (len mod 2 ^ 32)) buf) (\<lambda>buf. Ret (put_slice B (take len reason) buf)))"

fun put_close_frame :: "bufmut \<Rightarrow> (byte list \<Rightarrow> nat) \<Rightarrow> close_frame \<Rightarrow> byte list \<Rightarrow> byte list run" where
  "put_close_frame B rem (AppClose code reason) buf =
     bind_run (put_varint B code (put_u8 B (0x1c OR 1) buf)) (put_reason B rem reason)"
| "put_close_frame B rem (QuicClose kind fty reason) buf =
     bind_run (put_varint B (varint_of_error_kind kind) (put_u8 B (0x1c OR 0) buf)) (\<lambda>buf.
     bind_run (put_varint B (varint_of_error_frame_type fty) buf) (put_reason B rem reason))"

subsection \<open>Frames with data: CRYPTO, STREAM, DATAGRAM\<close>

datatype crypto_frame = CryptoFrame (cf_offset: varint) (cf_length: varint)

definition be_crypto_frame :: "nom \<Rightarrow> byte list \<Rightarrow> (nom_error_kind, crypto_frame) presult" where
  "be_crypto_frame N input =
     pbind (be_varint N input) (\<lambda>i offset. pbind (be_varint N i) (\<lambda>remain len.
       if VARINT_MAX < into_inner offset + into_inner offset then PError TooLarge
       else PDone remain (CryptoFrame offset len)))"

definition put_crypto_frame :: "bufmut \<Rightarrow> crypto_frame \<Rightarrow> byte list \<Rightarrow> byte list \<Rightarrow> byte list run" where
  "put_crypto_frame B f data buf =
     assert_run (into_inner (cf_length f) = length data)
       (bind_run (put_varint B (cf_offset f) (put_u8 B 0x06 buf)) (\<lambda>buf.
        bind_run (put_varint B (cf_length f) buf) (\<lambda>buf. Ret (put_slice B data buf))))"

definition crypto_estimate_max_capacity :: "nat \<Rightarrow> nat \<Rightarrow> nat option run" where
  "crypto_estimate_max_capacity capacity offset =
     assert_run (offset \<le> VARINT_MAX)
       (bind_run (unwrap_result (from_u64 offset)) (\<lambda>v. bind_run (encoding_size v) (\<lambda>n.
          if capacity < 1 + n + 2 then Ret None
          else let remaining = capacity - (1 + n + 2)
               in if remaining \<le> 62 then Ret (Some (remaining + 1))
                  else if remaining \<le> 0x3FFF then Ret (Some remaining)
                  else if remaining \<le> 0x4001 then Ret (Some 0x3FFF)
                  else if remaining \<le> 0x40000001 then Ret (Some (remaining - 2))
                  else Panic)))"

record stream_frame =
  sf_id :: stream_id
  sf_offset :: varint
  sf_length :: nat
  sf_flag :: byte

definition OFF_BIT :: byte where "OFF_BIT = 0x04"
definition LEN_BIT :: byte where "LEN_BIT = 0x02"
definition FIN_BIT :: byte where "FIN_BIT = 0x01"

definition STREAM_FRAME_MAX_ENCODING_SIZE :: nat where
  "STREAM_FRAME_MAX_ENCODING_SIZE = 1 + 8 + 8 + 8"

definition stream_frame_new :: "stream_id \<Rightarrow> nat \<Rightarrow> nat \<Rightarrow> stream_frame run" where
  "stream_frame_new sid offset len =
     assert_run (offset \<le> VARINT_MAX)
       (bind_run (unwrap_result (from_u64 offset)) (\<lambda>v.
          Ret \<lparr>sf_id = sid, sf_offset = v, sf_length = len, sf_flag = (if offset \<noteq> 0 then OFF_BIT else 0)\<rparr>))"

definition sf_is_fin :: "stream_frame \<Rightarrow> bool" where
  "sf_is_fin f \<longleftrightarrow> sf_flag f AND FIN_BIT \<noteq> 0"

definition sf_range :: "stream_frame \<Rightarrow> (nat \<times> nat) run" where
  "sf_range f =
     bind_run (add64 (into_inner (sf_offset f)) (sf_length f)) (\<lambda>e. Ret (into_inner (sf_offset f), e))"

definition set_eos_flag :: "bool \<Rightarrow> stream_frame \<Rightarrow> stream_frame" where
  "set_eos_flag is_eos f =
     f\<lparr>sf_flag := (if is_eos then sf_flag f OR FIN_BIT else sf_flag f AND NOT FIN_BIT)\<rparr>"

definition set_len_flag :: "bool \<Rightarrow> stream_frame \<Rightarrow> stream_frame" where
  "set_len_flag with_len f =
     f\<lparr>sf_flag := (if with_len then sf_flag f OR LEN_BIT else sf_flag f AND NOT LEN_BIT)\<rparr>"

definition sf_encoding_size :: "stream_frame \<Rightarrow> nat run" where
  "sf_encoding_size f =
     bind_run (sid_encoding_size (sf_id f)) (\<lambda>a.
     bind_run (if into_inner (sf_offset f) \<noteq> 0 then encoding_size (sf_offset f) else Ret 0) (\<lambda>b.
     bind_run (if sf_flag f AND LEN_BIT \<noteq> 0
               then bind_run (unwrap_result (from_u64 (sf_length f))) encoding_size else Ret 0) (\<lambda>c.
       Ret (1 + a + b + c))))"

datatype encoding_strategy = EncodingStrategy (carry_length: bool) (strategy_padding: nat)

definition sf_encoding_strategy :: "stream_frame \<Rightarrow> nat \<Rightarrow> encoding_strategy run" where
  "sf_encoding_strategy f capacity =
     assert_run (sf_flag f AND LEN_BIT = 0)
       (bind_run (sf_encoding_size f) (\<lambda>es.
          let encoding_size_without_length = es + sf_length f
          in assert_run (encoding_size_without_length \<le> capacity)
               (bind_run (bind_run (unwrap_result (from_u64 (sf_length f))) encoding_size) (\<lambda>len_encoding_size.
                  let remaining = capacity - encoding_size_without_length
                  in if len_encoding_size \<le> remaining
                     then let remaining = remaining - len_encoding_size
                          in if remaining < STREAM_FRAME_MAX_ENCODING_SIZE
                             then Ret (EncodingStrategy True remaining)
                             else Ret (EncodingStrategy True 0)
                     else Ret (EncodingStrategy False remaining)))))"

definition sf_estimate_max_capacity :: "nat \<Rightarrow> stream_id \<Rightarrow> nat \<Rightarrow> nat option run" where
  "sf_estimate_max_capacity capacity sid offset =
     assert_run (offset \<le> VARINT_MAX)
       (bind_run (sid_encoding_size sid) (\<lambda>a.
        bind_run (if offset \<noteq> 0 then bind_run (unwrap_result (from_u64 offset)) encoding_size else Ret 0) (\<lambda>b.
          let least = 1 + a + b
          in Ret (if capacity \<le> least then None else Some (capacity - least)))))"

definition stream_frame_with_flag :: "nom \<Rightarrow> byte \<Rightarrow> byte list \<Rightarrow> (nom_error_kind, stream_frame) presult" where
  "stream_frame_with_flag N flag input =
     pbind (be_streamid N input) (\<lambda>remain sid.
     pbind (if flag AND OFF_BIT \<noteq> 0 then be_varint N remain else PDone remain (VarInt 0)) (\<lambda>remain offset.
     pbind (if flag AND LEN_BIT \<noteq> 0 then pmap into_inner (be_varint N remain) else PDone remain (length remain))
       (\<lambda>remain len.
          if VARINT_MAX < into_inner offset + len then PError TooLarge
          else PDone remain \<lparr>sf_id = sid, sf_offset = offset, sf_length = len, sf_flag = flag\<rparr>)))"

definition put_stream_frame :: "bufmut \<Rightarrow> stream_frame \<Rightarrow> byte list \<Rightarrow> byte list \<Rightarrow> byte list run" where
  "put_stream_frame B f data buf =
     (let stream_type = (if into_inner (sf_offset f) \<noteq> 0 then 0x08 OR 0x04 else 0x08 :: byte)
      in bind_run (put_streamid B (sf_id f) (put_u8 B (unat (stream_type OR sf_flag f)) buf)) (\<lambda>buf.
         bind_run (if into_inner (sf_offset f) \<noteq> 0 then put_varint B (sf_offset f) buf else Ret buf) (\<lambda>buf.
         bind_run (if sf_flag f AND LEN_BIT \<noteq> 0 then put_varint B (from_u32 (sf_length f mod 2 ^ 32)) buf else Ret buf)
           (\<lambda>buf. Ret (put_slice B data buf)))))"

datatype datagram_frame = DatagramFrame (dg_encode_len: bool) (dg_len: varint)

definition datagram_frame_with_flag :: "nom \<Rightarrow> byte \<Rightarrow> byte list \<Rightarrow> (nom_error_kind, datagram_frame) presult" where
  "datagram_frame_with_flag N flag input =
     pbind (if flag = 1 then be_varint N input
            else prun input (unwrap_result (from_u64 (length input))))
       (\<lambda>remain len. PDone remain (DatagramFrame (flag = 1) len))"

definition put_datagram_frame :: "bufmut \<Rightarrow> datagram_frame \<Rightarrow> byte list \<Rightarrow> byte list \<Rightarrow> byte list run" where
  "put_datagram_frame B f data buf =
     bind_run (put_varint B (varint_of_frame_type (Datagram (if dg_encode_len f then 1 else 0))) buf) (\<lambda>buf.
     bind_run (if dg_encode_len f then put_varint B (dg_len f) buf else Ret buf) (\<lambda>buf.
       Ret (put_slice B data buf)))"

end
