(* ===== verification/Frame_Io.thy ===== *)
theory Frame_Io
  imports Frames
begin

section \<open>Reading and writing frames: qbase/src/frame/io.rs and frame.rs\<close>

text \<open>
  The sum of all frames, the reader that dispatches on the frame type, the iterator over the payload
  of a packet and the dispatch of the writers. Theory \<open>Frame_Roundtrip\<close> shows that what the writers
  write is what the reader reads, theory \<open>Frame_Safety\<close> that the reader is total.
\<close>

datatype stream_ctl_frame =
    CtlResetStream reset_stream_frame
  | CtlStopSending stop_sending_frame
  | CtlMaxStreamData max_stream_data_frame
  | CtlMaxStreams max_streams_frame
  | CtlStreamDataBlocked stream_data_blocked_frame
  | CtlStreamsBlocked streams_blocked_frame

datatype reliable_frame =
    RelNewToken new_token_frame
  | RelMaxData max_data_frame
  | RelDataBlocked data_blocked_frame
  | RelNewConnectionId new_connection_id_frame
  | RelRetireConnectionId retire_connection_id_frame
  | RelHandshakeDone
  | RelStream stream_ctl_frame

datatype frame =
    FrPadding
  | FrPing
  | FrAck ack_frame
  | FrClose close_frame
  | FrNewToken new_token_frame
  | FrMaxData max_data_frame
  | FrDataBlocked data_blocked_frame
  | FrNewConnectionId new_connection_id_frame
  | FrRetireConnectionId retire_connection_id_frame
  | FrHandshakeDone
  | FrChallenge path_challenge_frame
  | FrResponse path_response_frame
  | FrStreamCtl stream_ctl_frame
  | FrStream stream_frame "byte list"
  | FrCrypto crypto_frame "byte list"
  | FrDatagram datagram_frame "byte list"

fun frame_of_reliable :: "reliable_frame \<Rightarrow> frame" where
  "frame_of_reliable (RelNewToken f) = FrNewToken f"
| "frame_of_reliable (RelMaxData f) = FrMaxData f"
| "frame_of_reliable (RelDataBlocked f) = FrDataBlocked f"
| "frame_of_reliable (RelNewConnectionId f) = FrNewConnectionId f"
| "frame_of_reliable (RelRetireConnectionId f) = FrRetireConnectionId f"
| "frame_of_reliable RelHandshakeDone = FrHandshakeDone"
| "frame_of_reliable (RelStream f) = FrStreamCtl f"

text \<open>\<open>GetFrameType::frame_type\<close> of each frame; DATA\_BLOCKED frames report CRYPTO.\<close>

fun ctl_frame_type :: "stream_ctl_frame \<Rightarrow> frame_type" where
  "ctl_frame_type (CtlResetStream _) = ResetStream"
| "ctl_frame_type (CtlStopSending _) = StopSending"
| "ctl_frame_type (CtlMaxStreamData _) = MaxStreamData"
| "ctl_frame_type (CtlMaxStreams (MaxStreamsBi _)) = MaxStreams 0"
| "ctl_frame_type (CtlMaxStreams (MaxStreamsUni _)) = MaxStreams 1"
| "ctl_frame_type (CtlStreamDataBlocked _) = StreamDataBlocked"
| "ctl_frame_type (CtlStreamsBlocked (StreamsBlockedBi _)) = StreamsBlocked 0"
| "ctl_frame_type (CtlStreamsBlocked (StreamsBlockedUni _)) = StreamsBlocked 1"

fun get_frame_type :: "frame \<Rightarrow> frame_type" where
  "get_frame_type FrPadding = Padding"
| "get_frame_type FrPing = Ping"
| "get_frame_type (FrAck f) = Ack (if ack_ecn f \<noteq> None then 1 else 0)"
| "get_frame_type (FrClose (AppClose _ _)) = ConnectionClose 1"
| "get_frame_type (FrClose (QuicClose _ _ _)) = ConnectionClose 0"
| "get_frame_type (FrNewToken _) = NewToken"
| "get_frame_type (FrMaxData _) = MaxData"
| "get_frame_type (FrDataBlocked _) = Crypto"
| "get_frame_type (FrNewConnectionId _) = NewConnectionId"
| "get_frame_type (FrRetireConnectionId _) = RetireConnectionId"
| "get_frame_type FrHandshakeDone = HandshakeDone"
| "get_frame_type (FrChallenge _) = PathChallenge"
| "get_frame_type (FrResponse _) = PathResponse"
| "get_frame_type (FrStreamCtl f) = ctl_frame_type f"
| "get_frame_type (FrStream f _) = Stream (sf_flag f)"
| "get_frame_type (FrCrypto _ _) = Crypto"
| "get_frame_type (FrDatagram f _) = Datagram (if dg_encode_len f then 1 else 0)"

subsection \<open>The reader\<close>

definition with_data ::
    "byte list \<Rightarrow> byte list \<Rightarrow> nat \<Rightarrow> (byte list \<Rightarrow> frame) \<Rightarrow> (nom_error_kind, frame) presult" where
  "with_data raw input len mk =
     (if length input < len then PIncomplete (Some (len - length input))
      else case sub64 (length raw) (length input) of
             Panic \<Rightarrow> PPanic
           | Ret start \<Rightarrow>
               pbind (prun (drop len input) (slice_range raw start (start + len))) (\<lambda>remain data. PDone remain (mk data)))"

fun complete_frame ::
    "nom \<Rightarrow> (byte list \<Rightarrow> byte list) \<Rightarrow> frame_type \<Rightarrow> byte list \<Rightarrow> byte list \<Rightarrow> (nom_error_kind, frame) presult" where
  "complete_frame N lossy Padding raw input = PDone input FrPadding"
| "complete_frame N lossy Ping raw input = PDone input FrPing"
| "complete_frame N lossy (ConnectionClose layer) raw input =
     pmap FrClose (connection_close_frame_at_layer N lossy layer input)"
| "complete_frame N lossy NewConnectionId raw input = pmap FrNewConnectionId (be_new_connection_id_frame N input)"
| "complete_frame N lossy RetireConnectionId raw input =
     pmap FrRetireConnectionId (be_retire_connection_id_frame N input)"
| "complete_frame N lossy DataBlocked raw input = pmap FrDataBlocked (be_data_blocked_frame N input)"
| "complete_frame N lossy MaxData raw input = pmap FrMaxData (be_max_data_frame N input)"
| "complete_frame N lossy PathChallenge raw input = pmap FrChallenge (be_path_challenge_frame N input)"
| "complete_frame N lossy PathResponse raw input = pmap FrResponse (be_path_response_frame N input)"
| "complete_frame N lossy HandshakeDone raw input = PDone input FrHandshakeDone"
| "complete_frame N lossy NewToken raw input = pmap FrNewToken (be_new_token_frame N input)"
| "complete_frame N lossy (Ack ecn) raw input = pmap FrAck (ack_frame_with_flag N ecn input)"
| "complete_frame N lossy ResetStream raw input =
     pmap (\<lambda>f. FrStreamCtl (CtlResetStream f)) (be_reset_stream_frame N input)"
| "complete_frame N lossy StopSending raw input =
     pmap (\<lambda>f. FrStreamCtl (CtlStopSending f)) (be_stop_sending_frame N input)"
| "complete_frame N lossy MaxStreamData raw input =
     pmap (\<lambda>f. FrStreamCtl (CtlMaxStreamData f)) (be_max_stream_data_frame N input)"
| "complete_frame N lossy (MaxStreams dir) raw input =
     pmap (\<lambda>f. FrStreamCtl (CtlMaxStreams f)) (max_streams_frame_with_dir N dir input)"
| "complete_frame N lossy (StreamsBlocked dir) raw input =
     pmap (\<lambda>f. FrStreamCtl (CtlStreamsBlocked f)) (streams_blocked_frame_with_dir N dir input)"
| "complete_frame N lossy StreamDataBlocked raw input =
     pmap (\<lambda>f. FrStreamCtl (CtlStreamDataBlocked f)) (be_stream_data_blocked_frame N input)"
| "complete_frame N lossy Crypto raw input =
     pbind (be_crypto_frame N input) (\<lambda>input f. with_data raw input (into_inner (cf_length f)) (FrCrypto f))"
| "complete_frame N lossy (Stream flag) raw input =
     pbind (stream_frame_with_flag N flag input) (\<lambda>input f. with_data raw input (sf_length f) (FrStream f))"
| "complete_frame N lossy (Datagram with_len) raw input =
     pbind (datagram_frame_with_flag N with_len input) (\<lambda>input f.
       if dg_encode_len f then with_data raw input (into_inner (dg_len f)) (FrDatagram f)
       else case sub64 (length raw) (length input) of
              Panic \<Rightarrow> PPanic
            | Ret start \<Rightarrow> pbind (prun [] (slice_range raw start (length raw))) (\<lambda>r data. PDone r (FrDatagram f data)))"

text \<open>
  \<open>be_frame\<close>: \<open>?\<close> on a nom error converts it, and an \<open>Incomplete\<close> there is \<open>unreachable!\<close>.
\<close>

definition be_frame ::
    "nom \<Rightarrow> (byte list \<Rightarrow> byte list) \<Rightarrow> byte list \<Rightarrow> packet_type \<Rightarrow> (frame_error + nat \<times> frame \<times> frame_type) run" where
  "be_frame N lossy raw packet_type =
     (case be_frame_type N raw of
        PIncomplete _ \<Rightarrow> Panic
      | PError e \<Rightarrow> Ret (Inl e)
      | PFailure e \<Rightarrow> Ret (Inl e)
      | PPanic \<Rightarrow> Panic
      | PDone remain ft \<Rightarrow>
          if \<not> belongs_to ft packet_type then Ret (Inl (WrongType ft packet_type))
          else (case complete_frame N lossy ft raw remain of
                  PIncomplete _ \<Rightarrow> Ret (Inl (IncompleteFrame ft))
                | PError e \<Rightarrow> Ret (Inl (ParseError ft e))
                | PFailure _ \<Rightarrow> Panic
                | PPanic \<Rightarrow> Panic
                | PDone remain f \<Rightarrow>
                    bind_run (sub64 (length raw) (length remain)) (\<lambda>consumed. Ret (Inr (consumed, f, ft)))))"

text \<open>\<open>FrameReader::next\<close>; \<open>Bytes::advance\<close> panics past the end.\<close>

definition frame_reader_next ::
    "nom \<Rightarrow> (byte list \<Rightarrow> byte list) \<Rightarrow> packet_type \<Rightarrow> byte list \<Rightarrow>
     ((frame_error + frame \<times> frame_type) option \<times> byte list) run" where
  "frame_reader_next N lossy packet_type payload =
     (if payload = [] then Ret (None, payload)
      else bind_run (be_frame N lossy payload packet_type) (\<lambda>r.
             case r of
               Inr (consumed, f, ft) \<Rightarrow>
                 assert_run (consumed \<le> length payload) (Ret (Some (Inr (f, ft)), drop consumed payload))
             | Inl e \<Rightarrow> Ret (Some (Inl e), payload)))"

subsection \<open>The writers\<close>

fun put_stream_ctl_frame :: "bufmut \<Rightarrow> stream_ctl_frame \<Rightarrow> byte list \<Rightarrow> byte list run" where
  "put_stream_ctl_frame B (CtlResetStream f) buf = put_reset_stream_frame B f buf"
| "put_stream_ctl_frame B (CtlStopSending f) buf = put_stop_sending_frame B f buf"
| "put_stream_ctl_frame B (CtlMaxStreamData f) buf = put_max_stream_data_frame B f buf"
| "put_stream_ctl_frame B (CtlMaxStreams f) buf = put_max_streams_frame B f buf"
| "put_stream_ctl_frame B (CtlStreamDataBlocked f) buf = put_stream_data_blocked_frame B f buf"
| "put_stream_ctl_frame B (CtlStreamsBlocked f) buf = put_streams_blocked_frame B f buf"

fun put_reliable_frame :: "bufmut \<Rightarrow> reliable_frame \<Rightarrow> byte list \<Rightarrow> byte list run" where
  "put_reliable_frame B (RelNewToken f) buf = put_new_token_frame B f buf"
| "put_reliable_frame B (RelMaxData f) buf = put_max_data_frame B f buf"
| "put_reliable_frame B (RelDataBlocked f) buf = put_data_blocked_frame B f buf"
| "put_reliable_frame B (RelNewConnectionId f) buf = put_new_connection_id_frame B f buf"
| "put_reliable_frame B (RelRetireConnectionId f) buf = put_retire_connection_id_frame B f buf"
| "put_reliable_frame B RelHandshakeDone buf = Ret (put_u8 B 0x1e buf)"
| "put_reliable_frame B (RelStream f) buf = put_stream_ctl_frame B f buf"

text \<open>The writer each kind of frame has: \<open>WriteFrame\<close>, or \<open>WriteDataFrame\<close> for the last three.\<close>

fun put_frame :: "bufmut \<Rightarrow> (byte list \<Rightarrow> nat) \<Rightarrow> frame \<Rightarrow> byte list \<Rightarrow> byte list run" where
  "put_frame B rem FrPadding buf = Ret (put_u8 B 0x00 buf)"
| "put_frame B rem FrPing buf = Ret (put_u8 B 0x01 buf)"
| "put_frame B rem (FrAck f) buf = put_ack_frame B f buf"
| "put_frame B rem (FrClose f) buf = put_close_frame B rem f buf"
| "put_frame B rem (FrNewToken f) buf = put_reliable_frame B (RelNewToken f) buf"
| "put_frame B rem (FrMaxData f) buf = put_reliable_frame B (RelMaxData f) buf"
| "put_frame B rem (FrDataBlocked f) buf = put_reliable_frame B (RelDataBlocked f) buf"
| "put_frame B rem (FrNewConnectionId f) buf = put_reliable_frame B (RelNewConnectionId f) buf"
| "put_frame B rem (FrRetireConnectionId f) buf = put_reliable_frame B (RelRetireConnectionId f) buf"
| "put_frame B rem FrHandshakeDone buf = put_reliable_frame B RelHandshakeDone buf"
| "put_frame B rem (FrChallenge f) buf = put_path_challenge_frame B f buf"
| "put_frame B rem (FrResponse f) buf = put_path_response_frame B f buf"
| "put_frame B rem (FrStreamCtl f) buf = put_reliable_frame B (RelStream f) buf"
| "put_frame B rem (FrStream f data) buf = put_stream_frame B f data buf"
| "put_frame B rem (FrCrypto f data) buf = put_crypto_frame B f data buf"
| "put_frame B rem (FrDatagram f data) buf = put_datagram_frame B f data buf"

end
