(* ===== verification/Frame_Roundtrip.thy ===== *)
theory Frame_Roundtrip
  imports Frame_Io
begin

section \<open>Every frame that is written is read back\<close>

text \<open>
  \<open>frame_bytes\<close> is the wire image of a frame, written down independently of the codecs: the frame
  type followed by the fields in order. The writers append exactly this image and the readers invert it;
  together they give the round trip of single frames and of whole payloads.
\<close>

unbundle bit_operations_syntax

subsection \<open>The wire image\<close>

definition venc :: "varint \<Rightarrow> byte list" where
  "venc v = varint_form (varint_class (into_inner v)) (into_inner v)"

definition senc :: "stream_id \<Rightarrow> byte list" where
  "senc s = venc (VarInt (sid_value s))"

fun close_reason :: "close_frame \<Rightarrow> byte list" where
  "close_reason (AppClose _ reason) = reason"
| "close_reason (QuicClose _ _ reason) = reason"

fun close_head :: "close_frame \<Rightarrow> byte list" where
  "close_head (AppClose code _) = venc code"
| "close_head (QuicClose kind fty _) = venc (varint_of_error_kind kind) @ venc (varint_of_error_frame_type fty)"

definition ecn_bytes :: "ecn_counts option \<Rightarrow> byte list" where
  "ecn_bytes e = (case e of None \<Rightarrow> [] | Some e \<Rightarrow> venc (ect0 e) @ venc (ect1 e) @ venc (ecn_ce e))"

definition ack_range_bytes :: "(varint \<times> varint) list \<Rightarrow> byte list" where
  "ack_range_bytes rs = concat (map (\<lambda>(gap, ack). venc gap @ venc ack) rs)"

fun ctl_body :: "stream_ctl_frame \<Rightarrow> byte list" where
  "ctl_body (CtlResetStream f) = senc (rs_stream_id f) @ venc (rs_app_error_code f) @ venc (rs_final_size f)"
| "ctl_body (CtlStopSending f) = senc (ss_stream_id f) @ venc (ss_app_err_code f)"
| "ctl_body (CtlMaxStreamData f) = senc (msd_stream_id f) @ venc (msd_max f)"
| "ctl_body (CtlMaxStreams (MaxStreamsBi v)) = venc v"
| "ctl_body (CtlMaxStreams (MaxStreamsUni v)) = venc v"
| "ctl_body (CtlStreamDataBlocked f) = senc (sdb_stream_id f) @ venc (sdb_max f)"
| "ctl_body (CtlStreamsBlocked (StreamsBlockedBi v)) = venc v"
| "ctl_body (CtlStreamsBlocked (StreamsBlockedUni v)) = venc v"

definition stream_head :: "stream_frame \<Rightarrow> byte list" where
  "stream_head f = senc (sf_id f) @
     (if into_inner (sf_offset f) \<noteq> 0 then venc (sf_offset f) else []) @
     (if sf_flag f AND LEN_BIT \<noteq> 0 then venc (VarInt (sf_length f)) else [])"

fun frame_body :: "frame \<Rightarrow> byte list" where
  "frame_body FrPadding = []"
| "frame_body FrPing = []"
| "frame_body (FrAck f) = venc (ack_largest f) @ venc (ack_delay f) @ venc (VarInt (length (ack_ranges f))) @
     venc (ack_first_range f) @ ack_range_bytes (ack_ranges f) @ ecn_bytes (ack_ecn f)"
| "frame_body (FrClose f) = close_head f @ venc (VarInt (length (close_reason f))) @ close_reason f"
| "frame_body (FrNewToken f) = venc (VarInt (length (nt_token f))) @ nt_token f"
| "frame_body (FrMaxData f) = venc (md_max_data f)"
| "frame_body (FrDataBlocked f) = venc (db_limit f)"
| "frame_body (FrNewConnectionId f) = venc (nc_sequence f) @ venc (nc_retire_prior_to f) @
     be_bytes 1 (length (cid_bytes (nc_id f))) @ cid_bytes (nc_id f) @ nc_reset_token f"
| "frame_body (FrRetireConnectionId f) = venc (rc_sequence f)"
| "frame_body FrHandshakeDone = []"
| "frame_body (FrChallenge f) = pc_data f"
| "frame_body (FrResponse f) = pr_data f"
| "frame_body (FrStreamCtl f) = ctl_body f"
| "frame_body (FrStream f data) = stream_head f @ data"
| "frame_body (FrCrypto f data) = venc (cf_offset f) @ venc (cf_length f) @ data"
| "frame_body (FrDatagram f data) = (if dg_encode_len f then venc (dg_len f) else []) @ data"

text \<open>The type a frame has on the wire; for all but DATA\_BLOCKED it is what \<open>frame_type\<close> reports.\<close>

definition wire_type :: "frame \<Rightarrow> frame_type" where
  "wire_type f = (case f of FrDataBlocked _ \<Rightarrow> DataBlocked | _ \<Rightarrow> get_frame_type f)"

definition frame_bytes :: "frame \<Rightarrow> byte list" where
  "frame_bytes f = be_bytes 1 (into_inner (varint_of_frame_type (wire_type f))) @ frame_body f"

subsection \<open>The frames the endpoint builds\<close>

fun close_ok :: "close_frame \<Rightarrow> bool" where
  "close_ok (AppClose code reason) \<longleftrightarrow> varint_ok code \<and> length reason < 2 ^ 32"
| "close_ok (QuicClose kind (ErrV1 ft) reason) \<longleftrightarrow> frame_type_ok ft \<and> length reason < 2 ^ 32"
| "close_ok (QuicClose kind (ErrExt _) reason) \<longleftrightarrow> False"

fun ctl_ok :: "stream_ctl_frame \<Rightarrow> bool" where
  "ctl_ok (CtlResetStream f) \<longleftrightarrow> sid_ok (rs_stream_id f) \<and> varint_ok (rs_app_error_code f) \<and> varint_ok (rs_final_size f)"
| "ctl_ok (CtlStopSending f) \<longleftrightarrow> sid_ok (ss_stream_id f) \<and> varint_ok (ss_app_err_code f)"
| "ctl_ok (CtlMaxStreamData f) \<longleftrightarrow> sid_ok (msd_stream_id f) \<and> varint_ok (msd_max f)"
| "ctl_ok (CtlMaxStreams (MaxStreamsBi v)) \<longleftrightarrow> into_inner v \<le> MAX_STREAMS_LIMIT"
| "ctl_ok (CtlMaxStreams (MaxStreamsUni v)) \<longleftrightarrow> into_inner v \<le> MAX_STREAMS_LIMIT"
| "ctl_ok (CtlStreamDataBlocked f) \<longleftrightarrow> sid_ok (sdb_stream_id f) \<and> varint_ok (sdb_max f)"
| "ctl_ok (CtlStreamsBlocked (StreamsBlockedBi v)) \<longleftrightarrow> varint_ok v"
| "ctl_ok (CtlStreamsBlocked (StreamsBlockedUni v)) \<longleftrightarrow> varint_ok v"

definition ecn_ok :: "ecn_counts option \<Rightarrow> bool" where
  "ecn_ok e \<longleftrightarrow> (case e of None \<Rightarrow> True | Some e \<Rightarrow> varint_ok (ect0 e) \<and> varint_ok (ect1 e) \<and> varint_ok (ecn_ce e))"

definition stream_ok :: "stream_frame \<Rightarrow> byte list \<Rightarrow> bool" where
  "stream_ok f data \<longleftrightarrow> sid_ok (sf_id f) \<and> unat (sf_flag f) < 8 \<and> length data = sf_length f \<and>
     (sf_flag f AND OFF_BIT \<noteq> 0 \<longleftrightarrow> into_inner (sf_offset f) \<noteq> 0) \<and>
     into_inner (sf_offset f) + sf_length f \<le> VARINT_MAX \<and>
     (sf_flag f AND LEN_BIT \<noteq> 0 \<longrightarrow> sf_length f < 2 ^ 32)"

text \<open>
  \<open>frame_ok\<close>: integers are 62-bit, identifiers and tokens have their sizes, and the fields agree with
  the data. The offset of a CRYPTO frame is below $2^{61}$, since the reader checks twice the offset.
\<close>

fun frame_ok :: "frame \<Rightarrow> bool" where
  "frame_ok (FrAck f) \<longleftrightarrow> varint_ok (ack_largest f) \<and> varint_ok (ack_delay f) \<and> varint_ok (ack_first_range f) \<and>
     length (ack_ranges f) < 2 ^ 62 \<and> list_all (\<lambda>(gap, ack). varint_ok gap \<and> varint_ok ack) (ack_ranges f) \<and>
     ecn_ok (ack_ecn f)"
| "frame_ok (FrClose f) \<longleftrightarrow> close_ok f"
| "frame_ok (FrNewToken f) \<longleftrightarrow> length (nt_token f) < 2 ^ 32"
| "frame_ok (FrMaxData f) \<longleftrightarrow> varint_ok (md_max_data f)"
| "frame_ok (FrDataBlocked f) \<longleftrightarrow> varint_ok (db_limit f)"
| "frame_ok (FrNewConnectionId f) \<longleftrightarrow> varint_ok (nc_sequence f) \<and>
     into_inner (nc_retire_prior_to f) \<le> into_inner (nc_sequence f) \<and> cid_ok (nc_id f) \<and> cid_bytes (nc_id f) \<noteq> [] \<and>
     length (nc_reset_token f) = RESET_TOKEN_SIZE"
| "frame_ok (FrRetireConnectionId f) \<longleftrightarrow> varint_ok (rc_sequence f)"
| "frame_ok (FrChallenge f) \<longleftrightarrow> length (pc_data f) = 8"
| "frame_ok (FrResponse f) \<longleftrightarrow> length (pr_data f) = 8"
| "frame_ok (FrStreamCtl f) \<longleftrightarrow> ctl_ok f"
| "frame_ok (FrStream f data) \<longleftrightarrow> stream_ok f data"
| "frame_ok (FrCrypto f data) \<longleftrightarrow> 2 * into_inner (cf_offset f) \<le> VARINT_MAX \<and> varint_ok (cf_length f) \<and>
     into_inner (cf_length f) = length data"
| "frame_ok (FrDatagram f data) \<longleftrightarrow> varint_ok (dg_len f) \<and> into_inner (dg_len f) = length data"
| "frame_ok _ \<longleftrightarrow> True"

text \<open>A STREAM frame without a length and a DATAGRAM frame without one run to the end of the payload.\<close>

definition self_delimiting :: "frame \<Rightarrow> bool" where
  "self_delimiting f \<longleftrightarrow>
     (case f of FrStream sf _ \<Rightarrow> sf_flag sf AND LEN_BIT \<noteq> 0 | FrDatagram d _ \<Rightarrow> dg_encode_len d | _ \<Rightarrow> True)"

text \<open>The reason phrase of a CONNECTION\_CLOSE is cut to the room left; here it fits and is UTF-8.\<close>

definition reason_kept :: "(byte list \<Rightarrow> nat) \<Rightarrow> (byte list \<Rightarrow> byte list) \<Rightarrow> byte list \<Rightarrow> frame \<Rightarrow> bool" where
  "reason_kept rem lossy buf f \<longleftrightarrow>
     (case f of
        FrClose c \<Rightarrow>
          length (close_reason c) \<le> rem (buf @ be_bytes 1 (into_inner (varint_of_frame_type (wire_type f))) @ close_head c) \<and>
          lossy (close_reason c) = close_reason c
      | _ \<Rightarrow> True)"

subsection \<open>Fields\<close>

lemma put_varint_venc:
  "bufmut_ok B \<Longrightarrow> varint_ok v \<Longrightarrow> put_varint B v buf = Ret (buf @ venc v)"
  by (simp add: put_varint_form venc_def varint_ok_def)

lemma be_varint_venc:
  assumes "nom_ok N" "varint_ok v"
  shows "be_varint N (venc v @ rest) = PDone rest v" "be_varint N (venc v) = PDone [] v"
proof -
  have b: "into_inner v < 2 ^ 62" using assms(2) by (simp add: varint_ok_def)
  show "be_varint N (venc v @ rest) = PDone rest v"
    unfolding venc_def by (simp add: be_varint_form [OF assms(1) varint_class_bounds(1) varint_class_bounds(2) [OF b]])
  show "be_varint N (venc v) = PDone [] v"
    using be_varint_form [OF assms(1) varint_class_bounds(1) varint_class_bounds(2) [OF b], of "[]"]
    by (simp add: venc_def)
qed

lemma put_streamid_senc:
  "bufmut_ok B \<Longrightarrow> sid_ok s \<Longrightarrow> put_streamid B s buf = Ret (buf @ senc s)"
  by (simp add: put_streamid_def varint_of_sid_def from_u64_def sid_ok_def senc_def put_varint_venc varint_ok_def)

lemma be_streamid_senc:
  assumes "nom_ok N" "sid_ok s"
  shows "be_streamid N (senc s @ rest) = PDone rest s" "be_streamid N (senc s) = PDone [] s"
  using assms
  by (simp_all add: be_varint_venc be_streamid_def senc_def varint_ok_def sid_ok_def sid_of_varint_def)

lemma varint_ok_VarInt: "varint_ok (VarInt x) \<longleftrightarrow> x < 2 ^ 62"
  by (simp add: varint_ok_def)

lemma varint_ok_codes: "varint_ok (varint_of_error_kind k)" "frame_type_ok ft \<Longrightarrow> varint_ok (varint_of_frame_type ft)"
proof -
  have "unat b < 4611686018427387648" "unat b < 4611686018427387904" for b :: byte
    using unat_byte_bound [of b] by linarith+
  note bounds = this
  show "varint_ok (varint_of_error_kind k)"
    by (cases k) (simp_all add: varint_ok_def crypto_alert_code bounds)
  show "varint_ok (varint_of_frame_type ft)" if "frame_type_ok ft"
    by (cases ft) (simp_all add: varint_ok_def from_u32_def varint_of_u8_def bounds)
qed

lemmas codec_fields = put_varint_venc be_varint_venc put_streamid_senc be_streamid_senc bufmut_puts nom_take
  varint_ok_VarInt varint_ok_codes

subsection \<open>Writers\<close>

lemma put_ack_ranges_bytes:
  assumes "bufmut_ok B"
  shows "list_all (\<lambda>(gap, ack). varint_ok gap \<and> varint_ok ack) rs \<Longrightarrow>
    put_ack_ranges B rs buf = Ret (buf @ ack_range_bytes rs)"
  by (induction rs arbitrary: buf) (use assms in \<open>auto simp: codec_fields ack_range_bytes_def\<close>)

lemma put_ack_frame_bytes:
  assumes "bufmut_ok B" "frame_ok (FrAck f)"
  shows "put_ack_frame B f buf = Ret (buf @ frame_bytes (FrAck f))"
  using assms
  by (cases "ack_ecn f")
    (simp_all add: put_ack_frame_def codec_fields put_ack_ranges_bytes from_u64_def frame_bytes_def wire_type_def
      varint_of_u8_def ecn_bytes_def ecn_ok_def)

lemma put_close_frame_bytes:
  assumes "bufmut_ok B" "close_ok f" "reason_kept rem lossy buf (FrClose f)"
  shows "put_close_frame B rem f buf = Ret (buf @ frame_bytes (FrClose f))"
proof (cases f)
  case (AppClose code reason)
  then show ?thesis using assms
    by (simp add: put_reason_def codec_fields frame_bytes_def wire_type_def varint_of_u8_def reason_kept_def min_absorb1 from_u32_def)
next
  case (QuicClose kind fty reason)
  then obtain ft where "fty = ErrV1 ft" "frame_type_ok ft" using assms(2) by (cases fty) auto
  then show ?thesis using assms QuicClose
    by (simp add: put_reason_def codec_fields frame_bytes_def wire_type_def varint_of_u8_def reason_kept_def min_absorb1 from_u32_def)
qed

lemma put_ctl_frame_bytes:
  assumes "bufmut_ok B" "ctl_ok f"
  shows "put_stream_ctl_frame B f buf = Ret (buf @ frame_bytes (FrStreamCtl f))"
  using assms
  by (cases f rule: ctl_ok.cases)
    (simp_all add: frame_bytes_def wire_type_def codec_fields put_reset_stream_frame_def put_stop_sending_frame_def
      put_max_stream_data_frame_def put_stream_data_blocked_frame_def from_u32_def varint_of_u8_def
      varint_ok_def MAX_STREAMS_LIMIT_def)

lemma put_stream_frame_bytes:
  assumes "bufmut_ok B" "stream_ok f data"
  shows "put_stream_frame B f data buf = Ret (buf @ frame_bytes (FrStream f data))"
proof -
  have v: "varint_ok (sf_offset f)" "varint_ok (VarInt (sf_length f))"
    using assms(2) by (simp_all add: stream_ok_def varint_ok_def VARINT_MAX_def)
  have "(if into_inner (sf_offset f) \<noteq> 0 then 0x08 OR 0x04 else 0x08) OR sf_flag f = 0x08 OR sf_flag f"
  proof -
    have "unat (sf_flag f) < 8" "sf_flag f AND OFF_BIT \<noteq> 0 \<longleftrightarrow> into_inner (sf_offset f) \<noteq> 0"
      using assms(2) by (simp_all add: stream_ok_def)
    then show ?thesis by (auto dest!: unat_less_8 simp: OFF_BIT_def)
  qed
  then have "put_stream_frame B f data buf =
      bind_run (put_streamid B (sf_id f) (put_u8 B (unat (0x08 OR sf_flag f)) buf)) (\<lambda>buf.
         bind_run (if into_inner (sf_offset f) \<noteq> 0 then put_varint B (sf_offset f) buf else Ret buf) (\<lambda>buf.
         bind_run (if sf_flag f AND LEN_BIT \<noteq> 0 then put_varint B (from_u32 (sf_length f mod 2 ^ 32)) buf else Ret buf)
           (\<lambda>buf. Ret (put_slice B data buf))))"
    unfolding put_stream_frame_def Let_def by simp
  then show ?thesis
    using assms v
    by (simp add: codec_fields stream_ok_def frame_bytes_def wire_type_def varint_of_u8_def stream_head_def from_u32_def)
qed

lemma put_datagram_frame_bytes:
  assumes "bufmut_ok B" "frame_ok (FrDatagram f data)"
  shows "put_datagram_frame B f data buf = Ret (buf @ frame_bytes (FrDatagram f data))"
  using assms
  by (cases "dg_encode_len f")
    (simp_all add: put_datagram_frame_def codec_fields frame_bytes_def wire_type_def varint_of_u8_def venc_def
      varint_class_def varint_form_def)

lemma put_frame_bytes:
  assumes B: "bufmut_ok B" and "frame_ok f" "reason_kept rem lossy buf f"
  shows "put_frame B rem f buf = Ret (buf @ frame_bytes f)"
proof (cases f)
  case (FrNewConnectionId nc)
  then have "varint_ok (nc_retire_prior_to nc)" using assms(2) by (simp add: varint_ok_def)
  then show ?thesis using assms FrNewConnectionId
    by (simp add: put_new_connection_id_frame_def codec_fields frame_bytes_def wire_type_def from_u32_def put_connection_id_eq)
next
  case (FrCrypto cf data)
  then have "varint_ok (cf_offset cf)" using assms(2) by (simp add: varint_ok_def VARINT_MAX_def)
  then show ?thesis using assms FrCrypto
    by (simp add: put_crypto_frame_def codec_fields frame_bytes_def wire_type_def from_u32_def)
next
  case (FrDatagram d data)
  then show ?thesis using put_datagram_frame_bytes [OF B] assms(2) by simp
qed (use assms in \<open>simp_all add: put_ack_frame_bytes put_close_frame_bytes put_ctl_frame_bytes put_stream_frame_bytes
      codec_fields put_max_data_frame_def put_data_blocked_frame_def put_retire_connection_id_frame_def
      put_new_token_frame_def put_path_challenge_frame_def put_path_response_frame_def
      frame_bytes_def wire_type_def from_u32_def\<close>)

subsection \<open>Readers\<close>

lemma frame_code_small: "frame_type_ok ft \<Longrightarrow> into_inner (varint_of_frame_type ft) < 2 ^ 6"
proof (cases ft)
  case (Stream b)
  then show "frame_type_ok ft \<Longrightarrow> into_inner (varint_of_frame_type ft) < 2 ^ 6"
    by (auto dest!: unat_less_8 simp: varint_of_u8_def)
qed (auto dest!: unat_less_2 simp: varint_of_u8_def from_u32_def)

lemma be_frame_type_code:
  assumes "nom_ok N" "frame_type_ok ft"
  shows "be_frame_type N (be_bytes 1 (into_inner (varint_of_frame_type ft)) @ rest) = PDone rest ft"
proof -
  let ?x = "into_inner (varint_of_frame_type ft)"
  have small: "?x < 2 ^ 6" by (rule frame_code_small [OF assms(2)])
  then have "be_bytes 1 ?x = venc (VarInt ?x)" by (simp add: venc_def varint_class_def varint_form_def)
  moreover have "varint_ok (VarInt ?x)" using small by (simp add: varint_ok_def)
  moreover have "frame_type_try_from (VarInt ?x) = Inr ft" using frame_type_code_back [OF assms(2)] by simp
  ultimately show ?thesis using assms(1) by (simp add: be_frame_type_def be_varint_venc del: be_bytes.simps)
qed

lemma wire_type_ok: "frame_ok f \<Longrightarrow> frame_type_ok (wire_type f)"
proof (cases f)
  case (FrStreamCtl c)
  then show ?thesis by (cases c rule: ctl_ok.cases) (simp_all add: wire_type_def)
next
  case (FrClose c)
  then show ?thesis by (cases c) (simp_all add: wire_type_def)
qed (simp_all add: wire_type_def stream_ok_def)

lemma with_data_read_back:
  "with_data (pre @ data @ rest) (data @ rest) (length data) mk = PDone rest (mk data)"
  by (simp add: with_data_def sub64_def slice_range_def)

lemma ack_ranges_read_back:
  assumes "nom_ok N"
  shows "list_all (\<lambda>(gap, ack). varint_ok gap \<and> varint_ok ack) rs \<Longrightarrow>
    ack_ranges_loop N (length rs) (ack_range_bytes rs @ rest) acc = PDone rest (acc @ rs)"
  using assms by (induction rs arbitrary: acc) (auto simp: ack_range_bytes_def codec_fields)

lemma ack_frame_read_back:
  assumes "nom_ok N" "frame_ok (FrAck f)"
  shows "ack_frame_with_flag N (if ack_ecn f \<noteq> None then 1 else 0) (frame_body (FrAck f) @ rest) = PDone rest f"
  using assms
  by (cases f; cases "ack_ecn f")
    (simp_all add: ack_frame_with_flag_def codec_fields ack_ranges_read_back be_ecn_counts_def ecn_bytes_def ecn_ok_def)

lemma close_frame_read_back:
  assumes "nom_ok N" "close_ok f" "lossy (close_reason f) = close_reason f" "get_frame_type (FrClose f) = ConnectionClose layer"
  shows "connection_close_frame_at_layer N lossy layer (frame_body (FrClose f) @ rest) = PDone rest f"
proof (cases f)
  case (AppClose code reason)
  then show ?thesis using assms
    by (auto simp: connection_close_frame_at_layer_def be_app_close_frame_def codec_fields)
next
  case (QuicClose kind fty reason)
  then obtain ft where ft: "fty = ErrV1 ft" "frame_type_ok ft" using assms(2) by (cases fty) auto
  have "be_frame_type N (venc (varint_of_frame_type ft) @ r) = PDone r ft" for r
    using ft(2) assms(1) frame_type_code_back [OF ft(2)] by (simp add: be_frame_type_def codec_fields)
  then show ?thesis using assms QuicClose ft
    by (auto simp: connection_close_frame_at_layer_def be_quic_close_frame_def codec_fields error_kind_code_back)
qed

lemma stream_frame_read_back:
  assumes "nom_ok N" "stream_ok f data" "sf_flag f AND LEN_BIT \<noteq> 0 \<or> rest = []"
  shows "stream_frame_with_flag N (sf_flag f) (stream_head f @ data @ rest) = PDone (data @ rest) f"
proof -
  have v: "varint_ok (sf_offset f)" "varint_ok (VarInt (sf_length f))"
    using assms(2) by (simp_all add: stream_ok_def varint_ok_def VARINT_MAX_def)
  have z: "VarInt 0 = sf_offset f" if "into_inner (sf_offset f) = 0"
    using that by (cases "sf_offset f") simp
  show ?thesis
    using assms v z
    by (cases f; cases "into_inner (sf_offset f) = 0"; cases "sf_flag f AND LEN_BIT = 0")
      (simp_all add: stream_frame_with_flag_def stream_head_def codec_fields stream_ok_def)
qed

lemma ctl_frame_read_back:
  assumes "nom_ok N" "ctl_ok f"
  shows "complete_frame N lossy (ctl_frame_type f) raw (ctl_body f @ rest) = PDone rest (FrStreamCtl f)"
proof -
  have "varint_ok (VarInt v)" if "v \<le> MAX_STREAMS_LIMIT" for v
    using that by (simp add: varint_ok_def MAX_STREAMS_LIMIT_def)
  with assms show ?thesis
    by (cases f rule: ctl_ok.cases)
      (auto simp: codec_fields be_reset_stream_frame_def be_stop_sending_frame_def be_max_stream_data_frame_def
        be_stream_data_blocked_frame_def max_streams_frame_with_dir_def streams_blocked_frame_with_dir_def
        varint_ok_def MAX_STREAMS_LIMIT_def)
qed

lemma complete_frame_read_back:
  assumes N: "nom_ok N" and f: "frame_ok f" and "reason_kept rem lossy buf f" and "self_delimiting f \<or> rest = []"
  shows "complete_frame N lossy (wire_type f) (pre @ frame_body f @ rest) (frame_body f @ rest) = PDone rest f"
proof (cases f)
  case (FrClose c)
  then show ?thesis using close_frame_read_back [OF N, of c lossy _ rest] assms
    by (cases c) (simp_all add: wire_type_def reason_kept_def del: frame_body.simps)
next
  case (FrAck a)
  then show ?thesis using ack_frame_read_back [OF N, of a rest] f by (simp add: wire_type_def del: frame_body.simps)
next
  case (FrNewConnectionId nc)
  then have "varint_ok (nc_retire_prior_to nc)" using f by (simp add: varint_ok_def)
  then show ?thesis using assms FrNewConnectionId
    by (cases nc) (simp add: wire_type_def be_new_connection_id_frame_def codec_fields be_connection_id_read_back [OF N]
        be_reset_token_def reset_token_new_def del: be_bytes.simps One_nat_def)
next
  case (FrStream sf data)
  then have "complete_frame N lossy (wire_type f) (pre @ frame_body f @ rest) (frame_body f @ rest) =
      with_data ((pre @ stream_head sf) @ data @ rest) (data @ rest) (sf_length sf) (FrStream sf)"
    using stream_frame_read_back [OF N, of sf data rest] assms by (simp add: wire_type_def self_delimiting_def)
  also have "\<dots> = PDone rest f"
    using with_data_read_back [of "pre @ stream_head sf" data rest "FrStream sf"] FrStream f
    by (simp add: stream_ok_def)
  finally show ?thesis .
next
  case (FrCrypto cf data)
  then have "varint_ok (cf_offset cf)" using f by (simp add: varint_ok_def VARINT_MAX_def)
  then show ?thesis using FrCrypto f N with_data_read_back [of "pre @ venc (cf_offset cf) @ venc (cf_length cf)" data rest "FrCrypto cf"]
    by (cases cf) (simp add: wire_type_def be_crypto_frame_def codec_fields)
next
  case (FrDatagram d data)
  then show ?thesis using f N assms(4) with_data_read_back [of "pre @ venc (dg_len d)" data rest "FrDatagram d"]
    by (cases d; cases "dg_len d"; cases "dg_encode_len d")
      (auto simp: wire_type_def datagram_frame_with_flag_def codec_fields self_delimiting_def sub64_def slice_range_def
        from_u64_def varint_ok_def)
next
  case (FrStreamCtl c)
  then show ?thesis using ctl_frame_read_back [OF N] f by (simp add: wire_type_def)
qed (use assms in \<open>auto simp: wire_type_def codec_fields be_new_token_frame_def be_max_data_frame_def
      be_data_blocked_frame_def be_retire_connection_id_frame_def be_path_challenge_frame_def be_path_response_frame_def
      path_challenge_from_slice_def path_response_from_slice_def varint_ok_VarInt\<close>)

lemma be_frame_read_back:
  assumes "nom_ok N" "frame_ok f" "reason_kept rem lossy buf f" "self_delimiting f \<or> rest = []"
    and "belongs_to (wire_type f) pt"
  shows "be_frame N lossy (frame_bytes f @ rest) pt = Ret (Inr (length (frame_bytes f), f, wire_type f))"
  using assms(5) be_frame_type_code [OF assms(1) wire_type_ok [OF assms(2)]]
    complete_frame_read_back [OF assms(1-4), of "be_bytes 1 (into_inner (varint_of_frame_type (wire_type f)))"]
  by (simp add: be_frame_def frame_bytes_def sub64_def del: be_bytes.simps)

text \<open>Every well-formed frame is read back from what its writer writes: the writer returns, and on
the bytes it wrote, whatever follows them if the frame carries its length, \<open>be_frame\<close> consumes exactly
these bytes and returns the frame and its wire type, in every packet type the frame type belongs to.\<close>

theorem frame_roundtrip:
  assumes "nom_ok N" "bufmut_ok B" "frame_ok f" "reason_kept rem lossy [] f" "self_delimiting f \<or> rest = []"
    and "belongs_to (wire_type f) pt"
  shows "\<exists>enc. put_frame B rem f [] = Ret enc \<and>
    be_frame N lossy (enc @ rest) pt = Ret (Inr (length enc, f, wire_type f))"
  using put_frame_bytes [OF assms(2-4)] be_frame_read_back [OF assms(1,3-6)] by auto

theorem frame_roundtrip_witness:
  "put_frame bufmut_ref (\<lambda>_. 100) (FrStreamCtl (CtlStopSending (StopSendingFrame (StreamId 6) (VarInt 300)))) [] =
     Ret [5, 6, 0x41, 0x2c] \<and>
   be_frame nom_ref (\<lambda>x. x) ([5, 6, 0x41, 0x2c] @ [1]) (Short ToggleZero) =
     Ret (Inr (4, FrStreamCtl (CtlStopSending (StopSendingFrame (StreamId 6) (VarInt 300))), StopSending))"
proof -
  have p: "put_frame bufmut_ref (\<lambda>_. 100) (FrStreamCtl (CtlStopSending (StopSendingFrame (StreamId 6) (VarInt 300)))) [] =
     Ret [5, 6, 0x41, 0x2c]"
    by (simp add: put_stop_sending_frame_def put_streamid_def varint_of_sid_def from_u64_def put_varint_def
        bufmut_ref_def be_bytes_numeral or_tag)
  show ?thesis
    using p frame_roundtrip [OF nom_ok_ref bufmut_ok_ref, of "FrStreamCtl (CtlStopSending (StopSendingFrame (StreamId 6) (VarInt 300)))"
        "\<lambda>_. 100" "\<lambda>x. x" "[1]" "Short ToggleZero"]
    by (simp add: sid_ok_def varint_ok_def reason_kept_def self_delimiting_def belongs_to_def wire_type_def)
qed

subsection \<open>Payloads\<close>

text \<open>A sender writes frames one after the other; a receiver calls \<open>next\<close> until it has read \<open>n\<close> frames.\<close>

fun put_frames :: "bufmut \<Rightarrow> (byte list \<Rightarrow> nat) \<Rightarrow> frame list \<Rightarrow> byte list \<Rightarrow> byte list run" where
  "put_frames B rem [] buf = Ret buf"
| "put_frames B rem (f # fs) buf = bind_run (put_frame B rem f buf) (put_frames B rem fs)"

fun read_frames ::
    "nom \<Rightarrow> (byte list \<Rightarrow> byte list) \<Rightarrow> packet_type \<Rightarrow> nat \<Rightarrow> byte list \<Rightarrow>
     ((frame_error + frame \<times> frame_type) list \<times> byte list) run" where
  "read_frames N lossy pt 0 payload = Ret ([], payload)"
| "read_frames N lossy pt (Suc n) payload =
     bind_run (frame_reader_next N lossy pt payload) (\<lambda>(item, rest).
       case item of
         None \<Rightarrow> Ret ([], rest)
       | Some x \<Rightarrow> bind_run (read_frames N lossy pt n rest) (\<lambda>(xs, rest). Ret (x # xs, rest)))"

lemma frame_bytes_nonempty [simp]: "frame_bytes f \<noteq> []"
  by (simp add: frame_bytes_def)

definition payload_ok :: "(byte list \<Rightarrow> nat) \<Rightarrow> (byte list \<Rightarrow> byte list) \<Rightarrow> packet_type \<Rightarrow> frame list \<Rightarrow> bool" where
  "payload_ok rem lossy pt fs \<longleftrightarrow>
     list_all (\<lambda>f. frame_ok f \<and> belongs_to (wire_type f) pt) fs \<and> list_all self_delimiting (butlast fs) \<and>
     list_all (\<lambda>k. reason_kept rem lossy (concat (map frame_bytes (take k fs))) (fs ! k)) [0..<length fs]"

lemma put_frames_bytes:
  assumes B: "bufmut_ok B" and "list_all frame_ok fs"
    and "\<And>k. k < length fs \<Longrightarrow> reason_kept rem lossy (buf @ concat (map frame_bytes (take k fs))) (fs ! k)"
  shows "put_frames B rem fs buf = Ret (buf @ concat (map frame_bytes fs))"
  using assms(2,3)
proof (induction fs arbitrary: buf)
  case (Cons f fs)
  have "put_frame B rem f buf = Ret (buf @ frame_bytes f)"
    using Cons.prems(1) Cons.prems(2) [of 0] by (intro put_frame_bytes [OF B]) auto
  moreover have "put_frames B rem fs (buf @ frame_bytes f) = Ret ((buf @ frame_bytes f) @ concat (map frame_bytes fs))"
  proof (rule Cons.IH)
    show "reason_kept rem lossy ((buf @ frame_bytes f) @ concat (map frame_bytes (take k fs))) (fs ! k)"
      if "k < length fs" for k using Cons.prems(2) [of "Suc k"] that by simp
  qed (use Cons.prems(1) in simp)
  ultimately show ?case by simp
qed simp

lemma frame_reader_next_read_back:
  assumes "nom_ok N" "frame_ok f" "reason_kept rem lossy buf f" "self_delimiting f \<or> rest = []"
    and "belongs_to (wire_type f) pt"
  shows "frame_reader_next N lossy pt (frame_bytes f @ rest) = Ret (Some (Inr (f, wire_type f)), rest)"
  using be_frame_read_back [OF assms] by (simp add: frame_reader_next_def)

lemma read_frames_read_back:
  assumes N: "nom_ok N" and "list_all (\<lambda>f. frame_ok f \<and> belongs_to (wire_type f) pt) fs" "list_all self_delimiting (butlast fs)"
    and "\<And>k. k < length fs \<Longrightarrow> \<exists>buf. reason_kept rem lossy buf (fs ! k)"
  shows "read_frames N lossy pt (Suc (length fs)) (concat (map frame_bytes fs)) =
    Ret (map (\<lambda>f. Inr (f, wire_type f)) fs, [])"
  using assms(2-)
proof (induction fs)
  case Nil
  then show ?case by (simp add: frame_reader_next_def)
next
  case (Cons f fs)
  obtain buf where buf: "reason_kept rem lossy buf f" using Cons.prems(3) [of 0] by auto
  have "self_delimiting f \<or> concat (map frame_bytes fs) = []" using Cons.prems(2) by (cases fs) auto
  then have "frame_reader_next N lossy pt (frame_bytes f @ concat (map frame_bytes fs)) =
      Ret (Some (Inr (f, wire_type f)), concat (map frame_bytes fs))"
    using Cons.prems(1) buf by (intro frame_reader_next_read_back [OF N]) auto
  moreover have "read_frames N lossy pt (Suc (length fs)) (concat (map frame_bytes fs)) =
      Ret (map (\<lambda>f. Inr (f, wire_type f)) fs, [])"
  proof (rule Cons.IH)
    show "list_all self_delimiting (butlast fs)" using Cons.prems(2) by (cases fs) auto
    show "\<exists>buf. reason_kept rem lossy buf (fs ! k)" if "k < length fs" for k
      using Cons.prems(3) [of "Suc k"] that by simp
  qed (use Cons.prems(1) in simp)
  ultimately show ?case by (simp del: read_frames.simps(2) add: read_frames.simps(2) [of _ _ _ "Suc (length fs)"])
qed

text \<open>C16: A whole payload is read back: when the frames written one after the other into a packet are
well-formed, may travel in that packet and all but the last carry their length, the frame reader yields
exactly these frames with their types, in order, and then ends with nothing left.\<close>

theorem payload_roundtrip:
  assumes "nom_ok N" "bufmut_ok B" "payload_ok rem lossy pt fs"
  shows "\<exists>payload. put_frames B rem fs [] = Ret payload \<and>
    read_frames N lossy pt (Suc (length fs)) payload = Ret (map (\<lambda>f. Inr (f, wire_type f)) fs, [])"
proof (intro exI conjI)
  have k: "reason_kept rem lossy (concat (map frame_bytes (take k fs))) (fs ! k)" if "k < length fs" for k
    using assms(3) that by (auto simp: payload_ok_def list_all_iff)
  show "put_frames B rem fs [] = Ret (concat (map frame_bytes fs))"
    using put_frames_bytes [OF assms(2), of fs rem lossy "[]"] k assms(3) by (simp add: payload_ok_def list_all_iff)
  show "read_frames N lossy pt (Suc (length fs)) (concat (map frame_bytes fs)) = Ret (map (\<lambda>f. Inr (f, wire_type f)) fs, [])"
    using k assms(3) by (intro read_frames_read_back [OF assms(1), where rem = rem]) (auto simp: payload_ok_def)
qed

theorem payload_roundtrip_witness:
  "\<exists>payload. put_frames bufmut_ref (\<lambda>_. 9) [FrPing, FrMaxData (MaxDataFrame (VarInt 7)), FrStream \<lparr>sf_id = StreamId 4, sf_offset = VarInt 2, sf_length = 1, sf_flag = 4\<rparr> [0xab]] [] = Ret payload \<and>
    read_frames nom_ref (\<lambda>x. x) (Short ToggleZero) (Suc 3) payload =
      Ret ([Inr (FrPing, Ping), Inr (FrMaxData (MaxDataFrame (VarInt 7)), MaxData),
            Inr (FrStream \<lparr>sf_id = StreamId 4, sf_offset = VarInt 2, sf_length = 1, sf_flag = 4\<rparr> [0xab], Stream 4)], [])"
proof -
  let ?fs = "[FrPing, FrMaxData (MaxDataFrame (VarInt 7)), FrStream \<lparr>sf_id = StreamId 4, sf_offset = VarInt 2, sf_length = 1, sf_flag = 4\<rparr> [0xab]]"
  have "payload_ok (\<lambda>_. 9) (\<lambda>x. x) (Short ToggleZero) ?fs"
    by (simp add: payload_ok_def belongs_to_def wire_type_def self_delimiting_def reason_kept_def stream_ok_def sid_ok_def
      varint_ok_def OFF_BIT_def LEN_BIT_def VARINT_MAX_def)
  from payload_roundtrip [OF nom_ok_ref bufmut_ok_ref this]
  show ?thesis by (simp add: numeral_3_eq_3 wire_type_def del: read_frames.simps put_frames.simps)
qed

end
