(* ===== verification/Frame_Safety.thy ===== *)
theory Frame_Safety
  imports Frame_Io
begin

section \<open>The frame reader is total; sizes and ranges of frames\<close>

text \<open>
  A payload is whatever the peer encrypted: the reader has to return on every byte string. \<open>safe\<close> is the
  contract all frame parsers keep: no panic, no \<open>Failure\<close>, and the rest is no longer than the input.
  The second part is about the sizes the packet assembler relies on and about the ranges of ACK frames.
\<close>

unbundle bit_operations_syntax

definition safe :: "nat \<Rightarrow> ('e, 'a) presult \<Rightarrow> bool" where
  "safe n r \<longleftrightarrow> (case r of PDone rest a \<Rightarrow> length rest \<le> n | PIncomplete _ \<Rightarrow> True | PError _ \<Rightarrow> True | PFailure _ \<Rightarrow> False | PPanic \<Rightarrow> False)"

named_theorems safe_rules

lemma safe_PDone [safe_rules]: "length rest \<le> n \<Longrightarrow> safe n (PDone rest a)"
  by (simp add: safe_def)

lemma safe_PError [safe_rules]: "safe n (PError e)" "safe n (PIncomplete k)"
  by (simp_all add: safe_def)

lemma safe_pbind [safe_rules]:
  "safe n r \<Longrightarrow> (\<And>rest a. r = PDone rest a \<Longrightarrow> length rest \<le> n \<Longrightarrow> safe n (f rest a)) \<Longrightarrow> safe n (pbind r f)"
  by (cases r) (simp_all add: safe_def)

lemma safe_pmap [safe_rules]: "safe n r \<Longrightarrow> safe n (pmap g r)"
  by (cases r) (simp_all add: safe_def)

lemma safe_mono: "safe m r \<Longrightarrow> m \<le> n \<Longrightarrow> safe n r"
  by (cases r) (simp_all add: safe_def)

lemma safe_if [safe_rules]: "(b \<Longrightarrow> safe n r) \<Longrightarrow> (\<not> b \<Longrightarrow> safe n s) \<Longrightarrow> safe n (if b then r else s)"
  by simp

lemma safe_be_varint [safe_rules]:
  assumes "nom_ok N" "length input \<le> n"
  shows "safe n (be_varint N input)"
  using assms(2) by (auto simp: be_varint_eq [OF assms(1)] safe_def Let_def)

lemma safe_be_streamid [safe_rules]:
  assumes "nom_ok N" "length input \<le> n"
  shows "safe n (be_streamid N input)"
  unfolding be_streamid_def by (intro safe_rules assms)

lemma safe_take [safe_rules]:
  assumes "nom_ok N" "length input \<le> n"
  shows "safe n (take_streaming N k input)" "safe n (take_complete N k input)" "safe n (be_u8_streaming N input)"
  using assms(2) by (auto simp: nom_take [OF assms(1)] nom_be [OF assms(1)] be_streaming_def safe_def)

lemma take_PDone_length:
  "nom_ok N \<Longrightarrow> take_streaming N k input = PDone rest bs \<Longrightarrow> length bs = k"
  "nom_ok N \<Longrightarrow> take_complete N k input = PDone rest bs \<Longrightarrow> length bs = k"
  by (auto simp: nom_take split: if_splits)

lemma safe_be_connection_id [safe_rules]:
  assumes "nom_ok N" "length input \<le> n"
  shows "safe n (be_connection_id N input)"
  unfolding be_connection_id_def be_connection_id_with_len_def
proof (intro safe_rules assms)
  fix rest len rest' bs
  assume "length rest \<le> n" "length rest' \<le> n" "\<not> MAX_CID_SIZE < len" "take_streaming N len rest = PDone rest' bs"
  then show "safe n (prun rest' (cid_from_slice bs))"
    using take_PDone_length(1) [OF assms(1)] by (auto simp: cid_from_slice_def intro: safe_rules)
qed (use assms in auto)

lemma safe_be_reset_token [safe_rules]:
  assumes "nom_ok N" "length input \<le> n"
  shows "safe n (be_reset_token N input)"
  unfolding be_reset_token_def
proof (intro safe_rules assms)
  fix rest bs
  assume "take_complete N RESET_TOKEN_SIZE input = PDone rest bs" "length rest \<le> n"
  then show "safe n (prun rest (reset_token_new bs))"
    using take_PDone_length(2) [OF assms(1)] by (auto simp: reset_token_new_def intro: safe_rules)
qed

lemma safe_path_frames [safe_rules]:
  assumes "nom_ok N" "length input \<le> n"
  shows "safe n (be_path_challenge_frame N input)" "safe n (be_path_response_frame N input)"
  using assms
  by (auto simp: be_path_challenge_frame_def be_path_response_frame_def nom_take path_challenge_from_slice_def
      path_response_from_slice_def safe_def)

lemma safe_be_frame_type:
  assumes "nom_ok N" "length input \<le> n"
  shows "safe n (be_frame_type N input)" and "\<And>k. be_frame_type N input \<noteq> PIncomplete k"
    and "be_frame_type N input = PDone rest ft \<Longrightarrow> length rest < length input"
proof -
  have "safe n (be_varint N input :: (nom_error_kind, varint) presult)" by (intro safe_rules assms)
  then show "safe n (be_frame_type N input)" "\<And>k. be_frame_type N input \<noteq> PIncomplete k"
    by (auto simp: be_frame_type_def safe_def split: presult.splits sum.splits)
  show "length rest < length input" if "be_frame_type N input = PDone rest ft"
    using that by (auto simp: be_frame_type_def be_varint_eq [OF assms(1)] Let_def pbind_PDone_iff
        split: presult.splits sum.splits if_splits)
qed

lemma safe_ack_ranges [safe_rules]:
  assumes "nom_ok N"
  shows "length remain \<le> n \<Longrightarrow> safe n (ack_ranges_loop N count remain ranges)"
  by (induction count arbitrary: remain ranges) (auto intro!: safe_rules assms)

lemma safe_ack_frame [safe_rules]:
  assumes "nom_ok N" "length input \<le> n"
  shows "safe n (ack_frame_with_flag N flag input)"
  unfolding ack_frame_with_flag_def be_ecn_counts_def by (intro safe_rules assms)

lemma safe_int_frames [safe_rules]:
  assumes "nom_ok N" "length input \<le> n"
  shows "safe n (be_max_data_frame N input)" "safe n (be_data_blocked_frame N input)"
    "safe n (be_retire_connection_id_frame N input)" "safe n (be_max_stream_data_frame N input)"
    "safe n (be_stream_data_blocked_frame N input)" "safe n (be_stop_sending_frame N input)"
    "safe n (be_reset_stream_frame N input)" "safe n (max_streams_frame_with_dir N d input)"
    "safe n (streams_blocked_frame_with_dir N d input)" "safe n (be_new_token_frame N input)"
    "safe n (be_crypto_frame N input)"
  unfolding be_max_data_frame_def be_data_blocked_frame_def be_retire_connection_id_frame_def be_max_stream_data_frame_def
    be_stream_data_blocked_frame_def be_stop_sending_frame_def be_reset_stream_frame_def max_streams_frame_with_dir_def
    streams_blocked_frame_with_dir_def be_new_token_frame_def be_crypto_frame_def
  by (intro safe_rules assms; assumption?)+

lemma safe_be_new_connection_id_frame [safe_rules]:
  assumes "nom_ok N" "length input \<le> n"
  shows "safe n (be_new_connection_id_frame N input)"
  unfolding be_new_connection_id_frame_def by (intro safe_rules assms)

lemma safe_close_frame [safe_rules]:
  assumes "nom_ok N" "length input \<le> n"
  shows "safe n (connection_close_frame_at_layer N lossy layer input)"
proof -
  have "safe n (be_app_close_frame N lossy input)"
    unfolding be_app_close_frame_def by (intro safe_rules assms)
  moreover have "safe n (be_quic_close_frame N lossy input)"
    unfolding be_quic_close_frame_def
  proof (intro safe_rules assms)
    fix rest :: "byte list" and a
    assume r: "length rest \<le> n"
    show "safe n (case error_kind_try_from a of
        Inl _ \<Rightarrow> PError Alt
      | Inr kind \<Rightarrow>
          pbind (case be_frame_type N rest of PDone r ft \<Rightarrow> PDone r ft | PPanic \<Rightarrow> PPanic | _ \<Rightarrow> PError Alt)
            (\<lambda>remain ft. pbind (be_varint N remain) (\<lambda>remain reason_length.
               pbind (take_complete N (into_inner reason_length) remain) (\<lambda>remain reason.
                 PDone remain (QuicClose kind (ErrV1 ft) (lossy reason))))))"
    proof (cases "error_kind_try_from a")
      case (Inr kind)
      have "safe n (case be_frame_type N rest of PDone r ft \<Rightarrow> PDone r ft | PPanic \<Rightarrow> PPanic | _ \<Rightarrow> PError Alt)"
        using safe_be_frame_type(1) [OF assms(1) r] by (auto simp: safe_def split: presult.splits)
      then show ?thesis unfolding Inr sum.case by (intro safe_rules assms)
    qed (simp add: safe_rules)
  qed
  ultimately show ?thesis unfolding connection_close_frame_at_layer_def by (intro safe_rules)
qed

subsection \<open>The dispatch\<close>

lemma safe_with_data:
  assumes "length input \<le> length raw" "length input \<le> n"
  shows "safe n (with_data raw input len mk)"
  using assms by (auto simp: with_data_def sub64_def slice_range_def safe_def)

lemma safe_stream_frame [safe_rules]:
  assumes "nom_ok N" "length input \<le> n"
  shows "safe n (stream_frame_with_flag N flag input)"
  unfolding stream_frame_with_flag_def by (intro safe_rules assms)

lemma safe_datagram_frame:
  assumes "nom_ok N" "length input \<le> n" "length input < 2 ^ 62"
  shows "safe n (datagram_frame_with_flag N flag input)"
proof -
  have "safe n (if flag = 1 then be_varint N input else prun input (unwrap_result (from_u64 (length input))))"
    using assms(2,3) by (simp add: safe_be_varint [OF assms(1,2)] from_u64_def safe_PDone)
  then show ?thesis unfolding datagram_frame_with_flag_def by (rule safe_pbind) (simp add: safe_rules)
qed

lemma safe_complete_frame:
  assumes N: "nom_ok N" and len: "length input \<le> length raw" "length raw < 2 ^ 62"
  shows "safe (length input) (complete_frame N lossy ft raw input)"
proof -
  have d: "safe (length input) (with_data raw rest k mk)" if "length rest \<le> length input" for rest k mk
    using that len by (intro safe_with_data) auto
  show ?thesis
  proof (cases ft)
    case (Datagram with_len)
    have "safe (length input) (datagram_frame_with_flag N with_len input)"
      using len by (intro safe_datagram_frame [OF N]) auto
    then show ?thesis
      using Datagram d len by (auto intro!: safe_rules simp: sub64_def slice_range_def split: run.splits)
  qed (use d in \<open>auto intro!: safe_rules N\<close>)
qed

lemma be_frame_returns:
  assumes N: "nom_ok N" and len: "length raw < 2 ^ 62"
  shows "(\<exists>e. be_frame N lossy raw pt = Ret (Inl e)) \<or>
    (\<exists>consumed f ft. be_frame N lossy raw pt = Ret (Inr (consumed, f, ft)) \<and>
       0 < consumed \<and> consumed \<le> length raw \<and> belongs_to ft pt)"
proof (cases "be_frame_type N raw")
  case (PDone remain ft)
  have lt: "length remain < length raw" by (rule safe_be_frame_type(3) [OF N order_refl PDone])
  have "safe (length remain) (complete_frame N lossy ft raw remain)"
    using lt len by (intro safe_complete_frame [OF N]) auto
  then show ?thesis
    using PDone lt by (cases "complete_frame N lossy ft raw remain") (auto simp: be_frame_def safe_def sub64_def)
qed (use safe_be_frame_type(1,2) [OF N order_refl, of raw] in \<open>auto simp: be_frame_def safe_def\<close>)

text \<open>C17: The frame reader is total on untrusted input: for every payload (shorter than $2^{62}$ bytes) and
every packet type, \<open>FrameReader::next\<close> returns. On an empty payload it ends; otherwise it either reports an
error and leaves the payload, or yields a frame whose type may travel in this packet and shortens the
payload by at least one byte, so that reading a payload terminates.\<close>

theorem frame_reader_total:
  assumes "nom_ok N" "length payload < 2 ^ 62"
  shows "case frame_reader_next N lossy pt payload of
      Panic \<Rightarrow> False
    | Ret (None, rest) \<Rightarrow> payload = []
    | Ret (Some (Inl e), rest) \<Rightarrow> rest = payload
    | Ret (Some (Inr (f, ft)), rest) \<Rightarrow> belongs_to ft pt \<and> (\<exists>k > 0. k \<le> length payload \<and> rest = drop k payload)"
  using be_frame_returns [OF assms, of lossy pt]
  by (cases "payload = []") (auto simp: frame_reader_next_def)

theorem frame_reader_total_witness:
  "frame_reader_next nom_ref (\<lambda>x. x) (Short ToggleZero) [0x01, 0xff] = Ret (Some (Inr (FrPing, Ping)), [0xff]) \<and>
   frame_reader_next nom_ref (\<lambda>x. x) (Short ToggleZero) [0xff] = Ret (Some (Inl IncompleteType), [0xff])"
proof -
  have "be_frame nom_ref (\<lambda>x. x) [0x01, 0xff] (Short ToggleZero) = Ret (Inr (1, FrPing, Ping))"
    by (simp add: be_frame_def be_frame_type_def be_varint_eq [OF nom_ok_ref] varint_tag_def frame_type_try_from_def
        belongs_to_def sub64_def)
  moreover have "be_frame nom_ref (\<lambda>x. x) [0xff] (Short ToggleZero) = Ret (Inl IncompleteType)"
    by (simp add: be_frame_def be_frame_type_def be_varint_eq [OF nom_ok_ref] varint_tag_def)
  ultimately show ?thesis
    using frame_reader_total [OF nom_ok_ref, of "[0x01, 0xff]" "Short ToggleZero" "\<lambda>x. x"]
      frame_reader_total [OF nom_ok_ref, of "[0xff]" "Short ToggleZero" "\<lambda>x. x"]
    by (simp add: frame_reader_next_def)
qed

subsection \<open>Sizes\<close>

definition varint_len :: "nat \<Rightarrow> nat" where
  "varint_len x = (if x < 2 ^ 6 then 1 else if x < 2 ^ 14 then 2 else if x < 2 ^ 30 then 4 else 8)"

lemma encoding_size_len: "x < 2 ^ 62 \<Longrightarrow> encoding_size (VarInt x) = Ret (varint_len x)"
  by (simp add: encoding_size_def varint_len_def Let_def)

text \<open>The bytes a CRYPTO frame takes in a packet, with its data.\<close>

definition crypto_total :: "nat \<Rightarrow> nat \<Rightarrow> nat" where
  "crypto_total offset len = 1 + varint_len offset + varint_len len + len"

text \<open>\<open>CryptoFrame::estimate_max_capacity\<close> is exact: when it returns a length, a CRYPTO frame of that much
data at this offset fits the capacity and one byte more does not; when it returns nothing, only the empty
frame can fit. It returns for every capacity below $2^{30}$, an offset in range given.\<close>

theorem crypto_estimate_exact:
  assumes "offset \<le> VARINT_MAX" "capacity < 2 ^ 30"
  shows "case crypto_estimate_max_capacity capacity offset of
      Panic \<Rightarrow> False
    | Ret None \<Rightarrow> capacity < crypto_total offset 1
    | Ret (Some n) \<Rightarrow> 0 < n \<and> crypto_total offset n \<le> capacity \<and> capacity < crypto_total offset (n + 1)"
  using assms
  by (auto simp: crypto_estimate_max_capacity_def from_u64_def VARINT_MAX_def encoding_size_len crypto_total_def Let_def)
    (auto simp: varint_len_def)

theorem crypto_estimate_exact_witness:
  "crypto_estimate_max_capacity 100 64 = Ret (Some 95) \<and> crypto_total 64 95 \<le> 100"
  using crypto_estimate_exact [of 64 100]
  by (simp add: crypto_estimate_max_capacity_def from_u64_def encoding_size_def VARINT_MAX_def crypto_total_def varint_len_def)

text \<open>The bytes a STREAM frame takes, with and without its length field.\<close>

definition stream_total :: "stream_frame \<Rightarrow> bool \<Rightarrow> nat" where
  "stream_total f with_len =
     1 + varint_len (sid_value (sf_id f)) + (if into_inner (sf_offset f) \<noteq> 0 then varint_len (into_inner (sf_offset f)) else 0) +
     (if with_len then varint_len (sf_length f) else 0) + sf_length f"

lemma sf_encoding_size_eq:
  assumes "sid_ok (sf_id f)" "varint_ok (sf_offset f)" "sf_length f < 2 ^ 62"
  shows "sf_encoding_size f = Ret (stream_total f (sf_flag f AND LEN_BIT \<noteq> 0) - sf_length f)"
proof -
  have o': "encoding_size (sf_offset f) = Ret (varint_len (into_inner (sf_offset f)))"
    using encoding_size_len [of "into_inner (sf_offset f)"] assms(2) by (simp add: varint_ok_def)
  show ?thesis
    using assms by (auto simp: sf_encoding_size_def sid_encoding_size_def varint_of_sid_def from_u64_def sid_ok_def
        encoding_size_len o' stream_total_def)
qed

lemma encoding_strategy_fits:
  assumes "sid_ok (sf_id f)" "varint_ok (sf_offset f)" "sf_length f < 2 ^ 62" "sf_flag f AND LEN_BIT = 0"
    and "stream_total f False \<le> capacity"
  shows "case sf_encoding_strategy f capacity of
      Panic \<Rightarrow> False
    | Ret (EncodingStrategy with_len padding) \<Rightarrow>
        (with_len \<longleftrightarrow> stream_total f True \<le> capacity) \<and>
        (let used = padding + stream_total f with_len
         in used = capacity \<or> with_len \<and> padding = 0 \<and> used + STREAM_FRAME_MAX_ENCODING_SIZE \<le> capacity)"
proof -
  define T where "T = stream_total f False"
  define n where "n = varint_len (sf_length f)"
  have F: "stream_total f False = T" by (simp add: T_def)
  have "sf_length f \<le> T" by (simp add: T_def stream_total_def)
  moreover have "stream_total f True = T + n" by (simp add: T_def n_def stream_total_def)
  moreover have "sf_encoding_size f = Ret (T - sf_length f)"
    using sf_encoding_size_eq [OF assms(1-3)] assms(4) by (simp add: T_def)
  moreover have "bind_run (unwrap_result (from_u64 (sf_length f))) encoding_size = Ret n"
    using assms(3) by (simp add: from_u64_def encoding_size_len n_def)
  ultimately show ?thesis
    using assms(4,5) unfolding sf_encoding_strategy_def F
    by (auto simp: Let_def F)
qed

text \<open>The encoding strategy of a STREAM frame never overruns the packet: for a frame without length flag
that fits the capacity, \<open>encoding_strategy\<close> returns, and the frame in the form it chose together with the
padding it asks for fits. The form without length is chosen only when the length field does not fit, and then the padding fills the packet
to the last byte; the other way leaves either nothing or at least
\<open>STREAM_FRAME_MAX_ENCODING_SIZE\<close> bytes for the next frame.\<close>

theorem stream_strategy_fits:
  assumes "sid_ok (sf_id f)" "varint_ok (sf_offset f)" "sf_length f < 2 ^ 62" "sf_flag f AND LEN_BIT = 0"
    and "stream_total f False \<le> capacity"
  shows "case sf_encoding_strategy f capacity of
      Panic \<Rightarrow> False
    | Ret (EncodingStrategy with_len padding) \<Rightarrow>
        (with_len \<longleftrightarrow> stream_total f True \<le> capacity) \<and>
        (let used = padding + stream_total f with_len
         in used = capacity \<or> with_len \<and> padding = 0 \<and> used + STREAM_FRAME_MAX_ENCODING_SIZE \<le> capacity)"
  by (rule encoding_strategy_fits [OF assms])

theorem stream_strategy_fits_witness:
  "sf_encoding_strategy \<lparr>sf_id = StreamId 4, sf_offset = VarInt 0, sf_length = 30, sf_flag = 0\<rparr> 40 = Ret (EncodingStrategy True 7) \<and>
   stream_total \<lparr>sf_id = StreamId 4, sf_offset = VarInt 0, sf_length = 30, sf_flag = 0\<rparr> True = 33"
  using stream_strategy_fits [of "\<lparr>sf_id = StreamId 4, sf_offset = VarInt 0, sf_length = 30, sf_flag = 0\<rparr>" 40]
  by (simp add: stream_total_def varint_len_def sid_ok_def varint_ok_def sf_encoding_strategy_def sf_encoding_size_def
      sid_encoding_size_def varint_of_sid_def from_u64_def encoding_size_def STREAM_FRAME_MAX_ENCODING_SIZE_def LEN_BIT_def)

subsection \<open>Ranges of an ACK frame\<close>

text \<open>What RFC 9000 requires of the sender of an ACK frame: no computed packet number is negative.\<close>

fun ack_ranges_fit :: "nat \<Rightarrow> (varint \<times> varint) list \<Rightarrow> bool" where
  "ack_ranges_fit low [] \<longleftrightarrow> True"
| "ack_ranges_fit low ((gap, rng) # rs) \<longleftrightarrow>
     into_inner gap + 2 + into_inner rng \<le> low \<and> ack_ranges_fit (low - (into_inner gap + 2 + into_inner rng)) rs"

definition ack_fits :: "ack_frame \<Rightarrow> bool" where
  "ack_fits f \<longleftrightarrow> into_inner (ack_first_range f) \<le> into_inner (ack_largest f) \<and>
     ack_ranges_fit (into_inner (ack_largest f) - into_inner (ack_first_range f)) (ack_ranges f)"

lemma ack_scan_step:
  "ack_scan_ranges low ((gap, rng) # rs) =
     (let n = into_inner gap + 2 + into_inner rng
      in if n \<le> low
         then bind_run (ack_scan_ranges (low - n) rs) (\<lambda>tail. Ret ((low - n, low - n + into_inner rng) # tail))
         else Panic)"
proof -
  have "low - into_inner gap - 2 = low - (into_inner gap + 2 + into_inner rng) + into_inner rng"
    if "into_inner gap + 2 + into_inner rng \<le> low" using that by simp
  then show ?thesis by (auto simp: sub64_def Let_def add.commute)
qed

lemma ack_scan_returns: "returns (ack_scan_ranges low rs) \<longleftrightarrow> ack_ranges_fit low rs"
proof (induction low rs rule: ack_ranges_fit.induct)
  case (2 low gap rng rs)
  then show ?case
    by (cases "ack_scan_ranges (low - (into_inner gap + 2 + into_inner rng)) rs")
      (simp_all add: ack_scan_step Let_def del: ack_scan_ranges.simps)
qed simp

definition descending_ranges :: "(nat \<times> nat) list \<Rightarrow> bool" where
  "descending_ranges rs \<longleftrightarrow> list_all (\<lambda>(l, r). l \<le> r) rs \<and> sorted_wrt (\<lambda>(l1, r1) (l2, r2). r2 + 1 < l1) rs"

lemma ack_scan_descending:
  "ack_scan_ranges low rs = Ret out \<Longrightarrow> descending_ranges out \<and> list_all (\<lambda>(l, r). r + 1 < low) out"
proof (induction low rs arbitrary: out rule: ack_ranges_fit.induct)
  case (2 low gap rng rs)
  let ?n = "into_inner gap + 2 + into_inner rng"
  obtain tail where n: "?n \<le> low" and tail: "ack_scan_ranges (low - ?n) rs = Ret tail"
    and out: "out = (low - ?n, low - ?n + into_inner rng) # tail"
    using "2.prems" unfolding ack_scan_step Let_def by (auto simp: run_simps split: if_splits)
  have t: "descending_ranges tail" "list_all (\<lambda>(l, r). r + 1 < low - ?n) tail" using "2.IH" [OF tail] by auto
  have "list_all (\<lambda>(l, r). r + 1 < low) tail" using t(2) by (auto simp: list_all_iff)
  moreover have "low - ?n + into_inner rng + 1 < low" using n by simp
  ultimately show ?case using t unfolding out by (auto simp: descending_ranges_def list_all_iff)
qed (simp add: descending_ranges_def)

lemma ack_iter_descending:
  assumes "ack_iter f = Ret out"
  shows "descending_ranges out" "out \<noteq> []" "snd (hd out) = into_inner (ack_largest f)"
proof -
  let ?low = "into_inner (ack_largest f) - into_inner (ack_first_range f)"
  obtain tail where t: "into_inner (ack_first_range f) \<le> into_inner (ack_largest f)" "ack_scan_ranges ?low (ack_ranges f) = Ret tail"
    "out = (?low, into_inner (ack_largest f)) # tail"
    using assms by (auto simp: ack_iter_def run_simps Let_def)
  show "descending_ranges out" using ack_scan_descending [OF t(2)] t(1) unfolding t(3) by (auto simp: descending_ranges_def list_all_iff)
  show "out \<noteq> []" "snd (hd out) = into_inner (ack_largest f)" unfolding t(3) by simp_all
qed

lemma ack_fits_iter: "ack_fits f \<Longrightarrow> \<exists>rs. ack_iter f = Ret rs"
  using ack_scan_returns [of "into_inner (ack_largest f) - into_inner (ack_first_range f)" "ack_ranges f"]
  by (auto simp: ack_iter_def ack_fits_def sub64_def Let_def elim: returnsE)

text \<open>\<open>AckFrame::iter\<close> walks the acknowledged ranges exactly when the frame is one a correct peer sends: it
returns if and only if no packet number underflows, and then the ranges are non-empty, start at the largest
acknowledged number and descend with gaps between them. The parser does not check this, so for all other
frames the iteration panics.\<close>

theorem ack_iter_ranges:
  "case ack_iter f of
     Panic \<Rightarrow> \<not> ack_fits f
   | Ret out \<Rightarrow> ack_fits f \<and> descending_ranges out \<and> snd (hd out) = into_inner (ack_largest f) \<and>
       length out = Suc (length (ack_ranges f))"
proof -
  have len: "ack_scan_ranges low rs = Ret out \<Longrightarrow> length out = length rs" for low rs out
    by (induction low rs arbitrary: out rule: ack_ranges_fit.induct) (auto simp: run_simps)
  let ?low = "into_inner (ack_largest f) - into_inner (ack_first_range f)"
  show ?thesis
  proof (cases "into_inner (ack_first_range f) \<le> into_inner (ack_largest f)")
    case True
    show ?thesis
    proof (cases "ack_scan_ranges ?low (ack_ranges f)")
      case Panic
      then show ?thesis using True ack_scan_returns [of ?low "ack_ranges f"]
        by (simp add: ack_iter_def ack_fits_def sub64_def)
    next
      case (Ret out)
      have "ack_ranges_fit ?low (ack_ranges f)" using ack_scan_returns [of ?low "ack_ranges f"] Ret by simp
      moreover have "descending_ranges ((?low, into_inner (ack_largest f)) # out)"
        using ack_scan_descending [OF Ret] by (auto simp: descending_ranges_def list_all_iff)
      ultimately show ?thesis using True Ret len [OF Ret] by (simp add: ack_iter_def ack_fits_def sub64_def Let_def)
    qed
  qed (simp add: ack_iter_def ack_fits_def sub64_def)
qed

end
