(* ===== verification/Frame_Sizes.thy ===== *)
theory Frame_Sizes
  imports Frame_Roundtrip Frame_Safety
begin

section \<open>The sizes frames report: the \<open>EncodeFrame\<close> implementations of qbase/src/frame\<close>

text \<open>
  The packet assembler asks a frame for \<open>max_encoding_size\<close> and \<open>encoding_size\<close> before it writes it. Each
  \<open>impl EncodeFrame\<close> is one definition with both numbers; data frames report the size without their data.
\<close>

unbundle bit_operations_syntax

record encode_frame =
  max_encoding_size :: nat
  frame_encoding_size :: "nat run"

fun sum_run :: "nat run list \<Rightarrow> nat run" where
  "sum_run [] = Ret 0"
| "sum_run (r # rs) = bind_run r (\<lambda>a. bind_run (sum_run rs) (\<lambda>b. Ret (a + b)))"

definition len_size :: "nat \<Rightarrow> nat run" where
  "len_size n = bind_run (unwrap_result (from_u64 n)) encoding_size"

text \<open>The default methods of the trait, kept by PADDING, PING and HANDSHAKE\_DONE.\<close>

definition default_encode :: encode_frame where
  "default_encode = \<lparr>max_encoding_size = 1, frame_encoding_size = Ret 1\<rparr>"

definition ecn_encoding_size :: "ecn_counts \<Rightarrow> nat run" where
  "ecn_encoding_size e = sum_run [encoding_size (ect0 e), encoding_size (ect1 e), encoding_size (ecn_ce e)]"

definition ack_encode :: "ack_frame \<Rightarrow> encode_frame" where
  "ack_encode f =
     \<lparr>max_encoding_size = 1 + 8 + 8 + 8 + 8 + length (ack_ranges f) * 16 + (if ack_ecn f \<noteq> None then 24 else 0),
      frame_encoding_size =
        sum_run [Ret 1, encoding_size (ack_largest f), encoding_size (ack_delay f), len_size (length (ack_ranges f)),
          encoding_size (ack_first_range f),
          sum_run (map (\<lambda>(gap, ack). sum_run [encoding_size gap, encoding_size ack]) (ack_ranges f)),
          (case ack_ecn f of Some e \<Rightarrow> ecn_encoding_size e | None \<Rightarrow> Ret 0)]\<rparr>"

fun close_encode :: "close_frame \<Rightarrow> encode_frame" where
  "close_encode (AppClose code reason) =
     \<lparr>max_encoding_size = 1 + 8 + 2 + length reason,
      frame_encoding_size = sum_run [Ret 1, encoding_size code, len_size (length reason), Ret (length reason)]\<rparr>"
| "close_encode (QuicClose kind fty reason) =
     \<lparr>max_encoding_size = 1 + 8 + 8 + 2 + length reason,
      frame_encoding_size =
        sum_run [Ret 1, encoding_size (varint_of_error_kind kind), Ret 1, len_size (length reason), Ret (length reason)]\<rparr>"

definition crypto_encode :: "crypto_frame \<Rightarrow> encode_frame" where
  "crypto_encode f =
     \<lparr>max_encoding_size = 1 + 8 + 8,
      frame_encoding_size = sum_run [Ret 1, encoding_size (cf_offset f), encoding_size (cf_length f)]\<rparr>"

definition data_blocked_encode :: "data_blocked_frame \<Rightarrow> encode_frame" where
  "data_blocked_encode f =
     \<lparr>max_encoding_size = 1 + 8, frame_encoding_size = sum_run [Ret 1, encoding_size (db_limit f)]\<rparr>"

definition datagram_encode :: "datagram_frame \<Rightarrow> encode_frame" where
  "datagram_encode f =
     \<lparr>max_encoding_size = 1 + 8,
      frame_encoding_size = sum_run [Ret 1, if dg_encode_len f then encoding_size (dg_len f) else Ret 0]\<rparr>"

definition max_data_encode :: "max_data_frame \<Rightarrow> encode_frame" where
  "max_data_encode f =
     \<lparr>max_encoding_size = 1 + 8, frame_encoding_size = sum_run [Ret 1, encoding_size (md_max_data f)]\<rparr>"

definition max_stream_data_encode :: "max_stream_data_frame \<Rightarrow> encode_frame" where
  "max_stream_data_encode f =
     \<lparr>max_encoding_size = 1 + 8 + 8,
      frame_encoding_size = sum_run [Ret 1, sid_encoding_size (msd_stream_id f), encoding_size (msd_max f)]\<rparr>"

fun max_streams_encode :: "max_streams_frame \<Rightarrow> encode_frame" where
  "max_streams_encode (MaxStreamsBi v) = \<lparr>max_encoding_size = 1 + 8, frame_encoding_size = sum_run [Ret 1, encoding_size v]\<rparr>"
| "max_streams_encode (MaxStreamsUni v) = \<lparr>max_encoding_size = 1 + 8, frame_encoding_size = sum_run [Ret 1, encoding_size v]\<rparr>"

definition new_connection_id_encode :: "new_connection_id_frame \<Rightarrow> encode_frame" where
  "new_connection_id_encode f =
     \<lparr>max_encoding_size = 1 + 8 + 8 + 21 + RESET_TOKEN_SIZE,
      frame_encoding_size =
        sum_run [Ret 1, encoding_size (nc_sequence f), encoding_size (nc_retire_prior_to f), Ret 1,
          Ret (length (cid_bytes (nc_id f))), Ret RESET_TOKEN_SIZE]\<rparr>"

definition new_token_encode :: "new_token_frame \<Rightarrow> encode_frame" where
  "new_token_encode f =
     \<lparr>max_encoding_size = 1 + 1 + length (nt_token f), frame_encoding_size = Ret (1 + 1 + length (nt_token f))\<rparr>"

definition path_challenge_encode :: "path_challenge_frame \<Rightarrow> encode_frame" where
  "path_challenge_encode f =
     \<lparr>max_encoding_size = 1 + length (pc_data f), frame_encoding_size = Ret (1 + length (pc_data f))\<rparr>"

definition path_response_encode :: "path_response_frame \<Rightarrow> encode_frame" where
  "path_response_encode f =
     \<lparr>max_encoding_size = 1 + length (pr_data f), frame_encoding_size = Ret (1 + length (pr_data f))\<rparr>"

definition reset_stream_encode :: "reset_stream_frame \<Rightarrow> encode_frame" where
  "reset_stream_encode f =
     \<lparr>max_encoding_size = 1 + 8 + 8 + 8,
      frame_encoding_size =
        sum_run [Ret 1, sid_encoding_size (rs_stream_id f), encoding_size (rs_app_error_code f), encoding_size (rs_final_size f)]\<rparr>"

definition retire_connection_id_encode :: "retire_connection_id_frame \<Rightarrow> encode_frame" where
  "retire_connection_id_encode f =
     \<lparr>max_encoding_size = 1 + 8, frame_encoding_size = sum_run [Ret 1, encoding_size (rc_sequence f)]\<rparr>"

definition stop_sending_encode :: "stop_sending_frame \<Rightarrow> encode_frame" where
  "stop_sending_encode f =
     \<lparr>max_encoding_size = 1 + 8 + 8,
      frame_encoding_size = sum_run [Ret 1, sid_encoding_size (ss_stream_id f), encoding_size (ss_app_err_code f)]\<rparr>"

definition stream_data_blocked_encode :: "stream_data_blocked_frame \<Rightarrow> encode_frame" where
  "stream_data_blocked_encode f =
     \<lparr>max_encoding_size = 1 + 8 + 8,
      frame_encoding_size = sum_run [Ret 1, sid_encoding_size (sdb_stream_id f), encoding_size (sdb_max f)]\<rparr>"

fun streams_blocked_encode :: "streams_blocked_frame \<Rightarrow> encode_frame" where
  "streams_blocked_encode (StreamsBlockedBi v) =
     \<lparr>max_encoding_size = 1 + 8, frame_encoding_size = sum_run [Ret 1, encoding_size v]\<rparr>"
| "streams_blocked_encode (StreamsBlockedUni v) =
     \<lparr>max_encoding_size = 1 + 8, frame_encoding_size = sum_run [Ret 1, encoding_size v]\<rparr>"

definition stream_encode :: "stream_frame \<Rightarrow> encode_frame" where
  "stream_encode f = \<lparr>max_encoding_size = STREAM_FRAME_MAX_ENCODING_SIZE, frame_encoding_size = sf_encoding_size f\<rparr>"

fun ctl_encode :: "stream_ctl_frame \<Rightarrow> encode_frame" where
  "ctl_encode (CtlResetStream f) = reset_stream_encode f"
| "ctl_encode (CtlStopSending f) = stop_sending_encode f"
| "ctl_encode (CtlMaxStreamData f) = max_stream_data_encode f"
| "ctl_encode (CtlMaxStreams f) = max_streams_encode f"
| "ctl_encode (CtlStreamDataBlocked f) = stream_data_blocked_encode f"
| "ctl_encode (CtlStreamsBlocked f) = streams_blocked_encode f"

fun frame_encode :: "frame \<Rightarrow> encode_frame" where
  "frame_encode FrPadding = default_encode"
| "frame_encode FrPing = default_encode"
| "frame_encode (FrAck f) = ack_encode f"
| "frame_encode (FrClose f) = close_encode f"
| "frame_encode (FrNewToken f) = new_token_encode f"
| "frame_encode (FrMaxData f) = max_data_encode f"
| "frame_encode (FrDataBlocked f) = data_blocked_encode f"
| "frame_encode (FrNewConnectionId f) = new_connection_id_encode f"
| "frame_encode (FrRetireConnectionId f) = retire_connection_id_encode f"
| "frame_encode FrHandshakeDone = default_encode"
| "frame_encode (FrChallenge f) = path_challenge_encode f"
| "frame_encode (FrResponse f) = path_response_encode f"
| "frame_encode (FrStreamCtl f) = ctl_encode f"
| "frame_encode (FrStream f data) = stream_encode f"
| "frame_encode (FrCrypto f data) = crypto_encode f"
| "frame_encode (FrDatagram f data) = datagram_encode f"

subsection \<open>The sizes are right\<close>

fun frame_data :: "frame \<Rightarrow> byte list" where
  "frame_data (FrStream f data) = data"
| "frame_data (FrCrypto f data) = data"
| "frame_data (FrDatagram f data) = data"
| "frame_data _ = []"

text \<open>What the comments at the size functions assume: tokens are short, reasons are below 16 KB.\<close>

definition small_fields :: "frame \<Rightarrow> bool" where
  "small_fields f \<longleftrightarrow>
     (case f of FrNewToken t \<Rightarrow> length (nt_token t) < 2 ^ 6 | FrClose c \<Rightarrow> length (close_reason c) < 2 ^ 14 | _ \<Rightarrow> True)"

lemma length_venc: "length (venc v) = varint_len (into_inner v)"
  by (simp add: venc_def varint_class_def varint_len_def)

lemma encoding_size_venc: "varint_ok v \<Longrightarrow> encoding_size v = Ret (length (venc v))"
  using encoding_size_len [of "into_inner v"] by (simp add: length_venc varint_ok_def)

lemma sid_encoding_size_senc: "sid_ok s \<Longrightarrow> sid_encoding_size s = Ret (length (senc s))"
  by (simp add: sid_encoding_size_def varint_of_sid_def from_u64_def sid_ok_def senc_def encoding_size_len length_venc)

lemma len_size_venc: "n < 2 ^ 62 \<Longrightarrow> len_size n = Ret (length (venc (VarInt n)))"
  by (simp add: len_size_def from_u64_def encoding_size_len length_venc)

lemma venc_bounds: "length (venc v) \<le> 8" "length (senc s) \<le> 8" "n < 2 ^ 6 \<Longrightarrow> length (venc (VarInt n)) = 1"
  "n < 2 ^ 14 \<Longrightarrow> length (venc (VarInt n)) \<le> 2"
  by (simp_all add: senc_def length_venc varint_len_def)

lemma venc_sums:
  "length (venc v) + length (venc w) \<le> 16" "length (senc s) + length (venc w) \<le> 16"
  "length (venc u) + (length (venc v) + length (venc w)) \<le> 24"
  "length (senc s) + (length (venc v) + length (venc w)) \<le> 24"
  using venc_bounds(1) [of u] venc_bounds(1) [of v] venc_bounds(1) [of w] venc_bounds(2) [of s] by linarith+

lemma sum_run_map:
  "list_all (\<lambda>(gap, ack). varint_ok gap \<and> varint_ok ack) rs \<Longrightarrow>
     sum_run (map (\<lambda>(gap, ack). sum_run [encoding_size gap, encoding_size ack]) rs) = Ret (length (ack_range_bytes rs)) \<and>
     length (ack_range_bytes rs) \<le> length rs * 16"
proof (induction rs)
  case (Cons r rs)
  then show ?case
    using venc_bounds(1) [of "fst r"] venc_bounds(1) [of "snd r"]
    by (cases r) (simp add: ack_range_bytes_def encoding_size_venc)
qed (simp add: ack_range_bytes_def)

lemmas size_facts = encoding_size_venc sid_encoding_size_senc len_size_venc varint_ok_codes

definition sized :: "frame \<Rightarrow> bool" where
  "sized f \<longleftrightarrow> frame_encoding_size (frame_encode f) = Ret (length (frame_bytes f) - length (frame_data f)) \<and>
    length (frame_bytes f) - length (frame_data f) \<le> max_encoding_size (frame_encode f)"

lemma sizedI:
  assumes "frame_encoding_size (frame_encode f) = Ret n" "length (frame_body f) + 1 = n + length (frame_data f)"
    "n \<le> max_encoding_size (frame_encode f)"
  shows "sized f"
  using assms by (simp add: sized_def frame_bytes_def)

lemma ctl_sized: "ctl_ok c \<Longrightarrow> sized (FrStreamCtl c)"
proof -
  assume ok: "ctl_ok c"
  have m: "varint_ok (VarInt v)" if "v \<le> MAX_STREAMS_LIMIT" for v using that by (simp add: varint_ok_def MAX_STREAMS_LIMIT_def)
  show ?thesis
    by (rule sizedI [where n = "Suc (length (ctl_body c))"]; use ok m in \<open>cases c rule: ctl_ok.cases\<close>)
      (simp_all add: size_facts reset_stream_encode_def stop_sending_encode_def max_stream_data_encode_def
        stream_data_blocked_encode_def varint_ok_def MAX_STREAMS_LIMIT_def venc_bounds venc_sums)
qed

lemma ack_sized: "frame_ok (FrAck f) \<Longrightarrow> sized (FrAck f)"
proof -
  assume ok: "frame_ok (FrAck f)"
  let ?r = "ack_range_bytes (ack_ranges f)"
  have r: "sum_run (map (\<lambda>(gap, ack). sum_run [encoding_size gap, encoding_size ack]) (ack_ranges f)) = Ret (length ?r)"
    "length ?r \<le> length (ack_ranges f) * 16" using sum_run_map [of "ack_ranges f"] ok by simp_all
  have e: "(case ack_ecn f of Some e \<Rightarrow> ecn_encoding_size e | None \<Rightarrow> Ret 0) = Ret (length (ecn_bytes (ack_ecn f)))"
    "length (ecn_bytes (ack_ecn f)) \<le> (if ack_ecn f \<noteq> None then 24 else 0)"
    using ok by (cases "ack_ecn f"; simp add: ecn_encoding_size_def ecn_bytes_def ecn_ok_def size_facts venc_sums)+
  have b: "length (venc (ack_largest f)) \<le> 8" "length (venc (ack_delay f)) \<le> 8" "length (venc (VarInt (length (ack_ranges f)))) \<le> 8"
    "length (venc (ack_first_range f)) \<le> 8" by (rule venc_bounds(1))+
  show ?thesis
    by (rule sizedI [where n = "Suc (length (frame_body (FrAck f)))"])
      (use ok r e b in \<open>simp_all add: ack_encode_def size_facts\<close>)
qed

lemma close_sized: "close_ok c \<Longrightarrow> length (close_reason c) < 2 ^ 14 \<Longrightarrow> sized (FrClose c)"
proof -
  assume ok: "close_ok c" and small: "length (close_reason c) < 2 ^ 14"
  have r: "length (venc (VarInt (length (close_reason c)))) \<le> 2" "length (close_reason c) < 2 ^ 62"
    using small venc_bounds(4) by auto
  show ?thesis
  proof (cases c)
    case (AppClose code reason)
    then show ?thesis using ok r venc_bounds(1) [of code]
      by (intro sizedI [where n = "Suc (length (frame_body (FrClose c)))"]) (simp_all add: size_facts)
  next
    case (QuicClose kind fty reason)
    then obtain ft where ft: "fty = ErrV1 ft" "frame_type_ok ft" using ok by (cases fty) auto
    have "into_inner (varint_of_frame_type ft) < 2 ^ 6" by (rule frame_code_small [OF ft(2)])
    then have "length (venc (varint_of_frame_type ft)) = 1" by (simp add: length_venc varint_len_def)
    then show ?thesis using QuicClose ft ok r venc_bounds(1) [of "varint_of_error_kind kind"]
      by (intro sizedI [where n = "Suc (length (frame_body (FrClose c)))"]) (simp_all add: size_facts)
  qed
qed

lemma stream_sized: "stream_ok f data \<Longrightarrow> sized (FrStream f data)"
proof -
  assume ok: "stream_ok f data"
  have v: "varint_ok (sf_offset f)" "varint_ok (VarInt (sf_length f))" "sid_ok (sf_id f)"
    using ok by (simp_all add: stream_ok_def varint_ok_def VARINT_MAX_def)
  then have l: "sf_length f < 4611686018427387904" by (simp add: varint_ok_def)
  have b: "length (venc (sf_offset f)) \<le> 8" "length (senc (sf_id f)) \<le> 8" "length (venc (VarInt (sf_length f))) \<le> 8"
    by (rule venc_bounds)+
  have "sf_encoding_size f = Ret (Suc (length (stream_head f)))"
    using v l by (simp add: sf_encoding_size_def stream_head_def size_facts from_u64_def)
  then show ?thesis using b
    by (intro sizedI [where n = "Suc (length (stream_head f))"])
      (simp_all add: stream_encode_def stream_head_def STREAM_FRAME_MAX_ENCODING_SIZE_def)
qed

lemma frame_sized:
  assumes ok: "frame_ok f" and small: "small_fields f"
  shows "sized f"
proof (cases f)
  case (FrNewConnectionId nc)
  then have "varint_ok (nc_retire_prior_to nc)" "length (cid_bytes (nc_id nc)) \<le> 20" using ok by (auto simp: varint_ok_def cid_ok_def MAX_CID_SIZE_def)
  then show ?thesis
    using ok FrNewConnectionId venc_bounds(1) [of "nc_sequence nc"] venc_bounds(1) [of "nc_retire_prior_to nc"]
    by (intro sizedI [where n = "Suc (length (frame_body f))"]) (simp_all add: new_connection_id_encode_def size_facts)
next
  case (FrCrypto cf data)
  then have "varint_ok (cf_offset cf)" using ok by (simp add: varint_ok_def VARINT_MAX_def)
  then show ?thesis using ok FrCrypto
    by (intro sizedI [where n = "Suc (length (frame_body f)) - length data"]) (simp_all add: crypto_encode_def size_facts venc_sums)
next
  case (FrDatagram d data)
  then show ?thesis using ok venc_bounds(1) [of "dg_len d"]
    by (intro sizedI [where n = "Suc (length (frame_body f)) - length data"]) (simp_all add: datagram_encode_def size_facts)
next
  case (FrNewToken t)
  then show ?thesis using ok small
    by (intro sizedI [where n = "Suc (length (frame_body f))"]) (simp_all add: new_token_encode_def small_fields_def venc_bounds(3))
next
  case (FrClose c)
  then show ?thesis using close_sized ok small by (simp add: small_fields_def)
next
  case (FrStreamCtl c)
  then show ?thesis using ctl_sized ok by simp
next
  case (FrStream sf data)
  then show ?thesis using stream_sized ok by simp
next
  case (FrAck a)
  then show ?thesis using ack_sized ok by simp
qed (use ok in \<open>simp_all add: sized_def frame_bytes_def default_encode_def max_data_encode_def data_blocked_encode_def
      retire_connection_id_encode_def path_challenge_encode_def path_response_encode_def size_facts venc_bounds\<close>)

text \<open>C23: The sizes the packet assembler relies on are right: for every well-formed frame (NEW\_TOKEN tokens below
64 bytes, close reasons below 16 KB) the writer appends exactly \<open>encoding_size\<close> bytes besides the data it
carries, and never more than \<open>max_encoding_size\<close>.\<close>

theorem frame_sizes_exact:
  assumes "bufmut_ok B" "frame_ok f" "reason_kept rem lossy buf f" "small_fields f"
  shows "\<exists>n enc. frame_encoding_size (frame_encode f) = Ret n \<and> n \<le> max_encoding_size (frame_encode f) \<and>
    put_frame B rem f buf = Ret (buf @ enc) \<and> length enc = n + length (frame_data f)"
proof -
  have le: "length (frame_data f) \<le> length (frame_bytes f)" by (cases f rule: frame_data.cases) (simp_all add: frame_bytes_def)
  show ?thesis
    using put_frame_bytes [OF assms(1-3)] frame_sized [OF assms(2,4)] le by (auto simp: sized_def)
qed

theorem frame_sizes_exact_witness:
  "\<exists>n enc. frame_encoding_size (frame_encode (FrNewToken (NewTokenFrame [1, 2, 3]))) = Ret n \<and>
     put_frame bufmut_ref (\<lambda>_. 0) (FrNewToken (NewTokenFrame [1, 2, 3])) [9] = Ret ([9] @ enc) \<and> n = 5 \<and> length enc = 5"
  using frame_sizes_exact [OF bufmut_ok_ref, of "FrNewToken (NewTokenFrame [1, 2, 3])" "\<lambda>_. 0" "\<lambda>x. x" "[9]"]
  by (auto simp: reason_kept_def small_fields_def new_token_encode_def)

text \<open>\<open>NewTokenFrame::encoding_size\<close> and its maximum are one byte short for a token of 64 bytes: the writer
needs two bytes for the length, so it writes 67 bytes where the frame announced 66.\<close>

theorem new_token_size_too_small:
  "max_encoding_size (frame_encode (FrNewToken (NewTokenFrame (replicate 64 0)))) = 66 \<and>
   (\<exists>enc. put_frame bufmut_ref (\<lambda>_. 0) (FrNewToken (NewTokenFrame (replicate 64 0))) [] = Ret enc \<and> length enc = 67)"
proof -
  have "put_frame bufmut_ref (\<lambda>_. 0) (FrNewToken (NewTokenFrame (replicate 64 0))) [] =
      Ret ([] @ frame_bytes (FrNewToken (NewTokenFrame (replicate 64 0))))"
    by (rule put_frame_bytes [OF bufmut_ok_ref]) (simp_all add: reason_kept_def)
  then show ?thesis by (simp add: new_token_encode_def frame_bytes_def length_venc varint_len_def)
qed

end
