(* ===== verification/Flow.thy ===== *)
theory Flow
  imports Frames Peer_Limits
begin

section \<open>Connection flow control: qbase/src/flow.rs\<close>

text \<open>
  The sending controller keeps \<open>sent_data\<close> below the limit the peer announced; sending tasks take credits
  from it, report what they sent and give the rest back when the credit is dropped. The receiving controller
  counts new data against the limit it announced and announces more. The broker (frames to send) is the list
  of the frames handed to it, the wakers are the number of times they were woken for flow control; the mutex
  makes every call one step. The last part composes a sender, any number of outstanding credits, a network
  that loses, repeats and reorders MAX\_DATA frames, and a receiver.
\<close>

subsection \<open>The sending direction\<close>

record send_controler =
  sc_sent_data :: nat
  sc_max_data :: nat
  sc_blocking :: bool
  sc_broker :: "data_blocked_frame list"
  sc_wakes :: nat

definition sc_new :: "nat \<Rightarrow> send_controler" where
  "sc_new initial_max_data =
     \<lparr>sc_sent_data = 0, sc_max_data = initial_max_data, sc_blocking = False, sc_broker = [], sc_wakes = 0\<rparr>"

definition sc_increase_limit :: "send_controler \<Rightarrow> nat \<Rightarrow> send_controler" where
  "sc_increase_limit c max_data =
     (if sc_max_data c < max_data
      then c\<lparr>sc_max_data := max_data, sc_blocking := False, sc_wakes := Suc (sc_wakes c)\<rparr>
      else c)"

type_synonym arc_send_controler = "conn_error + send_controler"

definition asc_new :: "nat \<Rightarrow> arc_send_controler" where
  "asc_new initial_max_data = Inr (sc_new initial_max_data)"

definition asc_increase_limit :: "arc_send_controler \<Rightarrow> nat \<Rightarrow> arc_send_controler" where
  "asc_increase_limit a max_data =
     (case a of Inl e \<Rightarrow> Inl e | Inr c \<Rightarrow> Inr (sc_increase_limit c max_data))"

text \<open>A \<open>Credit\<close> is the amount it has available; the controller it borrows is passed alongside.\<close>

definition credit :: "arc_send_controler \<Rightarrow> nat \<Rightarrow> (arc_send_controler \<times> (conn_error + nat)) run" where
  "credit a quota =
     (case a of
        Inl e \<Rightarrow> Ret (a, Inl e)
      | Inr c \<Rightarrow>
          bind_run (sub64 (sc_max_data c) (sc_sent_data c)) (\<lambda>window.
          let available = min window quota
          in bind_run (add64 (sc_sent_data c) available) (\<lambda>sent.
             let c = c\<lparr>sc_sent_data := sent\<rparr>
             in if sent = sc_max_data c \<and> \<not> sc_blocking c
                then bind_run (unwrap_result (from_u64 (sc_max_data c))) (\<lambda>v.
                       Ret (Inr (c\<lparr>sc_blocking := True, sc_broker := sc_broker c @ [DataBlockedFrame v]\<rparr>), Inr available))
                else Ret (Inr c, Inr available))))"

definition asc_on_error :: "arc_send_controler \<Rightarrow> conn_error \<Rightarrow> arc_send_controler" where
  "asc_on_error a e = (case a of Inl e' \<Rightarrow> Inl e' | Inr _ \<Rightarrow> Inl e)"

definition asc_recv_max_data :: "arc_send_controler \<Rightarrow> max_data_frame \<Rightarrow> arc_send_controler" where
  "asc_recv_max_data a frame = asc_increase_limit a (into_inner (md_max_data frame))"

definition post_sent :: "nat \<Rightarrow> nat \<Rightarrow> nat run" where
  "post_sent available amount = sub64 available amount"

definition credit_drop :: "arc_send_controler \<Rightarrow> nat \<Rightarrow> arc_send_controler run" where
  "credit_drop a available =
     (case a of
        Inl e \<Rightarrow> Ret (Inl e)
      | Inr c \<Rightarrow>
          bind_run (sub64 (sc_sent_data c) available) (\<lambda>sent.
          let c = c\<lparr>sc_sent_data := sent\<rparr>
          in Ret (Inr (if 0 < available then c\<lparr>sc_wakes := Suc (sc_wakes c)\<rparr> else c))))"

subsection \<open>The receiving direction\<close>

record recv_controller =
  rc_rcvd_data :: nat
  rc_max_data :: nat
  rc_step :: nat
  rc_broker :: "max_data_frame list"

definition rc_new :: "nat \<Rightarrow> recv_controller" where
  "rc_new initial_max_data =
     \<lparr>rc_rcvd_data = 0, rc_max_data = initial_max_data, rc_step = initial_max_data div 2, rc_broker = []\<rparr>"

definition on_new_rcvd :: "recv_controller \<Rightarrow> frame_type \<Rightarrow> nat \<Rightarrow> (recv_controller \<times> (quic_error + nat)) run" where
  "on_new_rcvd c frame_type amount =
     bind_run (add64 (rc_rcvd_data c) amount) (\<lambda>rcvd.
     let c = c\<lparr>rc_rcvd_data := rcvd\<rparr>
     in if rcvd \<le> rc_max_data c
        then bind_run (add64 rcvd (rc_step c)) (\<lambda>next.
               if rc_max_data c \<le> next
               then bind_run (add64 (rc_max_data c) (rc_step c)) (\<lambda>limit.
                    bind_run (unwrap_result (from_u64 limit)) (\<lambda>v.
                      Ret (c\<lparr>rc_max_data := limit, rc_broker := rc_broker c @ [MaxDataFrame v]\<rparr>, Inr amount)))
               else Ret (c, Inr amount))
        else Ret (c, Inl (QuicError FlowControl (ErrV1 frame_type))))"

definition rc_recv_data_blocked :: "recv_controller \<Rightarrow> data_blocked_frame \<Rightarrow> recv_controller" where
  "rc_recv_data_blocked c frame = c"

subsection \<open>Both directions\<close>

record flow_controller =
  fc_sender :: arc_send_controler
  fc_recver :: recv_controller

definition fc_new :: "nat \<Rightarrow> nat \<Rightarrow> flow_controller" where
  "fc_new peer_initial_max_data local_initial_max_data =
     \<lparr>fc_sender = asc_new peer_initial_max_data, fc_recver = rc_new local_initial_max_data\<rparr>"

definition reset_send_window :: "flow_controller \<Rightarrow> nat \<Rightarrow> flow_controller" where
  "reset_send_window f snd_wnd = f\<lparr>fc_sender := asc_increase_limit (fc_sender f) snd_wnd\<rparr>"

definition send_limit :: "flow_controller \<Rightarrow> nat \<Rightarrow> (flow_controller \<times> (conn_error + nat)) run" where
  "send_limit f quota = bind_run (credit (fc_sender f) quota) (\<lambda>(a, r). Ret (f\<lparr>fc_sender := a\<rparr>, r))"

definition fc_on_conn_error :: "flow_controller \<Rightarrow> conn_error \<Rightarrow> flow_controller" where
  "fc_on_conn_error f e = f\<lparr>fc_sender := asc_on_error (fc_sender f) e\<rparr>"

definition fc_on_new_rcvd :: "flow_controller \<Rightarrow> frame_type \<Rightarrow> nat \<Rightarrow> (flow_controller \<times> (quic_error + nat)) run" where
  "fc_on_new_rcvd f frame_type amount =
     bind_run (on_new_rcvd (fc_recver f) frame_type amount) (\<lambda>(c, r). Ret (f\<lparr>fc_recver := c\<rparr>, r))"

subsection \<open>The limit of the sender\<close>

interpretation sc_limit: raised_limit "\<lambda>_. True" sc_max_data "\<lambda>c n. Ret (sc_increase_limit c n)"
  by unfold_locales (simp add: sc_increase_limit_def)

subsection \<open>A sender, a network and a receiver\<close>

text \<open>
  \<open>credits\<close> are the credits that are alive, \<open>used\<close> is the new data their holders have sent so far; the
  receiver is told of any part of it that it has not counted yet.
\<close>

record flow_link =
  snd_ctrl :: arc_send_controler
  credits :: "nat list"
  used :: nat
  rcv_ctrl :: recv_controller

inductive link_step :: "flow_link \<Rightarrow> flow_link \<Rightarrow> bool" where
  take_credit: "credit (snd_ctrl s) quota = Ret (a, Inr n) \<Longrightarrow>
    link_step s (s\<lparr>snd_ctrl := a, credits := n # credits s\<rparr>)"
| refuse_credit: "credit (snd_ctrl s) quota = Ret (a, Inl e) \<Longrightarrow> link_step s (s\<lparr>snd_ctrl := a\<rparr>)"
| send_data: "i < length (credits s) \<Longrightarrow> post_sent (credits s ! i) amount = Ret n \<Longrightarrow>
    link_step s (s\<lparr>credits := (credits s)[i := n], used := used s + amount\<rparr>)"
| drop_credit: "i < length (credits s) \<Longrightarrow> credit_drop (snd_ctrl s) (credits s ! i) = Ret a \<Longrightarrow>
    link_step s (s\<lparr>snd_ctrl := a, credits := drain_range i (Suc i) (credits s)\<rparr>)"
| max_data_arrives: "f \<in> set (rc_broker (rcv_ctrl s)) \<Longrightarrow>
    link_step s (s\<lparr>snd_ctrl := asc_recv_max_data (snd_ctrl s) f\<rparr>)"
| connection_error: "link_step s (s\<lparr>snd_ctrl := asc_on_error (snd_ctrl s) e\<rparr>)"
| data_arrives: "rc_rcvd_data (rcv_ctrl s) + amount \<le> used s \<Longrightarrow>
    on_new_rcvd (rcv_ctrl s) ft amount = Ret (c, r) \<Longrightarrow> link_step s (s\<lparr>rcv_ctrl := c\<rparr>)"

inductive link_reach :: "nat \<Rightarrow> flow_link \<Rightarrow> bool" for window where
  start: "known \<le> window \<Longrightarrow>
    link_reach window \<lparr>snd_ctrl = asc_new known, credits = [], used = 0, rcv_ctrl = rc_new window\<rparr>"
| parameters: "link_reach window s \<Longrightarrow> link_reach window (s\<lparr>snd_ctrl := asc_increase_limit (snd_ctrl s) window\<rparr>)"
| step: "link_reach window s \<Longrightarrow> link_step s s' \<Longrightarrow> link_reach window s'"

definition link_inv :: "nat \<Rightarrow> flow_link \<Rightarrow> bool" where
  "link_inv window s \<longleftrightarrow>
     window \<le> rc_max_data (rcv_ctrl s) \<and> rc_max_data (rcv_ctrl s) < 2 ^ 62 \<and>
     (\<forall>f \<in> set (rc_broker (rcv_ctrl s)). into_inner (md_max_data f) \<le> rc_max_data (rcv_ctrl s)) \<and>
     rc_rcvd_data (rcv_ctrl s) \<le> used s \<and>
     used s + sum_list (credits s) \<le> rc_max_data (rcv_ctrl s) \<and>
     rc_rcvd_data (rcv_ctrl s) + rc_step (rcv_ctrl s) \<le> rc_max_data (rcv_ctrl s) \<and>
     (\<forall>c. snd_ctrl s = Inr c \<longrightarrow>
        sc_sent_data c = used s + sum_list (credits s) \<and> sc_sent_data c \<le> sc_max_data c \<and>
        sc_max_data c \<le> rc_max_data (rcv_ctrl s))"

lemma credit_result:
  assumes "sc_sent_data c \<le> sc_max_data c" "sc_max_data c < 2 ^ 62"
  shows "\<exists>c'. credit (Inr c) quota = Ret (Inr c', Inr (min (sc_max_data c - sc_sent_data c) quota)) \<and>
    sc_sent_data c' = sc_sent_data c + min (sc_max_data c - sc_sent_data c) quota \<and> sc_max_data c' = sc_max_data c"
proof -
  let ?n = "min (sc_max_data c - sc_sent_data c) quota"
  have "sc_sent_data c + ?n < u64_bound" using assms by simp
  then show ?thesis
    using assms by (simp add: credit_def sub64_ok add64_ok from_u64_def Let_def)
qed

lemma credit_drop_result:
  assumes "n \<le> sc_sent_data c"
  shows "\<exists>c'. credit_drop (Inr c) n = Ret (Inr c') \<and> sc_sent_data c' = sc_sent_data c - n \<and> sc_max_data c' = sc_max_data c"
  using assms by (simp add: credit_drop_def sub64_ok Let_def)

lemma on_new_rcvd_result:
  assumes "on_new_rcvd c ft amount = Ret (c', r)" "rc_rcvd_data c + amount \<le> rc_max_data c" "rc_max_data c < 2 ^ 62"
  shows "r = Inr amount" and "rc_rcvd_data c' = rc_rcvd_data c + amount" and "rc_step c' = rc_step c"
    and "rc_max_data c \<le> rc_max_data c'" and "rc_max_data c' < 2 ^ 62"
    and "\<And>f. f \<in> set (rc_broker c') \<Longrightarrow> f \<in> set (rc_broker c) \<or> into_inner (md_max_data f) = rc_max_data c'"
    and "rc_rcvd_data c' + rc_step c' \<le> rc_max_data c'"
  using assms by (auto simp: on_new_rcvd_def Let_def run_simps from_u64_def unwrap_result_def split: if_splits)

lemma sum_list_drain: "i < length xs \<Longrightarrow> sum_list (drain_range i (Suc i) xs) + xs ! i = (sum_list xs :: nat)"
proof -
  assume "i < length xs"
  then have "sum_list xs = sum_list (take i xs @ xs ! i # drop (Suc i) xs)" by (simp add: id_take_nth_drop [symmetric])
  then show ?thesis by (simp add: drain_range_def)
qed

lemma sum_list_replace: "i < length xs \<Longrightarrow> sum_list (xs[i := n]) + xs ! i = (sum_list xs + n :: nat)"
  using sum_list_update [of i xs n] member_le_sum_list [of "xs ! i" xs] by simp

lemma link_inv_start:
  "known \<le> window \<Longrightarrow> window < 2 ^ 62 \<Longrightarrow>
     link_inv window \<lparr>snd_ctrl = asc_new known, credits = [], used = 0, rcv_ctrl = rc_new window\<rparr>"
  by (simp add: link_inv_def asc_new_def sc_new_def rc_new_def)

lemma link_inv_raise:
  assumes "link_inv window s" "n \<le> rc_max_data (rcv_ctrl s)"
  shows "link_inv window (s\<lparr>snd_ctrl := asc_increase_limit (snd_ctrl s) n\<rparr>)"
  using assms by (cases "snd_ctrl s") (auto simp: link_inv_def asc_increase_limit_def sc_increase_limit_def)

lemma link_inv_step:
  assumes "link_inv window s" "link_step s s'"
  shows "link_inv window s'"
  using assms(2,1)
proof (induction rule: link_step.induct)
  case (take_credit s quota a n)
  then obtain c where c: "snd_ctrl s = Inr c" by (cases "snd_ctrl s") (auto simp: credit_def)
  have b: "sc_sent_data c \<le> sc_max_data c" "sc_max_data c < 2 ^ 62" using take_credit(2) c by (auto simp: link_inv_def)
  show ?case using take_credit credit_result [OF b, of quota] c by (auto simp: link_inv_def)
next
  case (refuse_credit s quota a e)
  then have "a = snd_ctrl s"
    by (cases "snd_ctrl s") (auto simp: credit_def run_simps Let_def split: if_splits)
  then show ?case using refuse_credit by simp
next
  case (send_data i s amount n)
  then have "credits s ! i = n + amount" by (simp add: post_sent_def run_simps)
  then have "used s + amount + sum_list ((credits s)[i := n]) = used s + sum_list (credits s)"
    using sum_list_replace [OF send_data(1), of n] by simp
  then show ?case using send_data(3) by (auto simp: link_inv_def)
next
  case (drop_credit i s a)
  note sum = sum_list_drain [OF drop_credit(1)]
  show ?case
  proof (cases "snd_ctrl s")
    case (Inr c)
    then have "credits s ! i \<le> sc_sent_data c" using drop_credit(3) sum by (simp add: link_inv_def)
    from credit_drop_result [OF this] show ?thesis using drop_credit Inr sum by (auto simp: link_inv_def)
  qed (use drop_credit sum in \<open>auto simp: link_inv_def credit_drop_def\<close>)
next
  case (max_data_arrives f s)
  then show ?case unfolding asc_recv_max_data_def by (intro link_inv_raise) (auto simp: link_inv_def)
next
  case (connection_error s e)
  then show ?case by (auto simp: link_inv_def asc_on_error_def split: sum.splits)
next
  case (data_arrives s amount ft c r)
  have "rc_rcvd_data (rcv_ctrl s) + amount \<le> rc_max_data (rcv_ctrl s)" "rc_max_data (rcv_ctrl s) < 2 ^ 62"
    using data_arrives(1,3) by (auto simp: link_inv_def)
  note r = on_new_rcvd_result [OF data_arrives(2) this]
  show ?case using data_arrives(1,3) r(2-5,7) r(6) unfolding link_inv_def by fastforce
qed

lemma link_reach_inv: "link_reach window s \<Longrightarrow> window < 2 ^ 62 \<Longrightarrow> link_inv window s"
proof (induction rule: link_reach.induct)
  case (parameters s)
  then show ?case by (intro link_inv_raise) (auto simp: link_inv_def)
qed (auto intro: link_inv_start link_inv_step)

text \<open>C14: Flow control is safe end to end. In every state a sender, its live credits, an arbitrary network for
MAX\_DATA frames and a receiver can reach from a common initial window: taking a credit and dropping any live
credit return without underflow; the data sent and the credits alive stay within what the receiver
has announced; and no new data the sender sent, counted in any portions, is refused by the receiver.\<close>

theorem flow_control_safe:
  assumes "link_reach window s" "window < 2 ^ 62"
  shows "returns (credit (snd_ctrl s) quota) \<and>
    list_all (\<lambda>n. returns (credit_drop (snd_ctrl s) n)) (credits s) \<and>
    used s + sum_list (credits s) \<le> rc_max_data (rcv_ctrl s) \<and>
    (rc_rcvd_data (rcv_ctrl s) + amount \<le> used s \<longrightarrow>
       (case on_new_rcvd (rcv_ctrl s) ft amount of
          Panic \<Rightarrow> 2 ^ 62 \<le> rc_max_data (rcv_ctrl s) + rc_step (rcv_ctrl s)
        | Ret (c, r) \<Rightarrow> r = Inr amount))"
proof (intro conjI impI)
  note inv = link_reach_inv [OF assms]
  show "returns (credit (snd_ctrl s) quota)"
  proof (cases "snd_ctrl s")
    case (Inr c)
    then have "sc_sent_data c \<le> sc_max_data c" "sc_max_data c < 2 ^ 62" using inv by (auto simp: link_inv_def)
    from credit_result [OF this, of quota] show ?thesis using Inr by (auto simp: returns_def)
  qed (simp add: credit_def)
  show "list_all (\<lambda>n. returns (credit_drop (snd_ctrl s) n)) (credits s)"
  proof (cases "snd_ctrl s")
    case (Inr c)
    have "returns (credit_drop (Inr c) n)" if "n \<in> set (credits s)" for n
    proof -
      have "n \<le> sc_sent_data c" using inv Inr member_le_sum_list [OF that] by (simp add: link_inv_def)
      from credit_drop_result [OF this] show ?thesis by (auto simp: returns_def)
    qed
    then show ?thesis using Inr by (simp add: list_all_iff)
  qed (simp add: credit_drop_def list_all_iff)
  show "used s + sum_list (credits s) \<le> rc_max_data (rcv_ctrl s)" using inv by (simp add: link_inv_def)
  assume a: "rc_rcvd_data (rcv_ctrl s) + amount \<le> used s"
  then have b: "rc_rcvd_data (rcv_ctrl s) + amount \<le> rc_max_data (rcv_ctrl s)" "rc_max_data (rcv_ctrl s) < 2 ^ 62"
    using inv by (auto simp: link_inv_def)
  show "case on_new_rcvd (rcv_ctrl s) ft amount of
          Panic \<Rightarrow> 2 ^ 62 \<le> rc_max_data (rcv_ctrl s) + rc_step (rcv_ctrl s)
        | Ret (c, r) \<Rightarrow> r = Inr amount"
  proof (cases "on_new_rcvd (rcv_ctrl s) ft amount")
    case Panic
    then show ?thesis using b by (auto simp: on_new_rcvd_def Let_def run_simps add64_def from_u64_def split: if_splits)
  qed (use on_new_rcvd_result(1) b in auto)
qed

theorem flow_control_safe_witness:
  "\<exists>s. link_reach 10 s \<and> credits s = [3] \<and> used s = 4 \<and>
     on_new_rcvd (rcv_ctrl s) Padding 4 =
       Ret (\<lparr>rc_rcvd_data = 4, rc_max_data = 10, rc_step = 5, rc_broker = []\<rparr>, Inr 4)"
proof -
  let ?s0 = "\<lparr>snd_ctrl = asc_new 10, credits = [], used = 0, rcv_ctrl = rc_new 10\<rparr>"
  let ?c = "Inr \<lparr>sc_sent_data = 7, sc_max_data = 10, sc_blocking = False, sc_broker = [], sc_wakes = 0\<rparr> :: arc_send_controler"
  let ?s1 = "\<lparr>snd_ctrl = ?c, credits = [7], used = 0, rcv_ctrl = rc_new 10\<rparr>"
  let ?s2 = "\<lparr>snd_ctrl = ?c, credits = [3], used = 4, rcv_ctrl = rc_new 10\<rparr>"
  have "link_reach 10 ?s0" by (rule start) simp
  moreover have "link_step ?s0 ?s1"
    using take_credit [of ?s0 7 ?c 7] by (simp add: credit_def asc_new_def sc_new_def sub64_def add64_def)
  moreover have "link_step ?s1 ?s2" using send_data [of 0 ?s1 4 3] by (simp add: post_sent_def sub64_def)
  ultimately have "link_reach 10 ?s2" by (blast intro: link_reach.step)
  with flow_control_safe [of 10 ?s2 1 4 Padding] show ?thesis
    by (intro exI [of _ ?s2]) (simp add: on_new_rcvd_def rc_new_def add64_def)
qed

lemma on_new_rcvd_step: "on_new_rcvd c ft amount = Ret (c', r) \<Longrightarrow> rc_step c' = rc_step c"
  by (auto simp: on_new_rcvd_def Let_def run_simps split: if_splits)

lemma link_step_window: "link_step s s' \<Longrightarrow> rc_step (rcv_ctrl s') = rc_step (rcv_ctrl s)"
  by (induction rule: link_step.induct) (auto dest: on_new_rcvd_step)

lemma link_reach_window: "link_reach window s \<Longrightarrow> rc_step (rcv_ctrl s) = window div 2"
  by (induction rule: link_reach.induct) (auto simp: rc_new_def dest: link_step_window)

text \<open>C15: Flow control does not deadlock. In every state the window the receiver leaves open is at least half the initial
window, so once the last MAX\_DATA frame has arrived, everything sent has been counted and no credit is
outstanding, the sender of a connection without error is granted half the initial window, or all it asks for if that is less.\<close>

theorem flow_control_live:
  assumes "link_reach window s" "window < 2 ^ 62"
  shows "rc_rcvd_data (rcv_ctrl s) + window div 2 \<le> rc_max_data (rcv_ctrl s) \<and>
    (snd_ctrl s = Inr c \<and> credits s = [] \<and> sc_max_data c = rc_max_data (rcv_ctrl s) \<and> rc_rcvd_data (rcv_ctrl s) = used s \<longrightarrow>
       (\<exists>a n. credit (snd_ctrl s) quota = Ret (a, Inr n) \<and> min (window div 2) quota \<le> n))"
proof (intro conjI impI)
  have inv: "link_inv window s" by (rule link_reach_inv [OF assms])
  note w = link_reach_window [OF assms(1)]
  show "rc_rcvd_data (rcv_ctrl s) + window div 2 \<le> rc_max_data (rcv_ctrl s)" using inv w by (simp add: link_inv_def)
  assume idle: "snd_ctrl s = Inr c \<and> credits s = [] \<and> sc_max_data c = rc_max_data (rcv_ctrl s) \<and> rc_rcvd_data (rcv_ctrl s) = used s"
  then have "sc_sent_data c \<le> sc_max_data c" "sc_max_data c < 2 ^ 62" using inv by (auto simp: link_inv_def)
  from credit_result [OF this, of quota] show "\<exists>a n. credit (snd_ctrl s) quota = Ret (a, Inr n) \<and> min (window div 2) quota \<le> n"
    using inv w idle by (auto simp: link_inv_def)
qed

theorem flow_control_live_witness:
  "\<exists>a n. credit (asc_new 10) 8 = Ret (a, Inr n) \<and> 5 \<le> n"
proof -
  have "link_reach 10 \<lparr>snd_ctrl = asc_new 10, credits = [], used = 0, rcv_ctrl = rc_new 10\<rparr>" by (rule start) simp
  from flow_control_live [OF this, of "sc_new 10" 8] show ?thesis
    by (simp add: asc_new_def sc_new_def rc_new_def)
qed

text \<open>The receiver enforces exactly the limit it announced: new data is accepted if and only if the total
stays within \<open>max_data\<close>, otherwise the error is FLOW\_CONTROL\_ERROR for the frame that carried it; an
accepted amount is added to the total, and a limit is announced at most once per call, always larger by \<open>step\<close>.\<close>

theorem on_new_rcvd_enforces_limit:
  assumes "rc_rcvd_data c + amount < 2 ^ 62" "rc_max_data c + rc_step c < 2 ^ 62"
  shows "\<exists>c'. on_new_rcvd c ft amount =
      Ret (c', if rc_rcvd_data c + amount \<le> rc_max_data c then Inr amount else Inl (QuicError FlowControl (ErrV1 ft))) \<and>
    rc_rcvd_data c' = rc_rcvd_data c + amount \<and>
    (c' = c\<lparr>rc_rcvd_data := rc_rcvd_data c + amount\<rparr> \<or>
     rc_max_data c' = rc_max_data c + rc_step c \<and>
     rc_broker c' = rc_broker c @ [MaxDataFrame (VarInt (rc_max_data c + rc_step c))])"
  using assms by (auto simp: on_new_rcvd_def add64_def from_u64_def Let_def)

theorem on_new_rcvd_enforces_limit_witness:
  "\<exists>c'. on_new_rcvd (rc_new 10) Padding 11 = Ret (c', Inl (QuicError FlowControl (ErrV1 Padding))) \<and> rc_rcvd_data c' = 11"
  using on_new_rcvd_enforces_limit [of "rc_new 10" 11 Padding] by (auto simp: rc_new_def)

end
