(* ===== verification/Stream_Ids.thy ===== *)
theory Stream_Ids
  imports Frames Peer_Limits
begin

section \<open>Allocating and accepting streams: qbase/src/sid/local\_sid.rs, remote\_sid.rs, handy.rs\<close>

text \<open>
  An endpoint opens streams below the limit the peer announced and accepts the peer's streams up to the
  limit it announced itself, which a strategy (\<open>ControlStreamsConcurrency\<close>) raises. The arrays of length
  two indexed by a direction are functions from \<open>dir\<close>. Frames handed to the broker are kept in a list,
  so are the wakers that were woken; a waker is a number.
\<close>

subsection \<open>Streams opened locally\<close>

record local_stream_ids =
  lsi_role :: role
  lsi_max :: "dir \<Rightarrow> nat"
  lsi_unallocated :: "dir \<Rightarrow> nat"
  lsi_wakers :: "dir \<Rightarrow> nat list"
  lsi_blocked :: "streams_blocked_frame list"
  lsi_woken :: "nat list"

definition lsi_new :: "role \<Rightarrow> nat \<Rightarrow> nat \<Rightarrow> local_stream_ids" where
  "lsi_new role max_bi max_uni =
     \<lparr>lsi_role = role, lsi_max = (\<lambda>d. if d = Bi then max_bi else max_uni), lsi_unallocated = (\<lambda>_. 0),
      lsi_wakers = (\<lambda>_. []), lsi_blocked = [], lsi_woken = []\<rparr>"

fun max_streams_parts :: "max_streams_frame \<Rightarrow> dir \<times> nat" where
  "max_streams_parts (MaxStreamsBi v) = (Bi, into_inner v)"
| "max_streams_parts (MaxStreamsUni v) = (Uni, into_inner v)"

definition recv_max_streams_frame :: "local_stream_ids \<Rightarrow> max_streams_frame \<Rightarrow> local_stream_ids run" where
  "recv_max_streams_frame l frame =
     (let (d, val) = max_streams_parts frame
      in assert_run (val \<le> MAX_STREAMS_LIMIT)
           (Ret (if lsi_max l d < val
                 then l\<lparr>lsi_max := (lsi_max l)(d := val), lsi_woken := lsi_woken l @ lsi_wakers l d,
                        lsi_wakers := (lsi_wakers l)(d := [])\<rparr>
                 else l)))"

definition poll_alloc_sid :: "local_stream_ids \<Rightarrow> nat \<Rightarrow> dir \<Rightarrow> (local_stream_ids \<times> stream_id option poll) run" where
  "poll_alloc_sid l waker d =
     (let cur = lsi_unallocated l d
      in if MAX_STREAMS_LIMIT < cur then Ret (l, Ready None)
         else if cur < lsi_max l d
         then bind_run (sid_new (lsi_role l) d cur) (\<lambda>sid.
                Ret (l\<lparr>lsi_unallocated := (lsi_unallocated l)(d := cur + 1)\<rparr>, Ready (Some sid)))
         else bind_run (unwrap_result (from_u64 (lsi_max l d))) (\<lambda>v.
                Ret (l\<lparr>lsi_wakers := (lsi_wakers l)(d := lsi_wakers l d @ [waker]),
                       lsi_blocked := lsi_blocked l @ [streams_blocked_with d v]\<rparr>, Pending)))"

subsection \<open>Strategies\<close>

text \<open>The methods of the trait; they mutate the strategy and may overflow.\<close>

record 'c streams_concurrency =
  on_accept_streams :: "'c \<Rightarrow> dir \<Rightarrow> nat \<Rightarrow> ('c \<times> nat option) run"
  ctrl_on_end_of_stream :: "'c \<Rightarrow> dir \<Rightarrow> nat \<Rightarrow> ('c \<times> nat option) run"
  on_streams_blocked :: "'c \<Rightarrow> dir \<Rightarrow> nat \<Rightarrow> ('c \<times> nat option) run"

definition consistent_new :: "nat \<Rightarrow> nat \<Rightarrow> dir \<Rightarrow> nat" where
  "consistent_new initial_max_bi initial_max_uni = (\<lambda>d. if d = Bi then initial_max_bi else initial_max_uni)"

definition consistent_on_end :: "(dir \<Rightarrow> nat) \<Rightarrow> dir \<Rightarrow> nat \<Rightarrow> ((dir \<Rightarrow> nat) \<times> nat option) run" where
  "consistent_on_end max_streams d sid =
     bind_run (add64 (max_streams d) 1) (\<lambda>new_limit. Ret (max_streams(d := new_limit), Some new_limit))"

definition consistent_concurrency :: "(dir \<Rightarrow> nat) streams_concurrency" where
  "consistent_concurrency =
     \<lparr>on_accept_streams = (\<lambda>c d sid. Ret (c, None)), ctrl_on_end_of_stream = consistent_on_end,
      on_streams_blocked = (\<lambda>c d max_streams. Ret (c, None))\<rparr>"

definition demand_concurrency :: "unit streams_concurrency" where
  "demand_concurrency =
     \<lparr>on_accept_streams = (\<lambda>c d sid. Ret (c, None)), ctrl_on_end_of_stream = (\<lambda>c d sid. Ret (c, None)),
      on_streams_blocked = (\<lambda>c d max_streams. bind_run (add64 max_streams 1) (\<lambda>m. Ret (c, Some m)))\<rparr>"

subsection \<open>Streams opened by the peer\<close>

datatype need_create = NeedCreate (nc_start: stream_id) (nc_end: stream_id)

definition need_create_next :: "need_create \<Rightarrow> (stream_id option \<times> need_create) run" where
  "need_create_next n =
     (if sid_value (nc_end n) < sid_value (nc_start n) then Ret (None, n)
      else bind_run (next_unchecked (nc_start n)) (\<lambda>s. Ret (Some (nc_start n), NeedCreate s (nc_end n))))"

text \<open>A \<open>for\<close> loop over the iterator.\<close>

function need_create_collect :: "need_create \<Rightarrow> stream_id list run" where
  "need_create_collect n =
     (case need_create_next n of
        Panic \<Rightarrow> Panic
      | Ret (None, _) \<Rightarrow> Ret []
      | Ret (Some sid, n') \<Rightarrow> bind_run (need_create_collect n') (\<lambda>sids. Ret (sid # sids)))"
  by pat_completeness auto

termination
  by (relation "measure (\<lambda>n. Suc (sid_value (nc_end n)) - sid_value (nc_start n))")
    (auto simp: need_create_next_def next_unchecked_def run_simps split: if_splits)

declare need_create_collect.simps [simp del]

datatype exceed_limit_error = ExceedLimitError stream_id nat

datatype accept_sid = OldSid | NewSid need_create

record 'c remote_stream_ids =
  rsi_role :: role
  rsi_max :: "dir \<Rightarrow> nat"
  rsi_unallocated :: "dir \<Rightarrow> stream_id"
  rsi_ctrl :: 'c
  rsi_max_tx :: "max_streams_frame list"

definition rsi_new :: "role \<Rightarrow> nat \<Rightarrow> nat \<Rightarrow> 'c \<Rightarrow> 'c remote_stream_ids run" where
  "rsi_new role max_bi max_uni ctrl =
     bind_run (sid_new role Bi 0) (\<lambda>b. bind_run (sid_new role Uni 0) (\<lambda>u.
       Ret \<lparr>rsi_role = role, rsi_max = (\<lambda>d. if d = Bi then max_bi else max_uni),
            rsi_unallocated = (\<lambda>d. if d = Bi then b else u), rsi_ctrl = ctrl, rsi_max_tx = []\<rparr>))"

text \<open>What all three handlers do with the answer of the strategy.\<close>

definition announce :: "'c remote_stream_ids \<Rightarrow> dir \<Rightarrow> 'c \<times> nat option \<Rightarrow> 'c remote_stream_ids run" where
  "announce r d answer =
     (case answer of
        (c, None) \<Rightarrow> Ret (r\<lparr>rsi_ctrl := c\<rparr>)
      | (c, Some max_streams) \<Rightarrow>
          bind_run (unwrap_result (from_u64 max_streams)) (\<lambda>v.
            Ret (r\<lparr>rsi_ctrl := c, rsi_max := (rsi_max r)(d := max_streams),
                   rsi_max_tx := rsi_max_tx r @ [max_streams_with d v]\<rparr>)))"

definition try_accept_sid ::
    "'c streams_concurrency \<Rightarrow> 'c remote_stream_ids \<Rightarrow> stream_id \<Rightarrow>
     ('c remote_stream_ids \<times> (exceed_limit_error + accept_sid)) run" where
  "try_accept_sid ops r sid =
     assert_run (sid_role sid = rsi_role r)
       (let d = sid_dir sid
        in if rsi_max r d < sid_id sid then Ret (r, Inl (ExceedLimitError sid (rsi_max r d)))
           else let cur = rsi_unallocated r d
                in if sid_value sid < sid_value cur then Ret (r, Inr OldSid)
                   else bind_run (next_unchecked sid) (\<lambda>next.
                        bind_run (on_accept_streams ops (rsi_ctrl r) d (sid_id sid)) (\<lambda>answer.
                        bind_run (announce (r\<lparr>rsi_unallocated := (rsi_unallocated r)(d := next)\<rparr>) d answer) (\<lambda>r.
                          Ret (r, Inr (NewSid (NeedCreate cur sid)))))))"

definition rsi_on_end_of_stream ::
    "'c streams_concurrency \<Rightarrow> 'c remote_stream_ids \<Rightarrow> stream_id \<Rightarrow> 'c remote_stream_ids run" where
  "rsi_on_end_of_stream ops r sid =
     (if sid_role sid \<noteq> rsi_role r then Ret r
      else bind_run (ctrl_on_end_of_stream ops (rsi_ctrl r) (sid_dir sid) (sid_id sid)) (announce r (sid_dir sid)))"

fun streams_blocked_parts :: "streams_blocked_frame \<Rightarrow> dir \<times> nat" where
  "streams_blocked_parts (StreamsBlockedBi v) = (Bi, into_inner v)"
| "streams_blocked_parts (StreamsBlockedUni v) = (Uni, into_inner v)"

definition recv_streams_blocked_frame ::
    "'c streams_concurrency \<Rightarrow> 'c remote_stream_ids \<Rightarrow> streams_blocked_frame \<Rightarrow> 'c remote_stream_ids run" where
  "recv_streams_blocked_frame ops r frame =
     (let (d, max_streams) = streams_blocked_parts frame
      in bind_run (on_streams_blocked ops (rsi_ctrl r) d max_streams) (announce r d))"

record 'c stream_ids =
  si_local :: local_stream_ids
  si_remote :: "'c remote_stream_ids"

definition stream_ids_new :: "role \<Rightarrow> nat \<Rightarrow> nat \<Rightarrow> 'c \<Rightarrow> 'c stream_ids run" where
  "stream_ids_new role max_bi_streams max_uni_streams ctrl =
     bind_run (rsi_new (role_not role) max_bi_streams max_uni_streams ctrl) (\<lambda>remote.
       Ret \<lparr>si_local = lsi_new role 0 0, si_remote = remote\<rparr>)"

subsection \<open>Numbering\<close>

definition nth_sid :: "role \<Rightarrow> dir \<Rightarrow> nat \<Rightarrow> stream_id" where
  "nth_sid r d n = StreamId (4 * n + 2 * dir_num d + role_num r)"

lemma sid_new_nth: "n \<le> MAX_STREAMS_LIMIT \<Longrightarrow> sid_new r d n = Ret (nth_sid r d n)"
  by (simp add: sid_new_value nth_sid_def)

lemma nth_sid_parts: "sid_role (nth_sid r d n) = r" "sid_dir (nth_sid r d n) = d" "sid_id (nth_sid r d n) = n"
  by (cases r; cases d; simp add: sid_parts_arith nth_sid_def; presburger)+

lemma nth_sid_of: "sid_ok s \<Longrightarrow> s = nth_sid (sid_role s) (sid_dir s) (sid_id s)"
proof -
  assume ok: "sid_ok s"
  then have "sid_id s \<le> MAX_STREAMS_LIMIT" by (simp add: sid_parts_arith sid_ok_def MAX_STREAMS_LIMIT_def)
  then show ?thesis using sid_rebuild [OF ok] by (simp add: sid_new_nth)
qed

lemma nth_sid_less: "sid_value (nth_sid r d m) < sid_value (nth_sid r d n) \<longleftrightarrow> m < n"
  by (simp add: nth_sid_def)

lemma nth_sid_ok: "sid_ok (nth_sid r d n) \<longleftrightarrow> n \<le> MAX_STREAMS_LIMIT"
  by (cases r; cases d) (auto simp: sid_ok_def nth_sid_def MAX_STREAMS_LIMIT_def)

lemma next_nth_sid: "n \<le> MAX_STREAMS_LIMIT \<Longrightarrow> next_unchecked (nth_sid r d n) = Ret (nth_sid r d (Suc n))"
  by (cases r; cases d) (simp_all add: next_unchecked_def nth_sid_def add64_def MAX_STREAMS_LIMIT_def)

lemma need_create_collect_nth:
  assumes "b \<le> MAX_STREAMS_LIMIT"
  shows "need_create_collect (NeedCreate (nth_sid r d a) (nth_sid r d b)) = Ret (map (nth_sid r d) [a..<Suc b])"
proof (induction "Suc b - a" arbitrary: a)
  case 0
  then have "b < a" by simp
  then show ?case by (simp add: need_create_collect.simps need_create_next_def nth_sid_less)
next
  case (Suc k)
  then have ab: "a \<le> b" by simp
  then have "need_create_next (NeedCreate (nth_sid r d a) (nth_sid r d b)) =
      Ret (Some (nth_sid r d a), NeedCreate (nth_sid r d (Suc a)) (nth_sid r d b))"
    using assms by (simp add: need_create_next_def nth_sid_less next_nth_sid)
  moreover have "need_create_collect (NeedCreate (nth_sid r d (Suc a)) (nth_sid r d b)) = Ret (map (nth_sid r d) [Suc a..<Suc b])"
    using Suc(1) [of "Suc a"] Suc(2) by simp
  ultimately show ?case using ab by (simp add: need_create_collect.simps [of "NeedCreate (nth_sid r d a) _"] upt_rec [of a])
qed

subsection \<open>Opening streams\<close>

interpretation lsi_limit: raised_limit "\<lambda>n. n \<le> MAX_STREAMS_LIMIT" "\<lambda>l. lsi_max l d"
    "\<lambda>l n. recv_max_streams_frame l (max_streams_with d (VarInt n))" for d
  by unfold_locales (cases d; auto simp: recv_max_streams_frame_def)

fun allocated :: "stream_id option poll \<Rightarrow> stream_id list" where
  "allocated (Ready (Some sid)) = [sid]"
| "allocated (Ready None) = []"
| "allocated Pending = []"

inductive local_step :: "local_stream_ids \<Rightarrow> stream_id list \<Rightarrow> local_stream_ids \<Rightarrow> stream_id list \<Rightarrow> bool" where
  polls: "poll_alloc_sid l w d = Ret (l', p) \<Longrightarrow> local_step l log l' (log @ allocated p)"
| max_streams: "recv_max_streams_frame l f = Ret l' \<Longrightarrow> local_step l log l' log"

inductive local_reach :: "role \<Rightarrow> nat \<Rightarrow> nat \<Rightarrow> local_stream_ids \<Rightarrow> stream_id list \<Rightarrow> bool" for role max_bi max_uni where
  start: "local_reach role max_bi max_uni (lsi_new role max_bi max_uni) []"
| step: "local_reach role max_bi max_uni l log \<Longrightarrow> local_step l log l' log' \<Longrightarrow> local_reach role max_bi max_uni l' log'"

definition local_inv :: "local_stream_ids \<Rightarrow> stream_id list \<Rightarrow> bool" where
  "local_inv l log \<longleftrightarrow>
     (\<forall>d. filter (\<lambda>s. sid_dir s = d) log = map (nth_sid (lsi_role l) d) [0..<lsi_unallocated l d] \<and>
          lsi_unallocated l d \<le> lsi_max l d \<and> lsi_unallocated l d \<le> Suc MAX_STREAMS_LIMIT \<and> lsi_max l d < 2 ^ 62 \<and>
          (lsi_wakers l d \<noteq> [] \<longrightarrow> lsi_unallocated l d = lsi_max l d))"

lemma poll_alloc_cases:
  assumes "poll_alloc_sid l w d = Ret (l', r)"
  shows "(\<exists>sid. r = Ready (Some sid) \<and> sid = nth_sid (lsi_role l) d (lsi_unallocated l d) \<and>
            lsi_unallocated l d < lsi_max l d \<and> lsi_unallocated l d \<le> MAX_STREAMS_LIMIT \<and>
            l' = l\<lparr>lsi_unallocated := (lsi_unallocated l)(d := lsi_unallocated l d + 1)\<rparr>) \<or>
         (r = Ready None \<and> l' = l) \<or>
         (r = Pending \<and> lsi_max l d \<le> lsi_unallocated l d \<and>
            (\<exists>b. l' = l\<lparr>lsi_wakers := (lsi_wakers l)(d := lsi_wakers l d @ [w]), lsi_blocked := b\<rparr>))"
  using assms
  by (auto simp: poll_alloc_sid_def Let_def run_simps sid_new_nth split: if_splits)

lemma local_inv_step:
  assumes "local_step l log l' log'" "local_inv l log"
  shows "local_inv l' log' \<and> lsi_role l' = lsi_role l"
  using assms
proof (induction rule: local_step.induct)
  case (polls l w d l' p log)
  from poll_alloc_cases [OF polls(1)] polls(2) show ?case
    by (auto simp: local_inv_def nth_sid_parts intro: le_antisym split: if_splits)
next
  case (max_streams l f l' log)
  obtain d v where f: "max_streams_parts f = (d, v)" by (cases "max_streams_parts f")
  then have v: "v \<le> MAX_STREAMS_LIMIT" and l': "l' = (if lsi_max l d < v
                 then l\<lparr>lsi_max := (lsi_max l)(d := v), lsi_woken := lsi_woken l @ lsi_wakers l d,
                        lsi_wakers := (lsi_wakers l)(d := [])\<rparr>
                 else l)"
    using max_streams(1) by (auto simp: recv_max_streams_frame_def run_simps)
  have "v < 2 ^ 62" using v by (simp add: MAX_STREAMS_LIMIT_def)
  then show ?case using max_streams(2) unfolding l' by (auto simp: local_inv_def intro: le_trans less_imp_le)
qed

lemma local_reach_inv:
  "local_reach role max_bi max_uni l log \<Longrightarrow> max_bi < 2 ^ 62 \<Longrightarrow> max_uni < 2 ^ 62 \<Longrightarrow> local_inv l log \<and> lsi_role l = role"
proof (induction rule: local_reach.induct)
  case start
  then show ?case by (simp add: local_inv_def lsi_new_def)
next
  case (step l log l' log')
  then show ?case using local_inv_step by blast
qed

text \<open>Local stream identifiers are handed out in order, once each and within the peer's limit: in every
reachable state the identifiers opened so far in a direction are exactly the first \<open>n\<close> of this role and
direction, \<open>n\<close> at most the limit; polling for another one returns; and a task waits for a MAX\_STREAMS frame
only while the limit is used up, so no wake-up is lost.\<close>

theorem local_sids_sequential:
  assumes "local_reach role max_bi max_uni l log" "max_bi < 2 ^ 62" "max_uni < 2 ^ 62"
  shows "filter (\<lambda>s. sid_dir s = d) log = map (nth_sid role d) [0..<lsi_unallocated l d] \<and>
    lsi_unallocated l d \<le> lsi_max l d \<and> returns (poll_alloc_sid l w d) \<and>
    (lsi_wakers l d \<noteq> [] \<longrightarrow> lsi_unallocated l d = lsi_max l d)"
proof -
  have inv: "local_inv l log" "lsi_role l = role" using local_reach_inv [OF assms] by auto
  moreover have "returns (poll_alloc_sid l w d)"
    using inv(1) by (auto simp: poll_alloc_sid_def Let_def sid_new_nth from_u64_def local_inv_def)
  ultimately show ?thesis by (auto simp: local_inv_def)
qed

theorem local_sids_sequential_witness:
  "\<exists>l. local_reach Client 0 1 l [StreamId 2] \<and> lsi_unallocated l Uni = 1 \<and> lsi_max l Uni = 1 \<and>
     poll_alloc_sid l 7 Uni = Ret (l\<lparr>lsi_wakers := (lsi_wakers l)(Uni := [7]), lsi_blocked := [StreamsBlockedUni (VarInt 1)]\<rparr>, Pending)"
proof -
  let ?l = "(lsi_new Client 0 1)\<lparr>lsi_unallocated := ((\<lambda>_. 0)(Uni := 1))\<rparr>"
  have "poll_alloc_sid (lsi_new Client 0 1) 0 Uni = Ret (?l, Ready (Some (StreamId 2)))"
    by (simp add: poll_alloc_sid_def lsi_new_def sid_new_nth nth_sid_def MAX_STREAMS_LIMIT_def)
  then have "local_reach Client 0 1 ?l [StreamId 2]"
    using local_reach.step [OF local_reach.start polls] by fastforce
  with local_sids_sequential [of Client 0 1 ?l "[StreamId 2]" Uni 7] show ?thesis
    by (intro exI [of _ ?l]) (simp add: poll_alloc_sid_def lsi_new_def MAX_STREAMS_LIMIT_def from_u64_def)
qed

subsection \<open>Accepting streams\<close>

lemma announce_keeps:
  assumes "announce r d answer = Ret r'"
  shows "rsi_role r' = rsi_role r" "rsi_unallocated r' = rsi_unallocated r" "rsi_ctrl r' = fst answer"
    "rsi_max r' = (case snd answer of None \<Rightarrow> rsi_max r | Some m \<Rightarrow> (rsi_max r)(d := m))"
    "rsi_max_tx r' = rsi_max_tx r @ (case snd answer of None \<Rightarrow> [] | Some m \<Rightarrow> [max_streams_with d (VarInt m)])"
  using assms
  by (cases answer; cases "snd answer"; auto simp: announce_def run_simps from_u64_def unwrap_result_def split: if_splits)+

definition remote_inv :: "'c remote_stream_ids \<Rightarrow> stream_id list \<Rightarrow> bool" where
  "remote_inv r created \<longleftrightarrow>
     (\<forall>d. \<exists>k. rsi_unallocated r d = nth_sid (rsi_role r) d k \<and>
        filter (\<lambda>s. sid_dir s = d) created = map (nth_sid (rsi_role r) d) [0..<k])"

text \<open>The streams a caller creates for the answer of \<open>try_accept_sid\<close>.\<close>

fun sids_to_create :: "exceed_limit_error + accept_sid \<Rightarrow> stream_id list run" where
  "sids_to_create (Inl e) = Ret []"
| "sids_to_create (Inr OldSid) = Ret []"
| "sids_to_create (Inr (NewSid n)) = need_create_collect n"

lemma try_accept_result:
  assumes acc: "try_accept_sid ops r sid = Ret (r', res)" and inv: "remote_inv r created" and ok: "sid_ok sid"
  shows "\<exists>new. sids_to_create res = Ret new \<and> remote_inv r' (created @ new) \<and> rsi_role r' = rsi_role r \<and>
    (if rsi_max r (sid_dir sid) < sid_id sid then res = Inl (ExceedLimitError sid (rsi_max r (sid_dir sid))) \<and> r' = r
     else (\<exists>a. res = Inr a) \<and> sid \<in> set (created @ new))"
proof -
  let ?d = "sid_dir sid" and ?n = "sid_id sid"
  have role: "sid_role sid = rsi_role r" using acc by (auto simp: try_accept_sid_def run_simps)
  then have sid: "sid = nth_sid (rsi_role r) ?d ?n" using nth_sid_of [OF ok] by simp
  then have n: "?n \<le> MAX_STREAMS_LIMIT" using ok nth_sid_ok by metis
  obtain k where k: "rsi_unallocated r ?d = nth_sid (rsi_role r) ?d k"
    "filter (\<lambda>s. sid_dir s = ?d) created = map (nth_sid (rsi_role r) ?d) [0..<k]"
    using inv by (auto simp: remote_inv_def)
  have less: "sid_value sid < sid_value (rsi_unallocated r ?d) \<longleftrightarrow> ?n < k" using sid k(1) nth_sid_less by metis
  consider (exceed) "rsi_max r ?d < ?n" | (old) "\<not> rsi_max r ?d < ?n" "?n < k" | (new) "\<not> rsi_max r ?d < ?n" "k \<le> ?n"
    by linarith
  then show ?thesis
  proof cases
    case exceed
    then show ?thesis using acc role inv by (auto simp: try_accept_sid_def)
  next
    case old
    have "?n \<in> {0..<k}" using old by simp
    then have "nth_sid (rsi_role r) ?d ?n \<in> set (map (nth_sid (rsi_role r) ?d) [0..<k])" by (simp del: upt_Suc)
    then have "sid \<in> set created" using k(2) sid by (metis filter_is_subset subsetD)
    then show ?thesis using old acc role less inv by (auto simp: try_accept_sid_def Let_def)
  next
    case new
    obtain answer where ann: "announce (r\<lparr>rsi_unallocated := (rsi_unallocated r)(?d := nth_sid (rsi_role r) ?d (Suc ?n))\<rparr>) ?d answer = Ret r'"
      and res: "res = Inr (NewSid (NeedCreate (nth_sid (rsi_role r) ?d k) sid))"
      using acc role new less next_nth_sid [OF n, of "rsi_role r" ?d] k(1) sid
      by (auto simp: try_accept_sid_def Let_def run_simps)
    have col: "need_create_collect (NeedCreate (nth_sid (rsi_role r) ?d k) sid) = Ret (map (nth_sid (rsi_role r) ?d) [k..<Suc ?n])"
      using need_create_collect_nth [OF n, of "rsi_role r" ?d k] sid by simp
    have "remote_inv r' (created @ map (nth_sid (rsi_role r) ?d) [k..<Suc ?n])"
      unfolding remote_inv_def
    proof
      fix d
      show "\<exists>k'. rsi_unallocated r' d = nth_sid (rsi_role r') d k' \<and>
          filter (\<lambda>s. sid_dir s = d) (created @ map (nth_sid (rsi_role r) ?d) [k..<Suc ?n]) = map (nth_sid (rsi_role r') d) [0..<k']"
      proof (cases "d = ?d")
        case True
        have "[0..<k] @ [k..<Suc ?n] = [0..<Suc ?n]" using new(2) upt_add_eq_append [of 0 k "Suc ?n - k"] by simp
        then have "map (nth_sid (rsi_role r) ?d) [0..<k] @ map (nth_sid (rsi_role r) ?d) [k..<Suc ?n] =
            map (nth_sid (rsi_role r) ?d) [0..<Suc ?n]" by (simp only: map_append [symmetric])
        then show ?thesis using announce_keeps [OF ann] k(2) True
          by (intro exI [of _ "Suc ?n"]) (simp add: nth_sid_parts filter_map comp_def del: upt_Suc)
      next
        case False
        then show ?thesis using announce_keeps [OF ann] inv
          by (auto simp: remote_inv_def nth_sid_parts filter_map comp_def simp del: upt_Suc)
      qed
    qed
    moreover have "sid \<in> set (map (nth_sid (rsi_role r) ?d) [k..<Suc ?n])"
      using sid new(2) by (metis (no_types, lifting) atLeastLessThan_iff image_eqI lessI list.set_map set_upt)
    ultimately show ?thesis using new res col announce_keeps [OF ann] by auto
  qed
qed

text \<open>Streams of the peer are created once each and in order. Whatever identifiers arrive, in any order: one
above the limit is refused with \<open>ExceedLimitError\<close> and changes nothing; any other leaves the streams created so
far in each direction exactly the first ones of their kind, without gap or repetition, this one included.\<close>

theorem try_accept_creates_prefix:
  assumes "try_accept_sid ops r sid = Ret (r', res)" "remote_inv r created" "sid_ok sid"
  shows "\<exists>new. sids_to_create res = Ret new \<and> remote_inv r' (created @ new) \<and>
    (if rsi_max r (sid_dir sid) < sid_id sid then res = Inl (ExceedLimitError sid (rsi_max r (sid_dir sid))) \<and> r' = r
     else (\<exists>a. res = Inr a) \<and> sid \<in> set (created @ new))"
  using try_accept_result [OF assms] by metis

lemma rsi_new_inv: "rsi_new role a b c = Ret r \<Longrightarrow> remote_inv r [] \<and> rsi_role r = role \<and> rsi_max_tx r = [] \<and>
    rsi_ctrl r = c \<and> rsi_max r = (\<lambda>d. if d = Bi then a else b)"
  by (auto simp: rsi_new_def run_simps sid_new_nth MAX_STREAMS_LIMIT_def remote_inv_def)
    (metis (full_types) dir.exhaust)

theorem try_accept_creates_prefix_witness:
  "\<exists>r r'. rsi_new Server 5 5 () = Ret r \<and>
     try_accept_sid demand_concurrency r (StreamId 9) = Ret (r', Inr (NewSid (NeedCreate (StreamId 1) (StreamId 9)))) \<and>
     need_create_collect (NeedCreate (StreamId 1) (StreamId 9)) = Ret [StreamId 1, StreamId 5, StreamId 9]"
proof -
  obtain r where r: "rsi_new Server 5 5 () = Ret r" by (simp add: rsi_new_def sid_new_nth)
  then have re: "r = \<lparr>rsi_role = Server, rsi_max = (\<lambda>_. 5), rsi_unallocated = (\<lambda>d. if d = Bi then StreamId 1 else StreamId 3),
      rsi_ctrl = (), rsi_max_tx = []\<rparr>"
    by (auto simp: rsi_new_def sid_new_nth nth_sid_def)
  let ?r' = "r\<lparr>rsi_unallocated := (rsi_unallocated r)(Bi := StreamId 13)\<rparr>"
  have p: "sid_role (StreamId 9) = Server" "sid_dir (StreamId 9) = Bi" "sid_id (StreamId 9) = 2"
    by (simp_all add: sid_parts_arith)
  have acc: "try_accept_sid demand_concurrency r (StreamId 9) = Ret (?r', Inr (NewSid (NeedCreate (StreamId 1) (StreamId 9))))"
    by (simp add: try_accept_sid_def p re next_unchecked_def add64_def demand_concurrency_def announce_def)
  obtain new where "need_create_collect (NeedCreate (StreamId 1) (StreamId 9)) = Ret new" "remote_inv ?r' new"
    using try_accept_creates_prefix [OF acc, of "[]"] rsi_new_inv [OF r] by (auto simp: sid_ok_def)
  moreover have "need_create_collect (NeedCreate (StreamId 1) (StreamId 9)) = Ret [StreamId 1, StreamId 5, StreamId 9]"
    by (simp add: need_create_collect.simps need_create_next_def next_unchecked_def add64_def)
  ultimately show ?thesis using r acc by blast
qed

subsection \<open>Strategies that keep their word\<close>

text \<open>
  What \<open>RemoteStreamIds\<close> relies on when it asks a strategy: the strategy knows the limit in force and only
  ever raises it.
\<close>

locale concurrency_control =
  fixes ops :: "'c streams_concurrency" and known_limit :: "'c \<Rightarrow> dir \<Rightarrow> nat"
  assumes on_accept: "on_accept_streams ops c d n = Ret (c', a) \<Longrightarrow>
      (case a of None \<Rightarrow> known_limit c' = known_limit c
       | Some m \<Rightarrow> known_limit c' = (known_limit c)(d := m) \<and> known_limit c d \<le> m)"
    and on_end: "ctrl_on_end_of_stream ops c d n = Ret (c', a) \<Longrightarrow>
      (case a of None \<Rightarrow> known_limit c' = known_limit c
       | Some m \<Rightarrow> known_limit c' = (known_limit c)(d := m) \<and> known_limit c d \<le> m)"
    and on_blocked: "on_streams_blocked ops c d n = Ret (c', a) \<Longrightarrow>
      (case a of None \<Rightarrow> known_limit c' = known_limit c
       | Some m \<Rightarrow> known_limit c' = (known_limit c)(d := m) \<and> known_limit c d \<le> m)"
begin

definition in_step :: "'c remote_stream_ids \<Rightarrow> bool" where
  "in_step r \<longleftrightarrow> rsi_max r = known_limit (rsi_ctrl r) \<and>
     (\<forall>f \<in> set (rsi_max_tx r). snd (max_streams_parts f) \<le> rsi_max r (fst (max_streams_parts f)))"

lemma parts_with: "max_streams_parts (max_streams_with d v) = (d, into_inner v)"
  by (cases d) simp_all

lemma in_step_announce:
  assumes "announce r d (c', a) = Ret r'" "in_step r"
    and "case a of None \<Rightarrow> known_limit c' = known_limit (rsi_ctrl r)
       | Some m \<Rightarrow> known_limit c' = (known_limit (rsi_ctrl r))(d := m) \<and> known_limit (rsi_ctrl r) d \<le> m"
  shows "in_step r' \<and> (\<forall>d. rsi_max r d \<le> rsi_max r' d)"
proof (cases a)
  case None
  then show ?thesis using announce_keeps [OF assms(1)] assms(2,3) by (auto simp: in_step_def)
next
  case (Some m)
  note k = announce_keeps [OF assms(1), unfolded Some, simplified]
  have m: "rsi_max r d \<le> m" "known_limit c' = (rsi_max r)(d := m)" using assms(2,3) Some by (auto simp: in_step_def)
  have "snd (max_streams_parts f) \<le> rsi_max r' (fst (max_streams_parts f))" if "f \<in> set (rsi_max_tx r')" for f
  proof (cases "f \<in> set (rsi_max_tx r)")
    case True
    then have "snd (max_streams_parts f) \<le> rsi_max r (fst (max_streams_parts f))" using assms(2) by (auto simp: in_step_def)
    then show ?thesis using m(1) k(4) by auto
  next
    case False
    then show ?thesis using that k(4,5) by (auto simp: parts_with)
  qed
  then show ?thesis using m k(3,4) by (simp add: in_step_def)
qed

lemma in_step_accept:
  assumes "try_accept_sid ops r sid = Ret (r', res)" "in_step r"
  shows "in_step r' \<and> (\<forall>d. rsi_max r d \<le> rsi_max r' d)"
proof (cases "r' = r")
  case False
  then obtain next' c' a where a: "on_accept_streams ops (rsi_ctrl r) (sid_dir sid) (sid_id sid) = Ret (c', a)"
    "announce (r\<lparr>rsi_unallocated := (rsi_unallocated r)(sid_dir sid := next')\<rparr>) (sid_dir sid) (c', a) = Ret r'"
    using assms(1) by (auto simp: try_accept_sid_def Let_def run_simps split: if_splits)
  have "in_step (r\<lparr>rsi_unallocated := (rsi_unallocated r)(sid_dir sid := next')\<rparr>)" using assms(2) by (auto simp: in_step_def)
  then have "in_step r' \<and> (\<forall>d. rsi_max (r\<lparr>rsi_unallocated := (rsi_unallocated r)(sid_dir sid := next')\<rparr>) d \<le> rsi_max r' d)"
    using on_accept [OF a(1)] by (intro in_step_announce [OF a(2)]) (auto split: option.splits)
  then show ?thesis by simp
qed (use assms in simp)

lemma in_step_end:
  assumes "rsi_on_end_of_stream ops r sid = Ret r'" "in_step r"
  shows "in_step r' \<and> (\<forall>d. rsi_max r d \<le> rsi_max r' d)"
proof (cases "sid_role sid = rsi_role r")
  case True
  then obtain c' a where a: "ctrl_on_end_of_stream ops (rsi_ctrl r) (sid_dir sid) (sid_id sid) = Ret (c', a)"
    "announce r (sid_dir sid) (c', a) = Ret r'"
    using assms(1) by (auto simp: rsi_on_end_of_stream_def run_simps)
  from in_step_announce [OF a(2) assms(2) on_end [OF a(1)]] show ?thesis .
qed (use assms in \<open>simp add: rsi_on_end_of_stream_def\<close>)

lemma in_step_blocked:
  assumes "recv_streams_blocked_frame ops r f = Ret r'" "in_step r"
  shows "in_step r' \<and> (\<forall>d. rsi_max r d \<le> rsi_max r' d)"
proof -
  obtain d n c' a where a: "on_streams_blocked ops (rsi_ctrl r) d n = Ret (c', a)" "announce r d (c', a) = Ret r'"
    using assms(1) by (auto simp: recv_streams_blocked_frame_def run_simps split: prod.splits)
  from in_step_announce [OF a(2) assms(2) on_blocked [OF a(1)]] show ?thesis .
qed

end

interpretation consistent: concurrency_control consistent_concurrency "\<lambda>c. c"
  by unfold_locales (auto simp: consistent_concurrency_def consistent_on_end_def run_simps)

subsection \<open>Two endpoints\<close>

record 'c stream_link =
  opener :: local_stream_ids
  opened_sids :: "stream_id list"
  acceptor :: "'c remote_stream_ids"
  created_sids :: "stream_id list"

inductive slink_step :: "'c streams_concurrency \<Rightarrow> 'c stream_link \<Rightarrow> 'c stream_link \<Rightarrow> bool" for ops where
  opener_polls: "poll_alloc_sid (opener s) w d = Ret (l, p) \<Longrightarrow>
    slink_step ops s (s\<lparr>opener := l, opened_sids := opened_sids s @ allocated p\<rparr>)"
| max_streams_arrives: "f \<in> set (rsi_max_tx (acceptor s)) \<Longrightarrow> recv_max_streams_frame (opener s) f = Ret l \<Longrightarrow>
    slink_step ops s (s\<lparr>opener := l\<rparr>)"
| stream_arrives: "sid \<in> set (opened_sids s) \<Longrightarrow> try_accept_sid ops (acceptor s) sid = Ret (r, res) \<Longrightarrow>
    sids_to_create res = Ret new \<Longrightarrow> slink_step ops s (s\<lparr>acceptor := r, created_sids := created_sids s @ new\<rparr>)"
| stream_ends: "rsi_on_end_of_stream ops (acceptor s) sid = Ret r \<Longrightarrow> slink_step ops s (s\<lparr>acceptor := r\<rparr>)"
| streams_blocked_arrives: "recv_streams_blocked_frame ops (acceptor s) f = Ret r \<Longrightarrow> slink_step ops s (s\<lparr>acceptor := r\<rparr>)"

inductive slink_reach :: "'c streams_concurrency \<Rightarrow> role \<Rightarrow> nat \<Rightarrow> nat \<Rightarrow> 'c \<Rightarrow> 'c stream_link \<Rightarrow> bool"
  for ops role max_bi max_uni ctrl where
  start: "rsi_new role max_bi max_uni ctrl = Ret r \<Longrightarrow>
    slink_reach ops role max_bi max_uni ctrl
      \<lparr>opener = lsi_new role 0 0, opened_sids = [], acceptor = r, created_sids = []\<rparr>"
| parameters: "slink_reach ops role max_bi max_uni ctrl s \<Longrightarrow>
    recv_max_streams_frame (opener s) f = Ret l \<Longrightarrow> f \<in> {MaxStreamsBi (VarInt max_bi), MaxStreamsUni (VarInt max_uni)} \<Longrightarrow>
    slink_reach ops role max_bi max_uni ctrl (s\<lparr>opener := l\<rparr>)"
| step: "slink_reach ops role max_bi max_uni ctrl s \<Longrightarrow> slink_step ops s s' \<Longrightarrow> slink_reach ops role max_bi max_uni ctrl s'"

definition slink_inv :: "role \<Rightarrow> (dir \<Rightarrow> nat) \<Rightarrow> 'c stream_link \<Rightarrow> bool" where
  "slink_inv role init s \<longleftrightarrow>
     local_inv (opener s) (opened_sids s) \<and> lsi_role (opener s) = role \<and>
     remote_inv (acceptor s) (created_sids s) \<and> rsi_role (acceptor s) = role \<and>
     (\<forall>d. init d \<le> rsi_max (acceptor s) d \<and> lsi_max (opener s) d \<le> rsi_max (acceptor s) d)"

lemma recv_max_limit:
  "recv_max_streams_frame l f = Ret l' \<Longrightarrow> max_streams_parts f = (d, v) \<Longrightarrow>
     lsi_max l' = (lsi_max l)(d := max (lsi_max l d) v)"
  by (auto simp: recv_max_streams_frame_def run_simps)

lemma slink_inv_recv_max:
  assumes "recv_max_streams_frame (opener s) f = Ret l" "slink_inv role init s"
    and "snd (max_streams_parts f) \<le> rsi_max (acceptor s) (fst (max_streams_parts f))"
  shows "slink_inv role init (s\<lparr>opener := l\<rparr>)"
  using assms(2,3) local_inv_step [OF max_streams [OF assms(1)]] recv_max_limit [OF assms(1), of "fst (max_streams_parts f)" "snd (max_streams_parts f)"]
  by (auto simp: slink_inv_def)

lemma local_inv_opened:
  assumes "local_inv l log" "sid \<in> set log"
  shows "sid = nth_sid (lsi_role l) (sid_dir sid) (sid_id sid)" "sid_id sid < lsi_unallocated l (sid_dir sid)" "sid_ok sid"
proof -
  have "sid \<in> set (filter (\<lambda>s. sid_dir s = sid_dir sid) log)" using assms(2) by simp
  then obtain n where n: "sid = nth_sid (lsi_role l) (sid_dir sid) n" "n < lsi_unallocated l (sid_dir sid)"
    using assms(1) unfolding local_inv_def by auto
  then have "sid_id sid = n" by (metis nth_sid_parts(3))
  with n show "sid = nth_sid (lsi_role l) (sid_dir sid) (sid_id sid)" "sid_id sid < lsi_unallocated l (sid_dir sid)" by simp_all
  have "n \<le> MAX_STREAMS_LIMIT" using n(2) assms(1) unfolding local_inv_def by (metis less_Suc_eq_le order_less_le_trans)
  then show "sid_ok sid" using n(1) nth_sid_ok by metis
qed

context concurrency_control
begin

lemma slink_inv_step:
  assumes "slink_step ops s s'" "slink_inv role init s" "in_step (acceptor s)"
  shows "slink_inv role init s' \<and> in_step (acceptor s')"
  using assms
proof (induction rule: slink_step.induct)
  case (opener_polls s w d l p)
  have "lsi_max l = lsi_max (opener s)" using poll_alloc_cases [OF opener_polls(1)] by auto
  then show ?case using opener_polls(2,3) local_inv_step [OF polls [OF opener_polls(1)]] by (auto simp: slink_inv_def)
next
  case (max_streams_arrives f s l)
  then have "snd (max_streams_parts f) \<le> rsi_max (acceptor s) (fst (max_streams_parts f))" by (auto simp: in_step_def)
  then show ?case using slink_inv_recv_max max_streams_arrives by fastforce
next
  case (stream_arrives sid s r res new)
  have ok: "sid_ok sid" using stream_arrives(1,4) local_inv_opened(3) by (auto simp: slink_inv_def)
  have "remote_inv r (created_sids s @ new) \<and> rsi_role r = rsi_role (acceptor s)"
    using try_accept_result [OF stream_arrives(2) _ ok] stream_arrives(3,4) by (fastforce simp: slink_inv_def)
  then show ?case
    using stream_arrives(4) in_step_accept [OF stream_arrives(2,5)] by (auto simp: slink_inv_def intro: le_trans)
next
  case (stream_ends s sid r)
  have "rsi_role r = rsi_role (acceptor s) \<and> rsi_unallocated r = rsi_unallocated (acceptor s)"
    using stream_ends(1) announce_keeps(1,2) by (auto simp: rsi_on_end_of_stream_def run_simps split: if_splits)
  then show ?case
    using stream_ends(2) in_step_end [OF stream_ends(1,3)] by (auto simp: slink_inv_def remote_inv_def intro: le_trans)
next
  case (streams_blocked_arrives s f r)
  have "rsi_role r = rsi_role (acceptor s) \<and> rsi_unallocated r = rsi_unallocated (acceptor s)"
    using streams_blocked_arrives(1) announce_keeps(1,2)
    by (auto simp: recv_streams_blocked_frame_def run_simps split: prod.splits)
  then show ?case
    using streams_blocked_arrives(2) in_step_blocked [OF streams_blocked_arrives(1,3)]
    by (auto simp: slink_inv_def remote_inv_def intro: le_trans)
qed

lemma slink_reach_inv:
  assumes "slink_reach ops role max_bi max_uni ctrl s" "known_limit ctrl = (\<lambda>d. if d = Bi then max_bi else max_uni)"
  shows "slink_inv role (\<lambda>d. if d = Bi then max_bi else max_uni) s \<and> in_step (acceptor s)"
  using assms
proof (induction rule: slink_reach.induct)
  case (start r)
  then show ?case using rsi_new_inv [OF start(1)] by (simp add: slink_inv_def in_step_def local_inv_def lsi_new_def)
next
  case (parameters s f l)
  then have "snd (max_streams_parts f) \<le> rsi_max (acceptor s) (fst (max_streams_parts f))"
    by (auto simp: slink_inv_def dest: spec [of _ Bi] spec [of _ Uni])
  then show ?case using parameters slink_inv_recv_max by fastforce
next
  case (step s s')
  then show ?case using slink_inv_step by blast
qed

lemma opened_not_refused:
  assumes "slink_reach ops role max_bi max_uni ctrl s" "known_limit ctrl = (\<lambda>d. if d = Bi then max_bi else max_uni)"
    and "sid \<in> set (opened_sids s)" "try_accept_sid ops (acceptor s) sid = Ret (r, res)"
  shows "\<exists>a. res = Inr a"
proof -
  note inv = slink_reach_inv [OF assms(1,2)]
  then have l: "sid_ok sid" "sid_id sid < lsi_unallocated (opener s) (sid_dir sid)"
    using local_inv_opened [OF _ assms(3)] by (auto simp: slink_inv_def)
  have "lsi_unallocated (opener s) (sid_dir sid) \<le> rsi_max (acceptor s) (sid_dir sid)"
    using inv by (auto simp: slink_inv_def local_inv_def intro: le_trans)
  then have "\<not> rsi_max (acceptor s) (sid_dir sid) < sid_id sid" using l(2) by linarith
  then show ?thesis using try_accept_result [OF assms(4) _ l(1)] inv by (auto simp: slink_inv_def)
qed

end

text \<open>C21: Stream limits are safe end to end under the strategy the repository uses by default: between two
endpoints that exchange identifiers and MAX\_STREAMS frames over a network that loses, repeats and reorders
them, no stream the opener ever opened is refused by the acceptor, in whatever state and order it arrives, and
the streams the acceptor has created are always exactly the first ones of each direction.\<close>

theorem opened_streams_accepted:
  assumes "slink_reach consistent_concurrency role max_bi max_uni (consistent_new max_bi max_uni) s"
    and "sid \<in> set (opened_sids s)" "try_accept_sid consistent_concurrency (acceptor s) sid = Ret (r, res)"
  shows "(\<exists>a. res = Inr a) \<and>
    (\<forall>d. \<exists>k. filter (\<lambda>s. sid_dir s = d) (created_sids s) = map (nth_sid role d) [0..<k])"
proof
  show "\<exists>a. res = Inr a"
    by (rule consistent.opened_not_refused [OF assms(1) _ assms(2,3)]) (simp add: consistent_new_def)
  have "slink_inv role (\<lambda>d. if d = Bi then max_bi else max_uni) s"
    using consistent.slink_reach_inv [OF assms(1)] by (simp add: consistent_new_def)
  then show "\<forall>d. \<exists>k. filter (\<lambda>s. sid_dir s = d) (created_sids s) = map (nth_sid role d) [0..<k]"
    unfolding slink_inv_def remote_inv_def by metis
qed

theorem opened_streams_accepted_witness:
  "\<exists>s r. slink_reach consistent_concurrency Client 1 0 (consistent_new 1 0) s \<and> opened_sids s = [StreamId 0] \<and>
     try_accept_sid consistent_concurrency (acceptor s) (StreamId 0) =
       Ret (r, Inr (NewSid (NeedCreate (StreamId 0) (StreamId 0))))"
proof -
  obtain r where r: "rsi_new Client 1 0 (consistent_new 1 0) = Ret r" by (simp add: rsi_new_def sid_new_nth)
  let ?s0 = "\<lparr>opener = lsi_new Client 0 0, opened_sids = [], acceptor = r, created_sids = []\<rparr>"
  let ?l1 = "(lsi_new Client 0 0)\<lparr>lsi_max := ((\<lambda>_. 0)(Bi := 1))\<rparr>"
  let ?l2 = "?l1\<lparr>lsi_unallocated := ((\<lambda>_. 0)(Bi := 1))\<rparr>"
  let ?s2 = "\<lparr>opener = ?l2, opened_sids = [StreamId 0], acceptor = r, created_sids = []\<rparr>"
  have z: "(\<lambda>_. []) = (\<lambda>_. [])(Bi := [])" "(\<lambda>d::dir. 0::nat) = (\<lambda>d. if d = Bi then 0 else 0)" by auto
  have "slink_reach consistent_concurrency Client 1 0 (consistent_new 1 0) ?s0" by (rule slink_reach.start [OF r])
  moreover have "recv_max_streams_frame (opener ?s0) (MaxStreamsBi (VarInt 1)) = Ret ?l1"
    by (auto simp: recv_max_streams_frame_def lsi_new_def MAX_STREAMS_LIMIT_def fun_eq_iff)
  ultimately have "slink_reach consistent_concurrency Client 1 0 (consistent_new 1 0) (?s0\<lparr>opener := ?l1\<rparr>)"
    by (rule slink_reach.parameters) simp
  moreover have "slink_step consistent_concurrency (?s0\<lparr>opener := ?l1\<rparr>) ?s2"
    using opener_polls [of "?s0\<lparr>opener := ?l1\<rparr>" 0 Bi ?l2 "Ready (Some (StreamId 0))"]
    by (simp add: poll_alloc_sid_def lsi_new_def sid_new_nth nth_sid_def)
  ultimately have reach: "slink_reach consistent_concurrency Client 1 0 (consistent_new 1 0) ?s2"
    by (rule slink_reach.step)
  have re: "rsi_role r = Client" "rsi_unallocated r Bi = StreamId 0" "rsi_max r Bi = 1"
    using r by (auto simp: rsi_new_def sid_new_nth nth_sid_def)
  have p: "sid_role (StreamId 0) = Client" "sid_dir (StreamId 0) = Bi" "sid_id (StreamId 0) = 0"
    by (simp_all add: sid_parts_arith)
  have acc: "try_accept_sid consistent_concurrency (acceptor ?s2) (StreamId 0) =
      Ret (r\<lparr>rsi_unallocated := (rsi_unallocated r)(Bi := StreamId 4)\<rparr>, Inr (NewSid (NeedCreate (StreamId 0) (StreamId 0))))"
    by (simp add: try_accept_sid_def p re next_unchecked_def add64_def consistent_concurrency_def announce_def Let_def)
  from opened_streams_accepted [OF reach, of "StreamId 0", OF _ acc] show ?thesis
    by (intro exI [of _ ?s2]) (use reach acc in auto)
qed

text \<open>The acceptor admits one stream more than it announced: with the limit of \<open>n\<close> streams in a direction,
the stream number \<open>n\<close>, the $(n+1)$-th one, is accepted, although the same limit stops the opening side at
number $n-1$.\<close>

theorem remote_admits_one_too_many:
  "(\<exists>r. rsi_new Client 3 0 () = Ret r \<and>
      (\<exists>r' n. try_accept_sid demand_concurrency r (nth_sid Client Bi 3) = Ret (r', Inr (NewSid n)) \<and>
         need_create_collect n = Ret (map (nth_sid Client Bi) [0..<4]))) \<and>
   (\<exists>l. poll_alloc_sid ((lsi_new Client 3 0)\<lparr>lsi_unallocated := \<lambda>_. 3\<rparr>) 0 Bi = Ret (l, Pending))"
proof
  obtain r where r: "rsi_new Client 3 0 () = Ret r" by (simp add: rsi_new_def sid_new_nth)
  have re: "rsi_role r = Client" "rsi_unallocated r Bi = nth_sid Client Bi 0" "rsi_max r Bi = 3"
    using r by (auto simp: rsi_new_def sid_new_nth)
  have lim: "3 \<le> MAX_STREAMS_LIMIT" by (simp add: MAX_STREAMS_LIMIT_def)
  have "try_accept_sid demand_concurrency r (nth_sid Client Bi 3) =
      Ret (r\<lparr>rsi_unallocated := (rsi_unallocated r)(Bi := nth_sid Client Bi (Suc 3))\<rparr>,
           Inr (NewSid (NeedCreate (nth_sid Client Bi 0) (nth_sid Client Bi 3))))"
    by (simp add: try_accept_sid_def nth_sid_parts re nth_sid_less next_nth_sid [OF lim] demand_concurrency_def announce_def)
  moreover have "need_create_collect (NeedCreate (nth_sid Client Bi 0) (nth_sid Client Bi 3)) = Ret (map (nth_sid Client Bi) [0..<4])"
    using need_create_collect_nth [OF lim, of Client Bi 0] by (simp add: eval_nat_numeral)
  ultimately show "\<exists>r. rsi_new Client 3 0 () = Ret r \<and>
      (\<exists>r' n. try_accept_sid demand_concurrency r (nth_sid Client Bi 3) = Ret (r', Inr (NewSid n)) \<and>
         need_create_collect n = Ret (map (nth_sid Client Bi) [0..<4]))"
    using r by blast
  show "\<exists>l. poll_alloc_sid ((lsi_new Client 3 0)\<lparr>lsi_unallocated := \<lambda>_. 3\<rparr>) 0 Bi = Ret (l, Pending)"
    by (simp add: poll_alloc_sid_def lsi_new_def MAX_STREAMS_LIMIT_def from_u64_def)
qed

end
