(* ===== verification/Buf_Map_Loss.thy ===== *)
theory Buf_Map_Loss
  imports Buf_Map
begin

section \<open>Losing a range of the send buffer's map\<close>

text \<open>
  The correctness of \<open>BufMap::may_loss\<close> and its recursive helper \<open>lost_from\<close>
  (qrecovery/src/send/sndbuf.rs), over the definitions of theory \<open>Buf_Map\<close>: the scan over the
  states of the range is proved on a deque cut in lists, its end is the painting lemma of
  \<open>Buf_Map\<close>.
\<close>

subsection \<open>The loop of lost\_from\<close>

definition lose :: "nat \<Rightarrow> color \<Rightarrow> nat \<Rightarrow> color" where
  "lose re c p = (if p < re \<and> c = Flighting then Lost else c)"

lemma lost_finish_eq:
  "is < idx \<Longrightarrow> idx \<le> length xs \<Longrightarrow>
     lost_finish is idx b s xs = take (is + 1) xs @ (if b then [s] else []) @ drop idx xs"
  "idx \<le> is \<Longrightarrow> lost_finish is idx False s xs = xs"
proof -
  show "lost_finish is idx b s xs = take (is + 1) xs @ (if b then [s] else []) @ drop idx xs"
    if "is < idx" "idx \<le> length xs"
    using finish_edit_eq [of "is + 1" idx xs False s b s] that
    by (simp add: lost_finish_def finish_edit_def put_or_insert_def split: if_splits)
  show "lost_finish is idx False s xs = xs" if "idx \<le> is" using that by (simp add: lost_finish_def)
qed

text \<open>
  \<open>ys\<close> is \<open>Z\<close> with the bytes in flight before \<open>re\<close> lost; \<open>d\<close> is the colour in front of
  both, never \<open>Flighting\<close> where \<open>lost_from\<close> is called.
\<close>

definition lost_ok :: "nat \<Rightarrow> nat \<Rightarrow> state list \<Rightarrow> state list \<Rightarrow> bool" where
  "lost_ok bend re Z ys \<longleftrightarrow>
     bm_wf ys \<and> (\<forall>s \<in> set ys. (st_offset s < bend \<or> s \<in> set Z) \<and> (\<exists>t \<in> set Z. st_offset t \<le> st_offset s)) \<and>
     (\<forall>d p. d \<noteq> Flighting \<longrightarrow> p < bend \<longrightarrow> color_at ys d p = lose re (color_at Z d p) p)"

lemma lost_end:
  assumes wf: "bm_wf (q # Q @ R)" and Q: "\<forall>s \<in> set (q # Q). st_offset s < re \<and> st_color s \<in> {Flighting, Lost}"
    and R: "\<forall>s \<in> set R. re \<le> st_offset s" and bnd: "\<forall>s \<in> set (q # Q @ R). st_offset s \<le> bend" "re \<le> bend"
    and pre: "pre = last_color (q # Q) Recved"
    and E: "at_end \<longrightarrow> pre = Flighting \<and> (\<forall>s \<in> set R. re < st_offset s) \<and> re < bend"
      "at_end \<or> pre = Lost \<or> (R \<noteq> [] \<and> st_offset (hd R) = re) \<or> (R = [] \<and> bend \<le> re)"
    and R': "R' = R \<or> (\<not> at_end \<and> R' = dropWhile (\<lambda>s. st_color s = Lost) R)"
  shows "lost_ok bend re ((q # Q) @ R) (set_color Lost q # (if at_end then [State re pre] else []) @ R')"
proof -
  let ?rs = "st_offset q" and ?ys = "set_color Lost q # (if at_end then [State re pre] else []) @ R'"
  have M: "\<forall>s \<in> set (q # Q). ?rs \<le> st_offset s \<and> st_offset s < re"
    using Q wf by (auto simp: bm_wf_Cons intro: less_imp_le)
  have c: "color_at ([] @ (q # Q)) d re = pre" for d
    using Q by (subst append_Nil, subst last_color_color_at) (auto simp: pre last_color_def intro: less_imp_le)
  have wf0: "bm_wf ([] @ (q # Q) @ R)" using wf by simp
  have L0: "\<forall>s \<in> set []. st_offset s < ?rs" by simp
  have rr: "?rs < re" using Q by simp
  have A: "bm_wf [set_color Lost q]" "\<forall>s \<in> set [set_color Lost q]. st_offset s \<le> ?rs \<and> st_color s \<noteq> Pending"
    by (simp_all add: set_color_def bm_wf_Cons)
  have A3: "color_at [set_color Lost q] d p = (if ?rs \<le> p then Lost else color_at [] d p)" for d p
    by (simp add: set_color_def)
  have E1: "at_end \<longrightarrow> pre = color_at ([] @ (q # Q)) d re \<and> (\<forall>s \<in> set R. re < st_offset s) \<and> (pre \<noteq> Pending \<or> R = [])" for d
    using E(1) c by auto
  have E2: "at_end \<or> color_at ([] @ (q # Q)) d re = Lost \<or> (R \<noteq> [] \<and> st_offset (hd R) = re) \<or> (R = [] \<and> bend \<le> re)" for d
    using E(2) c by auto
  have X: "Lost \<noteq> Pending" by simp
  note pt = paint [OF wf0 L0 M R rr X A A3 E1 E2 R']
  have eq: "[set_color Lost q] @ (if at_end then [State re pre] else []) @ R' = ?ys" by simp
  have col: "color_at ?ys d p = (if ?rs \<le> p \<and> p < re then Lost else color_at ((q # Q) @ R) d p)" if "p < bend" for d p
    using pt(2) [OF that] eq by simp
  have inr: "color_at ((q # Q) @ R) d p \<in> {Flighting, Lost}" if p: "?rs \<le> p" "p < re" for d p
  proof -
    have "color_at R (color_at (q # Q) d p) p = color_at (q # Q) d p"
      using R p by (intro color_at_before) fastforce
    then have "color_at ((q # Q) @ R) d p = color_at (q # Q) d p"
      using color_at_append [of "q # Q" R] wf by simp
    moreover have "\<exists>s \<in> set (q # Q). color_at (q # Q) d p = st_color s"
      using p by (intro color_at_range) simp_all
    ultimately show ?thesis using Q by auto
  qed
  have bel: "color_at ((q # Q) @ R) d p = d" if "p < ?rs" for d p using that by simp
  have "color_at ?ys d p = lose re (color_at ((q # Q) @ R) d p) p" if "d \<noteq> Flighting" "p < bend" for d p
  proof -
    consider "p < ?rs" | "?rs \<le> p" "p < re" | "re \<le> p" by linarith
    then show ?thesis
    proof cases
      case 2
      then show ?thesis using col [OF that(2), of d] inr [of p d] by (auto simp: lose_def)
    qed (use col [OF that(2), of d] that(1) bel rr in \<open>simp_all add: lose_def\<close>)
  qed
  moreover have "\<forall>s \<in> set ?ys. (st_offset s < bend \<or> s \<in> set ((q # Q) @ R)) \<and> (\<exists>t \<in> set ((q # Q) @ R). st_offset t \<le> st_offset s)"
    using bnd E(1) R' rr by (fastforce simp: set_color_def dest: set_dropWhileD)
  ultimately show ?thesis using pt(1) eq unfolding lost_ok_def by simp
qed

lemma lost_ok_behind:
  assumes wf: "bm_wf (s # R)" and R: "\<forall>t \<in> set (s # R). re \<le> st_offset t \<and> st_offset t \<le> bend"
  shows "lost_ok bend re (s # R) (s # R)"
    and "lost_ok bend re (s # R) (s # dropWhile (\<lambda>t. st_color t = st_color s) R)"
proof -
  have col: "color_at (s # dropWhile (\<lambda>t. st_color t = st_color s) R) d p = color_at (s # R) d p" for d p
    using wf color_at_dropWhile [of R "st_color s" p] by (simp add: bm_wf_Cons)
  have id: "lose re (color_at (s # R) d p) p = color_at (s # R) d p" if "d \<noteq> Flighting" for d p
    using R that by (auto simp: lose_def)
  have wf': "bm_wf (s # dropWhile (\<lambda>t. st_color t = st_color s) R)"
    using wf bm_wf_dropWhile by (fastforce simp: bm_wf_Cons dest: set_dropWhileD)
  have off: "(st_offset t < bend \<or> t \<in> set (s # R)) \<and> (\<exists>u \<in> set (s # R). st_offset u \<le> st_offset t)"
    if "t \<in> set (s # R)" for t
    using that by blast
  show "lost_ok bend re (s # R) (s # R)" using wf id off unfolding lost_ok_def by simp
  have "\<forall>t \<in> set (s # dropWhile (\<lambda>t. st_color t = st_color s) R). t \<in> set (s # R)"
    by (auto dest: set_dropWhileD)
  then show "lost_ok bend re (s # R) (s # dropWhile (\<lambda>t. st_color t = st_color s) R)"
    unfolding lost_ok_def using wf' id col off by (intro conjI ballI allI impI) metis+
qed

lemma lost_ok_Recved:
  assumes wf: "bm_wf (s # R)" and s: "st_color s = Recved" and ok: "lost_ok bend re R ys"
  shows "lost_ok bend re (s # R) (s # ys)"
  using assms unfolding lost_ok_def by (fastforce simp: bm_wf_Cons lose_def)

lemma lost_ok_run:
  assumes wf: "bm_wf ((q # Q) @ s # R)" and s: "st_color s = Recved" "st_offset s < re" "re \<le> bend"
    and Q: "\<forall>t \<in> set (q # Q). st_color t \<in> {Flighting, Lost}" and ok: "lost_ok bend re R ys"
  shows "lost_ok bend re ((q # Q) @ s # R) (set_color Lost q # s # ys)"
proof -
  have wfs: "bm_wf (s # R)" using wf by (auto simp: bm_wf_append bm_wf_Cons)
  have ok': "lost_ok bend re (s # R) (s # ys)" by (rule lost_ok_Recved [OF wfs s(1) ok])
  have qs: "st_offset q < st_offset s" using wf by (simp add: bm_wf_Cons)
  have wfy: "bm_wf (s # ys)" and offy: "\<forall>t \<in> set ys. st_offset s < st_offset t" using ok' by (auto simp: lost_ok_def bm_wf_Cons)
  have sp: "color_at ((q # Q) @ s # R) d p = color_at (s # R) (color_at (q # Q) d p) p" for d p
    using color_at_append [OF wf] .
  have "color_at (set_color Lost q # s # ys) d p = lose re (color_at ((q # Q) @ s # R) d p) p"
    if "d \<noteq> Flighting" "p < bend" for d p
  proof -
    consider "p < st_offset q" | "st_offset q \<le> p" "p < st_offset s" | "st_offset s \<le> p" by linarith
    then show ?thesis
    proof cases
      case 1
      then show ?thesis using that qs by (simp add: set_color_def lose_def)
    next
      case 2
      then have "\<exists>t \<in> set (q # Q). color_at (q # Q) d p = st_color t" by (intro color_at_range) simp_all
      then have "color_at (q # Q) d p \<in> {Flighting, Lost}" using Q by auto
      then show ?thesis using 2 s(2) unfolding sp by (auto simp: set_color_def lose_def)
    next
      case 3
      then show ?thesis using that ok qs s(1) unfolding sp by (simp add: set_color_def lost_ok_def)
    qed
  qed
  moreover have "bm_wf (set_color Lost q # s # ys)"
    using wfy qs offy by (auto simp: bm_wf_Cons set_color_def)
  moreover have "\<forall>t \<in> set (set_color Lost q # s # ys). (st_offset t < bend \<or> t \<in> set ((q # Q) @ s # R)) \<and> (\<exists>u \<in> set ((q # Q) @ s # R). st_offset u \<le> st_offset t)"
    using ok' qs s offy by (auto simp: lost_ok_def set_color_def)
  ultimately show ?thesis by (simp add: lost_ok_def)
qed

lemma bm_wf_map_Lost: "bm_wf (A @ Q @ R) \<Longrightarrow> bm_wf (A @ map (set_color Lost) Q @ R)"
proof -
  assume wf: "bm_wf (A @ Q @ R)"
  have "bm_wf Q \<Longrightarrow> bm_wf (map (set_color Lost) Q)"
    by (induction Q) (auto simp: bm_wf_Cons set_color_def)
  then show ?thesis using wf by (auto simp: bm_wf_append set_color_def)
qed

text \<open>
  The loop of \<open>lost_from\<close>, with the deque cut in the part before \<open>idx_start\<close>, the states \<open>Q\<close>
  it has already turned \<open>Lost\<close> and the rest.
\<close>

lemma lost_loop_correct:
  assumes "bm_wf (A @ Q @ R)" and "length (A @ Q @ R) < u64_bound" and "re \<le> bend"
    and "\<forall>s \<in> set Q. st_offset s < re \<and> st_color s \<in> {Flighting, Lost}"
    and "\<forall>s \<in> set R. st_offset s < re \<longrightarrow> st_color s \<noteq> Pending"
    and "\<forall>s \<in> set (Q @ R). st_offset s \<le> bend"
  shows "\<exists>ys. lost_loop bend re (A @ map (set_color Lost) Q @ R) (length A) (length A + length Q) (last_color Q Recved)
      = Ret (A @ ys) \<and> lost_ok bend re (Q @ R) ys"
  using assms
proof (induction R arbitrary: A Q)
  case Nil
  let ?at_end = "re < bend \<and> last_color Q Recved = Flighting"
  have run: "lost_loop bend re (A @ map (set_color Lost) Q @ []) (length A) (length A + length Q) (last_color Q Recved) =
      Ret (lost_finish (length A) (length A + length Q) ?at_end (State re (last_color Q Recved)) (A @ map (set_color Lost) Q))"
    using Nil.prems(3) by (subst lost_loop.simps) (simp add: get_def)
  show ?case
  proof (cases Q)
    case Nil
    then show ?thesis using run by (auto simp: lost_finish_eq lost_ok_def lose_def last_color_def)
  next
    case (Cons q Q')
    have "last_color Q Recved \<in> {Flighting, Lost}"
      using Nil.prems(4) Cons by (simp add: last_color_def)
    then have "lost_ok bend re ((q # Q') @ []) (set_color Lost q # (if ?at_end then [State re (last_color Q Recved)] else []) @ [])"
      using Nil.prems Cons by (intro lost_end) (auto simp: bm_wf_append)
    then show ?thesis using run Cons by (auto simp: lost_finish_eq)
  qed
next
  case (Cons s R)
  let ?xs = "A @ map (set_color Lost) Q @ s # R" and ?i = "length A + length Q" and ?pre = "last_color Q Recved"
  note unf = lost_loop.simps [of bend re ?xs "length A" ?i ?pre]
  have g: "get ?xs ?i = Some s" by (simp add: get_def nth_append)
  consider (rcvd) "st_offset s < re" "st_color s = Recved"
    | (lost) "st_offset s < re" "st_color s \<in> {Flighting, Lost}"
    | (equal) "st_offset s = re" | (greater) "re < st_offset s"
    using Cons.prems(5) by (cases "st_color s") (auto, linarith+)
  then show ?case
  proof cases
    case rcvd
    obtain ys where ys: "lost_loop bend re ((A @ map (set_color Lost) Q @ [s]) @ R) (?i + 1) (?i + 1) Recved
        = Ret ((A @ map (set_color Lost) Q @ [s]) @ ys)" "lost_ok bend re R ys"
      using Cons.IH [of "A @ map (set_color Lost) Q @ [s]" "[]"] Cons.prems bm_wf_map_Lost [of A Q "s # R"]
      by (auto simp: last_color_def)
    have run: "lost_loop bend re ?xs (length A) ?i ?pre =
        Ret (lost_finish (length A) ?i False s (A @ map (set_color Lost) Q @ s # ys))"
      using rcvd ys(1) by (simp add: unf g)
    show ?thesis
    proof (cases Q)
      case Nil
      then show ?thesis
        using run lost_ok_Recved [OF _ rcvd(2) ys(2)] Cons.prems(1,6) by (simp add: lost_finish_eq bm_wf_append)
    next
      case (Cons q Q')
      then have "lost_ok bend re ((q # Q') @ s # R) (set_color Lost q # s # ys)"
        using Cons.prems(1,3,4) rcvd ys(2) by (intro lost_ok_run) (auto simp: bm_wf_append)
      then show ?thesis using run Cons by (auto simp: lost_finish_eq)
    qed
  next
    case lost
    have upd: "?xs[?i := set_color Lost s] = A @ map (set_color Lost) (Q @ [s]) @ R"
      by (simp add: list_update_append)
    have "st_color s \<noteq> Pending" "st_color s \<noteq> Recved" using lost(2) by auto
    then have run: "lost_loop bend re ?xs (length A) ?i ?pre =
        lost_loop bend re (A @ map (set_color Lost) (Q @ [s]) @ R) (length A) (length A + length (Q @ [s])) (last_color (Q @ [s]) Recved)"
      using lost(1) by (simp only: unf g upd) (simp add: upd last_color_def)
    show ?thesis
      using Cons.IH [of A "Q @ [s]"] Cons.prems lost run by simp
  next
    case equal
    let ?e = "run_end ?xs ?i Lost"
    have R: "\<forall>t \<in> set (s # R). re \<le> st_offset t"
      using Cons.prems(1) equal by (auto simp: bm_wf_append bm_wf_Cons)
    have run: "lost_loop bend re ?xs (length A) ?i ?pre = Ret (lost_finish (length A) ?e False s ?xs)"
      using equal Cons.prems(2) same_after_wrapped [of ?i ?xs Lost] by (simp add: unf g)
    have e: "?i \<le> ?e" "?e \<le> length ?xs" "drop ?e ?xs = dropWhile (\<lambda>t. st_color t = Lost) (s # R)"
      using run_end_bounds [of ?i ?xs Lost] drop_run_end [of ?xs ?i Lost] by simp_all
    show ?thesis
    proof (cases Q)
      case Nil
      show ?thesis
      proof (cases "st_color s = Lost")
        case True
        then have "lost_finish (length A) ?e False s ?xs = A @ s # dropWhile (\<lambda>t. st_color t = st_color s) R"
          using e Nil by (subst lost_finish_eq(1)) (auto simp: run_end_eq)
        then show ?thesis
          using run lost_ok_behind(2) [of s R re bend] Cons.prems(1,6) R Nil by (simp add: bm_wf_append)
      next
        case False
        then have "lost_finish (length A) ?e False s ?xs = ?xs"
          using e Nil by (subst lost_finish_eq(2)) (auto simp: run_end_eq)
        then show ?thesis
          using run lost_ok_behind(1) [of s R re bend] Cons.prems(1,6) R Nil by (simp add: bm_wf_append)
      qed
    next
      case (Cons q Q')
      then have "lost_ok bend re ((q # Q') @ s # R)
          (set_color Lost q # (if False then [State re ?pre] else []) @ dropWhile (\<lambda>t. st_color t = Lost) (s # R))"
        using Cons.prems equal R by (intro lost_end) (auto simp: bm_wf_append)
      moreover have "lost_finish (length A) ?e False s ?xs = A @ set_color Lost q # dropWhile (\<lambda>t. st_color t = Lost) (s # R)"
        using e Cons by (subst lost_finish_eq(1)) auto
      ultimately show ?thesis using run Cons by auto
    qed
  next
    case greater
    have R: "\<forall>t \<in> set (s # R). re < st_offset t"
      using Cons.prems(1) greater by (auto simp: bm_wf_append bm_wf_Cons)
    have run: "lost_loop bend re ?xs (length A) ?i ?pre =
        Ret (lost_finish (length A) ?i (?pre = Flighting) (State re ?pre) ?xs)"
      using greater by (simp add: unf g)
    show ?thesis
    proof (cases Q)
      case Nil
      then show ?thesis
        using run lost_ok_behind(1) [of s R re bend] Cons.prems(1,6) R
        by (auto simp: lost_finish_eq bm_wf_append last_color_def intro: less_imp_le)
    next
      case (Cons q Q')
      have "?pre \<in> {Flighting, Lost}" using Cons.prems(4) Cons by (simp add: last_color_def)
      moreover have "re < bend" using Cons.prems(6) greater by auto
      ultimately have "lost_ok bend re ((q # Q') @ s # R)
          (set_color Lost q # (if ?pre = Flighting then [State re ?pre] else []) @ s # R)"
        using Cons.prems Cons R by (intro lost_end) (auto simp: bm_wf_append)
      then show ?thesis using run Cons by (auto simp: lost_finish_eq)
    qed
  qed
qed

lemma lost_from_correct:
  assumes "bm_wf (B @ Z)" and "length (B @ Z) < u64_bound" and "re \<le> bend"
    and "\<forall>s \<in> set Z. st_offset s < re \<longrightarrow> st_color s \<noteq> Pending" and "\<forall>s \<in> set Z. st_offset s \<le> bend"
  obtains ys where "lost_from bend re (length B) (B @ Z) = Ret (B @ ys)" and "lost_ok bend re Z ys"
  using lost_loop_correct [of B "[]" Z re bend] assms by (auto simp: lost_from_def last_color_def)

lemma lost_behind:
  assumes wf: "bm_wf (B @ Z)" and ok: "lost_ok bend re Z ys" and B: "last_color B Recved = Recved" "\<forall>s \<in> set B. st_color s \<noteq> Pending"
  shows "bm_wf (B @ ys)"
    and "p < bend \<Longrightarrow> color_at (B @ ys) Recved p =
      (if \<forall>s \<in> set B. st_offset s \<le> p then lose re (color_at (B @ Z) Recved p) p else color_at (B @ Z) Recved p)"
proof -
  have y: "bm_wf ys" "\<forall>s \<in> set ys. \<exists>t \<in> set Z. st_offset t \<le> st_offset s" using ok by (auto simp: lost_ok_def)
  have lt: "st_offset s < st_offset t" if "s \<in> set B" "t \<in> set ys" for s t
    using wf y(2) that by (fastforce simp: bm_wf_append)
  then show wf': "bm_wf (B @ ys)" using wf y B(2) by (simp add: bm_wf_append)
  note sp = color_at_append [OF wf'] color_at_append [OF wf]
  show "color_at (B @ ys) Recved p =
      (if \<forall>s \<in> set B. st_offset s \<le> p then lose re (color_at (B @ Z) Recved p) p else color_at (B @ Z) Recved p)"
    if "p < bend"
  proof (cases "\<forall>s \<in> set B. st_offset s \<le> p")
    case True
    then have "color_at B Recved p = Recved" using B by (simp add: last_color_color_at)
    then show ?thesis using True that ok unfolding sp lost_ok_def by simp
  next
    case False
    then obtain s where s: "s \<in> set B" "p < st_offset s" by auto
    have "color_at ys d p = d" "color_at Z d p = d" for d
      using s lt wf by (fastforce simp: bm_wf_append intro!: color_at_before)+
    then show ?thesis using False unfolding sp by auto
  qed
qed

lemma loss_scan_plain:
  assumes "length xs < u64_bound" and "re \<le> bend" and "i \<le> length xs"
    and "\<forall>s \<in> set (inside xs i re). st_color s \<noteq> Pending \<and> st_color s \<noteq> Recved"
  shows "loss_scan bend re xs i pre =
    Ret (xs, scan_end Lost (\<lambda>c. c = Flighting) bend re xs (i + length (inside xs i re)) (last_color (inside xs i re) pre))"
  using assms
proof (induction bend re xs i pre rule: loss_scan.induct)
  case (1 bend re xs i pre)
  note unf = loss_scan.simps [of bend re xs i pre]
  show ?case
  proof (cases "i < length xs")
    case True
    show ?thesis
    proof (cases "st_offset (xs ! i) < re")
      case lt: True
      then show ?thesis
        using "1.IH" [of "xs ! i"] "1.prems" True
        by (simp add: unf get_def inside_step last_color_Cons)
    next
      case False
      then show ?thesis
        using True same_after_wrapped [of i xs Lost] "1.prems"
        by (auto simp: unf get_def inside_stop scan_end_def last_color_def)
    qed
  next
    case False
    then show ?thesis
      using "1.prems" by (subst unf) (simp add: get_def inside_stop scan_end_def last_color_def)
  qed
qed

lemma loss_scan_Recved:
  assumes "inside xs i re = P @ r # T" and "\<forall>s \<in> set P. st_color s \<noteq> Pending \<and> st_color s \<noteq> Recved"
    and "st_color r = Recved"
  shows "loss_scan bend re xs i pre =
    bind_run (lost_from bend re (i + length P + 1) xs) (\<lambda>xs'. Ret (xs', i + length P, False, last_color P pre))"
  using assms
proof (induction P arbitrary: i pre)
  case Nil
  then have i: "i < length xs" "st_offset (xs ! i) < re"
    using inside_stop by (metis list.distinct(1) append_Nil linorder_not_less)+
  then show ?case using Nil inside_step [OF i]
    by (subst loss_scan.simps) (simp add: get_def last_color_def)
next
  case (Cons s P)
  then have i: "i < length xs" "st_offset (xs ! i) < re"
    using inside_stop by (metis list.distinct(1) append_Cons linorder_not_less)+
  then show ?case using Cons inside_step [OF i]
    by (subst loss_scan.simps) (simp add: get_def last_color_Cons)
qed

definition lost_in_shape :: "nat \<Rightarrow> buf_map \<Rightarrow> nat \<Rightarrow> nat \<Rightarrow> buf_map \<Rightarrow> bool" where
  "lost_in_shape sl m rs re m' \<longleftrightarrow>
     bm_shape sl m' \<and> bm_end m' = bm_end m \<and>
     (\<forall>p < bm_end m. bm_color m' p = (if rs \<le> p \<and> p < re \<and> bm_color m p = Flighting then Lost else bm_color m p))"

abbreviation lost_in :: "buf_map \<Rightarrow> nat \<Rightarrow> nat \<Rightarrow> buf_map \<Rightarrow> bool" where
  "lost_in \<equiv> lost_in_shape 0"

lemma painted_lost_in:
  assumes "painted_shape sl m rs re Lost m'" and "\<forall>p. rs \<le> p \<and> p < re \<longrightarrow> bm_color m p \<in> {Flighting, Lost}"
  shows "lost_in_shape sl m rs re m'"
  using assms unfolding painted_shape_def lost_in_shape_def by fastforce

lemma range_colors:
  assumes wf: "bm_wf xs" and r: "rs < re" and i: "i = lower_bound rs xs"
    and M: "\<forall>s \<in> set (inside xs i re). st_color s \<in> C"
    and pre: "(i < length xs \<longrightarrow> st_offset (xs ! i) \<noteq> rs) \<longrightarrow> last_color (take i xs) Recved \<in> C"
    and p: "rs \<le> p" "p < re"
  shows "color_at xs Recved p \<in> C"
proof -
  note cut = cut_range [OF wf r, folded i]
  let ?L = "take i xs" and ?M = "inside xs i re" and ?R = "drop (i + length (inside xs i re)) xs"
  have "color_at xs Recved p = color_at ?R (color_at ?M (color_at ?L Recved p) p) p"
    using wf cut(1) color_at_append [of ?L "?M @ ?R" Recved p] color_at_append [of ?M ?R]
    by (metis append_assoc bm_wf_append)
  also have "\<dots> = color_at ?M (color_at ?L Recved p) p"
    using cut(4) p by (intro color_at_before) fastforce
  also have "color_at ?L Recved p = last_color ?L Recved"
    using cut(2) p by (intro last_color_color_at) fastforce
  finally have eq: "color_at xs Recved p = color_at ?M (last_color ?L Recved) p" .
  show ?thesis
  proof (cases "?M \<noteq> [] \<and> st_offset (hd ?M) \<le> p")
    case True
    then show ?thesis using M color_at_range [of ?M p "last_color ?L Recved"] eq by auto
  next
    case False
    have "st_offset (xs ! i) \<noteq> rs" if "i < length xs"
      using False inside_step [OF that, of re] p by auto
    moreover have "color_at ?M (last_color ?L Recved) p = last_color ?L Recved"
      using False by (cases ?M) auto
    ultimately show ?thesis using pre eq by simp
  qed
qed

text \<open>
  The scan of \<open>may_loss\<close> and the edit that follows it. \<open>xs1\<close> is the deque after the state at the
  start of the range was turned, \<open>j\<close> where the scan starts, \<open>F\<close> what lies before it.
\<close>

lemma loss_scan_acked:
  assumes inv: "bm_shape sl m" and range: "rs < re" "re \<le> bm_end m" and i: "i = lower_bound rs (bm_states m)"
    and xs: "bm_states m = L @ F @ P @ r # Z" "length L = i"
    and Z: "\<forall>s \<in> set Z. st_offset s < re \<longrightarrow> st_color s \<noteq> Pending"
    and L1: "bm_wf (L1 @ P @ r # Z)" "length L1 = length (L @ F)"
    and F: "\<forall>s \<in> set (F @ P). st_color s \<in> {Flighting, Lost}"
      "F @ P = [] \<longrightarrow> last_color L Recved \<in> {Flighting, Lost}"
    and r: "st_color r = Recved" "rs < st_offset r" "st_offset r < re"
    and A: "prefix_ok (bm_states m) i rs Lost A"
  obtains ys where "loss_scan (bm_end m) re (L1 @ P @ r # Z) (length L1) pc =
      Ret (L1 @ P @ r # ys, length L1 + length P, False, last_color P pc)"
    and "painted_shape sl m rs (st_offset r) Lost (m\<lparr>bm_states := A @ r # Z\<rparr>)" and "lost_ok (bm_end m) re Z ys"
proof -
  let ?xs = "bm_states m" and ?k = "i + length (F @ P)"
  have wf: "bm_wf ?xs" and bnd: "\<forall>s \<in> set ?xs. st_offset s \<le> bm_end m" using inv by (fastforce simp: bm_shape_def)+
  have FP: "\<forall>s \<in> set (F @ P). st_offset s < st_offset r" using wf xs by (auto simp: bm_wf_append bm_wf_Cons)
  have FP': "\<forall>s \<in> set P. st_offset s < re" using FP r(3) by (auto intro: less_trans)
  have in1: "inside (L1 @ P @ r # Z) (length L1) re = P @ r # takeWhile (\<lambda>s. st_offset s < re) Z"
    using FP' r(3) by (simp add: inside_def takeWhile_append)
  have len: "length ((L1 @ P @ [r]) @ Z) < u64_bound" using bm_shape_length [OF inv] xs L1(2) by simp
  have "\<forall>s \<in> set Z. st_offset s \<le> bm_end m" using bnd xs(1) by simp
  then obtain ys where ys: "lost_from (bm_end m) re (length (L1 @ P @ [r])) ((L1 @ P @ [r]) @ Z) = Ret ((L1 @ P @ [r]) @ ys)"
      "lost_ok (bm_end m) re Z ys"
    using lost_from_correct [OF _ len range(2) Z] L1(1) by auto
  have Pcol: "\<forall>s \<in> set P. st_color s \<noteq> Pending \<and> st_color s \<noteq> Recved"
    using F(1) by (metis Un_iff color.distinct empty_iff insert_iff set_append)
  have scan: "loss_scan (bm_end m) re (L1 @ P @ r # Z) (length L1) pc =
      Ret (L1 @ P @ r # ys, length L1 + length P, False, last_color P pc)"
    using loss_scan_Recved [OF in1 Pcol r(1), of "bm_end m" pc] ys(1) by simp
  let ?c = "last_color (F @ P) (last_color L Recved)"
  have TW: "take i ?xs = L" using xs by simp
  have M: "F @ P = inside ?xs i (st_offset r)" using xs FP by (simp add: inside_def takeWhile_append)
  have c: "?c \<in> {Flighting, Lost}"
    using F by (intro last_color_mem) auto
  then have np: "?c \<noteq> Pending" and keep: "?c = Flighting \<or> ?c = Lost" by auto
  have k: "?k < length ?xs" "?xs ! ?k = r" using xs by (simp_all add: nth_append)
  then have "run_end ?xs ?k Lost = ?k" using r(1) by (simp add: run_end.simps get_def)
  then have se: "scan_end Lost (\<lambda>c. c = Flighting) (bm_end m) (st_offset r) ?xs (i + length (F @ P)) ?c = (?k, False, ?c)"
    using k by (simp add: scan_end_def)
  have re': "st_offset r \<le> bm_end m" using r(3) range(2) by simp
  have X: "Lost \<noteq> Pending" by simp
  have c0: "?c = last_color (F @ P) (last_color (take i ?xs) Recved)" using TW by simp
  have "painted_shape sl m rs (st_offset r) Lost (m\<lparr>bm_states := A @ (if False then [State (st_offset r) ?c] else []) @ drop ?k ?xs\<rparr>)"
    by (rule paint_result(1) [OF inv r(2) re' X refl i M A c0 np keep se])
  moreover have "drop ?k ?xs = r # Z" using xs by simp
  ultimately show thesis using that [OF scan _ ys(2)] by simp
qed

lemma bm_shape_lost_tail:
  assumes inv: "bm_shape sl (m\<lparr>bm_states := A @ Z\<rparr>)" and ok: "lost_ok (bm_end m) re Z ys" and wf: "bm_wf (A @ ys)"
  shows "bm_shape sl (m\<lparr>bm_states := A @ ys\<rparr>)"
proof -
  have "(s \<in> set (A @ Z) \<or> st_offset s < bm_end m)" if "s \<in> set (A @ ys)" for s
    using that ok by (auto simp: lost_ok_def)
  then have "st_offset s < bm_end m + sl \<and> (bm_end m \<le> st_offset s \<longrightarrow> st_color s \<noteq> Pending)" if "s \<in> set (A @ ys)" for s
    using inv that by (fastforce simp: bm_shape_def)
  then show ?thesis using inv wf by (simp add: bm_shape_def)
qed

lemma painted_lost_in_acked:
  assumes "painted_shape sl m rs (st_offset r) Lost (m\<lparr>bm_states := A @ r # Z\<rparr>)" and ok: "lost_ok (bm_end m) re Z ys"
    and r: "st_color r = Recved" "rs < st_offset r" "st_offset r < re" and rend: "re \<le> bm_end m"
    and cols: "\<forall>p. rs \<le> p \<and> p < st_offset r \<longrightarrow> bm_color m p \<in> {Flighting, Lost}"
  shows "lost_in_shape sl m rs re (m\<lparr>bm_states := A @ r # ys\<rparr>)"
proof -
  have wf: "bm_wf ((A @ [r]) @ Z)" and bnd: "\<forall>s \<in> set (A @ [r] @ Z). st_offset s < bm_end m + sl" and e: "bm_end m < 2 ^ 62" "sl \<le> 1"
    and col: "\<And>p. p < bm_end m \<Longrightarrow> color_at ((A @ [r]) @ Z) Recved p = (if rs \<le> p \<and> p < st_offset r then Lost else bm_color m p)"
    using assms(1) by (auto simp: painted_shape_def bm_shape_def bm_color_def)
  have B: "last_color (A @ [r]) Recved = Recved" "\<forall>s \<in> set (A @ [r]). st_color s \<noteq> Pending"
    using r(1) wf by (auto simp: last_color_def bm_wf_append)
  note lb = lost_behind [OF wf ok B]
  have Ar: "(\<forall>s \<in> set (A @ [r]). st_offset s \<le> p) \<longleftrightarrow> st_offset r \<le> p" for p
    using wf by (fastforce simp: bm_wf_append)
  have "bm_shape sl (m\<lparr>bm_states := (A @ [r]) @ ys\<rparr>)"
    by (rule bm_shape_lost_tail [OF _ ok]) (use assms(1) lb(1) in \<open>simp_all add: painted_shape_def\<close>)
  then have "bm_shape sl (m\<lparr>bm_states := A @ r # ys\<rparr>)" by simp
  moreover have "color_at (A @ r # ys) Recved p = (if rs \<le> p \<and> p < re \<and> bm_color m p = Flighting then Lost else bm_color m p)"
    if "p < bm_end m" for p
    using lb(2) [OF that] col [OF that] cols r that unfolding Ar by (auto simp: lose_def)
  ultimately show ?thesis by (simp add: lost_in_shape_def bm_color_def)
qed

definition loss_start :: "nat \<Rightarrow> state list \<Rightarrow> state list \<Rightarrow> bool" where
  "loss_start rs L F \<longleftrightarrow>
     (F = [] \<and> last_color L Recved \<in> {Flighting, Lost}) \<or>
     (\<exists>q. F = [q] \<and> st_offset q = rs \<and> st_color q \<in> {Flighting, Lost})"

lemma loss_range_colors:
  assumes inv: "bm_shape sl m" and r: "rs < re" and i: "i = lower_bound rs (bm_states m)"
    and xs: "bm_states m = L @ F @ S" "length L = i" and F: "loss_start rs L F"
    and M: "\<forall>s \<in> set (inside (bm_states m) i re). st_color s \<in> {Flighting, Lost}"
  shows "\<forall>p. rs \<le> p \<and> p < re \<longrightarrow> bm_color m p \<in> {Flighting, Lost}"
proof (intro allI impI)
  fix p assume p: "rs \<le> p \<and> p < re"
  have wf: "bm_wf (bm_states m)" using inv by (simp add: bm_shape_def)
  have "(i < length (bm_states m) \<longrightarrow> st_offset (bm_states m ! i) \<noteq> rs) \<longrightarrow>
      last_color (take i (bm_states m)) Recved \<in> {Flighting, Lost}"
    using F xs by (auto simp: loss_start_def)
  then show "bm_color m p \<in> {Flighting, Lost}"
    using range_colors [OF wf r i M] p by (simp add: bm_color_def)
qed

lemma loss_finish_plain:
  assumes inv: "bm_shape sl m" and range: "rs < re" "re \<le> bm_end m" and i: "i = lower_bound rs (bm_states m)"
    and xs: "bm_states m = L @ F @ S" "length L = i" and L1: "length L1 = length (L @ F)"
    and F: "loss_start rs L F" and S: "\<forall>s \<in> set (takeWhile (\<lambda>s. st_offset s < re) S). st_color s \<in> {Flighting, Lost}"
    and A: "prefix_ok (bm_states m) i rs Lost A" "A = take ds L1 @ (if at_start then [State rs Lost] else [])" "ds \<le> length L1"
  shows "\<exists>m'. bind_run (loss_scan (bm_end m) re (L1 @ S) (length L1) (last_color F (last_color L Recved)))
     (\<lambda>(xs2, de, at_end, c'). Ret (m\<lparr>bm_states :=
        finish_edit ds de at_start (State rs Lost) at_end (State re c') xs2\<rparr>)) = Ret m' \<and> lost_in_shape sl m rs re m'"
proof -
  let ?xs = "bm_states m" and ?pre = "last_color L Recved" and ?M = "takeWhile (\<lambda>s. st_offset s < re) S"
    and ?se = "scan_end Lost (\<lambda>c. c = Flighting) (bm_end m) re"
  have Fre: "\<forall>s \<in> set F. st_offset s < re" using F range(1) by (auto simp: loss_start_def)
  have in0: "F @ ?M = inside ?xs i re" using xs Fre by (auto simp: inside_def takeWhile_append)
  have in1: "inside (L1 @ S) (length L1) re = ?M" by (simp add: inside_def)
  have Mcol: "\<forall>s \<in> set (F @ ?M). st_color s \<in> {Flighting, Lost}" using F S by (auto simp: loss_start_def)
  have len: "length (L1 @ S) < u64_bound" using bm_shape_length [OF inv] xs L1 by simp
  let ?c = "last_color (F @ ?M) ?pre"
  have "?c \<in> {Flighting, Lost}"
    using Mcol F by (intro last_color_mem) (auto simp: loss_start_def)
  then have np: "?c \<noteq> Pending" and keep: "?c = Flighting \<or> ?c = Lost" by auto
  obtain de at_end c' where se: "?se ?xs (i + length (F @ ?M)) ?c = (de, at_end, c')" by (metis prod_cases3)
  have "?se (L1 @ S) (length L1 + length ?M) ?c = ?se ?xs (length L1 + length ?M) ?c"
    using L1 xs by (intro scan_end_drop) simp_all
  then have se1: "?se (L1 @ S) (length L1 + length ?M) ?c = (de, at_end, c')" using se L1 xs(2) by (simp add: add.assoc)
  have cc: "last_color ?M (last_color F ?pre) = ?c" by (simp add: last_color_append)
  have scan: "loss_scan (bm_end m) re (L1 @ S) (length L1) (last_color F ?pre) = Ret (L1 @ S, de, at_end, c')"
    using loss_scan_plain [OF len range(2), of "length L1" "last_color F ?pre"] S se1 by (fastforce simp: in1 cc)
  have TW: "?c = last_color (F @ ?M) (last_color (take i ?xs) Recved)" using xs by simp
  have X: "Lost \<noteq> Pending" by simp
  note pr = paint_result [OF inv range X refl i in0 A(1) TW np keep se]
  have de: "length L1 \<le> de" "de \<le> length (L1 @ S)" using pr(2,3) xs L1 by simp_all
  have dr: "drop de (L1 @ S) = drop de ?xs" using de L1 xs by simp
  have "finish_edit ds de at_start (State rs Lost) at_end (State re c') (L1 @ S) =
      A @ (if at_end then [State re c'] else []) @ drop de ?xs"
    using de A(2,3) by (subst finish_edit_eq) (simp_all add: dr [symmetric])
  moreover have "lost_in_shape sl m rs re (m\<lparr>bm_states := A @ (if at_end then [State re c'] else []) @ drop de ?xs\<rparr>)"
    using pr(1) loss_range_colors [OF inv range(1) i xs F] Mcol in0 by (intro painted_lost_in) simp_all
  ultimately show ?thesis using scan by simp
qed

lemma loss_finish_acked:
  assumes inv: "bm_shape sl m" and range: "rs < re" "re \<le> bm_end m" and i: "i = lower_bound rs (bm_states m)"
    and xs: "bm_states m = L @ F @ P @ r # Z" "length L = i"
    and Z: "\<forall>s \<in> set Z. st_offset s < re \<longrightarrow> st_color s \<noteq> Pending"
    and L1: "bm_wf (L1 @ P @ r # Z)" "length L1 = length (L @ F)"
    and F: "loss_start rs L F" and P: "\<forall>s \<in> set P. st_color s \<in> {Flighting, Lost}"
    and r: "st_color r = Recved" "rs < st_offset r" "st_offset r < re"
    and A: "prefix_ok (bm_states m) i rs Lost A" "A = take ds L1 @ (if at_start then [State rs Lost] else [])" "ds \<le> length L1"
  shows "\<exists>m'. bind_run (loss_scan (bm_end m) re (L1 @ P @ r # Z) (length L1) pc)
     (\<lambda>(xs2, de, at_end, c'). Ret (m\<lparr>bm_states :=
        finish_edit ds de at_start (State rs Lost) at_end (State re c') xs2\<rparr>)) = Ret m' \<and> lost_in_shape sl m rs re m'"
proof -
  have FP: "\<forall>s \<in> set (F @ P). st_color s \<in> {Flighting, Lost}" using F P by (auto simp: loss_start_def)
  have FP0: "F @ P = [] \<longrightarrow> last_color L Recved \<in> {Flighting, Lost}" using F by (auto simp: loss_start_def)
  obtain ys where ys: "loss_scan (bm_end m) re (L1 @ P @ r # Z) (length L1) pc =
      Ret (L1 @ P @ r # ys, length L1 + length P, False, last_color P pc)"
    "painted_shape sl m rs (st_offset r) Lost (m\<lparr>bm_states := A @ r # Z\<rparr>)" "lost_ok (bm_end m) re Z ys"
    using loss_scan_acked [OF inv range i xs Z L1 FP FP0 r A(1)] by blast
  have "bm_wf (bm_states m)" using inv by (simp add: bm_shape_def)
  then have "\<forall>s \<in> set (F @ P). st_offset s < st_offset r" using xs(1) by (auto simp: bm_wf_append bm_wf_Cons)
  then have "inside (bm_states m) i (st_offset r) = F @ P"
    using xs by (auto simp: inside_def takeWhile_append)
  then have "\<forall>p. rs \<le> p \<and> p < st_offset r \<longrightarrow> bm_color m p \<in> {Flighting, Lost}"
    using loss_range_colors [OF inv r(2) i xs F] FP by simp
  then have "lost_in_shape sl m rs re (m\<lparr>bm_states := A @ r # ys\<rparr>)"
    using painted_lost_in_acked [OF ys(2,3) r range(2)] by simp
  moreover have "finish_edit ds (length L1 + length P) at_start (State rs Lost) False (State re c) (L1 @ P @ r # ys) = A @ r # ys" for c
    using A(2,3) by (subst finish_edit_eq) simp_all
  ultimately show ?thesis using ys(1) by simp
qed

lemma loss_finish:
  assumes inv: "bm_shape sl m" and range: "rs < re" "re \<le> bm_end m" and i: "i = lower_bound rs (bm_states m)"
    and nopend: "\<forall>p. rs \<le> p \<and> p < re \<longrightarrow> bm_color m p \<noteq> Pending"
    and xs: "bm_states m = L @ F @ S" "length L = i" and S: "\<forall>s \<in> set S. rs < st_offset s"
    and L1: "bm_wf (L1 @ S)" "length L1 = length (L @ F)" and F: "loss_start rs L F"
    and A: "prefix_ok (bm_states m) i rs Lost A" "A = take ds L1 @ (if at_start then [State rs Lost] else [])" "ds \<le> length L1"
  shows "\<exists>m'. bind_run (loss_scan (bm_end m) re (L1 @ S) (length L1) (last_color F (last_color L Recved)))
     (\<lambda>(xs2, de, at_end, c'). Ret (m\<lparr>bm_states :=
        finish_edit ds de at_start (State rs Lost) at_end (State re c') xs2\<rparr>)) = Ret m' \<and> lost_in_shape sl m rs re m'"
proof -
  let ?xs = "bm_states m" and ?M = "takeWhile (\<lambda>s. st_offset s < re) S"
  have wf: "bm_wf ?xs" using inv by (simp add: bm_shape_def)
  have np: "st_color s \<noteq> Pending" if "s \<in> set S" "st_offset s < re" for s
    using nopend color_at_mem [OF wf, of s Recved] that xs(1) S by (auto simp: bm_color_def dest: less_imp_le)
  have Mnp: "st_color s \<noteq> Pending \<and> st_offset s < re \<and> s \<in> set S" if "s \<in> set ?M" for s
    using that np by (metis set_takeWhileD)
  have two: "c \<in> {Flighting, Lost}" if "c \<noteq> Pending" "c \<noteq> Recved" for c using that by (cases c) auto
  show ?thesis
  proof (cases "\<exists>r \<in> set ?M. st_color r = Recved")
    case False
    then show ?thesis
      using loss_finish_plain [OF inv range i xs L1(2) F _ A] Mnp two by blast
  next
    case True
    then obtain P r T where PT: "?M = P @ r # T" "st_color r = Recved" "\<forall>s \<in> set P. st_color s \<noteq> Recved"
      using split_list_first_prop [of ?M "\<lambda>s. st_color s = Recved"] by blast
    then obtain Z where S': "S = P @ r # Z"
      by (metis append.assoc append_Cons takeWhile_dropWhile_id)
    have "\<forall>s \<in> set P. st_color s \<in> {Flighting, Lost}" using PT Mnp two by auto
    moreover have "rs < st_offset r" "st_offset r < re" using Mnp [of r] S PT(1) by auto
    ultimately show ?thesis
      using loss_finish_acked [OF inv range i _ xs(2) _ _ L1(2) F _ PT(2) _ _ A, of P Z] xs(1) L1(1) np
      unfolding S' by auto
  qed
qed

text \<open>
  What \<open>may_loss\<close> does: the bytes of the range that are in flight turn \<open>Lost\<close>, everything else
  keeps its colour. Beside the conditions of \<open>ack_rcvd\<close> it needs the start of the range not to be
  where an acknowledged interval begins; the theorems at the end of the section show why.
\<close>

lemma may_loss_correct:
  assumes inv: "bm_shape sl m" and range: "rs < re" "re \<le> bm_end m"
    and nopend: "\<forall>p. rs \<le> p \<and> p < re \<longrightarrow> bm_color m p \<noteq> Pending"
    and start: "bm_color m rs \<noteq> Recved \<or>
      rs \<notin> st_offset ` set (bm_states m) \<and> (\<exists>s \<in> set (bm_states m). st_offset s < rs)"
  shows "\<exists>m'. may_loss (rs, re) m = Ret m' \<and> lost_in_shape sl m rs re m'"
proof -
  define xs where "xs = bm_states m"
  define i where "i = lower_bound rs xs"
  have i0: "i = lower_bound rs (bm_states m)" by (simp add: i_def xs_def)
  have wf: "bm_wf xs" using inv by (simp add: bm_shape_def xs_def)
  have np: "Lost \<noteq> Pending" by simp
  note cut = cut_range [OF wf range(1), folded i_def]
  have two: "c \<in> {Flighting, Lost}" if "c \<noteq> Pending" "c \<noteq> Recved" for c using that by (cases c) auto
  show ?thesis
  proof (cases rule: binary_search_cases [of rs xs])
    case (found k)
    then have k: "k = i" and ri: "i < length xs" "st_offset (xs ! i) = rs" by (simp_all add: i_def)
    let ?q = "xs ! i" and ?L = "take i xs" and ?S = "drop (Suc i) xs"
    have split: "xs = ?L @ [?q] @ ?S" using ri(1) by (simp add: id_take_nth_drop)
    have "bm_color m rs = st_color ?q" using color_at_mem [OF wf, of ?q] ri by (simp add: bm_color_def xs_def)
    then have q: "st_color ?q \<in> {Flighting, Lost}"
    proof -
      have "?q \<in> set (bm_states m)" using ri(1) by (simp add: xs_def)
      then have "rs \<in> st_offset ` set (bm_states m)" using ri(2) by (metis image_eqI)
      then have "bm_color m rs \<noteq> Recved" using start by blast
      moreover have "bm_color m rs \<noteq> Pending" using nopend range(1) by simp
      ultimately show ?thesis using two \<open>bm_color m rs = st_color ?q\<close> by simp
    qed
    define xs1 where "xs1 = xs[i := State rs Lost]"
    have L1: "xs1 = (?L @ [State rs Lost]) @ ?S" using ri by (simp add: xs1_def upd_conv_take_nth_drop)
    have wf1: "bm_wf ((?L @ [State rs Lost]) @ ?S)"
      using bm_wf_recolor [OF wf ri(1) np] ri(2) L1 by (simp add: xs1_def)
    have S: "\<forall>s \<in> set ?S. rs < st_offset s" using wf split ri(2) by (metis bm_wf_append bm_wf_Cons append_Cons append_Nil)
    have F: "loss_start rs ?L [?q]" using q ri(2) by (simp add: loss_start_def)
    define ds where "ds = (if st_color ?q = Flighting then same_before xs1 i Lost + 1 else i + 1)"
    note fp = found_prefix [OF wf range(1) i_def ri np, folded xs1_def]
    have ds: "ds \<le> length (?L @ [State rs Lost])" using fp(2) ri(1) by (simp add: ds_def)
    have tk: "take ds xs1 = take ds (?L @ [State rs Lost])"
      using ds unfolding L1 by (subst take_append) simp
    have pre: "prefix_ok xs i rs Lost (take ds (?L @ [State rs Lost]))"
      using fp(1) found_prefix_plain [OF wf range(1) i_def ri(1) np] ri(1) ds unfolding tk [symmetric]
      by (simp add: ds_def L1)
    have "\<exists>m'. bind_run (loss_scan (bm_end m) re ((?L @ [State rs Lost]) @ ?S) (length (?L @ [State rs Lost])) (last_color [?q] (last_color ?L Recved)))
     (\<lambda>(xs2, de, at_end, c'). Ret (m\<lparr>bm_states :=
        finish_edit ds de False (State rs Lost) at_end (State re c') xs2\<rparr>)) = Ret m' \<and> lost_in_shape sl m rs re m'"
      by (rule loss_finish [OF inv range i0 nopend _ _ S wf1 _ F _ _ ds]) (use split ri pre in \<open>simp_all add: xs_def [symmetric]\<close>)
    moreover have "(if st_color ?q = Flighting then xs[i := set_color Lost ?q] else xs) = xs1"
      using q ri by (auto simp: xs1_def set_color_def) (metis list_update_id state.collapse)
    ultimately show ?thesis
      using found(1) k ri q unfolding L1 [symmetric]
      by (auto simp: may_loss_def xs_def [symmetric] Let_def last_color_def ds_def)
  next
    case (absent k)
    then have k: "k = i" and ab: "i < length xs \<Longrightarrow> st_offset (xs ! i) \<noteq> rs" by (simp_all add: i_def)
    let ?L = "take i xs" and ?S = "drop i xs"
    let ?pre = "last_color ?L Recved"
    have Lsplit: "bm_states m = ?L @ [] @ ?S" "length ?L = i" using cut(5) by (simp_all add: xs_def)
    have S: "\<forall>s \<in> set ?S. rs < st_offset s"
    proof
      fix s assume "s \<in> set ?S"
      then obtain n where "n < length ?S" "s = ?S ! n" by (metis in_set_conv_nth)
      then have n: "i + n < length xs" "s = xs ! (i + n)" by simp_all
      then show "rs < st_offset s"
        using ab cut(6) bm_wf_nth [OF wf, of i "i + n"] by (cases n) force+
    qed
    have rsc: "bm_color m rs = ?pre"
      using start_color [OF wf range(1) i_def ab] by (simp add: bm_color_def xs_def)
    then have pre: "?pre \<noteq> Pending" using nopend range(1) by (metis order_refl)
    have "i \<noteq> 0"
    proof
      assume "i = 0"
      then show False using start rsc S by (auto simp: last_color_def xs_def [symmetric] dest: bspec)
    qed
    then have pre_eq: "st_color (xs ! (i - 1)) = ?pre"
      using cut(5) by (cases "xs = []") (simp_all add: last_color_def last_conv_nth)
    show ?thesis
    proof (cases "?pre = Recved")
      case True
      have "\<forall>s \<in> set ?S. st_offset s < re \<longrightarrow> st_color s \<noteq> Pending"
        using nopend color_at_mem [OF wf] S by (metis bm_color_def in_set_dropD less_imp_le xs_def)
      moreover have "\<forall>s \<in> set ?S. st_offset s \<le> bm_end m" using inv by (fastforce simp: bm_shape_def xs_def dest: in_set_dropD)
      ultimately obtain ys where ys: "lost_from (bm_end m) re i xs = Ret (?L @ ys)" "lost_ok (bm_end m) re ?S ys"
        using lost_from_correct [of ?L ?S re "bm_end m"] bm_shape_length [OF inv] wf range(2) Lsplit
        by (auto simp: xs_def [symmetric])
      have "\<forall>s \<in> set ?L. st_color s \<noteq> Pending"
        using absent_prefix [OF wf range(1) i_def pre, of Recved] True by (auto simp: prefix_ok_def)
      note lb = lost_behind [OF _ ys(2) True this]
      have inv': "bm_shape sl (m\<lparr>bm_states := ?L @ ys\<rparr>)"
        by (rule bm_shape_lost_tail [OF _ ys(2)]) (use inv lb(1) wf in \<open>simp_all add: xs_def\<close>)
      have "color_at (?L @ ys) Recved p = (if rs \<le> p \<and> p < re \<and> bm_color m p = Flighting then Lost else bm_color m p)"
        if "p < bm_end m" for p
      proof (cases "rs \<le> p")
        case True
        then have "\<forall>s \<in> set ?L. st_offset s \<le> p" using cut(2) by fastforce
        then show ?thesis using True lb(2) [of p] wf that by (simp add: lose_def bm_color_def xs_def)
      next
        case False
        then have "\<forall>s \<in> set ?S. p < st_offset s" using S by (auto intro: less_trans)
        then have Lp: "color_at (?L @ ?S) Recved p = color_at ?L Recved p"
          using color_at_append [of ?L ?S Recved p] wf by (simp add: color_at_before)
        have "color_at ?L Recved p = Recved" if "\<forall>s \<in> set ?L. st_offset s \<le> p"
          using that \<open>?pre = Recved\<close> by (simp add: last_color_color_at)
        then show ?thesis using False lb(2) [of p] wf that Lp by (auto simp: lose_def bm_color_def xs_def)
      qed
      then have "lost_in_shape sl m rs re (m\<lparr>bm_states := ?L @ ys\<rparr>)" using inv' by (simp add: lost_in_shape_def bm_color_def)
      then show ?thesis
        using absent(1) k ys(1) pre_eq True \<open>i \<noteq> 0\<close> by (simp add: may_loss_def xs_def [symmetric])
    next
      case False
      then have F: "loss_start rs ?L []" using pre two by (simp add: loss_start_def)
      have A: "prefix_ok (bm_states m) i rs Lost (take i ?L @ (if ?pre = Flighting then [State rs Lost] else []))"
        using absent_prefix [OF wf range(1) i_def pre np] two [OF pre False] Lsplit(2)
        by (cases ?pre) (simp_all add: xs_def [symmetric])
      have "\<exists>m'. bind_run (loss_scan (bm_end m) re (?L @ ?S) (length ?L) (last_color [] ?pre))
       (\<lambda>(xs2, de, at_end, c'). Ret (m\<lparr>bm_states :=
          finish_edit i de (?pre = Flighting) (State rs Lost) at_end (State re c') xs2\<rparr>)) = Ret m' \<and> lost_in_shape sl m rs re m'"
        by (rule loss_finish [OF inv range i0 nopend Lsplit S _ _ F A refl]) (use wf Lsplit in simp_all)
      then show ?thesis
        using absent(1) k pre_eq pre False \<open>i \<noteq> 0\<close> Lsplit(2)
        by (simp add: may_loss_def xs_def [symmetric] Let_def last_color_def [of "[]"])
    qed
  qed
qed

end
