(* ===== verification/Buf_Map_Pick.thy ===== *)
theory Buf_Map_Pick
  imports Buf_Map
begin

section \<open>Extending, picking and shifting the send buffer's map\<close>

text \<open>
  The remaining operations of \<open>BufMap\<close> (qrecovery/src/send/sndbuf.rs): \<open>extend_to\<close> adds unsent
  bytes, \<open>sent\<close> is where they begin, \<open>pick\<close> puts the first sendable interval in flight and
  \<open>shift\<close> forgets an acknowledged prefix.
\<close>

lemma bm_inv_extend:
  assumes inv: "bm_inv m" and pos: "bm_end m < pos" "pos < 2 ^ 62"
  shows "\<exists>m'. extend_to pos m = Ret (pos, m') \<and> bm_inv m' \<and> bm_end m' = pos \<and>
    (\<forall>p < pos. bm_color m' p = (if p < bm_end m then bm_color m p else Pending))"
proof (cases "bm_states m \<noteq> [] \<and> st_color (last (bm_states m)) = Pending")
  case True
  have "bm_color m p = Pending" if "bm_end m \<le> p" for p
    using True inv that by (subst bm_color_def, subst color_at_after) (auto simp: bm_shape_def)
  moreover have "bm_inv (m\<lparr>bm_end := pos\<rparr>)" using inv pos by (auto simp: bm_shape_def)
  moreover have "extend_to pos m = Ret (pos, m\<lparr>bm_end := pos\<rparr>)"
    using True pos by (simp add: extend_to_def push_bit_eq_mult)
  ultimately show ?thesis by (auto simp: bm_color_def)
next
  case False
  let ?xs = "bm_states m @ [State (bm_end m) Pending]"
  have np: "\<forall>s \<in> set (bm_states m). st_color s \<noteq> Pending"
    using False inv by (cases "bm_states m" rule: rev_cases) (auto simp: bm_shape_def bm_wf_append)
  have inv': "bm_inv \<lparr>bm_states = ?xs, bm_end = pos\<rparr>"
    using inv np pos by (auto simp: bm_shape_def bm_wf_append bm_wf_Cons)
  then have "color_at ?xs Recved p = (if p < bm_end m then bm_color m p else Pending)" for p
    using color_at_append [of "bm_states m" "[State (bm_end m) Pending]" Recved p]
    by (simp add: bm_shape_def bm_color_def)
  then show ?thesis
    using False pos inv' by (auto simp: extend_to_def push_bit_eq_mult bm_color_def)
qed

lemma color_at_prop: "\<forall>s \<in> set xs. Q (st_color s) \<Longrightarrow> Q d \<Longrightarrow> Q (color_at xs d p)"
  by (induction xs arbitrary: d) auto

lemma sent_color:
  assumes inv: "bm_shape sl m" and p: "p < bm_end m"
  shows "bm_color m p = Pending \<longleftrightarrow> sent m \<le> p"
proof (cases "bm_states m" rule: rev_cases)
  case Nil
  then show ?thesis using p by (simp add: sent_def bm_color_def)
next
  case (snoc xs s)
  have wf: "bm_wf (xs @ [s])" using inv snoc by (simp add: bm_shape_def)
  then have "\<forall>t \<in> set xs. st_color t \<noteq> Pending" by (simp add: bm_wf_append)
  then have "color_at xs Recved p \<noteq> Pending"
    by (rule color_at_prop) simp
  then show ?thesis
    using p color_at_append [OF wf, of Recved p] by (auto simp: sent_def bm_color_def snoc)
qed

lemma sent_le_end: "bm_shape sl m \<Longrightarrow> sent m \<le> bm_end m"
  by (fastforce simp: sent_def bm_shape_def dest!: last_in_set)

lemma drop_recved_eq: "drop_recved xs = dropWhile (\<lambda>s. st_color s = Recved) xs"
  by (induction xs) auto

lemma shift_correct:
  assumes inv: "bm_shape sl m" and sh: "shift m = (n, m')"
  shows "bm_shape sl m'" and "bm_end m' = bm_end m" and "bm_color m' p = bm_color m p" and "n \<le> bm_end m"
    and "p < n \<Longrightarrow> bm_color m p = Recved" and "n < bm_end m \<Longrightarrow> bm_color m n \<noteq> Recved"
proof -
  define xs where "xs = dropWhile (\<lambda>s. st_color s = Recved) (bm_states m)"
  have wf: "bm_wf (bm_states m)" and bnd: "\<forall>s \<in> set (bm_states m). st_offset s \<le> bm_end m"
    using inv by (fastforce simp: bm_shape_def)+
  have sh0: "shift m = (case xs of s # _ \<Rightarrow> (st_offset s, m\<lparr>bm_states := xs\<rparr>) | [] \<Rightarrow> (bm_end m, m\<lparr>bm_states := xs\<rparr>))"
    unfolding shift_def drop_recved_eq Let_def xs_def ..
  have m': "m' = m\<lparr>bm_states := xs\<rparr>" and n: "n = (case xs of s # _ \<Rightarrow> st_offset s | [] \<Rightarrow> bm_end m)"
    using sh sh0 by (auto split: list.splits)
  have sub: "set xs \<subseteq> set (bm_states m)" unfolding xs_def by (auto dest: set_dropWhileD)
  have wfx: "bm_wf xs" unfolding xs_def by (rule bm_wf_dropWhile [OF wf])
  show "bm_shape sl m'" using inv sub wfx by (auto simp: m' bm_shape_def)
  show "bm_end m' = bm_end m" by (simp add: m')
  have col: "bm_color m' p = bm_color m p" for p
    using color_at_dropWhile [OF wf, of Recved p] by (simp add: m' xs_def bm_color_def)
  then show "bm_color m' p = bm_color m p" .
  have xb: "\<forall>s \<in> set xs. st_offset s \<le> bm_end m" using bnd sub by blast
  then show "n \<le> bm_end m" by (cases xs) (simp_all add: n)
  show "bm_color m p = Recved" if "p < n"
    using that col [of p, symmetric] by (cases xs) (simp_all add: n m' bm_color_def)
  show "bm_color m n \<noteq> Recved" if "n < bm_end m"
  proof (cases xs)
    case (Cons s ss)
    then have "st_color s \<noteq> Recved" by (simp add: xs_def dropWhile_eq_Cons_conv)
    moreover have "bm_wf (s # ss)" using wfx Cons by simp
    ultimately show ?thesis
      using col [of n] color_at_mem [of "s # ss" s Recved] Cons by (simp add: n m' bm_color_def)
  qed (use that n in simp)
qed

subsection \<open>Picking\<close>

definition sendable :: "nat \<Rightarrow> color \<Rightarrow> bool" where
  "sendable flow_limit c \<longleftrightarrow> c = Lost \<or> (c = Pending \<and> flow_limit \<noteq> 0)"

lemma pick_find_cases:
  "case pick_find fl i xs sigs of
     (None, sg) \<Rightarrow> \<forall>s \<in> set xs. \<not> sendable fl (st_color s)
   | (Some (k, s), sg) \<Rightarrow>
       \<exists>L R. xs = L @ s # R \<and> k = i + length L \<and> sendable fl (st_color s) \<and>
         (\<forall>t \<in> set L. \<not> sendable fl (st_color t))"
proof (induction fl i xs sigs rule: pick_find.induct)
  case (2 fl i s ss sigs)
  show ?case
  proof (cases "sendable fl (st_color s)")
    case True
    then have "pick_find fl i (s # ss) sigs = (Some (i, s), sigs)" by (auto simp: sendable_def)
    then show ?thesis using True by (auto intro!: exI [of _ "[]"])
  next
    case False
    then obtain sigs' where "pick_find fl i (s # ss) sigs = pick_find fl (Suc i) ss sigs'"
      and IH: "case pick_find fl (Suc i) ss sigs' of
         (None, sg) \<Rightarrow> \<forall>s \<in> set ss. \<not> sendable fl (st_color s)
       | (Some (k, s), sg) \<Rightarrow>
           \<exists>L R. ss = L @ s # R \<and> k = Suc i + length L \<and> sendable fl (st_color s) \<and>
             (\<forall>t \<in> set L. \<not> sendable fl (st_color t))"
      using 2 by (cases "st_color s") (auto simp: sendable_def)
    then show ?thesis using False
      by (auto split: prod.splits option.splits) (metis append_Cons length_Cons set_ConsD add_Suc_shift)
  qed
qed simp

text \<open>Cutting the interval found at the allowance, or joining it with what follows.\<close>

lemma pick_split_eq:
  assumes "index < length (bm_states m)" and "length (bm_states m) < u64_bound"
    and "st_offset origin + allowance < u64_bound"
  defines "xs \<equiv> (bm_states m)[index := set_color Flighting (bm_states m ! index)]"
  defines "j \<equiv> same_before xs index Flighting"
  defines "e0 \<equiv> (case get xs (index + 1) of Some s \<Rightarrow> st_offset s | None \<Rightarrow> bm_end m)"
  defines "limit \<equiv> st_offset origin + allowance"
  shows "pick_split index origin allowance m =
    Ret (((st_offset origin, min limit e0), st_color origin = Pending),
      m\<lparr>bm_states := take (j + 1) xs @
        (if limit < e0 then State limit (st_color origin) # drop (index + 1) xs
         else dropWhile (\<lambda>s. st_color s = Flighting) (drop (index + 1) xs))\<rparr>)"
proof -
  have j: "j \<le> index" unfolding j_def using assms(1) by (intro same_before_run) (simp add: xs_def)
  have len: "length xs = length (bm_states m)" by (simp add: xs_def)
  have e0': "(case get xs (Suc index) of Some s \<Rightarrow> st_offset s | None \<Rightarrow> bm_end m) = e0" by (simp add: e0_def)
  show ?thesis
  proof (cases "limit < e0")
    case True
    have "finish_edit (j + 1) (index + 1) False (State 0 Lost) True (State limit (st_color origin)) xs =
        take (j + 1) xs @ State limit (st_color origin) # drop (index + 1) xs"
      using j assms(1) len by (subst finish_edit_eq) simp_all
    then show ?thesis
      using True assms(3) j
      by (simp add: pick_split_def xs_def [symmetric] j_def [symmetric] e0' limit_def [symmetric]
          add64_ok finish_edit_def put_or_insert_def Let_def split: if_splits)
  next
    case False
    have "merge_after index Flighting xs = take (index + 1) xs @ dropWhile (\<lambda>s. st_color s = Flighting) (drop (index + 1) xs)"
      using assms(1,2) len by (intro merge_after_eq) simp_all
    then show ?thesis
      using False assms(1,3) j len
      by (cases "j = index")
        (simp_all add: pick_split_def xs_def [symmetric] j_def [symmetric] e0' limit_def [symmetric]
          add64_ok Let_def drain_range_def min_def)
  qed
qed

lemma lower_bound_at:
  assumes "bm_wf (L @ s # R)"
  shows "lower_bound (st_offset s) (L @ s # R) = length L"
  using assms by (auto simp: lower_bound_def bm_wf_append takeWhile_append)

lemma pick_split_correct:
  assumes inv: "bm_shape sl m" and xs: "bm_states m = L @ s # R" and a: "0 < a" "st_offset s + a < u64_bound"
    and inner: "st_offset s < bm_end m"
  obtains e m' where "pick_split (length L) s a m = Ret (((st_offset s, e), st_color s = Pending), m')"
    and "st_offset s < e" and "e \<le> st_offset s + a" and "e \<le> bm_end m"
    and "painted_shape sl m (st_offset s) e Flighting m'"
    and "\<forall>p. st_offset s \<le> p \<and> p < e \<longrightarrow> bm_color m p = st_color s"
proof -
  let ?rs = "st_offset s" and ?i = "length L"
  have wf: "bm_wf (L @ s # R)" and bnd: "\<forall>t \<in> set (L @ s # R). st_offset t < bm_end m + sl" and e62: "bm_end m < 2 ^ 62" "sl \<le> 1"
    using inv by (auto simp: bm_shape_def xs)
  define e0 where "e0 = (if R = [] then bm_end m else st_offset (hd R))"
  have e0: "?rs < e0" "e0 \<le> bm_end m" "\<forall>t \<in> set R. e0 \<le> st_offset t"
    using wf bnd e62(2) inner by (cases R; fastforce simp: e0_def bm_wf_append bm_wf_Cons)+
  define xs1 where "xs1 = (L @ s # R)[?i := State ?rs Flighting]"
  define A where "A = take (same_before xs1 ?i Flighting + 1) xs1"
  have dr: "drop (?i + 1) xs1 = R" by (simp add: xs1_def)
  have pre: "prefix_ok (L @ s # R) ?i ?rs Flighting A"
    using found_prefix(1) [OF wf e0(1), of ?i Flighting] lower_bound_at [OF wf] by (simp add: A_def xs1_def)
  have A: "bm_wf A" "\<forall>t \<in> set A. st_offset t \<le> ?rs \<and> st_color t \<noteq> Pending"
    "\<And>p. color_at A Recved p = (if ?rs \<le> p then Flighting else color_at L Recved p)"
    using pre by (auto simp: prefix_ok_def)
  define lim e where "lim = ?rs + a" and "e = min lim e0"
  define Z where "Z = A @ (if lim < e0 then State lim (st_color s) # R else dropWhile (\<lambda>t. st_color t = Flighting) R)"
  have e: "?rs < e" "e \<le> bm_end m" using e0 a(1) by (simp_all add: e_def lim_def)
  have split: "pick_split ?i s a m = Ret (((?rs, e), st_color s = Pending), m\<lparr>bm_states := Z\<rparr>)"
  proof -
    have e0': "(case get xs1 (?i + 1) of Some s \<Rightarrow> st_offset s | None \<Rightarrow> bm_end m) = e0"
      by (cases R) (simp_all add: get_def e0_def xs1_def nth_append)
    have xs1': "(bm_states m)[?i := set_color Flighting (bm_states m ! ?i)] = xs1"
      by (simp add: xs xs1_def set_color_def)
    show ?thesis
      using pick_split_eq [of ?i m s a, unfolded xs1' e0' dr] bm_shape_length [OF inv] a(2) xs
      by (simp add: Z_def A_def e_def lim_def)
  qed
  let ?Z = "A @ (if lim < e0 then [State e (st_color s)] else []) @ (if lim < e0 then R else dropWhile (\<lambda>t. st_color t = Flighting) R)"
  have Z: "Z = ?Z" by (simp add: Z_def e_def)
  have L: "\<forall>t \<in> set L. st_offset t < ?rs" and M: "\<forall>t \<in> set [s]. ?rs \<le> st_offset t \<and> st_offset t < e"
    and R: "\<forall>t \<in> set R. e \<le> st_offset t"
    using wf e e0(3) by (auto simp: bm_wf_append e_def)
  have c: "color_at (L @ [s]) Recved p = st_color s" if "?rs \<le> p" for p
    using L that by (subst color_at_after) fastforce+
  have E1: "lim < e0 \<longrightarrow> st_color s = color_at (L @ [s]) Recved e \<and> (\<forall>t \<in> set R. e < st_offset t) \<and> (st_color s \<noteq> Pending \<or> R = [])"
    using c [of e] e e0(3) wf by (cases R) (fastforce simp: e_def bm_wf_append bm_wf_Cons)+
  have E2: "lim < e0 \<or> color_at (L @ [s]) Recved e = Flighting \<or> (R \<noteq> [] \<and> st_offset (hd R) = e) \<or> (R = [] \<and> bm_end m \<le> e)"
    by (auto simp: e_def e0_def)
  have R': "(if lim < e0 then R else dropWhile (\<lambda>t. st_color t = Flighting) R) = R \<or>
     (\<not> lim < e0 \<and> (if lim < e0 then R else dropWhile (\<lambda>t. st_color t = Flighting) R) = dropWhile (\<lambda>t. st_color t = Flighting) R)"
    by simp
  have wf3: "bm_wf (L @ [s] @ R)" using wf by simp
  note pt = paint [OF wf3 L M R e(1) _ A E1 E2 R']
  have col: "color_at Z Recved p = (if ?rs \<le> p \<and> p < e then Flighting else bm_color m p)" if "p < bm_end m" for p
    using pt(2) [OF _ that] unfolding Z by (simp add: bm_color_def xs)
  have zb: "\<forall>t \<in> set Z. st_offset t < bm_end m + sl"
  proof
    fix t assume "t \<in> set Z"
    then consider "t \<in> set A" | "t = State lim (st_color s)" "lim < e0" | "t \<in> set R"
      by (auto simp: Z_def dest: set_dropWhileD split: if_splits)
    then show "st_offset t < bm_end m + sl"
    proof cases
      case 1
      then show ?thesis using A(2) bnd by fastforce
    qed (use bnd e0 in auto)
  qed
  have np: "st_color t \<noteq> Pending" if tz: "t \<in> set Z" "bm_end m \<le> st_offset t" for t
  proof -
    consider "t \<in> set A" | "t = State lim (st_color s)" "lim < e0" | "t \<in> set R"
      using tz(1) by (auto simp: Z_def dest: set_dropWhileD split: if_splits)
    then show ?thesis
    proof cases
      case 3
      then show ?thesis using inv tz(2) by (simp add: bm_shape_def xs)
    qed (use A(2) e e0 tz(2) in fastforce)+
  qed
  have "bm_shape sl (m\<lparr>bm_states := Z\<rparr>)" using pt(1) zb np e62 by (simp add: bm_shape_def Z)
  then have painted: "painted_shape sl m ?rs e Flighting (m\<lparr>bm_states := Z\<rparr>)"
    using col by (simp add: painted_shape_def bm_color_def)
  have "bm_color m p = st_color s" if "?rs \<le> p" "p < e" for p
    using color_at_append [of "L @ [s]" R Recved p] wf R that c [of p] color_at_before [of R p]
    by (simp add: bm_color_def xs) (metis less_le_trans)
  then show thesis using that [OF split e(1) _ e(2) painted] by (simp add: e_def lim_def)
qed

text \<open>A last state of length 0 is picked as an empty range.\<close>

lemma pick_split_at_end:
  assumes inv: "bm_shape sl m" and xs: "bm_states m = L @ s # R" and a: "st_offset s + a < u64_bound"
    and at: "\<not> st_offset s < bm_end m"
  obtains m' where "pick_split (length L) s a m = Ret (((bm_end m, bm_end m), st_color s = Pending), m')" "sl = 1" "st_offset s = bm_end m"
    and "painted_shape sl m (bm_end m) (bm_end m) Flighting m'"
proof -
  let ?i = "length L"
  have wf: "bm_wf (L @ s # R)" and bnd: "\<forall>t \<in> set (L @ s # R). st_offset t < bm_end m + sl" and e62: "bm_end m < 2 ^ 62" "sl \<le> 1"
    using inv by (auto simp: bm_shape_def xs)
  have sl: "sl = 1" and n: "st_offset s = bm_end m" using bnd at e62(2) by auto
  have R: "R = []" using wf bnd n sl by (cases R) (auto simp: bm_wf_append bm_wf_Cons)
  define xs1 where "xs1 = (L @ [s])[?i := State (bm_end m) Flighting]"
  have x1: "xs1 = L @ [State (bm_end m) Flighting]" by (simp add: xs1_def)
  have wf1: "bm_wf xs1" using bm_wf_recolor [of "L @ [s]" ?i Flighting] wf R n by (simp add: xs1_def)
  have np: "st_color t \<noteq> Pending" if "t \<in> set L" for t using wf that by (auto simp: bm_wf_append)
  let ?Z = "take (same_before xs1 ?i Flighting + 1) xs1"
  note cut = cut_same_before [OF wf1, of ?i Flighting, unfolded x1, simplified, folded x1]
  have "pick_split ?i s a m = Ret (((bm_end m, bm_end m), st_color s = Pending), m\<lparr>bm_states := ?Z\<rparr>)"
    using pick_split_eq [of ?i m s a] bm_shape_length [OF inv] a xs R n
    by (simp add: xs1_def set_color_def get_def)
  moreover have "bm_color m p = color_at xs1 Recved p" if "p < bm_end m" for p
    using that color_at_append [OF wf1 [unfolded x1]] color_at_append [OF wf] R n by (simp add: bm_color_def xs x1)
  then have "painted_shape sl m (bm_end m) (bm_end m) Flighting (m\<lparr>bm_states := ?Z\<rparr>)"
    using cut(2) [of Recved] cut(3) cut(4) bnd e62 R n np by (auto simp: painted_shape_def bm_shape_def bm_color_def x1 xs)
  ultimately show thesis using that sl n by blast
qed

definition predicate_ok :: "(nat \<Rightarrow> nat option) \<Rightarrow> bool" where
  "predicate_ok predicate \<longleftrightarrow> (\<forall>pos a. predicate pos = Some a \<longrightarrow> 0 < a \<and> a < 2 ^ 62)"

text \<open>What a pick may give: nothing, or the first sendable bytes, as many as are allowed.\<close>

definition picked_shape ::
    "nat \<Rightarrow> (nat \<Rightarrow> nat option) \<Rightarrow> nat \<Rightarrow> buf_map \<Rightarrow> signals + (nat \<times> nat) \<times> bool \<Rightarrow> buf_map \<Rightarrow> bool" where
  "picked_shape sl predicate fl m r m' \<longleftrightarrow>
     (case r of
        Inl sigs \<Rightarrow>
          m' = m \<and>
          (\<forall>p < bm_end m. sendable fl (bm_color m p) \<longrightarrow>
             (\<exists>q \<le> p. sendable fl (bm_color m q) \<and> predicate q = None))
      | Inr ((s, e), fresh) \<Rightarrow>
          (s < e \<or> sl = 1 \<and> s = bm_end m \<and> e = s) \<and> e \<le> bm_end m \<and> painted_shape sl m s e Flighting m' \<and>
          (\<forall>p < s. \<not> sendable fl (bm_color m p)) \<and>
          (\<forall>p. s \<le> p \<and> p < e \<longrightarrow> bm_color m p = (if fresh then Pending else Lost)) \<and>
          (\<exists>a. predicate s = Some a \<and> e - s \<le> a) \<and> (fresh \<longrightarrow> e - s \<le> fl))"

abbreviation picked ::
    "(nat \<Rightarrow> nat option) \<Rightarrow> nat \<Rightarrow> buf_map \<Rightarrow> signals + (nat \<times> nat) \<times> bool \<Rightarrow> buf_map \<Rightarrow> bool" where
  "picked \<equiv> picked_shape 0"

lemma pick_correct:
  assumes inv: "bm_shape sl m" and ok: "predicate_ok predicate"
  shows "\<exists>r m'. pick predicate fl m = Ret (r, m') \<and> picked_shape sl predicate fl m r m'"
proof -
  obtain res sigs where res: "pick_find fl 0 (bm_states m) {WRITTEN, TRANSPORT} = (res, sigs)" by fastforce
  note pf = pick_find_cases [where fl = fl and i = 0 and xs = "bm_states m" and sigs = "{WRITTEN, TRANSPORT}", unfolded res]
  show ?thesis
  proof (cases res)
    case None
    then have "\<not> sendable fl (bm_color m p)" for p
      using pf color_at_prop [of "bm_states m" "\<lambda>c. \<not> sendable fl c" Recved p]
      by (simp add: bm_color_def sendable_def)
    then show ?thesis using None res by (simp add: pick_def picked_shape_def)
  next
    case (Some kr)
    then obtain s L R where kr: "kr = (length L, s)" and xs: "bm_states m = L @ s # R"
      and s: "sendable fl (st_color s)" and L: "\<forall>t \<in> set L. \<not> sendable fl (st_color t)"
      using pf by (cases kr) auto
    have wf: "bm_wf (L @ s # R)" and sb: "st_offset s \<le> 2 ^ 62" using inv by (auto simp: bm_shape_def xs)
    have first: "\<not> sendable fl (bm_color m p)" if "p < st_offset s" for p
    proof -
      have "bm_color m p = color_at L Recved p"
        using color_at_append [OF wf] that by (simp add: bm_color_def xs)
      then show ?thesis using color_at_prop [of L "\<lambda>c. \<not> sendable fl c" Recved p] L by (simp add: sendable_def)
    qed
    have cs: "bm_color m (st_offset s) = st_color s"
      using color_at_mem [OF wf, of s Recved] by (simp add: bm_color_def xs)
    show ?thesis
    proof (cases "predicate (st_offset s)")
      case None
      have "\<exists>q \<le> p. sendable fl (bm_color m q) \<and> predicate q = None" if "sendable fl (bm_color m p)" for p
        using that first [of p] s cs None by (metis linorder_not_less)
      then show ?thesis using None Some kr res by (simp add: pick_def picked_shape_def)
    next
      case pred: (Some av)
      define a where "a = (if st_color s = Lost then av else min av fl)"
      have a: "0 < a" "a \<le> av" "st_color s = Pending \<Longrightarrow> a \<le> fl" "av < 2 ^ 62"
        using ok pred s by (auto simp: a_def predicate_ok_def sendable_def)
      then have "st_offset s + a < u64_bound" using sb by simp
      then obtain e m' where e: "pick_split (length L) s a m = Ret (((st_offset s, e), st_color s = Pending), m')"
          "st_offset s < e \<or> sl = 1 \<and> st_offset s = bm_end m \<and> e = st_offset s" "e \<le> st_offset s + a" "e \<le> bm_end m"
          "painted_shape sl m (st_offset s) e Flighting m'"
          "\<forall>p. st_offset s \<le> p \<and> p < e \<longrightarrow> bm_color m p = st_color s"
        using pick_split_correct [OF inv xs a(1)] pick_split_at_end [OF inv xs]
        by (metis le_add1 le_refl linorder_not_less)
      have "pick predicate fl m = Ret (Inr ((st_offset s, e), st_color s = Pending), m')"
        using res Some kr pred e(1) by (simp add: pick_def a_def [symmetric])
      moreover have "picked_shape sl predicate fl m (Inr ((st_offset s, e), st_color s = Pending)) m'"
        using e s first pred a unfolding picked_shape_def by (auto simp: sendable_def)
      ultimately show ?thesis by blast
    qed
  qed
qed

end
