(* ===== verification/Send_Buf.thy ===== *)
theory Send_Buf
  imports Buf_Map_Loss Buf_Map_Pick Wire
begin

section \<open>The send buffer: qrecovery/src/send/sndbuf.rs, SendBuf\<close>

text \<open>
  \<open>SendBuf\<close> keeps the bytes written to a stream from the first unacknowledged one on, and the
  map of their colours. The main theorem is about any interleaving of its operations: no call
  panics, what is picked is what was written, a byte counts as received only when it was
  acknowledged, and the bytes dropped from the buffer are acknowledged ones.
\<close>

record send_buf =
  sb_offset :: nat
  sb_data :: "byte list"
  sb_state :: buf_map

definition sb_with_capacity :: send_buf where
  "sb_with_capacity = \<lparr>sb_offset = 0, sb_data = [], sb_state = \<lparr>bm_states = [], bm_end = 0\<rparr>\<rparr>"

definition written :: "send_buf \<Rightarrow> nat" where
  "written sb = bm_end (sb_state sb)"

definition sb_sent :: "send_buf \<Rightarrow> nat" where
  "sb_sent sb = sent (sb_state sb)"

definition sb_is_empty :: "send_buf \<Rightarrow> bool" where
  "sb_is_empty sb \<longleftrightarrow> sb_data sb = []"

definition sb_write :: "byte list \<Rightarrow> send_buf \<Rightarrow> (nat \<times> send_buf) run" where
  "sb_write data sb =
     (let n = length data
      in if 0 < n
         then bind_run (add64 (written sb) n) (\<lambda>pos.
              bind_run (extend_to pos (sb_state sb)) (\<lambda>(_, st).
                Ret (n, sb\<lparr>sb_data := sb_data sb @ data, sb_state := st\<rparr>)))
         else Ret (n, sb))"

text \<open>
  \<open>VecDeque::as_slices\<close> gives the ring buffer in two parts; where it wraps (\<open>k\<close>) depends on the
  allocation and is an argument here.
\<close>

definition pick_up ::
    "nat \<Rightarrow> (nat \<Rightarrow> nat option) \<Rightarrow> nat \<Rightarrow> send_buf \<Rightarrow>
     ((signals + nat \<times> bool \<times> byte list \<times> byte list) \<times> send_buf) run" where
  "pick_up k predicate flow_limit sb =
     bind_run (pick predicate flow_limit (sb_state sb)) (\<lambda>(r, st).
       case r of
         Inl sigs \<Rightarrow> Ret (Inl sigs, sb\<lparr>sb_state := st\<rparr>)
       | Inr ((rstart, rend), is_fresh) \<Rightarrow>
           bind_run (sub64 rstart (sb_offset sb)) (\<lambda>start.
           bind_run (sub64 rend (sb_offset sb)) (\<lambda>end0.
             let l = take k (sb_data sb); r = drop k (sb_data sb)
             in bind_run (slice_range l (min start (length l)) (min (length l) end0)) (\<lambda>s1.
                bind_run (slice_range r (start - length l) (end0 - length l)) (\<lambda>s2.
                  Ret (Inr (rstart, is_fresh, s1, s2), sb\<lparr>sb_state := st\<rparr>))))))"

definition on_data_acked :: "nat \<times> nat \<Rightarrow> send_buf \<Rightarrow> send_buf run" where
  "on_data_acked rng sb =
     bind_run (ack_rcvd rng (sb_state sb)) (\<lambda>st1.
       let (min_unrecved_pos, st2) = shift st1; sb1 = sb\<lparr>sb_state := st2\<rparr>
       in if sb_offset sb < min_unrecved_pos
          then assert_run (min_unrecved_pos - sb_offset sb \<le> length (sb_data sb))
                 (Ret (sb1\<lparr>sb_data := drop (min_unrecved_pos - sb_offset sb) (sb_data sb),
                           sb_offset := min_unrecved_pos\<rparr>))
          else Ret sb1)"

definition may_loss_data :: "nat \<times> nat \<Rightarrow> send_buf \<Rightarrow> send_buf run" where
  "may_loss_data rng sb =
     bind_run (may_loss rng (sb_state sb)) (\<lambda>st. Ret (sb\<lparr>sb_state := st\<rparr>))"

definition is_all_rcvd :: "send_buf \<Rightarrow> bool" where
  "is_all_rcvd sb \<longleftrightarrow> sb_data sb = []"

subsection \<open>The invariant and what each operation does to it\<close>

text \<open>\<open>w\<close> is everything ever written to the stream.\<close>

definition sb_shape :: "nat \<Rightarrow> byte list \<Rightarrow> send_buf \<Rightarrow> bool" where
  "sb_shape sl w sb \<longleftrightarrow>
     bm_shape sl (sb_state sb) \<and> written sb = length w \<and> sb_offset sb \<le> length w \<and>
     sb_data sb = drop (sb_offset sb) w \<and>
     (\<forall>p < sb_offset sb. bm_color (sb_state sb) p = Recved) \<and>
     (sb_offset sb < length w \<longrightarrow> bm_color (sb_state sb) (sb_offset sb) \<noteq> Recved)"

abbreviation sb_inv :: "byte list \<Rightarrow> send_buf \<Rightarrow> bool" where
  "sb_inv \<equiv> sb_shape 0"

abbreviation sb_color :: "send_buf \<Rightarrow> nat \<Rightarrow> color" where
  "sb_color sb \<equiv> bm_color (sb_state sb)"

lemma sb_inv_new: "sb_inv [] sb_with_capacity"
  by (simp add: sb_shape_def sb_with_capacity_def written_def bm_shape_def)

lemma sb_write_correct:
  assumes inv: "sb_inv w sb" and len: "length w + length data < 2 ^ 62"
  shows "\<exists>sb'. sb_write data sb = Ret (length data, sb') \<and> sb_inv (w @ data) sb' \<and>
    (\<forall>p < length (w @ data). sb_color sb' p = (if p < length w then sb_color sb p else Pending))"
proof (cases "data = []")
  case True
  then show ?thesis using inv by (auto simp: sb_write_def)
next
  case False
  have m: "bm_inv (sb_state sb)" "bm_end (sb_state sb) = length w" using inv by (auto simp: sb_shape_def written_def)
  then obtain st where st: "extend_to (length w + length data) (sb_state sb) = Ret (length w + length data, st)"
      "bm_inv st" "bm_end st = length w + length data"
      "\<forall>p < length w + length data. bm_color st p = (if p < length w then sb_color sb p else Pending)"
    using bm_inv_extend [OF m(1), of "length w + length data"] len False by auto
  let ?sb = "sb\<lparr>sb_data := sb_data sb @ data, sb_state := st\<rparr>"
  have "sb_write data sb = Ret (length data, ?sb)"
    using False st(1) len m by (simp add: sb_write_def Let_def written_def add64_ok)
  moreover have "sb_inv (w @ data) ?sb"
    using inv st(2-4) False unfolding sb_shape_def written_def by (cases "sb_offset sb = length w") auto
  ultimately show ?thesis using st(4) by auto
qed

lemma slices_join:
  assumes "a \<le> b" and "b \<le> length xs"
  shows "\<exists>s1 s2. slice_range (take k xs) (min a (length (take k xs))) (min (length (take k xs)) b) = Ret s1 \<and>
    slice_range (drop k xs) (a - length (take k xs)) (b - length (take k xs)) = Ret s2 \<and> s1 @ s2 = take (b - a) (drop a xs)"
proof -
  define l r where "l = take k xs" and "r = drop k xs"
  have xs: "xs = l @ r" by (simp add: l_def r_def)
  have "take (min (length l) b - min a (length l)) (drop (min a (length l)) l) @
      take (b - length l - (a - length l)) (drop (a - length l) r) = take (b - a) (drop a (l @ r))"
  proof (cases "a \<le> length l")
    case True
    then show ?thesis using assms(1) by (cases "b \<le> length l") (auto simp: min_def)
  qed (use assms(1) in \<open>simp add: min_def\<close>)
  moreover have "slice_range l (min a (length l)) (min (length l) b) =
      Ret (take (min (length l) b - min a (length l)) (drop (min a (length l)) l))"
    using assms by (simp add: slice_range_def min_def)
  moreover have "slice_range r (a - length l) (b - length l) = Ret (take (b - length l - (a - length l)) (drop (a - length l) r))"
    using assms xs by (auto simp: slice_range_def)
  ultimately show ?thesis unfolding l_def [symmetric] r_def [symmetric] by (simp add: xs)
qed

text \<open>The data of a pick is the range of the stream it was taken from.\<close>

definition picked_data_shape ::
    "nat \<Rightarrow> byte list \<Rightarrow> (nat \<Rightarrow> nat option) \<Rightarrow> nat \<Rightarrow> send_buf \<Rightarrow>
     signals + nat \<times> bool \<times> byte list \<times> byte list \<Rightarrow> send_buf \<Rightarrow> bool" where
  "picked_data_shape sl w predicate fl sb r sb' \<longleftrightarrow>
     (case r of
        Inl sigs \<Rightarrow> picked_shape sl predicate fl (sb_state sb) (Inl sigs) (sb_state sb')
      | Inr (start, fresh, s1, s2) \<Rightarrow>
          (let n = length (s1 @ s2)
           in s1 @ s2 = take n (drop start w) \<and>
              picked_shape sl predicate fl (sb_state sb) (Inr ((start, start + n), fresh)) (sb_state sb')))"

abbreviation picked_data ::
    "byte list \<Rightarrow> (nat \<Rightarrow> nat option) \<Rightarrow> nat \<Rightarrow> send_buf \<Rightarrow>
     signals + nat \<times> bool \<times> byte list \<times> byte list \<Rightarrow> send_buf \<Rightarrow> bool" where
  "picked_data \<equiv> picked_data_shape 0"

lemma painted_sb_inv:
  assumes inv: "sb_shape sl w sb" and p: "painted_shape sl (sb_state sb) s e X st" and X: "X \<noteq> Recved" and s: "sb_offset sb \<le> s"
  shows "sb_shape sl w (sb\<lparr>sb_state := st\<rparr>)"
  using assms unfolding sb_shape_def painted_shape_def written_def by auto

lemma pick_up_correct:
  assumes inv: "sb_shape sl w sb" and ok: "predicate_ok predicate"
  shows "\<exists>r sb'. pick_up k predicate fl sb = Ret (r, sb') \<and> sb_shape sl w sb' \<and> picked_data_shape sl w predicate fl sb r sb'"
proof -
  have m: "bm_shape sl (sb_state sb)" "bm_end (sb_state sb) = length w" using inv by (auto simp: sb_shape_def written_def)
  obtain r st where r: "pick predicate fl (sb_state sb) = Ret (r, st)" "picked_shape sl predicate fl (sb_state sb) r st"
    using pick_correct [OF m(1) ok] by blast
  show ?thesis
  proof (cases r)
    case (Inl sigs)
    then have "st = sb_state sb" using r(2) by (simp add: picked_shape_def)
    then show ?thesis using Inl r inv by (simp add: pick_up_def picked_data_shape_def)
  next
    case (Inr q)
    obtain s e fresh where q: "r = Inr ((s, e), fresh)" using Inr by (metis prod.exhaust)
    have pk: "s < e \<or> s = length w \<and> e = s" "e \<le> length w" "painted_shape sl (sb_state sb) s e Flighting st"
      "\<forall>p. s \<le> p \<and> p < e \<longrightarrow> sb_color sb p = (if fresh then Pending else Lost)"
      using r(2) m(2) by (auto simp: q picked_shape_def)
    have off: "sb_offset sb \<le> s"
    proof (rule ccontr)
      assume "\<not> sb_offset sb \<le> s"
      then have "sb_color sb s = Recved" "s < length w" using inv by (auto simp: sb_shape_def)
      then show False using pk(1,4) by (metis color.distinct order_refl nat_neq_iff)
    qed
    have data: "sb_data sb = drop (sb_offset sb) w" using inv by (simp add: sb_shape_def)
    let ?a = "s - sb_offset sb" and ?b = "e - sb_offset sb"
    have ab: "?a \<le> ?b" "?b \<le> length (sb_data sb)" using pk(1,2) off data by auto
    obtain s1 s2 where sl: "slice_range (take k (sb_data sb)) (min ?a (length (take k (sb_data sb)))) (min (length (take k (sb_data sb))) ?b) = Ret s1"
        "slice_range (drop k (sb_data sb)) (?a - length (take k (sb_data sb))) (?b - length (take k (sb_data sb))) = Ret s2"
        "s1 @ s2 = take (?b - ?a) (drop ?a (sb_data sb))"
      using slices_join [OF ab, of k] by blast
    have run: "pick_up k predicate fl sb = Ret (Inr (s, fresh, s1, s2), sb\<lparr>sb_state := st\<rparr>)"
      using r(1) off pk(1) sl(1,2) by (auto simp: q pick_up_def sub64_def Let_def)
    have "s1 @ s2 = take (e - s) (drop s w)" using sl(3) off pk(1) data by auto
    moreover from this have n: "length (s1 @ s2) = e - s" using pk(1,2) by auto
    moreover have "picked_data_shape sl w predicate fl sb (Inr (s, fresh, s1, s2)) (sb\<lparr>sb_state := st\<rparr>) \<longleftrightarrow>
        s1 @ s2 = take (length (s1 @ s2)) (drop s w) \<and>
        picked_shape sl predicate fl (sb_state sb) (Inr ((s, s + length (s1 @ s2)), fresh)) st"
      by (simp add: picked_data_shape_def Let_def)
    ultimately have "picked_data_shape sl w predicate fl sb (Inr (s, fresh, s1, s2)) (sb\<lparr>sb_state := st\<rparr>)"
      unfolding n using r(2) pk(1) by (auto simp: q)
    then show ?thesis using run painted_sb_inv [OF inv pk(3) _ off] by auto
  qed
qed

lemma on_data_acked_painted:
  assumes inv: "sb_shape sl w sb" and ack: "ack_rcvd (s, e) (sb_state sb) = Ret st1"
    and st1: "painted_shape sl' (sb_state sb) s e Recved st1"
  shows "\<exists>sb'. on_data_acked (s, e) sb = Ret sb' \<and> sb_shape sl' w sb' \<and>
    (\<forall>p < length w. sb_color sb' p = (if s \<le> p \<and> p < e then Recved else sb_color sb p))"
proof -
  have m: "bm_end (sb_state sb) = length w" using inv by (auto simp: sb_shape_def written_def)
  obtain n st2 where sh: "shift st1 = (n, st2)" by fastforce
  have inv1: "bm_shape sl' st1" "bm_end st1 = length w" using st1 m by (auto simp: painted_shape_def)
  note sc = shift_correct [OF inv1(1) sh]
  have col: "bm_color st2 p = (if s \<le> p \<and> p < e then Recved else sb_color sb p)" if "p < length w" for p
    using st1 sc(3) [of p] that m by (simp add: painted_shape_def)
  have n: "n \<le> length w" "n < length w \<Longrightarrow> bm_color st2 n \<noteq> Recved" "\<And>p. p < n \<Longrightarrow> bm_color st2 p = Recved"
    using sc inv1(2) by auto
  have data: "sb_data sb = drop (sb_offset sb) w" "sb_offset sb \<le> length w" using inv by (auto simp: sb_shape_def)
  have le: "sb_offset sb \<le> n"
  proof (rule ccontr)
    assume "\<not> sb_offset sb \<le> n"
    then have "sb_color sb n = Recved" "n < length w" using inv data(2) by (auto simp: sb_shape_def)
    then show False using n(2) col [of n] by (simp split: if_splits)
  qed
  let ?sb = "sb\<lparr>sb_state := st2, sb_data := drop n w, sb_offset := n\<rparr>"
  have "on_data_acked (s, e) sb = Ret ?sb"
    using ack sh le data n(1) by (cases "sb_offset sb = n") (auto simp: on_data_acked_def assert_run_def diff_le_mono)
  moreover have "sb_shape sl' w ?sb" using sc inv1 n by (auto simp: sb_shape_def written_def)
  ultimately show ?thesis using col by auto
qed

lemma on_data_acked_correct:
  assumes inv: "sb_shape sl w sb" and range: "s < e" "e \<le> length w"
    and nopend: "\<forall>p. s \<le> p \<and> p < e \<longrightarrow> sb_color sb p \<noteq> Pending"
  shows "\<exists>sb'. on_data_acked (s, e) sb = Ret sb' \<and> sb_shape sl w sb' \<and>
    (\<forall>p < length w. sb_color sb' p = (if s \<le> p \<and> p < e then Recved else sb_color sb p))"
proof -
  have m: "bm_shape sl (sb_state sb)" "e \<le> bm_end (sb_state sb)" using inv range(2) by (auto simp: sb_shape_def written_def)
  obtain st where "ack_rcvd (s, e) (sb_state sb) = Ret st" "painted_shape sl (sb_state sb) s e Recved st"
    using ack_rcvd_correct [OF m(1) range(1) m(2) nopend] by metis
  then show ?thesis by (rule on_data_acked_painted [OF inv])
qed

lemma may_loss_data_correct:
  assumes inv: "sb_shape sl w sb" and range: "s < e" "e \<le> length w"
    and nopend: "\<forall>p. s \<le> p \<and> p < e \<longrightarrow> sb_color sb p \<noteq> Pending"
    and start: "sb_color sb s \<noteq> Recved"
  shows "\<exists>sb'. may_loss_data (s, e) sb = Ret sb' \<and> sb_shape sl w sb' \<and>
    (\<forall>p < length w. sb_color sb' p = (if s \<le> p \<and> p < e \<and> sb_color sb p = Flighting then Lost else sb_color sb p))"
proof -
  have m: "bm_shape sl (sb_state sb)" "bm_end (sb_state sb) = length w" using inv by (auto simp: sb_shape_def written_def)
  obtain st where st: "may_loss (s, e) (sb_state sb) = Ret st" "lost_in_shape sl (sb_state sb) s e st"
    using may_loss_correct [OF m(1) range(1) _ nopend] range(2) m(2) start by metis
  have col: "bm_color st p = (if s \<le> p \<and> p < e \<and> sb_color sb p = Flighting then Lost else sb_color sb p)" if "p < length w" for p
    using st(2) that m(2) by (simp add: lost_in_shape_def)
  have "sb_shape sl w (sb\<lparr>sb_state := st\<rparr>)"
    using inv st(2) col by (auto simp: sb_shape_def lost_in_shape_def written_def)
  then show ?thesis using st(1) col by (auto simp: may_loss_data_def)
qed

lemma is_all_rcvd_iff:
  assumes "sb_shape sl w sb"
  shows "is_all_rcvd sb \<longleftrightarrow> (\<forall>p < length w. sb_color sb p = Recved)"
proof (cases "sb_offset sb = length w")
  case False
  then have "sb_offset sb < length w" "sb_color sb (sb_offset sb) \<noteq> Recved" using assms by (auto simp: sb_shape_def)
  then show ?thesis using assms by (auto simp: sb_shape_def is_all_rcvd_def)
qed (use assms in \<open>auto simp: sb_shape_def is_all_rcvd_def\<close>)

subsection \<open>Any interleaving of the operations\<close>

text \<open>
  The user of the buffer: it writes, picks what may be sent, and reports ranges of sent bytes as
  acknowledged or lost. The ghost state records what was written, which positions were put in a
  packet and which were acknowledged. A loss report starts at a byte not acknowledged yet.
\<close>

record send_ghost =
  g_written :: "byte list"
  g_sent :: "nat set"
  g_acked :: "nat set"

datatype snd_op =
    OpWrite "byte list"
  | OpPick nat "nat \<Rightarrow> nat option" nat
  | OpAck nat nat
  | OpLoss nat nat

fun op_ok :: "send_ghost \<Rightarrow> snd_op \<Rightarrow> bool" where
  "op_ok g (OpWrite d) \<longleftrightarrow> length (g_written g) + length d < 2 ^ 62"
| "op_ok g (OpPick k predicate fl) \<longleftrightarrow> predicate_ok predicate"
| "op_ok g (OpAck s e) \<longleftrightarrow> s < e \<and> {s..<e} \<subseteq> g_sent g"
| "op_ok g (OpLoss s e) \<longleftrightarrow> s < e \<and> {s..<e} \<subseteq> g_sent g \<and> s \<notin> g_acked g"

inductive snd_step :: "send_ghost \<times> send_buf \<Rightarrow> snd_op \<Rightarrow> send_ghost \<times> send_buf \<Rightarrow> bool" where
  step_write: "op_ok g (OpWrite d) \<Longrightarrow> sb_write d sb = Ret (n, sb') \<Longrightarrow>
    snd_step (g, sb) (OpWrite d) (g\<lparr>g_written := g_written g @ d\<rparr>, sb')"
| step_none: "op_ok g (OpPick k predicate fl) \<Longrightarrow> pick_up k predicate fl sb = Ret (Inl sigs, sb') \<Longrightarrow>
    snd_step (g, sb) (OpPick k predicate fl) (g, sb')"
| step_pick: "op_ok g (OpPick k predicate fl) \<Longrightarrow>
    pick_up k predicate fl sb = Ret (Inr (start, fresh, s1, s2), sb') \<Longrightarrow>
    snd_step (g, sb) (OpPick k predicate fl)
      (g\<lparr>g_sent := g_sent g \<union> {start..<start + length (s1 @ s2)}\<rparr>, sb')"
| step_ack: "op_ok g (OpAck s e) \<Longrightarrow> on_data_acked (s, e) sb = Ret sb' \<Longrightarrow>
    snd_step (g, sb) (OpAck s e) (g\<lparr>g_acked := g_acked g \<union> {s..<e}\<rparr>, sb')"
| step_loss: "op_ok g (OpLoss s e) \<Longrightarrow> may_loss_data (s, e) sb = Ret sb' \<Longrightarrow>
    snd_step (g, sb) (OpLoss s e) (g, sb')"

inductive_cases snd_stepE: "snd_step (g, sb) x (g', sb')"

lemmas snd_step_cases = snd_stepE [consumes 1, case_names is_write is_none is_pick is_ack is_loss]

inductive snd_reach :: "send_ghost \<times> send_buf \<Rightarrow> bool" where
  reach_init: "snd_reach (\<lparr>g_written = [], g_sent = {}, g_acked = {}\<rparr>, sb_with_capacity)"
| reach_step: "snd_reach (g, sb) \<Longrightarrow> snd_step (g, sb) x (g', sb') \<Longrightarrow> snd_reach (g', sb')"

definition snd_inv :: "send_ghost \<Rightarrow> send_buf \<Rightarrow> bool" where
  "snd_inv g sb \<longleftrightarrow>
     sb_inv (g_written g) sb \<and> g_acked g \<subseteq> g_sent g \<and> g_sent g \<subseteq> {..<length (g_written g)} \<and>
     (\<forall>p < length (g_written g).
        (sb_color sb p = Recved \<longleftrightarrow> p \<in> g_acked g) \<and> (sb_color sb p = Pending \<longleftrightarrow> p \<notin> g_sent g))"

lemma snd_inv_range:
  assumes "snd_inv g sb" and "s < e" and "{s..<e} \<subseteq> g_sent g"
  shows "e \<le> length (g_written g)" and "\<forall>p. s \<le> p \<and> p < e \<longrightarrow> sb_color sb p \<noteq> Pending"
proof -
  have sub: "{s..<e} \<subseteq> {..<length (g_written g)}" using assms by (auto simp: snd_inv_def)
  have "e - 1 \<in> {s..<e}" using assms(2) by auto
  then show "e \<le> length (g_written g)" using sub by auto
  show "\<forall>p. s \<le> p \<and> p < e \<longrightarrow> sb_color sb p \<noteq> Pending"
    using assms sub unfolding snd_inv_def by (metis atLeastLessThan_iff lessThan_iff subsetD)
qed

lemma snd_enabled:
  assumes "snd_inv g sb" and "op_ok g x"
  obtains g' sb' where "snd_step (g, sb) x (g', sb')"
proof (cases x)
  case (OpWrite d)
  then show ?thesis using that sb_write_correct assms by (metis op_ok.simps(1) snd_inv_def step_write)
next
  case (OpPick k predicate fl)
  then obtain r sb' where r: "pick_up k predicate fl sb = Ret (r, sb')"
    using pick_up_correct assms by (metis op_ok.simps(2) snd_inv_def)
  show ?thesis
  proof (cases r)
    case (Inl sigs)
    then show ?thesis using that r assms(2) OpPick step_none by blast
  next
    case (Inr q)
    then obtain s fresh s1 s2 where "r = Inr (s, fresh, s1, s2)" by (metis prod.exhaust)
    then show ?thesis using that r assms(2) OpPick step_pick by blast
  qed
next
  case (OpAck s e)
  then show ?thesis
    using that on_data_acked_correct [of 0 "g_written g" sb s e] snd_inv_range [of g sb s e] assms
    by (metis op_ok.simps(3) snd_inv_def step_ack)
next
  case (OpLoss s e)
  then have *: "s < e" "{s..<e} \<subseteq> g_sent g" "s \<notin> g_acked g" using assms(2) by auto
  note r = snd_inv_range [OF assms(1) *(1,2)]
  have "sb_color sb s \<noteq> Recved" using assms(1) * r(1) by (auto simp: snd_inv_def)
  then show ?thesis
    using that may_loss_data_correct [of 0 "g_written g" sb s e] r * assms OpLoss
    by (metis snd_inv_def step_loss)
qed

lemma snd_inv_step:
  assumes inv: "snd_inv g sb" and st: "snd_step (g, sb) x (g', sb')"
  shows "snd_inv g' sb'"
  using st
proof (cases rule: snd_step_cases)
  case (is_write d n)
  have w: "sb_inv (g_written g) sb" using inv by (simp add: snd_inv_def)
  have "sb_inv (g_written g @ d) sb'"
    "\<forall>p < length (g_written g @ d). sb_color sb' p = (if p < length (g_written g) then sb_color sb p else Pending)"
    using sb_write_correct [OF w, of d] is_write by auto
  then show ?thesis using is_write inv unfolding snd_inv_def by auto
next
  case (is_none k predicate fl sigs)
  then have "sb_inv (g_written g) sb'" "picked_data (g_written g) predicate fl sb (Inl sigs) sb'"
    using pick_up_correct [of 0 "g_written g" sb predicate k fl] inv by (auto simp: snd_inv_def)
  then show ?thesis using is_none inv by (simp add: snd_inv_def picked_data_shape_def picked_shape_def)
next
  case (is_pick k predicate fl start fresh s1 s2)
  let ?e = "start + length (s1 @ s2)"
  have pd: "sb_inv (g_written g) sb'" "picked_data (g_written g) predicate fl sb (Inr (start, fresh, s1, s2)) sb'"
    using is_pick pick_up_correct [of 0 "g_written g" sb predicate k fl] inv by (auto simp: snd_inv_def)
  have pk: "picked predicate fl (sb_state sb) (Inr ((start, ?e), fresh)) (sb_state sb')"
    using pd(2) unfolding picked_data_shape_def Let_def sum.case prod.case by (rule conjunct2)
  then have "?e \<le> length (g_written g)" "painted (sb_state sb) start ?e Flighting (sb_state sb')"
    "\<forall>p. start \<le> p \<and> p < ?e \<longrightarrow> sb_color sb p \<noteq> Recved"
    using inv by (auto simp: picked_shape_def snd_inv_def sb_shape_def written_def)
  then show ?thesis
    using is_pick inv pd(1) unfolding snd_inv_def painted_shape_def sb_shape_def written_def by auto
next
  case (is_ack s e)
  then have *: "s < e" "{s..<e} \<subseteq> g_sent g" by auto
  note r = snd_inv_range [OF inv *]
  then have "sb_inv (g_written g) sb'"
    "\<forall>p < length (g_written g). sb_color sb' p = (if s \<le> p \<and> p < e then Recved else sb_color sb p)"
    using on_data_acked_correct [of 0 "g_written g" sb s e] is_ack * inv by (auto simp: snd_inv_def)
  then show ?thesis using is_ack inv * unfolding snd_inv_def by auto
next
  case (is_loss s e)
  then have *: "s < e" "{s..<e} \<subseteq> g_sent g" "s \<notin> g_acked g" by auto
  note r = snd_inv_range [OF inv *(1,2)]
  have "sb_color sb s \<noteq> Recved" using inv * r(1) by (auto simp: snd_inv_def)
  then have "sb_inv (g_written g) sb'"
    "\<forall>p < length (g_written g). sb_color sb' p = (if s \<le> p \<and> p < e \<and> sb_color sb p = Flighting then Lost else sb_color sb p)"
    using may_loss_data_correct [of 0 "g_written g" sb s e] is_loss * r inv by (auto simp: snd_inv_def)
  then show ?thesis using is_loss inv unfolding snd_inv_def by auto
qed

lemma snd_inv_init: "snd_inv \<lparr>g_written = [], g_sent = {}, g_acked = {}\<rparr> sb_with_capacity"
  using sb_inv_new by (simp add: snd_inv_def)

lemma snd_reach_inv: "snd_reach (g, sb) \<Longrightarrow> snd_inv g sb"
proof (induction "(g, sb)" arbitrary: g sb rule: snd_reach.induct)
  case reach_init
  then show ?case using snd_inv_init by simp
next
  case (reach_step g sb x g' sb')
  then show ?case using snd_inv_step by blast
qed

lemma snd_inv_all_rcvd:
  assumes "snd_inv g sb"
  shows "is_all_rcvd sb \<longleftrightarrow> g_acked g = {..<length (g_written g)}"
  using is_all_rcvd_iff [of 0 "g_written g" sb] assms unfolding snd_inv_def by auto

text \<open>C8: In any interleaving of writes, picks, acknowledgements and losses (losses whose first byte
is not acknowledged yet), every enabled operation of the send buffer returns without a panic, a byte
is \<open>Recved\<close> exactly when it was acknowledged, \<open>Pending\<close> exactly when it was never put in a
packet, the retained data are the written bytes from the first unacknowledged one on (everything before
\<open>offset\<close> was acknowledged and the byte at \<open>offset\<close>, if there is one, was not), and
\<open>is_all_rcvd\<close> holds exactly when every byte written was acknowledged.\<close>

theorem send_buf_reliable:
  assumes "snd_reach (g, sb)"
  shows "sb_data sb = drop (sb_offset sb) (g_written g) \<and> sb_offset sb \<le> length (g_written g) \<and>
    {..<sb_offset sb} \<subseteq> g_acked g \<and> (sb_offset sb < length (g_written g) \<longrightarrow> sb_offset sb \<notin> g_acked g) \<and>
    (\<forall>p < length (g_written g).
        (sb_color sb p = Recved \<longleftrightarrow> p \<in> g_acked g) \<and> (sb_color sb p = Pending \<longleftrightarrow> p \<notin> g_sent g)) \<and>
    (is_all_rcvd sb \<longleftrightarrow> g_acked g = {..<length (g_written g)}) \<and>
    (\<forall>x. op_ok g x \<longrightarrow> (\<exists>g' sb'. snd_step (g, sb) x (g', sb')))"
proof -
  have inv: "snd_inv g sb" by (rule snd_reach_inv [OF assms])
  have "\<exists>g' sb'. snd_step (g, sb) x (g', sb')" if "op_ok g x" for x
    using snd_enabled [OF inv that] by metis
  then show ?thesis
    using inv snd_inv_all_rcvd [OF inv] unfolding snd_inv_def sb_shape_def by (auto dest: order_less_le_trans)
qed

definition sample_data :: "byte list" where
  "sample_data = [1, 2, 3]"

definition sample_sb :: send_buf where
  "sample_sb = \<lparr>sb_offset = 0, sb_data = sample_data,
     sb_state = \<lparr>bm_states = [State 0 Flighting, State 2 Pending], bm_end = 3\<rparr>\<rparr>"

lemma sample_reach: "snd_reach (\<lparr>g_written = sample_data, g_sent = {0..<2}, g_acked = {}\<rparr>, sample_sb)"
proof -
  let ?g0 = "\<lparr>g_written = [], g_sent = {}, g_acked = {}\<rparr>" and ?g1 = "\<lparr>g_written = sample_data, g_sent = {}, g_acked = {}\<rparr>"
  let ?sb1 = "\<lparr>sb_offset = 0, sb_data = sample_data, sb_state = \<lparr>bm_states = [State 0 Pending], bm_end = 3\<rparr>\<rparr>"
  have "sb_write sample_data sb_with_capacity = Ret (3, ?sb1)"
    by (simp add: sb_write_def sb_with_capacity_def written_def extend_to_def add64_def sample_data_def)
  then have "snd_step (?g0, sb_with_capacity) (OpWrite sample_data) (?g0\<lparr>g_written := g_written ?g0 @ sample_data\<rparr>, ?sb1)"
    by (intro step_write) (simp_all add: sample_data_def)
  then have 1: "snd_reach (?g1, ?sb1)" using reach_step [OF reach_init] by (simp add: sample_data_def)
  have "pick_up 1 (\<lambda>_. Some 2) 9 ?sb1 = Ret (Inr (0, True, [1], [2]), sample_sb)"
    by (simp add: pick_up_def pick_def pick_split_def get_def set_color_def insert_at_def add64_def sub64_def
        slice_range_def sample_data_def sample_sb_def Let_def)
  then have "snd_step (?g1, ?sb1) (OpPick 1 (\<lambda>_. Some 2) 9) (?g1\<lparr>g_sent := g_sent ?g1 \<union> {0..<0 + length ([1] @ [2::byte])}\<rparr>, sample_sb)"
    by (intro step_pick) (simp_all add: predicate_ok_def)
  then show ?thesis using reach_step [OF 1] by (simp add: numeral_2_eq_2)
qed

theorem send_buf_reliable_witness:
  "sb_data sample_sb = drop (sb_offset sample_sb) sample_data \<and> sb_offset sample_sb = 0 \<and>
   (\<exists>g' sb'. snd_step (\<lparr>g_written = sample_data, g_sent = {0..<2}, g_acked = {}\<rparr>, sample_sb) (OpAck 0 1) (g', sb'))"
  using send_buf_reliable [OF sample_reach] by (simp add: sample_data_def lessThan_empty_iff)

text \<open>A pick never panics; it either reports that no byte before a refused one may be sent, or
returns the first sendable bytes of the stream: contiguous, all new or all lost, no more than the
predicate allows, new ones no more than the flow limit, equal to what was written there wherever the
ring buffer wraps; exactly those bytes turn \<open>Flighting\<close>.\<close>

theorem pick_up_first_sendable:
  assumes "sb_inv w sb" and "predicate_ok predicate"
  shows "\<exists>r sb'. pick_up k predicate fl sb = Ret (r, sb') \<and> sb_inv w sb' \<and> picked_data w predicate fl sb r sb'"
  using assms by (rule pick_up_correct)

theorem pick_up_first_sendable_witness:
  "\<exists>r sb'. pick_up 1 (\<lambda>_. Some 5) 9 sample_sb = Ret (r, sb') \<and> sb_inv sample_data sb' \<and>
     picked_data sample_data (\<lambda>_. Some 5) 9 sample_sb r sb'"
  using pick_up_first_sendable [of sample_data sample_sb "\<lambda>_. Some 5" 1 9] snd_reach_inv [OF sample_reach]
  by (simp add: snd_inv_def predicate_ok_def)

text \<open>\<open>ack_rcvd\<close> on a range of sent bytes returns, keeps the shape of the map, turns exactly the
range \<open>Recved\<close> and leaves the colour of every other byte.\<close>

theorem ack_rcvd_paints_range:
  assumes "bm_inv m" and "rs < re" and "re \<le> bm_end m"
    and "\<forall>p. rs \<le> p \<and> p < re \<longrightarrow> bm_color m p \<noteq> Pending"
  shows "\<exists>m'. ack_rcvd (rs, re) m = Ret m' \<and> bm_inv m' \<and> bm_end m' = bm_end m \<and>
    (\<forall>p < bm_end m. bm_color m' p = (if rs \<le> p \<and> p < re then Recved else bm_color m p))"
  using ack_rcvd_correct [OF assms] unfolding painted_shape_def by metis

definition sample_map :: buf_map where
  "sample_map = \<lparr>bm_states = [State 0 Flighting, State 5 Recved, State 10 Flighting], bm_end = 15\<rparr>"

lemma sample_map_ok:
  "bm_inv sample_map"
  "\<forall>p. bm_color sample_map p \<noteq> Pending" "bm_color sample_map 2 \<noteq> Recved"
  by (auto simp: sample_map_def bm_shape_def bm_wf_def bm_color_def)

theorem ack_rcvd_paints_range_witness:
  "\<exists>m'. ack_rcvd (3, 12) sample_map = Ret m' \<and> bm_inv m' \<and> bm_end m' = bm_end sample_map \<and>
    (\<forall>p < bm_end sample_map. bm_color m' p = (if 3 \<le> p \<and> p < 12 then Recved else bm_color sample_map p))"
  by (rule ack_rcvd_paints_range) (use sample_map_ok in \<open>auto simp: sample_map_def\<close>)

text \<open>\<open>may_loss\<close> on a range of sent bytes whose first byte is not acknowledged returns, keeps the
shape of the map, turns the in-flight bytes of the range \<open>Lost\<close> and leaves the colour of every
other byte, in particular of those already acknowledged.\<close>

theorem may_loss_marks_in_flight:
  assumes "bm_inv m" and "rs < re" and "re \<le> bm_end m"
    and "\<forall>p. rs \<le> p \<and> p < re \<longrightarrow> bm_color m p \<noteq> Pending" and "bm_color m rs \<noteq> Recved"
  shows "\<exists>m'. may_loss (rs, re) m = Ret m' \<and> bm_inv m' \<and> bm_end m' = bm_end m \<and>
    (\<forall>p < bm_end m. bm_color m' p =
       (if rs \<le> p \<and> p < re \<and> bm_color m p = Flighting then Lost else bm_color m p))"
  using may_loss_correct [OF assms(1-4)] assms(5) unfolding lost_in_shape_def by metis

theorem may_loss_marks_in_flight_witness:
  "\<exists>m'. may_loss (2, 12) sample_map = Ret m' \<and> bm_inv m' \<and> bm_end m' = bm_end sample_map \<and>
    (\<forall>p < bm_end sample_map. bm_color m' p =
       (if 2 \<le> p \<and> p < 12 \<and> bm_color sample_map p = Flighting then Lost else bm_color sample_map p))"
  by (rule may_loss_marks_in_flight) (use sample_map_ok in \<open>auto simp: sample_map_def\<close>)

text \<open>
  Why the loss report must not start at an acknowledged interval. The map below arises when bytes
  5 to 9 and 10 to 14 were lost, sent again in one frame, and the first packet was acknowledged late:
  reporting the second frame lost drains the in-flight state at 10 into the acknowledged one, and
  the bytes 10 to 14 count as received.
\<close>

text \<open>A loss report that starts where an acknowledged interval starts makes the bytes in flight
behind it count as acknowledged: on a well-formed map where bytes 0 to 4 and 10 to 14 are in flight
and 5 to 9 acknowledged, reporting 5 to 14 lost leaves byte 12 \<open>Recved\<close>; and a report that starts
before the first state of the map (bytes 0 to 9 lost, 0 to 4 already acknowledged and forgotten) leaves
the bytes in flight as they are, neither lost nor to be sent again.\<close>

theorem may_loss_forgets_after_acked:
  "may_loss (5, 15) sample_map = Ret \<lparr>bm_states = [State 0 Flighting, State 5 Recved], bm_end = 15\<rparr> \<and>
   bm_color sample_map 12 = Flighting \<and>
   bm_color \<lparr>bm_states = [State 0 Flighting, State 5 Recved], bm_end = 15\<rparr> 12 = Recved \<and>
   may_loss (0, 10) \<lparr>bm_states = [State 5 Flighting], bm_end = 10\<rparr> =
     Ret \<lparr>bm_states = [State 5 Flighting], bm_end = 10\<rparr>"
  by (simp add: may_loss_def sample_map_def binary_search_def lower_bound_def Let_def loss_scan.simps
      get_def finish_edit_def drain_range_def bm_color_def)

text \<open>What becomes of it: bytes up to \<open>a\<close> are in flight, those from \<open>b\<close> on are judged lost, and those between were judged lost wrongly, sent again, and then acknowledged late. When the
retransmission is now judged lost too, the bytes behind \<open>b\<close> are taken for acknowledged, and after the acknowledgement of the bytes in front the buffer reports that everything was received, although
the bytes from \<open>b\<close> on never were.\<close>

theorem late_ack_then_loss_forgets:
  assumes w: "0 < a" "a < b" "b < length w"
    and sb: "sb = \<lparr>sb_offset = 0, sb_data = w, sb_state = \<lparr>bm_states = [State 0 Flighting, State a Recved, State b Lost], bm_end = length w\<rparr>\<rparr>"
  shows "\<exists>sb1 sb2. may_loss_data (a, b) sb = Ret sb1 \<and> on_data_acked (0, a) sb1 = Ret sb2 \<and> is_all_rcvd sb2"
proof -
  let ?sb = "\<lambda>o1 d xs. \<lparr>sb_offset = o1, sb_data = d, sb_state = \<lparr>bm_states = xs, bm_end = length w\<rparr>\<rparr>"
  have idx: "wsub1 (Suc 0) = 0" "wsub1 (Suc (Suc 0)) = 1" "wsub1 (Suc (Suc (Suc 0))) = 2" by (simp_all add: wsub1_def)
  have "may_loss_data (a, b) sb = Ret (?sb 0 w [State 0 Flighting, State a Recved])"
    using w by (simp add: sb may_loss_data_def may_loss_def binary_search_def lower_bound_def Let_def loss_scan.simps
      get_def finish_edit_def drain_range_def idx same_after_def run_end.simps wadd1_def)
  moreover have "on_data_acked (0, a) (?sb 0 w [State 0 Flighting, State a Recved]) = Ret (?sb (length w) [] [])"
    using w by (simp add: on_data_acked_def ack_rcvd_def binary_search_def lower_bound_def Let_def ack_scan.simps set_color_def
      get_def finish_edit_def drain_range_def shift_def idx same_after_def run_end.simps wadd1_def)
  ultimately show ?thesis by (simp add: is_all_rcvd_def)
qed

end
