(* ===== verification/Rcv_Buf.thy ===== *)
theory Rcv_Buf
  imports Wire
begin

section \<open>Reassembly of received data: qrecovery/src/recv/rcvbuf.rs\<close>

text \<open>
  \<open>RecvBuf\<close> keeps the received fragments that were not read yet as segments, sorted and without overlap. Offsets
  plus lengths stay below $2^{62}$ (the frame reader checks it), so the u64 sums are exact. The room in the buffer
  handed to \<open>try_read\<close> is a number, its content the bytes returned. The abstract view of a buffer is the partial
  map \<open>content\<close> from offsets to bytes.
\<close>

record segment =
  seg_offset :: nat
  seg_data :: "byte list"

definition seg_end :: "segment \<Rightarrow> nat" where
  "seg_end s = seg_offset s + length (seg_data s)"

record recv_buf =
  rb_nread :: nat
  rb_largest_offset :: nat
  rb_segments :: "segment list"

definition rb_default :: recv_buf where
  "rb_default = \<lparr>rb_nread = 0, rb_largest_offset = 0, rb_segments = []\<rparr>"

definition rb_is_empty :: "recv_buf \<Rightarrow> bool" where
  "rb_is_empty b \<longleftrightarrow> rb_segments b = []"

text \<open>\<open>binary_search_by\<close> on the sorted offsets: the index found, or the index to insert at.\<close>

definition seg_search :: "segment list \<Rightarrow> nat \<Rightarrow> nat + nat" where
  "seg_search segs start =
     (let i = length (takeWhile (\<lambda>s. seg_offset s < start) segs)
      in if i < length segs \<and> seg_offset (segs ! i) = start then Inr i else Inl i)"

definition rb_put :: "recv_buf \<Rightarrow> nat \<Rightarrow> segment \<Rightarrow> recv_buf" where
  "rb_put b i seg =
     b\<lparr>rb_largest_offset := max (rb_largest_offset b) (seg_end seg), rb_segments := insert_at i seg (rb_segments b)\<rparr>"

text \<open>
  One iteration of the loop of \<open>recv\<close>: the buffer, and \<open>start\<close> and \<open>data\<close> for the next iteration unless the loop
  breaks. The part of \<open>data\<close> in front of the next segment is stored: all of it if it does not reach that segment.
\<close>

definition uncovered_len :: "segment list \<Rightarrow> nat \<Rightarrow> nat \<Rightarrow> byte list \<Rightarrow> nat" where
  "uncovered_len segs i start data =
     (if i < length segs \<and> seg_offset (segs ! i) < start + length data then seg_offset (segs ! i) - start else length data)"

definition recv_step :: "recv_buf \<Rightarrow> nat \<Rightarrow> byte list \<Rightarrow> recv_buf \<times> (nat \<times> byte list) option" where
  "recv_step b start data =
     (let segs = rb_segments b
      in case seg_search segs start of
           Inr i \<Rightarrow>
             let length_covered = min (length data) (length (seg_data (segs ! i)))
             in (b, Some (start + length_covered, drop length_covered data))
         | Inl 0 \<Rightarrow>
             let n = uncovered_len segs 0 start data
             in (rb_put b 0 \<lparr>seg_offset = start, seg_data = take n data\<rparr>, Some (start + n, drop n data))
         | Inl (Suc k) \<Rightarrow>
             let prev_end = seg_end (segs ! k)
             in if start + length data \<le> prev_end then (b, None)
                else let length_covered = prev_end - start;
                         start = start + length_covered;
                         data = drop length_covered data
                     in if Suc k < length segs \<and> start = seg_offset (segs ! Suc k) then (b, Some (start, data))
                        else let n = uncovered_len segs (Suc k) start data
                             in (rb_put b (Suc k) \<lparr>seg_offset = start, seg_data = take n data\<rparr>,
                                 Some (start + n, drop n data)))"

partial_function (option) recv_loop :: "recv_buf \<Rightarrow> nat \<Rightarrow> byte list \<Rightarrow> recv_buf option" where
  "recv_loop b start data =
     (if data = [] then Some b
      else case recv_step b start data of
             (b, None) \<Rightarrow> Some b
           | (b, Some (start, data)) \<Rightarrow> recv_loop b start data)"

definition rb_recv :: "recv_buf \<Rightarrow> nat \<Rightarrow> byte list \<Rightarrow> (recv_buf \<times> nat) option" where
  "rb_recv b offset data =
     (let start = max offset (rb_nread b);
          data = drop (min (length data) (start - offset)) data
      in case recv_loop b start data of
           None \<Rightarrow> None
         | Some b' \<Rightarrow> Some (b', rb_largest_offset b' - rb_largest_offset b))"

fun continuous_end :: "nat \<Rightarrow> segment list \<Rightarrow> nat" where
  "continuous_end offset [] = offset"
| "continuous_end offset (s # ss) =
     (if seg_offset s = offset then continuous_end (offset + length (seg_data s)) ss else offset)"

definition rb_available :: "recv_buf \<Rightarrow> nat" where
  "rb_available b = continuous_end (rb_nread b) (rb_segments b) - rb_nread b"

definition rb_is_readable :: "recv_buf \<Rightarrow> bool" where
  "rb_is_readable b \<longleftrightarrow> rb_segments b \<noteq> [] \<and> seg_offset (hd (rb_segments b)) = rb_nread b"

text \<open>\<open>try_read\<close> into a buffer with room for \<open>room\<close> bytes: the bytes put into it and the buffer afterwards.\<close>

function read_loop :: "nat \<Rightarrow> nat \<Rightarrow> segment list \<Rightarrow> byte list \<times> nat \<times> segment list" where
  "read_loop room nread segs =
     (case segs of
        [] \<Rightarrow> ([], nread, [])
      | seg # rest \<Rightarrow>
          if seg_offset seg \<noteq> nread \<or> room = 0 then ([], nread, segs)
          else let n = min room (length (seg_data seg));
                   segs' = (if n < length (seg_data seg)
                            then \<lparr>seg_offset = seg_offset seg + n, seg_data = drop n (seg_data seg)\<rparr> # rest
                            else rest);
                   (bytes, r) = read_loop (room - n) (nread + n) segs'
               in (take n (seg_data seg) @ bytes, r))"
  by pat_completeness auto

termination
  by (relation "measure (\<lambda>(room, nread, segs). room + length segs)") (auto split: if_splits)

declare read_loop.simps [simp del]

definition try_read :: "recv_buf \<Rightarrow> nat \<Rightarrow> recv_buf \<times> byte list" where
  "try_read b room =
     (let (bytes, nread, segs) = read_loop room (rb_nread b) (rb_segments b)
      in (b\<lparr>rb_nread := nread, rb_segments := segs\<rparr>, bytes))"

subsection \<open>Content and invariant\<close>

definition seg_at :: "segment \<Rightarrow> nat \<Rightarrow> byte option" where
  "seg_at s i = (if seg_offset s \<le> i \<and> i < seg_end s then Some (seg_data s ! (i - seg_offset s)) else None)"

fun content :: "segment list \<Rightarrow> nat \<Rightarrow> byte option" where
  "content [] i = None"
| "content (s # ss) i = (case seg_at s i of Some x \<Rightarrow> Some x | None \<Rightarrow> content ss i)"

definition segs_ok :: "nat \<Rightarrow> segment list \<Rightarrow> bool" where
  "segs_ok lo segs \<longleftrightarrow>
     sorted_wrt (\<lambda>s t. seg_end s \<le> seg_offset t) segs \<and> (\<forall>s \<in> set segs. seg_data s \<noteq> [] \<and> lo \<le> seg_offset s)"

definition rb_inv :: "recv_buf \<Rightarrow> bool" where
  "rb_inv b \<longleftrightarrow> segs_ok (rb_nread b) (rb_segments b) \<and>
     rb_largest_offset b = (if rb_segments b = [] then rb_nread b else seg_end (last (rb_segments b)))"

lemma seg_end_gt: "seg_data s \<noteq> [] \<Longrightarrow> seg_offset s < seg_end s"
  by (simp add: seg_end_def)

lemma content_append: "content (xs @ ys) i = (case content xs i of Some x \<Rightarrow> Some x | None \<Rightarrow> content ys i)"
  by (induction xs) (auto split: option.splits)

lemma content_None: "(\<And>s. s \<in> set segs \<Longrightarrow> seg_at s i = None) \<Longrightarrow> content segs i = None"
  by (induction segs) auto

lemma content_nth:
  assumes "segs_ok lo segs" "k < length segs" "seg_offset (segs ! k) \<le> i" "i < seg_end (segs ! k)"
  shows "content segs i \<noteq> None"
  using assms(2-)
proof (induction segs arbitrary: k)
  case (Cons s segs)
  then show ?case by (cases k) (auto simp: seg_at_def split: option.splits)
qed simp

text \<open>Laying fresh data under what is already there.\<close>

definition merge :: "(nat \<Rightarrow> byte option) \<Rightarrow> nat \<Rightarrow> byte list \<Rightarrow> nat \<Rightarrow> byte option" where
  "merge m start data i =
     (case m i of
        Some x \<Rightarrow> Some x
      | None \<Rightarrow> if start \<le> i \<and> i < start + length data then Some (data ! (i - start)) else None)"

lemma merge_Nil [simp]: "merge m start [] = m"
  by (auto simp: merge_def split: option.splits)

lemma merge_split:
  assumes "n \<le> length data"
  shows "merge m start data = merge (merge m start (take n data)) (start + n) (drop n data)"
proof
  fix i
  show "merge m start data i = merge (merge m start (take n data)) (start + n) (drop n data) i"
    using assms by (cases "m i") (auto simp: merge_def split: option.splits if_splits)
qed

lemma merge_covered:
  assumes "\<And>i. start \<le> i \<Longrightarrow> i < start + length data \<Longrightarrow> m i \<noteq> None"
  shows "merge m start data = m"
proof
  fix i
  show "merge m start data i = m i" using assms [of i] by (cases "m i") (auto simp: merge_def)
qed

lemma sorted_append_iff:
  "segs_ok lo (xs @ ys) \<longleftrightarrow> segs_ok lo xs \<and> segs_ok lo ys \<and> (\<forall>s \<in> set xs. \<forall>t \<in> set ys. seg_end s \<le> seg_offset t)"
  by (auto simp: segs_ok_def sorted_wrt_append)

text \<open>Where the search for \<open>start\<close> ends: everything in front starts before it, everything behind after it.\<close>

lemma seg_search_spec:
  assumes "segs_ok lo segs"
  shows "seg_search segs start = Inr i \<Longrightarrow> i < length segs \<and> seg_offset (segs ! i) = start"
    and "seg_search segs start = Inl i \<Longrightarrow> i \<le> length segs \<and> (\<forall>s \<in> set (take i segs). seg_offset s < start) \<and>
      (\<forall>s \<in> set (drop i segs). start < seg_offset s)"
proof -
  let ?i = "length (takeWhile (\<lambda>s. seg_offset s < start) segs)"
  show "seg_search segs start = Inr i \<Longrightarrow> i < length segs \<and> seg_offset (segs ! i) = start"
    by (auto simp: seg_search_def Let_def split: if_splits)
  assume s: "seg_search segs start = Inl i"
  then have i: "i = ?i" and ne: "i < length segs \<Longrightarrow> seg_offset (segs ! i) \<noteq> start"
    by (auto simp: seg_search_def Let_def split: if_splits)
  have "start < seg_offset s" if "s \<in> set (drop i segs)" for s
  proof -
    have lt: "i < length segs" using that by (cases "i < length segs") auto
    then have d: "drop i segs = segs ! i # drop (Suc i) segs" by (rule Cons_nth_drop_Suc [symmetric])
    have "\<not> seg_offset (segs ! i) < start" using nth_length_takeWhile [of "\<lambda>s. seg_offset s < start" segs] lt i by simp
    then have f: "start < seg_offset (segs ! i)" using ne [OF lt] by linarith
    have "segs_ok lo (drop i segs)" using assms sorted_append_iff [of lo "take i segs" "drop i segs"] by simp
    then have ok: "segs_ok lo (segs ! i # drop (Suc i) segs)" unfolding d .
    have "s = segs ! i \<or> s \<in> set (drop (Suc i) segs)" using that d by simp
    then show ?thesis
    proof
      assume "s \<in> set (drop (Suc i) segs)"
      then have "seg_end (segs ! i) \<le> seg_offset s" using ok by (simp add: segs_ok_def)
      moreover have "seg_offset (segs ! i) \<le> seg_end (segs ! i)" by (simp add: seg_end_def)
      ultimately show ?thesis using f by linarith
    qed (use f in simp)
  qed
  moreover have "\<forall>s \<in> set (take i segs). seg_offset s < start"
    unfolding i takeWhile_is_prefix by (blast dest: set_takeWhileD)
  moreover have "i \<le> length segs" unfolding i by (rule takeWhile_length_le)
  ultimately show "i \<le> length segs \<and> (\<forall>s \<in> set (take i segs). seg_offset s < start) \<and> (\<forall>s \<in> set (drop i segs). start < seg_offset s)"
    by blast
qed

subsection \<open>Receiving\<close>

lemma insert_segment:
  assumes ok: "segs_ok lo segs" and new: "seg_data s \<noteq> []" "lo \<le> seg_offset s"
    and front: "\<forall>t \<in> set (take i segs). seg_end t \<le> seg_offset s"
    and behind: "\<forall>t \<in> set (drop i segs). seg_end s \<le> seg_offset t"
  shows "segs_ok lo (insert_at i s segs)" and "content (insert_at i s segs) = merge (content segs) (seg_offset s) (seg_data s)"
proof -
  have "segs_ok lo (take i segs)" "segs_ok lo (drop i segs)" "\<forall>a \<in> set (take i segs). \<forall>t \<in> set (drop i segs). seg_end a \<le> seg_offset t"
    using ok sorted_append_iff [of lo "take i segs" "drop i segs"] by simp_all
  then show "segs_ok lo (insert_at i s segs)"
    using new front behind by (auto simp: insert_at_def segs_ok_def sorted_wrt_append)
  show "content (insert_at i s segs) = merge (content segs) (seg_offset s) (seg_data s)"
  proof
    fix j
    have "content segs j = content (take i segs @ drop i segs) j" by simp
    then have c: "content segs j = (case content (take i segs) j of Some x \<Rightarrow> Some x | None \<Rightarrow> content (drop i segs) j)"
      unfolding content_append .
    have "content (take i segs) j = None" "content (drop i segs) j = None" if "seg_at s j \<noteq> None"
      using that front behind by (auto intro!: content_None simp: seg_at_def split: if_splits)
    then show "content (insert_at i s segs) j = merge (content segs) (seg_offset s) (seg_data s) j"
      unfolding insert_at_def content_append merge_def c
      by (auto simp: seg_at_def seg_end_def split: option.splits if_splits)
  qed
qed

lemma last_insert_at: "i \<le> length xs \<Longrightarrow> last (insert_at i x xs) = (if i = length xs then x else last xs)"
  by (auto simp: insert_at_def last_append)

lemma seg_end_le_last: "segs_ok lo segs \<Longrightarrow> s \<in> set segs \<Longrightarrow> seg_end s \<le> seg_end (last segs)"
proof (induction segs)
  case (Cons a segs)
  then have "segs_ok lo segs" by (simp add: segs_ok_def)
  moreover have "seg_end a \<le> seg_end (last segs)" if "segs \<noteq> []"
  proof -
    have "seg_end a \<le> seg_offset (last segs)" using Cons.prems(1) that by (simp add: segs_ok_def)
    then show ?thesis by (simp add: seg_end_def)
  qed
  ultimately show ?case using Cons by auto
qed simp

lemma rb_put_ok:
  assumes inv: "rb_inv b" and i: "i \<le> length (rb_segments b)" and new: "seg_data s \<noteq> []" "rb_nread b \<le> seg_offset s"
    and front: "\<forall>t \<in> set (take i (rb_segments b)). seg_end t \<le> seg_offset s"
    and behind: "\<forall>t \<in> set (drop i (rb_segments b)). seg_end s \<le> seg_offset t"
  shows "rb_inv (rb_put b i s)" and "content (rb_segments (rb_put b i s)) = merge (content (rb_segments b)) (seg_offset s) (seg_data s)"
proof -
  let ?segs = "rb_segments b"
  have ok: "segs_ok (rb_nread b) ?segs" using inv by (simp add: rb_inv_def)
  note ins = insert_segment [OF ok new front behind]
  show "content (rb_segments (rb_put b i s)) = merge (content ?segs) (seg_offset s) (seg_data s)"
    using ins(2) by (simp add: rb_put_def)
  have "max (rb_largest_offset b) (seg_end s) = seg_end (last (insert_at i s ?segs))"
  proof (cases "i = length ?segs")
    case True
    have "rb_largest_offset b \<le> seg_offset s"
      using inv new(2) front True by (cases "?segs = []") (auto simp: rb_inv_def)
    then show ?thesis using True seg_end_gt [OF new(1)] by (simp add: last_insert_at)
  next
    case False
    then have "?segs ! i \<in> set (drop i ?segs)" "i < length ?segs" using i by (auto simp: in_set_conv_nth intro!: exI [of _ 0])
    then have "seg_end s \<le> seg_offset (?segs ! i)" "seg_end (?segs ! i) \<le> seg_end (last ?segs)"
      using behind seg_end_le_last [OF ok] by auto
    then have "seg_end s \<le> seg_end (last ?segs)" by (simp add: seg_end_def)
    then show ?thesis using False i inv \<open>i < length ?segs\<close> by (auto simp: last_insert_at rb_inv_def)
  qed
  then show "rb_inv (rb_put b i s)" using ins(1) by (simp add: rb_inv_def rb_put_def insert_at_def)
qed

text \<open>
  What one iteration has to achieve: it deals with the first \<open>n\<close> bytes, \<open>n\<close> positive, and the loop goes on
  with the others.
\<close>

definition step_ok :: "recv_buf \<Rightarrow> nat \<Rightarrow> byte list \<Rightarrow> recv_buf \<Rightarrow> nat \<Rightarrow> bool" where
  "step_ok b start data b' n \<longleftrightarrow> 0 < n \<and> n \<le> length data \<and> rb_inv b' \<and> rb_nread b' = rb_nread b \<and>
     content (rb_segments b') = merge (content (rb_segments b)) start (take n data) \<and>
     rb_largest_offset b' = max (rb_largest_offset b) (start + n)"

lemma seg_end_le_largest: "rb_inv b \<Longrightarrow> s \<in> set (rb_segments b) \<Longrightarrow> seg_end s \<le> rb_largest_offset b"
  using seg_end_le_last by (auto simp: rb_inv_def)

lemma step_covered:
  assumes inv: "rb_inv b" and k: "k < length (rb_segments b)" and r: "seg_offset (rb_segments b ! k) \<le> start"
    "start + n \<le> seg_end (rb_segments b ! k)" and n: "0 < n" "n \<le> length data"
  shows "step_ok b start data b n"
proof -
  have "merge (content (rb_segments b)) start (take n data) = content (rb_segments b)"
    using inv k r n content_nth [of "rb_nread b" "rb_segments b" k] by (intro merge_covered) (auto simp: rb_inv_def)
  moreover have "start + n \<le> rb_largest_offset b"
    using r(2) seg_end_le_largest [OF inv nth_mem [OF k]] by linarith
  ultimately show ?thesis using inv n by (simp add: step_ok_def)
qed

lemma drop_offsets:
  assumes "segs_ok lo segs" "i < length segs" "t \<in> set (drop i segs)"
  shows "seg_offset (segs ! i) \<le> seg_offset t"
proof -
  have d: "drop i segs = segs ! i # drop (Suc i) segs" using Cons_nth_drop_Suc [OF assms(2)] by simp
  have "segs_ok lo (drop i segs)" using assms(1) sorted_append_iff [of lo "take i segs" "drop i segs"] by simp
  then have "\<forall>t \<in> set (drop (Suc i) segs). seg_end (segs ! i) \<le> seg_offset t" unfolding d by (simp add: segs_ok_def)
  then show ?thesis using assms(3) unfolding d by (auto simp: seg_end_def)
qed

lemma step_insert:
  assumes inv: "rb_inv b" and i: "i \<le> length (rb_segments b)" and start: "rb_nread b \<le> start" and data: "data \<noteq> []"
    and front: "\<forall>t \<in> set (take i (rb_segments b)). seg_end t \<le> start"
    and behind: "\<forall>t \<in> set (drop i (rb_segments b)). start < seg_offset t"
  shows "step_ok b start data (rb_put b i \<lparr>seg_offset = start, seg_data = take (uncovered_len (rb_segments b) i start data) data\<rparr>)
    (uncovered_len (rb_segments b) i start data)"
proof -
  let ?segs = "rb_segments b" and ?n = "uncovered_len (rb_segments b) i start data"
  let ?s = "\<lparr>seg_offset = start, seg_data = take ?n data\<rparr>"
  have at_i: "start < seg_offset (?segs ! i) \<and> (\<forall>t \<in> set (drop i ?segs). seg_offset (?segs ! i) \<le> seg_offset t)"
    if lt: "i < length ?segs"
    using behind drop_offsets [OF _ lt] inv Cons_nth_drop_Suc [OF lt] by (metis list.set_intros(1) rb_inv_def)
  have n: "0 < ?n" "?n \<le> length data" using at_i data by (auto simp: uncovered_len_def)
  have e: "seg_end ?s = start + ?n" using n by (simp add: seg_end_def)
  have "seg_end ?s \<le> seg_offset t" if t: "t \<in> set (drop i ?segs)" for t
  proof -
    have lt: "i < length ?segs" using t by (cases "i < length ?segs") auto
    have "seg_offset (?segs ! i) \<le> seg_offset t" "start < seg_offset (?segs ! i)" using at_i [OF lt] t by auto
    moreover have "?n = (if seg_offset (?segs ! i) < start + length data then seg_offset (?segs ! i) - start else length data)"
      using lt by (simp add: uncovered_len_def)
    ultimately show ?thesis unfolding e by auto
  qed
  then show ?thesis
    using rb_put_ok [OF inv i, of ?s] n start front data e by (simp add: step_ok_def rb_put_def)
qed

lemma step_trans:
  assumes "step_ok b start data b n" "step_ok b (start + n) (drop n data) b' m"
  shows "step_ok b start data b' (n + m)"
proof -
  have len: "n + m \<le> length data" using assms by (auto simp: step_ok_def)
  have "merge (content (rb_segments b)) start (take (n + m) data) =
      merge (merge (content (rb_segments b)) start (take n data)) (start + n) (take m (drop n data))"
    using merge_split [of n "take (n + m) data"] len by (simp add: min_absorb1 take_drop add.commute)
  then show ?thesis using assms len by (auto simp: step_ok_def)
qed

lemma recv_step_behind_prev:
  assumes inv: "rb_inv b" and start: "rb_nread b \<le> start" and data: "data \<noteq> []"
    and search: "seg_search (rb_segments b) start = Inl (Suc k)"
  shows "\<exists>b' n. step_ok b start data b' n \<and>
    (recv_step b start data = (b', Some (start + n, drop n data)) \<or> recv_step b start data = (b', None) \<and> n = length data)"
proof -
  let ?segs = "rb_segments b"
  have ok: "segs_ok (rb_nread b) ?segs" using inv by (simp add: rb_inv_def)
  note at = seg_search_spec(2) [OF ok search]
  let ?c = "seg_end (?segs ! k) - start"
  have k: "k < length ?segs" "seg_offset (?segs ! k) < start"
    using at by (auto simp: take_Suc_conv_app_nth)
  show ?thesis
  proof (cases "start + length data \<le> seg_end (?segs ! k)")
    case True
    then have "step_ok b start data b (length data)" using k data by (intro step_covered [OF inv k(1)]) auto
    then show ?thesis using True search by (auto simp: recv_step_def Let_def)
  next
    case False
    have "0 < length data" using data by simp
    then have c: "?c < length data" using False by linarith
    then have rest: "drop ?c data \<noteq> []" by simp
    have front: "\<forall>t \<in> set (take (Suc k) ?segs). seg_end t \<le> start + ?c"
    proof -
      have "segs_ok (rb_nread b) (take (Suc k) ?segs)"
        using ok sorted_append_iff [of "rb_nread b" "take (Suc k) ?segs" "drop (Suc k) ?segs"] by simp
      moreover have "last (take (Suc k) ?segs) = ?segs ! k" using k(1) by (simp add: take_Suc_conv_app_nth)
      ultimately have "\<forall>t \<in> set (take (Suc k) ?segs). seg_end t \<le> seg_end (?segs ! k)" using seg_end_le_last by metis
      then show ?thesis by (auto intro: le_trans)
    qed
    show ?thesis
    proof (cases "Suc k < length ?segs \<and> start + ?c = seg_offset (?segs ! Suc k)")
      case True
      have "start < seg_offset (?segs ! Suc k)"
        using at True by (metis Cons_nth_drop_Suc list.set_intros(1))
      then have "step_ok b start data b ?c" using True False k by (intro step_covered [OF inv k(1)]) auto
      then show ?thesis using True False search by (auto simp: recv_step_def Let_def)
    next
      case no: False
      have behind: "\<forall>t \<in> set (drop (Suc k) ?segs). start + ?c < seg_offset t"
      proof
        fix t
        assume t: "t \<in> set (drop (Suc k) ?segs)"
        then have lt: "Suc k < length ?segs" by (cases "Suc k < length ?segs") auto
        have n: "?segs ! Suc k \<in> set (drop (Suc k) ?segs)" by (metis Cons_nth_drop_Suc [OF lt] list.set_intros(1))
        have "seg_end (?segs ! k) \<le> seg_offset (?segs ! Suc k)"
          using ok lt sorted_wrt_nth_less [of _ ?segs k "Suc k"] by (auto simp: segs_ok_def)
        moreover have "start < seg_offset (?segs ! Suc k)" using at n by auto
        ultimately have "start + ?c \<le> seg_offset (?segs ! Suc k)" by linarith
        moreover have "start + ?c \<noteq> seg_offset (?segs ! Suc k)" using no lt by simp
        moreover have "seg_offset (?segs ! Suc k) \<le> seg_offset t" by (rule drop_offsets [OF ok lt t])
        ultimately show "start + ?c < seg_offset t" by linarith
      qed
      let ?b = "rb_put b (Suc k) \<lparr>seg_offset = start + ?c, seg_data = take (uncovered_len ?segs (Suc k) (start + ?c) (drop ?c data)) (drop ?c data)\<rparr>"
      have ins: "step_ok b (start + ?c) (drop ?c data) ?b (uncovered_len ?segs (Suc k) (start + ?c) (drop ?c data))"
        using k(1) start rest front behind by (intro step_insert [OF inv]) auto
      have "step_ok b start data ?b (?c + uncovered_len ?segs (Suc k) (start + ?c) (drop ?c data))"
      proof (cases "?c = 0")
        case False
        have "step_ok b start data b ?c" using False \<open>\<not> start + length data \<le> _\<close> k by (intro step_covered [OF inv k(1)]) auto
        then show ?thesis using ins by (rule step_trans)
      qed (use ins in simp)
      then show ?thesis using no False search by (auto simp: recv_step_def Let_def add.commute)
    qed
  qed
qed

lemma recv_step_ok:
  assumes inv: "rb_inv b" and start: "rb_nread b \<le> start" and data: "data \<noteq> []"
  shows "\<exists>b' n. step_ok b start data b' n \<and>
    (recv_step b start data = (b', Some (start + n, drop n data)) \<or> recv_step b start data = (b', None) \<and> n = length data)"
proof -
  let ?segs = "rb_segments b"
  have ok: "segs_ok (rb_nread b) ?segs" using inv by (simp add: rb_inv_def)
  show ?thesis
  proof (cases "seg_search ?segs start")
    case (Inr i)
    then have i: "i < length ?segs" "seg_offset (?segs ! i) = start" using seg_search_spec(1) [OF ok Inr] by auto
    have "seg_data (?segs ! i) \<noteq> []" using ok i(1) by (simp add: segs_ok_def)
    then have "step_ok b start data b (min (length data) (length (seg_data (?segs ! i))))"
      using i data by (intro step_covered [OF inv i(1)]) (auto simp: seg_end_def)
    then show ?thesis using Inr by (auto simp: recv_step_def Let_def)
  next
    case (Inl i)
    note at = seg_search_spec(2) [OF ok Inl]
    show ?thesis
    proof (cases i)
      case 0
      have "step_ok b start data (rb_put b 0 \<lparr>seg_offset = start, seg_data = take (uncovered_len ?segs 0 start data) data\<rparr>)
          (uncovered_len ?segs 0 start data)"
        using at 0 by (intro step_insert [OF inv _ start data]) auto
      then show ?thesis using Inl 0 by (auto simp: recv_step_def Let_def)
    next
      case (Suc k)
      then show ?thesis using recv_step_behind_prev [OF assms] Inl by simp
    qed
  qed
qed

lemma recv_loop_ok:
  assumes "rb_inv b" "rb_nread b \<le> start"
  shows "\<exists>b'. recv_loop b start data = Some b' \<and> rb_inv b' \<and> rb_nread b' = rb_nread b \<and>
    content (rb_segments b') = merge (content (rb_segments b)) start data \<and>
    rb_largest_offset b' = (if data = [] then rb_largest_offset b else max (rb_largest_offset b) (start + length data))"
  using assms
proof (induction "length data" arbitrary: b start data rule: less_induct)
  case less
  show ?case
  proof (cases "data = []")
    case False
    obtain b1 n where st: "step_ok b start data b1 n"
      and rs: "recv_step b start data = (b1, Some (start + n, drop n data)) \<or> recv_step b start data = (b1, None) \<and> n = length data"
      using recv_step_ok [OF less.prems False] by blast
    have loop: "recv_loop b start data = recv_loop b1 (start + n) (drop n data)"
      using rs False recv_loop.simps [of b start data] recv_loop.simps [of b1 "start + n" "[]"] by auto
    have "rb_inv b1" "rb_nread b1 \<le> start + n" "length (drop n data) < length data"
      using st less.prems by (auto simp: step_ok_def)
    from less.hyps [OF this(3) this(1,2)] obtain b' where b': "recv_loop b1 (start + n) (drop n data) = Some b'"
      "rb_inv b'" "rb_nread b' = rb_nread b1" "content (rb_segments b') = merge (content (rb_segments b1)) (start + n) (drop n data)"
      "rb_largest_offset b' = (if drop n data = [] then rb_largest_offset b1 else max (rb_largest_offset b1) (start + n + length (drop n data)))"
      by blast
    have "content (rb_segments b') = merge (content (rb_segments b)) start data"
      using b'(4) st merge_split [of n data "content (rb_segments b)" start] by (simp add: step_ok_def)
    moreover have "rb_largest_offset b' = max (rb_largest_offset b) (start + length data)"
      using b'(5) st by (auto simp: step_ok_def)
    ultimately show ?thesis using loop b'(1-3) st False by (auto simp: step_ok_def)
  qed (use less.prems recv_loop.simps [of b start "[]"] in simp)
qed

lemma recv_ok:
  assumes inv: "rb_inv b"
  shows "\<exists>b' k. rb_recv b offset data = Some (b', k) \<and> rb_inv b' \<and> rb_nread b' = rb_nread b \<and>
    content (rb_segments b') = merge (content (rb_segments b)) (max offset (rb_nread b)) (drop (rb_nread b - offset) data) \<and>
    k = (if data = [] then 0 else (offset + length data) - rb_largest_offset b)"
proof -
  let ?start = "max offset (rb_nread b)" and ?data = "drop (rb_nread b - offset) data"
  have "?start - offset = rb_nread b - offset" by simp
  then have d: "drop (min (length data) (?start - offset)) data = ?data"
    by (cases "rb_nread b - offset \<le> length data") (simp_all add: min_def)
  have nl: "rb_nread b \<le> rb_largest_offset b"
  proof (cases "rb_segments b = []")
    case False
    then have "rb_nread b \<le> seg_offset (last (rb_segments b))" using inv by (simp add: rb_inv_def segs_ok_def)
    then show ?thesis using inv False by (simp add: rb_inv_def seg_end_def)
  qed (use inv in \<open>simp add: rb_inv_def\<close>)
  obtain b' where b': "recv_loop b ?start ?data = Some b'" "rb_inv b'" "rb_nread b' = rb_nread b"
    "content (rb_segments b') = merge (content (rb_segments b)) ?start ?data"
    "rb_largest_offset b' = (if ?data = [] then rb_largest_offset b else max (rb_largest_offset b) (?start + length ?data))"
    using recv_loop_ok [OF inv, of ?start ?data] by auto
  have "rb_largest_offset b' - rb_largest_offset b = (if data = [] then 0 else (offset + length data) - rb_largest_offset b)"
  proof (cases "data = []")
    case False
    then have "0 < length data" by simp
    then show ?thesis using b'(5) nl by (cases "rb_nread b \<le> offset") (auto simp: max_def split: if_splits)
  qed (use b'(5) in simp)
  then show ?thesis using b' d by (simp add: rb_recv_def Let_def)
qed

lemma recv_largest:
  assumes "rb_inv b" "rb_recv b offset data = Some (b', k)"
  shows "rb_largest_offset b' = rb_largest_offset b + k"
proof -
  obtain start data' where r: "recv_loop b start data' = Some b'" "rb_nread b \<le> start" "k = rb_largest_offset b' - rb_largest_offset b"
    using assms(2) by (auto simp: rb_recv_def Let_def split: option.splits)
  then show ?thesis using recv_loop_ok [OF assms(1) r(2), of data'] by auto
qed

lemma rb_nread_le_largest: "rb_inv b \<Longrightarrow> rb_nread b \<le> rb_largest_offset b"
  by (cases "rb_segments b = []") (auto simp: rb_inv_def segs_ok_def seg_end_def intro: order_trans [OF bspec [of _ _ "last (rb_segments b)"]])

subsection \<open>Reading\<close>

lemma content_before: "segs_ok lo segs \<Longrightarrow> i < lo \<Longrightarrow> content segs i = None"
  by (rule content_None) (auto simp: segs_ok_def seg_at_def)

lemma segs_ok_Cons:
  "segs_ok lo (s # segs) \<longleftrightarrow> seg_data s \<noteq> [] \<and> lo \<le> seg_offset s \<and> segs_ok (seg_end s) segs"
  by (auto simp: segs_ok_def seg_end_def)

lemma continuous_end_spec:
  assumes "segs_ok offset segs"
  shows "offset \<le> continuous_end offset segs" and "\<And>i. offset \<le> i \<Longrightarrow> i < continuous_end offset segs \<Longrightarrow> content segs i \<noteq> None"
    and "content segs (continuous_end offset segs) = None"
  using assms
proof (induction segs arbitrary: offset)
  case (Cons s segs)
  { case 1 then show ?case using Cons.IH(1) [of "seg_end s"] by (auto simp: segs_ok_Cons seg_end_def)
  next case (2 i) then show ?case using Cons.IH(2) [of "seg_end s" i] by (auto simp: segs_ok_Cons seg_end_def seg_at_def split: if_splits)
  next case 3
    show ?case
    proof (cases "seg_offset s = offset")
      case True
      then have e: "continuous_end offset (s # segs) = continuous_end (seg_end s) segs" by (simp add: seg_end_def)
      have "segs_ok (seg_end s) segs" using 3 by (simp add: segs_ok_Cons)
      then show ?thesis using Cons.IH(1,3) [of "seg_end s"] unfolding e by (simp add: seg_at_def)
    next
      case False
      then have "offset < seg_offset s" "segs_ok (seg_end s) segs" "seg_offset s \<le> seg_end s" using 3 by (auto simp: segs_ok_Cons seg_end_def)
      then show ?thesis using False content_before [of "seg_end s" segs offset] by (simp add: seg_at_def)
    qed }
qed simp_all

definition read_ok :: "nat \<Rightarrow> nat \<Rightarrow> segment list \<Rightarrow> byte list \<times> nat \<times> segment list \<Rightarrow> bool" where
  "read_ok room nread segs res \<longleftrightarrow>
     (let (bytes, nread', segs') = res
      in nread' = nread + min room (continuous_end nread segs - nread) \<and> segs_ok nread' segs' \<and>
         map Some bytes = map (content segs) [nread..<nread'] \<and>
         (\<forall>i. content segs' i = (if nread' \<le> i then content segs i else None)) \<and>
         (if segs' = [] then nread' else seg_end (last segs')) = (if segs = [] then nread else seg_end (last segs)))"

lemma content_Cons_split:
  assumes "segs_ok nread (s # rest)" "seg_offset s = nread"
  shows "i < seg_end s \<Longrightarrow> nread \<le> i \<Longrightarrow> content (s # rest) i = Some (seg_data s ! (i - nread))"
    and "seg_end s \<le> i \<Longrightarrow> content (s # rest) i = content rest i"
  using assms by (auto simp: seg_at_def)

lemma read_segment_part:
  assumes ok: "segs_ok nread (s # rest)" and off: "seg_offset s = nread" and n: "0 < n" "n < length (seg_data s)"
  shows "read_ok n nread (s # rest) (take n (seg_data s), nread + n, \<lparr>seg_offset = nread + n, seg_data = drop n (seg_data s)\<rparr> # rest)"
proof -
  let ?s = "\<lparr>seg_offset = nread + n, seg_data = drop n (seg_data s)\<rparr>"
  have e: "seg_end ?s = seg_end s" using off n by (simp add: seg_end_def)
  have ok': "segs_ok (nread + n) (?s # rest)" using ok n off by (simp add: segs_ok_Cons e)
  have "seg_end s \<le> continuous_end (seg_end s) rest" using continuous_end_spec(1) ok by (simp add: segs_ok_Cons)
  then have "n \<le> continuous_end nread (s # rest) - nread" using off n by (simp add: seg_end_def)
  moreover have "map Some (take n (seg_data s)) = map (content (s # rest)) [nread..<nread + n]"
    using off n by (intro nth_equalityI) (auto simp: seg_at_def seg_end_def)
  moreover have "content (?s # rest) i = (if nread + n \<le> i then content (s # rest) i else None)" for i
    using content_before [OF ok', of i] off n by (auto simp: seg_at_def e seg_end_def nth_drop)
  ultimately show ?thesis using ok' e by (simp add: read_ok_def min_absorb1 del: content.simps continuous_end.simps)
qed

lemma read_segment_whole:
  assumes ok: "segs_ok nread (s # rest)" and off: "seg_offset s = nread" and room: "length (seg_data s) \<le> room"
    and rec: "read_ok (room - length (seg_data s)) (seg_end s) rest (bytes, nread', segs')"
  shows "read_ok room nread (s # rest) (seg_data s @ bytes, nread', segs')"
proof -
  have e: "seg_end s = nread + length (seg_data s)" using off by (simp add: seg_end_def)
  have okr: "segs_ok (seg_end s) rest" using ok by (simp add: segs_ok_Cons)
  note r = rec [unfolded read_ok_def, simplified]
  have ge: "seg_end s \<le> nread'" using r by simp
  have "seg_end s \<le> continuous_end (seg_end s) rest" by (rule continuous_end_spec(1) [OF okr])
  then have n': "nread' = nread + min room (continuous_end nread (s # rest) - nread)" using r off room by (auto simp: e)
  have "[nread..<nread'] = [nread..<seg_end s] @ [seg_end s..<nread']"
    using upt_add_eq_append [of nread "seg_end s" "nread' - seg_end s"] ge by (simp add: e)
  moreover have "map Some (seg_data s) = map (content (s # rest)) [nread..<seg_end s]"
    using off by (intro nth_equalityI) (auto simp: seg_at_def e)
  moreover have "map (content (s # rest)) [seg_end s..<nread'] = map (content rest) [seg_end s..<nread']"
    using content_Cons_split(2) [OF ok off] by auto
  ultimately have bytes: "map Some (seg_data s @ bytes) = map (content (s # rest)) [nread..<nread']" using r by simp
  have cont: "\<forall>i. content segs' i = (if nread' \<le> i then content (s # rest) i else None)"
    using r content_Cons_split(2) [OF ok off] ge by (metis order_trans)
  have last: "(if segs' = [] then nread' else seg_end (last segs')) = (if s # rest = [] then nread else seg_end (last (s # rest)))"
    using r by auto
  show ?thesis unfolding read_ok_def Let_def prod.case using n' bytes cont last r by blast
qed

lemma read_loop_ok: "segs_ok nread segs \<Longrightarrow> read_ok room nread segs (read_loop room nread segs)"
proof (induction room nread segs rule: read_loop.induct)
  case (1 room nread segs)
  show ?case
  proof (cases segs)
    case Nil
    then show ?thesis by (simp add: read_loop.simps read_ok_def segs_ok_def)
  next
    case (Cons s rest)
    show ?thesis
    proof (cases "seg_offset s \<noteq> nread \<or> room = 0")
      case True
      have "min room (continuous_end nread segs - nread) = 0" using True Cons by auto
      moreover have "content segs i = (if nread \<le> i then content segs i else None)" for i
        using content_before [OF 1(2), of i] by auto
      moreover have "read_loop room nread segs = ([], nread, segs)" using True Cons by (simp add: read_loop.simps)
      ultimately show ?thesis using 1(2) by (simp add: read_ok_def)
    next
      case False
      then have off: "seg_offset s = nread" and room: "0 < room" by auto
      have ok: "segs_ok nread (s # rest)" using 1(2) Cons by simp
      show ?thesis
      proof (cases "room < length (seg_data s)")
        case True
        have "read_loop room nread segs = (take room (seg_data s), nread + room, \<lparr>seg_offset = nread + room, seg_data = drop room (seg_data s)\<rparr> # rest)"
          using Cons off room True by (simp add: read_loop.simps [of room nread] read_loop.simps [of 0])
        then show ?thesis using read_segment_part [OF ok off room True] Cons by simp
      next
        case False
        let ?n = "length (seg_data s)"
        obtain bytes nread' segs' where rec: "read_loop (room - ?n) (nread + ?n) rest = (bytes, nread', segs')"
          by (metis prod_cases3)
        have e: "nread + ?n = seg_end s" using off by (simp add: seg_end_def)
        have "segs_ok (nread + ?n) rest" using ok e by (simp add: segs_ok_Cons)
        then have "read_ok (room - ?n) (nread + ?n) rest (bytes, nread', segs')"
          using 1(1) [OF Cons, of ?n rest] False off room rec by (simp add: min_absorb2)
        then have "read_ok room nread (s # rest) (seg_data s @ bytes, nread', segs')"
          using False e by (intro read_segment_whole [OF ok off]) auto
        moreover have "read_loop room nread segs = (seg_data s @ bytes, nread', segs')"
          using Cons off room False rec by (simp add: read_loop.simps [of room nread])
        ultimately show ?thesis using Cons by simp
      qed
    qed
  qed
qed

lemma available_eq: "rb_available b = continuous_end (rb_nread b) (rb_segments b) - rb_nread b"
  by (simp add: rb_available_def)

lemma try_read_ok:
  assumes inv: "rb_inv b" and read: "try_read b room = (b', bytes)"
  shows "rb_inv b'" and "rb_nread b' = rb_nread b + length bytes" and "length bytes = min room (rb_available b)"
    and "map Some bytes = map (content (rb_segments b)) [rb_nread b..<rb_nread b']"
    and "content (rb_segments b') i = (if rb_nread b' \<le> i then content (rb_segments b) i else None)"
    and "rb_largest_offset b' = rb_largest_offset b"
proof -
  obtain nread segs where rl: "read_loop room (rb_nread b) (rb_segments b) = (bytes, nread, segs)"
    and b': "b' = b\<lparr>rb_nread := nread, rb_segments := segs\<rparr>"
    using read by (auto simp: try_read_def Let_def split: prod.splits)
  have r: "read_ok room (rb_nread b) (rb_segments b) (bytes, nread, segs)"
    using read_loop_ok [of "rb_nread b" "rb_segments b" room] inv rl by (simp add: rb_inv_def)
  note f = r [unfolded read_ok_def Let_def prod.case]
  have "length (map Some bytes) = length (map (content (rb_segments b)) [rb_nread b..<nread])" using f by metis
  then have "length bytes = nread - rb_nread b" by simp
  then show "rb_nread b' = rb_nread b + length bytes" "length bytes = min room (rb_available b)"
    using f by (auto simp: b' available_eq)
  show "rb_inv b'" using f inv by (auto simp: rb_inv_def b')
  show "map Some bytes = map (content (rb_segments b)) [rb_nread b..<rb_nread b']" using f by (simp add: b')
  show "content (rb_segments b') i = (if rb_nread b' \<le> i then content (rb_segments b) i else None)" using f by (simp add: b')
  show "rb_largest_offset b' = rb_largest_offset b" by (simp add: b')
qed

text \<open>C9: Receiving a fragment refines laying it under the map of what is already held: \<open>recv\<close> returns on every
buffer in its invariant, whatever overlaps, keeps the invariant, adds exactly the bytes that were neither read nor
held before and changes none, and reports as fresh exactly what the fragment extends the largest
offset by, which is what flow control is charged for.\<close>

theorem recv_refines_merge:
  assumes "rb_inv b"
  shows "\<exists>b' fresh. rb_recv b offset data = Some (b', fresh) \<and> rb_inv b' \<and> rb_nread b' = rb_nread b \<and>
    content (rb_segments b') = merge (content (rb_segments b)) (max offset (rb_nread b)) (drop (rb_nread b - offset) data) \<and>
    fresh = (if data = [] then 0 else (offset + length data) - rb_largest_offset b)"
  by (rule recv_ok [OF assms])

lemma rb_default_inv: "rb_inv rb_default"
  by (simp add: rb_inv_def rb_default_def segs_ok_def)

lemmas recv_eval = rb_recv_def recv_loop.simps recv_step_def seg_search_def uncovered_len_def rb_put_def insert_at_def
  rb_default_def seg_end_def

theorem recv_refines_merge_witness:
  "\<exists>b. rb_recv rb_default 3 [3, 4] = Some (b, 5) \<and> rb_inv b \<and>
     (\<exists>b'. rb_recv b 1 [1, 2, 9, 9, 5] = Some (b', 1) \<and> rb_inv b' \<and>
        map (content (rb_segments b')) [0..<7] = [None, Some 1, Some 2, Some 3, Some 4, Some 5, None])"
proof -
  let ?b = "\<lparr>rb_nread = 0, rb_largest_offset = 5, rb_segments = [\<lparr>seg_offset = 3, seg_data = [3, 4]\<rparr>]\<rparr>"
  have r: "rb_recv rb_default 3 [3, 4] = Some (?b, 5)" by (simp add: recv_eval)
  have i: "rb_inv ?b" using recv_refines_merge [OF rb_default_inv, of 3 "[3, 4]"] r by auto
  have u: "[0..<7] = [0, 1, 2, 3, 4, 5, 6::nat]" by (simp add: upt_rec numeral_eq_Suc)
  from recv_refines_merge [OF i, of 1 "[1, 2, 9, 9, 5]"] r i show ?thesis
    by (intro exI [of _ ?b]) (auto simp: u merge_def seg_at_def seg_end_def)
qed

text \<open>Reading takes exactly the continuous data: \<open>try_read\<close> returns as many bytes as fit and are available
without a gap, namely those at the next unread offsets in order; it keeps the invariant, the bytes
behind and the largest offset, and what it leaves out is where the data has its first hole.\<close>

theorem try_read_takes_continuous:
  assumes "rb_inv b" "try_read b room = (b', bytes)"
  shows "rb_inv b' \<and> length bytes = min room (rb_available b) \<and> rb_nread b' = rb_nread b + length bytes \<and>
    map Some bytes = map (content (rb_segments b)) [rb_nread b..<rb_nread b'] \<and>
    content (rb_segments b') = (\<lambda>i. if rb_nread b' \<le> i then content (rb_segments b) i else None) \<and>
    content (rb_segments b) (rb_nread b + rb_available b) = None"
proof -
  have ok: "segs_ok (rb_nread b) (rb_segments b)" using assms(1) by (simp add: rb_inv_def)
  then have "rb_nread b + rb_available b = continuous_end (rb_nread b) (rb_segments b)"
    using continuous_end_spec(1) by (simp add: available_eq)
  then show ?thesis using try_read_ok [OF assms] continuous_end_spec(3) [OF ok] by (auto simp: fun_eq_iff)
qed

theorem try_read_takes_continuous_witness:
  "\<exists>b' bytes. try_read \<lparr>rb_nread = 2, rb_largest_offset = 9, rb_segments =
       [\<lparr>seg_offset = 2, seg_data = [7, 8]\<rparr>, \<lparr>seg_offset = 4, seg_data = [9]\<rparr>, \<lparr>seg_offset = 7, seg_data = [1, 1]\<rparr>]\<rparr> 10 = (b', bytes) \<and>
     bytes = [7, 8, 9] \<and> rb_nread b' = 5 \<and> rb_inv b'"
proof -
  let ?b = "\<lparr>rb_nread = 2, rb_largest_offset = 9, rb_segments =
       [\<lparr>seg_offset = 2, seg_data = [7, 8]\<rparr>, \<lparr>seg_offset = 4, seg_data = [9]\<rparr>, \<lparr>seg_offset = 7, seg_data = [1, 1]\<rparr>]\<rparr>"
  have "rb_inv ?b" by (simp add: rb_inv_def segs_ok_def seg_end_def)
  moreover have "try_read ?b 10 = (?b\<lparr>rb_nread := 5, rb_segments := [\<lparr>seg_offset = 7, seg_data = [1, 1]\<rparr>]\<rparr>, [7, 8, 9])"
    by (simp add: try_read_def read_loop.simps)
  ultimately show ?thesis using try_read_takes_continuous by fastforce
qed

subsection \<open>Reassembly\<close>

text \<open>
  A peer's stream \<open>D\<close> arrives in fragments: in any order, repeated, overlapping. \<open>got\<close> is what the application
  has read, \<open>seen\<close> the offsets that have arrived.
\<close>

inductive rcv_reach :: "byte list \<Rightarrow> recv_buf \<Rightarrow> byte list \<Rightarrow> nat set \<Rightarrow> bool" for D where
  start: "rcv_reach D rb_default [] {}"
| fragment: "rcv_reach D b got seen \<Longrightarrow> offset + length data \<le> length D \<Longrightarrow> data = take (length data) (drop offset D) \<Longrightarrow>
    rb_recv b offset data = Some (b', fresh) \<Longrightarrow> rcv_reach D b' got (seen \<union> {offset..<offset + length data})"
| read: "rcv_reach D b got seen \<Longrightarrow> try_read b room = (b', bytes) \<Longrightarrow> rcv_reach D b' (got @ bytes) seen"

definition rcv_inv :: "byte list \<Rightarrow> recv_buf \<Rightarrow> byte list \<Rightarrow> nat set \<Rightarrow> bool" where
  "rcv_inv D b got seen \<longleftrightarrow> rb_inv b \<and> rb_nread b = length got \<and> length got \<le> length D \<and> got = take (length got) D \<and>
     (\<forall>i x. content (rb_segments b) i = Some x \<longrightarrow> i < length D \<and> x = D ! i) \<and>
     seen = {i. i < length got \<or> content (rb_segments b) i \<noteq> None}"

lemma rcv_inv_fragment:
  assumes "rcv_inv D b got seen" "offset + length data \<le> length D" "data = take (length data) (drop offset D)"
    and "rb_recv b offset data = Some (b', fresh)"
  shows "rcv_inv D b' got (seen \<union> {offset..<offset + length data})"
proof -
  have inv: "rb_inv b" and n: "rb_nread b = length got" using assms(1) by (simp_all add: rcv_inv_def)
  have b': "rb_inv b'" "rb_nread b' = length got"
    "content (rb_segments b') = merge (content (rb_segments b)) (max offset (length got)) (drop (length got - offset) data)"
    using recv_ok [OF inv, of offset data] assms(4) n by auto
  have D: "data ! i = D ! (offset + i)" if "i < length data" for i
    using that assms(2,3) by (metis add_lessD1 le_add1 nth_drop nth_take order_trans)
  have c: "content (rb_segments b') i = (case content (rb_segments b) i of Some x \<Rightarrow> Some x
      | None \<Rightarrow> if max offset (length got) \<le> i \<and> i < offset + length data then Some (D ! i) else None)" for i
    unfolding b'(3) merge_def using D by (cases "offset \<le> length got") (auto simp: max_def split: option.splits)
  have 1: "i < length D \<and> x = D ! i" if "content (rb_segments b') i = Some x" for i x
    using that c [of i] assms(1,2) by (auto simp: rcv_inv_def split: option.splits if_splits)
  have 2: "seen \<union> {offset..<offset + length data} = {i. i < length got \<or> content (rb_segments b') i \<noteq> None}"
    using assms(1) c by (auto simp: rcv_inv_def split: option.splits if_splits)
  show ?thesis using assms(1) b'(1,2) 1 2 by (simp add: rcv_inv_def)
qed

lemma rcv_inv_read:
  assumes "rcv_inv D b got seen" "try_read b room = (b', bytes)"
  shows "rcv_inv D b' (got @ bytes) seen"
proof -
  have inv: "rb_inv b" and n: "rb_nread b = length got" using assms(1) by (simp_all add: rcv_inv_def)
  note r = try_read_ok [OF inv assms(2)]
  have at: "content (rb_segments b) (length got + k) = Some (bytes ! k)" if "k < length bytes" for k
  proof -
    have "map Some bytes ! k = map (content (rb_segments b)) [rb_nread b..<rb_nread b'] ! k" using r(4) by simp
    then show ?thesis using that r(2) n by simp
  qed
  have D: "length got + k < length D \<and> bytes ! k = D ! (length got + k)" if "k < length bytes" for k
    using at [OF that] assms(1) by (simp add: rcv_inv_def)
  have len: "length got + length bytes \<le> length D"
    using D [of "length bytes - 1"] assms(1) by (cases "bytes = []") (auto simp: rcv_inv_def)
  have "bytes = take (length bytes) (drop (length got) D)" using D len by (intro nth_equalityI) auto
  then have "got @ bytes = take (length (got @ bytes)) D"
    using assms(1) len by (metis rcv_inv_def length_append take_add)
  moreover have "{i. i < length got \<or> content (rb_segments b) i \<noteq> None} =
      {i. i < length (got @ bytes) \<or> content (rb_segments b') i \<noteq> None}"
  proof -
    have "content (rb_segments b) i \<noteq> None" if "length got \<le> i" "i < length got + length bytes" for i
      using at [of "i - length got"] that by simp
    then have "i < length got \<or> content (rb_segments b) i \<noteq> None \<longleftrightarrow>
        i < length (got @ bytes) \<or> content (rb_segments b') i \<noteq> None" for i
      using r(5) [of i] r(2) n by (cases "i < length got"; cases "i < length got + length bytes") auto
    then show ?thesis by blast
  qed
  moreover have "i < length D \<and> x = D ! i" if "content (rb_segments b') i = Some x" for i x
    using that r(5) [of i] assms(1) by (auto simp: rcv_inv_def split: if_splits)
  ultimately show ?thesis using assms(1) r(1,2) n len by (simp add: rcv_inv_def)
qed

lemma rcv_reach_inv: "rcv_reach D b got seen \<Longrightarrow> rcv_inv D b got seen"
proof (induction rule: rcv_reach.induct)
  case start
  then show ?case using rb_default_inv by (simp add: rcv_inv_def rb_default_def)
qed (auto intro: rcv_inv_fragment rcv_inv_read)

lemma rcv_inv_available:
  assumes inv: "rcv_inv D b got seen" and "{..<n} \<subseteq> seen"
  shows "n \<le> length got + rb_available b"
proof (rule ccontr)
  assume "\<not> ?thesis"
  then have "length got + rb_available b \<in> seen" using assms(2) by auto
  moreover have ok: "segs_ok (length got) (rb_segments b)" using inv by (auto simp: rcv_inv_def rb_inv_def)
  moreover have "length got + rb_available b = continuous_end (length got) (rb_segments b)"
    using continuous_end_spec(1) [OF ok] inv by (simp add: available_eq rcv_inv_def)
  ultimately show False using continuous_end_spec(3) [OF ok] inv by (simp add: rcv_inv_def available_eq)
qed

lemma rcv_reach_available: "rcv_reach D b got seen \<Longrightarrow> {..<n} \<subseteq> seen \<Longrightarrow> n \<le> length got + rb_available b"
  using rcv_inv_available rcv_reach_inv by blast

text \<open>Reassembly is correct and complete. However the fragments of a stream arrive and whenever the application
reads: what it has read is a prefix of the stream; the next fragment is always accepted; and once all
offsets below \<open>n\<close> have arrived, at least the first \<open>n\<close> bytes have been read or are available.\<close>

theorem reassembly_correct:
  assumes "rcv_reach D b got seen"
  shows "got = take (length got) D \<and> rb_recv b offset data \<noteq> None \<and>
    ({..<n} \<subseteq> seen \<longrightarrow> n \<le> length got + rb_available b)"
proof -
  have inv: "rcv_inv D b got seen" by (rule rcv_reach_inv [OF assms])
  then have "rb_recv b offset data \<noteq> None" using recv_ok [of b offset data] by (auto simp: rcv_inv_def)
  then show ?thesis using inv rcv_reach_available [OF assms] by (auto simp: rcv_inv_def)
qed

theorem reassembly_correct_witness:
  "\<exists>b seen. rcv_reach [1, 2, 3] b [] seen \<and> {..<2} \<subseteq> seen \<and> 2 \<le> rb_available b \<and> rb_recv b 0 [1] \<noteq> None"
proof -
  obtain b fresh where r: "rb_recv rb_default 0 [1, 2] = Some (b, fresh)" using recv_ok [OF rb_default_inv] by blast
  have "rcv_reach [1, 2, 3] b [] ({} \<union> {0..<0 + length [1, 2 :: byte]})"
    by (rule fragment [OF start _ _ r]) simp_all
  then have s: "rcv_reach [1, 2, 3] b [] {0..<2}" by (simp add: numeral_2_eq_2)
  from reassembly_correct [OF s, of 0 "[1]" 2] s show ?thesis by (intro exI [of _ b] exI [of _ "{0..<2}"]) auto
qed

end
