(* ===== verification/Stream_Transfer.thy ===== *)
theory Stream_Transfer
  imports Send_Buf Rcv_Buf
begin

section \<open>One direction of a stream from end to end\<close>

text \<open>
  A \<open>SendBuf\<close> and a \<open>RecvBuf\<close> joined by a network that keeps every fragment ever sent and delivers any of them,
  any number of times, in any order. The sender is told of an acknowledgement only for bytes that have
  arrived; loss reports may be wrong.
\<close>

record transfer =
  tr_ghost :: send_ghost
  tr_snd :: send_buf
  tr_net :: "(nat \<times> byte list) set"
  tr_rcv :: recv_buf
  tr_got :: "byte list"
  tr_seen :: "nat set"

definition tr_init :: transfer where
  "tr_init = \<lparr>tr_ghost = \<lparr>g_written = [], g_sent = {}, g_acked = {}\<rparr>, tr_snd = sb_with_capacity, tr_net = {},
     tr_rcv = rb_default, tr_got = [], tr_seen = {}\<rparr>"

inductive tr_step :: "transfer \<Rightarrow> transfer \<Rightarrow> bool" where
  tr_write: "snd_step (tr_ghost t, tr_snd t) (OpWrite d) (g, sb) \<Longrightarrow> tr_step t (t\<lparr>tr_ghost := g, tr_snd := sb\<rparr>)"
| tr_send: "predicate_ok predicate \<Longrightarrow> pick_up k predicate fl (tr_snd t) = Ret (Inr (off, fresh, s1, s2), sb) \<Longrightarrow>
    tr_step t (t\<lparr>tr_ghost := (tr_ghost t)\<lparr>g_sent := g_sent (tr_ghost t) \<union> {off..<off + length (s1 @ s2)}\<rparr>, tr_snd := sb,
                 tr_net := insert (off, s1 @ s2) (tr_net t)\<rparr>)"
| tr_ack: "{s..<e} \<subseteq> tr_seen t \<Longrightarrow> snd_step (tr_ghost t, tr_snd t) (OpAck s e) (g, sb) \<Longrightarrow>
    tr_step t (t\<lparr>tr_ghost := g, tr_snd := sb\<rparr>)"
| tr_loss: "snd_step (tr_ghost t, tr_snd t) (OpLoss s e) (g, sb) \<Longrightarrow> tr_step t (t\<lparr>tr_ghost := g, tr_snd := sb\<rparr>)"
| tr_arrive: "(off, data) \<in> tr_net t \<Longrightarrow> rb_recv (tr_rcv t) off data = Some (b, n) \<Longrightarrow>
    tr_step t (t\<lparr>tr_rcv := b, tr_seen := tr_seen t \<union> {off..<off + length data}\<rparr>)"
| tr_read: "try_read (tr_rcv t) room = (b, bytes) \<Longrightarrow> tr_step t (t\<lparr>tr_rcv := b, tr_got := tr_got t @ bytes\<rparr>)"

inductive tr_reach :: "transfer \<Rightarrow> bool" where
  start: "tr_reach tr_init"
| step: "tr_reach t \<Longrightarrow> tr_step t t' \<Longrightarrow> tr_reach t'"

text \<open>A fragment stays a fragment when the stream grows.\<close>

definition slice_of :: "byte list \<Rightarrow> nat \<times> byte list \<Rightarrow> bool" where
  "slice_of D f \<longleftrightarrow> fst f + length (snd f) \<le> length D \<and> snd f = take (length (snd f)) (drop (fst f) D)"

lemma slice_of_append: "slice_of D f \<Longrightarrow> slice_of (D @ E) f"
  by (auto simp: slice_of_def)

lemma rcv_inv_append: "rcv_inv D b got seen \<Longrightarrow> rcv_inv (D @ E) b got seen"
  by (fastforce simp: rcv_inv_def nth_append)

definition tr_inv :: "transfer \<Rightarrow> bool" where
  "tr_inv t \<longleftrightarrow> snd_inv (tr_ghost t) (tr_snd t) \<and> (\<forall>f \<in> tr_net t. slice_of (g_written (tr_ghost t)) f) \<and>
     rcv_inv (g_written (tr_ghost t)) (tr_rcv t) (tr_got t) (tr_seen t) \<and> g_acked (tr_ghost t) \<subseteq> tr_seen t"

lemma snd_inv_pick_slice:
  assumes "snd_inv g sb" "predicate_ok predicate" "pick_up k predicate fl sb = Ret (Inr (off, fresh, s1, s2), sb')"
  shows "slice_of (g_written g) (off, s1 @ s2)"
proof -
  have inv: "sb_inv (g_written g) sb" using assms(1) by (simp add: snd_inv_def)
  have p: "picked_data (g_written g) predicate fl sb (Inr (off, fresh, s1, s2)) sb'"
    using pick_up_correct [OF inv assms(2), of k fl] assms(3) by auto
  then have "s1 @ s2 = take (length (s1 @ s2)) (drop off (g_written g))" unfolding picked_data_shape_def Let_def sum.case prod.case by (rule conjunct1)
  moreover have "off + length (s1 @ s2) \<le> length (g_written g)"
    using p inv by (auto simp: picked_data_shape_def Let_def picked_shape_def sb_shape_def written_def)
  ultimately show ?thesis unfolding slice_of_def fst_conv snd_conv by blast
qed

lemma snd_step_ghost:
  "snd_step (g, sb) (OpWrite d) (g', sb') \<Longrightarrow> g' = g\<lparr>g_written := g_written g @ d\<rparr>"
  "snd_step (g, sb) (OpAck s e) (g', sb') \<Longrightarrow> g' = g\<lparr>g_acked := g_acked g \<union> {s..<e}\<rparr>"
  "snd_step (g, sb) (OpLoss s e) (g', sb') \<Longrightarrow> g' = g"
  by (auto elim: snd_stepE)

lemma tr_inv_step: "tr_step t t' \<Longrightarrow> tr_inv t \<Longrightarrow> tr_inv t'"
proof (induction rule: tr_step.induct)
  case (tr_write t d g sb)
  then show ?case using snd_inv_step [OF _ tr_write(1)] snd_step_ghost(1) [OF tr_write(1)]
    by (auto simp: tr_inv_def slice_of_append rcv_inv_append)
next
  case (tr_send predicate k fl t off fresh s1 s2 sb)
  have inv: "snd_inv (tr_ghost t) (tr_snd t)" using tr_send(3) by (simp add: tr_inv_def)
  have "snd_step (tr_ghost t, tr_snd t) (OpPick k predicate fl)
      ((tr_ghost t)\<lparr>g_sent := g_sent (tr_ghost t) \<union> {off..<off + length (s1 @ s2)}\<rparr>, sb)"
    using tr_send(1,2) by (intro step_pick) auto
  from snd_inv_step [OF inv this] show ?case
    using tr_send(3) snd_inv_pick_slice [OF inv tr_send(1,2)] by (auto simp: tr_inv_def)
next
  case (tr_ack s e t g sb)
  then show ?case using snd_inv_step [OF _ tr_ack(2)] snd_step_ghost(2) [OF tr_ack(2)] by (auto simp: tr_inv_def)
next
  case (tr_loss t s e g sb)
  then show ?case using snd_inv_step [OF _ tr_loss(1)] snd_step_ghost(3) [OF tr_loss(1)] by (auto simp: tr_inv_def)
next
  case (tr_arrive off data t b n)
  then have "slice_of (g_written (tr_ghost t)) (off, data)" by (auto simp: tr_inv_def)
  then show ?case using tr_arrive rcv_inv_fragment [of _ _ _ _ off data b n] by (auto simp: tr_inv_def slice_of_def)
next
  case (tr_read t room b bytes)
  then show ?case using rcv_inv_read by (auto simp: tr_inv_def)
qed

lemma tr_reach_inv: "tr_reach t \<Longrightarrow> tr_inv t"
proof (induction rule: tr_reach.induct)
  case start
  show ?case using snd_reach_inv [OF reach_init] rb_default_inv by (simp add: tr_inv_def tr_init_def rcv_inv_def rb_default_def)
qed (rule tr_inv_step)

lemma tr_reach_complete:
  assumes "tr_reach t" "is_all_rcvd (tr_snd t)"
  shows "length (tr_got t) + rb_available (tr_rcv t) = length (g_written (tr_ghost t))"
proof -
  let ?w = "g_written (tr_ghost t)"
  have inv: "tr_inv t" by (rule tr_reach_inv [OF assms(1)])
  then have "snd_inv (tr_ghost t) (tr_snd t)" by (simp add: tr_inv_def)
  then have "{..<length ?w} \<subseteq> tr_seen t" using snd_inv_all_rcvd assms(2) inv by (fastforce simp: tr_inv_def)
  moreover have r: "rcv_inv ?w (tr_rcv t) (tr_got t) (tr_seen t)" using inv by (simp add: tr_inv_def)
  ultimately have "length ?w \<le> length (tr_got t) + rb_available (tr_rcv t)" using rcv_inv_available by blast
  moreover have "length (tr_got t) + rb_available (tr_rcv t) \<le> length ?w"
  proof (rule ccontr)
    assume a: "\<not> ?thesis"
    have ok: "segs_ok (length (tr_got t)) (rb_segments (tr_rcv t))" using r by (auto simp: rcv_inv_def rb_inv_def)
    have "length ?w < continuous_end (length (tr_got t)) (rb_segments (tr_rcv t))" "length (tr_got t) \<le> length ?w"
      using a r by (auto simp: available_eq rcv_inv_def)
    then have "content (rb_segments (tr_rcv t)) (length ?w) \<noteq> None" using continuous_end_spec(2) [OF ok] by blast
    then show False using r by (auto simp: rcv_inv_def)
  qed
  ultimately show ?thesis by linarith
qed

text \<open>A stream is transferred reliably and in order. Whatever the application writes and reads, however data is
cut into packets, lost, repeated, reordered, declared lost wrongly and sent again: the receiving application has
read a prefix of what was written; and when the sender finds all its data acknowledged (\<open>is_all_rcvd\<close>),
exactly the rest of what was written is waiting to be read.\<close>

theorem stream_transfer_reliable:
  assumes "tr_reach t"
  shows "tr_got t = take (length (tr_got t)) (g_written (tr_ghost t)) \<and>
    (is_all_rcvd (tr_snd t) \<longrightarrow>
       snd (try_read (tr_rcv t) (length (g_written (tr_ghost t)))) = drop (length (tr_got t)) (g_written (tr_ghost t)))"
proof (intro conjI impI)
  let ?w = "g_written (tr_ghost t)"
  have r: "rcv_inv ?w (tr_rcv t) (tr_got t) (tr_seen t)" using tr_reach_inv [OF assms] by (simp add: tr_inv_def)
  show "tr_got t = take (length (tr_got t)) ?w" using r by (simp add: rcv_inv_def)
  assume all: "is_all_rcvd (tr_snd t)"
  obtain b bytes where read: "try_read (tr_rcv t) (length ?w) = (b, bytes)" by fastforce
  have inv: "rb_inv (tr_rcv t)" using r by (simp add: rcv_inv_def)
  have len: "length bytes = length ?w - length (tr_got t)"
    using try_read_ok(3) [OF inv read] tr_reach_complete [OF assms all] by simp
  have "tr_got t @ bytes = take (length (tr_got t @ bytes)) ?w"
    using rcv_inv_read [OF r read] by (simp add: rcv_inv_def)
  moreover have "length (tr_got t) \<le> length ?w" using r by (simp add: rcv_inv_def)
  ultimately have "tr_got t @ bytes = ?w" using len by simp
  then have "bytes = drop (length (tr_got t)) ?w" by (metis append_eq_conv_conj)
  then show "snd (try_read (tr_rcv t) (length ?w)) = drop (length (tr_got t)) ?w" using read by simp
qed

theorem stream_transfer_reliable_witness:
  "\<exists>t. tr_reach t \<and> g_written (tr_ghost t) = [1, 2, 3] \<and> tr_got t = [1] \<and> is_all_rcvd (tr_snd t) \<and>
     snd (try_read (tr_rcv t) 3) = [2, 3]"
proof -
  let ?g = "\<lambda>S A. \<lparr>g_written = [1, 2, 3], g_sent = S, g_acked = A\<rparr>"
  let ?sb1 = "\<lparr>sb_offset = 0, sb_data = [1, 2, 3], sb_state = \<lparr>bm_states = [State 0 Pending], bm_end = 3\<rparr>\<rparr>"
  let ?sb2 = "\<lparr>sb_offset = 0, sb_data = [1, 2, 3], sb_state = \<lparr>bm_states = [State 0 Flighting], bm_end = 3\<rparr>\<rparr>"
  let ?b = "\<lparr>rb_nread = 0, rb_largest_offset = 3, rb_segments = [\<lparr>seg_offset = 0, seg_data = [1, 2, 3]\<rparr>]\<rparr>"
  let ?b' = "\<lparr>rb_nread = 1, rb_largest_offset = 3, rb_segments = [\<lparr>seg_offset = 1, seg_data = [2, 3]\<rparr>]\<rparr>"
  let ?t1 = "tr_init\<lparr>tr_ghost := ?g {} {}, tr_snd := ?sb1\<rparr>"
  let ?t2 = "?t1\<lparr>tr_ghost := ?g {0..<3} {}, tr_snd := ?sb2, tr_net := {(0, [1, 2, 3])}\<rparr>"
  let ?t3 = "?t2\<lparr>tr_rcv := ?b, tr_seen := {0..<3}\<rparr>"
  let ?t4 = "?t3\<lparr>tr_rcv := ?b', tr_got := [1]\<rparr>"
  have w: "sb_write [1, 2, 3] sb_with_capacity = Ret (3, ?sb1)"
    by (simp add: sb_write_def sb_with_capacity_def written_def extend_to_def add64_def)
  have "snd_step (tr_ghost tr_init, tr_snd tr_init) (OpWrite [1, 2, 3]) (?g {} {}, ?sb1)"
    using step_write [OF _ w, of "tr_ghost tr_init"] by (simp add: tr_init_def)
  then have 1: "tr_reach ?t1" using tr_reach.step [OF tr_reach.start tr_write] by (simp add: tr_init_def)
  have "pick_up 3 (\<lambda>_. Some 5) 9 (tr_snd ?t1) = Ret (Inr (0, True, [1, 2, 3], []), ?sb2)"
    by (simp add: pick_up_def pick_def pick_split_def get_def set_color_def insert_at_def add64_def sub64_def
        slice_range_def Let_def merge_after_def same_after_def drain_range_def wadd1_def wsub1_def)
  then have "tr_step ?t1 ?t2" using tr_send [of "\<lambda>_. Some 5" 3 9 ?t1 0 True "[1, 2, 3]" "[]" ?sb2]
    by (simp add: tr_init_def predicate_ok_def numeral_3_eq_3)
  then have 2: "tr_reach ?t2" by (rule tr_reach.step [OF 1])
  have "rb_recv (tr_rcv ?t2) 0 [1, 2, 3] = Some (?b, 3)" by (simp add: tr_init_def recv_eval)
  then have "tr_step ?t2 ?t3" using tr_arrive [of 0 "[1, 2, 3]" ?t2 ?b 3] by (simp add: tr_init_def numeral_3_eq_3)
  then have 3: "tr_reach ?t3" by (rule tr_reach.step [OF 2])
  have "try_read (tr_rcv ?t3) 1 = (?b', [1])" by (simp add: try_read_def read_loop.simps)
  then have "tr_step ?t3 ?t4" using tr_read [of ?t3 1 ?b' "[1]"] by (simp add: tr_init_def)
  then have 4: "tr_reach ?t4" by (rule tr_reach.step [OF 3])
  have "snd_inv (tr_ghost ?t4) (tr_snd ?t4)" using tr_reach_inv [OF 4] by (simp add: tr_inv_def)
  moreover have "op_ok (tr_ghost ?t4) (OpAck 0 3)" by simp
  ultimately obtain g sb where st: "snd_step (tr_ghost ?t4, tr_snd ?t4) (OpAck 0 3) (g, sb)" by (rule snd_enabled)
  let ?t5 = "?t4\<lparr>tr_ghost := g, tr_snd := sb\<rparr>"
  have g: "g = ?g {0..<3} {0..<3}" using snd_step_ghost(2) [OF st] by simp
  have 5: "tr_reach ?t5" by (rule tr_reach.step [OF 4 tr_ack [OF _ st]]) simp
  have "snd_inv g sb" using tr_reach_inv [OF 5] by (simp add: tr_inv_def)
  then have all: "is_all_rcvd (tr_snd ?t5)" using snd_inv_all_rcvd by (auto simp: g)
  from stream_transfer_reliable [OF 5] 5 all show ?thesis
    by (intro exI [of _ ?t5]) (simp add: g numeral_3_eq_3)
qed

end
