(* ===== verification/Send_Fin.thy ===== *)
theory Send_Fin
  imports Send_Buf
begin

section \<open>Empty ranges at the end of a stream\<close>

text \<open>
  The end of a stream can travel in a STREAM frame without data. Acknowledging or losing such a frame calls \<open>ack_rcvd\<close> and
  \<open>may_loss\<close> with the empty range at the end of the map (qrecovery/src/send/sndbuf.rs). This may leave
  a state of length 0 there, but no byte changes its colour.
\<close>

lemma all_le_end: "bm_shape sl m \<Longrightarrow> s \<in> set (bm_states m) \<Longrightarrow> st_offset s \<le> bm_end m"
  by (fastforce simp: bm_shape_def)

text \<open>Where the search for the end of the map ends.\<close>

lemma end_search:
  assumes inv: "bm_shape sl m"
  obtains (found) L q where "bm_states m = L @ [q]" "st_offset q = bm_end m" "binary_search (bm_end m) (bm_states m) = Inr (length L)"
  | (absent) "binary_search (bm_end m) (bm_states m) = Inl (length (bm_states m))" "\<forall>s \<in> set (bm_states m). st_offset s < bm_end m"
proof (cases "\<forall>s \<in> set (bm_states m). st_offset s < bm_end m")
  case True
  then have "takeWhile (\<lambda>s. st_offset s < bm_end m) (bm_states m) = bm_states m" by (simp add: takeWhile_eq_all_conv)
  then have "lower_bound (bm_end m) (bm_states m) = length (bm_states m)" by (metis lower_bound_def)
  then show ?thesis using True absent by (simp add: binary_search_def)
next
  case False
  then obtain q where q: "q \<in> set (bm_states m)" "st_offset q = bm_end m" using all_le_end [OF inv] by fastforce
  then obtain L R where xs: "bm_states m = L @ q # R" by (metis split_list)
  have wf: "bm_wf (L @ q # R)" using inv xs by (simp add: bm_shape_def)
  have "R = []" using wf q(2) all_le_end [OF inv] xs by (cases R) (fastforce simp: bm_wf_append bm_wf_Cons)+
  moreover have "lower_bound (bm_end m) (L @ q # R) = length L" using lower_bound_at [OF wf] q(2) by simp
  ultimately show ?thesis using found [of L q] xs q(2) by (simp add: binary_search_def)
qed

text \<open>A map whose last state is replaced by one of length 0, or gets one.\<close>

lemma fin_painted:
  assumes inv: "bm_shape sl m" and L: "bm_states m = L \<or> (\<exists>q. bm_states m = L @ [q] \<and> st_offset q = bm_end m)"
    and last: "\<forall>s \<in> set L. st_color s \<noteq> Pending" and X: "X \<noteq> Pending"
    and strict: "\<forall>s \<in> set L. st_offset s < bm_end m"
  shows "painted_shape 1 m (bm_end m) (bm_end m) X (m\<lparr>bm_states := L @ [State (bm_end m) X]\<rparr>)"
    and "painted_shape 1 m (bm_end m) (bm_end m) X
      (m\<lparr>bm_states := take (same_before (L @ [State (bm_end m) X]) (length L) X + 1) (L @ [State (bm_end m) X])\<rparr>)"
proof -
  let ?ys = "L @ [State (bm_end m) X]"
  have wfL: "bm_wf L" using inv L by (auto simp: bm_shape_def bm_wf_append)
  have wf: "bm_wf ?ys" using wfL last strict by (simp add: bm_wf_append bm_wf_Cons)
  have col: "color_at ?ys Recved p = bm_color m p" if "p < bm_end m" for p
  proof -
    have "color_at ?ys Recved p = color_at L Recved p" using color_at_append [OF wf] that by simp
    moreover have "bm_color m p = color_at L Recved p"
      using L color_at_append [of L] inv that by (auto simp: bm_color_def bm_shape_def)
    ultimately show ?thesis by simp
  qed
  have e62: "bm_end m < 2 ^ 62" using inv by (simp add: bm_shape_def)
  show "painted_shape 1 m (bm_end m) (bm_end m) X (m\<lparr>bm_states := ?ys\<rparr>)"
    using wf col strict e62 X by (auto simp: painted_shape_def bm_shape_def bm_color_def intro: less_imp_le)
  have len: "length L < length ?ys" "st_color (?ys ! length L) = X" by simp_all
  note cut = cut_same_before [OF wf len]
  show "painted_shape 1 m (bm_end m) (bm_end m) X (m\<lparr>bm_states := take (same_before ?ys (length L) X + 1) ?ys\<rparr>)"
    using cut(2) [of Recved] cut(3,4) col strict e62 X last by (fastforce simp: painted_shape_def bm_shape_def bm_color_def)
qed

lemma ack_rcvd_at_end:
  assumes inv: "bm_shape sl m" and q: "\<forall>s \<in> set (bm_states m). st_color s \<noteq> Pending"
  shows "\<exists>m'. ack_rcvd (bm_end m, bm_end m) m = Ret m' \<and> painted_shape 1 m (bm_end m) (bm_end m) Recved m'"
  using inv
proof (cases rule: end_search)
  case (found L q)
  have strict: "\<forall>s \<in> set L. st_offset s < bm_end m" using inv found(1,2) by (auto simp: bm_shape_def bm_wf_append)
  have "same_before (L @ [State (bm_end m) Recved]) (length L) Recved \<le> length L" by (rule same_before_run(1)) simp
  then have "ack_rcvd (bm_end m, bm_end m) m =
      Ret (m\<lparr>bm_states := take (same_before (L @ [State (bm_end m) Recved]) (length L) Recved + 1) (L @ [State (bm_end m) Recved])\<rparr>)"
    using found q by (simp add: ack_rcvd_def set_color_def ack_scan.simps get_def finish_edit_eq Let_def)
  then show ?thesis using fin_painted(2) [OF inv, of L Recved] found(1,2) q strict by auto
next
  case absent
  let ?xs = "bm_states m"
  show ?thesis
  proof (cases "?xs = [] \<or> st_color (last ?xs) = Recved")
    case True
    have "bm_shape 1 m" using inv by (fastforce simp: bm_shape_def)
    then have "painted_shape 1 m (bm_end m) (bm_end m) Recved m" by (simp add: painted_shape_def)
    moreover have "ack_rcvd (bm_end m, bm_end m) m = Ret m"
      using True absent by (cases "?xs = []") (simp_all add: ack_rcvd_def ack_scan.simps get_def finish_edit_def Let_def last_conv_nth)
    ultimately show ?thesis by blast
  next
    case False
    then have "ack_rcvd (bm_end m, bm_end m) m = Ret (m\<lparr>bm_states := ?xs @ [State (bm_end m) Recved]\<rparr>)"
      using absent q by (auto simp: ack_rcvd_def ack_scan.simps get_def finish_edit_eq last_conv_nth Let_def)
    then show ?thesis using fin_painted(1) [OF inv, of ?xs Recved] absent(2) q by auto
  qed
qed

lemma may_loss_at_end:
  assumes inv: "bm_shape sl m" and q: "\<forall>s \<in> set (bm_states m). st_color s \<noteq> Pending"
  shows "\<exists>m'. may_loss (bm_end m, bm_end m) m = Ret m' \<and> painted_shape 1 m (bm_end m) (bm_end m) Lost m'"
proof -
  have same: "painted_shape 1 m (bm_end m) (bm_end m) Lost m"
    using inv by (fastforce simp: bm_shape_def painted_shape_def)
  show ?thesis
    using inv
  proof (cases rule: end_search)
    case (found L q)
    have strict: "\<forall>s \<in> set L. st_offset s < bm_end m" using inv found(1,2) by (auto simp: bm_shape_def bm_wf_append)
    show ?thesis
    proof (cases "st_color q = Flighting")
      case True
      have "same_before (L @ [State (bm_end m) Lost]) (length L) Lost \<le> length L" by (rule same_before_run(1)) simp
      then have "may_loss (bm_end m, bm_end m) m =
          Ret (m\<lparr>bm_states := take (same_before (L @ [State (bm_end m) Lost]) (length L) Lost + 1) (L @ [State (bm_end m) Lost])\<rparr>)"
        using found q True by (simp add: may_loss_def set_color_def loss_scan.simps get_def finish_edit_eq Let_def)
      then show ?thesis using fin_painted(2) [OF inv, of L Lost] found(1,2) q strict by auto
    next
      case False
      then have "may_loss (bm_end m, bm_end m) m = Ret m"
        using found q by (simp add: may_loss_def loss_scan.simps get_def finish_edit_eq Let_def)
      then show ?thesis using same by blast
    qed
  next
    case absent
    let ?xs = "bm_states m"
    show ?thesis
    proof (cases "?xs = [] \<or> st_color (last ?xs) \<noteq> Flighting")
      case True
      have "may_loss (bm_end m, bm_end m) m = Ret m"
        using True absent q
        by (cases "?xs = []"; cases "st_color (last ?xs) = Recved")
          (simp_all add: may_loss_def loss_scan.simps get_def finish_edit_def Let_def last_conv_nth lost_from_def lost_loop.simps lost_finish_def)
      then show ?thesis using same by blast
    next
      case False
      then have "may_loss (bm_end m, bm_end m) m = Ret (m\<lparr>bm_states := ?xs @ [State (bm_end m) Lost]\<rparr>)"
        using absent q by (auto simp: may_loss_def loss_scan.simps get_def finish_edit_eq last_conv_nth Let_def)
      then show ?thesis using fin_painted(1) [OF inv, of ?xs Lost] absent(2) q by auto
    qed
  qed
qed

subsection \<open>On the send buffer\<close>

lemma sb_shape_mono: "sb_shape sl w sb \<Longrightarrow> sb_shape 1 w sb"
  by (fastforce simp: sb_shape_def bm_shape_def)

lemma sb_no_pending:
  assumes inv: "sb_shape sl w sb" and all: "\<forall>p < length w. sb_color sb p \<noteq> Pending"
  shows "\<forall>s \<in> set (bm_states (sb_state sb)). st_color s \<noteq> Pending"
proof
  fix s assume s: "s \<in> set (bm_states (sb_state sb))"
  have wf: "bm_wf (bm_states (sb_state sb))" and n: "bm_end (sb_state sb) = length w"
    and np: "bm_end (sb_state sb) \<le> st_offset s \<longrightarrow> st_color s \<noteq> Pending"
    using inv s by (auto simp: sb_shape_def bm_shape_def written_def)
  show "st_color s \<noteq> Pending"
    using color_at_mem [OF wf s] all n np by (cases "st_offset s < length w") (auto simp: bm_color_def)
qed

lemma on_data_acked_at_end:
  assumes inv: "sb_shape sl w sb" and all: "\<forall>p < length w. sb_color sb p \<noteq> Pending"
  shows "\<exists>sb'. on_data_acked (length w, length w) sb = Ret sb' \<and> sb_shape 1 w sb' \<and> (\<forall>p < length w. sb_color sb' p = sb_color sb p)"
proof -
  have m: "bm_shape sl (sb_state sb)" "bm_end (sb_state sb) = length w" using inv by (auto simp: sb_shape_def written_def)
  obtain st where st: "ack_rcvd (length w, length w) (sb_state sb) = Ret st" "painted_shape 1 (sb_state sb) (length w) (length w) Recved st"
    using ack_rcvd_at_end [OF m(1) sb_no_pending [OF inv all]] m(2) by auto
  show ?thesis using on_data_acked_painted [OF inv st] by auto
qed

lemma may_loss_data_at_end:
  assumes inv: "sb_shape sl w sb" and all: "\<forall>p < length w. sb_color sb p \<noteq> Pending"
  shows "\<exists>sb'. may_loss_data (length w, length w) sb = Ret sb' \<and> sb_shape 1 w sb' \<and> (\<forall>p < length w. sb_color sb' p = sb_color sb p)"
proof -
  have m: "bm_shape sl (sb_state sb)" "bm_end (sb_state sb) = length w" using inv by (auto simp: sb_shape_def written_def)
  obtain st where st: "may_loss (length w, length w) (sb_state sb) = Ret st" "painted_shape 1 (sb_state sb) (length w) (length w) Lost st"
    using may_loss_at_end [OF m(1) sb_no_pending [OF inv all]] m(2) by auto
  have "sb_shape 1 w (sb\<lparr>sb_state := st\<rparr>)" using inv st(2) by (auto simp: sb_shape_def painted_shape_def written_def)
  then show ?thesis using st m(2) by (auto simp: may_loss_data_def painted_shape_def)
qed

end
