(* ===== verification/Stream_Io.thy ===== *)
theory Stream_Io
  imports Send_Waker Frame_Io
begin

section \<open>What the two halves of a stream share\<close>

text \<open>
  The effects of a call on a stream: the control frames handed to the broker (\<open>SendFrame\<close>), the wakers that were woken, which are numbers,
  and the calls of \<open>wake_all_by\<close> on the wakers of the send tasks, in order. Errors of the application's side are the kinds of
  \<open>io::Error\<close> with what they carry.
\<close>

record stream_effects =
  se_frames :: "stream_ctl_frame list"
  se_woken :: "nat list"
  se_signals :: "signals list"

definition no_effects :: stream_effects where
  "no_effects = \<lparr>se_frames = [], se_woken = [], se_signals = []\<rparr>"

definition wake_waker :: "nat option \<Rightarrow> stream_effects \<Rightarrow> stream_effects" where
  "wake_waker w e = (case w of None \<Rightarrow> e | Some k \<Rightarrow> e\<lparr>se_woken := se_woken e @ [k]\<rparr>)"

definition send_ctl :: "stream_ctl_frame \<Rightarrow> stream_effects \<Rightarrow> stream_effects" where
  "send_ctl f e = e\<lparr>se_frames := se_frames e @ [f]\<rparr>"

definition wake_tx :: "signals \<Rightarrow> stream_effects \<Rightarrow> stream_effects" where
  "wake_tx s e = e\<lparr>se_signals := se_signals e @ [s]\<rparr>"

datatype io_error = IoConn conn_error | BrokenPipe reset_stream_error | Unsupported

text \<open>A frame as the parser passes it, with its data; and the frames of a peer that sends the stream \<open>D\<close>: fragments of it, and the end
  marker only where it ends.\<close>

definition within64 :: "stream_frame \<Rightarrow> byte list \<Rightarrow> bool" where
  "within64 f body \<longleftrightarrow> length body = sf_length f \<and> into_inner (sf_offset f) + length body < 2 ^ 62"

definition frames_of :: "byte list \<Rightarrow> stream_frame \<Rightarrow> byte list \<Rightarrow> bool" where
  "frames_of D f body \<longleftrightarrow> into_inner (sf_offset f) + length body \<le> length D \<and>
     body = take (length body) (drop (into_inner (sf_offset f)) D) \<and>
     (sf_is_fin f \<longrightarrow> into_inner (sf_offset f) + length body = length D)"

end
