(* ===== verification/Sender.thy ===== *)
theory Sender
  imports Send_Fin Stream_Io Frame_Safety
begin

section \<open>The sending state machine: qrecovery/src/send/sender.rs, outgoing.rs, writer.rs\<close>

text \<open>
  The sending half of a stream moves from \<open>Ready\<close> over \<open>Sending\<close> to \<open>DataSent\<close> and \<open>DataRcvd\<close>, or through
  \<open>ResetSent\<close> to \<open>ResetRcvd\<close>. The application writes to it (\<open>Writer\<close>), the protocol side takes frames from it and reports
  their fate (\<open>Outgoing\<close>); both share it behind a mutex, so every call is one step. \<open>SendingSender\<close> has the fields and, word for word,
  the methods of \<open>ReadySender\<close>, so one record serves both. A \<open>debug_assert!\<close> is a panic.
\<close>

unbundle bit_operations_syntax

subsection \<open>ReadySender\<close>

record ready_sender =
  rd_stream_id :: stream_id
  rd_sndbuf :: send_buf
  rd_flush_waker :: "nat option"
  rd_shutdown_waker :: "nat option"
  rd_writable_waker :: "nat option"
  rd_max_stream_data :: nat

definition rd_new :: "stream_id \<Rightarrow> nat \<Rightarrow> ready_sender" where
  "rd_new sid buf_size = \<lparr>rd_stream_id = sid, rd_sndbuf = sb_with_capacity, rd_flush_waker = None, rd_shutdown_waker = None,
     rd_writable_waker = None, rd_max_stream_data = buf_size\<rparr>"

definition rd_poll_write ::
    "nat \<Rightarrow> byte list \<Rightarrow> ready_sender \<Rightarrow> stream_effects \<Rightarrow> ((io_error + nat) poll \<times> ready_sender \<times> stream_effects) run" where
  "rd_poll_write waker buf s e =
     (if rd_shutdown_waker s \<noteq> None then Ret (Ready (Inl Unsupported), s, e)
      else let stream_data = written (rd_sndbuf s)
           in if stream_data < rd_max_stream_data s
              then let n = min (rd_max_stream_data s - stream_data) (length buf); e = wake_tx {WRITTEN} e
                   in bind_run (sb_write (take n buf) (rd_sndbuf s)) (\<lambda>(k, sb). Ret (Ready (Inr k), s\<lparr>rd_sndbuf := sb\<rparr>, e))
              else Ret (poll.Pending, s\<lparr>rd_writable_waker := Some waker\<rparr>, e))"

definition rd_update_window :: "nat \<Rightarrow> ready_sender \<Rightarrow> stream_effects \<Rightarrow> ready_sender \<times> stream_effects" where
  "rd_update_window max_stream_data s e =
     (if rd_max_stream_data s < max_stream_data
      then (s\<lparr>rd_max_stream_data := max_stream_data, rd_writable_waker := None\<rparr>, wake_waker (rd_writable_waker s) e)
      else (s, e))"

definition rd_poll_flush :: "nat \<Rightarrow> ready_sender \<Rightarrow> (io_error + unit) poll \<times> ready_sender" where
  "rd_poll_flush waker s =
     (if is_all_rcvd (rd_sndbuf s) then (Ready (Inr ()), s) else (poll.Pending, s\<lparr>rd_flush_waker := Some waker\<rparr>))"

definition rd_poll_shutdown :: "nat \<Rightarrow> ready_sender \<Rightarrow> stream_effects \<Rightarrow> (io_error + unit) poll \<times> ready_sender \<times> stream_effects" where
  "rd_poll_shutdown waker s e = (poll.Pending, s\<lparr>rd_shutdown_waker := Some waker\<rparr>, wake_tx {TRANSPORT} e)"

definition rd_wake_all :: "ready_sender \<Rightarrow> stream_effects \<Rightarrow> ready_sender \<times> stream_effects" where
  "rd_wake_all s e =
     (s\<lparr>rd_writable_waker := None, rd_flush_waker := None, rd_shutdown_waker := None\<rparr>,
      wake_waker (rd_shutdown_waker s) (wake_waker (rd_flush_waker s) (wake_waker (rd_writable_waker s) e)))"

text \<open>The end of a reset: the error code of the application and the final size, in a RESET\_STREAM frame for the peer.\<close>

definition reset_with :: "nat \<Rightarrow> nat \<Rightarrow> reset_stream_error run" where
  "reset_with err_code final_size =
     bind_run (unwrap_result (from_u64 err_code)) (\<lambda>code.
     bind_run (unwrap_result (from_u64 final_size)) (\<lambda>size. Ret (ResetStreamError code size)))"

definition rd_cancel :: "nat \<Rightarrow> ready_sender \<Rightarrow> stream_effects \<Rightarrow> (reset_stream_error \<times> stream_effects) run" where
  "rd_cancel err_code s e =
     bind_run (reset_with err_code (sb_sent (rd_sndbuf s))) (\<lambda>err.
       Ret (err, send_ctl (CtlResetStream (reset_stream_error_combine err (rd_stream_id s))) e))"

subsection \<open>SendingSender\<close>

type_synonym sending_sender = ready_sender

definition rd_upgrade :: "ready_sender \<Rightarrow> sending_sender" where
  "rd_upgrade s =
     \<lparr>rd_stream_id = rd_stream_id s, rd_sndbuf = rd_sndbuf s, rd_flush_waker = rd_flush_waker s,
      rd_shutdown_waker = rd_shutdown_waker s, rd_writable_waker = rd_writable_waker s, rd_max_stream_data = rd_max_stream_data s\<rparr>"

definition sd_poll_write ::
    "nat \<Rightarrow> byte list \<Rightarrow> sending_sender \<Rightarrow> stream_effects \<Rightarrow> ((io_error + nat) poll \<times> sending_sender \<times> stream_effects) run" where
  "sd_poll_write = rd_poll_write"

definition sd_update_window :: "nat \<Rightarrow> sending_sender \<Rightarrow> stream_effects \<Rightarrow> sending_sender \<times> stream_effects" where
  "sd_update_window = rd_update_window"

definition sd_poll_flush :: "nat \<Rightarrow> sending_sender \<Rightarrow> (io_error + unit) poll \<times> sending_sender" where
  "sd_poll_flush = rd_poll_flush"

definition sd_poll_shutdown :: "nat \<Rightarrow> sending_sender \<Rightarrow> stream_effects \<Rightarrow> (io_error + unit) poll \<times> sending_sender \<times> stream_effects" where
  "sd_poll_shutdown = rd_poll_shutdown"

definition sd_wake_all :: "sending_sender \<Rightarrow> stream_effects \<Rightarrow> sending_sender \<times> stream_effects" where
  "sd_wake_all = rd_wake_all"

definition sd_cancel :: "nat \<Rightarrow> sending_sender \<Rightarrow> stream_effects \<Rightarrow> (reset_stream_error \<times> stream_effects) run" where
  "sd_cancel = rd_cancel"

lemmas sending_same = sd_poll_write_def sd_update_window_def sd_poll_flush_def sd_poll_shutdown_def sd_wake_all_def sd_cancel_def

definition fin_pos :: "sending_sender \<Rightarrow> nat option" where
  "fin_pos s = (if rd_shutdown_waker s \<noteq> None then Some (written (rd_sndbuf s)) else None)"

text \<open>An offset, whether the data are fresh, the two parts of the data, and whether the stream ends with them.\<close>

type_synonym stream_data = "nat \<times> bool \<times> byte list \<times> byte list \<times> bool"

definition sd_pick_up ::
    "nat \<Rightarrow> (nat \<Rightarrow> nat option) \<Rightarrow> nat \<Rightarrow> sending_sender \<Rightarrow> ((signals + stream_data) \<times> sending_sender) run" where
  "sd_pick_up k predicate flow_limit s =
     (let fin = fin_pos s; sent0 = sb_sent (rd_sndbuf s)
      in bind_run (pick_up k predicate flow_limit (rd_sndbuf s)) (\<lambda>(r, sb).
           let s = s\<lparr>rd_sndbuf := sb\<rparr>
           in case r of
                Inr (offset, is_fresh, s1, s2) \<Rightarrow>
                  bind_run (add64 offset (length s1 + length s2)) (\<lambda>e. Ret (Inr (offset, is_fresh, s1, s2, fin = Some e), s))
              | Inl sigs \<Rightarrow>
                  if fin = Some sent0
                  then case predicate sent0 of
                         None \<Rightarrow> Ret (Inl (sigs \<union> {CONGESTION}), s)
                       | Some _ \<Rightarrow> Ret (Inr (sent0, False, [], [], True), s)
                  else Ret (Inl sigs, s)))"

definition sd_on_data_acked :: "stream_frame \<Rightarrow> sending_sender \<Rightarrow> stream_effects \<Rightarrow> (sending_sender \<times> stream_effects) run" where
  "sd_on_data_acked f s e =
     bind_run (sf_range f) (\<lambda>rng.
     bind_run (on_data_acked rng (rd_sndbuf s)) (\<lambda>sb.
       let s = s\<lparr>rd_sndbuf := sb\<rparr>
       in if is_all_rcvd sb then Ret (s\<lparr>rd_flush_waker := None\<rparr>, wake_waker (rd_flush_waker s) e) else Ret (s, e)))"

definition sd_may_loss_data :: "stream_frame \<Rightarrow> sending_sender \<Rightarrow> stream_effects \<Rightarrow> (sending_sender \<times> stream_effects) run" where
  "sd_may_loss_data f s e =
     (let e = wake_tx {TRANSPORT} e
      in bind_run (sf_range f) (\<lambda>rng. bind_run (may_loss_data rng (rd_sndbuf s)) (\<lambda>sb. Ret (s\<lparr>rd_sndbuf := sb\<rparr>, e))))"

definition sd_be_stopped :: "sending_sender \<Rightarrow> stream_effects \<Rightarrow> nat \<times> sending_sender \<times> stream_effects" where
  "sd_be_stopped s e = (let (s, e) = sd_wake_all s e in (sb_sent (rd_sndbuf s), s, e))"

subsection \<open>DataSentSender\<close>

datatype fin_state = FinSent | FinLost | FinRcvd

record data_sent_sender =
  ds_stream_id :: stream_id
  ds_sndbuf :: send_buf
  ds_flush_waker :: "nat option"
  ds_shutdown_waker :: "nat option"
  ds_fin_state :: fin_state

definition sd_upgrade :: "sending_sender \<Rightarrow> data_sent_sender" where
  "sd_upgrade s = \<lparr>ds_stream_id = rd_stream_id s, ds_sndbuf = rd_sndbuf s, ds_flush_waker = rd_flush_waker s,
     ds_shutdown_waker = rd_shutdown_waker s, ds_fin_state = FinSent\<rparr>"

definition ds_pick_up ::
    "nat \<Rightarrow> (nat \<Rightarrow> nat option) \<Rightarrow> nat \<Rightarrow> data_sent_sender \<Rightarrow> ((signals + stream_data) \<times> data_sent_sender) run" where
  "ds_pick_up k predicate flow_limit s =
     (let total_size = written (ds_sndbuf s)
      in bind_run (pick_up k predicate flow_limit (ds_sndbuf s)) (\<lambda>(r, sb).
           let s = s\<lparr>ds_sndbuf := sb\<rparr>
           in case r of
                Inr (offset, is_fresh, s1, s2) \<Rightarrow>
                  bind_run (add64 offset (length s1 + length s2)) (\<lambda>e. Ret (Inr (offset, is_fresh, s1, s2, e = total_size), s))
              | Inl sigs \<Rightarrow>
                  if ds_fin_state s = FinLost then Ret (Inr (total_size, False, [], [], True), s\<lparr>ds_fin_state := FinSent\<rparr>)
                  else Ret (Inl sigs, s)))"

definition ds_is_all_rcvd :: "data_sent_sender \<Rightarrow> bool" where
  "ds_is_all_rcvd s \<longleftrightarrow> is_all_rcvd (ds_sndbuf s) \<and> ds_fin_state s = FinRcvd"

definition ds_on_data_acked :: "stream_frame \<Rightarrow> data_sent_sender \<Rightarrow> stream_effects \<Rightarrow> (data_sent_sender \<times> stream_effects) run" where
  "ds_on_data_acked f s e =
     bind_run (sf_range f) (\<lambda>rng.
     bind_run (on_data_acked rng (ds_sndbuf s)) (\<lambda>sb.
       let s = s\<lparr>ds_sndbuf := sb\<rparr>;
           s = (if sf_is_fin f then s\<lparr>ds_fin_state := FinRcvd\<rparr> else s)
       in if ds_is_all_rcvd s
          then Ret (s\<lparr>ds_flush_waker := None, ds_shutdown_waker := None\<rparr>,
                    wake_waker (ds_shutdown_waker s) (wake_waker (ds_flush_waker s) e))
          else Ret (s, e)))"

definition ds_may_loss_data :: "stream_frame \<Rightarrow> data_sent_sender \<Rightarrow> stream_effects \<Rightarrow> (data_sent_sender \<times> stream_effects) run" where
  "ds_may_loss_data f s e =
     (let e = wake_tx {TRANSPORT} e;
          s = (if sf_is_fin f \<and> ds_fin_state s \<noteq> FinRcvd then s\<lparr>ds_fin_state := FinLost\<rparr> else s)
      in bind_run (sf_range f) (\<lambda>rng. bind_run (may_loss_data rng (ds_sndbuf s)) (\<lambda>sb. Ret (s\<lparr>ds_sndbuf := sb\<rparr>, e))))"

definition ds_poll_flush :: "nat \<Rightarrow> data_sent_sender \<Rightarrow> ((io_error + unit) poll \<times> data_sent_sender) run" where
  "ds_poll_flush waker s = assert_run (\<not> ds_is_all_rcvd s) (Ret (poll.Pending, s\<lparr>ds_flush_waker := Some waker\<rparr>))"

definition ds_poll_shutdown ::
    "nat \<Rightarrow> data_sent_sender \<Rightarrow> stream_effects \<Rightarrow> ((io_error + unit) poll \<times> data_sent_sender \<times> stream_effects) run" where
  "ds_poll_shutdown waker s e =
     assert_run (\<not> ds_is_all_rcvd s) (Ret (poll.Pending, s\<lparr>ds_shutdown_waker := Some waker\<rparr>, wake_tx {TRANSPORT} e))"

definition ds_wake_all :: "data_sent_sender \<Rightarrow> stream_effects \<Rightarrow> data_sent_sender \<times> stream_effects" where
  "ds_wake_all s e =
     (s\<lparr>ds_flush_waker := None, ds_shutdown_waker := None\<rparr>, wake_waker (ds_shutdown_waker s) (wake_waker (ds_flush_waker s) e))"

definition ds_be_stopped :: "data_sent_sender \<Rightarrow> stream_effects \<Rightarrow> nat \<times> data_sent_sender \<times> stream_effects" where
  "ds_be_stopped s e = (let (s, e) = ds_wake_all s e in (written (ds_sndbuf s), s, e))"

definition ds_cancel :: "nat \<Rightarrow> data_sent_sender \<Rightarrow> stream_effects \<Rightarrow> (reset_stream_error \<times> stream_effects) run" where
  "ds_cancel err_code s e =
     bind_run (reset_with err_code (sb_sent (ds_sndbuf s))) (\<lambda>err.
       Ret (err, send_ctl (CtlResetStream (reset_stream_error_combine err (ds_stream_id s))) e))"

subsection \<open>Sender and ArcSender\<close>

datatype sender =
    SReady ready_sender
  | SSending sending_sender
  | SDataSent data_sent_sender
  | SDataRcvd
  | SResetSent reset_stream_error
  | SResetRcvd reset_stream_error

type_synonym arc_sender = "conn_error + sender"

definition arc_sender_new :: "stream_id \<Rightarrow> nat \<Rightarrow> arc_sender" where
  "arc_sender_new sid buf_size = Inr (SReady (rd_new sid buf_size))"

fun revise_buffer_size :: "nat \<Rightarrow> arc_sender \<Rightarrow> stream_effects \<Rightarrow> arc_sender \<times> stream_effects" where
  "revise_buffer_size n (Inr (SReady s)) e = (let (s, e) = rd_update_window n s e in (Inr (SReady s), e))"
| "revise_buffer_size n (Inr (SSending s)) e = (let (s, e) = sd_update_window n s e in (Inr (SSending s), e))"
| "revise_buffer_size n a e = (a, e)"

subsection \<open>Outgoing: the side of the protocol\<close>

text \<open>
  What a load writes to the packet: padding, then the frame with its data. The packet itself, of a type the caller chooses, is its free space
  \<open>origin_len\<close>. \<open>estimate_max_capacity\<close> panics beyond \<open>VARINT_MAX\<close> only, where the send buffer has no bytes.
\<close>

type_synonym loaded = "nat \<times> stream_frame \<times> byte list \<times> byte list"

definition load_write :: "nat \<Rightarrow> stream_id \<Rightarrow> stream_data \<Rightarrow> ((nat \<times> bool) \<times> loaded) run" where
  "load_write origin_len sid d =
     (case d of (offset, is_fresh, s1, s2, is_eos) \<Rightarrow>
        let len = length s1 + length s2
        in bind_run (stream_frame_new sid offset len) (\<lambda>frame.
             let frame = set_eos_flag is_eos frame
             in bind_run (sf_encoding_strategy frame origin_len) (\<lambda>strategy.
                  Ret ((len, is_fresh), (strategy_padding strategy, set_len_flag (carry_length strategy) frame, s1, s2)))))"

definition load_predicate :: "nat \<Rightarrow> stream_id \<Rightarrow> nat \<Rightarrow> nat \<Rightarrow> nat option" where
  "load_predicate origin_len sid tokens offset =
     (case sf_estimate_max_capacity origin_len sid offset of
        Ret (Some capacity) \<Rightarrow> Some (min tokens capacity) | _ \<Rightarrow> None)"

definition sending_load ::
    "nat \<Rightarrow> nat \<Rightarrow> stream_id \<Rightarrow> nat \<Rightarrow> nat \<Rightarrow> sending_sender \<Rightarrow>
     ((signals + (nat \<times> bool)) \<times> loaded option \<times> sender) run" where
  "sending_load k origin_len sid flow_limit tokens s =
     bind_run (sd_pick_up k (load_predicate origin_len sid tokens) flow_limit s) (\<lambda>(r, s).
       case r of
         Inl sigs \<Rightarrow> Ret (Inl sigs, None, SSending s)
       | Inr payload \<Rightarrow> bind_run (load_write origin_len sid payload) (\<lambda>(res, out).
           let (offset, is_fresh, s1, s2, with_eos) = payload
           in Ret (Inr res, Some out, if with_eos then SDataSent (sd_upgrade s) else SSending s)))"

fun try_load_data_into ::
    "nat \<Rightarrow> nat \<Rightarrow> stream_id \<Rightarrow> nat \<Rightarrow> nat \<Rightarrow> arc_sender \<Rightarrow>
     ((signals + (nat \<times> bool)) \<times> loaded option \<times> arc_sender) run" where
  "try_load_data_into k origin_len sid flow_limit tokens (Inl err) = Ret (Inl {}, None, Inl err)"
| "try_load_data_into k origin_len sid flow_limit tokens (Inr (SReady s)) =
     bind_run (sending_load k origin_len sid flow_limit tokens (rd_upgrade s)) (\<lambda>(r, out, s). Ret (r, out, Inr s))"
| "try_load_data_into k origin_len sid flow_limit tokens (Inr (SSending s)) =
     bind_run (sending_load k origin_len sid flow_limit tokens s) (\<lambda>(r, out, s). Ret (r, out, Inr s))"
| "try_load_data_into k origin_len sid flow_limit tokens (Inr (SDataSent s)) =
     bind_run (ds_pick_up k (load_predicate origin_len sid tokens) flow_limit s) (\<lambda>(r, s).
       case r of
         Inl sigs \<Rightarrow> Ret (Inl sigs, None, Inr (SDataSent s))
       | Inr payload \<Rightarrow> bind_run (load_write origin_len sid payload) (\<lambda>(res, out). Ret (Inr res, Some out, Inr (SDataSent s))))"
| "try_load_data_into k origin_len sid flow_limit tokens a = Ret (Inl {TRANSPORT}, None, a)"

definition outgoing_update_window :: "nat \<Rightarrow> arc_sender \<Rightarrow> stream_effects \<Rightarrow> (arc_sender \<times> stream_effects) run" where
  "outgoing_update_window max_stream_data a e =
     assert_run (max_stream_data \<le> VARINT_MAX)
       (Ret (case a of
          Inr (SReady s) \<Rightarrow> let (s, e) = rd_update_window max_stream_data s e in (Inr (SReady s), e)
        | Inr (SSending s) \<Rightarrow> let (s, e) = sd_update_window max_stream_data s e in (Inr (SSending s), e)
        | _ \<Rightarrow> (a, e)))"

fun outgoing_on_data_acked :: "stream_frame \<Rightarrow> arc_sender \<Rightarrow> stream_effects \<Rightarrow> (bool \<times> arc_sender \<times> stream_effects) run" where
  "outgoing_on_data_acked f (Inr (SReady _)) e = Panic"
| "outgoing_on_data_acked f (Inr (SSending s)) e =
     bind_run (sd_on_data_acked f s e) (\<lambda>(s, e). Ret (False, Inr (SSending s), e))"
| "outgoing_on_data_acked f (Inr (SDataSent s)) e =
     bind_run (ds_on_data_acked f s e) (\<lambda>(s, e).
       if ds_is_all_rcvd s then Ret (True, Inr SDataRcvd, e) else Ret (False, Inr (SDataSent s), e))"
| "outgoing_on_data_acked f a e = Ret (False, a, e)"

fun outgoing_may_loss_data :: "stream_frame \<Rightarrow> arc_sender \<Rightarrow> stream_effects \<Rightarrow> (arc_sender \<times> stream_effects) run" where
  "outgoing_may_loss_data f (Inr (SReady _)) e = Panic"
| "outgoing_may_loss_data f (Inr (SSending s)) e = bind_run (sd_may_loss_data f s e) (\<lambda>(s, e). Ret (Inr (SSending s), e))"
| "outgoing_may_loss_data f (Inr (SDataSent s)) e = bind_run (ds_may_loss_data f s e) (\<lambda>(s, e). Ret (Inr (SDataSent s), e))"
| "outgoing_may_loss_data f a e = Ret (a, e)"

fun be_stopped :: "nat \<Rightarrow> arc_sender \<Rightarrow> stream_effects \<Rightarrow> (nat option \<times> arc_sender \<times> stream_effects) run" where
  "be_stopped error_code (Inr (SReady _)) e = Panic"
| "be_stopped error_code (Inr (SSending s)) e =
     (let (final_size, s, e) = sd_be_stopped s e
      in bind_run (reset_with error_code final_size) (\<lambda>reset. Ret (Some final_size, Inr (SResetSent reset), e)))"
| "be_stopped error_code (Inr (SDataSent s)) e =
     (let (final_size, s, e) = ds_be_stopped s e
      in bind_run (reset_with error_code final_size) (\<lambda>reset. Ret (Some final_size, Inr (SResetSent reset), e)))"
| "be_stopped error_code a e = Ret (None, a, e)"

fun on_reset_acked :: "arc_sender \<Rightarrow> arc_sender run" where
  "on_reset_acked (Inl err) = Ret (Inl err)"
| "on_reset_acked (Inr (SResetSent r)) = Ret (Inr (SResetRcvd r))"
| "on_reset_acked (Inr (SResetRcvd r)) = Ret (Inr (SResetRcvd r))"
| "on_reset_acked _ = Panic"

fun outgoing_on_conn_error :: "conn_error \<Rightarrow> arc_sender \<Rightarrow> stream_effects \<Rightarrow> arc_sender \<times> stream_effects" where
  "outgoing_on_conn_error err (Inr (SReady s)) e = (Inl err, snd (rd_wake_all s e))"
| "outgoing_on_conn_error err (Inr (SSending s)) e = (Inl err, snd (sd_wake_all s e))"
| "outgoing_on_conn_error err (Inr (SDataSent s)) e = (Inl err, snd (ds_wake_all s e))"
| "outgoing_on_conn_error err a e = (a, e)"

subsection \<open>Writer: the side of the application\<close>

fun writer_cancel :: "nat \<Rightarrow> arc_sender \<Rightarrow> stream_effects \<Rightarrow> (arc_sender \<times> stream_effects) run" where
  "writer_cancel err_code (Inr (SReady s)) e = bind_run (rd_cancel err_code s e) (\<lambda>(r, e). Ret (Inr (SResetSent r), e))"
| "writer_cancel err_code (Inr (SSending s)) e = bind_run (sd_cancel err_code s e) (\<lambda>(r, e). Ret (Inr (SResetSent r), e))"
| "writer_cancel err_code (Inr (SDataSent s)) e = bind_run (ds_cancel err_code s e) (\<lambda>(r, e). Ret (Inr (SResetSent r), e))"
| "writer_cancel err_code a e = Ret (a, e)"

fun writer_poll_write ::
    "nat \<Rightarrow> byte list \<Rightarrow> arc_sender \<Rightarrow> stream_effects \<Rightarrow> ((io_error + nat) poll \<times> arc_sender \<times> stream_effects) run" where
  "writer_poll_write waker buf (Inl err) e = Ret (Ready (Inl (IoConn err)), Inl err, e)"
| "writer_poll_write waker buf (Inr (SReady s)) e =
     bind_run (rd_poll_write waker buf s e) (\<lambda>(p, s, e). Ret (p, Inr (SReady s), e))"
| "writer_poll_write waker buf (Inr (SSending s)) e =
     bind_run (sd_poll_write waker buf s e) (\<lambda>(p, s, e). Ret (p, Inr (SSending s), e))"
| "writer_poll_write waker buf (Inr (SDataSent s)) e = Ret (Ready (Inl Unsupported), Inr (SDataSent s), e)"
| "writer_poll_write waker buf (Inr SDataRcvd) e = Ret (Ready (Inl Unsupported), Inr SDataRcvd, e)"
| "writer_poll_write waker buf (Inr (SResetSent r)) e = Ret (Ready (Inl (BrokenPipe r)), Inr (SResetSent r), e)"
| "writer_poll_write waker buf (Inr (SResetRcvd r)) e = Ret (Ready (Inl (BrokenPipe r)), Inr (SResetRcvd r), e)"

fun writer_poll_flush :: "nat \<Rightarrow> arc_sender \<Rightarrow> ((io_error + unit) poll \<times> arc_sender) run" where
  "writer_poll_flush waker (Inl err) = Ret (Ready (Inl (IoConn err)), Inl err)"
| "writer_poll_flush waker (Inr (SReady s)) = (let (p, s) = rd_poll_flush waker s in Ret (p, Inr (SReady s)))"
| "writer_poll_flush waker (Inr (SSending s)) = (let (p, s) = sd_poll_flush waker s in Ret (p, Inr (SSending s)))"
| "writer_poll_flush waker (Inr (SDataSent s)) = bind_run (ds_poll_flush waker s) (\<lambda>(p, s). Ret (p, Inr (SDataSent s)))"
| "writer_poll_flush waker (Inr SDataRcvd) = Ret (Ready (Inr ()), Inr SDataRcvd)"
| "writer_poll_flush waker (Inr (SResetSent r)) = Ret (Ready (Inl (BrokenPipe r)), Inr (SResetSent r))"
| "writer_poll_flush waker (Inr (SResetRcvd r)) = Ret (Ready (Inl (BrokenPipe r)), Inr (SResetRcvd r))"

fun writer_poll_shutdown :: "nat \<Rightarrow> arc_sender \<Rightarrow> stream_effects \<Rightarrow> ((io_error + unit) poll \<times> arc_sender \<times> stream_effects) run" where
  "writer_poll_shutdown waker (Inl err) e = Ret (Ready (Inl (IoConn err)), Inl err, e)"
| "writer_poll_shutdown waker (Inr (SReady s)) e = (let (p, s, e) = rd_poll_shutdown waker s e in Ret (p, Inr (SReady s), e))"
| "writer_poll_shutdown waker (Inr (SSending s)) e = (let (p, s, e) = sd_poll_shutdown waker s e in Ret (p, Inr (SSending s), e))"
| "writer_poll_shutdown waker (Inr (SDataSent s)) e = bind_run (ds_poll_shutdown waker s e) (\<lambda>(p, s, e). Ret (p, Inr (SDataSent s), e))"
| "writer_poll_shutdown waker (Inr SDataRcvd) e = Ret (Ready (Inr ()), Inr SDataRcvd, e)"
| "writer_poll_shutdown waker (Inr (SResetSent r)) e = Ret (Ready (Inl (BrokenPipe r)), Inr (SResetSent r), e)"
| "writer_poll_shutdown waker (Inr (SResetRcvd r)) e = Ret (Ready (Inl (BrokenPipe r)), Inr (SResetRcvd r), e)"

end
