(* ===== verification/Sender_Safety.thy ===== *)
theory Sender_Safety
  imports Sender
begin

section \<open>The sending half of a stream is sound\<close>

unbundle bit_operations_syntax

subsection \<open>Loading a frame into a packet\<close>

text \<open>The bytes before the data of a STREAM frame without length.\<close>

definition stream_least :: "stream_id \<Rightarrow> nat \<Rightarrow> nat" where
  "stream_least sid offset = 1 + varint_len (sid_value sid) + (if offset \<noteq> 0 then varint_len offset else 0)"

lemma stream_least_le: "sid_ok sid \<Longrightarrow> offset < 2 ^ 62 \<Longrightarrow> stream_least sid offset \<le> 17"
  by (simp add: stream_least_def varint_len_def)

lemma load_predicate_eq:
  assumes "sid_ok sid" "offset < 2 ^ 62"
  shows "load_predicate origin_len sid tokens offset =
    (if origin_len \<le> stream_least sid offset then None else Some (min tokens (origin_len - stream_least sid offset)))"
  using assms
  by (simp add: load_predicate_def sf_estimate_max_capacity_def VARINT_MAX_def sid_encoding_size_def varint_of_sid_def from_u64_def
      sid_ok_def encoding_size_len stream_least_def Let_def)

lemma load_predicate_ok:
  assumes "0 < tokens" "origin_len < 2 ^ 62"
  shows "predicate_ok (load_predicate origin_len sid tokens)"
  using assms by (auto simp: predicate_ok_def load_predicate_def sf_estimate_max_capacity_def run_simps Let_def split: run.splits option.splits if_splits)

lemma flag_bits:
  "set_eos_flag b f = f\<lparr>sf_flag := sf_flag (set_eos_flag b f)\<rparr>" "set_len_flag b f = f\<lparr>sf_flag := sf_flag (set_len_flag b f)\<rparr>"
  by (simp_all add: set_eos_flag_def set_len_flag_def)

lemma flag_fin:
  "sf_is_fin (set_len_flag l (set_eos_flag b f)) \<longleftrightarrow> b"
proof -
  have "(x AND NOT LEN_BIT) AND FIN_BIT = x AND FIN_BIT" "(x OR LEN_BIT) AND FIN_BIT = x AND FIN_BIT"
    "(x OR FIN_BIT) AND FIN_BIT = FIN_BIT" "(x AND NOT FIN_BIT) AND FIN_BIT = 0" for x :: "8 word"
    by (simp_all add: LEN_BIT_def FIN_BIT_def bit_eq_iff bit_simps) (auto simp: bit_simps)
  then show ?thesis by (simp add: sf_is_fin_def set_len_flag_def set_eos_flag_def FIN_BIT_def)
qed

lemma load_write_ok:
  assumes sid: "sid_ok sid" and fit: "stream_least sid offset + (length s1 + length s2) \<le> origin_len"
    and bound: "offset + (length s1 + length s2) < 2 ^ 62"
  obtains pad f where "load_write origin_len sid (offset, fresh, s1, s2, eos) = Ret ((length s1 + length s2, fresh), (pad, f, s1, s2))"
    "sf_id f = sid" "sf_offset f = VarInt offset" "sf_length f = length s1 + length s2" "sf_is_fin f \<longleftrightarrow> eos"
    "pad + stream_total f (sf_flag f AND LEN_BIT \<noteq> 0) \<le> origin_len"
proof -
  let ?len = "length s1 + length s2"
  define fn where "fn = \<lparr>sf_id = sid, sf_offset = VarInt offset, sf_length = ?len, sf_flag = (if offset \<noteq> 0 then OFF_BIT else 0)\<rparr>"
  define f0 where "f0 = set_eos_flag eos fn"
  have new: "stream_frame_new sid offset ?len = Ret fn"
    using bound by (simp add: stream_frame_new_def VARINT_MAX_def from_u64_def fn_def)
  have f0: "sf_id f0 = sid" "sf_offset f0 = VarInt offset" "sf_length f0 = ?len" "sf_flag f0 AND LEN_BIT = 0"
    by (auto simp: f0_def fn_def set_eos_flag_def OFF_BIT_def LEN_BIT_def FIN_BIT_def)
  have tot: "stream_total f0 False = stream_least sid offset + ?len" by (simp add: stream_total_def stream_least_def f0)
  obtain wl pad where st: "sf_encoding_strategy f0 origin_len = Ret (EncodingStrategy wl pad)" "pad + stream_total f0 wl \<le> origin_len"
    using encoding_strategy_fits [of f0 origin_len] sid bound fit f0 tot
    by (auto simp: varint_ok_def Let_def split: run.splits encoding_strategy.splits)
  let ?f = "set_len_flag wl f0"
  have "(x OR a) AND a = a" "(x AND NOT a) AND a = 0" for x a :: "8 word" by (rule bit_eqI; auto simp: bit_simps)+
  then have "sf_flag ?f AND LEN_BIT \<noteq> 0 \<longleftrightarrow> wl"
    by (simp add: set_len_flag_def) (simp add: LEN_BIT_def)
  moreover have "stream_total ?f wl = stream_total f0 wl" by (simp add: stream_total_def set_len_flag_def)
  moreover have "load_write origin_len sid (offset, fresh, s1, s2, eos) = Ret ((?len, fresh), (pad, ?f, s1, s2))"
    using new st(1) by (simp add: load_write_def f0_def [symmetric] Let_def)
  moreover have "sf_is_fin ?f \<longleftrightarrow> eos" by (simp add: f0_def flag_fin)
  ultimately show thesis using that [of pad ?f] st(2) f0 by (simp add: set_len_flag_def)
qed

subsection \<open>The invariant\<close>

text \<open>
  What happened to a stream so far: the bytes the application wrote, the frames sent with their data, those acknowledged, how many bytes went out
  as fresh, the limit the peer announced, and whether the application shut the stream down.
\<close>

record sender_ghost =
  sg_written :: "byte list"
  sg_frames :: "(stream_frame \<times> byte list) set"
  sg_acked :: "(stream_frame \<times> byte list) set"
  sg_fresh :: nat
  sg_limit :: nat
  sg_shut :: bool

definition frame_span :: "stream_frame \<times> byte list \<Rightarrow> nat set" where
  "frame_span fb = {into_inner (sf_offset (fst fb))..<into_inner (sf_offset (fst fb)) + length (snd fb)}"

definition spans :: "(stream_frame \<times> byte list) set \<Rightarrow> nat set" where
  "spans F = (\<Union>fb \<in> F. frame_span fb)"

lemma spans_simps [simp]: "spans {} = {}" "spans (insert fb F) = frame_span fb \<union> spans F"
  by (auto simp: spans_def)

definition fin_in :: "(stream_frame \<times> byte list) set \<Rightarrow> bool" where
  "fin_in F \<longleftrightarrow> (\<exists>fb \<in> F. sf_is_fin (fst fb))"

lemma fin_in_simps [simp]: "\<not> fin_in {}" "fin_in (insert fb F) \<longleftrightarrow> sf_is_fin (fst fb) \<or> fin_in F"
  by (auto simp: fin_in_def)

text \<open>The frames are parts of what was written; an empty frame is sent for the end of the stream only, which is the end of what was written.\<close>

definition frames_fit :: "sender_ghost \<Rightarrow> bool" where
  "frames_fit g \<longleftrightarrow>
     (\<forall>(f, b) \<in> sg_frames g. frames_of (sg_written g) f b \<and> within64 f b \<and> (b = [] \<longrightarrow> sf_is_fin f)) \<and>
     (fin_in (sg_frames g) \<longrightarrow> sg_shut g) \<and> sg_acked g \<subseteq> sg_frames g \<and>
     length (sg_written g) \<le> sg_limit g \<and> sg_limit g < 2 ^ 62 \<and> sg_fresh g \<le> length (sg_written g)"

definition painted_for :: "sender_ghost \<Rightarrow> send_buf \<Rightarrow> bool" where
  "painted_for g sb \<longleftrightarrow> (\<forall>p < length (sg_written g).
     (sb_color sb p = Recved \<longleftrightarrow> p \<in> spans (sg_acked g)) \<and> (sb_color sb p = color.Pending \<longleftrightarrow> p \<notin> spans (sg_frames g)))"

definition open_inv :: "sender_ghost \<Rightarrow> ready_sender \<Rightarrow> bool" where
  "open_inv g s \<longleftrightarrow> sb_shape 0 (sg_written g) (rd_sndbuf s) \<and> painted_for g (rd_sndbuf s) \<and> \<not> fin_in (sg_frames g) \<and>
     rd_max_stream_data s = sg_limit g \<and> (rd_shutdown_waker s \<noteq> None \<longleftrightarrow> sg_shut g) \<and> sg_fresh g = sb_sent (rd_sndbuf s)"

definition sent_inv :: "sender_ghost \<Rightarrow> data_sent_sender \<Rightarrow> bool" where
  "sent_inv g s \<longleftrightarrow> sb_shape 1 (sg_written g) (ds_sndbuf s) \<and> painted_for g (ds_sndbuf s) \<and> sg_shut g \<and>
     sg_fresh g = length (sg_written g) \<and> {..<length (sg_written g)} \<subseteq> spans (sg_frames g) \<and>
     (ds_fin_state s = FinRcvd \<longleftrightarrow> fin_in (sg_acked g)) \<and> \<not> ds_is_all_rcvd s"

fun sender_inv :: "sender_ghost \<Rightarrow> arc_sender \<Rightarrow> bool" where
  "sender_inv g (Inr (SReady s)) \<longleftrightarrow> frames_fit g \<and> sg_frames g = {} \<and> open_inv g s"
| "sender_inv g (Inr (SSending s)) \<longleftrightarrow> frames_fit g \<and> open_inv g s"
| "sender_inv g (Inr (SDataSent s)) \<longleftrightarrow> frames_fit g \<and> sent_inv g s"
| "sender_inv g (Inr SDataRcvd) \<longleftrightarrow> frames_fit g \<and> spans (sg_acked g) = {..<length (sg_written g)} \<and> fin_in (sg_acked g)"
| "sender_inv g (Inr (SResetSent r)) \<longleftrightarrow> frames_fit g \<and> rse_final_size r = VarInt (sg_fresh g)"
| "sender_inv g (Inr (SResetRcvd r)) \<longleftrightarrow> frames_fit g \<and> rse_final_size r = VarInt (sg_fresh g)"
| "sender_inv g (Inl err) \<longleftrightarrow> frames_fit g"

lemma sender_inv_fit: "sender_inv g a \<Longrightarrow> frames_fit g"
  by (cases "(g, a)" rule: sender_inv.cases) auto

lemma sb_sent_color:
  assumes "sb_shape sl w sb"
  shows "p < length w \<Longrightarrow> sb_color sb p = color.Pending \<longleftrightarrow> sb_sent sb \<le> p" and "sb_sent sb \<le> length w"
  using assms sent_color [of sl "sb_state sb" p] sent_le_end [of sl "sb_state sb"] by (auto simp: sb_shape_def written_def sb_sent_def)

lemma sb_sent_eqI:
  assumes inv: "sb_shape sl w sb" and n: "n \<le> length w" and col: "\<And>p. p < length w \<Longrightarrow> sb_color sb p = color.Pending \<longleftrightarrow> n \<le> p"
  shows "sb_sent sb = n"
proof (rule ccontr)
  assume "sb_sent sb \<noteq> n"
  then consider "sb_sent sb < n" | "n < sb_sent sb" by linarith
  then show False
  proof cases
    case 1
    then show False using sb_sent_color(1) [OF inv, of "sb_sent sb"] col [of "sb_sent sb"] n by simp
  next
    case 2
    then show False using sb_sent_color(1) [OF inv, of n] sb_sent_color(2) [OF inv] col [of n] by simp
  qed
qed

lemma frames_of_extend:
  "frames_of w f b \<Longrightarrow> \<not> sf_is_fin f \<Longrightarrow> frames_of (w @ d) f b"
  by (auto simp: frames_of_def)

lemma frames_fit_mem:
  "frames_fit g \<Longrightarrow> (f, b) \<in> sg_frames g \<Longrightarrow> frames_of (sg_written g) f b \<and> within64 f b \<and> (b = [] \<longrightarrow> sf_is_fin f)"
  by (auto simp: frames_fit_def)

lemma no_fin_mem: "\<not> fin_in F \<Longrightarrow> (f, b) \<in> F \<Longrightarrow> \<not> sf_is_fin f"
  by (force simp: fin_in_def)

lemma frames_fit_spans: "frames_fit g \<Longrightarrow> spans (sg_frames g) \<subseteq> {..<length (sg_written g)}"
  by (fastforce simp: frames_fit_def spans_def frame_span_def frames_of_def)

subsection \<open>The application's calls\<close>

fun accepted :: "(io_error + nat) poll \<Rightarrow> nat" where
  "accepted (Ready (Inr n)) = n"
| "accepted _ = 0"

lemma open_write:
  assumes fit: "frames_fit g" and inv: "open_inv g s"
  obtains p s' e' where "rd_poll_write waker buf s e = Ret (p, s', e')"
    "frames_fit (g\<lparr>sg_written := sg_written g @ take (accepted p) buf\<rparr>)"
    "open_inv (g\<lparr>sg_written := sg_written g @ take (accepted p) buf\<rparr>) s'"
proof -
  let ?w = "sg_written g" and ?sb = "rd_sndbuf s"
  have sh: "sb_shape 0 ?w ?sb" and lim: "rd_max_stream_data s = sg_limit g" and wl: "written ?sb = length ?w"
    using inv by (auto simp: open_inv_def sb_shape_def)
  show thesis
  proof (cases "rd_shutdown_waker s = None \<and> length ?w < sg_limit g")
    case True
    define d where "d = take (min (sg_limit g - length ?w) (length buf)) buf"
    have len: "length ?w + length d \<le> sg_limit g" "sg_limit g < 2 ^ 62" using True fit by (auto simp: d_def frames_fit_def)
    then obtain sb' where sb': "sb_write d ?sb = Ret (length d, sb')" "sb_shape 0 (?w @ d) sb'"
        "\<forall>p < length (?w @ d). sb_color sb' p = (if p < length ?w then sb_color ?sb p else color.Pending)"
      using sb_write_correct [OF sh, of d] by auto
    let ?g = "g\<lparr>sg_written := ?w @ d\<rparr>"
    have dn: "take (length d) buf = d" by (simp add: d_def)
    have run: "rd_poll_write waker buf s e = Ret (Ready (Inr (length d)), s\<lparr>rd_sndbuf := sb'\<rparr>, wake_tx {WRITTEN} e)"
      using True sb'(1) wl lim by (simp add: rd_poll_write_def d_def [symmetric] Let_def)
    have nofin: "\<not> fin_in (sg_frames g)" using inv by (simp add: open_inv_def)
    have "frames_fit ?g"
    proof -
      have "frames_of (?w @ d) f b" if "(f, b) \<in> sg_frames g" for f b
        using that frames_fit_mem [OF fit that] no_fin_mem [OF nofin that] frames_of_extend by blast
      then show ?thesis using fit len by (auto simp: frames_fit_def)
    qed
    moreover have "painted_for ?g sb'"
    proof -
      have "p \<notin> spans (sg_frames g) \<and> p \<notin> spans (sg_acked g)" if "\<not> p < length ?w" for p
        using frames_fit_spans [OF fit] fit that by (auto simp: frames_fit_def spans_def)
      then show ?thesis using inv sb'(3) by (simp add: painted_for_def open_inv_def)
    qed
    moreover have "sb_sent sb' = sb_sent ?sb"
    proof (rule sb_sent_eqI [OF sb'(2)])
      show "sb_sent ?sb \<le> length (?w @ d)" using sb_sent_color(2) [OF sh] by simp
      show "sb_color sb' p = color.Pending \<longleftrightarrow> sb_sent ?sb \<le> p" if "p < length (?w @ d)" for p
        using that sb'(3) sb_sent_color(1) [OF sh, of p] sb_sent_color(2) [OF sh] by auto
    qed
    ultimately show thesis using that [OF run] inv sb'(2) by (simp add: dn open_inv_def painted_for_def)
  next
    case False
    then have "rd_poll_write waker buf s e = Ret (Ready (Inl Unsupported), s, e) \<or>
        rd_poll_write waker buf s e = Ret (poll.Pending, s\<lparr>rd_writable_waker := Some waker\<rparr>, e)"
      using wl lim by (auto simp: rd_poll_write_def)
    then show thesis using that [of "Ready (Inl Unsupported)"] that [of poll.Pending] fit inv by (auto simp: open_inv_def)
  qed
qed

subsection \<open>The fate of a frame\<close>

lemma spans_sub: "F \<subseteq> G \<Longrightarrow> spans F \<subseteq> spans G"
  by (auto simp: spans_def)

lemma all_rcvd_spans:
  assumes "sb_shape sl (sg_written g) sb" "painted_for g sb"
  shows "is_all_rcvd sb \<longleftrightarrow> {..<length (sg_written g)} \<subseteq> spans (sg_acked g)"
  using is_all_rcvd_iff [OF assms(1)] assms(2) by (auto simp: painted_for_def)

lemma frame_range:
  assumes "frames_fit g" "(f, b) \<in> sg_frames g"
  shows "sf_range f = Ret (into_inner (sf_offset f), into_inner (sf_offset f) + length b)"
    and "into_inner (sf_offset f) + length b \<le> length (sg_written g)"
    and "b = [] \<Longrightarrow> into_inner (sf_offset f) = length (sg_written g)"
    and "frame_span (f, b) \<subseteq> spans (sg_frames g)"
proof -
  have fr: "frames_of (sg_written g) f b" "within64 f b" "b = [] \<longrightarrow> sf_is_fin f" using frames_fit_mem [OF assms] by auto
  show "sf_range f = Ret (into_inner (sf_offset f), into_inner (sf_offset f) + length b)"
    using fr(2) by (simp add: sf_range_def within64_def add64_def)
  show "into_inner (sf_offset f) + length b \<le> length (sg_written g)" using fr(1) by (simp add: frames_of_def)
  show "into_inner (sf_offset f) = length (sg_written g)" if "b = []" using fr that by (simp add: frames_of_def)
  show "frame_span (f, b) \<subseteq> spans (sg_frames g)" using assms(2) by (auto simp: spans_def)
qed

lemma sent_not_pending:
  assumes "frames_fit g" "painted_for g sb" "(f, b) \<in> sg_frames g"
  shows "\<forall>p. into_inner (sf_offset f) \<le> p \<and> p < into_inner (sf_offset f) + length b \<longrightarrow> sb_color sb p \<noteq> color.Pending"
proof (intro allI impI)
  fix p assume p: "into_inner (sf_offset f) \<le> p \<and> p < into_inner (sf_offset f) + length b"
  then have "p \<in> spans (sg_frames g)" "p < length (sg_written g)"
    using frame_range(2,4) [OF assms(1,3)] by (auto simp: frame_span_def)
  then show "sb_color sb p \<noteq> color.Pending" using assms(2) by (auto simp: painted_for_def)
qed

lemma covered_not_pending:
  "painted_for g sb \<Longrightarrow> {..<length (sg_written g)} \<subseteq> spans (sg_frames g) \<Longrightarrow> \<forall>p < length (sg_written g). sb_color sb p \<noteq> color.Pending"
  by (auto simp: painted_for_def)

lemma acked_buf:
  assumes fit: "frames_fit g" and sh: "sb_shape sl (sg_written g) sb" and paint: "painted_for g sb" and fb: "(f, b) \<in> sg_frames g"
    and empty: "b = [] \<Longrightarrow> sl = 1 \<and> {..<length (sg_written g)} \<subseteq> spans (sg_frames g)"
  obtains rng sb' where "sf_range f = Ret rng" "on_data_acked rng sb = Ret sb'" "sb_shape sl (sg_written g) sb'"
    "painted_for (g\<lparr>sg_acked := insert (f, b) (sg_acked g)\<rparr>) sb'" "sb_sent sb' = sb_sent sb"
proof -
  let ?o = "into_inner (sf_offset f)" and ?w = "sg_written g"
  note fr = frame_range [OF fit fb]
  have "\<exists>sb'. on_data_acked (?o, ?o + length b) sb = Ret sb' \<and> sb_shape sl ?w sb' \<and>
      (\<forall>p < length ?w. sb_color sb' p = (if ?o \<le> p \<and> p < ?o + length b then Recved else sb_color sb p))"
  proof (cases "b = []")
    case True
    then show ?thesis
      using on_data_acked_at_end [OF sh covered_not_pending [OF paint]] empty fr(3) by auto
  next
    case False
    then show ?thesis using on_data_acked_correct [OF sh _ fr(2) sent_not_pending [OF fit paint fb]] by simp
  qed
  then obtain sb' where sb': "on_data_acked (?o, ?o + length b) sb = Ret sb'" "sb_shape sl ?w sb'"
      "\<forall>p < length ?w. sb_color sb' p = (if ?o \<le> p \<and> p < ?o + length b then Recved else sb_color sb p)" by blast
  have "painted_for (g\<lparr>sg_acked := insert (f, b) (sg_acked g)\<rparr>) sb'"
    using sb'(3) paint fr(4) by (auto simp: painted_for_def frame_span_def)
  moreover have "sb_sent sb' = sb_sent sb"
  proof (rule sb_sent_eqI [OF sb'(2) sb_sent_color(2) [OF sh]])
    show "sb_color sb' p = color.Pending \<longleftrightarrow> sb_sent sb \<le> p" if "p < length ?w" for p
      using sb'(3) that sb_sent_color(1) [OF sh that] sent_not_pending [OF fit paint fb] by auto
  qed
  ultimately show thesis using that fr(1) sb' by blast
qed

lemma lost_buf:
  assumes fit: "frames_fit g" and sh: "sb_shape sl (sg_written g) sb" and paint: "painted_for g sb" and fb: "(f, b) \<in> sg_frames g"
    and empty: "b = [] \<Longrightarrow> sl = 1 \<and> {..<length (sg_written g)} \<subseteq> spans (sg_frames g)"
    and start: "b \<noteq> [] \<Longrightarrow> into_inner (sf_offset f) \<notin> spans (sg_acked g)"
  obtains rng sb' where "sf_range f = Ret rng" "may_loss_data rng sb = Ret sb'" "sb_shape sl (sg_written g) sb'"
    "painted_for g sb'" "sb_sent sb' = sb_sent sb"
proof -
  let ?o = "into_inner (sf_offset f)" and ?w = "sg_written g"
  note fr = frame_range [OF fit fb]
  have "\<exists>sb'. may_loss_data (?o, ?o + length b) sb = Ret sb' \<and> sb_shape sl ?w sb' \<and>
      (\<forall>p < length ?w. sb_color sb' p = sb_color sb p \<or> sb_color sb p = Flighting \<and> sb_color sb' p = Lost)"
  proof (cases "b = []")
    case True
    then show ?thesis
      using may_loss_data_at_end [OF sh covered_not_pending [OF paint]] empty fr(3) by auto
  next
    case False
    then have "?o < ?o + length b" "?o < length ?w" using fr(2) by (cases b; simp)+
    then have "sb_color sb ?o \<noteq> Recved" using start [OF False] paint by (simp add: painted_for_def)
    then show ?thesis
      using may_loss_data_correct [OF sh \<open>?o < ?o + length b\<close> fr(2) sent_not_pending [OF fit paint fb]] by fastforce
  qed
  then obtain sb' where sb': "may_loss_data (?o, ?o + length b) sb = Ret sb'" "sb_shape sl ?w sb'"
      "\<forall>p < length ?w. sb_color sb' p = sb_color sb p \<or> sb_color sb p = Flighting \<and> sb_color sb' p = Lost" by blast
  have col: "(sb_color sb' p = c) = (sb_color sb p = c)" if "p < length ?w" "c = Recved \<or> c = color.Pending" for p c
    using sb'(3) that by force
  have "painted_for g sb'" using col paint by (simp add: painted_for_def)
  moreover have "sb_sent sb' = sb_sent sb"
  proof (rule sb_sent_eqI [OF sb'(2) sb_sent_color(2) [OF sh]])
    show "sb_color sb' p = color.Pending \<longleftrightarrow> sb_sent sb \<le> p" if "p < length ?w" for p
      using col [OF that] sb_sent_color(1) [OF sh that] by simp
  qed
  ultimately show thesis using that fr(1) sb' by blast
qed

subsection \<open>Loading from the buffer\<close>

text \<open>What a load adds to the history.\<close>

definition record_load :: "signals + (nat \<times> bool) \<Rightarrow> loaded option \<Rightarrow> sender_ghost \<Rightarrow> sender_ghost" where
  "record_load r out g =
     (case out of None \<Rightarrow> g
      | Some (pad, f, s1, s2) \<Rightarrow> g\<lparr>sg_frames := insert (f, s1 @ s2) (sg_frames g),
          sg_fresh := sg_fresh g + (case r of Inr (n, True) \<Rightarrow> n | _ \<Rightarrow> 0)\<rparr>)"

text \<open>A pick of data: where it lies, that it fits, and what it does to the colours and to the number of bytes sent.\<close>

lemma pick_up_data:
  assumes sh: "sb_shape sl w sb" and ok: "predicate_ok P" and run: "pick_up k P fl sb = Ret (Inr (start, fresh, s1, s2), sb')"
  shows "sb_shape sl w sb'" and "start + (length s1 + length s2) \<le> length w" and "s1 @ s2 = take (length s1 + length s2) (drop start w)"
    and "\<exists>a. P start = Some a \<and> length s1 + length s2 \<le> a"
    and "s1 @ s2 = [] \<Longrightarrow> sl = 1 \<and> start = length w"
    and "p < length w \<Longrightarrow> sb_color sb' p = (if start \<le> p \<and> p < start + (length s1 + length s2) then Flighting else sb_color sb p)"
    and "start \<le> p \<Longrightarrow> p < start + (length s1 + length s2) \<Longrightarrow> sb_color sb p = (if fresh then color.Pending else Lost)"
    and "fresh \<Longrightarrow> p < start \<Longrightarrow> s1 @ s2 \<noteq> [] \<Longrightarrow> sb_color sb p \<noteq> color.Pending"
    and "fresh \<Longrightarrow> length s1 + length s2 \<le> fl"
proof -
  have r: "sb_shape sl w sb'" "picked_data_shape sl w P fl sb (Inr (start, fresh, s1, s2)) sb'"
    using pick_up_correct [OF sh ok, of k fl] run by auto
  let ?n = "length s1 + length s2"
  have n: "bm_end (sb_state sb) = length w" using sh by (simp add: sb_shape_def written_def)
  have pk: "picked_shape sl P fl (sb_state sb) (Inr ((start, start + ?n), fresh)) (sb_state sb')"
    using r(2) by (simp add: picked_data_shape_def Let_def)
  show "sb_shape sl w sb'" by (rule r(1))
  show "s1 @ s2 = take ?n (drop start w)" using r(2) unfolding picked_data_shape_def Let_def by (simp only: sum.case prod.case length_append)
  show "start + ?n \<le> length w" "\<exists>a. P start = Some a \<and> ?n \<le> a" "fresh \<Longrightarrow> ?n \<le> fl" using pk n by (auto simp: picked_shape_def)
  show "sl = 1 \<and> start = length w" if "s1 @ s2 = []" using pk n that by (simp add: picked_shape_def)
  show "sb_color sb' p = (if start \<le> p \<and> p < start + ?n then Flighting else sb_color sb p)" if "p < length w"
    using pk n that by (simp add: picked_shape_def painted_shape_def)
  show "sb_color sb p = (if fresh then color.Pending else Lost)" if "start \<le> p" "p < start + ?n"
    using pk that by (simp add: picked_shape_def)
  show "sb_color sb p \<noteq> color.Pending" if "fresh" "p < start" "s1 @ s2 \<noteq> []"
  proof -
    have "0 < ?n" using that(3) by auto
    moreover have "\<not> sendable fl (sb_color sb p)" "?n \<le> fl" using pk that(1,2) by (simp_all add: picked_shape_def)
    ultimately show ?thesis by (auto simp: sendable_def)
  qed
qed

lemma pick_up_sent:
  assumes sh: "sb_shape sl w sb" and ok: "predicate_ok P" and run: "pick_up k P fl sb = Ret (Inr (start, fresh, s1, s2), sb')"
  shows "sb_sent sb' = sb_sent sb + (if fresh then length s1 + length s2 else 0)"
proof (rule sb_sent_eqI)
  let ?n = "length s1 + length s2"
  note pu = pick_up_data [OF sh ok run]
  note sc = sb_sent_color(1) [OF sh] and sl = sb_sent_color(2) [OF sh]
  show "sb_shape sl w sb'" by (rule pu(1))
  have fresh: "sb_sent sb = start" if "fresh" "0 < ?n"
  proof (rule antisym)
    have ne: "s1 @ s2 \<noteq> []" using that(2) by auto
    show "sb_sent sb \<le> start" using sc [of start] pu(7) [of start] pu(2) that by simp
    show "start \<le> sb_sent sb"
    proof (rule ccontr)
      assume "\<not> start \<le> sb_sent sb"
      then show False using sc [of "sb_sent sb"] pu(8) [OF that(1) _ ne, of "sb_sent sb"] pu(2) by simp
    qed
  qed
  show "sb_sent sb + (if fresh then ?n else 0) \<le> length w" using fresh sl pu(2) by (cases "fresh \<and> 0 < ?n") auto
  show "sb_color sb' p = color.Pending \<longleftrightarrow> sb_sent sb + (if fresh then ?n else 0) \<le> p" if "p < length w" for p
  proof (cases "fresh \<and> 0 < ?n")
    case True
    then show ?thesis using pu(6) [OF that] sc [OF that] fresh by auto
  next
    case False
    then have "\<not> (start \<le> p \<and> p < start + ?n \<and> sb_color sb p = color.Pending)" using pu(7) [of p] by auto
    then show ?thesis using False pu(6) [OF that] sc [OF that] by auto
  qed
qed

lemma pick_up_painted:
  assumes paint: "painted_for g sb" and sh: "sb_shape sl (sg_written g) sb" and ok: "predicate_ok P"
    and run: "pick_up k P fl sb = Ret (Inr (start, fresh, s1, s2), sb')"
    and f: "sf_offset f = VarInt start"
  shows "painted_for (g\<lparr>sg_frames := insert (f, s1 @ s2) (sg_frames g), sg_fresh := m\<rparr>) sb'"
proof -
  note pu = pick_up_data [OF sh ok run]
  have "sb_color sb p \<noteq> Recved" if "start \<le> p" "p < start + (length s1 + length s2)" for p using pu(7) [OF that] by simp
  then show ?thesis using paint pu(6) by (auto simp: painted_for_def frame_span_def f)
qed

lemma pick_up_none:
  assumes "sb_shape sl w sb" "predicate_ok P" "pick_up k P fl sb = Ret (Inl sigs, sb')"
  shows "sb_shape sl w sb'" and "sb_state sb' = sb_state sb"
  using pick_up_correct [OF assms(1,2), of k fl] assms(3) by (auto simp: picked_data_shape_def picked_shape_def)

lemma pick_up_returns:
  assumes "sb_shape sl w sb" "predicate_ok P"
  obtains (none) sigs sb' where "pick_up k P fl sb = Ret (Inl sigs, sb')"
  | (data) start fresh s1 s2 sb' where "pick_up k P fl sb = Ret (Inr (start, fresh, s1, s2), sb')"
proof -
  obtain r sb' where "pick_up k P fl sb = Ret (r, sb')" using pick_up_correct [OF assms, of k fl] by blast
  then show thesis using none data by (cases r) auto
qed

lemma same_state:
  assumes "sb_state sb' = sb_state sb"
  shows "painted_for g sb' = painted_for g sb" "sb_sent sb' = sb_sent sb" "written sb' = written sb"
  by (simp_all add: painted_for_def sb_sent_def written_def assms)

lemma load_fits:
  assumes sid: "sid_ok sid" and o: "start < 2 ^ 62" and pr: "load_predicate origin_len sid tokens start = Some a" and n: "n \<le> a"
  shows "stream_least sid start + n \<le> origin_len"
  using pr n unfolding load_predicate_eq [OF sid o] by (auto split: if_splits)

text \<open>The frame that is written for picked data, or for the end of the stream alone.\<close>

lemma load_frame:
  assumes fit: "frames_fit g" and sid: "sid_ok sid" and room: "stream_least sid start + length (s1 @ s2) \<le> origin_len"
    and le: "start + length (s1 @ s2) \<le> length (sg_written g)" and data: "s1 @ s2 = take (length (s1 @ s2)) (drop start (sg_written g))"
    and eos: "eos \<Longrightarrow> start + length (s1 @ s2) = length (sg_written g) \<and> sg_shut g" and empty: "s1 @ s2 = [] \<Longrightarrow> eos"
    and m: "m \<le> length (sg_written g)"
  shows "\<exists>pad f. load_write origin_len sid (start, fresh, s1, s2, eos) = Ret ((length s1 + length s2, fresh), (pad, f, s1, s2)) \<and>
    sf_offset f = VarInt start \<and> (sf_is_fin f \<longleftrightarrow> eos) \<and>
    frames_fit (g\<lparr>sg_frames := insert (f, s1 @ s2) (sg_frames g), sg_fresh := m\<rparr>)"
proof -
  have b: "start + (length s1 + length s2) < 2 ^ 62" using le fit by (simp add: frames_fit_def)
  obtain pad f where f: "load_write origin_len sid (start, fresh, s1, s2, eos) = Ret ((length s1 + length s2, fresh), (pad, f, s1, s2))"
      "sf_offset f = VarInt start" "sf_length f = length s1 + length s2" "sf_is_fin f \<longleftrightarrow> eos"
    using load_write_ok [OF sid room [unfolded length_append] b, of fresh eos] by metis
  have "frames_of (sg_written g) f (s1 @ s2)" unfolding frames_of_def using le data eos f(2,4) by simp
  moreover have "within64 f (s1 @ s2)" using f(2,3) b by (simp add: within64_def)
  ultimately have "frames_fit (g\<lparr>sg_frames := insert (f, s1 @ s2) (sg_frames g), sg_fresh := m\<rparr>)"
    using fit f(4) eos empty m by (auto simp: frames_fit_def)
  then show ?thesis using f by blast
qed

lemma load_fin:
  assumes fit: "frames_fit g" and sid: "sid_ok sid" and room: "STREAM_FRAME_MAX_ENCODING_SIZE \<le> origin_len" and shut: "sg_shut g"
  shows "\<exists>pad f. load_write origin_len sid (length (sg_written g), False, [], [], True) = Ret ((0, False), (pad, f, [], [])) \<and>
    sf_offset f = VarInt (length (sg_written g)) \<and> frames_fit (g\<lparr>sg_frames := insert (f, []) (sg_frames g)\<rparr>)"
proof -
  have w: "length (sg_written g) < 2 ^ 62" "sg_fresh g \<le> length (sg_written g)" using fit by (auto simp: frames_fit_def)
  have "stream_least sid (length (sg_written g)) \<le> origin_len"
    using stream_least_le [OF sid w(1)] room by (simp add: STREAM_FRAME_MAX_ENCODING_SIZE_def)
  then show ?thesis
    using load_frame [OF fit sid, of "length (sg_written g)" "[]" "[]" origin_len True "sg_fresh g" False] shut w(2) by auto
qed

lemma open_load:
  assumes fit: "frames_fit g" and inv: "open_inv g s" and sid: "sid_ok sid"
    and room: "STREAM_FRAME_MAX_ENCODING_SIZE \<le> origin_len" "origin_len < 2 ^ 62" and tok: "0 < tokens"
  obtains r out s' where "sending_load k origin_len sid fl tokens s = Ret (r, out, s')"
    "sender_inv (record_load r out g) (Inr s')"
proof -
  let ?P = "load_predicate origin_len sid tokens" and ?sb = "rd_sndbuf s" and ?w = "sg_written g"
  have sh: "sb_shape 0 ?w ?sb" and paint: "painted_for g ?sb" and nofin: "\<not> fin_in (sg_frames g)"
    and fr: "sg_fresh g = sb_sent ?sb" and wl: "written ?sb = length ?w" and lim: "rd_max_stream_data s = sg_limit g"
    and shut: "rd_shutdown_waker s \<noteq> None \<longleftrightarrow> sg_shut g"
    using inv by (auto simp: open_inv_def sb_shape_def)
  have ok: "predicate_ok ?P" using load_predicate_ok [OF tok room(2)] .
  have w62: "length ?w < 2 ^ 62" using fit by (simp add: frames_fit_def)
  have nofin': "\<not> fin_in (sg_acked g)" using nofin fit by (auto simp: fin_in_def frames_fit_def)
  have last: "sent_inv g' (sd_upgrade (s\<lparr>rd_sndbuf := sb'\<rparr>))"
    if "sb_shape 0 ?w sb'" "painted_for g' sb'" "sg_written g' = ?w" "sg_fresh g' = sb_sent sb'" "sb_sent sb' = length ?w" "sg_shut g'"
      "sg_acked g' = sg_acked g" for g' sb'
  proof -
    have "\<forall>p < length ?w. sb_color sb' p \<noteq> color.Pending" using sb_sent_color(1) [OF that(1)] that(5) by auto
    then show ?thesis using that nofin' sb_shape_mono [OF that(1)]
      by (auto simp: sent_inv_def sd_upgrade_def painted_for_def ds_is_all_rcvd_def)
  qed
  from sh ok show thesis
  proof (cases rule: pick_up_returns [where k = k and fl = fl])
    case (none sigs sb')
    note pn = pick_up_none [OF sh ok none]
    show thesis
    proof (cases "fin_pos s = Some (sb_sent ?sb)")
      case False
      then have "sending_load k origin_len sid fl tokens s = Ret (Inl sigs, None, SSending (s\<lparr>rd_sndbuf := sb'\<rparr>))"
        using none by (simp add: sending_load_def sd_pick_up_def Let_def)
      then show thesis using that fit inv pn(1) same_state [OF pn(2)] by (simp add: record_load_def open_inv_def)
    next
      case True
      then have sent: "sb_sent ?sb = length ?w" "sg_shut g" using wl shut by (auto simp: fin_pos_def split: if_splits)
      have "?P (length ?w) \<noteq> None"
        using stream_least_le [OF sid w62] room(1) by (simp add: load_predicate_eq [OF sid w62] STREAM_FRAME_MAX_ENCODING_SIZE_def)
      then have pick: "sd_pick_up k ?P fl s = Ret (Inr (length ?w, False, [], [], True), s\<lparr>rd_sndbuf := sb'\<rparr>)"
        using none True sent by (auto simp: sd_pick_up_def Let_def)
      obtain pad f where f: "load_write origin_len sid (length ?w, False, [], [], True) = Ret ((0, False), (pad, f, [], []))"
          "sf_offset f = VarInt (length ?w)" "frames_fit (g\<lparr>sg_frames := insert (f, []) (sg_frames g)\<rparr>)"
        using load_fin [OF fit sid room(1) sent(2)] by blast
      have "painted_for (g\<lparr>sg_frames := insert (f, []) (sg_frames g)\<rparr>) sb'"
        using paint same_state(1) [OF pn(2)] by (simp add: painted_for_def frame_span_def)
      then have "sent_inv (g\<lparr>sg_frames := insert (f, []) (sg_frames g)\<rparr>) (sd_upgrade (s\<lparr>rd_sndbuf := sb'\<rparr>))"
        using last [OF pn(1)] same_state [OF pn(2)] fr sent by simp
      then show thesis using that pick f by (simp add: sending_load_def record_load_def)
    qed
  next
    case (data start fresh s1 s2 sb')
    let ?n = "length s1 + length s2"
    note pu = pick_up_data [OF sh ok data] and sent = pick_up_sent [OF sh ok data]
    define eos where "eos \<longleftrightarrow> fin_pos s = Some (start + ?n)"
    have eos: "eos \<Longrightarrow> start + ?n = length ?w \<and> sg_shut g" using wl shut by (auto simp: eos_def fin_pos_def split: if_splits)
    have pick: "sd_pick_up k ?P fl s = Ret (Inr (start, fresh, s1, s2, eos), s\<lparr>rd_sndbuf := sb'\<rparr>)"
      using data pu(2) w62 by (simp add: sd_pick_up_def Let_def add64_def eos_def)
    have start: "start < 2 ^ 62" using pu(2) w62 by simp
    have fits: "stream_least sid start + ?n \<le> origin_len" using pu(4) load_fits [OF sid start] by blast
    have ne: "s1 @ s2 \<noteq> []" using pu(5) by auto
    have m: "sb_sent sb' \<le> length ?w" using sb_sent_color(2) [OF pu(1)] .
    obtain pad f where f: "load_write origin_len sid (start, fresh, s1, s2, eos) = Ret ((?n, fresh), (pad, f, s1, s2))"
        "sf_offset f = VarInt start" "sf_is_fin f \<longleftrightarrow> eos"
        "frames_fit (g\<lparr>sg_frames := insert (f, s1 @ s2) (sg_frames g), sg_fresh := sb_sent sb'\<rparr>)"
      using load_frame [OF fit sid, of start s1 s2 origin_len eos "sb_sent sb'" fresh] fits pu(2,3) eos ne m by auto
    let ?g = "g\<lparr>sg_frames := insert (f, s1 @ s2) (sg_frames g), sg_fresh := sb_sent sb'\<rparr>"
    have rec: "record_load (Inr (?n, fresh)) (Some (pad, f, s1, s2)) g = ?g" using sent fr by (simp add: record_load_def)
    have paint': "painted_for ?g sb'" using pick_up_painted [OF paint sh ok data f(2)] .
    have load: "sending_load k origin_len sid fl tokens s =
        Ret (Inr (?n, fresh), Some (pad, f, s1, s2), if eos then SDataSent (sd_upgrade (s\<lparr>rd_sndbuf := sb'\<rparr>)) else SSending (s\<lparr>rd_sndbuf := sb'\<rparr>))"
      using pick f(1) by (simp add: sending_load_def)
    show thesis
    proof (cases eos)
      case False
      then have "open_inv ?g (s\<lparr>rd_sndbuf := sb'\<rparr>)" using paint' pu(1) lim shut nofin f(3) by (simp add: open_inv_def)
      then show thesis using that load False f(4) rec by simp
    next
      case True
      have "0 < ?n" using ne by auto
      then have at: "length ?w - 1 < length ?w" "start \<le> length ?w - 1" using eos [OF True] by linarith+
      then have "sb_color sb' (length ?w - 1) \<noteq> color.Pending" using pu(6) [OF at(1)] eos [OF True] by simp
      then have "sb_sent sb' = length ?w" using sb_sent_color(1) [OF pu(1) at(1)] m by simp
      then have "sent_inv ?g (sd_upgrade (s\<lparr>rd_sndbuf := sb'\<rparr>))" using last [OF pu(1) paint'] eos [OF True] by simp
      then show thesis using that load True f(4) rec by simp
    qed
  qed
qed

lemma sent_load:
  assumes fit: "frames_fit g" and inv: "sent_inv g s" and sid: "sid_ok sid"
    and room: "STREAM_FRAME_MAX_ENCODING_SIZE \<le> origin_len" "origin_len < 2 ^ 62" and tok: "0 < tokens"
  obtains r out s' where "try_load_data_into k origin_len sid fl tokens (Inr (SDataSent s)) = Ret (r, out, Inr (SDataSent s'))"
    "sender_inv (record_load r out g) (Inr (SDataSent s'))"
proof -
  let ?P = "load_predicate origin_len sid tokens" and ?sb = "ds_sndbuf s" and ?w = "sg_written g"
  have sh: "sb_shape 1 ?w ?sb" and paint: "painted_for g ?sb" and wl: "written ?sb = length ?w" and shut: "sg_shut g"
    and cov: "{..<length ?w} \<subseteq> spans (sg_frames g)" and fr: "sg_fresh g = length ?w"
    using inv by (auto simp: sent_inv_def sb_shape_def)
  have ok: "predicate_ok ?P" using load_predicate_ok [OF tok room(2)] .
  have w62: "length ?w < 2 ^ 62" using fit by (simp add: frames_fit_def)
  have keep: "sent_inv g' (s\<lparr>ds_sndbuf := sb', ds_fin_state := fs\<rparr>)"
    if "sb_shape 1 ?w sb'" "painted_for g' sb'" "sg_written g' = ?w" "sg_fresh g' = length ?w" "sg_shut g'" "sg_acked g' = sg_acked g"
      "spans (sg_frames g) \<subseteq> spans (sg_frames g')" "fs = FinRcvd \<longleftrightarrow> ds_fin_state s = FinRcvd" for g' sb' fs
  proof -
    have "is_all_rcvd sb' \<longleftrightarrow> is_all_rcvd ?sb"
      using all_rcvd_spans [of 1 g' sb'] all_rcvd_spans [OF sh paint] that by simp
    then show ?thesis using that inv cov by (auto simp: sent_inv_def ds_is_all_rcvd_def)
  qed
  from sh ok show thesis
  proof (cases rule: pick_up_returns [where k = k and fl = fl])
    case (none sigs sb')
    note pn = pick_up_none [OF sh ok none]
    show thesis
    proof (cases "ds_fin_state s = FinLost")
      case False
      then have "try_load_data_into k origin_len sid fl tokens (Inr (SDataSent s)) = Ret (Inl sigs, None, Inr (SDataSent (s\<lparr>ds_sndbuf := sb'\<rparr>)))"
        using none by (simp add: ds_pick_up_def Let_def)
      then show thesis using that fit keep [OF pn(1), of g "ds_fin_state s"] same_state [OF pn(2)] paint fr shut
        by (simp add: record_load_def)
    next
      case True
      let ?s = "s\<lparr>ds_sndbuf := sb', ds_fin_state := FinSent\<rparr>"
      have pick: "ds_pick_up k ?P fl s = Ret (Inr (length ?w, False, [], [], True), ?s)"
        using none True wl by (simp add: ds_pick_up_def Let_def)
      obtain pad f where f: "load_write origin_len sid (length ?w, False, [], [], True) = Ret ((0, False), (pad, f, [], []))"
          "sf_offset f = VarInt (length ?w)" "frames_fit (g\<lparr>sg_frames := insert (f, []) (sg_frames g)\<rparr>)"
        using load_fin [OF fit sid room(1) shut] by blast
      have "painted_for (g\<lparr>sg_frames := insert (f, []) (sg_frames g)\<rparr>) sb'"
        using paint same_state(1) [OF pn(2)] by (simp add: painted_for_def frame_span_def)
      then have "sent_inv (g\<lparr>sg_frames := insert (f, []) (sg_frames g)\<rparr>) ?s"
        using keep [OF pn(1), of "g\<lparr>sg_frames := insert (f, []) (sg_frames g)\<rparr>" FinSent] True fr shut by simp
      then show thesis using that pick f by (simp add: record_load_def)
    qed
  next
    case (data start fresh s1 s2 sb')
    let ?n = "length s1 + length s2" and ?s = "s\<lparr>ds_sndbuf := sb'\<rparr>"
    note pu = pick_up_data [OF sh ok data]
    define eos where "eos \<longleftrightarrow> start + ?n = length ?w"
    have pick: "ds_pick_up k ?P fl s = Ret (Inr (start, fresh, s1, s2, eos), ?s)"
      using data pu(2) w62 wl by (simp add: ds_pick_up_def Let_def add64_def eos_def)
    have start: "start < 2 ^ 62" using pu(2) w62 by simp
    have fits: "stream_least sid start + ?n \<le> origin_len" using pu(4) load_fits [OF sid start] by blast
    have stale: "fresh \<Longrightarrow> ?n = 0"
    proof (rule ccontr)
      assume fresh and n: "?n \<noteq> 0"
      from n have lt: "start < start + ?n" by linarith
      then have "sb_color ?sb start = color.Pending" using pu(7) [OF order_refl] \<open>fresh\<close> by simp
      moreover have "start < length ?w" using lt pu(2) by (rule less_le_trans)
      ultimately show False using paint cov by (auto simp: painted_for_def)
    qed
    have "\<exists>pad f. load_write origin_len sid (start, fresh, s1, s2, eos) = Ret ((?n, fresh), (pad, f, s1, s2)) \<and>
        sf_offset f = VarInt start \<and> (sf_is_fin f \<longleftrightarrow> eos) \<and>
        frames_fit (g\<lparr>sg_frames := insert (f, s1 @ s2) (sg_frames g), sg_fresh := length ?w\<rparr>)"
    proof (rule load_frame [OF fit sid])
      show "stream_least sid start + length (s1 @ s2) \<le> origin_len" "start + length (s1 @ s2) \<le> length ?w" using fits pu(2) by simp_all
      show "s1 @ s2 = take (length (s1 @ s2)) (drop start ?w)" using pu(3) unfolding length_append .
      show "start + length (s1 @ s2) = length ?w \<and> sg_shut g" if eos using that shut by (simp add: eos_def)
      show eos if "s1 @ s2 = []" using pu(5) [OF that] that by (simp add: eos_def)
    qed simp
    then obtain pad f where f: "load_write origin_len sid (start, fresh, s1, s2, eos) = Ret ((?n, fresh), (pad, f, s1, s2))"
        "sf_offset f = VarInt start" "frames_fit (g\<lparr>sg_frames := insert (f, s1 @ s2) (sg_frames g), sg_fresh := length ?w\<rparr>)" by blast
    let ?g = "g\<lparr>sg_frames := insert (f, s1 @ s2) (sg_frames g), sg_fresh := length ?w\<rparr>"
    have rec: "record_load (Inr (?n, fresh)) (Some (pad, f, s1, s2)) g = ?g" using stale fr by (cases fresh) (simp_all add: record_load_def)
    have "sent_inv ?g ?s"
      using keep [OF pu(1) pick_up_painted [OF paint sh ok data f(2), of "length ?w"], of "ds_fin_state s"] shut by simp
    then show thesis using that pick f rec by simp
  qed
qed

subsection \<open>Every history\<close>

fun is_open :: "arc_sender \<Rightarrow> bool" where
  "is_open (Inr (SReady _)) \<longleftrightarrow> True"
| "is_open (Inr (SSending _)) \<longleftrightarrow> True"
| "is_open _ \<longleftrightarrow> False"

text \<open>
  The states a sender reaches, with the history. The application and the protocol side call in any order; a frame is acknowledged or reported lost
  only after it was sent, any number of times, and a loss starts at a byte that is not acknowledged yet.
\<close>

inductive sender_reach :: "stream_id \<Rightarrow> sender_ghost \<Rightarrow> arc_sender \<Rightarrow> bool" for sid where
  sr_start: "window < 2 ^ 62 \<Longrightarrow>
    sender_reach sid \<lparr>sg_written = [], sg_frames = {}, sg_acked = {}, sg_fresh = 0, sg_limit = window, sg_shut = False\<rparr> (arc_sender_new sid window)"
| sr_write: "sender_reach sid g a \<Longrightarrow> writer_poll_write waker buf a e = Ret (p, a', e') \<Longrightarrow>
    sender_reach sid (g\<lparr>sg_written := sg_written g @ take (accepted p) buf\<rparr>) a'"
| sr_flush: "sender_reach sid g a \<Longrightarrow> writer_poll_flush waker a = Ret (q, a') \<Longrightarrow> sender_reach sid g a'"
| sr_shutdown: "sender_reach sid g a \<Longrightarrow> writer_poll_shutdown waker a e = Ret (q, a', e') \<Longrightarrow>
    sender_reach sid (g\<lparr>sg_shut := sg_shut g \<or> is_open a\<rparr>) a'"
| sr_cancel: "sender_reach sid g a \<Longrightarrow> writer_cancel code a e = Ret (a', e') \<Longrightarrow> sender_reach sid g a'"
| sr_window: "sender_reach sid g a \<Longrightarrow> outgoing_update_window limit a e = Ret (a', e') \<Longrightarrow>
    sender_reach sid (g\<lparr>sg_limit := max (sg_limit g) limit\<rparr>) a'"
| sr_revise: "sender_reach sid g a \<Longrightarrow> limit < 2 ^ 62 \<Longrightarrow> revise_buffer_size limit a e = (a', e') \<Longrightarrow>
    sender_reach sid (g\<lparr>sg_limit := max (sg_limit g) limit\<rparr>) a'"
| sr_load: "sender_reach sid g a \<Longrightarrow> STREAM_FRAME_MAX_ENCODING_SIZE \<le> origin_len \<Longrightarrow> origin_len < 2 ^ 62 \<Longrightarrow> 0 < tokens \<Longrightarrow>
    try_load_data_into k origin_len sid fl tokens a = Ret (r, out, a') \<Longrightarrow> sender_reach sid (record_load r out g) a'"
| sr_ack: "sender_reach sid g a \<Longrightarrow> (f, b) \<in> sg_frames g \<Longrightarrow> outgoing_on_data_acked f a e = Ret (complete, a', e') \<Longrightarrow>
    sender_reach sid (g\<lparr>sg_acked := insert (f, b) (sg_acked g)\<rparr>) a'"
| sr_loss: "sender_reach sid g a \<Longrightarrow> (f, b) \<in> sg_frames g \<Longrightarrow> (b \<noteq> [] \<longrightarrow> into_inner (sf_offset f) \<notin> spans (sg_acked g)) \<Longrightarrow>
    outgoing_may_loss_data f a e = Ret (a', e') \<Longrightarrow> sender_reach sid g a'"
| sr_stopped: "sender_reach sid g a \<Longrightarrow> be_stopped code a e = Ret (final_size, a', e') \<Longrightarrow> sender_reach sid g a'"
| sr_reset_acked: "sender_reach sid g a \<Longrightarrow> on_reset_acked a = Ret a' \<Longrightarrow> sender_reach sid g a'"
| sr_error: "sender_reach sid g a \<Longrightarrow> outgoing_on_conn_error err a e = (a', e') \<Longrightarrow> sender_reach sid g a'"

lemma window_open:
  assumes "open_inv g s" "limit < 2 ^ 62" "frames_fit g" "rd_update_window limit s e = (s', e')"
  shows "open_inv (g\<lparr>sg_limit := max (sg_limit g) limit\<rparr>) s'"
  using assms by (auto simp: open_inv_def rd_update_window_def painted_for_def max_def split: if_splits)

lemma fit_limit: "frames_fit g \<Longrightarrow> limit < 2 ^ 62 \<Longrightarrow> frames_fit (g\<lparr>sg_limit := max (sg_limit g) limit\<rparr>)"
  by (auto simp: frames_fit_def)

lemma fit_shut: "frames_fit g \<Longrightarrow> frames_fit (g\<lparr>sg_shut := sg_shut g \<or> b\<rparr>)"
  by (auto simp: frames_fit_def)

lemma fit_acked: "frames_fit g \<Longrightarrow> fb \<in> sg_frames g \<Longrightarrow> frames_fit (g\<lparr>sg_acked := insert fb (sg_acked g)\<rparr>)"
  by (auto simp: frames_fit_def)

lemma write_step:
  assumes "sender_inv g a"
  shows "\<exists>p a' e'. writer_poll_write waker buf a e = Ret (p, a', e') \<and> sender_inv (g\<lparr>sg_written := sg_written g @ take (accepted p) buf\<rparr>) a'"
proof (cases "(g, a)" rule: sender_inv.cases)
  case (1 g s)
  then show ?thesis using open_write [of g s waker buf e] assms by (fastforce simp: bind_run_Ret_iff)
next
  case (2 g s)
  then show ?thesis using open_write [of g s waker buf e] assms by (fastforce simp: sending_same)
qed (use assms in auto)

lemma flush_step:
  assumes "sender_inv g a"
  shows "\<exists>q a'. writer_poll_flush waker a = Ret (q, a') \<and> sender_inv g a'"
  using assms
  by (cases "(g, a)" rule: sender_inv.cases)
    (auto simp: sending_same rd_poll_flush_def ds_poll_flush_def open_inv_def sent_inv_def ds_is_all_rcvd_def)

lemma shutdown_step:
  assumes "sender_inv g a"
  shows "\<exists>q a' e'. writer_poll_shutdown waker a e = Ret (q, a', e') \<and> sender_inv (g\<lparr>sg_shut := sg_shut g \<or> is_open a\<rparr>) a'"
  using assms fit_shut [OF sender_inv_fit [OF assms], of "is_open a"]
  by (cases "(g, a)" rule: sender_inv.cases)
    (auto simp: sending_same rd_poll_shutdown_def ds_poll_shutdown_def open_inv_def sent_inv_def ds_is_all_rcvd_def painted_for_def)

lemma reset_with_ok: "code < 2 ^ 62 \<Longrightarrow> final < 2 ^ 62 \<Longrightarrow> reset_with code final = Ret (ResetStreamError (VarInt code) (VarInt final))"
  by (simp add: reset_with_def from_u64_def)

lemma reset_with_size: "reset_with code final = Ret r \<Longrightarrow> rse_final_size r = VarInt final"
  by (auto simp: reset_with_def from_u64_def run_simps split: if_splits)

text \<open>In every state a reset names the number of bytes that went out.\<close>

lemma final_sizes:
  assumes "frames_fit g"
  shows "open_inv g s \<Longrightarrow> sb_sent (rd_sndbuf s) = sg_fresh g" and "sent_inv g d \<Longrightarrow> sb_sent (ds_sndbuf d) = sg_fresh g"
    and "sent_inv g d \<Longrightarrow> written (ds_sndbuf d) = sg_fresh g" and "sg_fresh g < 2 ^ 62"
proof -
  show "sb_sent (ds_sndbuf d) = sg_fresh g" if d: "sent_inv g d"
  proof -
    have sh: "sb_shape 1 (sg_written g) (ds_sndbuf d)" using d by (simp add: sent_inv_def)
    have "sb_sent (ds_sndbuf d) = length (sg_written g)"
      by (rule sb_sent_eqI [OF sh]) (use d in \<open>auto simp: sent_inv_def painted_for_def\<close>)
    then show ?thesis using d by (simp add: sent_inv_def)
  qed
qed (use assms in \<open>auto simp: open_inv_def sent_inv_def sb_shape_def frames_fit_def\<close>)

lemma cancel_step:
  assumes "sender_inv g a"
  shows "code < 2 ^ 62 \<Longrightarrow> \<exists>a' e'. writer_cancel code a e = Ret (a', e')"
    and "writer_cancel code a e = Ret (a', e') \<Longrightarrow> sender_inv g a'"
proof -
  note fs = final_sizes [OF sender_inv_fit [OF assms]]
  show "\<exists>a' e'. writer_cancel code a e = Ret (a', e')" if "code < 2 ^ 62"
    using assms fs that by (cases "(g, a)" rule: sender_inv.cases) (auto simp: sending_same rd_cancel_def ds_cancel_def reset_with_ok)
  show "sender_inv g a'" if "writer_cancel code a e = Ret (a', e')"
    using assms fs that by (cases "(g, a)" rule: sender_inv.cases)
      (auto simp: sending_same rd_cancel_def ds_cancel_def run_simps dest!: reset_with_size)
qed

lemma stopped_step:
  assumes "sender_inv g a"
  shows "code < 2 ^ 62 \<Longrightarrow> \<forall>s. a \<noteq> Inr (SReady s) \<Longrightarrow> \<exists>n a' e'. be_stopped code a e = Ret (n, a', e')"
    and "be_stopped code a e = Ret (n, a', e') \<Longrightarrow> sender_inv g a' \<and> (n = None \<or> n = Some (sg_fresh g))"
proof -
  note fs = final_sizes [OF sender_inv_fit [OF assms]]
  show "\<exists>n a' e'. be_stopped code a e = Ret (n, a', e')" if "code < 2 ^ 62" "\<forall>s. a \<noteq> Inr (SReady s)"
    using assms fs that by (cases "(g, a)" rule: sender_inv.cases)
      (auto simp: sending_same sd_be_stopped_def ds_be_stopped_def rd_wake_all_def ds_wake_all_def reset_with_ok)
  show "sender_inv g a' \<and> (n = None \<or> n = Some (sg_fresh g))" if "be_stopped code a e = Ret (n, a', e')"
    using assms fs that by (cases "(g, a)" rule: sender_inv.cases)
      (auto simp: sending_same sd_be_stopped_def ds_be_stopped_def rd_wake_all_def ds_wake_all_def run_simps dest!: reset_with_size)
qed

lemma revise_step:
  assumes "sender_inv g a" "limit < 2 ^ 62" "revise_buffer_size limit a e = (a', e')"
  shows "sender_inv (g\<lparr>sg_limit := max (sg_limit g) limit\<rparr>) a'"
proof -
  note fit = sender_inv_fit [OF assms(1)] and lim = fit_limit [OF sender_inv_fit [OF assms(1)] assms(2)]
  show ?thesis
    using assms lim window_open [OF _ assms(2) fit] by (cases "(g, a)" rule: sender_inv.cases)
      (auto simp: sending_same sent_inv_def painted_for_def split: prod.splits)
qed

lemma window_same: "outgoing_update_window limit a e = assert_run (limit \<le> VARINT_MAX) (Ret (revise_buffer_size limit a e))"
  by (cases "(limit, a, e)" rule: revise_buffer_size.cases) (auto simp: outgoing_update_window_def)

lemma load_step:
  assumes "sender_inv g a" and sid: "sid_ok sid" and room: "STREAM_FRAME_MAX_ENCODING_SIZE \<le> origin_len" "origin_len < 2 ^ 62" and tok: "0 < tokens"
  shows "\<exists>r out a'. try_load_data_into k origin_len sid fl tokens a = Ret (r, out, a') \<and> sender_inv (record_load r out g) a'"
proof (cases "(g, a)" rule: sender_inv.cases)
  case (1 g s)
  then have inv: "frames_fit g" "open_inv g (rd_upgrade s)" using assms(1) by (auto simp: rd_upgrade_def open_inv_def)
  obtain r out s' where "sending_load k origin_len sid fl tokens (rd_upgrade s) = Ret (r, out, s')" "sender_inv (record_load r out g) (Inr s')"
    by (rule open_load [OF inv sid room tok])
  then show ?thesis using 1 by auto
next
  case (2 g s)
  then have inv: "frames_fit g" "open_inv g s" using assms(1) by auto
  obtain r out s' where "sending_load k origin_len sid fl tokens s = Ret (r, out, s')" "sender_inv (record_load r out g) (Inr s')"
    by (rule open_load [OF inv sid room tok])
  then show ?thesis using 2 by auto
next
  case (3 g s)
  then have inv: "frames_fit g" "sent_inv g s" using assms(1) by auto
  obtain r out s' where "try_load_data_into k origin_len sid fl tokens (Inr (SDataSent s)) = Ret (r, out, Inr (SDataSent s'))"
      "sender_inv (record_load r out g) (Inr (SDataSent s'))"
    by (rule sent_load [OF inv sid room tok])
  then show ?thesis using 3 by blast
qed (use assms(1) in \<open>auto simp: record_load_def\<close>)

lemma ack_step:
  assumes "sender_inv g a" and fb: "(f, b) \<in> sg_frames g"
  shows "\<exists>complete a' e'. outgoing_on_data_acked f a e = Ret (complete, a', e') \<and> sender_inv (g\<lparr>sg_acked := insert (f, b) (sg_acked g)\<rparr>) a'"
proof -
  let ?g = "g\<lparr>sg_acked := insert (f, b) (sg_acked g)\<rparr>"
  have fit: "frames_fit g" by (rule sender_inv_fit [OF assms(1)])
  have fit': "frames_fit ?g" by (rule fit_acked [OF fit fb])
  show ?thesis
  proof (cases "(g, a)" rule: sender_inv.cases)
    case (1 g' s)
    then show ?thesis using assms by simp
  next
    case (2 g' s)
    then have inv: "open_inv g s" and a: "a = Inr (SSending s)" using assms(1) by auto
    have ne: "b \<noteq> []" using frames_fit_mem [OF fit fb] inv fb by (auto simp: open_inv_def fin_in_def)
    have sh: "sb_shape 0 (sg_written g) (rd_sndbuf s)" and paint: "painted_for g (rd_sndbuf s)" using inv by (auto simp: open_inv_def)
    obtain rng sb' where sb': "sf_range f = Ret rng" "on_data_acked rng (rd_sndbuf s) = Ret sb'" "sb_shape 0 (sg_written g) sb'"
        "painted_for ?g sb'" "sb_sent sb' = sb_sent (rd_sndbuf s)"
      by (rule acked_buf [OF fit sh paint fb]) (use ne in auto)
    then show ?thesis using inv fit' a by (auto simp: sd_on_data_acked_def open_inv_def Let_def)
  next
    case (3 g' s)
    then have inv: "sent_inv g s" and a: "a = Inr (SDataSent s)" using assms(1) by auto
    have sh: "sb_shape 1 (sg_written g) (ds_sndbuf s)" and paint: "painted_for g (ds_sndbuf s)"
      and cov: "{..<length (sg_written g)} \<subseteq> spans (sg_frames g)" using inv by (auto simp: sent_inv_def)
    obtain rng sb' where sb': "sf_range f = Ret rng" "on_data_acked rng (ds_sndbuf s) = Ret sb'" "sb_shape 1 (sg_written g) sb'"
        "painted_for ?g sb'"
      by (rule acked_buf [OF fit sh paint fb]) (use cov in auto)
    define s1 where "s1 = (if sf_is_fin f then s\<lparr>ds_sndbuf := sb', ds_fin_state := FinRcvd\<rparr> else s\<lparr>ds_sndbuf := sb'\<rparr>)"
    have s1: "ds_sndbuf s1 = sb'" "ds_fin_state s1 = FinRcvd \<longleftrightarrow> fin_in (sg_acked ?g)" using inv by (auto simp: s1_def sent_inv_def)
    have rcvd: "is_all_rcvd sb' \<longleftrightarrow> {..<length (sg_written g)} \<subseteq> spans (sg_acked ?g)"
      using all_rcvd_spans [of 1 ?g sb'] sb'(3,4) by simp
    show ?thesis
    proof (cases "ds_is_all_rcvd s1")
      case True
      then have "spans (sg_acked ?g) = {..<length (sg_written g)}" "fin_in (sg_acked ?g)"
        using rcvd s1 frames_fit_spans [OF fit'] spans_sub [of "sg_acked ?g" "sg_frames ?g"] fit' unfolding ds_is_all_rcvd_def frames_fit_def by auto
      moreover have "\<exists>e'. outgoing_on_data_acked f a e = Ret (True, Inr SDataRcvd, e')"
        using True sb'(1,2) a by (auto simp: ds_on_data_acked_def Let_def s1_def ds_is_all_rcvd_def split: if_splits)
      ultimately show ?thesis using fit' by auto
    next
      case False
      then have "outgoing_on_data_acked f a e = Ret (False, Inr (SDataSent s1), e)"
        using sb'(1,2) a by (auto simp: ds_on_data_acked_def Let_def s1_def)
      moreover have "sent_inv ?g s1" using inv sb'(3,4) s1 False by (simp add: sent_inv_def)
      ultimately show ?thesis using fit' by auto
    qed
  next
    case (4 g')
    have "frame_span (f, b) \<subseteq> {..<length (sg_written g)}" using frame_range(2) [OF fit fb] by (auto simp: frame_span_def)
    then show ?thesis using 4 assms fit' by auto
  qed (use assms(1) fit' in auto)
qed

lemma loss_step:
  assumes "sender_inv g a" and fb: "(f, b) \<in> sg_frames g" and start: "b \<noteq> [] \<longrightarrow> into_inner (sf_offset f) \<notin> spans (sg_acked g)"
  shows "\<exists>a' e'. outgoing_may_loss_data f a e = Ret (a', e') \<and> sender_inv g a'"
proof -
  have fit: "frames_fit g" by (rule sender_inv_fit [OF assms(1)])
  show ?thesis
  proof (cases "(g, a)" rule: sender_inv.cases)
    case (1 g' s)
    then show ?thesis using assms by simp
  next
    case (2 g' s)
    then have inv: "open_inv g s" and a: "a = Inr (SSending s)" using assms(1) by auto
    have ne: "b \<noteq> []" using frames_fit_mem [OF fit fb] inv fb by (auto simp: open_inv_def fin_in_def)
    have sh: "sb_shape 0 (sg_written g) (rd_sndbuf s)" and paint: "painted_for g (rd_sndbuf s)" using inv by (auto simp: open_inv_def)
    obtain rng sb' where sb': "sf_range f = Ret rng" "may_loss_data rng (rd_sndbuf s) = Ret sb'" "sb_shape 0 (sg_written g) sb'"
        "painted_for g sb'" "sb_sent sb' = sb_sent (rd_sndbuf s)"
      by (rule lost_buf [OF fit sh paint fb]) (use ne start in auto)
    then show ?thesis using inv fit a by (auto simp: sd_may_loss_data_def open_inv_def Let_def)
  next
    case (3 g' s)
    then have inv: "sent_inv g s" and a: "a = Inr (SDataSent s)" using assms(1) by auto
    have sh: "sb_shape 1 (sg_written g) (ds_sndbuf s)" and paint: "painted_for g (ds_sndbuf s)"
      and cov: "{..<length (sg_written g)} \<subseteq> spans (sg_frames g)" using inv by (auto simp: sent_inv_def)
    obtain rng sb' where sb': "sf_range f = Ret rng" "may_loss_data rng (ds_sndbuf s) = Ret sb'" "sb_shape 1 (sg_written g) sb'"
        "painted_for g sb'"
      by (rule lost_buf [OF fit sh paint fb]) (use cov start in auto)
    have "is_all_rcvd sb' \<longleftrightarrow> is_all_rcvd (ds_sndbuf s)" using all_rcvd_spans [OF sb'(3,4)] all_rcvd_spans [OF sh paint] by simp
    then show ?thesis using inv sb' fit a by (auto simp: ds_may_loss_data_def sent_inv_def ds_is_all_rcvd_def Let_def)
  qed (use assms(1) in auto)
qed

lemma start_inv:
  "window < 2 ^ 62 \<Longrightarrow>
   sender_inv \<lparr>sg_written = [], sg_frames = {}, sg_acked = {}, sg_fresh = 0, sg_limit = window, sg_shut = False\<rparr> (arc_sender_new sid window)"
  using sb_inv_new
  by (simp add: arc_sender_new_def rd_new_def open_inv_def frames_fit_def painted_for_def sb_sent_def sent_def sb_with_capacity_def)

lemma reset_acked_step: "sender_inv g a \<Longrightarrow> on_reset_acked a = Ret a' \<Longrightarrow> sender_inv g a'"
  by (cases a rule: on_reset_acked.cases) auto

lemma error_step:
  assumes "sender_inv g a"
  shows "sender_inv g (fst (outgoing_on_conn_error err a e))"
proof (cases "outgoing_on_conn_error err a e = (a, e)")
  case False
  then have "fst (outgoing_on_conn_error err a e) = Inl err"
    by (cases "(err, a, e)" rule: outgoing_on_conn_error.cases) simp_all
  then show ?thesis using sender_inv_fit [OF assms] by simp
qed (use assms in simp)

text \<open>The bytes that went out are the first \<open>sg_fresh\<close> ones.\<close>

definition counted :: "sender_ghost \<Rightarrow> bool" where
  "counted g \<longleftrightarrow> spans (sg_frames g) = {..<sg_fresh g}"

lemma open_counted: "frames_fit g \<Longrightarrow> open_inv g s \<Longrightarrow> counted g"
proof -
  assume fit: "frames_fit g" and inv: "open_inv g s"
  then have sh: "sb_shape 0 (sg_written g) (rd_sndbuf s)" by (simp add: open_inv_def)
  have fr: "sg_fresh g = sb_sent (rd_sndbuf s)" using inv by (simp add: open_inv_def)
  have "p \<in> spans (sg_frames g) \<longleftrightarrow> p < sg_fresh g" for p
  proof (cases "p < length (sg_written g)")
    case True
    then have "p \<notin> spans (sg_frames g) \<longleftrightarrow> sb_color (rd_sndbuf s) p = color.Pending" using inv by (simp add: open_inv_def painted_for_def)
    then show ?thesis using sb_sent_color(1) [OF sh True] fr by auto
  next
    case False
    then show ?thesis using sb_sent_color(2) [OF sh] frames_fit_spans [OF fit] fr by auto
  qed
  then show "counted g" by (auto simp: counted_def)
qed

lemma sent_counted: "frames_fit g \<Longrightarrow> sent_inv g s \<Longrightarrow> counted g"
  using frames_fit_spans [of g] by (auto simp: counted_def sent_inv_def)

lemma sending_load_state:
  assumes "sending_load k origin_len sid fl tokens s = Ret (r, out, s')"
  shows "(\<exists>x. s' = SSending x) \<or> (\<exists>x. s' = SDataSent x)"
proof (cases "sd_pick_up k (load_predicate origin_len sid tokens) fl s")
  case (Ret x)
  obtain q s1 where "x = (q, s1)" by fastforce
  then show ?thesis using assms Ret by (cases q) (auto simp: sending_load_def run_simps split: if_split_asm)
qed (use assms in \<open>simp add: sending_load_def\<close>)

lemma sent_load_state:
  assumes "try_load_data_into k origin_len sid fl tokens (Inr (SDataSent s)) = Ret (r, out, a')"
  shows "\<exists>x. a' = Inr (SDataSent x)"
proof (cases "ds_pick_up k (load_predicate origin_len sid tokens) fl s")
  case (Ret x)
  obtain q s1 where "x = (q, s1)" by fastforce
  then show ?thesis using assms Ret by (cases q) (auto simp: run_simps)
qed (use assms in simp)

lemma load_counted:
  assumes "counted g" "try_load_data_into k origin_len sid fl tokens a = Ret (r, out, a')" "sender_inv (record_load r out g) a'"
  shows "counted (record_load r out g)"
proof -
  have "out = None \<or> (\<exists>s. a' = Inr (SSending s)) \<or> (\<exists>s. a' = Inr (SDataSent s))"
    using assms(2)
  proof (cases "(k, origin_len, sid, fl, tokens, a)" rule: try_load_data_into.cases)
    case (4 k origin_len sid flow_limit tokens s)
    then show ?thesis using assms(2) sent_load_state by blast
  qed (auto simp: run_simps dest: sending_load_state)
  then show ?thesis using assms(1,3) open_counted sent_counted by (auto simp: record_load_def)
qed

lemma sender_reach_inv:
  assumes "sender_reach sid g a" "sid_ok sid"
  shows "sender_inv g a \<and> counted g"
  using assms(1)
proof induction
  case (sr_start window)
  then show ?case using start_inv by (simp add: counted_def)
next
  case (sr_write g a waker buf e p a' e')
  then show ?case using write_step [of g a waker buf e] by (auto simp: counted_def)
next
  case (sr_flush g a waker q a')
  then show ?case using flush_step [of g a waker] by auto
next
  case (sr_shutdown g a waker e q a' e')
  then show ?case using shutdown_step [of g a waker e] by (auto simp: counted_def)
next
  case (sr_cancel g a code e a' e')
  then show ?case using cancel_step(2) by blast
next
  case (sr_window g a limit e a' e')
  then show ?case using revise_step [of g a limit e] by (auto simp: window_same run_simps counted_def VARINT_MAX_def)
next
  case (sr_revise g a limit e a' e')
  then show ?case using revise_step by (auto simp: counted_def)
next
  case (sr_load g a origin_len tokens k fl r out a')
  then have "sender_inv (record_load r out g) a'" using load_step [OF _ assms(2) sr_load.hyps(2-4), of g a k fl] by auto
  then show ?case using sr_load load_counted by blast
next
  case (sr_ack g a f b e complete a' e')
  then show ?case using ack_step [of g a f b e] by (auto simp: counted_def)
next
  case (sr_loss g a f b e a' e')
  then show ?case using loss_step [of g a f b e] by auto
next
  case (sr_stopped g a code e final_size a' e')
  then show ?case using stopped_step(2) by blast
next
  case (sr_reset_acked g a a')
  then show ?case using reset_acked_step by blast
next
  case (sr_error g a err e a' e')
  then show ?case using error_step [of g a err e] by simp
qed

subsection \<open>What the sending half promises\<close>

text \<open>
  C3: The sending half of a stream never panics. In every history, each call that the protocol allows returns: writing, flushing and shutting down,
  cancelling and stopping with an error code below $2^{62}$ (STOP\_SENDING only once something was sent), a window update to a legal limit, loading a frame
  into a packet with room for the largest frame header, and the report that a frame that was sent is acknowledged or, starting
  at a byte not acknowledged, lost.
\<close>

theorem sender_calls_return:
  assumes "sender_reach sid g a" and "sid_ok sid"
  shows "returns (writer_poll_write waker buf a e) \<and> returns (writer_poll_flush waker a) \<and> returns (writer_poll_shutdown waker a e) \<and>
    (code < 2 ^ 62 \<longrightarrow> returns (writer_cancel code a e) \<and> ((\<forall>s. a \<noteq> Inr (SReady s)) \<longrightarrow> returns (be_stopped code a e))) \<and>
    (limit < 2 ^ 62 \<longrightarrow> returns (outgoing_update_window limit a e)) \<and>
    (STREAM_FRAME_MAX_ENCODING_SIZE \<le> origin_len \<and> origin_len < 2 ^ 62 \<and> 0 < tokens \<longrightarrow>
       returns (try_load_data_into k origin_len sid fl tokens a)) \<and>
    ((f, b) \<in> sg_frames g \<longrightarrow> returns (outgoing_on_data_acked f a e)) \<and>
    ((f, b) \<in> sg_frames g \<and> into_inner (sf_offset f) \<notin> spans (sg_acked g) \<longrightarrow> returns (outgoing_may_loss_data f a e))"
proof -
  have inv: "sender_inv g a" using sender_reach_inv [OF assms] by simp
  have "returns (outgoing_update_window limit a e)" if "limit < 2 ^ 62" using that by (simp add: window_same VARINT_MAX_def)
  moreover have "returns (try_load_data_into k origin_len sid fl tokens a)"
    if "STREAM_FRAME_MAX_ENCODING_SIZE \<le> origin_len \<and> origin_len < 2 ^ 62 \<and> 0 < tokens"
    using load_step [OF inv assms(2), of origin_len tokens k fl] that by (auto simp: returns_def)
  moreover have "returns (writer_poll_write waker buf a e)" using write_step [OF inv, of waker buf e] by (auto simp: returns_def)
  moreover have "returns (writer_poll_flush waker a)" using flush_step [OF inv, of waker] by (auto simp: returns_def)
  moreover have "returns (writer_poll_shutdown waker a e)" using shutdown_step [OF inv, of waker e] by (auto simp: returns_def)
  moreover have "returns (writer_cancel code a e)" if "code < 2 ^ 62" using cancel_step(1) [OF inv that, of e] by (auto simp: returns_def)
  moreover have "returns (be_stopped code a e)" if "code < 2 ^ 62" "\<forall>s. a \<noteq> Inr (SReady s)"
    using stopped_step(1) [OF inv that, of e] by (auto simp: returns_def)
  moreover have "returns (outgoing_on_data_acked f a e)" if "(f, b) \<in> sg_frames g" using ack_step [OF inv that, of e] by (auto simp: returns_def)
  moreover have "returns (outgoing_may_loss_data f a e)" if "(f, b) \<in> sg_frames g" "into_inner (sf_offset f) \<notin> spans (sg_acked g)"
    using loss_step [OF inv that(1), of e] that(2) by (auto simp: returns_def)
  ultimately show ?thesis by simp
qed

text \<open>
  C2: What is sent is what was written. In every history (of the calls of \<open>sender_reach\<close>, with losses reported from a byte not acknowledged yet), every frame ever sent carries the bytes the application wrote at its offset; a frame with the end marker
  ends where the written data end, which the application had shut down before, so nothing is written after it; the data stay within the
  largest limit the peer announced; and the bytes sent are a prefix of the data, as long as the number of bytes that were loaded as fresh, which is what
  connection flow control is charged.
\<close>

theorem sender_sends_written:
  assumes "sender_reach sid g a" and "sid_ok sid"
  shows "(\<forall>(f, b) \<in> sg_frames g. frames_of (sg_written g) f b \<and> within64 f b) \<and> (fin_in (sg_frames g) \<longrightarrow> sg_shut g) \<and>
    length (sg_written g) \<le> sg_limit g \<and> spans (sg_frames g) = {..<sg_fresh g} \<and> sg_fresh g \<le> length (sg_written g)"
  using sender_reach_inv [OF assms] sender_inv_fit [of g a] by (auto simp: frames_fit_def counted_def)

text \<open>
  C4: Success is reported only when the peer has everything, provided that losses are reported only for frames whose first byte is not acknowledged yet. In every such history the state \<open>DataRcvd\<close> is reached only when acknowledged frames cover every byte written and one of them
  carried the end marker; a flush succeeds only when every byte written is acknowledged; a shutdown succeeds only in \<open>DataRcvd\<close>. Without the proviso the first two claims fail: when a retransmission is declared lost after its original was
  acknowledged, \<open>may_loss\<close> starts at an acknowledged byte and counts the bytes after it as acknowledged (theorem \<open>late_ack_then_loss_forgets\<close> of \<open>Send_Buf\<close>).
\<close>

theorem sender_success_means_acked:
  assumes "sender_reach sid g a" and "sid_ok sid"
  shows "(a = Inr SDataRcvd \<longrightarrow> spans (sg_acked g) = {..<length (sg_written g)} \<and> fin_in (sg_acked g)) \<and>
    (\<forall>a'. writer_poll_flush waker a = Ret (Ready (Inr ()), a') \<longrightarrow> {..<length (sg_written g)} \<subseteq> spans (sg_acked g)) \<and>
    (\<forall>a' e'. writer_poll_shutdown waker a e = Ret (Ready (Inr ()), a', e') \<longrightarrow> a = Inr SDataRcvd)"
proof (intro conjI allI impI)
  have inv: "sender_inv g a" using sender_reach_inv [OF assms] by simp
  show "spans (sg_acked g) = {..<length (sg_written g)}" "fin_in (sg_acked g)" if "a = Inr SDataRcvd" using inv that by auto
  show "{..<length (sg_written g)} \<subseteq> spans (sg_acked g)" if "writer_poll_flush waker a = Ret (Ready (Inr ()), a')" for a'
    using inv that all_rcvd_spans [of 0 g] by (cases "(g, a)" rule: sender_inv.cases)
      (auto simp: sending_same rd_poll_flush_def ds_poll_flush_def open_inv_def run_simps split: if_splits)
  show "a = Inr SDataRcvd" if "writer_poll_shutdown waker a e = Ret (Ready (Inr ()), a', e')" for a' e'
    using that by (cases "(waker, a, e)" rule: writer_poll_shutdown.cases)
      (auto simp: sending_same rd_poll_shutdown_def ds_poll_shutdown_def run_simps)
qed

text \<open>
  C6: A reset names the exact final size. In every history, with losses reported from a byte not acknowledged yet, and whether the application cancels or the peer stops the stream, the final size kept for the RESET\_STREAM frame is the number of bytes that
  went out as fresh, so that the peer, which charges the final size to the connection, and the sender, which was charged the fresh bytes, agree.
\<close>

theorem reset_final_size_exact:
  assumes "sender_reach sid g a" and "sid_ok sid"
  shows "(\<forall>r. a = Inr (SResetSent r) \<or> a = Inr (SResetRcvd r) \<longrightarrow>
      rse_final_size r = VarInt (sg_fresh g) \<and> spans (sg_frames g) = {..<sg_fresh g}) \<and>
    (\<forall>n a' e'. be_stopped code a e = Ret (Some n, a', e') \<longrightarrow> n = sg_fresh g)"
  using sender_reach_inv [OF assms] stopped_step(2) [of g a code e] by (auto simp: counted_def)

subsection \<open>A load that offers nothing\<close>

lemma load_predicate_room:
  assumes "sid_ok sid" "STREAM_FRAME_MAX_ENCODING_SIZE \<le> origin_len" "p < 2 ^ 62"
  shows "load_predicate origin_len sid tokens p \<noteq> None"
  using stream_least_le [OF assms(1,3)] assms(2) by (simp add: load_predicate_eq [OF assms(1,3)] STREAM_FRAME_MAX_ENCODING_SIZE_def)

lemma pick_up_idle:
  assumes sh: "sb_shape sl w sb" and P: "predicate_ok P" "\<And>q. q < length w \<Longrightarrow> P q \<noteq> None" and fl: "0 < fl"
    and none: "pick_up k P fl sb = Ret (Inl sg, sb')"
  shows "\<forall>p < length w. sb_color sb p \<in> {Flighting, Recved}"
proof (intro allI impI)
  fix p assume p: "p < length w"
  have "picked_shape sl P fl (sb_state sb) (Inl sg) (sb_state sb')" "bm_end (sb_state sb) = length w"
    using pick_up_correct [OF sh P(1), of k fl] none sh by (auto simp: picked_data_shape_def sb_shape_def written_def)
  then have "sendable fl (sb_color sb p) \<longrightarrow> (\<exists>q \<le> p. P q = None)" using p by (auto simp: picked_shape_def)
  moreover have "P q \<noteq> None" if "q \<le> p" for q using P(2) that p by simp
  ultimately have "\<not> sendable fl (sb_color sb p)" by blast
  then show "sb_color sb p \<in> {Flighting, Recved}" using fl by (cases "sb_color sb p") (auto simp: sendable_def)
qed

lemma rd_upgrade_same: "rd_upgrade s = s"
  by (simp add: rd_upgrade_def)

lemma all_sent:
  assumes sh: "sb_shape sl w sb" and no: "\<forall>p < length w. sb_color sb p \<in> {Flighting, Recved}"
  shows "sb_sent sb = length w"
proof (rule sb_sent_eqI [OF sh order_refl])
  show "sb_color sb p = color.Pending \<longleftrightarrow> length w \<le> p" if "p < length w" for p
  proof -
    have "sb_color sb p \<in> {Flighting, Recved}" using no that by blast
    then show ?thesis using that by (metis color.distinct(1,3) insertE not_less singletonD)
  qed
qed

lemma open_idle:
  assumes inv: "frames_fit g" "open_inv g s" and ok: "sid_ok sid" "STREAM_FRAME_MAX_ENCODING_SIZE \<le> origin_len" "origin_len < 2 ^ 62" "0 < tokens" "0 < fl"
    and load: "sending_load k origin_len sid fl tokens s = Ret (Inl sigs, out, s')"
  shows "\<not> sg_shut g \<and> sg_fresh g = length (sg_written g) \<and> (\<forall>p < length (sg_written g). sb_color (rd_sndbuf s) p \<in> {Flighting, Recved})"
proof -
  let ?P = "load_predicate origin_len sid tokens" and ?w = "sg_written g"
  have sh: "sb_shape 0 ?w (rd_sndbuf s)" and fr: "sg_fresh g = sb_sent (rd_sndbuf s)" and wr: "written (rd_sndbuf s) = length ?w"
    and shut: "rd_shutdown_waker s \<noteq> None \<longleftrightarrow> sg_shut g" using inv(2) by (auto simp: open_inv_def sb_shape_def)
  have P: "?P q \<noteq> None" if "q \<le> length ?w" for q using load_predicate_room [OF ok(1,2)] inv(1) that by (simp add: frames_fit_def)
  note pok = load_predicate_ok [OF ok(4,3)]
  from sh pok [of sid] show ?thesis
  proof (cases rule: pick_up_returns [where k = k and fl = fl])
    case (none sg sb')
    have no: "\<forall>p < length ?w. sb_color (rd_sndbuf s) p \<in> {Flighting, Recved}" using pick_up_idle [OF sh pok _ ok(5) none] P by simp
    moreover have "\<not> sg_shut g"
    proof
      assume "sg_shut g"
      then have "fin_pos s = Some (length ?w)" using shut wr by (simp add: fin_pos_def)
      then have "sd_pick_up k ?P fl s = Ret (Inr (length ?w, False, [], [], True), s\<lparr>rd_sndbuf := sb'\<rparr>)"
        using none all_sent [OF sh no] P [of "length ?w"] by (auto simp: sd_pick_up_def Let_def)
      then show False using load by (auto simp: sending_load_def run_simps)
    qed
    ultimately show ?thesis using all_sent [OF sh no] fr by simp
  next
    case (data start fresh s1 s2 sb')
    then show ?thesis using load by (auto simp: sending_load_def sd_pick_up_def run_simps Let_def)
  qed
qed

lemma sent_idle:
  assumes inv: "frames_fit g" "sent_inv g s" and ok: "sid_ok sid" "STREAM_FRAME_MAX_ENCODING_SIZE \<le> origin_len" "origin_len < 2 ^ 62" "0 < tokens" "0 < fl"
    and load: "ds_pick_up k (load_predicate origin_len sid tokens) fl s = Ret (Inl sigs, s')"
  shows "ds_fin_state s \<noteq> FinLost \<and> (\<forall>p < length (sg_written g). sb_color (ds_sndbuf s) p \<in> {Flighting, Recved})"
proof -
  have sh: "sb_shape 1 (sg_written g) (ds_sndbuf s)" using inv(2) by (simp add: sent_inv_def)
  have P: "load_predicate origin_len sid tokens q \<noteq> None" if "q < length (sg_written g)" for q
    using load_predicate_room [OF ok(1,2)] inv(1) that by (simp add: frames_fit_def)
  note pok = load_predicate_ok [OF ok(4,3)]
  from sh pok [of sid] show ?thesis
  proof (cases rule: pick_up_returns [where k = k and fl = fl])
    case (none sg sb')
    then show ?thesis using pick_up_idle [OF sh pok P ok(5) none] load by (auto simp: ds_pick_up_def run_simps Let_def split: if_split_asm)
  next
    case (data start fresh s1 s2 sb')
    then show ?thesis using load by (auto simp: ds_pick_up_def run_simps Let_def)
  qed
qed

text \<open>
  C5: Nothing that has to be sent is forgotten, provided that losses are reported only for frames whose first byte is not acknowledged yet. When in such a history a load offers nothing although flow control has room, then before the end of the stream is
  sent (states \<open>Ready\<close> and \<open>Sending\<close>) every byte written is in a packet, acknowledged or still in flight, and the application has not shut the stream down; after it (\<open>DataSent\<close>) no byte is judged lost and neither is the end marker. Without the proviso
  bytes judged lost may be forgotten: \<open>may_loss\<close> from an acknowledged byte on counts the bytes after it as acknowledged (theorem \<open>late_ack_then_loss_forgets\<close> of \<open>Send_Buf\<close>).
\<close>

theorem sender_load_complete:
  assumes "sender_reach sid g a" and "sid_ok sid" and "STREAM_FRAME_MAX_ENCODING_SIZE \<le> origin_len" "origin_len < 2 ^ 62" "0 < tokens" "0 < fl"
    and "try_load_data_into k origin_len sid fl tokens a = Ret (Inl sigs, out, a')"
  shows "(\<forall>s. a = Inr (SReady s) \<or> a = Inr (SSending s) \<longrightarrow> \<not> sg_shut g \<and> sg_fresh g = length (sg_written g) \<and>
      (\<forall>p < length (sg_written g). sb_color (rd_sndbuf s) p \<in> {Flighting, Recved})) \<and>
    (\<forall>s. a = Inr (SDataSent s) \<longrightarrow> ds_fin_state s \<noteq> FinLost \<and> (\<forall>p < length (sg_written g). sb_color (ds_sndbuf s) p \<in> {Flighting, Recved}))"
proof (intro conjI allI)
  have inv: "sender_inv g a" using sender_reach_inv [OF assms(1,2)] by simp
  note idle = open_idle [OF sender_inv_fit [OF inv] _ assms(2-6)] sent_idle [OF sender_inv_fit [OF inv] _ assms(2-6)]
  show "a = Inr (SReady s) \<or> a = Inr (SSending s) \<longrightarrow> \<not> sg_shut g \<and> sg_fresh g = length (sg_written g) \<and>
    (\<forall>p < length (sg_written g). sb_color (rd_sndbuf s) p \<in> {Flighting, Recved})" for s
  proof
    assume "a = Inr (SReady s) \<or> a = Inr (SSending s)"
    then have "open_inv g s" "\<exists>s'. sending_load k origin_len sid fl tokens s = Ret (Inl sigs, out, s')"
      using assms(7) inv by (auto simp: rd_upgrade_same run_simps)
    then show "\<not> sg_shut g \<and> sg_fresh g = length (sg_written g) \<and> (\<forall>p < length (sg_written g). sb_color (rd_sndbuf s) p \<in> {Flighting, Recved})"
      using idle(1) by blast
  qed
  show "a = Inr (SDataSent s) \<longrightarrow> ds_fin_state s \<noteq> FinLost \<and> (\<forall>p < length (sg_written g). sb_color (ds_sndbuf s) p \<in> {Flighting, Recved})" for s
  proof
    assume a: "a = Inr (SDataSent s)"
    then have "\<exists>s'. ds_pick_up k (load_predicate origin_len sid tokens) fl s = Ret (Inl sigs, s')"
      using assms(7) by (auto simp: run_simps split: sum.splits) (metis sum.exhaust prod_cases5)
    then show "ds_fin_state s \<noteq> FinLost \<and> (\<forall>p < length (sg_written g). sb_color (ds_sndbuf s) p \<in> {Flighting, Recved})"
      using idle(2) [of s k sigs] inv a by auto
  qed
qed

subsection \<open>STOP\_SENDING before the first load\<close>

text \<open>
  The histories of a stream that no packet has asked for data yet: the application writes, flushes and shuts down, and the peer raises the limit.
\<close>

inductive unloaded :: "stream_id \<Rightarrow> sender_ghost \<Rightarrow> arc_sender \<Rightarrow> bool" for sid where
  un_start: "window < 2 ^ 62 \<Longrightarrow>
    unloaded sid \<lparr>sg_written = [], sg_frames = {}, sg_acked = {}, sg_fresh = 0, sg_limit = window, sg_shut = False\<rparr> (arc_sender_new sid window)"
| un_write: "unloaded sid g a \<Longrightarrow> writer_poll_write waker buf a e = Ret (p, a', e') \<Longrightarrow>
    unloaded sid (g\<lparr>sg_written := sg_written g @ take (accepted p) buf\<rparr>) a'"
| un_flush: "unloaded sid g a \<Longrightarrow> writer_poll_flush waker a = Ret (q, a') \<Longrightarrow> unloaded sid g a'"
| un_shutdown: "unloaded sid g a \<Longrightarrow> writer_poll_shutdown waker a e = Ret (q, a', e') \<Longrightarrow>
    unloaded sid (g\<lparr>sg_shut := sg_shut g \<or> is_open a\<rparr>) a'"
| un_window: "unloaded sid g a \<Longrightarrow> outgoing_update_window limit a e = Ret (a', e') \<Longrightarrow>
    unloaded sid (g\<lparr>sg_limit := max (sg_limit g) limit\<rparr>) a'"
| un_revise: "unloaded sid g a \<Longrightarrow> limit < 2 ^ 62 \<Longrightarrow> revise_buffer_size limit a e = (a', e') \<Longrightarrow>
    unloaded sid (g\<lparr>sg_limit := max (sg_limit g) limit\<rparr>) a'"

lemma unloaded_reach: "unloaded sid g a \<Longrightarrow> sender_reach sid g a"
  by (induction rule: unloaded.induct) (auto intro: sender_reach.intros)

lemma unloaded_ready: "unloaded sid g a \<Longrightarrow> \<exists>s. a = Inr (SReady s)"
  by (induction rule: unloaded.induct)
    (auto simp: arc_sender_new_def outgoing_update_window_def assert_run_def run_simps Let_def split: prod.splits if_splits)

lemma load_leaves_ready:
  "try_load_data_into k origin_len sid fl tokens a = Ret (r, out, a') \<Longrightarrow> a' \<noteq> Inr (SReady s)"
  apply (cases "(k, origin_len, sid, fl, tokens, a)" rule: try_load_data_into.cases)
        apply (auto simp: sending_load_def run_simps Let_def split: sum.splits prod.splits if_splits)
    apply (metis sum.exhaust prod_cases5)+
  done

text \<open>
  C39: STOP\_SENDING for a stream that no packet has asked for data yet panics (\<open>unreachable!\<close>), although the peer may send it as soon as it knows of the stream: whatever the application has
  written, flushed or shut down and however often the limit was raised, \<open>be_stopped\<close> panics for every error code. The first load, even one that finds nothing to send, ends this: after it STOP\_SENDING returns for every legal code.
\<close>

theorem stop_sending_before_first_frame_panics:
  assumes "unloaded sid g a" and "sid_ok sid"
  shows "be_stopped code a e = Panic \<and>
    (STREAM_FRAME_MAX_ENCODING_SIZE \<le> origin_len \<and> origin_len < 2 ^ 62 \<and> 0 < tokens \<and> code < 2 ^ 62 \<longrightarrow>
       (\<exists>r out a'. try_load_data_into k origin_len sid fl tokens a = Ret (r, out, a') \<and> returns (be_stopped code a' e)))"
proof (intro conjI impI)
  show "be_stopped code a e = Panic" using unloaded_ready [OF assms(1)] by auto
  assume room: "STREAM_FRAME_MAX_ENCODING_SIZE \<le> origin_len \<and> origin_len < 2 ^ 62 \<and> 0 < tokens \<and> code < 2 ^ 62"
  have "sender_inv g a" using sender_reach_inv [OF unloaded_reach [OF assms(1)] assms(2)] by simp
  then obtain r out a' where a': "try_load_data_into k origin_len sid fl tokens a = Ret (r, out, a')" "sender_inv (record_load r out g) a'"
    using load_step [OF _ assms(2)] room by blast
  have "returns (be_stopped code a' e)" using stopped_step(1) [OF a'(2), of code e] load_leaves_ready [OF a'(1)] room by (auto simp: returns_def)
  then show "\<exists>r out a'. try_load_data_into k origin_len sid fl tokens a = Ret (r, out, a') \<and> returns (be_stopped code a' e)" using a'(1) by blast
qed

subsection \<open>A sample history\<close>

definition sample_fin :: stream_frame where
  "sample_fin = \<lparr>sf_id = StreamId 0, sf_offset = VarInt 0, sf_length = 3, sf_flag = 3\<rparr>"

definition sample_sent :: sender where
  "sample_sent = SDataSent \<lparr>ds_stream_id = StreamId 0,
     ds_sndbuf = \<lparr>sb_offset = 0, sb_data = [1, 2, 3], sb_state = \<lparr>bm_states = [State 0 Flighting], bm_end = 3\<rparr>\<rparr>,
     ds_flush_waker = None, ds_shutdown_waker = Some 7, ds_fin_state = FinSent\<rparr>"

definition sample_ghost :: sender_ghost where
  "sample_ghost = \<lparr>sg_written = [1, 2, 3], sg_frames = {(sample_fin, [1, 2, 3])}, sg_acked = {}, sg_fresh = 3, sg_limit = 10, sg_shut = True\<rparr>"

lemmas sender_eval = arc_sender_new_def rd_new_def rd_poll_write_def sb_with_capacity_def sb_write_def written_def extend_to_def add64_def
  rd_poll_shutdown_def rd_upgrade_def sending_load_def sd_pick_up_def fin_pos_def sb_sent_def sent_def pick_up_def pick_def pick_split_def
  load_predicate_def sf_estimate_max_capacity_def sid_encoding_size_def varint_of_sid_def from_u64_def encoding_size_def
  VARINT_MAX_def get_def set_color_def insert_at_def sub64_def slice_range_def load_write_def stream_frame_new_def set_eos_flag_def
  set_len_flag_def sf_encoding_strategy_def sf_encoding_size_def sd_upgrade_def Let_def FIN_BIT_def LEN_BIT_def OFF_BIT_def
  STREAM_FRAME_MAX_ENCODING_SIZE_def merge_after_eq

lemma sample_sender_reach: "sender_reach (StreamId 0) sample_ghost (Inr sample_sent)"
proof -
  let ?g = "\<lparr>sg_written = [], sg_frames = {}, sg_acked = {}, sg_fresh = 0, sg_limit = 10, sg_shut = False\<rparr>"
  let ?a = "\<lambda>w. Inr (SReady \<lparr>rd_stream_id = StreamId 0,
     rd_sndbuf = \<lparr>sb_offset = 0, sb_data = [1, 2, 3], sb_state = \<lparr>bm_states = [State 0 color.Pending], bm_end = 3\<rparr>\<rparr>,
     rd_flush_waker = None, rd_shutdown_waker = w, rd_writable_waker = None, rd_max_stream_data = 10\<rparr>)"
  have "writer_poll_write 0 [1, 2, 3] (arc_sender_new (StreamId 0) 10) no_effects = Ret (Ready (Inr 3), ?a None, wake_tx {WRITTEN} no_effects)"
    by (simp add: sender_eval)
  from sr_write [OF sr_start this] have "sender_reach (StreamId 0) (?g\<lparr>sg_written := [1, 2, 3]\<rparr>) (?a None)" by simp
  moreover have "writer_poll_shutdown 7 (?a None) no_effects = Ret (poll.Pending, ?a (Some 7), wake_tx {TRANSPORT} no_effects)"
    by (simp add: sender_eval)
  ultimately have *: "sender_reach (StreamId 0) (?g\<lparr>sg_written := [1, 2, 3], sg_shut := True\<rparr>) (?a (Some 7))"
    using sr_shutdown [of "StreamId 0" "?g\<lparr>sg_written := [1, 2, 3]\<rparr>" "?a None" 7 no_effects] by simp
  have "try_load_data_into 0 100 (StreamId 0) 9 9 (?a (Some 7)) = Ret (Inr (3, True), Some (0, sample_fin, [], [1, 2, 3]), Inr sample_sent)"
    by (simp add: sender_eval sample_fin_def sample_sent_def)
  from sr_load [OF * _ _ _ this] show ?thesis by (simp add: record_load_def sample_ghost_def STREAM_FRAME_MAX_ENCODING_SIZE_def)
qed

theorem sender_calls_return_witness:
  "sender_reach (StreamId 0) sample_ghost (Inr sample_sent) \<and> returns (outgoing_on_data_acked sample_fin (Inr sample_sent) no_effects) \<and>
   returns (outgoing_may_loss_data sample_fin (Inr sample_sent) no_effects) \<and> returns (try_load_data_into 0 50 (StreamId 0) 9 9 (Inr sample_sent))"
  using sender_calls_return [OF sample_sender_reach, of 0 "[]" no_effects 0 0 50 9 0 9 sample_fin "[1, 2, 3]"] sample_sender_reach
  by (simp add: sid_ok_def sample_ghost_def STREAM_FRAME_MAX_ENCODING_SIZE_def)

theorem sender_sends_written_witness:
  "frames_of [1, 2, 3] sample_fin [1, 2, 3] \<and> frame_span (sample_fin, [1, 2, 3]) = {..<3}"
  using sender_sends_written [OF sample_sender_reach] by (simp add: sid_ok_def sample_ghost_def)

lemma sample_acked:
  "sender_reach (StreamId 0) (sample_ghost\<lparr>sg_acked := {(sample_fin, [1, 2, 3])}\<rparr>) (Inr SDataRcvd)"
proof -
  have "\<exists>e. outgoing_on_data_acked sample_fin (Inr sample_sent) no_effects = Ret (True, Inr SDataRcvd, e)"
    by (simp add: sample_sent_def sample_fin_def ds_on_data_acked_def sf_range_def add64_def on_data_acked_def ack_rcvd_def binary_search_def
        lower_bound_def set_color_def ack_scan.simps get_def finish_edit_eq shift_def is_all_rcvd_def ds_is_all_rcvd_def
        sf_is_fin_def FIN_BIT_def Let_def)
  then obtain e where "outgoing_on_data_acked sample_fin (Inr sample_sent) no_effects = Ret (True, Inr SDataRcvd, e)" ..
  from sr_ack [OF sample_sender_reach _ this, of "[1, 2, 3]"] show ?thesis by (simp add: sample_ghost_def)
qed

theorem sender_success_means_acked_witness:
  "sender_reach (StreamId 0) (sample_ghost\<lparr>sg_acked := {(sample_fin, [1, 2, 3])}\<rparr>) (Inr SDataRcvd) \<and>
   frame_span (sample_fin, [1, 2, 3]) = {..<3} \<and> sf_is_fin sample_fin"
  using sender_success_means_acked [OF sample_acked] sample_acked by (simp add: sid_ok_def sample_ghost_def)

theorem reset_final_size_exact_witness:
  "\<exists>a e. be_stopped 5 (Inr sample_sent) no_effects = Ret (Some 3, a, e)"
proof -
  have "\<exists>n a e. be_stopped 5 (Inr sample_sent) no_effects = Ret (Some n, a, e)"
    by (simp add: sample_sent_def ds_be_stopped_def ds_wake_all_def reset_with_def from_u64_def VARINT_MAX_def written_def)
  then show ?thesis using reset_final_size_exact [OF sample_sender_reach, of 5 no_effects] by (auto simp: sid_ok_def sample_ghost_def)
qed

theorem sender_load_complete_witness:
  "\<exists>sigs. try_load_data_into 0 50 (StreamId 0) 9 9 (Inr sample_sent) = Ret (Inl sigs, None, Inr sample_sent) \<and>
     (\<forall>s. sample_sent = SDataSent s \<longrightarrow> ds_fin_state s \<noteq> FinLost)"
proof -
  have *: "\<exists>sigs. try_load_data_into 0 50 (StreamId 0) 9 9 (Inr sample_sent) = Ret (Inl sigs, None, Inr sample_sent)"
    by (simp add: sample_sent_def ds_pick_up_def pick_up_def pick_def Let_def)
  then obtain sigs where s: "try_load_data_into 0 50 (StreamId 0) 9 9 (Inr sample_sent) = Ret (Inl sigs, None, Inr sample_sent)" by blast
  show ?thesis
    using sender_load_complete [OF sample_sender_reach _ _ _ _ _ s] * by (simp add: sid_ok_def STREAM_FRAME_MAX_ENCODING_SIZE_def)
qed

theorem stop_sending_before_first_frame_panics_witness:
  "\<exists>a r out a'. unloaded (StreamId 0) \<lparr>sg_written = [1, 2, 3], sg_frames = {}, sg_acked = {}, sg_fresh = 0, sg_limit = 10, sg_shut = False\<rparr> a \<and>
     be_stopped 0 a no_effects = Panic \<and> try_load_data_into 0 50 (StreamId 0) 9 9 a = Ret (r, out, a') \<and> returns (be_stopped 0 a' no_effects)"
proof -
  let ?g = "\<lparr>sg_written = [], sg_frames = {}, sg_acked = {}, sg_fresh = 0, sg_limit = 10, sg_shut = False\<rparr>"
  obtain a e where "writer_poll_write 0 [1, 2, 3] (arc_sender_new (StreamId 0) 10) no_effects = Ret (Ready (Inr 3), a, e)" by (auto simp: sender_eval)
  then have u: "unloaded (StreamId 0) (?g\<lparr>sg_written := [1, 2, 3]\<rparr>) a" using un_write [OF un_start [of 10 "StreamId 0"]] by fastforce
  from stop_sending_before_first_frame_panics [OF u, of 0 no_effects 50 9 0 9] u show ?thesis
    by (auto simp: sid_ok_def STREAM_FRAME_MAX_ENCODING_SIZE_def)
qed

end
