(* ===== verification/Recver.thy ===== *)
theory Recver
  imports Rcv_Buf Stream_Io
begin

section \<open>The receiving state machine: qrecovery/src/recv/recver.rs, incoming.rs, reader.rs\<close>

text \<open>
  The receiving half of a stream moves from \<open>Recv\<close> over \<open>SizeKnown\<close> to \<open>DataRcvd\<close> and \<open>DataRead\<close>, or
  through \<open>ResetRcvd\<close> to \<open>ResetRead\<close>. The protocol side feeds it frames (\<open>Incoming\<close>), the application reads
  from it (\<open>Reader\<close>). Both share it behind a mutex, so every call is one step. The loop
  of \<open>RecvBuf::recv\<close> always returns (\<open>Rcv_Buf.recv_ok\<close>), so \<open>expect\<close> below never panics on a buffer in its invariant.
\<close>

subsection \<open>Recv\<close>

record recv =
  rv_stream_id :: stream_id
  rv_rcvbuf :: recv_buf
  rv_read_waker :: "nat option"
  rv_stop_state :: "nat option"
  rv_largest :: nat
  rv_max_stream_data :: nat

record size_known =
  sk_stream_id :: stream_id
  sk_rcvbuf :: recv_buf
  sk_read_waker :: "nat option"
  sk_stop_state :: "nat option"
  sk_final_size :: nat

record data_rcvd =
  dr_stream_id :: stream_id
  dr_rcvbuf :: recv_buf

definition rv_new :: "stream_id \<Rightarrow> nat \<Rightarrow> recv" where
  "rv_new sid buf_size = \<lparr>rv_stream_id = sid, rv_rcvbuf = rb_default, rv_read_waker = None, rv_stop_state = None,
     rv_largest = 0, rv_max_stream_data = buf_size\<rparr>"

definition READ_THRESHOLD :: nat where "READ_THRESHOLD = 1000000"

definition rv_poll_read :: "nat \<Rightarrow> nat \<Rightarrow> recv \<Rightarrow> stream_effects \<Rightarrow> (byte list poll \<times> recv \<times> stream_effects) run" where
  "rv_poll_read waker room r e =
     (if rb_is_readable (rv_rcvbuf r)
      then let (b, bytes) = try_read (rv_rcvbuf r) room; r = r\<lparr>rv_rcvbuf := b\<rparr>
           in bind_run (add64 (rb_nread b) READ_THRESHOLD) (\<lambda>near.
              if rv_max_stream_data r < near
              then bind_run (add64 (rb_nread b) (READ_THRESHOLD * 2)) (\<lambda>far.
                   let max_stream_data = min far VARINT_MAX
                   in if rv_max_stream_data r < max_stream_data
                      then bind_run (unwrap_result (from_u64 max_stream_data)) (\<lambda>v.
                           Ret (Ready bytes, r\<lparr>rv_max_stream_data := max_stream_data\<rparr>,
                                send_ctl (CtlMaxStreamData (MaxStreamDataFrame (rv_stream_id r) v)) e))
                      else Ret (Ready bytes, r, e))
              else Ret (Ready bytes, r, e))
      else Ret (Pending, r\<lparr>rv_read_waker := Some waker\<rparr>, e))"

definition rv_stop :: "nat \<Rightarrow> recv \<Rightarrow> stream_effects \<Rightarrow> (recv \<times> stream_effects) run" where
  "rv_stop err_code r e =
     (if rv_stop_state r = None
      then bind_run (unwrap_result (from_u64 err_code)) (\<lambda>v.
           Ret (r\<lparr>rv_stop_state := Some err_code\<rparr>, send_ctl (CtlStopSending (StopSendingFrame (rv_stream_id r) v)) e))
      else Ret (r, e))"

text \<open>\<open>determin_size\<close> takes the buffer, the waker and the stop state out of the old state.\<close>

definition determin_size ::
    "stream_frame \<Rightarrow> recv \<Rightarrow> stream_effects \<Rightarrow> ((quic_error + size_known) \<times> recv \<times> stream_effects) run" where
  "determin_size f r e =
     (let e = wake_waker (rv_read_waker r) e; r = r\<lparr>rv_read_waker := None\<rparr>
      in bind_run (add64 (into_inner (sf_offset f)) (sf_length f)) (\<lambda>final_size.
         if final_size < rb_largest_offset (rv_rcvbuf r)
         then Ret (Inl (QuicError FinalSize (ErrV1 (get_frame_type (FrStream f [])))), r, e)
         else Ret (Inr \<lparr>sk_stream_id = rv_stream_id r, sk_rcvbuf = rv_rcvbuf r, sk_read_waker = rv_read_waker r,
                        sk_stop_state = rv_stop_state r, sk_final_size = final_size\<rparr>,
                   r\<lparr>rv_rcvbuf := rb_default, rv_stop_state := None\<rparr>, e)))"

definition rv_recv ::
    "stream_frame \<Rightarrow> byte list \<Rightarrow> recv \<Rightarrow> stream_effects \<Rightarrow> ((quic_error + nat) \<times> recv \<times> stream_effects) run" where
  "rv_recv f body r e =
     bind_run (add64 (into_inner (sf_offset f)) (length body)) (\<lambda>data_end.
     if rv_max_stream_data r < data_end
     then Ret (Inl (QuicError FlowControl (ErrV1 (get_frame_type (FrStream f [])))), r, e)
     else bind_run (expect (rb_recv (rv_rcvbuf r) (into_inner (sf_offset f)) body)) (\<lambda>(b, fresh).
          let r = r\<lparr>rv_rcvbuf := b\<rparr>;
              r = (if rv_largest r < data_end then r\<lparr>rv_largest := data_end\<rparr> else r)
          in if rb_is_readable b
             then Ret (Inr fresh, r\<lparr>rv_read_waker := None\<rparr>, wake_waker (rv_read_waker r) e)
             else Ret (Inr fresh, r, e)))"

definition rv_wake_reader :: "recv \<Rightarrow> stream_effects \<Rightarrow> recv \<times> stream_effects" where
  "rv_wake_reader r e = (r\<lparr>rv_read_waker := None\<rparr>, wake_waker (rv_read_waker r) e)"

definition rv_recv_reset ::
    "reset_stream_frame \<Rightarrow> recv \<Rightarrow> stream_effects \<Rightarrow> (quic_error + nat) \<times> recv \<times> stream_effects" where
  "rv_recv_reset f r e =
     (let final_size = into_inner (rs_final_size f)
      in if final_size < rv_largest r then (Inl (QuicError FinalSize (ErrV1 ResetStream)), r, e)
         else let (r, e) = rv_wake_reader r e in (Inr (final_size - rv_largest r), r, e))"

subsection \<open>SizeKnown\<close>

definition sk_recv ::
    "stream_frame \<Rightarrow> byte list \<Rightarrow> size_known \<Rightarrow> stream_effects \<Rightarrow> ((quic_error + nat) \<times> size_known \<times> stream_effects) run" where
  "sk_recv f data s e =
     bind_run (add64 (into_inner (sf_offset f)) (length data)) (\<lambda>data_end.
     if sk_final_size s < data_end
     then Ret (Inl (QuicError FinalSize (ErrV1 (get_frame_type (FrStream f [])))), s, e)
     else if sf_is_fin f \<and> data_end \<noteq> sk_final_size s
     then Ret (Inl (QuicError FinalSize (ErrV1 (get_frame_type (FrStream f [])))), s, e)
     else bind_run (expect (rb_recv (sk_rcvbuf s) (into_inner (sf_offset f)) data)) (\<lambda>(b, fresh).
          let s = s\<lparr>sk_rcvbuf := b\<rparr>
          in if rb_is_readable b
             then Ret (Inr fresh, s\<lparr>sk_read_waker := None\<rparr>, wake_waker (sk_read_waker s) e)
             else Ret (Inr fresh, s, e)))"

definition sk_is_all_rcvd :: "size_known \<Rightarrow> bool" where
  "sk_is_all_rcvd s \<longleftrightarrow> rb_nread (sk_rcvbuf s) + rb_available (sk_rcvbuf s) = sk_final_size s"

definition sk_poll_read :: "nat \<Rightarrow> nat \<Rightarrow> size_known \<Rightarrow> byte list poll \<times> size_known" where
  "sk_poll_read waker room s =
     (if rb_is_readable (sk_rcvbuf s)
      then let (b, bytes) = try_read (sk_rcvbuf s) room in (Ready bytes, s\<lparr>sk_rcvbuf := b\<rparr>)
      else (Pending, s\<lparr>sk_read_waker := Some waker\<rparr>))"

definition sk_wake_reader :: "size_known \<Rightarrow> stream_effects \<Rightarrow> size_known \<times> stream_effects" where
  "sk_wake_reader s e = (s\<lparr>sk_read_waker := None\<rparr>, wake_waker (sk_read_waker s) e)"

definition sk_recv_reset ::
    "reset_stream_frame \<Rightarrow> size_known \<Rightarrow> stream_effects \<Rightarrow> (quic_error + unit) \<times> size_known \<times> stream_effects" where
  "sk_recv_reset f s e =
     (if into_inner (rs_final_size f) \<noteq> sk_final_size s
      then (Inl (QuicError FinalSize (ErrV1 ResetStream)), s, e)
      else let (s, e) = sk_wake_reader s e in (Inr (), s, e))"

definition sk_upgrade :: "size_known \<Rightarrow> stream_effects \<Rightarrow> data_rcvd \<times> stream_effects" where
  "sk_upgrade s e =
     (let (s, e) = sk_wake_reader s e in (\<lparr>dr_stream_id = sk_stream_id s, dr_rcvbuf = sk_rcvbuf s\<rparr>, e))"

definition sk_stop :: "nat \<Rightarrow> size_known \<Rightarrow> stream_effects \<Rightarrow> (size_known \<times> stream_effects) run" where
  "sk_stop err_code s e =
     (if sk_stop_state s = None
      then bind_run (unwrap_result (from_u64 err_code)) (\<lambda>v.
           Ret (s\<lparr>sk_stop_state := Some err_code\<rparr>, send_ctl (CtlStopSending (StopSendingFrame (sk_stream_id s) v)) e))
      else Ret (s, e))"

subsection \<open>DataRcvd and the whole machine\<close>

definition dr_poll_read :: "nat \<Rightarrow> data_rcvd \<Rightarrow> byte list \<times> data_rcvd" where
  "dr_poll_read room d = (let (b, bytes) = try_read (dr_rcvbuf d) room in (bytes, d\<lparr>dr_rcvbuf := b\<rparr>))"

definition dr_is_all_read :: "data_rcvd \<Rightarrow> bool" where
  "dr_is_all_read d \<longleftrightarrow> rb_is_empty (dr_rcvbuf d)"

datatype recver =
    Recv recv
  | SizeKnown size_known
  | DataRcvd data_rcvd
  | ResetRcvd reset_stream_frame
  | DataRead
  | ResetRead reset_stream_error

type_synonym arc_recver = "conn_error + recver"

definition arc_recver_new :: "stream_id \<Rightarrow> nat \<Rightarrow> arc_recver" where
  "arc_recver_new sid buf_size = Inr (Recv (rv_new sid buf_size))"

definition recv_data ::
    "stream_frame \<Rightarrow> byte list \<Rightarrow> arc_recver \<Rightarrow> stream_effects \<Rightarrow>
     ((quic_error + bool \<times> nat) \<times> arc_recver \<times> stream_effects) run" where
  "recv_data f body a e =
     (case a of
        Inr (Recv r) \<Rightarrow>
          if sf_is_fin f
          then bind_run (determin_size f r e) (\<lambda>(res, r, e).
               case res of
                 Inl err \<Rightarrow> Ret (Inl err, Inr (Recv r), e)
               | Inr s \<Rightarrow>
                   bind_run (sk_recv f body s e) (\<lambda>(res, s, e).
                   case res of
                     Inl err \<Rightarrow> Ret (Inl err, Inr (Recv r), e)
                   | Inr fresh \<Rightarrow>
                       if sk_is_all_rcvd s
                       then let (d, e) = sk_upgrade s e in Ret (Inr (True, fresh), Inr (DataRcvd d), e)
                       else Ret (Inr (False, fresh), Inr (SizeKnown s), e)))
          else bind_run (rv_recv f body r e) (\<lambda>(res, r, e).
               case res of
                 Inl err \<Rightarrow> Ret (Inl err, Inr (Recv r), e)
               | Inr fresh \<Rightarrow> Ret (Inr (False, fresh), Inr (Recv r), e))
      | Inr (SizeKnown s) \<Rightarrow>
          bind_run (sk_recv f body s e) (\<lambda>(res, s, e).
          case res of
            Inl err \<Rightarrow> Ret (Inl err, Inr (SizeKnown s), e)
          | Inr fresh \<Rightarrow>
              if sk_is_all_rcvd s
              then let (d, e) = sk_upgrade s e in Ret (Inr (True, fresh), Inr (DataRcvd d), e)
              else Ret (Inr (False, fresh), Inr (SizeKnown s), e))
      | _ \<Rightarrow> Ret (Inr (False, 0), a, e))"

definition recv_reset ::
    "reset_stream_frame \<Rightarrow> arc_recver \<Rightarrow> stream_effects \<Rightarrow> ((quic_error + nat) \<times> arc_recver \<times> stream_effects) run" where
  "recv_reset f a e =
     (case a of
        Inl err \<Rightarrow> Ret (Inr 0, a, e)
      | Inr (Recv r) \<Rightarrow>
          (case rv_recv_reset f r e of
             (Inl err, r, e) \<Rightarrow> Ret (Inl err, Inr (Recv r), e)
           | (Inr fresh, r, e) \<Rightarrow> Ret (Inr fresh, Inr (ResetRcvd f), e))
      | Inr (SizeKnown s) \<Rightarrow>
          (case sk_recv_reset f s e of
             (Inl err, s, e) \<Rightarrow> Ret (Inl err, Inr (SizeKnown s), e)
           | (Inr _, s, e) \<Rightarrow> Ret (Inr 0, Inr (ResetRcvd f), e))
      | _ \<Rightarrow> Panic)"

definition incoming_on_conn_error :: "conn_error \<Rightarrow> arc_recver \<Rightarrow> stream_effects \<Rightarrow> arc_recver \<times> stream_effects" where
  "incoming_on_conn_error err a e =
     (case a of
        Inr (Recv r) \<Rightarrow> (Inl err, snd (rv_wake_reader r e))
      | Inr (SizeKnown s) \<Rightarrow> (Inl err, snd (sk_wake_reader s e))
      | _ \<Rightarrow> (a, e))"

definition reader_stop :: "nat \<Rightarrow> arc_recver \<Rightarrow> stream_effects \<Rightarrow> (arc_recver \<times> stream_effects) run" where
  "reader_stop error_code a e =
     assert_run (error_code \<le> VARINT_MAX)
       (case a of
          Inr (Recv r) \<Rightarrow> bind_run (rv_stop error_code r e) (\<lambda>(r, e). Ret (Inr (Recv r), e))
        | Inr (SizeKnown s) \<Rightarrow> bind_run (sk_stop error_code s e) (\<lambda>(s, e). Ret (Inr (SizeKnown s), e))
        | _ \<Rightarrow> Ret (a, e))"

definition reader_poll_read ::
    "nat \<Rightarrow> nat \<Rightarrow> arc_recver \<Rightarrow> stream_effects \<Rightarrow> ((io_error + byte list) poll \<times> arc_recver \<times> stream_effects) run" where
  "reader_poll_read waker room a e =
     (case a of
        Inl err \<Rightarrow> Ret (Ready (Inl (IoConn err)), a, e)
      | Inr (Recv r) \<Rightarrow>
          bind_run (rv_poll_read waker room r e) (\<lambda>(p, r, e).
            Ret (case p of Ready bytes \<Rightarrow> Ready (Inr bytes) | Pending \<Rightarrow> Pending, Inr (Recv r), e))
      | Inr (SizeKnown s) \<Rightarrow>
          (let (p, s) = sk_poll_read waker room s
           in Ret (case p of Ready bytes \<Rightarrow> Ready (Inr bytes) | Pending \<Rightarrow> Pending, Inr (SizeKnown s), e))
      | Inr (DataRcvd d) \<Rightarrow>
          (let (bytes, d) = dr_poll_read room d
           in Ret (Ready (Inr bytes), Inr (if dr_is_all_read d then DataRead else DataRcvd d), e))
      | Inr DataRead \<Rightarrow> Ret (Ready (Inr []), a, e)
      | Inr (ResetRcvd f) \<Rightarrow>
          Ret (Ready (Inl (BrokenPipe (reset_stream_error_of f))), Inr (ResetRead (reset_stream_error_of f)), e)
      | Inr (ResetRead err) \<Rightarrow> Ret (Ready (Inl (BrokenPipe err)), a, e))"


subsection \<open>What each call does to the buffer\<close>

lemma recv_data_simps [simp]:
  "recv_data f body (Inl err) e = Ret (Inr (False, 0), Inl err, e)"
  "recv_data f body (Inr (DataRcvd d)) e = Ret (Inr (False, 0), Inr (DataRcvd d), e)"
  "recv_data f body (Inr DataRead) e = Ret (Inr (False, 0), Inr DataRead, e)"
  "recv_data f body (Inr (ResetRcvd g)) e = Ret (Inr (False, 0), Inr (ResetRcvd g), e)"
  "recv_data f body (Inr (ResetRead err')) e = Ret (Inr (False, 0), Inr (ResetRead err'), e)"
  by (simp_all add: recv_data_def)

text \<open>A waiting reader means that there is nothing to read.\<close>

definition waker_ok :: "recv_buf \<Rightarrow> nat option \<Rightarrow> bool" where
  "waker_ok b w \<longleftrightarrow> (rb_is_readable b \<longrightarrow> w = None)"

lemma waker_ok_None [simp]: "waker_ok b None"
  by (simp add: waker_ok_def)

text \<open>The two outcomes of receiving in the first two states, as equations.\<close>

lemma rv_recv_ok:
  assumes "rb_inv (rv_rcvbuf r)" "within64 f body" "into_inner (sf_offset f) + length body \<le> rv_max_stream_data r"
  obtains b fresh r' e' where "rb_recv (rv_rcvbuf r) (into_inner (sf_offset f)) body = Some (b, fresh)"
    and "rv_recv f body r e = Ret (Inr fresh, r', e')" and "rv_rcvbuf r' = b" "rv_max_stream_data r' = rv_max_stream_data r"
    and "rv_largest r' = max (rv_largest r) (into_inner (sf_offset f) + length body)"
    and "waker_ok (rv_rcvbuf r) (rv_read_waker r) \<Longrightarrow> waker_ok b (rv_read_waker r')"
proof -
  obtain b fresh where b: "rb_recv (rv_rcvbuf r) (into_inner (sf_offset f)) body = Some (b, fresh)"
    using recv_ok [OF assms(1)] by blast
  show thesis
    by (rule that [OF b, of "(if rb_is_readable b then
          r\<lparr>rv_rcvbuf := b, rv_largest := max (rv_largest r) (into_inner (sf_offset f) + length body), rv_read_waker := None\<rparr>
          else r\<lparr>rv_rcvbuf := b, rv_largest := max (rv_largest r) (into_inner (sf_offset f) + length body)\<rparr>)"
          "if rb_is_readable b then wake_waker (rv_read_waker r) e else e"])
      (use b assms in \<open>auto simp: rv_recv_def add64_def within64_def Let_def waker_ok_def max_def\<close>)
qed

lemma rv_recv_refused:
  assumes "within64 f body" "\<not> into_inner (sf_offset f) + length body \<le> rv_max_stream_data r"
  shows "rv_recv f body r e = Ret (Inl (QuicError FlowControl (ErrV1 (Stream (sf_flag f)))), r, e)"
  using assms by (simp add: rv_recv_def add64_def within64_def)

definition sk_accepts :: "stream_frame \<Rightarrow> byte list \<Rightarrow> nat \<Rightarrow> bool" where
  "sk_accepts f body final_size \<longleftrightarrow>
     (let data_end = into_inner (sf_offset f) + length body
      in if sf_is_fin f then data_end = final_size else data_end \<le> final_size)"

lemma sk_recv_ok:
  assumes "rb_inv (sk_rcvbuf s)" "within64 f body" "sk_accepts f body (sk_final_size s)"
  obtains b fresh s' e' where "rb_recv (sk_rcvbuf s) (into_inner (sf_offset f)) body = Some (b, fresh)"
    and "sk_recv f body s e = Ret (Inr fresh, s', e')" and "sk_rcvbuf s' = b" "sk_final_size s' = sk_final_size s"
    and "waker_ok (sk_rcvbuf s) (sk_read_waker s) \<Longrightarrow> waker_ok b (sk_read_waker s')"
proof -
  obtain b fresh where b: "rb_recv (sk_rcvbuf s) (into_inner (sf_offset f)) body = Some (b, fresh)"
    using recv_ok [OF assms(1)] by blast
  show thesis
    by (rule that [OF b, of "if rb_is_readable b then s\<lparr>sk_rcvbuf := b, sk_read_waker := None\<rparr> else s\<lparr>sk_rcvbuf := b\<rparr>"
          "if rb_is_readable b then wake_waker (sk_read_waker s) e else e"])
      (use b assms in \<open>auto simp: sk_recv_def add64_def within64_def sk_accepts_def Let_def waker_ok_def split: if_splits\<close>)
qed

lemma sk_recv_refused:
  assumes "within64 f body" "\<not> sk_accepts f body (sk_final_size s)"
  shows "sk_recv f body s e = Ret (Inl (QuicError FinalSize (ErrV1 (Stream (sf_flag f)))), s, e)"
  using assms by (auto simp: sk_recv_def add64_def within64_def sk_accepts_def Let_def split: if_splits)


subsection \<open>The invariant of the machine\<close>

fun rcvr_buf :: "arc_recver \<Rightarrow> recv_buf option" where
  "rcvr_buf (Inr (Recv r)) = Some (rv_rcvbuf r)"
| "rcvr_buf (Inr (SizeKnown s)) = Some (sk_rcvbuf s)"
| "rcvr_buf (Inr (DataRcvd d)) = Some (dr_rcvbuf d)"
| "rcvr_buf _ = None"

fun rcvr_shape :: "arc_recver \<Rightarrow> bool" where
  "rcvr_shape (Inr (Recv r)) \<longleftrightarrow> rb_inv (rv_rcvbuf r) \<and> waker_ok (rv_rcvbuf r) (rv_read_waker r) \<and>
     rb_largest_offset (rv_rcvbuf r) \<le> rv_largest r \<and> rv_largest r \<le> rv_max_stream_data r \<and> rv_max_stream_data r < 2 ^ 62"
| "rcvr_shape (Inr (SizeKnown s)) \<longleftrightarrow> rb_inv (sk_rcvbuf s) \<and> waker_ok (sk_rcvbuf s) (sk_read_waker s) \<and>
     rb_largest_offset (sk_rcvbuf s) \<le> sk_final_size s \<and> sk_final_size s < 2 ^ 62 \<and> \<not> sk_is_all_rcvd s"
| "rcvr_shape (Inr (DataRcvd d)) \<longleftrightarrow> rb_inv (dr_rcvbuf d) \<and> rb_largest_offset (dr_rcvbuf d) < 2 ^ 62 \<and>
     rb_nread (dr_rcvbuf d) + rb_available (dr_rcvbuf d) = rb_largest_offset (dr_rcvbuf d)"
| "rcvr_shape _ \<longleftrightarrow> True"

fun rcvr_live :: "arc_recver \<Rightarrow> bool" where
  "rcvr_live (Inr (Recv r)) = True"
| "rcvr_live (Inr (SizeKnown s)) = True"
| "rcvr_live _ = False"

text \<open>Which frames a state accepts, and the size it then has if the size is known.\<close>

fun rcvr_accepts :: "stream_frame \<Rightarrow> byte list \<Rightarrow> arc_recver \<Rightarrow> bool" where
  "rcvr_accepts f body (Inr (Recv r)) \<longleftrightarrow>
     (if sf_is_fin f then rb_largest_offset (rv_rcvbuf r) \<le> into_inner (sf_offset f) + length body
      else into_inner (sf_offset f) + length body \<le> rv_max_stream_data r)"
| "rcvr_accepts f body (Inr (SizeKnown s)) \<longleftrightarrow> sk_accepts f body (sk_final_size s)"
| "rcvr_accepts f body _ \<longleftrightarrow> True"

fun rcvr_size :: "stream_frame \<Rightarrow> byte list \<Rightarrow> arc_recver \<Rightarrow> nat" where
  "rcvr_size f body (Inr (SizeKnown s)) = sk_final_size s"
| "rcvr_size f body _ = into_inner (sf_offset f) + length body"

definition rcvr_received :: "stream_frame \<Rightarrow> byte list \<Rightarrow> arc_recver \<Rightarrow> arc_recver \<Rightarrow> bool" where
  "rcvr_received f body a a' \<longleftrightarrow>
     (case a' of
        Inr (Recv r') \<Rightarrow> (\<exists>r. a = Inr (Recv r) \<and> \<not> sf_is_fin f \<and> rv_max_stream_data r' = rv_max_stream_data r)
      | Inr (SizeKnown s') \<Rightarrow> (sf_is_fin f \<or> (\<exists>s. a = Inr (SizeKnown s))) \<and> sk_final_size s' = rcvr_size f body a
      | Inr (DataRcvd d) \<Rightarrow> (sf_is_fin f \<or> (\<exists>s. a = Inr (SizeKnown s))) \<and>
          rb_nread (dr_rcvbuf d) + rb_available (dr_rcvbuf d) = rcvr_size f body a
      | _ \<Rightarrow> False)"

lemma recv_inv: "rb_inv b \<Longrightarrow> rb_recv b off body = Some (b', k) \<Longrightarrow> rb_inv b'"
  using recv_ok [of b off body] by auto

lemma recv_largest_le:
  assumes "rb_inv b" "rb_recv b off body = Some (b', k)"
  shows "rb_largest_offset b' \<le> max (rb_largest_offset b) (off + length body)"
  using recv_largest [OF assms] recv_ok [OF assms(1), of off body] assms(2) by auto

lemma available_le_largest:
  assumes "rb_inv b"
  shows "rb_nread b + rb_available b \<le> rb_largest_offset b"
proof (rule ccontr)
  assume a: "\<not> ?thesis"
  let ?e = "rb_nread b + rb_available b - 1"
  have ok: "segs_ok (rb_nread b) (rb_segments b)" using assms by (simp add: rb_inv_def)
  have "rb_nread b + rb_available b = continuous_end (rb_nread b) (rb_segments b)"
    using continuous_end_spec(1) [OF ok] by (simp add: available_eq)
  moreover have "rb_nread b \<le> ?e" using a rb_nread_le_largest [OF assms] by simp
  ultimately have "content (rb_segments b) ?e \<noteq> None" using a continuous_end_spec(2) [OF ok, of ?e] by simp
  then obtain s where "s \<in> set (rb_segments b)" "seg_at s ?e \<noteq> None" using content_None [of "rb_segments b" ?e] by metis
  then have "?e < rb_largest_offset b" using seg_end_le_largest [OF assms, of s] by (auto simp: seg_at_def split: if_splits)
  then show False using a by simp
qed

text \<open>What the machine does in \<open>SizeKnown\<close>, shared by the two ways to get there.\<close>

lemma size_known_step:
  assumes "rb_inv (sk_rcvbuf s)" "waker_ok (sk_rcvbuf s) (sk_read_waker s)" "rb_largest_offset (sk_rcvbuf s) \<le> sk_final_size s"
    and "sk_final_size s < 2 ^ 62" "within64 f body" "sk_accepts f body (sk_final_size s)"
  obtains b fresh s' e' where "rb_recv (sk_rcvbuf s) (into_inner (sf_offset f)) body = Some (b, fresh)"
    and "sk_recv f body s e = Ret (Inr fresh, s', e')" "sk_rcvbuf s' = b" "sk_final_size s' = sk_final_size s"
    and "\<not> sk_is_all_rcvd s' \<longrightarrow> rcvr_shape (Inr (SizeKnown s'))"
    and "sk_is_all_rcvd s' \<longrightarrow> rcvr_shape (Inr (DataRcvd (fst (sk_upgrade s' e')))) \<and> dr_rcvbuf (fst (sk_upgrade s' e')) = b"
proof -
  obtain b fresh s' e' where r: "rb_recv (sk_rcvbuf s) (into_inner (sf_offset f)) body = Some (b, fresh)"
    "sk_recv f body s e = Ret (Inr fresh, s', e')" "sk_rcvbuf s' = b" "sk_final_size s' = sk_final_size s"
    "waker_ok b (sk_read_waker s')"
    using sk_recv_ok [OF assms(1,5,6)] assms(2) by metis
  have inv: "rb_inv b" by (rule recv_inv [OF assms(1) r(1)])
  have "into_inner (sf_offset f) + length body \<le> sk_final_size s" using assms(6) by (auto simp: sk_accepts_def Let_def split: if_splits)
  then have le: "rb_largest_offset b \<le> sk_final_size s" using recv_largest_le [OF assms(1) r(1)] assms(3) by linarith
  have up: "dr_rcvbuf (fst (sk_upgrade s' e')) = b"
    using r(3) by (simp add: sk_upgrade_def sk_wake_reader_def Let_def)
  show thesis
    by (rule that [OF r(1-4)])
      (use inv le r assms(4) up available_le_largest [OF inv] in \<open>auto simp: sk_is_all_rcvd_def\<close>)
qed

lemma recv_data_ok:
  assumes shape: "rcvr_shape a" and live: "rcvr_live a" and w: "within64 f body" and acc: "rcvr_accepts f body a"
  obtains b b' fresh a' e' where "rcvr_buf a = Some b" "rb_recv b (into_inner (sf_offset f)) body = Some (b', fresh)"
    and "recv_data f body a e = Ret (Inr (\<not> rcvr_live a', fresh), a', e')" "rcvr_buf a' = Some b'" "rcvr_shape a'"
    and "rcvr_received f body a a'"
proof (cases a rule: rcvr_live.cases)
  case (1 r)
  show thesis
  proof (cases "sf_is_fin f")
    case True
    let ?s = "\<lparr>sk_stream_id = rv_stream_id r, sk_rcvbuf = rv_rcvbuf r, sk_read_waker = None,
                        sk_stop_state = rv_stop_state r, sk_final_size = into_inner (sf_offset f) + length body\<rparr>"
    let ?e = "wake_waker (rv_read_waker r) e"
    have pre: "rb_inv (sk_rcvbuf ?s)" "waker_ok (sk_rcvbuf ?s) (sk_read_waker ?s)" "rb_largest_offset (sk_rcvbuf ?s) \<le> sk_final_size ?s"
      "sk_final_size ?s < 2 ^ 62" "sk_accepts f body (sk_final_size ?s)"
      using True shape w acc 1 by (simp_all add: sk_accepts_def within64_def)
    obtain b fresh s' e' where st: "rb_recv (sk_rcvbuf ?s) (into_inner (sf_offset f)) body = Some (b, fresh)"
      "sk_recv f body ?s ?e = Ret (Inr fresh, s', e')" "sk_rcvbuf s' = b" "sk_final_size s' = sk_final_size ?s"
      "\<not> sk_is_all_rcvd s' \<longrightarrow> rcvr_shape (Inr (SizeKnown s'))"
      "sk_is_all_rcvd s' \<longrightarrow> rcvr_shape (Inr (DataRcvd (fst (sk_upgrade s' e')))) \<and> dr_rcvbuf (fst (sk_upgrade s' e')) = b"
      using size_known_step [OF pre(1-4) w pre(5), where e = ?e] by blast
    have "determin_size f r e = Ret (Inr ?s, r\<lparr>rv_read_waker := None, rv_rcvbuf := rb_default, rv_stop_state := None\<rparr>, ?e)"
      using w acc 1 True by (simp add: determin_size_def add64_def within64_def Let_def)
    then show ?thesis
      using st 1 True
      by (intro that [of "rv_rcvbuf r" b fresh "if sk_is_all_rcvd s' then Inr (DataRcvd (fst (sk_upgrade s' e'))) else Inr (SizeKnown s')"
            "if sk_is_all_rcvd s' then snd (sk_upgrade s' e') else e'"])
        (auto simp: recv_data_def rcvr_received_def sk_is_all_rcvd_def split: prod.splits)
  next
    case False
    then have "into_inner (sf_offset f) + length body \<le> rv_max_stream_data r" using acc 1 by simp
    then obtain b fresh r' e' where st: "rb_recv (rv_rcvbuf r) (into_inner (sf_offset f)) body = Some (b, fresh)"
      "rv_recv f body r e = Ret (Inr fresh, r', e')" "rv_rcvbuf r' = b" "rv_max_stream_data r' = rv_max_stream_data r"
      "rv_largest r' = max (rv_largest r) (into_inner (sf_offset f) + length body)" "waker_ok b (rv_read_waker r')"
      using rv_recv_ok [of r f body] shape w 1 by (metis rcvr_shape.simps(1))
    have "rb_inv (rv_rcvbuf r)" using shape 1 by simp
    then have "rb_inv b" "rb_largest_offset b \<le> max (rb_largest_offset (rv_rcvbuf r)) (into_inner (sf_offset f) + length body)"
      using recv_ok [of "rv_rcvbuf r" "into_inner (sf_offset f)" body] recv_largest_le st(1) by auto
    then have "rcvr_shape (Inr (Recv r'))"
      using st shape 1 \<open>into_inner (sf_offset f) + length body \<le> rv_max_stream_data r\<close> by auto
    then show ?thesis
      using st 1 False
      by (intro that [of "rv_rcvbuf r" b fresh "Inr (Recv r')" e']) (auto simp: recv_data_def rcvr_received_def)
  qed
next
  case (2 s)
  then obtain b fresh s' e' where st: "rb_recv (sk_rcvbuf s) (into_inner (sf_offset f)) body = Some (b, fresh)"
      "sk_recv f body s e = Ret (Inr fresh, s', e')" "sk_rcvbuf s' = b" "sk_final_size s' = sk_final_size s"
      "\<not> sk_is_all_rcvd s' \<longrightarrow> rcvr_shape (Inr (SizeKnown s'))"
      "sk_is_all_rcvd s' \<longrightarrow> rcvr_shape (Inr (DataRcvd (fst (sk_upgrade s' e')))) \<and> dr_rcvbuf (fst (sk_upgrade s' e')) = b"
    using size_known_step [of s f body e] shape w acc by (metis rcvr_accepts.simps(2) rcvr_shape.simps(2))
  then show ?thesis
    using 2
    by (intro that [of "sk_rcvbuf s" b fresh "if sk_is_all_rcvd s' then Inr (DataRcvd (fst (sk_upgrade s' e'))) else Inr (SizeKnown s')"
          "if sk_is_all_rcvd s' then snd (sk_upgrade s' e') else e'"])
      (auto simp: recv_data_def rcvr_received_def sk_is_all_rcvd_def split: prod.splits)
qed (use live in auto)

lemma recv_data_refused:
  assumes shape: "rcvr_shape a" and live: "rcvr_live a" and w: "within64 f body" and acc: "\<not> rcvr_accepts f body a"
  obtains kind a' e' where "recv_data f body a e = Ret (Inl (QuicError kind (ErrV1 (Stream (sf_flag f)))), a', e')"
    and "rcvr_buf a' = rcvr_buf a" "rcvr_shape a'" "rcvr_live a'" and "\<And>s. a = Inr (SizeKnown s) \<Longrightarrow> a' = a" 
    and "\<And>r. a = Inr (Recv r) \<Longrightarrow> \<exists>r'. a' = Inr (Recv r') \<and> rv_max_stream_data r' = rv_max_stream_data r"
    and "kind = (if (\<exists>r. a = Inr (Recv r)) \<and> \<not> sf_is_fin f then FlowControl else FinalSize)"
proof (cases a rule: rcvr_live.cases)
  case (1 r)
  show thesis
  proof (cases "sf_is_fin f")
    case True
    let ?r = "r\<lparr>rv_read_waker := None\<rparr>"
    have "determin_size f r e = Ret (Inl (QuicError FinalSize (ErrV1 (Stream (sf_flag f)))), ?r, wake_waker (rv_read_waker r) e)"
      using w acc 1 True by (simp add: determin_size_def add64_def within64_def Let_def)
    then show ?thesis using shape 1 True
      by (intro that [of FinalSize "Inr (Recv ?r)" "wake_waker (rv_read_waker r) e"]) (auto simp: recv_data_def)
  next
    case False
    then have "rv_recv f body r e = Ret (Inl (QuicError FlowControl (ErrV1 (Stream (sf_flag f)))), r, e)"
      using rv_recv_refused [OF w] acc 1 by auto
    then show ?thesis using shape 1 False
      by (intro that [of FlowControl "Inr (Recv r)" e]) (auto simp: recv_data_def)
  qed
next
  case (2 s)
  then have "sk_recv f body s e = Ret (Inl (QuicError FinalSize (ErrV1 (Stream (sf_flag f)))), s, e)"
    using sk_recv_refused [OF w] acc by auto
  then show ?thesis using shape 2
    by (intro that [of FinalSize "Inr (SizeKnown s)" e]) (auto simp: recv_data_def)
qed (use live in auto)


text \<open>Reading takes bytes out of the buffer, or registers the reader where there is nothing to take.\<close>

lemma try_read_available:
  assumes "rb_inv b" "try_read b room = (b', bytes)"
  shows "rb_nread b' + rb_available b' = rb_nread b + rb_available b"
proof -
  note r = try_read_ok [OF assms]
  let ?c = "\<lambda>b. continuous_end (rb_nread b) (rb_segments b)"
  have ok: "segs_ok (rb_nread b) (rb_segments b)" "segs_ok (rb_nread b') (rb_segments b')" using assms(1) r(1) by (auto simp: rb_inv_def)
  have e: "rb_nread b + rb_available b = ?c b" "rb_nread b' + rb_available b' = ?c b'"
    using continuous_end_spec(1) ok by (simp_all add: available_eq)
  have le: "rb_nread b \<le> rb_nread b'" "rb_nread b' \<le> ?c b" using r(2,3) e(1) by simp_all
  have "\<not> ?c b < ?c b'" using continuous_end_spec(2) [OF ok(2), of "?c b"] continuous_end_spec(3) [OF ok(1)] r(5) [of "?c b"] le by auto
  moreover have "\<not> ?c b' < ?c b"
    using continuous_end_spec(2) [OF ok(1), of "?c b'"] continuous_end_spec(1,3) [OF ok(2)] r(5) [of "?c b'"] le by auto
  ultimately show ?thesis using e by linarith
qed

lemma readable_available:
  assumes "rb_inv b"
  shows "rb_is_readable b \<longleftrightarrow> 0 < rb_available b"
proof (cases "rb_segments b")
  case (Cons s segs)
  then have "seg_data s \<noteq> []" "seg_end s \<le> continuous_end (seg_end s) segs"
    using assms continuous_end_spec(1) [of "seg_end s" segs] by (simp_all add: rb_inv_def segs_ok_Cons)
  then have "seg_offset s < continuous_end (seg_end s) segs" using seg_end_gt [of s] by linarith
  then show ?thesis using Cons by (auto simp: rb_is_readable_def available_eq seg_end_def)
qed (simp add: rb_is_readable_def available_eq)

definition read_outcome :: "nat \<Rightarrow> arc_recver \<Rightarrow> (io_error + byte list) poll \<Rightarrow> arc_recver \<Rightarrow> bool" where
  "read_outcome room a p a' \<longleftrightarrow>
     (case rcvr_buf a of
        None \<Rightarrow> (a = Inr DataRead \<longrightarrow> p = Ready (Inr []) \<and> a' = a) \<and> (a \<noteq> Inr DataRead \<longrightarrow> (\<exists>err. p = Ready (Inl err))) \<and>
          rcvr_buf a' = None \<and> (a' = Inr DataRead \<longrightarrow> a = Inr DataRead) \<and> (\<forall>f. a' \<noteq> Inr (ResetRcvd f))
      | Some b \<Rightarrow>
          if rcvr_live a \<and> \<not> rb_is_readable b then p = Pending \<and> rcvr_buf a' = Some b \<and> rcvr_live a'
          else \<exists>b' bytes. try_read b room = (b', bytes) \<and> p = Ready (Inr bytes) \<and>
            (if rcvr_live a \<or> \<not> rb_is_empty b' then rcvr_buf a' = Some b' \<and> (rcvr_live a' \<longleftrightarrow> rcvr_live a) else a' = Inr DataRead)) \<and>
     (\<forall>r. a = Inr (Recv r) \<longrightarrow> (\<exists>r'. a' = Inr (Recv r') \<and> rv_max_stream_data r \<le> rv_max_stream_data r')) \<and>
     (\<forall>s. a = Inr (SizeKnown s) \<longrightarrow> (\<exists>s'. a' = Inr (SizeKnown s') \<and> sk_final_size s' = sk_final_size s))"

lemma rv_poll_read_ok:
  assumes "rcvr_shape (Inr (Recv r))" "rb_is_readable (rv_rcvbuf r)" "try_read (rv_rcvbuf r) room = (b, bytes)"
  obtains m e' where "rv_poll_read waker room r e = Ret (Ready bytes, r\<lparr>rv_rcvbuf := b, rv_max_stream_data := m\<rparr>, e')"
    and "rv_max_stream_data r \<le> m" "m < 2 ^ 62"
proof -
  have inv: "rb_inv (rv_rcvbuf r)" using assms(1) by simp
  have "rb_nread b \<le> rb_largest_offset (rv_rcvbuf r)"
    using rb_nread_le_largest [OF try_read_ok(1) [OF inv assms(3)]] try_read_ok(6) [OF inv assms(3)] by simp
  then have n: "rb_nread b < 2 ^ 62" using assms(1) by simp
  let ?m = "min (rb_nread b + READ_THRESHOLD * 2) VARINT_MAX"
  have m: "?m < 2 ^ 62" by (simp add: VARINT_MAX_def min_less_iff_disj)
  show thesis
  proof (cases "rv_max_stream_data r < rb_nread b + READ_THRESHOLD \<and> rv_max_stream_data r < ?m")
    case True
    then show ?thesis
      using n m assms(2,3)
      by (intro that [of ?m "send_ctl (CtlMaxStreamData (MaxStreamDataFrame (rv_stream_id r) (VarInt ?m))) e"])
        (auto simp: rv_poll_read_def Let_def add64_def READ_THRESHOLD_def from_u64_def)
  next
    case False
    have "r\<lparr>rv_rcvbuf := b\<rparr> = r\<lparr>rv_rcvbuf := b, rv_max_stream_data := rv_max_stream_data r\<rparr>" by simp
    then have "rv_poll_read waker room r e = Ret (Ready bytes, r\<lparr>rv_rcvbuf := b, rv_max_stream_data := rv_max_stream_data r\<rparr>, e)"
      using False n assms(2,3) by (auto simp: rv_poll_read_def Let_def add64_def READ_THRESHOLD_def)
    then show ?thesis using assms(1) by (intro that) auto
  qed
qed

lemma reader_poll_read_ok:
  assumes shape: "rcvr_shape a"
  obtains p a' e' where "reader_poll_read waker room a e = Ret (p, a', e')" "rcvr_shape a'" "read_outcome room a p a'"
proof (cases a rule: rcvr_shape.cases)
  case (1 r)
  obtain b bytes where tr: "try_read (rv_rcvbuf r) room = (b, bytes)" by fastforce
  have inv: "rb_inv (rv_rcvbuf r)" using shape 1 by simp
  note t = try_read_ok [OF inv tr]
  show thesis
  proof (cases "rb_is_readable (rv_rcvbuf r)")
    case True
    obtain m e' where st: "rv_poll_read waker room r e = Ret (Ready bytes, r\<lparr>rv_rcvbuf := b, rv_max_stream_data := m\<rparr>, e')"
      "rv_max_stream_data r \<le> m" "m < 2 ^ 62"
      using rv_poll_read_ok [OF _ True tr] shape 1 by blast
    have "rv_read_waker r = None" using shape True 1 by (simp add: waker_ok_def)
    then show ?thesis
      using st t shape 1 True tr
      by (intro that [of "Ready (Inr bytes)" "Inr (Recv (r\<lparr>rv_rcvbuf := b, rv_max_stream_data := m\<rparr>))" e'])
        (auto simp: reader_poll_read_def read_outcome_def)
  next
    case False
    then show ?thesis using shape 1
      by (intro that [of Pending "Inr (Recv (r\<lparr>rv_read_waker := Some waker\<rparr>))" e])
        (auto simp: reader_poll_read_def rv_poll_read_def read_outcome_def waker_ok_def)
  qed
next
  case (2 s)
  obtain b bytes where tr: "try_read (sk_rcvbuf s) room = (b, bytes)" by fastforce
  have inv: "rb_inv (sk_rcvbuf s)" using shape 2 by simp
  note t = try_read_ok [OF inv tr] and av = try_read_available [OF inv tr]
  show thesis
  proof (cases "rb_is_readable (sk_rcvbuf s)")
    case True
    have "sk_read_waker s = None" using shape True 2 by (simp add: waker_ok_def)
    then show ?thesis
      using t av shape 2 True tr
      by (intro that [of "Ready (Inr bytes)" "Inr (SizeKnown (s\<lparr>sk_rcvbuf := b\<rparr>))" e])
        (auto simp: reader_poll_read_def sk_poll_read_def read_outcome_def sk_is_all_rcvd_def)
  next
    case False
    then show ?thesis using shape 2
      by (intro that [of Pending "Inr (SizeKnown (s\<lparr>sk_read_waker := Some waker\<rparr>))" e])
        (auto simp: reader_poll_read_def sk_poll_read_def read_outcome_def waker_ok_def sk_is_all_rcvd_def)
  qed
next
  case (3 d)
  obtain b bytes where tr: "try_read (dr_rcvbuf d) room = (b, bytes)" by fastforce
  have inv: "rb_inv (dr_rcvbuf d)" using shape 3 by simp
  show thesis
    using try_read_ok [OF inv tr] try_read_available [OF inv tr] shape 3 tr
    by (intro that [of "Ready (Inr bytes)" "Inr (if rb_is_empty b then DataRead else DataRcvd (d\<lparr>dr_rcvbuf := b\<rparr>))" e])
      (auto simp: reader_poll_read_def dr_poll_read_def dr_is_all_read_def read_outcome_def)
qed (auto simp: reader_poll_read_def read_outcome_def intro!: that)


subsection \<open>Any peer: what is charged to flow control\<close>

text \<open>
  The states a receiver reaches from any frames that pass the parser and the predicate \<open>peer\<close>, in any order and
  interleaved with the application's calls. \<open>got\<close> is what the application has read, \<open>charged\<close> the sum of what was
  reported as new to connection flow control. A refused frame closes the connection, so only accepted ones count.
\<close>

fun read_bytes :: "(io_error + byte list) poll \<Rightarrow> byte list" where
  "read_bytes (Ready (Inr bytes)) = bytes"
| "read_bytes _ = []"

inductive rcvr_reach ::
    "(stream_frame \<Rightarrow> byte list \<Rightarrow> bool) \<Rightarrow> nat \<Rightarrow> arc_recver \<Rightarrow> byte list \<Rightarrow> nat \<Rightarrow> bool" for peer window where
  rcvr_start: "window < 2 ^ 62 \<Longrightarrow> rcvr_reach peer window (arc_recver_new sid window) [] 0"
| rcvr_frame: "rcvr_reach peer window a got charged \<Longrightarrow> within64 f body \<Longrightarrow> peer f body \<Longrightarrow>
    recv_data f body a e = Ret (Inr (fin, fresh), a', e') \<Longrightarrow> rcvr_reach peer window a' got (charged + fresh)"
| rcvr_reset: "rcvr_reach peer window a got charged \<Longrightarrow> recv_reset rf a e = Ret (Inr fresh, a', e') \<Longrightarrow>
    rcvr_reach peer window a' got (charged + fresh)"
| rcvr_read: "rcvr_reach peer window a got charged \<Longrightarrow> reader_poll_read waker room a e = Ret (p, a', e') \<Longrightarrow>
    rcvr_reach peer window a' (got @ read_bytes p) charged"
| rcvr_stop: "rcvr_reach peer window a got charged \<Longrightarrow> reader_stop code a e = Ret (a', e') \<Longrightarrow> rcvr_reach peer window a' got charged"
| rcvr_error: "rcvr_reach peer window a got charged \<Longrightarrow> incoming_on_conn_error err a e = (a', e') \<Longrightarrow>
    rcvr_reach peer window a' got charged"

fun accounted :: "arc_recver \<Rightarrow> nat \<Rightarrow> bool" where
  "accounted (Inr (Recv r)) charged \<longleftrightarrow> charged = rb_largest_offset (rv_rcvbuf r) \<and> charged \<le> rv_max_stream_data r"
| "accounted (Inr (SizeKnown s)) charged \<longleftrightarrow> charged = rb_largest_offset (sk_rcvbuf s) \<and> charged \<le> sk_final_size s"
| "accounted (Inr (DataRcvd d)) charged \<longleftrightarrow> charged = rb_nread (dr_rcvbuf d) + rb_available (dr_rcvbuf d)"
| "accounted (Inr (ResetRcvd f)) charged \<longleftrightarrow> charged \<le> into_inner (rs_final_size f)"
| "accounted _ charged \<longleftrightarrow> True"

lemma accounted_frame:
  assumes "rcvr_shape a" "accounted a charged" "within64 f body" "recv_data f body a e = Ret (Inr (fin, fresh), a', e')"
  shows "rcvr_shape a' \<and> accounted a' (charged + fresh)"
proof (cases "rcvr_live a")
  case True
  have acc: "rcvr_accepts f body a"
    using recv_data_refused [OF assms(1) True assms(3), where e = e] assms(4) by (metis Inl_Inr_False prod.inject run.inject)
  obtain b b' where st: "rcvr_buf a = Some b" "rb_recv b (into_inner (sf_offset f)) body = Some (b', fresh)"
    "rcvr_buf a' = Some b'" "rcvr_shape a'" "rcvr_received f body a a'"
    using recv_data_ok [OF assms(1) True assms(3) acc, where e = e] assms(4) by (metis Inr_inject prod.inject run.inject)
  have "rb_inv b" using st(1) assms(1) True by (cases a rule: rcvr_live.cases) auto
  then have "rb_largest_offset b' = rb_largest_offset b + fresh" by (rule recv_largest [OF _ st(2)])
  then have "rb_largest_offset b' = charged + fresh" using st(1) assms(2) True by (cases a rule: rcvr_live.cases) auto
  then have "accounted a' (charged + fresh)"
    using st(3-5) by (cases a' rule: rcvr_shape.cases) (auto simp: rcvr_received_def)
  then show ?thesis using st(4) by simp
next
  case False
  then show ?thesis using assms by (cases a rule: rcvr_live.cases) auto
qed

lemma accounted_reset:
  assumes "rcvr_shape a" "accounted a charged" "recv_reset rf a e = Ret (Inr fresh, a', e')"
  shows "rcvr_shape a' \<and> accounted a' (charged + fresh)"
  using assms
  by (cases a rule: rcvr_shape.cases)
    (auto simp: recv_reset_def rv_recv_reset_def sk_recv_reset_def rv_wake_reader_def sk_wake_reader_def Let_def split: if_splits)

lemma accounted_read:
  assumes "rcvr_shape a" "accounted a charged" "reader_poll_read waker room a e = Ret (p, a', e')"
  shows "rcvr_shape a' \<and> accounted a' charged"
proof -
  have st: "rcvr_shape a'" "read_outcome room a p a'"
    using reader_poll_read_ok [OF assms(1), where e = e and room = room and waker = waker] assms(3) by (metis prod.inject run.inject)+
  have k: "rb_largest_offset b' = rb_largest_offset b" "rb_nread b' + rb_available b' = rb_nread b + rb_available b"
    if "try_read b room = (b', bytes)" "rb_inv b" for b b' bytes
    using try_read_ok(6) [OF that(2,1)] try_read_available [OF that(2,1)] by auto
  have "accounted a' charged"
  proof (cases a rule: rcvr_shape.cases)
    case (1 r)
    then obtain r' where "a' = Inr (Recv r')" "rv_max_stream_data r \<le> rv_max_stream_data r'"
      "rb_largest_offset (rv_rcvbuf r') = rb_largest_offset (rv_rcvbuf r)"
      using st(2) assms(1) k by (auto simp: read_outcome_def split: if_splits)
    then show ?thesis using assms(2) 1 by simp
  next
    case (2 s)
    then obtain s' where "a' = Inr (SizeKnown s')" "sk_final_size s' = sk_final_size s"
      "rb_largest_offset (sk_rcvbuf s') = rb_largest_offset (sk_rcvbuf s)"
      using st(2) assms(1) k by (auto simp: read_outcome_def split: if_splits)
    then show ?thesis using assms(2) 2 by simp
  next
    case (3 d)
    then have "a' = Inr DataRead \<or> (\<exists>b'. rcvr_buf a' = Some b' \<and> \<not> rcvr_live a' \<and> rb_nread b' + rb_available b' = charged)"
      using st(2) assms(1,2) k by (auto simp: read_outcome_def split: if_splits)
    then show ?thesis by (cases a' rule: rcvr_shape.cases) auto
  qed (use st(2) in \<open>cases a' rule: rcvr_shape.cases; simp add: read_outcome_def\<close>)+
  then show ?thesis using st(1) by simp
qed


lemma rcvr_reach_shape: "rcvr_reach peer window a got charged \<Longrightarrow> rcvr_shape a \<and> accounted a charged"
proof (induction rule: rcvr_reach.induct)
  case (rcvr_start sid)
  then show ?case using rb_default_inv by (simp add: arc_recver_new_def rv_new_def rb_default_def)
next
  case (rcvr_stop a got charged code e a' e')
  then show ?case
    by (cases a rule: rcvr_shape.cases)
      (auto simp: reader_stop_def rv_stop_def sk_stop_def sk_is_all_rcvd_def run_simps split: if_splits)
next
  case (rcvr_error a got charged err e a' e')
  then show ?case by (cases a rule: rcvr_shape.cases) (auto simp: incoming_on_conn_error_def)
qed (auto dest: accounted_frame accounted_reset accounted_read)

text \<open>
  C11: A receiver is safe against any peer and accounts exactly. Whatever frames arrive and however the application
  reads, in every reachable state: the next STREAM frame and the next read return; what was charged to flow control is the largest
  offset received, within the announced stream limit until the size is known and within the final size then, and the whole size
  once all data is in; and a reader is registered as waiting only while nothing is readable.
\<close>

theorem recver_accounts_exactly:
  assumes "rcvr_reach peer window a got charged" "within64 f body"
  shows "returns (recv_data f body a e) \<and> returns (reader_poll_read waker room a e) \<and> accounted a charged \<and>
    (\<forall>r. a = Inr (Recv r) \<longrightarrow> rv_read_waker r \<noteq> None \<longrightarrow> \<not> rb_is_readable (rv_rcvbuf r)) \<and>
    (\<forall>s. a = Inr (SizeKnown s) \<longrightarrow> sk_read_waker s \<noteq> None \<longrightarrow> \<not> rb_is_readable (sk_rcvbuf s))"
proof -
  have inv: "rcvr_shape a" "accounted a charged" using rcvr_reach_shape [OF assms(1)] by auto
  have "returns (recv_data f body a e)"
  proof (cases "rcvr_live a")
    case True
    then show ?thesis
      using recv_data_ok [OF inv(1) True assms(2), where e = e] recv_data_refused [OF inv(1) True assms(2), where e = e]
      by (metis returns_def)
  next
    case False
    then show ?thesis by (cases a rule: rcvr_shape.cases) auto
  qed
  moreover have "returns (reader_poll_read waker room a e)"
    using reader_poll_read_ok [OF inv(1)] by (metis returns_def)
  ultimately show ?thesis using inv by (auto simp: waker_ok_def)
qed

definition sample_frame :: "nat \<Rightarrow> nat \<Rightarrow> byte \<Rightarrow> stream_frame" where
  "sample_frame off len flag = \<lparr>sf_id = StreamId 0, sf_offset = VarInt off, sf_length = len, sf_flag = flag\<rparr>"


lemmas recver_eval = no_effects_def recv_data_def determin_size_def rv_recv_def sk_recv_def sk_is_all_rcvd_def sk_upgrade_def sk_wake_reader_def
  add64_def Let_def sf_is_fin_def sample_frame_def FIN_BIT_def arc_recver_new_def rv_new_def recv_eval
  rb_is_readable_def rb_available_def wake_waker_def

theorem recver_accounts_exactly_witness:
  "\<exists>a e. recv_data (sample_frame 2 3 0) [7, 8, 9] (arc_recver_new (StreamId 0) 10) no_effects =
       Ret (Inr (False, 5), a, e) \<and> accounted a 5 \<and> within64 (sample_frame 0 2 0) [5, 6] \<and>
     returns (recv_data (sample_frame 0 2 0) [5, 6] a e) \<and> returns (reader_poll_read 0 8 a e)"
proof -
  let ?b = "\<lparr>rb_nread = 0, rb_largest_offset = 5, rb_segments = [\<lparr>seg_offset = 2, seg_data = [7, 8, 9]\<rparr>]\<rparr>"
  let ?a = "Inr (Recv \<lparr>rv_stream_id = StreamId 0, rv_rcvbuf = ?b, rv_read_waker = None, rv_stop_state = None,
     rv_largest = 5, rv_max_stream_data = 10\<rparr>)"
  let ?e = "no_effects"
  have st: "recv_data (sample_frame 2 3 0) [7, 8, 9] (arc_recver_new (StreamId 0) 10) ?e = Ret (Inr (False, 5), ?a, ?e)"
    by (simp add: recver_eval)
  have w: "within64 (sample_frame 2 3 0) [7, 8, 9]" "within64 (sample_frame 0 2 0) [5, 6]"
    by (simp_all add: within64_def sample_frame_def)
  have "rcvr_reach (\<lambda>_ _. True) 10 ?a [] (0 + 5)"
    by (rule rcvr_frame [OF rcvr_start w(1) _ st]) simp_all
  from recver_accounts_exactly [OF this w(2), of ?e 0 8] st w(2) show ?thesis
    by (intro exI [of _ ?a] exI [of _ ?e]) simp
qed

lemma recv_charges_end:
  assumes "rb_inv b" "rb_recv b off body = Some (b', fresh)" "body \<noteq> []" "rb_largest_offset b \<le> off + length body"
  shows "rb_largest_offset b + fresh = off + length body"
  using recv_ok [OF assms(1), of off body] assms(2-) by auto

text \<open>
  C40: Two ways around the accounting. First, a frame with the end marker is not checked against the stream's flow control limit: in every state in which the size is not known yet, a frame that ends beyond the announced limit is
  refused with FLOW\_CONTROL\_ERROR without the marker, but accepted with it, and if it carries data what is charged then is the whole stream up to its end, more than the limit. Second, once the size is known a RESET\_STREAM with that
  final size is accepted and charges nothing: what is charged for the stream stays the largest offset received, however many bytes below the final size never arrived, although their sender counted them.
\<close>

theorem fin_escapes_stream_limit:
  assumes "rcvr_reach peer window a got charged" "within64 f body"
  shows "(\<forall>r. a = Inr (Recv r) \<and> rv_max_stream_data r < into_inner (sf_offset f) + length body \<longrightarrow>
      (if sf_is_fin f
       then \<exists>fin fresh a' e'. recv_data f body a e = Ret (Inr (fin, fresh), a', e') \<and>
              (body \<noteq> [] \<longrightarrow> charged + fresh = into_inner (sf_offset f) + length body \<and> rv_max_stream_data r < charged + fresh)
       else \<exists>a' e'. recv_data f body a e = Ret (Inl (QuicError FlowControl (ErrV1 (Stream (sf_flag f)))), a', e'))) \<and>
    (\<forall>s. a = Inr (SizeKnown s) \<longrightarrow> charged = rb_largest_offset (sk_rcvbuf s) \<and> charged \<le> sk_final_size s \<and>
      (\<exists>e'. recv_reset (ResetStreamFrame sid code (VarInt (sk_final_size s))) a e =
        Ret (Inr 0, Inr (ResetRcvd (ResetStreamFrame sid code (VarInt (sk_final_size s)))), e')))"
proof (intro conjI allI impI)
  have inv: "rcvr_shape a" "accounted a charged" using rcvr_reach_shape [OF assms(1)] by auto
  fix r assume r: "a = Inr (Recv r) \<and> rv_max_stream_data r < into_inner (sf_offset f) + length body"
  then have live: "rcvr_live a" by simp
  show "if sf_is_fin f
       then \<exists>fin fresh a' e'. recv_data f body a e = Ret (Inr (fin, fresh), a', e') \<and>
              (body \<noteq> [] \<longrightarrow> charged + fresh = into_inner (sf_offset f) + length body \<and> rv_max_stream_data r < charged + fresh)
       else \<exists>a' e'. recv_data f body a e = Ret (Inl (QuicError FlowControl (ErrV1 (Stream (sf_flag f)))), a', e')"
  proof (cases "sf_is_fin f")
    case True
    then have "rcvr_accepts f body a" using r inv by auto
    then obtain b b' fresh a' e' where st: "rcvr_buf a = Some b" "rb_recv b (into_inner (sf_offset f)) body = Some (b', fresh)"
      "recv_data f body a e = Ret (Inr (\<not> rcvr_live a', fresh), a', e')" by (rule recv_data_ok [OF inv(1) live assms(2), where e = e])
    have "charged + fresh = into_inner (sf_offset f) + length body" if "body \<noteq> []"
      using recv_charges_end [OF _ st(2) that] st(1) inv r by auto
    then show ?thesis using True st(3) r by auto
  next
    case False
    then have "\<not> rcvr_accepts f body a" using r by auto
    from recv_data_refused [OF inv(1) live assms(2) this, where e = e] show ?thesis using False r by (metis (full_types))
  qed
next
  fix s assume s: "a = Inr (SizeKnown s)"
  then show "charged = rb_largest_offset (sk_rcvbuf s)" "charged \<le> sk_final_size s" using rcvr_reach_shape [OF assms(1)] by auto
  show "\<exists>e'. recv_reset (ResetStreamFrame sid code (VarInt (sk_final_size s))) a e =
      Ret (Inr 0, Inr (ResetRcvd (ResetStreamFrame sid code (VarInt (sk_final_size s)))), e')"
    by (simp add: s recv_reset_def sk_recv_reset_def sk_wake_reader_def Let_def)
qed

theorem fin_escapes_stream_limit_witness:
  "(\<exists>fin fresh a' e'. recv_data (sample_frame 100 1 1) [7] (arc_recver_new (StreamId 0) 10) no_effects = Ret (Inr (fin, fresh), a', e') \<and> fresh = 101) \<and>
   (\<exists>s e'. rcvr_reach (\<lambda>_ _. True) 1000 (Inr (SizeKnown s)) [] 1 \<and> sk_final_size s = 101 \<and>
      recv_reset (ResetStreamFrame (StreamId 0) (VarInt 0) (VarInt 101)) (Inr (SizeKnown s)) no_effects =
        Ret (Inr 0, Inr (ResetRcvd (ResetStreamFrame (StreamId 0) (VarInt 0) (VarInt 101))), e'))"
proof
  have w: "within64 (sample_frame 100 1 1) [7]" "within64 (sample_frame 0 1 0) [7]" "within64 (sample_frame 101 0 1) []"
    by (simp_all add: within64_def sample_frame_def)
  have 1: "rcvr_reach (\<lambda>_ _. True) 10 (arc_recver_new (StreamId 0) 10) [] 0" by (rule rcvr_start) simp
  have "sf_is_fin (sample_frame 100 1 1)" by (simp add: sf_is_fin_def sample_frame_def FIN_BIT_def)
  then show "\<exists>fin fresh a' e'. recv_data (sample_frame 100 1 1) [7] (arc_recver_new (StreamId 0) 10) no_effects = Ret (Inr (fin, fresh), a', e') \<and> fresh = 101"
    using fin_escapes_stream_limit [OF 1 w(1), of no_effects] by (fastforce simp: arc_recver_new_def rv_new_def sample_frame_def)
  have 2: "rcvr_reach (\<lambda>_ _. True) 1000 (arc_recver_new (StreamId 0) 1000) [] 0" by (rule rcvr_start) simp
  obtain a e where a: "recv_data (sample_frame 0 1 0) [7] (arc_recver_new (StreamId 0) 1000) no_effects = Ret (Inr (False, 1), a, e)"
    and s: "\<exists>s e'. sk_final_size s = 101 \<and> recv_data (sample_frame 101 0 1) [] a e = Ret (Inr (False, 0), Inr (SizeKnown s), e')"
    by (simp add: recver_eval)
  then obtain s e' where s: "sk_final_size s = 101" "recv_data (sample_frame 101 0 1) [] a e = Ret (Inr (False, 0), Inr (SizeKnown s), e')" by blast
  have "rcvr_reach (\<lambda>_ _. True) 1000 a [] (0 + 1)" by (rule rcvr_frame [OF 2 w(2) _ a]) simp
  then have "rcvr_reach (\<lambda>_ _. True) 1000 (Inr (SizeKnown s)) [] (0 + 1 + 0)" by (rule rcvr_frame [OF _ w(3) _ s(2)]) simp
  then have 3: "rcvr_reach (\<lambda>_ _. True) 1000 (Inr (SizeKnown s)) [] 1" by simp
  from fin_escapes_stream_limit [OF 3 w(3), of no_effects "StreamId 0" "VarInt 0"] show "\<exists>s e'. rcvr_reach (\<lambda>_ _. True) 1000 (Inr (SizeKnown s)) [] 1 \<and> sk_final_size s = 101 \<and>
      recv_reset (ResetStreamFrame (StreamId 0) (VarInt 0) (VarInt 101)) (Inr (SizeKnown s)) no_effects =
        Ret (Inr 0, Inr (ResetRcvd (ResetStreamFrame (StreamId 0) (VarInt 0) (VarInt 101))), e')" using 3 s(1) by auto
qed

subsection \<open>An honest peer: what is delivered\<close>

fun rcvr_holds :: "byte list \<Rightarrow> arc_recver \<Rightarrow> byte list \<Rightarrow> bool" where
  "rcvr_holds D (Inr (Recv r)) got \<longleftrightarrow> (\<exists>seen. rcv_inv D (rv_rcvbuf r) got seen)"
| "rcvr_holds D (Inr (SizeKnown s)) got \<longleftrightarrow> (\<exists>seen. rcv_inv D (sk_rcvbuf s) got seen) \<and> sk_final_size s = length D"
| "rcvr_holds D (Inr (DataRcvd d)) got \<longleftrightarrow> (\<exists>seen. rcv_inv D (dr_rcvbuf d) got seen) \<and>
     rb_nread (dr_rcvbuf d) + rb_available (dr_rcvbuf d) = length D"
| "rcvr_holds D (Inr DataRead) got \<longleftrightarrow> got = D"
| "rcvr_holds D _ got \<longleftrightarrow> got = take (length got) D"

lemma rcvr_holds_prefix: "rcvr_holds D a got \<Longrightarrow> got = take (length got) D"
  by (cases "(D, a, got)" rule: rcvr_holds.cases) (auto simp: rcv_inv_def)

lemma rcvr_holds_buf:
  "rcvr_holds D a got \<Longrightarrow> rcvr_buf a = Some b \<Longrightarrow> \<exists>seen. rcv_inv D b got seen"
  by (cases "(D, a, got)" rule: rcvr_holds.cases) auto

lemma honest_accepted:
  assumes "rcvr_holds D a got" "frames_of D f body" "within64 f body" "\<not> rcvr_accepts f body a"
  shows "\<not> sf_is_fin f \<and> (\<exists>r. a = Inr (Recv r))"
proof (cases a rule: rcvr_live.cases)
  case (1 r)
  then obtain seen where i: "rcv_inv D (rv_rcvbuf r) got seen" using assms(1) by auto
  have "rb_largest_offset (rv_rcvbuf r) \<le> length D"
  proof (cases "rb_segments (rv_rcvbuf r) = []")
    case True
    then show ?thesis using i by (simp add: rcv_inv_def rb_inv_def)
  next
    case False
    let ?s = "last (rb_segments (rv_rcvbuf r))"
    have inv: "rb_inv (rv_rcvbuf r)" using i by (simp add: rcv_inv_def)
    then have ne: "seg_data ?s \<noteq> []" "segs_ok (rb_nread (rv_rcvbuf r)) (rb_segments (rv_rcvbuf r))" using False by (auto simp: rb_inv_def segs_ok_def)
    have "content (rb_segments (rv_rcvbuf r)) (seg_end ?s - 1) \<noteq> None"
      using content_nth [OF ne(2), of "length (rb_segments (rv_rcvbuf r)) - 1" "seg_end ?s - 1"] seg_end_gt [OF ne(1)] False
      by (simp add: last_conv_nth)
    then have "seg_end ?s - 1 < length D" using i by (auto simp: rcv_inv_def)
    then show ?thesis using inv False by (simp add: rb_inv_def)
  qed
  then show ?thesis using assms(2,4) 1 by (auto simp: frames_of_def)
next
  case (2 s)
  then show ?thesis using assms by (auto simp: sk_accepts_def frames_of_def Let_def split: if_splits)
qed (use assms(4) in auto)

lemma rcvr_holds_frame:
  assumes "rcvr_holds D a got" "rcvr_shape a" "frames_of D f body" "within64 f body"
    and r: "recv_data f body a e = Ret (Inr (fin, fresh), a', e')"
  shows "rcvr_holds D a' got"
proof (cases "rcvr_live a")
  case True
  have acc: "rcvr_accepts f body a"
    using recv_data_refused [OF assms(2) True assms(4), where e = e] r by (metis Inl_Inr_False prod.inject run.inject)
  obtain b b' where st: "rcvr_buf a = Some b" "rb_recv b (into_inner (sf_offset f)) body = Some (b', fresh)"
    "rcvr_buf a' = Some b'" "rcvr_received f body a a'"
    using recv_data_ok [OF assms(2) True assms(4) acc, where e = e] r by (metis Inr_inject prod.inject run.inject)
  obtain seen where "rcv_inv D b got seen" using rcvr_holds_buf [OF assms(1) st(1)] by blast
  then have "\<exists>seen. rcv_inv D b' got seen"
    using rcv_inv_fragment [OF _ _ _ st(2)] assms(3) by (auto simp: frames_of_def)
  moreover have "rcvr_size f body a = length D" if "sf_is_fin f \<or> (\<exists>s. a = Inr (SizeKnown s))"
    using that assms(1,3) True by (cases a rule: rcvr_live.cases) (auto simp: frames_of_def)
  moreover have "sf_is_fin f \<or> (\<exists>s. a = Inr (SizeKnown s))" if "\<forall>r'. a' \<noteq> Inr (Recv r')"
    using st(3,4) that by (cases a' rule: rcvr_shape.cases) (auto simp: rcvr_received_def)
  ultimately show ?thesis using st(3,4) by (cases a' rule: rcvr_shape.cases) (auto simp: rcvr_received_def)
next
  case False
  then show ?thesis using assms(1) r by (cases a rule: rcvr_live.cases) auto
qed

lemma rcvr_holds_read:
  assumes "rcvr_holds D a got" "rcvr_shape a" "read_outcome room a p a'"
  shows "rcvr_holds D a' (got @ read_bytes p)"
proof (cases "rcvr_buf a")
  case None
  have p: "got = take (length got) D" by (rule rcvr_holds_prefix [OF assms(1)])
  then show ?thesis
    using assms(1,3) None by (cases a rule: rcvr_shape.cases; cases a' rule: rcvr_shape.cases) (auto simp: read_outcome_def)
next
  case (Some b)
  then obtain seen where i: "rcv_inv D b got seen" using rcvr_holds_buf [OF assms(1)] by blast
  have inv: "rb_inv b" using i by (simp add: rcv_inv_def)
  show ?thesis
  proof (cases "rcvr_live a \<and> \<not> rb_is_readable b")
    case True
    then have "p = Pending" "rcvr_buf a' = Some b" using assms(3) Some by (auto simp: read_outcome_def)
    then show ?thesis using assms(1,3) Some True i
      by (cases a rule: rcvr_live.cases) (auto simp: read_outcome_def)
  next
    case False
    then obtain b' bytes where tr: "try_read b room = (b', bytes)" and p: "p = Ready (Inr bytes)"
      and a': "if rcvr_live a \<or> \<not> rb_is_empty b' then rcvr_buf a' = Some b' \<and> (rcvr_live a' \<longleftrightarrow> rcvr_live a) else a' = Inr DataRead"
      using assms(3) Some by (auto simp: read_outcome_def)
    have i': "rcv_inv D b' (got @ bytes) seen" by (rule rcv_inv_read [OF i tr])
    note av = try_read_available [OF inv tr]
    show ?thesis
    proof (cases a rule: rcvr_shape.cases)
      case (3 d)
      have b: "b = dr_rcvbuf d" using Some 3 by simp
      have whole: "rb_nread b' + rb_available b' = length D" using assms(1) 3 av b by simp
      show ?thesis
      proof (cases "rb_is_empty b'")
        case True
        then have "rb_available b' = 0" by (simp add: available_eq rb_is_empty_def)
        then have "length (got @ bytes) = length D" using whole i' by (simp add: rcv_inv_def)
        then have "got @ bytes = D" using i' unfolding rcv_inv_def by (metis order_refl take_all)
        then show ?thesis using a' 3 True p by simp
      next
        case False
        then have "rcvr_buf a' = Some b'" "\<not> rcvr_live a'" using a' 3 by auto
        then show ?thesis using i' whole p by (cases a' rule: rcvr_shape.cases) auto
      qed
    qed (use assms(1,3) Some a' p i' in \<open>auto simp: read_outcome_def\<close>)
  qed
qed


lemma rcvr_reach_holds: "rcvr_reach (frames_of D) window a got charged \<Longrightarrow> rcvr_holds D a got"
proof (induction rule: rcvr_reach.induct)
  case (rcvr_start sid)
  have "rcv_inv D rb_default [] {}" using rb_default_inv by (simp add: rcv_inv_def rb_default_def)
  then show ?case by (auto simp: arc_recver_new_def rv_new_def)
next
  case (rcvr_frame a got charged f body e fin fresh a' e')
  then show ?case using rcvr_holds_frame rcvr_reach_shape by blast
next
  case (rcvr_reset a got charged rf e fresh a' e')
  then show ?case using rcvr_holds_prefix [OF rcvr_reset(3)]
    by (cases a rule: rcvr_shape.cases)
      (auto simp: recv_reset_def rv_recv_reset_def sk_recv_reset_def rv_wake_reader_def sk_wake_reader_def Let_def split: if_splits)
next
  case (rcvr_read a got charged waker room e p a' e')
  have shape: "rcvr_shape a" using rcvr_reach_shape [OF rcvr_read(1)] by simp
  have "read_outcome room a p a'"
    using reader_poll_read_ok [OF shape, where e = e and room = room and waker = waker] rcvr_read(2) by (metis prod.inject run.inject)
  then show ?case using rcvr_holds_read [OF rcvr_read(3) shape] by simp
next
  case (rcvr_stop a got charged code e a' e')
  then show ?case
    by (cases a rule: rcvr_shape.cases) (auto simp: reader_stop_def rv_stop_def sk_stop_def run_simps split: if_splits)
next
  case (rcvr_error a got charged err e a' e')
  then show ?case using rcvr_holds_prefix [OF rcvr_error(3)]
    by (cases a rule: rcvr_shape.cases) (auto simp: incoming_on_conn_error_def)
qed

lemma rcvr_delivers:
  assumes "rcvr_reach (frames_of D) window a got charged"
  shows "got = take (length got) D \<and> (a = Inr DataRead \<longrightarrow> got = D) \<and>
    (frames_of D f body \<and> within64 f body \<longrightarrow>
       (\<forall>err a' e'. recv_data f body a e = Ret (Inl err, a', e') \<longrightarrow> err_kind err = FlowControl)) \<and>
    (\<forall>a' e'. reader_poll_read waker room a e = Ret (Ready (Inr []), a', e') \<longrightarrow> 0 < room \<longrightarrow> got = D)"
proof (intro conjI allI impI)
  have h: "rcvr_holds D a got" and sh: "rcvr_shape a" using rcvr_reach_holds [OF assms] rcvr_reach_shape [OF assms] by auto
  show prefix: "got = take (length got) D" by (rule rcvr_holds_prefix [OF h])
  show "got = D" if "a = Inr DataRead" using h that by simp
  show "err_kind err = FlowControl"
    if w: "frames_of D f body \<and> within64 f body" and r: "recv_data f body a e = Ret (Inl err, a', e')" for err a' e'
  proof -
    have live: "rcvr_live a" using r by (cases a rule: rcvr_live.cases) auto
    have "\<not> rcvr_accepts f body a"
      using recv_data_ok [OF sh live conjunct2 [OF w], where e = e] r by (metis Inl_Inr_False prod.inject run.inject)
    then show ?thesis
      using honest_accepted [OF h conjunct1 [OF w] conjunct2 [OF w]] recv_data_refused [OF sh live conjunct2 [OF w], where e = e] r
      by (metis Inl_inject prod.inject quic_error.sel(1) run.inject)
  qed
  show "got = D" if r: "reader_poll_read waker room a e = Ret (Ready (Inr []), a', e')" and room: "0 < room" for a' e'
  proof -
    have o: "read_outcome room a (Ready (Inr [])) a'"
      using reader_poll_read_ok [OF sh, where e = e and room = room and waker = waker] r by (metis prod.inject run.inject)
    show ?thesis
    proof (cases "rcvr_buf a")
      case None
      then have "a = Inr DataRead" using o by (auto simp: read_outcome_def)
      then show ?thesis using h by simp
    next
      case (Some b)
      then obtain seen where i: "rcv_inv D b got seen" using rcvr_holds_buf [OF h] by blast
      obtain b' where tr: "try_read b room = (b', [])" and rd: "rcvr_live a \<longrightarrow> rb_is_readable b"
        using o Some by (auto simp: read_outcome_def split: if_splits)
      have "rb_available b = 0" using try_read_ok(3) [OF _ tr] i room by (auto simp: rcv_inv_def)
      moreover have inv: "rb_inv b" using i by (simp add: rcv_inv_def)
      ultimately have "\<not> rcvr_live a" using rd readable_available by auto
      then have "length got = length D"
        using Some h i \<open>rb_available b = 0\<close> by (cases a rule: rcvr_shape.cases) (auto simp: rcv_inv_def)
      then show ?thesis using prefix by simp
    qed
  qed
qed

text \<open>Fewer frames reach fewer states; and the size is known only from a frame with the end marker.\<close>

lemma rcvr_reach_mono:
  assumes "rcvr_reach P window a got charged" "\<And>f b. P f b \<Longrightarrow> Q f b"
  shows "rcvr_reach Q window a got charged"
  using assms(1) by induction (use assms(2) in \<open>blast intro: rcvr_reach.intros\<close>)+

text \<open>
  C10: The receiving half of a stream delivers what an honest peer sends, in order and to the end. Whatever fragments of a stream
  \<open>D\<close> arrive: the application has read a prefix of \<open>D\<close>; no frame is ever refused for its size; a read with room for at
  least one byte returns nothing, the sign of the end, only when all of \<open>D\<close> has been read; and the state
  \<open>DataRead\<close> is reached only then.
\<close>

theorem recver_delivers_stream:
  assumes "rcvr_reach (frames_of D) window a got charged"
  shows "got = take (length got) D \<and> (a = Inr DataRead \<longrightarrow> got = D) \<and>
    (frames_of D f body \<and> within64 f body \<longrightarrow>
       (\<forall>err a' e'. recv_data f body a e = Ret (Inl err, a', e') \<longrightarrow> err_kind err = FlowControl)) \<and>
    (\<forall>a' e'. reader_poll_read waker room a e = Ret (Ready (Inr []), a', e') \<longrightarrow> 0 < room \<longrightarrow> got = D)"
  by (rule rcvr_delivers [OF assms])

theorem recver_delivers_stream_witness:
  "\<exists>a a' e'. rcvr_reach (frames_of [5, 6]) 10 a [5, 6] 2 \<and> frames_of [5, 6] (sample_frame 1 1 1) [6] \<and>
     reader_poll_read 0 4 a no_effects = Ret (Ready (Inr []), a', e')"
proof -
  let ?e = "no_effects"
  let ?a1 = "Inr (DataRcvd \<lparr>dr_stream_id = StreamId 0,
     dr_rcvbuf = \<lparr>rb_nread = 0, rb_largest_offset = 2, rb_segments = [\<lparr>seg_offset = 0, seg_data = [5, 6]\<rparr>]\<rparr>\<rparr>)"
  have w: "within64 (sample_frame 0 2 1) [5, 6]" "frames_of [5, 6] (sample_frame 0 2 1) [5, 6]" "frames_of [5, 6] (sample_frame 1 1 1) [6]"
    by (simp_all add: within64_def frames_of_def sample_frame_def)
  have 0: "rcvr_reach (frames_of [5, 6]) 10 (arc_recver_new (StreamId 0) 10) [] 0" by (rule rcvr_start) simp
  have "recv_data (sample_frame 0 2 1) [5, 6] (arc_recver_new (StreamId 0) 10) ?e = Ret (Inr (True, 2), ?a1, ?e)"
    by (simp add: recver_eval)
  then have 1: "rcvr_reach (frames_of [5, 6]) 10 ?a1 [] (0 + 2)"
    by (rule rcvr_frame [where peer = "frames_of [5, 6]", OF 0 w(1,2)])
  have "reader_poll_read 0 4 ?a1 ?e = Ret (Ready (Inr [5, 6]), Inr DataRead, ?e)"
    by (simp add: reader_poll_read_def dr_poll_read_def dr_is_all_read_def rb_is_empty_def try_read_def read_loop.simps)
  then have "rcvr_reach (frames_of [5, 6]) 10 (Inr DataRead) ([] @ read_bytes (Ready (Inr [5, 6]))) (0 + 2)"
    by (rule rcvr_read [OF 1])
  then have 2: "rcvr_reach (frames_of [5, 6]) 10 (Inr DataRead) [5, 6] 2" by (simp add: numeral_2_eq_2)
  from recver_delivers_stream [OF this] 2 w(3) show ?thesis
    by (intro exI [of _ "Inr DataRead"] exI [of _ ?e]) (simp add: reader_poll_read_def)
qed

end
