(* ===== verification/Stream_Pair.thy ===== *)
theory Stream_Pair
  imports Sender_Safety Recver
begin

section \<open>The two halves of a stream together\<close>

text \<open>
  The sending half (\<open>Sender\<close>) of one endpoint and the receiving half (\<open>Recver\<close>) of the other, joined by a network that loses, repeats and reorders:
  whatever the receiver is handed was sent, in whatever state of the sender. That a frame survives encoding and decoding is the
  round trip of theory \<open>Frame_Roundtrip\<close>.
\<close>

lemma sent_frames_honest:
  assumes "sender_reach sid g a" "sid_ok sid" "(f, b) \<in> sg_frames g"
  shows "frames_of (sg_written g) f b \<and> within64 f b"
  using sender_reach_inv [OF assms(1,2)] sender_inv_fit frames_fit_mem [OF _ assms(3)] by blast

text \<open>
  C1: A stream is reliable from application to application. In every history of a sender, with losses reported from a byte not acknowledged yet, whatever frames of it reach the receiver, in any order and any number of times, the reading
  application has a prefix of what the writing application wrote; the frames are never refused except for exceeding the receiver's limit; and the end of the stream is signalled, by an empty read or by
  the state \<open>DataRead\<close>, only when all that was written has been read, which then is final.
\<close>

theorem stream_pair_reliable:
  assumes "sender_reach sid g a" and "sid_ok sid" and "rcvr_reach (\<lambda>f b. (f, b) \<in> sg_frames g) window r got charged"
  shows "got = take (length got) (sg_written g) \<and>
    ((f, b) \<in> sg_frames g \<longrightarrow> (\<forall>err r' e'. recv_data f b r e = Ret (Inl err, r', e') \<longrightarrow> err_kind err = FlowControl)) \<and>
    (r = Inr DataRead \<or> (\<exists>r' e'. 0 < room \<and> reader_poll_read waker room r e = Ret (Ready (Inr []), r', e')) \<longrightarrow> got = sg_written g)"
proof -
  note honest = sent_frames_honest [OF assms(1,2)]
  have "rcvr_reach (frames_of (sg_written g)) window r got charged"
    using rcvr_reach_mono [OF assms(3)] honest by blast
  note d = rcvr_delivers [OF this]
  have "got = take (length got) (sg_written g)" using d by blast
  moreover have "\<forall>err r' e'. recv_data f b r e = Ret (Inl err, r', e') \<longrightarrow> err_kind err = FlowControl" if "(f, b) \<in> sg_frames g"
    using d honest [OF that] by blast
  moreover have "got = sg_written g"
    if "r = Inr DataRead \<or> (\<exists>r' e'. 0 < room \<and> reader_poll_read waker room r e = Ret (Ready (Inr []), r', e'))"
    using d that by blast
  ultimately show ?thesis by blast
qed

theorem stream_pair_reliable_witness:
  "\<exists>r r' e'. rcvr_reach (\<lambda>f b. (f, b) \<in> sg_frames sample_ghost) 10 r [1, 2, 3] 3 \<and>
     reader_poll_read 0 4 r no_effects = Ret (Ready (Inr []), r', e') \<and> sg_written sample_ghost = [1, 2, 3]"
proof -
  let ?P = "\<lambda>f b. (f, b) \<in> sg_frames sample_ghost"
  let ?r = "\<lambda>n d. Inr (DataRcvd \<lparr>dr_stream_id = StreamId 0, dr_rcvbuf = \<lparr>rb_nread = n, rb_largest_offset = 3, rb_segments = d\<rparr>\<rparr>)"
  have w: "within64 sample_fin [1, 2, 3]" "?P sample_fin [1, 2, 3]" by (simp_all add: within64_def sample_fin_def sample_ghost_def)
  have 0: "rcvr_reach ?P 10 (arc_recver_new (StreamId 0) 10) [] 0" by (rule rcvr_start) simp
  have "recv_data sample_fin [1, 2, 3] (arc_recver_new (StreamId 0) 10) no_effects =
      Ret (Inr (True, 3), ?r 0 [\<lparr>seg_offset = 0, seg_data = [1, 2, 3]\<rparr>], no_effects)"
    by (simp add: recver_eval sample_fin_def)
  then have 1: "rcvr_reach ?P 10 (?r 0 [\<lparr>seg_offset = 0, seg_data = [1, 2, 3]\<rparr>]) [] (0 + 3)"
    by (rule rcvr_frame [where peer = ?P, OF 0 w])
  have "reader_poll_read 0 4 (?r 0 [\<lparr>seg_offset = 0, seg_data = [1, 2, 3]\<rparr>]) no_effects = Ret (Ready (Inr [1, 2, 3]), Inr DataRead, no_effects)"
    by (simp add: reader_poll_read_def dr_poll_read_def dr_is_all_read_def rb_is_empty_def try_read_def read_loop.simps)
  from rcvr_read [OF 1 this] have 2: "rcvr_reach ?P 10 (Inr DataRead) [1, 2, 3] 3" by simp
  have "reader_poll_read 0 4 (Inr DataRead) no_effects = Ret (Ready (Inr []), Inr DataRead, no_effects)" by (simp add: reader_poll_read_def)
  then show ?thesis using stream_pair_reliable [OF sample_sender_reach _ 2] 2 by (auto simp: sid_ok_def)
qed

end
