(* ===== verification/Local_Cids.thy ===== *)
theory Local_Cids
  imports Index_Deque Frames "HOL-Library.Multiset"
begin

section \<open>Connection IDs issued to the peer: qbase/src/cid/local_cid.rs\<close>

text \<open>
  An endpoint issues connection IDs in numbered NEW\_CONNECTION\_ID frames and enters each of them in the routing table of received packets; the peer retires them
  one by one, and every retired one is replaced. \<open>ISSUED\<close> is external code: it generates unique connection IDs and sends frames. Here
  \<open>G n\<close> is what the \<open>n\<close>-th call generates, the connection ID and the random reset token of its frame, and the state records
  the number of calls, the frames sent and the IDs handed to \<open>retire_cid\<close>, which takes them out of the routing table.
\<close>

record local_cids =
  lc_deque :: "(connection_id \<times> byte list) option index_deque"
  lc_limit :: "nat option"
  lc_made :: nat
  lc_sent :: "new_connection_id_frame list"
  lc_retired :: "connection_id list"

type_synonym cid_gen = "nat \<Rightarrow> connection_id \<times> byte list"

definition lc_push :: "connection_id \<times> byte list \<Rightarrow> local_cids \<Rightarrow> local_cids run" where
  "lc_push entry s =
     (case id_push_back VARINT_MAX (Some entry) (lc_deque s) of
        (Inl _, _) \<Rightarrow> Panic | (Inr _, d) \<Rightarrow> Ret (s\<lparr>lc_deque := d\<rparr>))"

text \<open>Generate a connection ID, send it to the peer in a frame and keep it.\<close>

definition lc_issue :: "cid_gen \<Rightarrow> varint \<Rightarrow> varint \<Rightarrow> local_cids \<Rightarrow> local_cids run" where
  "lc_issue G seq retire_prior_to s =
     (let (cid, token) = G (lc_made s);
          frame = NewConnectionIdFrame seq retire_prior_to cid token
      in lc_push (nc_id frame, nc_reset_token frame) (s\<lparr>lc_made := lc_made s + 1, lc_sent := lc_sent s @ [frame]\<rparr>))"

definition lc_new :: "connection_id \<Rightarrow> cid_gen \<Rightarrow> local_cids run" where
  "lc_new scid G =
     bind_run (lc_push (scid, replicate RESET_TOKEN_SIZE 0)
       \<lparr>lc_deque = id_default, lc_limit = None, lc_made = 0, lc_sent = [], lc_retired = []\<rparr>) (\<lambda>s.
     lc_issue G (from_u32 1) (from_u32 0) s)"

definition initial_scid :: "local_cids \<Rightarrow> connection_id option" where
  "initial_scid s = (case id_get (lc_deque s) 0 of None \<Rightarrow> None | Some v \<Rightarrow> map_option fst v)"

definition issue_new_cid :: "cid_gen \<Rightarrow> local_cids \<Rightarrow> local_cids run" where
  "issue_new_cid G s =
     bind_run (unwrap_result (from_u64 (largest (lc_deque s)))) (\<lambda>seq.
     bind_run (unwrap_result (from_u64 (id_offset (lc_deque s)))) (\<lambda>retire_prior_to.
       lc_issue G seq retire_prior_to s))"

fun issue_times :: "cid_gen \<Rightarrow> nat \<Rightarrow> local_cids \<Rightarrow> local_cids run" where
  "issue_times G 0 s = Ret s"
| "issue_times G (Suc n) s = bind_run (issue_new_cid G s) (issue_times G n)"

definition set_limit :: "cid_gen \<Rightarrow> nat \<Rightarrow> local_cids \<Rightarrow> ((quic_error + unit) \<times> local_cids) run" where
  "set_limit G active_cid_limit s =
     assert_run (lc_limit s = None)
       (if active_cid_limit < 2 then Ret (Inl (QuicError TransportParameter (ErrV1 Crypto)), s)
        else bind_run (issue_times G (active_cid_limit - largest (lc_deque s)) s) (\<lambda>s.
               Ret (Inr (), s\<lparr>lc_limit := Some active_cid_limit\<rparr>)))"

definition recv_retire_cid_frame ::
    "cid_gen \<Rightarrow> retire_connection_id_frame \<Rightarrow> local_cids \<Rightarrow> ((quic_error + unit) \<times> local_cids) run" where
  "recv_retire_cid_frame G frame s =
     (let seq = into_inner (rc_sequence frame)
      in if largest (lc_deque s) \<le> seq
         then Ret (Inl (QuicError ConnectionIdLimit (ErrV1 RetireConnectionId)), s)
         else case id_get (lc_deque s) seq of
                Some (Some (cid, _)) \<Rightarrow>
                  bind_run (expect (id_get_mut (lc_deque s) seq (\<lambda>_. None))) (\<lambda>d.
                  let n = length (takeWhile (\<lambda>v. v = None) (id_deque d))
                  in bind_run (advance n d) (\<lambda>d.
                     bind_run (issue_new_cid G (s\<lparr>lc_deque := d\<rparr>)) (\<lambda>s.
                       Ret (Inr (), s\<lparr>lc_retired := lc_retired s @ [cid]\<rparr>))))
              | _ \<Rightarrow> Ret (Inr (), s))"

definition active_cids :: "(connection_id \<times> byte list) option index_deque \<Rightarrow> connection_id list" where
  "active_cids d = map (\<lambda>v. fst (the v)) (filter (\<lambda>v. v \<noteq> None) (id_deque d))"

definition lc_clear :: "local_cids \<Rightarrow> local_cids" where
  "lc_clear s = s\<lparr>lc_retired := lc_retired s @ active_cids (lc_deque s)\<rparr>"

subsection \<open>What is issued, active and retired\<close>

text \<open>The states of a connection up to its end: the limit of the peer, a variable-length integer, is set at
  most once; retirements come in any order and number, as long as not all of the $2^{62}$ sequence numbers are used up.\<close>

inductive lc_reach :: "cid_gen \<Rightarrow> connection_id \<Rightarrow> local_cids \<Rightarrow> bool" for G scid where
  lcr_new: "lc_new scid G = Ret s \<Longrightarrow> lc_reach G scid s"
| lcr_limit: "lc_reach G scid s \<Longrightarrow> n \<le> VARINT_MAX \<Longrightarrow> set_limit G n s = Ret (r, s') \<Longrightarrow> lc_reach G scid s'"
| lcr_retire: "lc_reach G scid s \<Longrightarrow> largest (lc_deque s) \<le> VARINT_MAX \<Longrightarrow> recv_retire_cid_frame G f s = Ret (r, s') \<Longrightarrow> lc_reach G scid s'"

definition lc_bound :: "local_cids \<Rightarrow> nat" where
  "lc_bound s = (case lc_limit s of None \<Rightarrow> 2 | Some l \<Rightarrow> l)"

definition issued_cids :: "cid_gen \<Rightarrow> connection_id \<Rightarrow> nat \<Rightarrow> connection_id list" where
  "issued_cids G scid n = scid # map (\<lambda>i. fst (G i)) [0..<n]"

text \<open>The frames are numbered from 1 on, in the order of the deque; \<open>sent_ok\<close> is what the frame with the number \<open>i\<close> says.\<close>

definition sent_ok :: "cid_gen \<Rightarrow> nat \<Rightarrow> new_connection_id_frame \<Rightarrow> bool" where
  "sent_ok G i f \<longleftrightarrow> nc_sequence f = VarInt (Suc i) \<and> into_inner (nc_retire_prior_to f) \<le> Suc i \<and> (nc_id f, nc_reset_token f) = G i"

lemma active_cids_snoc [simp]: "active_cids (d\<lparr>id_deque := id_deque d @ [Some e]\<rparr>) = active_cids d @ [fst e]"
  by (simp add: active_cids_def)

lemma lc_push_ok:
  assumes "largest (lc_deque s) \<le> VARINT_MAX"
  shows "lc_push e s = Ret (s\<lparr>lc_deque := (lc_deque s)\<lparr>id_deque := id_deque (lc_deque s) @ [Some e]\<rparr>\<rparr>)"
  using id_push_back_ok [OF assms] by (simp add: lc_push_def VARINT_MAX_def)

lemma issue_eq:
  assumes "largest (lc_deque s) \<le> VARINT_MAX"
  shows "issue_new_cid G s = Ret (s\<lparr>lc_deque := (lc_deque s)\<lparr>id_deque := id_deque (lc_deque s) @ [Some (G (lc_made s))]\<rparr>,
      lc_made := lc_made s + 1,
      lc_sent := lc_sent s @ [NewConnectionIdFrame (VarInt (largest (lc_deque s))) (VarInt (id_offset (lc_deque s)))
        (fst (G (lc_made s))) (snd (G (lc_made s)))]\<rparr>)"
proof -
  have "id_offset (lc_deque s) \<le> VARINT_MAX" using assms by (simp add: largest_def)
  then show ?thesis using assms
    by (simp add: issue_new_cid_def lc_issue_def lc_push_ok from_u64_def VARINT_MAX_def split: prod.splits)
qed

text \<open>Issuing keeps the books, whatever the number of active IDs is.\<close>

definition lc_books :: "cid_gen \<Rightarrow> connection_id \<Rightarrow> local_cids \<Rightarrow> connection_id list \<Rightarrow> bool" where
  "lc_books G scid s gone \<longleftrightarrow>
     largest (lc_deque s) = Suc (lc_made s) \<and> 1 \<le> lc_made s \<and> Suc (lc_made s) \<le> VARINT_MAX + 1 \<and> length (lc_sent s) = lc_made s \<and>
     (\<forall>i < lc_made s. sent_ok G i (lc_sent s ! i)) \<and>
     (\<forall>i e. id_get (lc_deque s) (Suc i) = Some (Some e) \<longrightarrow> e = G i) \<and>
     mset (active_cids (lc_deque s)) + mset gone = mset (issued_cids G scid (lc_made s))"

definition lc_inv :: "cid_gen \<Rightarrow> connection_id \<Rightarrow> local_cids \<Rightarrow> bool" where
  "lc_inv G scid s \<longleftrightarrow> lc_books G scid s (lc_retired s) \<and> length (active_cids (lc_deque s)) \<le> lc_bound s \<and> 2 \<le> lc_bound s"

lemma issue_books:
  assumes inv: "lc_books G scid s gone" and le: "largest (lc_deque s) \<le> VARINT_MAX"
  obtains s' where "issue_new_cid G s = Ret s'" "lc_books G scid s' gone" "lc_retired s' = lc_retired s" "lc_limit s' = lc_limit s"
    "length (active_cids (lc_deque s')) = Suc (length (active_cids (lc_deque s)))" "largest (lc_deque s') = Suc (largest (lc_deque s))"
    "id_offset (lc_deque s') = id_offset (lc_deque s)"
proof -
  let ?d = "(lc_deque s)\<lparr>id_deque := id_deque (lc_deque s) @ [Some (G (lc_made s))]\<rparr>"
  let ?f = "NewConnectionIdFrame (VarInt (largest (lc_deque s))) (VarInt (id_offset (lc_deque s))) (fst (G (lc_made s))) (snd (G (lc_made s)))"
  let ?s = "s\<lparr>lc_deque := ?d, lc_made := lc_made s + 1, lc_sent := lc_sent s @ [?f]\<rparr>"
  have off: "id_offset (lc_deque s) \<le> largest (lc_deque s)" by (simp add: largest_def)
  have "\<forall>i < Suc (lc_made s). sent_ok G i ((lc_sent s @ [?f]) ! i)"
    using inv off by (auto simp: lc_books_def sent_ok_def nth_append less_Suc_eq)
  moreover have "e = G i" if "id_get ?d (Suc i) = Some (Some e)" for i e
    using that inv by (cases e) (auto simp: id_get_snoc lc_books_def split: if_splits)
  ultimately have "lc_books G scid ?s gone"
    using inv le by (auto simp: lc_books_def largest_def issued_cids_def)
  then show thesis using that [OF issue_eq [OF le]] by (simp add: largest_def)
qed

lemma issue_times_books:
  assumes "lc_books G scid s gone" "largest (lc_deque s) + n \<le> VARINT_MAX + 1"
  shows "\<exists>s'. issue_times G n s = Ret s' \<and> lc_books G scid s' gone \<and> lc_retired s' = lc_retired s \<and> lc_limit s' = lc_limit s \<and>
    length (active_cids (lc_deque s')) = length (active_cids (lc_deque s)) + n \<and> largest (lc_deque s') = largest (lc_deque s) + n"
  using assms
proof (induction n arbitrary: s)
  case (Suc n)
  then have le: "largest (lc_deque s) \<le> VARINT_MAX" by simp
  obtain s1 where s1: "issue_new_cid G s = Ret s1" "lc_books G scid s1 gone" "lc_retired s1 = lc_retired s" "lc_limit s1 = lc_limit s"
      "length (active_cids (lc_deque s1)) = Suc (length (active_cids (lc_deque s)))" "largest (lc_deque s1) = Suc (largest (lc_deque s))"
    by (rule issue_books [OF Suc.prems(1) le])
  have "largest (lc_deque s1) + n \<le> VARINT_MAX + 1" using Suc.prems(2) s1(6) by simp
  from Suc.IH [OF s1(2) this] show ?case using s1 by auto
qed auto

lemma new_inv: "\<exists>s. lc_new scid G = Ret s \<and> lc_inv G scid s"
proof -
  let ?init = "\<lparr>lc_deque = \<lparr>id_deque = [Some (scid, replicate RESET_TOKEN_SIZE 0)], id_offset = 0\<rparr>, lc_limit = None, lc_made = 0, lc_sent = [], lc_retired = []\<rparr>"
  let ?s = "\<lparr>lc_deque = \<lparr>id_deque = [Some (scid, replicate RESET_TOKEN_SIZE 0), Some (G 0)], id_offset = 0\<rparr>, lc_limit = None, lc_made = 1,
     lc_sent = [NewConnectionIdFrame (VarInt 1) (VarInt 0) (fst (G 0)) (snd (G 0))], lc_retired = []\<rparr>"
  have "lc_push (scid, replicate RESET_TOKEN_SIZE 0) \<lparr>lc_deque = id_default, lc_limit = None, lc_made = 0, lc_sent = [], lc_retired = []\<rparr> = Ret ?init"
    by (simp add: lc_push_def id_push_back_def overflowing_add64_def id_default_def VARINT_MAX_def)
  moreover have "lc_issue G (VarInt 1) (VarInt 0) ?init = Ret ?s"
    by (cases "G 0") (simp add: lc_issue_def lc_push_ok largest_def VARINT_MAX_def)
  ultimately have "lc_new scid G = Ret ?s" by (simp add: lc_new_def from_u32_def)
  moreover have "lc_inv G scid ?s"
    by (auto simp: lc_inv_def lc_books_def largest_def sent_ok_def id_get_def contain_def active_cids_def lc_bound_def issued_cids_def VARINT_MAX_def
        less_Suc_eq nth_Cons split: nat.splits)
  ultimately show ?thesis by blast
qed

lemma active_cids_take:
  assumes "id_get d i = Some (Some (cid, t))" "id_get_mut d i (\<lambda>_. None) = Some d'"
  shows "mset (active_cids d) = add_mset cid (mset (active_cids d'))" "id_offset d' = id_offset d" "largest d' = largest d"
    "\<And>j e. id_get d' j = Some (Some e) \<Longrightarrow> id_get d j = Some (Some e)"
proof -
  let ?p = "i - id_offset d" and ?xs = "id_deque d"
  have p: "?p < length ?xs" "?xs ! ?p = Some (cid, t)" "contain d i"
    using assms(1) by (auto simp: id_get_def contain_def largest_def split: if_splits)
  have d': "d' = d\<lparr>id_deque := ?xs[?p := None]\<rparr>" using assms(2) p(3) by (auto simp: id_get_mut_def)
  have xs: "?xs = take ?p ?xs @ Some (cid, t) # drop (Suc ?p) ?xs" using p by (metis id_take_nth_drop)
  have upd: "?xs[?p := None] = take ?p ?xs @ None # drop (Suc ?p) ?xs" using p(1) by (simp add: upd_conv_take_nth_drop)
  show "mset (active_cids d) = add_mset cid (mset (active_cids d'))"
    unfolding active_cids_def d' by (subst xs) (simp add: upd)
  show "id_offset d' = id_offset d" "largest d' = largest d" by (simp_all add: d' largest_def)
  show "id_get d j = Some (Some e)" if "id_get d' j = Some (Some e)" for j e
    using that p(1) by (cases "j - id_offset d = ?p") (auto simp: d' id_get_def contain_def largest_def split: if_splits)
qed

lemma active_cids_advance:
  assumes "largest d < u64_bound"
  obtains d' where "advance (length (takeWhile (\<lambda>v. v = None) (id_deque d))) d = Ret d'" "active_cids d' = active_cids d"
    "largest d' = largest d" "\<forall>j e. id_get d' j = Some (Some e) \<longrightarrow> id_get d j = Some (Some e)"
proof -
  let ?n = "length (takeWhile (\<lambda>v. v = None) (id_deque d))"
  have n: "?n \<le> id_len d" by (simp add: id_len_def length_takeWhile_le)
  have "filter (\<lambda>v. v \<noteq> None) (id_deque d) = filter (\<lambda>v. v \<noteq> None) (drop ?n (id_deque d))"
  proof -
    have "filter (\<lambda>v. v \<noteq> None) (takeWhile (\<lambda>v. v = None) (id_deque d)) = []"
      using set_takeWhileD by (fastforce simp: filter_empty_conv)
    then show ?thesis by (metis append_Nil drop_length_takeWhile filter_append takeWhile_dropWhile_id)
  qed
  then have "active_cids (snd (drain_to (id_offset d + ?n) d)) = active_cids d"
    using n by (simp add: active_cids_def drain_to_def Let_def id_len_def)
  moreover have "id_get d j = Some (Some e)" if "id_get (snd (drain_to (id_offset d + ?n) d)) j = Some (Some e)" for j e
    using that by (simp add: drain_to_get split: if_splits)
  ultimately show thesis using that [OF advance_is_drain_to [OF n assms]] by (simp add: drain_to_largest)
qed

lemma limit_inv:
  assumes inv: "lc_inv G scid s"
  shows "lc_limit s = None \<Longrightarrow> n \<le> VARINT_MAX \<Longrightarrow> \<exists>r s'. set_limit G n s = Ret (r, s') \<and> lc_inv G scid s'"
proof -
  assume none: "lc_limit s = None" and n: "n \<le> VARINT_MAX"
  show "\<exists>r s'. set_limit G n s = Ret (r, s') \<and> lc_inv G scid s'"
  proof (cases "n < 2")
    case True
    then show ?thesis using inv none by (simp add: set_limit_def)
  next
    case False
    let ?d = "lc_deque s"
    have b: "lc_books G scid s (lc_retired s)" and act: "length (active_cids ?d) \<le> 2" and lg: "2 \<le> largest ?d" "largest ?d \<le> VARINT_MAX + 1"
      using inv none by (auto simp: lc_inv_def lc_books_def lc_bound_def)
    have "largest ?d + (n - largest ?d) \<le> VARINT_MAX + 1" using n lg by simp
    from issue_times_books [OF b this] obtain s' where s': "issue_times G (n - largest ?d) s = Ret s'" "lc_books G scid s' (lc_retired s)"
        "lc_retired s' = lc_retired s" "length (active_cids (lc_deque s')) = length (active_cids ?d) + (n - largest ?d)" by blast
    have "length (active_cids (lc_deque s')) \<le> n" using s'(4) act lg False by simp
    moreover have "lc_books G scid (s'\<lparr>lc_limit := Some n\<rparr>) (lc_retired s')" using s'(2,3) by (simp add: lc_books_def)
    ultimately have "lc_inv G scid (s'\<lparr>lc_limit := Some n\<rparr>)" using False by (simp add: lc_inv_def lc_bound_def)
    then show ?thesis using s'(1) none False by (simp add: set_limit_def)
  qed
qed

lemma retire_inv:
  assumes inv: "lc_inv G scid s" and room: "largest (lc_deque s) \<le> VARINT_MAX"
  shows "\<exists>r s'. recv_retire_cid_frame G f s = Ret (r, s') \<and> lc_inv G scid s' \<and>
    length (active_cids (lc_deque s')) = length (active_cids (lc_deque s))"
proof -
  let ?seq = "into_inner (rc_sequence f)" and ?d = "lc_deque s"
  have b: "lc_books G scid s (lc_retired s)" using inv by (simp add: lc_inv_def)
  show ?thesis
  proof (cases "?seq < largest ?d \<and> (\<exists>e. id_get ?d ?seq = Some (Some e))")
    case False
    then have "\<exists>r. recv_retire_cid_frame G f s = Ret (r, s)"
      by (auto simp: recv_retire_cid_frame_def Let_def split: option.splits)
    then show ?thesis using inv by blast
  next
    case True
    then obtain cid t where e: "id_get ?d ?seq = Some (Some (cid, t))" by auto
    then obtain d1 where d1: "id_get_mut ?d ?seq (\<lambda>_. None) = Some d1" by (auto simp: id_get_mut_def id_get_def split: if_splits)
    note t1 = active_cids_take [OF e d1]
    have lt: "largest d1 < u64_bound" using t1(3) room by (simp add: VARINT_MAX_def)
    obtain d2 where d2: "advance (length (takeWhile (\<lambda>v. v = None) (id_deque d1))) d1 = Ret d2" "active_cids d2 = active_cids d1"
        "largest d2 = largest d1" "\<forall>j e. id_get d2 j = Some (Some e) \<longrightarrow> id_get d1 j = Some (Some e)"
      by (rule active_cids_advance [OF lt])
    let ?s1 = "s\<lparr>lc_deque := d2\<rparr>"
    have b1: "lc_books G scid ?s1 (cid # lc_retired s)"
    proof -
      have "e = G i" if "id_get d2 (Suc i) = Some (Some e)" for i e using t1(4) [OF d2(4) [rule_format, OF that]] b by (cases e) (auto simp: lc_books_def)
      moreover have "mset (active_cids d2) + mset (cid # lc_retired s) = mset (issued_cids G scid (lc_made s))"
        using b t1(1) d2(2) by (simp add: lc_books_def)
      ultimately show ?thesis using b d2(3) t1(3) by (auto simp: lc_books_def)
    qed
    have le: "largest (lc_deque ?s1) \<le> VARINT_MAX" using room d2(3) t1(3) by simp
    obtain s2 where s2: "issue_new_cid G ?s1 = Ret s2" "lc_books G scid s2 (cid # lc_retired s)" "lc_retired s2 = lc_retired ?s1" "lc_limit s2 = lc_limit ?s1"
        "length (active_cids (lc_deque s2)) = Suc (length (active_cids (lc_deque ?s1)))"
      by (rule issue_books [OF b1 le])
    have run: "recv_retire_cid_frame G f s = Ret (Inr (), s2\<lparr>lc_retired := lc_retired s @ [cid]\<rparr>)"
      using True e d1 d2(1) s2(1,3) by (simp add: recv_retire_cid_frame_def Let_def)
    have "length (active_cids ?d) = Suc (length (active_cids d1))" using arg_cong [OF t1(1), of size] by simp
    then have "length (active_cids (lc_deque s2)) = length (active_cids ?d)" using s2(5) d2(2) by simp
    moreover have "lc_books G scid (s2\<lparr>lc_retired := lc_retired s @ [cid]\<rparr>) (lc_retired s @ [cid])" using s2(2) by (simp add: lc_books_def)
    ultimately show ?thesis using run inv s2(4) by (simp add: lc_inv_def lc_bound_def)
  qed
qed

lemma lc_reach_inv: "lc_reach G scid s \<Longrightarrow> lc_inv G scid s"
proof (induction rule: lc_reach.induct)
  case (lcr_new s)
  then show ?case using new_inv [of scid G] by auto
next
  case (lcr_limit s n r s')
  then have "lc_limit s = None" by (simp add: set_limit_def run_simps)
  then show ?case using limit_inv [OF lcr_limit.IH _ lcr_limit.hyps(2)] lcr_limit.hyps(3) by auto
next
  case (lcr_retire s f r s')
  then show ?case using retire_inv [OF lcr_retire.IH lcr_retire.hyps(2), of f] by auto
qed

text \<open>
  C33: The connection IDs given to the peer are accounted for. In every state: setting the limit of the peer, once, and retiring an ID, while sequence numbers are left, return; at most as many IDs are active as the peer allows (two before its limit is known); the frame with
  sequence number \<open>i + 1\<close> carries the \<open>i\<close>-th generated ID and what is kept under that number is that ID; every ID issued, the initial one included, is either active or was
  taken out of the routing table exactly once; retiring replaces, so the number of active IDs stays; and \<open>clear\<close> takes out all that are left.
\<close>

theorem local_cids_accounted:
  assumes "lc_reach G scid s"
  shows "length (active_cids (lc_deque s)) \<le> (case lc_limit s of None \<Rightarrow> 2 | Some l \<Rightarrow> l) \<and>
    (\<forall>i < length (lc_sent s). nc_sequence (lc_sent s ! i) = VarInt (Suc i) \<and> (nc_id (lc_sent s ! i), nc_reset_token (lc_sent s ! i)) = G i \<and>
       (\<forall>e. id_get (lc_deque s) (Suc i) = Some (Some e) \<longrightarrow> e = G i)) \<and>
    mset (active_cids (lc_deque s)) + mset (lc_retired s) = mset (scid # map (\<lambda>i. fst (G i)) [0..<length (lc_sent s)]) \<and>
    mset (lc_retired (lc_clear s)) = mset (scid # map (\<lambda>i. fst (G i)) [0..<length (lc_sent s)]) \<and>
    (lc_limit s = None \<and> n \<le> VARINT_MAX \<longrightarrow> returns (set_limit G n s)) \<and>
    (largest (lc_deque s) \<le> VARINT_MAX \<longrightarrow> (\<exists>r s'. recv_retire_cid_frame G f s = Ret (r, s') \<and>
       length (active_cids (lc_deque s')) = length (active_cids (lc_deque s))))"
proof (intro conjI allI impI)
  have inv: "lc_inv G scid s" by (rule lc_reach_inv [OF assms])
  then have b: "lc_books G scid s (lc_retired s)" by (simp add: lc_inv_def)
  have ms: "mset (active_cids (lc_deque s)) + mset (lc_retired s) = mset (scid # map (\<lambda>i. fst (G i)) [0..<length (lc_sent s)])"
    using b by (simp add: lc_books_def issued_cids_def)
  show "length (active_cids (lc_deque s)) \<le> (case lc_limit s of None \<Rightarrow> 2 | Some l \<Rightarrow> l)" using inv by (simp add: lc_inv_def lc_bound_def)
  show "mset (active_cids (lc_deque s)) + mset (lc_retired s) = mset (scid # map (\<lambda>i. fst (G i)) [0..<length (lc_sent s)])" by (rule ms)
  show "mset (lc_retired (lc_clear s)) = mset (scid # map (\<lambda>i. fst (G i)) [0..<length (lc_sent s)])"
    using ms by (simp add: lc_clear_def add.commute)
  show "returns (set_limit G n s)" if "lc_limit s = None \<and> n \<le> VARINT_MAX" using limit_inv [OF inv, of n] that by (auto simp: returns_def)
  show "\<exists>r s'. recv_retire_cid_frame G f s = Ret (r, s') \<and> length (active_cids (lc_deque s')) = length (active_cids (lc_deque s))"
    if "largest (lc_deque s) \<le> VARINT_MAX" using retire_inv [OF inv that, of f] by blast
  fix i assume i: "i < length (lc_sent s)"
  then show "nc_sequence (lc_sent s ! i) = VarInt (Suc i)" "(nc_id (lc_sent s ! i), nc_reset_token (lc_sent s ! i)) = G i"
    using b by (auto simp: lc_books_def sent_ok_def)
  show "e = G i" if "id_get (lc_deque s) (Suc i) = Some (Some e)" for e using b that by (cases e) (auto simp: lc_books_def)
qed

theorem local_cids_accounted_witness:
  "\<exists>s. lc_reach (\<lambda>n. (ConnectionId [of_nat n], [])) (ConnectionId [9]) s \<and> lc_retired s = [ConnectionId [9]] \<and>
     mset (active_cids (lc_deque s)) + {#ConnectionId [9]#} = {#ConnectionId [9], ConnectionId [0], ConnectionId [1]#}"
proof -
  let ?G = "\<lambda>n. (ConnectionId [of_nat n], [] :: byte list)" and ?c = "ConnectionId [9]"
  let ?s = "\<lparr>lc_deque = \<lparr>id_deque = [Some (?c, replicate RESET_TOKEN_SIZE 0), Some (?G 0)], id_offset = 0\<rparr>, lc_limit = None, lc_made = 1,
     lc_sent = [NewConnectionIdFrame (VarInt 1) (VarInt 0) (fst (?G 0)) []], lc_retired = []\<rparr>"
  let ?t = "\<lparr>lc_deque = \<lparr>id_deque = [Some (?G 0), Some (?G 1)], id_offset = 1\<rparr>, lc_limit = None, lc_made = 2,
     lc_sent = [NewConnectionIdFrame (VarInt 1) (VarInt 0) (fst (?G 0)) [], NewConnectionIdFrame (VarInt 2) (VarInt 1) (fst (?G 1)) []], lc_retired = [?c]\<rparr>"
  have "lc_new ?c ?G = Ret ?s"
    by (simp add: lc_new_def lc_issue_def lc_push_def id_push_back_def overflowing_add64_def id_default_def VARINT_MAX_def from_u32_def)
  then have 1: "lc_reach ?G ?c ?s" by (rule lcr_new)
  have "recv_retire_cid_frame ?G (RetireConnectionIdFrame (VarInt 0)) ?s = Ret (Inr (), ?t)"
    by (simp add: recv_retire_cid_frame_def largest_def id_get_def contain_def id_get_mut_def advance_def add64_def issue_new_cid_def from_u64_def
        lc_issue_def lc_push_def id_push_back_def overflowing_add64_def VARINT_MAX_def Let_def)
  from lcr_retire [OF 1 _ this] have 2: "lc_reach ?G ?c ?t" by (simp add: largest_def VARINT_MAX_def)
  show ?thesis using local_cids_accounted [OF 2] 2 by (intro exI [of _ ?t]) (simp add: numeral_2_eq_2)
qed

end
