(* ===== verification/Remote_Cids.thy ===== *)
theory Remote_Cids
  imports Index_Deque Frames Send_Waker "HOL-Library.Multiset"
begin

section \<open>Connection IDs issued by the peer: qbase/src/cid/remote_cid.rs\<close>

text \<open>
  The peer issues numbered connection IDs; each path borrows one through a cell (\<open>ArcCidCell\<close>) that it shares with the manager. When the peer asks to retire the IDs below a
  number, the cells that hold one of them queue for another, and a RETIRE\_CONNECTION\_ID frame goes out for each retired ID. The
  cells are a store, a list in which an \<open>Arc\<close> is an index; \<open>RETIRED\<close> is the list of the sequence numbers of the RETIRE\_CONNECTION\_ID frames sent, and a waker is
  a number.
\<close>

subsection \<open>CidCell\<close>

record cid_cell =
  cc_allocated :: "(nat \<times> connection_id) list"
  cc_waker :: "nat option"
  cc_retired :: bool
  cc_using :: bool

definition cell_new :: cid_cell where
  "cell_new = \<lparr>cc_allocated = [], cc_waker = None, cc_retired = False, cc_using = False\<rparr>"

text \<open>What a call on a cell does besides: the sequence numbers it retires and the wakers it wakes.\<close>

type_synonym cell_out = "cid_cell \<times> nat list \<times> nat list"

definition send_seqs :: "nat list \<Rightarrow> 'a run \<Rightarrow> 'a run" where
  "send_seqs seqs r = assert_run (\<forall>q \<in> set seqs. q \<le> VARINT_MAX) r"

text \<open>The loop that pops from the back while more than one is left.\<close>

definition drop_old :: "cid_cell \<Rightarrow> cid_cell \<times> nat list" where
  "drop_old c = (c\<lparr>cc_allocated := take 1 (cc_allocated c)\<rparr>, map fst (rev (drop 1 (cc_allocated c))))"

definition cell_assign :: "nat \<Rightarrow> connection_id \<Rightarrow> cid_cell \<Rightarrow> cell_out run" where
  "cell_assign seq cid c =
     assert_run (\<not> cc_retired c)
       (let c = c\<lparr>cc_allocated := (seq, cid) # cc_allocated c\<rparr>;
            (c, seqs) = (if \<not> cc_using c then drop_old c else (c, []))
        in send_seqs seqs (Ret (c\<lparr>cc_waker := None\<rparr>, seqs, case cc_waker c of None \<Rightarrow> [] | Some w \<Rightarrow> [w])))"

definition cell_revise :: "connection_id \<Rightarrow> cid_cell \<Rightarrow> cid_cell run" where
  "cell_revise dcid c =
     assert_run (\<not> cc_retired c)
       (case cc_allocated c of [] \<Rightarrow> Panic | (seq, _) # rest \<Rightarrow> Ret (c\<lparr>cc_allocated := (seq, dcid) # rest\<rparr>))"

definition borrow_cid :: "nat \<Rightarrow> cid_cell \<Rightarrow> (signals + connection_id option) \<times> cid_cell" where
  "borrow_cid tx_waker c =
     (if cc_retired c then (Inr None, c)
      else case cc_allocated c of
             [] \<Rightarrow> (Inl {CONNECTION_ID}, c\<lparr>cc_waker := Some tx_waker\<rparr>)
           | (_, cid) # _ \<Rightarrow> (Inr (Some cid), c\<lparr>cc_using := True\<rparr>))"

definition cell_renew :: "cid_cell \<Rightarrow> (cid_cell \<times> nat list) run" where
  "cell_renew c =
     assert_run (cc_using c) (let (c, seqs) = drop_old (c\<lparr>cc_using := False\<rparr>) in send_seqs seqs (Ret (c, seqs)))"

definition cell_retire :: "cid_cell \<Rightarrow> cell_out run" where
  "cell_retire c =
     (if \<not> cc_retired c
      then let seqs = map fst (cc_allocated c)
           in send_seqs seqs (Ret (c\<lparr>cc_retired := True, cc_allocated := [], cc_waker := None\<rparr>, seqs,
                case cc_waker c of None \<Rightarrow> [] | Some w \<Rightarrow> [w]))
      else Ret (c, [], []))"

subsection \<open>RemoteCids\<close>

record remote_cids =
  rm_deque :: "(nat \<times> connection_id \<times> byte list) option index_deque"
  rm_ready :: "nat index_deque"
  rm_pending :: "nat list"
  rm_limit :: nat
  rm_cursor :: nat
  rm_cells :: "cid_cell list"
  rm_sent :: "nat list"
  rm_woken :: "nat list"

definition rm_new :: "connection_id \<Rightarrow> nat \<Rightarrow> remote_cids run" where
  "rm_new initial_dcid active_cid_limit =
     (case id_push_back VARINT_MAX (Some (0, initial_dcid, replicate RESET_TOKEN_SIZE 0)) id_default of
        (Inl _, _) \<Rightarrow> Panic
      | (Inr _, d) \<Rightarrow> Ret \<lparr>rm_deque = d, rm_ready = id_default, rm_pending = [], rm_limit = active_cid_limit, rm_cursor = 0,
          rm_cells = [], rm_sent = [], rm_woken = []\<rparr>)"

definition put_cell :: "nat \<Rightarrow> cell_out \<Rightarrow> remote_cids \<Rightarrow> remote_cids" where
  "put_cell a out r =
     (case out of (c, seqs, wk) \<Rightarrow> r\<lparr>rm_cells := (rm_cells r)[a := c], rm_sent := rm_sent r @ seqs, rm_woken := rm_woken r @ wk\<rparr>)"

definition revise_initial_dcid :: "connection_id \<Rightarrow> remote_cids \<Rightarrow> remote_cids run" where
  "revise_initial_dcid responsed_dcid r =
     bind_run (expect (id_get_mut (rm_deque r) 0 (\<lambda>_. Some (0, responsed_dcid, replicate RESET_TOKEN_SIZE 0)))) (\<lambda>d.
       let r = r\<lparr>rm_deque := d\<rparr>
       in case id_get (rm_ready r) 0 of
            None \<Rightarrow> Ret r
          | Some a \<Rightarrow> bind_run (cell_revise responsed_dcid (rm_cells r ! a)) (\<lambda>c. Ret (put_cell a (c, [], []) r)))"

function arrange_idle_cid :: "remote_cids \<Rightarrow> remote_cids run" where
  "arrange_idle_cid r =
     (case rm_pending r of
        [] \<Rightarrow> Ret r
      | a # rest \<Rightarrow>
          if cc_retired (rm_cells r ! a) then arrange_idle_cid (r\<lparr>rm_pending := rest\<rparr>)
          else case id_get (rm_deque r) (rm_cursor r) of
                 Some (Some (seq, cid, _)) \<Rightarrow>
                   bind_run (cell_assign seq cid (rm_cells r ! a)) (\<lambda>out.
                   let r = (put_cell a out r)\<lparr>rm_pending := rest\<rparr>
                   in case id_push_back VARINT_MAX a (rm_ready r) of
                        (Inl _, _) \<Rightarrow> Panic
                      | (Inr _, d) \<Rightarrow> bind_run (add64 (rm_cursor r) 1) (\<lambda>n. arrange_idle_cid (r\<lparr>rm_ready := d, rm_cursor := n\<rparr>)))
               | _ \<Rightarrow> Ret r)"
  by pat_completeness auto
termination
  by (relation "measure (\<lambda>r. length (rm_pending r))") (auto simp: put_cell_def)

declare arrange_idle_cid.simps [simp del]

fun requeue :: "nat \<Rightarrow> remote_cids \<Rightarrow> remote_cids run" where
  "requeue 0 r = Ret r"
| "requeue (Suc n) r =
     (case id_pop_front (rm_ready r) of
        (None, _) \<Rightarrow> Panic
      | (Some (_, a), d) \<Rightarrow>
          requeue n (if cc_retired (rm_cells r ! a) then r\<lparr>rm_ready := d\<rparr> else r\<lparr>rm_ready := d, rm_pending := rm_pending r @ [a]\<rparr>))"

definition retire_unused :: "nat \<Rightarrow> nat \<Rightarrow> remote_cids \<Rightarrow> remote_cids run" where
  "retire_unused from tomb_seq r =
     send_seqs [from..<tomb_seq] (Ret (r\<lparr>rm_sent := rm_sent r @ [from..<tomb_seq], rm_ready := reset_offset tomb_seq (rm_ready r)\<rparr>))"

definition retire_prior_to :: "nat \<Rightarrow> remote_cids \<Rightarrow> remote_cids run" where
  "retire_prior_to tomb_seq r =
     (if tomb_seq \<le> id_offset (rm_ready r) then Ret r
      else assert_run (drain_to_debug_ok tomb_seq (rm_deque r))
             (let r = r\<lparr>rm_deque := snd (drain_to tomb_seq (rm_deque r)), rm_cursor := max (rm_cursor r) tomb_seq\<rparr>
              in if id_is_empty (rm_ready r) then retire_unused (id_offset (rm_ready r)) tomb_seq r
                 else let actual_applied = largest (rm_ready r); need_reassigned = min actual_applied tomb_seq
                      in bind_run (requeue (need_reassigned - id_offset (rm_ready r)) r) (\<lambda>r.
                           if actual_applied < tomb_seq then retire_unused actual_applied tomb_seq r else Ret r)))"

definition recv_new_cid_frame :: "new_connection_id_frame \<Rightarrow> remote_cids \<Rightarrow> ((quic_error + byte list option) \<times> remote_cids) run" where
  "recv_new_cid_frame frame r =
     (let seq = into_inner (nc_sequence frame); prior = into_inner (nc_retire_prior_to frame)
      in if rm_limit r < seq - prior then Ret (Inl (QuicError ConnectionIdLimit (ErrV1 NewConnectionId)), r)
         else if seq < id_offset (rm_deque r) then Ret (Inr None, r)
         else case id_insert VARINT_MAX None seq (Some (seq, nc_id frame, nc_reset_token frame)) (rm_deque r) of
                (Inl _, _) \<Rightarrow> Panic
              | (Inr _, d) \<Rightarrow>
                  bind_run (retire_prior_to prior (r\<lparr>rm_deque := d\<rparr>)) (\<lambda>r.
                  bind_run (arrange_idle_cid r) (\<lambda>r. Ret (Inr (Some (nc_reset_token frame)), r))))"

definition apply_dcid :: "remote_cids \<Rightarrow> (nat \<times> remote_cids) run" where
  "apply_dcid r =
     (let a = length (rm_cells r)
      in bind_run (arrange_idle_cid (r\<lparr>rm_cells := rm_cells r @ [cell_new], rm_pending := rm_pending r @ [a]\<rparr>)) (\<lambda>r. Ret (a, r)))"

definition latest_dcid :: "remote_cids \<Rightarrow> connection_id option" where
  "latest_dcid r =
     (case filter (\<lambda>v. v \<noteq> None) (rev (id_deque (rm_deque r))) of
        Some (_, cid, _) # _ \<Rightarrow> Some cid | _ \<Rightarrow> None)"

text \<open>The calls of a path on its cell.\<close>

definition path_borrow :: "nat \<Rightarrow> nat \<Rightarrow> remote_cids \<Rightarrow> (signals + connection_id option) \<times> remote_cids" where
  "path_borrow a tx_waker r = (let (res, c) = borrow_cid tx_waker (rm_cells r ! a) in (res, put_cell a (c, [], []) r))"

definition path_renew :: "nat \<Rightarrow> remote_cids \<Rightarrow> remote_cids run" where
  "path_renew a r = bind_run (cell_renew (rm_cells r ! a)) (\<lambda>(c, seqs). Ret (put_cell a (c, seqs, []) r))"

definition path_retire :: "nat \<Rightarrow> remote_cids \<Rightarrow> remote_cids run" where
  "path_retire a r = bind_run (cell_retire (rm_cells r ! a)) (\<lambda>out. Ret (put_cell a out r))"


subsection \<open>Reachable states\<close>

text \<open>\<open>iss\<close> are the numbers and IDs the peer has announced, the first ID and its revision included. The parser of NEW\_CONNECTION\_ID refuses a frame that retires past itself.\<close>

definition cid_frame_ok :: "new_connection_id_frame \<Rightarrow> bool" where
  "cid_frame_ok f \<longleftrightarrow> into_inner (nc_retire_prior_to f) \<le> into_inner (nc_sequence f) \<and> into_inner (nc_sequence f) \<le> VARINT_MAX"

inductive rm_reach :: "connection_id \<Rightarrow> nat \<Rightarrow> (nat \<times> connection_id) list \<Rightarrow> remote_cids \<Rightarrow> bool" for dcid limit where
  rmr_new: "rm_new dcid limit = Ret r \<Longrightarrow> rm_reach dcid limit [(0, dcid)] r"
| rmr_frame: "rm_reach dcid limit iss r \<Longrightarrow> cid_frame_ok f \<Longrightarrow> recv_new_cid_frame f r = Ret (res, r') \<Longrightarrow>
    rm_reach dcid limit ((into_inner (nc_sequence f), nc_id f) # iss) r'"
| rmr_revise: "rm_reach dcid limit iss r \<Longrightarrow> revise_initial_dcid cid r = Ret r' \<Longrightarrow> rm_reach dcid limit ((0, cid) # iss) r'"
| rmr_apply: "rm_reach dcid limit iss r \<Longrightarrow> apply_dcid r = Ret (a, r') \<Longrightarrow> rm_reach dcid limit iss r'"
| rmr_borrow: "rm_reach dcid limit iss r \<Longrightarrow> a < length (rm_cells r) \<Longrightarrow> path_borrow a w r = (res, r') \<Longrightarrow> rm_reach dcid limit iss r'"
| rmr_renew: "rm_reach dcid limit iss r \<Longrightarrow> a < length (rm_cells r) \<Longrightarrow> path_renew a r = Ret r' \<Longrightarrow> rm_reach dcid limit iss r'"
| rmr_retire: "rm_reach dcid limit iss r \<Longrightarrow> a < length (rm_cells r) \<Longrightarrow> path_retire a r = Ret r' \<Longrightarrow> rm_reach dcid limit iss r'"

subsection \<open>The books\<close>

definition seqs_of :: "cid_cell \<Rightarrow> nat list" where
  "seqs_of c = map fst (cc_allocated c)"

definition held_seqs :: "remote_cids \<Rightarrow> nat list" where
  "held_seqs r = concat (map seqs_of (rm_cells r))"

text \<open>The numbering: what is kept of the announced IDs, and where the next one is handed out.\<close>

definition rm_numbering :: "(nat \<times> connection_id) list \<Rightarrow> remote_cids \<Rightarrow> bool" where
  "rm_numbering iss r \<longleftrightarrow>
     id_offset (rm_deque r) = id_offset (rm_ready r) \<and> largest (rm_ready r) = rm_cursor r \<and>
     rm_cursor r \<le> largest (rm_deque r) \<and> 0 < largest (rm_deque r) \<and> largest (rm_deque r) \<le> VARINT_MAX + 1 \<and> id_get (rm_deque r) 0 \<noteq> Some None \<and>
     (\<forall>i q cid t. id_get (rm_deque r) i = Some (Some (q, cid, t)) \<longrightarrow> q = i \<and> (i, cid) \<in> set iss)"

text \<open>The cells: every cell that is not retired stands in one queue, and one served under a number has the ID of that number in front.\<close>

definition serves :: "nat \<Rightarrow> cid_cell \<Rightarrow> bool" where
  "serves i c \<longleftrightarrow> cc_retired c \<or> (\<exists>cid rest. cc_allocated c = (i, cid) # rest)"

definition rm_queues :: "remote_cids \<Rightarrow> bool" where
  "rm_queues r \<longleftrightarrow>
     distinct (id_deque (rm_ready r) @ rm_pending r) \<and> set (id_deque (rm_ready r) @ rm_pending r) \<subseteq> {..<length (rm_cells r)} \<and>
     (\<forall>a < length (rm_cells r). cc_retired (rm_cells r ! a) \<or> a \<in> set (id_deque (rm_ready r) @ rm_pending r)) \<and>
     (\<forall>i a. id_get (rm_ready r) i = Some a \<longrightarrow> serves i (rm_cells r ! a))"

definition cell_ok :: "(nat \<times> connection_id) list \<Rightarrow> cid_cell \<Rightarrow> bool" where
  "cell_ok iss c \<longleftrightarrow> set (cc_allocated c) \<subseteq> set iss \<and> (cc_retired c \<longrightarrow> cc_allocated c = [])"

definition rm_books :: "(nat \<times> connection_id) list \<Rightarrow> remote_cids \<Rightarrow> bool" where
  "rm_books iss r \<longleftrightarrow> rm_numbering iss r \<and> rm_queues r \<and> (\<forall>c \<in> set (rm_cells r). cell_ok iss c) \<and>
     mset (rm_sent r) + mset (held_seqs r) = mset [0..<rm_cursor r]"

definition rm_waiting :: "remote_cids \<Rightarrow> bool" where
  "rm_waiting r \<longleftrightarrow> (\<forall>a \<in> set (rm_pending r). \<not> cc_retired (rm_cells r ! a) \<longrightarrow> (\<forall>v. id_get (rm_deque r) (rm_cursor r) \<noteq> Some (Some v)))"

lemma concat_map_update:
  "a < length xs \<Longrightarrow> mset (concat (map f (xs[a := c]))) + mset (f (xs ! a)) = mset (concat (map f xs)) + mset (f c)"
proof (induction xs arbitrary: a)
  case (Cons x xs)
  then show ?case by (cases a) (auto simp: add_ac)
qed simp

lemma put_cell_simps [simp]:
  "rm_deque (put_cell a out r) = rm_deque r" "rm_ready (put_cell a out r) = rm_ready r" "rm_pending (put_cell a out r) = rm_pending r"
  "rm_cursor (put_cell a out r) = rm_cursor r" "rm_limit (put_cell a out r) = rm_limit r" "length (rm_cells (put_cell a out r)) = length (rm_cells r)"
  "rm_cells (put_cell a (c, q, w) r) = (rm_cells r)[a := c]" "rm_sent (put_cell a (c, q, w) r) = rm_sent r @ q"
  by (cases out; simp add: put_cell_def)+

lemma put_cell_held:
  "a < length (rm_cells r) \<Longrightarrow> mset (held_seqs (put_cell a (c, q, w) r)) + mset (seqs_of (rm_cells r ! a)) = mset (held_seqs r) + mset (seqs_of c)"
  by (simp add: held_seqs_def concat_map_update)

text \<open>A call on one cell that moves numbers from the cell to the frames and nothing else keeps the books.\<close>

lemma put_cell_books:
  assumes "rm_books iss r" "a < length (rm_cells r)" "cell_ok iss' c" "set iss \<subseteq> set iss'"
    "mset (seqs_of (rm_cells r ! a)) = mset (seqs_of c) + mset q"
    "cc_retired (rm_cells r ! a) \<longrightarrow> cc_retired c" "\<And>i. serves i (rm_cells r ! a) \<Longrightarrow> serves i c"
  shows "rm_books iss' (put_cell a (c, q, w) r)"
proof -
  let ?r = "put_cell a (c, q, w) r"
  have "rm_numbering iss' ?r" using assms(1,4) by (auto simp: rm_books_def rm_numbering_def)
  moreover have "rm_queues ?r"
    using assms by (auto simp: rm_books_def rm_queues_def nth_list_update split: if_splits)
  moreover have "\<forall>x \<in> set (rm_cells ?r). cell_ok iss' x"
  proof -
    have "cell_ok iss' x" if "cell_ok iss x" for x using that assms(4) by (auto simp: cell_ok_def)
    then show ?thesis using assms(1,3) set_update_subset_insert [of "rm_cells r" a c] by (auto simp: rm_books_def)
  qed
  moreover have "mset (rm_sent ?r) + mset (held_seqs ?r) = mset [0..<rm_cursor ?r]"
  proof -
    have "mset (held_seqs ?r) + (mset (seqs_of c) + mset q) = mset (held_seqs r) + mset (seqs_of c)"
      using put_cell_held [OF assms(2), of c q w] assms(5) by simp
    then have "mset (held_seqs ?r) + mset q = mset (held_seqs r)" by (simp add: add_ac)
    then have "mset (rm_sent ?r) + mset (held_seqs ?r) = mset (rm_sent r) + mset (held_seqs r)" by (simp add: add_ac)
    then show ?thesis using assms(1) by (simp only: rm_books_def put_cell_simps)
  qed
  ultimately show ?thesis by (simp add: rm_books_def)
qed

lemma put_cell_waiting:
  "rm_waiting r \<Longrightarrow> cc_retired (rm_cells r ! a) \<longrightarrow> cc_retired c \<Longrightarrow> rm_waiting (put_cell a (c, q, w) r)"
  by (cases "a < length (rm_cells r)") (auto simp: rm_waiting_def nth_list_update list_update_beyond split: if_splits)

lemma books_seq_bound: "rm_books iss r \<Longrightarrow> q \<in> set (held_seqs r) \<Longrightarrow> q \<le> VARINT_MAX"
proof -
  assume b: "rm_books iss r" and q: "q \<in> set (held_seqs r)"
  have "q \<in># mset (rm_sent r) + mset (held_seqs r)" using q by simp
  then have "q \<in># mset [0..<rm_cursor r]" using b by (simp only: rm_books_def)
  then have "q < rm_cursor r" by simp
  then show ?thesis using b by (auto simp: rm_books_def rm_numbering_def)
qed

lemma cell_seq_bound:
  "rm_books iss r \<Longrightarrow> a < length (rm_cells r) \<Longrightarrow> q \<in> set (seqs_of (rm_cells r ! a)) \<Longrightarrow> q \<le> VARINT_MAX"
  by (rule books_seq_bound) (auto simp: held_seqs_def)


subsection \<open>Calls of a path on its cell\<close>

lemma borrow_books:
  assumes "rm_books iss r" "rm_waiting r" "a < length (rm_cells r)" "path_borrow a w r = (res, r')"
  shows "rm_books iss r' \<and> rm_waiting r'"
proof -
  let ?c = "rm_cells r ! a"
  obtain c where r': "r' = put_cell a (c, [], []) r" and c: "cc_allocated c = cc_allocated ?c" "cc_retired c = cc_retired ?c"
    using assms(4) by (auto simp: path_borrow_def borrow_cid_def split: if_splits list.splits)
  have "cell_ok iss ?c" using assms(1,3) by (simp add: rm_books_def)
  then have "rm_books iss r'" unfolding r' using assms(1,3) c by (intro put_cell_books) (auto simp: cell_ok_def seqs_of_def serves_def)
  then show ?thesis using r' c assms(2) by (simp add: put_cell_waiting)
qed

lemma take1_rev_drop1: "mset (seqs_of c) = mset (seqs_of (fst (drop_old c))) + mset (snd (drop_old c))"
  by (cases "cc_allocated c") (auto simp: drop_old_def seqs_of_def)

lemma drop_old_keeps [simp]:
  "cc_retired (fst (drop_old c)) = cc_retired c" "set (cc_allocated (fst (drop_old c))) \<subseteq> set (cc_allocated c)"
  "cc_allocated (fst (drop_old c)) = [] \<longleftrightarrow> cc_allocated c = []" "set (snd (drop_old c)) \<subseteq> set (seqs_of c)"
  "cc_waker (fst (drop_old c)) = cc_waker c" "serves i (fst (drop_old c)) = serves i c"
  by (cases "cc_allocated c"; auto simp: drop_old_def seqs_of_def serves_def dest: in_set_dropD)+

lemma send_seqs_ok: "(\<And>q. q \<in> set seqs \<Longrightarrow> q \<le> VARINT_MAX) \<Longrightarrow> send_seqs seqs r = r"
  by (simp add: send_seqs_def assert_run_def)

lemma renew_books:
  assumes "rm_books iss r" "rm_waiting r" "a < length (rm_cells r)"
  shows "cc_using (rm_cells r ! a) \<Longrightarrow> \<exists>r'. path_renew a r = Ret r' \<and> rm_books iss r' \<and> rm_waiting r'"
proof -
  let ?c = "(rm_cells r ! a)\<lparr>cc_using := False\<rparr>"
  assume u: "cc_using (rm_cells r ! a)"
  have sq: "seqs_of ?c = seqs_of (rm_cells r ! a)" by (simp add: seqs_of_def)
  have "send_seqs (snd (drop_old ?c)) x = x" for x :: "(cid_cell \<times> nat list) run"
    using cell_seq_bound [OF assms(1,3)] drop_old_keeps(4) [of ?c] sq by (intro send_seqs_ok) auto
  then have run: "path_renew a r = Ret (put_cell a (fst (drop_old ?c), snd (drop_old ?c), []) r)"
    using u by (simp add: path_renew_def cell_renew_def case_prod_unfold Let_def)
  have ok: "cell_ok iss (rm_cells r ! a)" using assms(1,3) by (simp add: rm_books_def)
  have "rm_books iss (put_cell a (fst (drop_old ?c), snd (drop_old ?c), []) r)"
  proof (rule put_cell_books [OF assms(1,3)])
    show "cell_ok iss (fst (drop_old ?c))" using ok drop_old_keeps(2) [of ?c] by (auto simp: cell_ok_def)
    show "mset (seqs_of (rm_cells r ! a)) = mset (seqs_of (fst (drop_old ?c))) + mset (snd (drop_old ?c))"
      using take1_rev_drop1 [of ?c] sq by simp
    show "serves i (fst (drop_old ?c))" if "serves i (rm_cells r ! a)" for i using that by (simp add: serves_def [of i ?c] serves_def [of i "rm_cells r ! a"])
  qed simp_all
  then show ?thesis using run assms(2) by (simp add: put_cell_waiting)
qed

lemma retire_books:
  assumes "rm_books iss r" "rm_waiting r" "a < length (rm_cells r)"
  shows "\<exists>r'. path_retire a r = Ret r' \<and> rm_books iss r' \<and> rm_waiting r' \<and> cc_retired (rm_cells r' ! a)"
proof (cases "cc_retired (rm_cells r ! a)")
  case True
  have "put_cell a (rm_cells r ! a, [], []) r = r" by (simp add: put_cell_def)
  then show ?thesis using True assms by (simp add: path_retire_def cell_retire_def)
next
  case False
  let ?c = "rm_cells r ! a" and ?w = "case cc_waker (rm_cells r ! a) of None \<Rightarrow> [] | Some w \<Rightarrow> [w]"
  let ?c' = "?c\<lparr>cc_retired := True, cc_allocated := [], cc_waker := None\<rparr>"
  have "send_seqs (map fst (cc_allocated ?c)) x = x" for x :: "cell_out run"
    using cell_seq_bound [OF assms(1,3)] by (intro send_seqs_ok) (auto simp: seqs_of_def)
  then have run: "path_retire a r = Ret (put_cell a (?c', seqs_of ?c, ?w) r)"
    using False by (simp add: path_retire_def cell_retire_def Let_def seqs_of_def)
  have "rm_books iss (put_cell a (?c', seqs_of ?c, ?w) r)"
    using False by (intro put_cell_books [OF assms(1,3)]) (simp_all add: cell_ok_def seqs_of_def serves_def)
  then show ?thesis using run assms(2,3) by (simp add: put_cell_waiting)
qed

lemma revise_books:
  assumes "rm_books iss r" "rm_waiting r" "revise_initial_dcid cid r = Ret r'"
  shows "rm_books ((0, cid) # iss) r' \<and> rm_waiting r'"
proof -
  let ?iss = "(0, cid) # iss" and ?t = "replicate RESET_TOKEN_SIZE 0 :: byte list"
  obtain d where d: "id_get_mut (rm_deque r) 0 (\<lambda>_. Some (0, cid, ?t)) = Some d"
    using assms(3) by (auto simp: revise_initial_dcid_def run_simps)
  have c0: "contain (rm_deque r) 0" and d_eq: "d = (rm_deque r)\<lparr>id_deque := (id_deque (rm_deque r))[0 := Some (0, cid, ?t)]\<rparr>"
    using d by (auto simp: id_get_mut_def contain_def split: if_splits)
  then have off: "id_offset d = 0" "id_offset (rm_deque r) = 0" "largest d = largest (rm_deque r)" "largest (rm_deque r) > 0"
    by (auto simp: contain_def largest_def)
  have get: "id_get d i = (if i = 0 then Some (Some (0, cid, ?t)) else id_get (rm_deque r) i)" for i
    using off d_eq by (auto simp: id_get_def contain_def largest_def nth_list_update)
  let ?r = "r\<lparr>rm_deque := d\<rparr>"
  have b: "rm_books ?iss ?r"
  proof -
    have "rm_numbering ?iss ?r" using assms(1) off get by (auto simp: rm_books_def rm_numbering_def)
    then show ?thesis using assms(1) by (auto simp: rm_books_def rm_queues_def cell_ok_def held_seqs_def)
  qed
  have "id_get (rm_deque r) 0 \<noteq> None" using c0 by (simp add: id_get_def)
  moreover have "id_get (rm_deque r) 0 \<noteq> Some None" using assms(1) by (simp add: rm_books_def rm_numbering_def)
  ultimately obtain v0 where "id_get (rm_deque r) 0 = Some (Some v0)" by auto
  then have w: "rm_waiting ?r" using assms(2) get by (cases "rm_cursor r = 0") (auto simp: rm_waiting_def)
  show ?thesis
  proof (cases "id_get (rm_ready r) 0")
    case None
    then show ?thesis using assms(3) d b w by (simp add: revise_initial_dcid_def)
  next
    case (Some a)
    let ?c = "rm_cells r ! a"
    have "a \<in> set (id_deque (rm_ready r))" using Some by (auto simp: id_get_iff largest_def)
    then have a: "a < length (rm_cells ?r)" using assms(1) by (auto simp: rm_books_def rm_queues_def)
    obtain q x rest where al: "cc_allocated ?c = (q, x) # rest" and nr: "\<not> cc_retired ?c"
        and r': "r' = put_cell a (?c\<lparr>cc_allocated := (q, cid) # rest\<rparr>, [], []) ?r"
      using assms(3) d Some by (auto simp: revise_initial_dcid_def cell_revise_def run_simps split: list.splits)
    have ok: "cell_ok iss ?c" "serves 0 ?c" using assms(1) a Some by (simp_all add: rm_books_def rm_queues_def)
    then have "q = 0" using al nr by (simp add: serves_def)
    then have "rm_books ?iss r'" unfolding r' using b a ok(1) al nr
      by (intro put_cell_books [where iss = ?iss]) (auto simp: cell_ok_def seqs_of_def serves_def)
    then show ?thesis using r' w nr by (simp add: put_cell_waiting)
  qed
qed


subsection \<open>Handing out IDs\<close>

lemma assign_books:
  assumes b: "rm_books iss r" and p: "rm_pending r = a # rest" and nr: "\<not> cc_retired (rm_cells r ! a)"
    and e: "id_get (rm_deque r) (rm_cursor r) = Some (Some (seq, cid, t))"
  obtains c q w where "cell_assign seq cid (rm_cells r ! a) = Ret (c, q, w)"
    "rm_books iss ((put_cell a (c, q, w) r)\<lparr>rm_pending := rest, rm_ready := (rm_ready r)\<lparr>id_deque := id_deque (rm_ready r) @ [a]\<rparr>, rm_cursor := Suc (rm_cursor r)\<rparr>)"
proof -
  let ?c = "rm_cells r ! a" and ?n = "rm_cursor r"
  have seq: "seq = ?n" "(?n, cid) \<in> set iss" and n: "?n < largest (rm_deque r)" "largest (rm_deque r) \<le> VARINT_MAX + 1"
    using b e by (auto simp: rm_books_def rm_numbering_def id_get_iff)
  have a: "a < length (rm_cells r)" and nin: "a \<notin> set (id_deque (rm_ready r))" "a \<notin> set rest"
    using b p by (auto simp: rm_books_def rm_queues_def)
  let ?c1 = "?c\<lparr>cc_allocated := (seq, cid) # cc_allocated ?c\<rparr>"
  define c2 where "c2 = (if \<not> cc_using ?c then fst (drop_old ?c1) else ?c1)"
  define q where "q = (if \<not> cc_using ?c then snd (drop_old ?c1) else [])"
  define w where "w = (case cc_waker ?c of None \<Rightarrow> [] | Some w \<Rightarrow> [w])"
  let ?c3 = "c2\<lparr>cc_waker := None\<rparr>"
  have sv: "serves ?n ?c1" using seq by (simp add: serves_def)
  then have sv3: "serves ?n ?c3" using drop_old_keeps(6) [of ?n ?c1] by (auto simp: c2_def serves_def)
  have ms: "add_mset ?n (mset (seqs_of ?c)) = mset (seqs_of ?c3) + mset q"
    using take1_rev_drop1 [of ?c1] seq by (auto simp: c2_def q_def seqs_of_def)
  have sub: "set (cc_allocated ?c3) \<subseteq> insert (?n, cid) (set (cc_allocated ?c))"
    using drop_old_keeps(2) [of ?c1] seq by (auto simp: c2_def)
  have "set q \<subseteq> insert ?n (set (seqs_of ?c))" using drop_old_keeps(4) [of ?c1] seq by (auto simp: q_def seqs_of_def)
  then have "send_seqs q x = x" for x :: "cell_out run"
    using cell_seq_bound [OF b a] n by (intro send_seqs_ok) fastforce
  then have run: "cell_assign seq cid ?c = Ret (?c3, q, w)"
    using nr by (auto simp: cell_assign_def c2_def q_def w_def Let_def case_prod_unfold)
  have "cell_ok iss ?c" using b a by (simp add: rm_books_def)
  then have "set (cc_allocated ?c3) \<subseteq> set iss" using sub seq(2) by (auto simp: cell_ok_def)
  moreover have "\<not> cc_retired ?c3" using nr by (simp add: c2_def)
  ultimately have ok3: "cell_ok iss ?c3" "\<not> cc_retired ?c3" by (simp_all add: cell_ok_def)
  let ?r = "(put_cell a (?c3, q, w) r)\<lparr>rm_pending := rest, rm_ready := (rm_ready r)\<lparr>id_deque := id_deque (rm_ready r) @ [a]\<rparr>, rm_cursor := Suc ?n\<rparr>"
  have "rm_numbering iss ?r" using b n by (auto simp: rm_books_def rm_numbering_def largest_def)
  moreover have "rm_queues ?r"
  proof -
    have "serves i ((rm_cells r)[a := ?c3] ! x)" if "id_get (rm_ready r) i = Some x" for i x
    proof -
      have "x \<in> set (id_deque (rm_ready r))" using that by (auto simp: id_get_iff largest_def)
      then have "x \<noteq> a" using nin by auto
      then show ?thesis using b that by (simp add: rm_books_def rm_queues_def)
    qed
    moreover have "largest (rm_ready r) = ?n" using b by (simp add: rm_books_def rm_numbering_def)
    ultimately show ?thesis using b p a nin sv3 by (auto simp: rm_books_def rm_queues_def id_get_snoc nth_list_update)
  qed
  moreover have "\<forall>x \<in> set (rm_cells ?r). cell_ok iss x"
    using b ok3 set_update_subset_insert [of "rm_cells r" a ?c3] by (auto simp: rm_books_def)
  moreover have "mset (rm_sent ?r) + mset (held_seqs ?r) = mset [0..<rm_cursor ?r]"
  proof -
    have h: "held_seqs ?r = held_seqs (put_cell a (?c3, q, w) r)" by (simp add: held_seqs_def)
    have "mset (held_seqs ?r) + mset (seqs_of ?c) + mset q = mset (held_seqs r) + (mset (seqs_of ?c3) + mset q)"
      using put_cell_held [OF a, of ?c3 q w] h by simp
    also have "\<dots> = add_mset ?n (mset (held_seqs r)) + mset (seqs_of ?c)" unfolding ms [symmetric] by simp
    finally have "mset (held_seqs ?r) + mset q = add_mset ?n (mset (held_seqs r))" by (simp add: add_ac)
    then have "mset (rm_sent ?r) + mset (held_seqs ?r) = add_mset ?n (mset (rm_sent r) + mset (held_seqs r))" by (simp add: add_ac)
    also have "\<dots> = add_mset ?n (mset [0..<?n])" using b by (simp only: rm_books_def)
    finally show ?thesis by simp
  qed
  ultimately have "rm_books iss ?r" by (simp only: rm_books_def)
  then show thesis by (rule that [OF run])
qed

lemma arrange_books:
  "rm_books iss r \<Longrightarrow> \<exists>r'. arrange_idle_cid r = Ret r' \<and> rm_books iss r' \<and> rm_waiting r' \<and> rm_deque r' = rm_deque r \<and> rm_limit r' = rm_limit r \<and>
     length (rm_cells r') = length (rm_cells r)"
proof (induction "length (rm_pending r)" arbitrary: r rule: less_induct)
  case less
  show ?case
  proof (cases "rm_pending r")
    case Nil
    then show ?thesis using less(2) by (auto simp: arrange_idle_cid.simps [of r] rm_waiting_def)
  next
    case (Cons a rest)
    show ?thesis
    proof (cases "cc_retired (rm_cells r ! a)")
      case True
      have "rm_books iss (r\<lparr>rm_pending := rest\<rparr>)"
        using less(2) Cons True by (auto simp: rm_books_def rm_numbering_def rm_queues_def held_seqs_def)
      from less(1) [OF _ this] show ?thesis using Cons True by (simp add: arrange_idle_cid.simps [of r])
    next
      case live: False
      show ?thesis
      proof (cases "\<exists>v. id_get (rm_deque r) (rm_cursor r) = Some (Some v)")
        case False
        then have "arrange_idle_cid r = Ret r"
          using Cons live by (auto simp: arrange_idle_cid.simps [of r] split: option.splits)
        then show ?thesis using less(2) False by (auto simp: rm_waiting_def)
      next
        case True
        then obtain seq cid t where e: "id_get (rm_deque r) (rm_cursor r) = Some (Some (seq, cid, t))" by auto
        obtain c q w where as: "cell_assign seq cid (rm_cells r ! a) = Ret (c, q, w)"
          and b: "rm_books iss ((put_cell a (c, q, w) r)\<lparr>rm_pending := rest, rm_ready := (rm_ready r)\<lparr>id_deque := id_deque (rm_ready r) @ [a]\<rparr>, rm_cursor := Suc (rm_cursor r)\<rparr>)"
          by (rule assign_books [OF less(2) Cons live e])
        have n: "largest (rm_ready r) = rm_cursor r" "rm_cursor r \<le> VARINT_MAX"
          using less(2) e by (auto simp: rm_books_def rm_numbering_def id_get_iff)
        then have push: "id_push_back VARINT_MAX a (rm_ready r) = (Inr (rm_cursor r), (rm_ready r)\<lparr>id_deque := id_deque (rm_ready r) @ [a]\<rparr>)"
          by (simp add: id_push_back_ok VARINT_MAX_def)
        have add: "add64 (rm_cursor r) 1 = Ret (Suc (rm_cursor r))" using n(2) by (simp add: add64_def VARINT_MAX_def)
        let ?r = "(put_cell a (c, q, w) r)\<lparr>rm_pending := rest, rm_ready := (rm_ready r)\<lparr>id_deque := id_deque (rm_ready r) @ [a]\<rparr>, rm_cursor := Suc (rm_cursor r)\<rparr>"
        have "arrange_idle_cid r = arrange_idle_cid ?r"
          using Cons live e as push add by (simp add: arrange_idle_cid.simps [of r] Let_def)
        moreover have "\<exists>r'. arrange_idle_cid ?r = Ret r' \<and> rm_books iss r' \<and> rm_waiting r' \<and> rm_deque r' = rm_deque r \<and> rm_limit r' = rm_limit r \<and>
            length (rm_cells r') = length (rm_cells r)"
          using less(1) [OF _ b] Cons by simp
        ultimately show ?thesis by simp
      qed
    qed
  qed
qed


lemma apply_books:
  assumes "rm_books iss r"
  shows "\<exists>r'. apply_dcid r = Ret (length (rm_cells r), r') \<and> rm_books iss r' \<and> rm_waiting r' \<and> rm_deque r' = rm_deque r \<and> rm_limit r' = rm_limit r"
proof -
  let ?r = "r\<lparr>rm_cells := rm_cells r @ [cell_new], rm_pending := rm_pending r @ [length (rm_cells r)]\<rparr>"
  have "rm_queues ?r"
  proof -
    have "serves i ((rm_cells r @ [cell_new]) ! x)" if "id_get (rm_ready r) i = Some x" for i x
    proof -
      have "x \<in> set (id_deque (rm_ready r))" using that by (auto simp: id_get_iff largest_def)
      then have "x < length (rm_cells r)" using assms by (auto simp: rm_books_def rm_queues_def)
      then show ?thesis using assms that by (simp add: rm_books_def rm_queues_def nth_append)
    qed
    then show ?thesis using assms by (fastforce simp: rm_books_def rm_queues_def nth_append less_Suc_eq)
  qed
  then have "rm_books iss ?r"
    using assms by (auto simp: rm_books_def rm_numbering_def held_seqs_def cell_ok_def cell_new_def seqs_of_def)
  from arrange_books [OF this] show ?thesis by (auto simp: apply_dcid_def)
qed

subsection \<open>Retiring\<close>

lemma requeue_eq:
  "n \<le> length (id_deque (rm_ready r)) \<Longrightarrow>
     requeue n r = Ret (r\<lparr>rm_ready := \<lparr>id_deque = drop n (id_deque (rm_ready r)), id_offset = id_offset (rm_ready r) + n\<rparr>,
       rm_pending := rm_pending r @ filter (\<lambda>a. \<not> cc_retired (rm_cells r ! a)) (take n (id_deque (rm_ready r)))\<rparr>)"
proof (induction n arbitrary: r)
  case (Suc n)
  then obtain a xs where xs: "id_deque (rm_ready r) = a # xs" by (cases "id_deque (rm_ready r)") auto
  then show ?case using Suc by (simp add: id_pop_front_def)
qed simp

lemma retire_eq:
  assumes b: "rm_numbering iss r" and t: "id_offset (rm_ready r) < t" "t \<le> largest (rm_deque r)"
  defines "n \<equiv> t - id_offset (rm_ready r)"
  shows "retire_prior_to t r = Ret (r\<lparr>rm_deque := snd (drain_to t (rm_deque r)), rm_cursor := max (rm_cursor r) t,
     rm_ready := \<lparr>id_deque = drop n (id_deque (rm_ready r)), id_offset = t\<rparr>,
     rm_pending := rm_pending r @ filter (\<lambda>a. \<not> cc_retired (rm_cells r ! a)) (take n (id_deque (rm_ready r))),
     rm_sent := rm_sent r @ [rm_cursor r..<t]\<rparr>)"
proof -
  let ?R = "rm_ready r" and ?c = "rm_cursor r"
  have num: "id_offset (rm_deque r) = id_offset ?R" "largest ?R = ?c" "t \<le> VARINT_MAX + 1" using b t(2) by (auto simp: rm_numbering_def)
  have "drain_to_debug_ok t (rm_deque r)" using t num(1) by (simp add: drain_to_debug_ok_def largest_def)
  moreover have snd: "send_seqs [?c..<t] x = x" for x :: "remote_cids run" using num(3) by (intro send_seqs_ok) auto
  ultimately show ?thesis
  proof (cases "id_deque ?R = []")
    case True
    then have "?c = id_offset ?R" using num(2) by (simp add: largest_def)
    then show ?thesis using True t snd \<open>drain_to_debug_ok t (rm_deque r)\<close>
      by (simp add: retire_prior_to_def Let_def id_is_empty_def retire_unused_def reset_offset_def n_def)
  next
    case False
    let ?m = "min ?c t - id_offset ?R"
    have m: "?m \<le> length (id_deque ?R)" "?m = min n (length (id_deque ?R))" using num(2) by (auto simp: largest_def n_def)
    have "retire_prior_to t r = (if ?c < t then retire_unused ?c t else Ret)
        (r\<lparr>rm_deque := snd (drain_to t (rm_deque r)), rm_cursor := max ?c t,
           rm_ready := \<lparr>id_deque = drop ?m (id_deque ?R), id_offset = id_offset ?R + ?m\<rparr>,
           rm_pending := rm_pending r @ filter (\<lambda>a. \<not> cc_retired (rm_cells r ! a)) (take ?m (id_deque ?R))\<rparr>)"
      using False t m(1) \<open>drain_to_debug_ok t (rm_deque r)\<close> num(2) by (simp add: retire_prior_to_def Let_def id_is_empty_def requeue_eq)
    moreover have "take ?m (id_deque ?R) = take n (id_deque ?R)" "drop ?m (id_deque ?R) = drop n (id_deque ?R)" using m(2) by (auto simp: min_def)
    moreover have "id_offset ?R + ?m = t" if "\<not> ?c < t" using that t(1) by simp
    ultimately show ?thesis using snd by (auto simp: retire_unused_def reset_offset_def)
  qed
qed


lemma retire_prior_books:
  assumes b: "rm_books iss r" and t: "t < largest (rm_deque r)"
  shows "\<exists>r'. retire_prior_to t r = Ret r' \<and> rm_books iss r' \<and> id_offset (rm_deque r') = max t (id_offset (rm_deque r)) \<and>
    largest (rm_deque r') = largest (rm_deque r) \<and> rm_limit r' = rm_limit r \<and> length (rm_cells r') = length (rm_cells r)"
proof (cases "t \<le> id_offset (rm_ready r)")
  case True
  then show ?thesis using b by (simp add: retire_prior_to_def rm_books_def rm_numbering_def)
next
  case False
  let ?R = "rm_ready r" and ?c = "rm_cursor r" and ?D = "snd (drain_to t (rm_deque r))"
  let ?n = "t - id_offset ?R"
  let ?r = "r\<lparr>rm_deque := ?D, rm_cursor := max ?c t, rm_ready := \<lparr>id_deque = drop ?n (id_deque ?R), id_offset = t\<rparr>,
     rm_pending := rm_pending r @ filter (\<lambda>a. \<not> cc_retired (rm_cells r ! a)) (take ?n (id_deque ?R)), rm_sent := rm_sent r @ [?c..<t]\<rparr>"
  have num: "rm_numbering iss r" and q: "rm_queues r" using b by (simp_all add: rm_books_def)
  have run: "retire_prior_to t r = Ret ?r" using retire_eq [OF num, of t] False t by simp
  have eqs: "id_offset (rm_deque r) = id_offset ?R" "largest ?R = ?c" using num by (simp_all add: rm_numbering_def)
  have off: "id_offset ?D = t" using False t eqs(1) by (simp add: drain_to_offset)
  have "largest (rm_ready ?r) = rm_cursor ?r" using False eqs(2) by (auto simp: largest_def)
  then have "rm_numbering iss ?r"
    using num off t False by (auto simp: rm_numbering_def drain_to_largest drain_to_get split: if_splits)
  moreover have "rm_queues ?r"
  proof -
    let ?xs = "id_deque ?R"
    have split: "set ?xs = set (take ?n ?xs) \<union> set (drop ?n ?xs)" by (metis append_take_drop_id set_append)
    have "distinct (drop ?n ?xs @ rm_pending r @ filter (\<lambda>a. \<not> cc_retired (rm_cells r ! a)) (take ?n ?xs))"
      using q set_take_disj_set_drop_if_distinct [of ?xs ?n ?n] by (auto simp: rm_queues_def dest: in_set_takeD in_set_dropD)
    moreover have "serves i (rm_cells r ! a)" if "id_get \<lparr>id_deque = drop ?n ?xs, id_offset = t\<rparr> i = Some a" for i a
    proof -
      have "id_get ?R i = Some a" using that False eqs(2) by (auto simp: id_get_iff largest_def)
      then show ?thesis using q by (simp add: rm_queues_def)
    qed
    moreover have "set (drop ?n ?xs @ rm_pending r @ filter (\<lambda>a. \<not> cc_retired (rm_cells r ! a)) (take ?n ?xs)) \<subseteq> {..<length (rm_cells r)}"
      using q split by (auto simp: rm_queues_def)
    moreover have "cc_retired (rm_cells r ! a) \<or> a \<in> set (drop ?n ?xs @ rm_pending r @ filter (\<lambda>a. \<not> cc_retired (rm_cells r ! a)) (take ?n ?xs))"
      if "a < length (rm_cells r)" for a using q split that by (auto simp: rm_queues_def)
    ultimately show ?thesis unfolding rm_queues_def by simp
  qed
  moreover have "mset (rm_sent ?r) + mset (held_seqs ?r) = mset [0..<rm_cursor ?r]"
  proof -
    have h: "held_seqs ?r = held_seqs r" by (simp add: held_seqs_def)
    have m: "mset (rm_sent r) + mset (held_seqs r) = mset [0..<?c]" using b by (simp only: rm_books_def)
    have up: "[0..<max ?c t] = [0..<?c] @ [?c..<t]" using upt_add_eq_append [of 0 ?c "t - ?c"] by (cases "?c \<le> t") (simp_all add: max_def)
    have "mset (rm_sent ?r) + mset (held_seqs ?r) = mset (rm_sent r) + mset (held_seqs r) + mset [?c..<t]"
      unfolding h by simp
    also have "\<dots> = mset [0..<rm_cursor ?r]" unfolding m using up by simp
    finally show ?thesis .
  qed
  ultimately have "rm_books iss ?r" using b by (simp add: rm_books_def)
  then show ?thesis using run off False eqs(1) by (simp add: drain_to_largest)
qed

lemma recv_frame_books:
  assumes b: "rm_books iss r" and w: "rm_waiting r" and len: "id_len (rm_deque r) \<le> rm_limit r + 1" and f: "cid_frame_ok f"
  shows "\<exists>res r'. recv_new_cid_frame f r = Ret (res, r') \<and> rm_books ((into_inner (nc_sequence f), nc_id f) # iss) r' \<and> rm_waiting r' \<and>
    id_len (rm_deque r') \<le> rm_limit r' + 1 \<and> rm_limit r' = rm_limit r \<and> length (rm_cells r') = length (rm_cells r) \<and>
    (\<forall>t. res = Inr (Some t) \<longrightarrow> into_inner (nc_retire_prior_to f) \<le> id_offset (rm_deque r'))"
proof -
  let ?seq = "into_inner (nc_sequence f)" and ?prior = "into_inner (nc_retire_prior_to f)"
  let ?iss = "(?seq, nc_id f) # iss"
  have weak: "rm_books ?iss r" using b by (auto simp: rm_books_def rm_numbering_def cell_ok_def)
  show ?thesis
  proof (cases "rm_limit r < ?seq - ?prior \<or> ?seq < id_offset (rm_deque r)")
    case True
    then show ?thesis using weak w len by (auto simp: recv_new_cid_frame_def Let_def)
  next
    case False
    let ?v = "Some (?seq, nc_id f, nc_reset_token f)"
    obtain old d where ins: "id_insert VARINT_MAX None ?seq ?v (rm_deque r) = (Inr old, d)"
      using id_insert_ok [where d = "rm_deque r" and idx = ?seq and LIMIT = VARINT_MAX and dflt = None and v = ?v] False f
      by (auto simp: cid_frame_ok_def)
    note d = id_insert_get(3,4) [OF ins]
    have get: "id_get d i = (if i = ?seq then Some ?v else if largest (rm_deque r) \<le> i \<and> i < ?seq then Some None else id_get (rm_deque r) i)" for i
      by (rule id_insert_get [OF ins])
    let ?r = "r\<lparr>rm_deque := d\<rparr>"
    have "rm_numbering ?iss ?r"
    proof -
      have "id_get d 0 \<noteq> Some None"
        using b get [of 0] by (auto simp: rm_books_def rm_numbering_def)
      then show ?thesis using b d f get by (auto simp: rm_books_def rm_numbering_def cid_frame_ok_def split: if_splits)
    qed
    then have b1: "rm_books ?iss ?r" using weak by (simp add: rm_books_def rm_queues_def held_seqs_def)
    have "?prior < largest (rm_deque ?r)" using f d by (auto simp: cid_frame_ok_def)
    from retire_prior_books [OF b1 this] obtain r2 where r2: "retire_prior_to ?prior ?r = Ret r2" "rm_books ?iss r2"
        "id_offset (rm_deque r2) = max ?prior (id_offset d)" "largest (rm_deque r2) = largest d" "rm_limit r2 = rm_limit r" "length (rm_cells r2) = length (rm_cells r)" by auto
    from arrange_books [OF r2(2)] obtain r3 where r3: "arrange_idle_cid r2 = Ret r3" "rm_books ?iss r3" "rm_waiting r3" "rm_deque r3 = rm_deque r2" "rm_limit r3 = rm_limit r2"
        "length (rm_cells r3) = length (rm_cells r2)" by blast
    have run: "recv_new_cid_frame f r = Ret (Inr (Some (nc_reset_token f)), r3)"
      using False ins r2(1) r3(1) by (simp add: recv_new_cid_frame_def Let_def)
    have "id_len (rm_deque r2) = largest d - max ?prior (id_offset d)" using r2(3,4) by (simp add: id_len_def largest_def)
    then have "id_len (rm_deque r3) \<le> rm_limit r3 + 1" using len False r2(5) r3(4,5) d by (auto simp: id_len_def largest_def max_def)
    then show ?thesis using run r2 r3 by auto
  qed
qed


lemma new_books: "\<exists>r. rm_new dcid limit = Ret r \<and> rm_books [(0, dcid)] r \<and> rm_waiting r \<and> id_len (rm_deque r) = 1 \<and> rm_limit r = limit"
proof -
  have push: "id_push_back VARINT_MAX v id_default = (Inr 0, \<lparr>id_deque = [v], id_offset = 0\<rparr>)" for v :: "(nat \<times> connection_id \<times> byte list) option"
    by (simp add: id_push_back_def overflowing_add64_def id_default_def VARINT_MAX_def)
  let ?r = "\<lparr>rm_deque = \<lparr>id_deque = [Some (0, dcid, replicate RESET_TOKEN_SIZE 0)], id_offset = 0\<rparr>, rm_ready = id_default, rm_pending = [], rm_limit = limit, rm_cursor = 0,
          rm_cells = [], rm_sent = [], rm_woken = []\<rparr>"
  have "rm_new dcid limit = Ret ?r" by (simp add: rm_new_def push)
  moreover have "rm_books [(0, dcid)] ?r" "rm_waiting ?r" "id_len (rm_deque ?r) = 1"
    by (auto simp: rm_books_def rm_numbering_def rm_queues_def held_seqs_def rm_waiting_def largest_def id_default_def id_get_def contain_def id_len_def)
  ultimately show ?thesis by auto
qed

definition rm_inv :: "nat \<Rightarrow> (nat \<times> connection_id) list \<Rightarrow> remote_cids \<Rightarrow> bool" where
  "rm_inv limit iss r \<longleftrightarrow> rm_books iss r \<and> rm_waiting r \<and> id_len (rm_deque r) \<le> limit + 1 \<and> rm_limit r = limit"

lemma rm_reach_inv: "rm_reach dcid limit iss r \<Longrightarrow> rm_inv limit iss r"
proof (induction rule: rm_reach.induct)
  case (rmr_new r)
  then show ?case using new_books [of dcid limit] by (auto simp: rm_inv_def)
next
  case (rmr_frame iss r f res r')
  then show ?case using recv_frame_books [of iss r f] by (auto simp: rm_inv_def)
next
  case (rmr_revise iss r cid r')
  have "id_len (rm_deque r') = id_len (rm_deque r) \<and> rm_limit r' = rm_limit r"
    using rmr_revise.hyps(2) by (auto simp: revise_initial_dcid_def run_simps id_get_mut_def id_len_def Let_def split: option.splits if_splits)
  then show ?case using rmr_revise revise_books [of iss r cid r'] by (auto simp: rm_inv_def)
next
  case (rmr_apply iss r a r')
  then show ?case using apply_books [of iss r] by (auto simp: rm_inv_def)
next
  case (rmr_borrow iss r a w res r')
  have "rm_deque r' = rm_deque r \<and> rm_limit r' = rm_limit r" using rmr_borrow.hyps(3) by (auto simp: path_borrow_def Let_def split: prod.splits)
  then show ?case using rmr_borrow borrow_books [of iss r a w res r'] by (auto simp: rm_inv_def)
next
  case (rmr_renew iss r a r')
  have "rm_deque r' = rm_deque r \<and> rm_limit r' = rm_limit r" "cc_using (rm_cells r ! a)"
    using rmr_renew.hyps(3) by (auto simp: path_renew_def cell_renew_def run_simps split: prod.splits)
  then show ?case using rmr_renew renew_books [of iss r a] by (auto simp: rm_inv_def)
next
  case (rmr_retire iss r a r')
  have "rm_deque r' = rm_deque r \<and> rm_limit r' = rm_limit r" using rmr_retire.hyps(3) by (auto simp: path_retire_def run_simps)
  then show ?case using rmr_retire retire_books [of iss r a] by (auto simp: rm_inv_def)
qed

lemma mset_split_upt:
  "mset xs + mset ys = mset [0..<n] \<Longrightarrow> distinct xs \<and> distinct ys \<and> set xs \<inter> set ys = {} \<and> set xs \<union> set ys = {..<n}"
proof -
  assume eq: "mset xs + mset ys = mset [0..<n]"
  then have "mset (xs @ ys) = mset [0..<n]" by simp
  then have "distinct (xs @ ys)" "set (xs @ ys) = set [0..<n]" by (metis distinct_upt mset_eq_imp_distinct_iff, metis mset_eq_setD)
  then show ?thesis by auto
qed


text \<open>
  C34: The connection IDs taken from the peer are accounted for. In every state the RETIRE\_CONNECTION\_ID frames sent and the numbers the paths hold are, together, the numbers handed
  out or skipped so far, each exactly once: no number is retired twice or while a path still holds it, and a number below the peer's \<open>retire_prior_to\<close> is either retired or about to be by
  the path that still uses it. IDs are handed out strictly in the order of their numbers: a path that is not retired either has in front an ID the peer issued under a number it has not asked to retire, or it waits and the ID whose
  turn it is, the one under the cursor's number, has not arrived, even if one with a larger number is there.
  The window of kept IDs is at most one longer than the advertised limit.
\<close>

theorem remote_cids_accounted:
  assumes "rm_reach dcid limit iss r"
  shows "distinct (rm_sent r) \<and> distinct (held_seqs r) \<and> set (rm_sent r) \<inter> set (held_seqs r) = {} \<and>
    set (rm_sent r) \<union> set (held_seqs r) = {..<rm_cursor r} \<and> id_offset (rm_deque r) \<le> rm_cursor r \<and>
    (\<forall>c \<in> set (rm_cells r). set (cc_allocated c) \<subseteq> set iss) \<and>
    (\<forall>a < length (rm_cells r). cc_retired (rm_cells r ! a) \<or>
       (\<exists>i cid rest. cc_allocated (rm_cells r ! a) = (i, cid) # rest \<and> id_offset (rm_deque r) \<le> i) \<or>
       (a \<in> set (rm_pending r) \<and> (\<forall>v. id_get (rm_deque r) (rm_cursor r) \<noteq> Some (Some v)))) \<and>
    id_len (rm_deque r) \<le> limit + 1"
proof (intro conjI)
  have inv: "rm_inv limit iss r" by (rule rm_reach_inv [OF assms])
  then have b: "rm_books iss r" by (simp add: rm_inv_def)
  then have "mset (rm_sent r) + mset (held_seqs r) = mset [0..<rm_cursor r]" by (simp only: rm_books_def)
  from mset_split_upt [OF this] show "distinct (rm_sent r)" "distinct (held_seqs r)" "set (rm_sent r) \<inter> set (held_seqs r) = {}"
    "set (rm_sent r) \<union> set (held_seqs r) = {..<rm_cursor r}" by auto
  have num: "id_offset (rm_deque r) = id_offset (rm_ready r)" "largest (rm_ready r) = rm_cursor r" using b by (auto simp: rm_books_def rm_numbering_def)
  then show "id_offset (rm_deque r) \<le> rm_cursor r" by (simp add: largest_def)
  show "\<forall>c \<in> set (rm_cells r). set (cc_allocated c) \<subseteq> set iss" using b by (auto simp: rm_books_def cell_ok_def)
  show "id_len (rm_deque r) \<le> limit + 1" using inv by (simp add: rm_inv_def)
  show "\<forall>a < length (rm_cells r). cc_retired (rm_cells r ! a) \<or>
       (\<exists>i cid rest. cc_allocated (rm_cells r ! a) = (i, cid) # rest \<and> id_offset (rm_deque r) \<le> i) \<or>
       (a \<in> set (rm_pending r) \<and> (\<forall>v. id_get (rm_deque r) (rm_cursor r) \<noteq> Some (Some v)))"
  proof (intro allI impI)
    fix a assume a: "a < length (rm_cells r)"
    show "cc_retired (rm_cells r ! a) \<or> (\<exists>i cid rest. cc_allocated (rm_cells r ! a) = (i, cid) # rest \<and> id_offset (rm_deque r) \<le> i) \<or>
       (a \<in> set (rm_pending r) \<and> (\<forall>v. id_get (rm_deque r) (rm_cursor r) \<noteq> Some (Some v)))"
    proof (cases "cc_retired (rm_cells r ! a) \<or> a \<in> set (rm_pending r)")
      case True
      then show ?thesis using inv by (auto simp: rm_inv_def rm_waiting_def)
    next
      case False
      then have "a \<in> set (id_deque (rm_ready r))" using b a by (auto simp: rm_books_def rm_queues_def)
      then obtain j where "j < length (id_deque (rm_ready r))" "id_deque (rm_ready r) ! j = a" by (auto simp: in_set_conv_nth)
      then have "id_get (rm_ready r) (id_offset (rm_ready r) + j) = Some a" by (simp add: id_get_iff largest_def)
      then have "serves (id_offset (rm_ready r) + j) (rm_cells r ! a)" using b by (simp add: rm_books_def rm_queues_def)
      then show ?thesis using False num(1) by (auto simp: serves_def)
    qed
  qed
qed

text \<open>A run: the only path borrows the first ID, the peer replaces it, and the old number is retired once the path lets go of it.\<close>

definition rm_sample :: remote_cids where
  "rm_sample = \<lparr>rm_deque = \<lparr>id_deque = [Some (1, ConnectionId [2], [])], id_offset = 1\<rparr>, rm_ready = \<lparr>id_deque = [0], id_offset = 1\<rparr>, rm_pending = [],
     rm_limit = 2, rm_cursor = 2, rm_cells = [\<lparr>cc_allocated = [(1, ConnectionId [2])], cc_waker = None, cc_retired = False, cc_using = False\<rparr>],
     rm_sent = [0], rm_woken = []\<rparr>"

lemmas rm_run_simps = rm_new_def id_push_back_def overflowing_add64_def id_default_def apply_dcid_def arrange_idle_cid.simps id_get_def contain_def largest_def
  cell_assign_def send_seqs_def drop_old_def put_cell_def add64_def cell_new_def path_borrow_def borrow_cid_def path_renew_def cell_renew_def
  recv_new_cid_frame_def id_insert_def vec_resize_def retire_prior_to_def drain_to_debug_ok_def drain_to_def id_is_empty_def id_pop_front_def retire_unused_def
  reset_offset_def VARINT_MAX_def

lemma rm_sample_reachable: "\<exists>iss. rm_reach (ConnectionId [1]) 2 iss rm_sample"
proof -
  let ?c = "\<lambda>al u. \<lparr>cc_allocated = al, cc_waker = None, cc_retired = False, cc_using = u\<rparr>"
  let ?A = "ConnectionId [1]" and ?B = "ConnectionId [2]" and ?z = "replicate RESET_TOKEN_SIZE 0 :: byte list"
  let ?r0 = "\<lparr>rm_deque = \<lparr>id_deque = [Some (0, ?A, ?z)], id_offset = 0\<rparr>, rm_ready = id_default, rm_pending = [], rm_limit = 2, rm_cursor = 0,
     rm_cells = [], rm_sent = [], rm_woken = []\<rparr>"
  let ?r1 = "?r0\<lparr>rm_ready := \<lparr>id_deque = [0], id_offset = 0\<rparr>, rm_cursor := 1, rm_cells := [?c [(0, ?A)] False]\<rparr>"
  let ?r2 = "?r1\<lparr>rm_cells := [?c [(0, ?A)] True]\<rparr>"
  let ?f = "NewConnectionIdFrame (VarInt 1) (VarInt 1) ?B []"
  let ?r3 = "\<lparr>rm_deque = \<lparr>id_deque = [Some (1, ?B, [])], id_offset = 1\<rparr>, rm_ready = \<lparr>id_deque = [0], id_offset = 1\<rparr>, rm_pending = [], rm_limit = 2, rm_cursor = 2,
     rm_cells = [?c [(1, ?B), (0, ?A)] True], rm_sent = [], rm_woken = []\<rparr>"
  have 0: "rm_reach ?A 2 [(0, ?A)] ?r0" by (rule rmr_new) (simp add: rm_run_simps)
  have 1: "rm_reach ?A 2 [(0, ?A)] ?r1" by (rule rmr_apply [OF 0, where a = 0]) (simp add: rm_run_simps)
  have 2: "rm_reach ?A 2 [(0, ?A)] ?r2" by (rule rmr_borrow [OF 1, where a = 0 and w = 5 and res = "Inr (Some ?A)"]) (simp_all add: rm_run_simps)
  have 3: "rm_reach ?A 2 [(1, ?B), (0, ?A)] ?r3"
    using rmr_frame [OF 2, of ?f "Inr (Some [])" ?r3] by (simp add: rm_run_simps cid_frame_ok_def)
  have "rm_reach ?A 2 [(1, ?B), (0, ?A)] rm_sample"
    by (rule rmr_renew [OF 3, where a = 0]) (simp_all add: rm_run_simps rm_sample_def)
  then show ?thesis by blast
qed

theorem remote_cids_accounted_witness:
  "\<exists>iss. rm_reach (ConnectionId [1]) 2 iss rm_sample \<and> set (rm_sent rm_sample) \<union> set (held_seqs rm_sample) = {..<2}"
proof -
  obtain iss where r: "rm_reach (ConnectionId [1]) 2 iss rm_sample" using rm_sample_reachable by blast
  then show ?thesis using remote_cids_accounted [OF r] by (auto simp: rm_sample_def)
qed

text \<open>
  C35: The calls on the manager and its cells end without a panic: a NEW\_CONNECTION\_ID frame the parser accepts, an application for an ID, retiring a cell, and renewing one in use. An
  accepted frame moves the window at least to its \<open>retire_prior_to\<close>; and what a path borrows is an ID the peer issued and for which no RETIRE\_CONNECTION\_ID frame has gone out.
\<close>

theorem remote_cids_calls_return:
  assumes "rm_reach dcid limit iss r"
  shows "(cid_frame_ok f \<longrightarrow> (\<exists>res r'. recv_new_cid_frame f r = Ret (res, r') \<and>
       (\<forall>t. res = Inr (Some t) \<longrightarrow> into_inner (nc_retire_prior_to f) \<le> id_offset (rm_deque r')))) \<and>
    (\<exists>r'. apply_dcid r = Ret (length (rm_cells r), r')) \<and>
    (a < length (rm_cells r) \<longrightarrow> (\<exists>r'. path_retire a r = Ret r' \<and> cc_retired (rm_cells r' ! a)) \<and>
       (cc_using (rm_cells r ! a) \<longrightarrow> returns (path_renew a r)) \<and>
       (\<forall>cid r'. path_borrow a w r = (Inr (Some cid), r') \<longrightarrow> (\<exists>q. (q, cid) \<in> set iss \<and> q \<notin> set (rm_sent r))))"
proof (intro conjI impI allI)
  have inv: "rm_inv limit iss r" by (rule rm_reach_inv [OF assms])
  then have b: "rm_books iss r" "rm_waiting r" "id_len (rm_deque r) \<le> rm_limit r + 1" by (auto simp: rm_inv_def)
  show "\<exists>res r'. recv_new_cid_frame f r = Ret (res, r') \<and>
       (\<forall>t. res = Inr (Some t) \<longrightarrow> into_inner (nc_retire_prior_to f) \<le> id_offset (rm_deque r'))" if "cid_frame_ok f"
    using recv_frame_books [OF b that] by blast
  show "\<exists>r'. apply_dcid r = Ret (length (rm_cells r), r')" using apply_books [OF b(1)] by blast
  assume a: "a < length (rm_cells r)"
  show "\<exists>r'. path_retire a r = Ret r' \<and> cc_retired (rm_cells r' ! a)" using retire_books [OF b(1,2) a] by blast
  show "returns (path_renew a r)" if "cc_using (rm_cells r ! a)" using renew_books [OF b(1,2) a that] by (auto simp: returns_def)
  fix cid r' assume "path_borrow a w r = (Inr (Some cid), r')"
  then obtain q rest where al: "cc_allocated (rm_cells r ! a) = (q, cid) # rest"
    by (auto simp: path_borrow_def borrow_cid_def split: if_splits list.splits)
  have "q \<in> set (held_seqs r)" using al a by (auto simp: held_seqs_def seqs_of_def intro!: bexI [of _ "rm_cells r ! a"])
  moreover have "mset (rm_sent r) + mset (held_seqs r) = mset [0..<rm_cursor r]" using b(1) by (simp only: rm_books_def)
  ultimately have "q \<notin> set (rm_sent r)" using mset_split_upt [of "rm_sent r" "held_seqs r"] by blast
  moreover have "(q, cid) \<in> set iss" using b(1) a al by (fastforce simp: rm_books_def cell_ok_def dest: nth_mem)
  ultimately show "\<exists>q. (q, cid) \<in> set iss \<and> q \<notin> set (rm_sent r)" by blast
qed

theorem remote_cids_calls_return_witness:
  "\<exists>iss. rm_reach (ConnectionId [1]) 2 iss rm_sample \<and> path_borrow 0 9 rm_sample = (Inr (Some (ConnectionId [2])), rm_sample\<lparr>rm_cells := [(rm_cells rm_sample ! 0)\<lparr>cc_using := True\<rparr>]\<rparr>) \<and>
     (\<exists>q. (q, ConnectionId [2]) \<in> set iss \<and> q \<notin> {0})"
proof -
  obtain iss where r: "rm_reach (ConnectionId [1]) 2 iss rm_sample" using rm_sample_reachable by blast
  have "path_borrow 0 9 rm_sample = (Inr (Some (ConnectionId [2])), rm_sample\<lparr>rm_cells := [(rm_cells rm_sample ! 0)\<lparr>cc_using := True\<rparr>]\<rparr>)"
    by (simp add: rm_sample_def path_borrow_def borrow_cid_def put_cell_def)
  then show ?thesis using remote_cids_calls_return [OF r, of undefined 0 9] r by (auto simp: rm_sample_def)
qed

text \<open>
  The check of the advertised limit is off by one. With a limit of two, the IDs numbered 1 and 2 are accepted beside the initial one, so three IDs are active, where the connection
  should be closed with CONNECTION\_ID\_LIMIT\_ERROR.
\<close>

theorem one_more_cid_than_limit:
  "\<exists>r0 r1 r2 t. rm_new dcid 2 = Ret r0 \<and>
     recv_new_cid_frame (NewConnectionIdFrame (VarInt 1) (VarInt 0) cid1 token) r0 = Ret (Inr (Some token), r1) \<and>
     recv_new_cid_frame (NewConnectionIdFrame (VarInt 2) (VarInt 0) cid2 token) r1 = Ret (Inr (Some token), r2) \<and>
     id_deque (rm_deque r2) = [Some (0, dcid, t), Some (1, cid1, token), Some (2, cid2, token)] \<and> rm_sent r2 = []"
  by (simp add: rm_run_simps)

end
