(* ===== verification/Cid_Pair.thy ===== *)
theory Cid_Pair
  imports Local_Cids Remote_Cids
begin

section \<open>The two connection ID managers against each other\<close>

text \<open>
  The frames of one endpoint's \<open>LocalCids\<close> go to the other's \<open>RemoteCids\<close> and its RETIRE\_CONNECTION\_ID frames come back. \<open>replace_retired\<close> is one round of a
  path that comes and goes: it applies for an ID, is retired, and the issuer replaces the ID.
\<close>

definition last_frame :: "local_cids \<Rightarrow> new_connection_id_frame" where
  "last_frame s = last (lc_sent s)"

definition replace_retired :: "cid_gen \<Rightarrow> local_cids \<times> remote_cids \<Rightarrow> (local_cids \<times> remote_cids) run" where
  "replace_retired G p =
     (case p of (s, r) \<Rightarrow>
        bind_run (recv_new_cid_frame (last_frame s) r) (\<lambda>(_, r).
        bind_run (apply_dcid r) (\<lambda>(a, r).
        bind_run (path_retire a r) (\<lambda>r.
        bind_run (recv_retire_cid_frame G (RetireConnectionIdFrame (VarInt (last (rm_sent r)))) s) (\<lambda>(_, s).
        Ret (s, r))))))"

definition pair_start :: "connection_id \<Rightarrow> cid_gen \<Rightarrow> (local_cids \<times> remote_cids) run" where
  "pair_start scid G =
     bind_run (lc_new scid G) (\<lambda>s.
     bind_run (set_limit G 2 s) (\<lambda>(_, s).
     bind_run (rm_new scid 2) (\<lambda>r.
     bind_run (apply_dcid r) (\<lambda>(_, r). Ret (s, r)))))"

text \<open>
  The check of the limit counts the window of numbers, not the active IDs. Two endpoints of this library with a limit of two: while the first path keeps the ID numbered 0, a second path is opened
  and closed twice. The issuer has two active IDs at every moment, as the limit allows, and the third ID it issues is answered with CONNECTION\_ID\_LIMIT\_ERROR, which closes
  the connection.
\<close>

theorem replaced_cid_rejected:
  "\<exists>s r. bind_run (pair_start scid G) (\<lambda>p. bind_run (replace_retired G p) (replace_retired G)) = Ret (s, r) \<and>
     length (active_cids (lc_deque s)) = 2 \<and> rm_sent r = [1, 2] \<and>
     recv_new_cid_frame (last_frame s) r = Ret (Inl (QuicError ConnectionIdLimit (ErrV1 NewConnectionId)), r)"
proof -
  obtain c1 t1 c2 t2 c3 t3 where G: "G 0 = (c1, t1)" "G (Suc 0) = (c2, t2)" "G 2 = (c3, t3)" by (metis surj_pair)
  let ?z = "replicate RESET_TOKEN_SIZE 0 :: byte list"
  let ?c0 = "\<lparr>cc_allocated = [(0, scid)], cc_waker = None, cc_retired = False, cc_using = False\<rparr>"
  let ?gone = "\<lparr>cc_allocated = [], cc_waker = None, cc_retired = True, cc_using = False\<rparr>"
  let ?f1 = "NewConnectionIdFrame (VarInt 1) (VarInt 0) c1 t1" and ?f2 = "NewConnectionIdFrame (VarInt 2) (VarInt 0) c2 t2"
    and ?f3 = "NewConnectionIdFrame (VarInt 3) (VarInt 0) c3 t3"
  let ?s0 = "\<lparr>lc_deque = \<lparr>id_deque = [Some (scid, ?z), Some (c1, t1)], id_offset = 0\<rparr>, lc_limit = Some 2, lc_made = 1, lc_sent = [?f1], lc_retired = []\<rparr>"
  let ?u0 = "\<lparr>rm_deque = \<lparr>id_deque = [Some (0, scid, ?z)], id_offset = 0\<rparr>, rm_ready = \<lparr>id_deque = [0], id_offset = 0\<rparr>, rm_pending = [], rm_limit = 2, rm_cursor = 1,
     rm_cells = [?c0], rm_sent = [], rm_woken = []\<rparr>"
  let ?s1 = "\<lparr>lc_deque = \<lparr>id_deque = [Some (scid, ?z), None, Some (c2, t2)], id_offset = 0\<rparr>, lc_limit = Some 2, lc_made = 2, lc_sent = [?f1, ?f2], lc_retired = [c1]\<rparr>"
  let ?u1 = "\<lparr>rm_deque = \<lparr>id_deque = [Some (0, scid, ?z), Some (1, c1, t1)], id_offset = 0\<rparr>, rm_ready = \<lparr>id_deque = [0, 1], id_offset = 0\<rparr>, rm_pending = [], rm_limit = 2,
     rm_cursor = 2, rm_cells = [?c0, ?gone], rm_sent = [1], rm_woken = []\<rparr>"
  let ?s2 = "\<lparr>lc_deque = \<lparr>id_deque = [Some (scid, ?z), None, None, Some (c3, t3)], id_offset = 0\<rparr>, lc_limit = Some 2, lc_made = 3, lc_sent = [?f1, ?f2, ?f3], lc_retired = [c1, c2]\<rparr>"
  let ?u2 = "\<lparr>rm_deque = \<lparr>id_deque = [Some (0, scid, ?z), Some (1, c1, t1), Some (2, c2, t2)], id_offset = 0\<rparr>, rm_ready = \<lparr>id_deque = [0, 1, 2], id_offset = 0\<rparr>,
     rm_pending = [], rm_limit = 2, rm_cursor = 3, rm_cells = [?c0, ?gone, ?gone], rm_sent = [1, 2], rm_woken = []\<rparr>"
  have "pair_start scid G = Ret (?s0, ?u0)"
    by (simp add: pair_start_def lc_new_def lc_push_def lc_issue_def set_limit_def rm_run_simps from_u32_def G)
  moreover have "replace_retired G (?s0, ?u0) = Ret (?s1, ?u1)"
    by (simp add: replace_retired_def last_frame_def rm_run_simps path_retire_def cell_retire_def recv_retire_cid_frame_def id_get_mut_def advance_def
        issue_new_cid_def from_u64_def lc_issue_def lc_push_def G)
  moreover have "replace_retired G (?s1, ?u1) = Ret (?s2, ?u2)"
    by (simp add: replace_retired_def last_frame_def rm_run_simps path_retire_def cell_retire_def recv_retire_cid_frame_def id_get_mut_def advance_def
        issue_new_cid_def from_u64_def lc_issue_def lc_push_def G)
  moreover have "recv_new_cid_frame (last_frame ?s2) ?u2 = Ret (Inl (QuicError ConnectionIdLimit (ErrV1 NewConnectionId)), ?u2)"
    by (simp add: recv_new_cid_frame_def last_frame_def)
  ultimately show ?thesis by (intro exI [of _ ?s2] exI [of _ ?u2]) (simp add: active_cids_def)
qed

end
