(* ===== verification/Sent_Journal.thy ===== *)
theory Sent_Journal
  imports Index_Deque Packet_Number Frames
begin

section \<open>The journal of sent packets: qrecovery/src/journal/sent.rs\<close>

text \<open>
  All frames sent reliably stand in one queue, in the order they were sent; beside it a deque, numbered by packet number, says how many of them each packet carries and what became
  of the packet. An acknowledgement or a loss finds the frames of a packet by adding up the counts before it. Instants are nanoseconds; the current time is an argument.
\<close>

type_synonym instant = nat
type_synonym duration = nat

datatype sent_pkt_state =
    PktSkipped
  | PktFlighting nat instant instant instant
  | PktRetransmitted nat instant instant
  | PktAcked nat instant instant

definition pkt_new :: "nat \<Rightarrow> instant \<Rightarrow> instant \<Rightarrow> instant \<Rightarrow> sent_pkt_state" where
  "pkt_new nframes sent_time retran_time expire_time = PktFlighting nframes sent_time expire_time retran_time"

fun nframes :: "sent_pkt_state \<Rightarrow> nat" where
  "nframes PktSkipped = 0"
| "nframes (PktFlighting n _ _ _) = n"
| "nframes (PktRetransmitted n _ _) = n"
| "nframes (PktAcked n _ _) = n"

fun be_acked :: "sent_pkt_state \<Rightarrow> nat \<times> sent_pkt_state" where
  "be_acked PktSkipped = (0, PktSkipped)"
| "be_acked (PktFlighting n st et _) = (n, PktAcked n st et)"
| "be_acked (PktRetransmitted n st et) = (n, PktAcked n st et)"
| "be_acked (PktAcked n st et) = (0, PktAcked n st et)"

fun maybe_lost :: "sent_pkt_state \<Rightarrow> (nat \<times> sent_pkt_state) run" where
  "maybe_lost (PktFlighting n st et _) = Ret (n, PktRetransmitted n st et)"
| "maybe_lost (PktRetransmitted n st et) = Ret (n, PktRetransmitted n st et)"
| "maybe_lost (PktAcked _ _ _) = Panic"
| "maybe_lost PktSkipped = Ret (0, PktSkipped)"

fun should_retransmit_after :: "instant \<Rightarrow> sent_pkt_state \<Rightarrow> bool \<times> sent_pkt_state" where
  "should_retransmit_after now (PktFlighting n st et rt) =
     (if rt < now then (True, PktRetransmitted n st et) else (False, PktFlighting n st et rt))"
| "should_retransmit_after now s = (False, s)"

fun should_remain_after :: "instant \<Rightarrow> sent_pkt_state \<Rightarrow> bool" where
  "should_remain_after now PktSkipped = False"
| "should_remain_after now (PktFlighting _ _ _ _) = True"
| "should_remain_after now (PktRetransmitted _ _ et) = (now < et)"
| "should_remain_after now (PktAcked _ _ _) = False"

record 'f sent_journal =
  sj_queue :: "'f list"
  sj_packets :: "sent_pkt_state index_deque"
  sj_largest_acked :: nat

definition sj_new :: "'f sent_journal" where
  "sj_new = \<lparr>sj_queue = [], sj_packets = id_default, sj_largest_acked = 0\<rparr>"

text \<open>\<open>VecDeque::range\<close> panics when the end is past the length.\<close>

definition queue_range :: "nat \<Rightarrow> nat \<Rightarrow> 'f list \<Rightarrow> 'f list run" where
  "queue_range a b q = assert_run (a \<le> b \<and> b \<le> length q) (Ret (take (b - a) (drop a q)))"

definition frames_before :: "nat \<Rightarrow> sent_pkt_state index_deque \<Rightarrow> nat" where
  "frames_before pn d = sum_list (map (\<lambda>(_, s). nframes s) (takeWhile (\<lambda>(pkt_idx, _). pkt_idx < pn) (id_enumerate d)))"

definition on_packet_acked :: "nat \<Rightarrow> 'f sent_journal \<Rightarrow> ('f list \<times> 'f sent_journal) run" where
  "on_packet_acked pn j =
     (let offset = frames_before pn (sj_packets j);
          (len, d) = (case id_get (sj_packets j) pn of
             None \<Rightarrow> (0, sj_packets j)
           | Some s \<Rightarrow> (fst (be_acked s), the (id_get_mut (sj_packets j) pn (\<lambda>s. snd (be_acked s)))))
      in bind_run (queue_range offset (offset + len) (sj_queue j)) (\<lambda>fs. Ret (fs, j\<lparr>sj_packets := d\<rparr>)))"

definition may_loss_packet :: "nat \<Rightarrow> 'f sent_journal \<Rightarrow> ('f list \<times> 'f sent_journal) run" where
  "may_loss_packet pn j =
     (let offset = frames_before pn (sj_packets j)
      in case id_get (sj_packets j) pn of
           None \<Rightarrow> bind_run (queue_range offset offset (sj_queue j)) (\<lambda>fs. Ret (fs, j))
         | Some s \<Rightarrow>
             bind_run (maybe_lost s) (\<lambda>(len, s').
             bind_run (queue_range offset (offset + len) (sj_queue j)) (\<lambda>fs.
               Ret (fs, j\<lparr>sj_packets := the (id_get_mut (sj_packets j) pn (\<lambda>_. s'))\<rparr>))))"

definition sj_resize :: "instant \<Rightarrow> 'f sent_journal \<Rightarrow> 'f sent_journal run" where
  "sj_resize now j =
     (let gone = takeWhile (\<lambda>s. \<not> should_remain_after now s) (id_deque (sj_packets j));
          n = length gone; f = sum_list (map nframes gone)
      in bind_run (advance n (sj_packets j)) (\<lambda>d.
         assert_run (f \<le> length (sj_queue j)) (Ret (j\<lparr>sj_packets := d, sj_queue := drop f (sj_queue j)\<rparr>))))"

text \<open>The scan over the packets below the largest acknowledged number, with the count of the frames before the packet.\<close>

fun retransmit_scan :: "instant \<Rightarrow> nat \<Rightarrow> 'f list \<Rightarrow> nat \<Rightarrow> nat \<Rightarrow> sent_pkt_state list \<Rightarrow> (sent_pkt_state list \<times> 'f list) run" where
  "retransmit_scan now la q pn acc [] = Ret ([], [])"
| "retransmit_scan now la q pn acc (s # ss) =
     (if pn < la
      then let (again, s') = should_retransmit_after now s
           in bind_run (if again then queue_range acc (acc + nframes s) q else Ret []) (\<lambda>fs.
              bind_run (retransmit_scan now la q (pn + 1) (acc + nframes s) ss) (\<lambda>(ss', fs').
                Ret (s' # ss', fs @ fs')))
      else Ret (s # ss, []))"

definition fast_retransmit :: "instant \<Rightarrow> 'f sent_journal \<Rightarrow> ('f list \<times> 'f sent_journal) run" where
  "fast_retransmit now j =
     bind_run (sj_resize now j) (\<lambda>j.
     bind_run (retransmit_scan now (sj_largest_acked j) (sj_queue j) (id_offset (sj_packets j)) 0 (id_deque (sj_packets j))) (\<lambda>(ss, fs).
       Ret (fs, j\<lparr>sj_packets := (sj_packets j)\<lparr>id_deque := ss\<rparr>\<rparr>)))"

definition update_largest :: "ack_frame \<Rightarrow> 'f sent_journal \<Rightarrow> (quic_error + unit) \<times> 'f sent_journal" where
  "update_largest ack_frame j =
     (let l = into_inner (ack_largest ack_frame)
      in if largest (sj_packets j) < l then (Inl (QuicError ProtocolViolation (ErrV1 (Ack (if ack_ecn ack_frame \<noteq> None then 1 else 0)))), j)
         else (Inr (), if sj_largest_acked j < l then j\<lparr>sj_largest_acked := l\<rparr> else j))"

subsection \<open>NewPacketGuard\<close>

record 'f new_packet_guard =
  np_trivial :: bool
  np_origin_len :: nat
  np_inner :: "'f sent_journal"

definition new_packet :: "'f sent_journal \<Rightarrow> 'f new_packet_guard" where
  "new_packet j = \<lparr>np_trivial = False, np_origin_len = length (sj_queue j), np_inner = j\<rparr>"

definition guard_pn :: "'f new_packet_guard \<Rightarrow> (nat \<times> packet_number) run" where
  "guard_pn g =
     (let pn = largest (sj_packets (np_inner g))
      in bind_run (pn_encode pn (sj_largest_acked (np_inner g))) (\<lambda>encoded_pn. Ret (pn, encoded_pn)))"

definition record_trivial :: "'f new_packet_guard \<Rightarrow> 'f new_packet_guard" where
  "record_trivial g = g\<lparr>np_trivial := True\<rparr>"

definition record_frame :: "'f \<Rightarrow> 'f new_packet_guard \<Rightarrow> 'f new_packet_guard" where
  "record_frame frame g = g\<lparr>np_inner := (np_inner g)\<lparr>sj_queue := sj_queue (np_inner g) @ [frame]\<rparr>\<rparr>"

definition push_pkt :: "sent_pkt_state \<Rightarrow> 'f sent_journal \<Rightarrow> 'f sent_journal run" where
  "push_pkt s j =
     (case id_push_back VARINT_MAX s (sj_packets j) of (Inl _, _) \<Rightarrow> Panic | (Inr _, d) \<Rightarrow> Ret (j\<lparr>sj_packets := d\<rparr>))"

definition build_with_time :: "instant \<Rightarrow> duration \<Rightarrow> duration \<Rightarrow> 'f new_packet_guard \<Rightarrow> 'f sent_journal run" where
  "build_with_time now retran_timeout expire_timeout g =
     bind_run (sub64 (length (sj_queue (np_inner g))) (np_origin_len g)) (\<lambda>n.
       if np_trivial g \<and> n = 0 then push_pkt PktSkipped (np_inner g)
       else if 0 < n then push_pkt (pkt_new n now (now + retran_timeout) (now + expire_timeout)) (np_inner g)
       else Ret (np_inner g))"


subsection \<open>Histories of calls\<close>

text \<open>
  \<open>H ! pn\<close> are the frames recorded in packet \<open>pn\<close>, \<open>A\<close> the packets whose frames were handed back as acknowledged, in reverse order, and \<open>L\<close> those whose frames were handed back as lost.
\<close>

definition packet_guard :: "bool \<Rightarrow> 'f list \<Rightarrow> 'f sent_journal \<Rightarrow> 'f new_packet_guard" where
  "packet_guard trivial fs j = (if trivial then record_trivial else (\<lambda>g. g)) (fold record_frame fs (new_packet j))"

inductive sj_reach :: "'f list list \<Rightarrow> nat list \<Rightarrow> nat set \<Rightarrow> 'f sent_journal \<Rightarrow> bool" where
  sjr_new: "sj_reach [] [] {} sj_new"
| sjr_packet: "sj_reach H A L j \<Longrightarrow> build_with_time now rt et (packet_guard t fs j) = Ret j' \<Longrightarrow>
    sj_reach (if fs = [] \<and> \<not> t then H else H @ [fs]) A L j'"
| sjr_largest: "sj_reach H A L j \<Longrightarrow> update_largest f j = (res, j') \<Longrightarrow> sj_reach H A L j'"
| sjr_acked: "sj_reach H A L j \<Longrightarrow> on_packet_acked pn j = Ret (fs, j') \<Longrightarrow> sj_reach H (if fs = [] then A else pn # A) L j'"
| sjr_lost: "sj_reach H A L j \<Longrightarrow> may_loss_packet pn j = Ret (fs, j') \<Longrightarrow> sj_reach H A (if fs = [] then L else insert pn L) j'"
| sjr_resize: "sj_reach H A L j \<Longrightarrow> sj_resize now j = Ret j' \<Longrightarrow> sj_reach H A L j'"
| sjr_fast: "sj_reach H A L j \<Longrightarrow> fast_retransmit now j = Ret (fs, j') \<Longrightarrow>
    sj_reach H A (L \<union> {pn. \<exists>n st et. id_get (sj_packets j') pn = Some (PktRetransmitted n st et)}) j'"

subsection \<open>The frames of a packet\<close>

lemma takeWhile_enumerate:
  "takeWhile (\<lambda>(i, _). i < pn) (zip [a..<a + length xs] xs) = zip [a..<a + min (pn - a) (length xs)] (take (pn - a) xs)"
proof (induction xs arbitrary: a)
  case (Cons x xs)
  have u: "[a..<a + Suc n] = a # [Suc a..<Suc a + n]" for n by (simp add: upt_conv_Cons del: upt_Suc)
  show ?case
  proof (cases "a < pn")
    case True
    then have "min (pn - a) (length (x # xs)) = Suc (min (pn - Suc a) (length xs))" "take (pn - a) (x # xs) = x # take (pn - Suc a) xs"
      by (auto simp: take_Cons' Suc_diff_Suc)
    then show ?thesis using Cons [of "Suc a"] True by (simp only: u length_Cons zip_Cons_Cons takeWhile.simps case_prod_conv if_True add_0_right plus_1_eq_Suc )
  next
    case False
    then show ?thesis by (simp only: u length_Cons zip_Cons_Cons takeWhile.simps case_prod_conv if_False) simp
  qed
qed simp

lemma frames_before_eq: "frames_before pn d = sum_list (map nframes (take (pn - id_offset d) (id_deque d)))"
proof -
  have "map (\<lambda>(_, s). nframes s) (zip is xs) = map nframes xs" if "length is = length xs" for "is" :: "nat list" and xs
    using that by (induction "is" xs rule: list_induct2) auto
  then show ?thesis
    unfolding frames_before_def id_enumerate_def largest_def takeWhile_enumerate by simp
qed

lemma drop_concat: "drop (sum_list (map length (take k xs))) (concat xs) = concat (drop k xs)"
proof (induction xs arbitrary: k)
  case (Cons x xs)
  then show ?case by (cases k) auto
qed simp

lemma take_concat_nth: "k < length xs \<Longrightarrow> take (length (xs ! k)) (concat (drop k xs)) = xs ! k"
  by (simp add: Cons_nth_drop_Suc [symmetric])

definition pkt_ok :: "nat list \<Rightarrow> nat set \<Rightarrow> nat \<Rightarrow> sent_pkt_state \<Rightarrow> bool" where
  "pkt_ok A L pn s =
     (case s of
        PktSkipped \<Rightarrow> pn \<notin> set A \<and> pn \<notin> L
      | PktFlighting n _ _ _ \<Rightarrow> 0 < n \<and> pn \<notin> set A \<and> pn \<notin> L
      | PktRetransmitted n _ _ \<Rightarrow> 0 < n \<and> pn \<notin> set A \<and> pn \<in> L
      | PktAcked n _ _ \<Rightarrow> 0 < n \<and> pn \<in> set A)"

definition sj_aligned :: "'f list list \<Rightarrow> 'f sent_journal \<Rightarrow> bool" where
  "sj_aligned H j \<longleftrightarrow>
     length H = largest (sj_packets j) \<and> largest (sj_packets j) \<le> VARINT_MAX + 1 \<and>
     sj_queue j = concat (drop (id_offset (sj_packets j)) H) \<and>
     map nframes (id_deque (sj_packets j)) = map length (drop (id_offset (sj_packets j)) H)"

definition sj_inv :: "'f list list \<Rightarrow> nat list \<Rightarrow> nat set \<Rightarrow> 'f sent_journal \<Rightarrow> bool" where
  "sj_inv H A L j \<longleftrightarrow> sj_aligned H j \<and> sj_largest_acked j \<le> largest (sj_packets j) \<and> distinct A \<and> set A \<union> L \<subseteq> {..<length H} \<and>
     (\<forall>pn s. id_get (sj_packets j) pn = Some s \<longrightarrow> pkt_ok A L pn s) \<and>
     (\<forall>pn < id_offset (sj_packets j). H ! pn = [] \<or> pn \<in> set A \<or> pn \<in> L)"

lemma aligned_nframes:
  assumes "sj_aligned H j" "id_get (sj_packets j) pn = Some s"
  shows "nframes s = length (H ! pn)"
proof -
  let ?o = "id_offset (sj_packets j)"
  have k: "?o \<le> pn" "pn - ?o < length (id_deque (sj_packets j))" "id_deque (sj_packets j) ! (pn - ?o) = s"
    using assms(2) by (auto simp: id_get_iff largest_def)
  then have "nframes s = map nframes (id_deque (sj_packets j)) ! (pn - ?o)" by simp
  also have "\<dots> = map length (drop ?o H) ! (pn - ?o)" using assms(1) by (simp add: sj_aligned_def)
  also have "\<dots> = length (H ! pn)" using k assms(1) by (simp add: sj_aligned_def largest_def)
  finally show ?thesis .
qed

lemma frames_before_total:
  assumes "sj_aligned H j"
  shows "frames_before pn (sj_packets j) + (case id_get (sj_packets j) pn of None \<Rightarrow> 0 | Some s \<Rightarrow> nframes s) \<le> length (sj_queue j)"
proof -
  let ?xs = "map nframes (id_deque (sj_packets j))" and ?k = "pn - id_offset (sj_packets j)"
  have len: "length (sj_queue j) = sum_list ?xs" using assms by (simp add: sj_aligned_def length_concat)
  have fb: "frames_before pn (sj_packets j) = sum_list (take ?k ?xs)" by (simp add: frames_before_eq take_map)
  have "sum_list ?xs = sum_list (take ?k ?xs) + sum_list (drop ?k ?xs)" by (metis append_take_drop_id sum_list_append)
  moreover have "nframes s \<le> sum_list (drop ?k ?xs)" if "id_get (sj_packets j) pn = Some s" for s
  proof -
    have "?k < length ?xs" "?xs ! ?k = nframes s" using that by (auto simp: id_get_iff largest_def)
    then show ?thesis by (metis Cons_nth_drop_Suc le_add1 sum_list.Cons)
  qed
  ultimately show ?thesis using len fb by (auto split: option.splits)
qed

lemma packet_range:
  assumes "sj_aligned H j" "id_get (sj_packets j) pn = Some s"
  shows "queue_range (frames_before pn (sj_packets j)) (frames_before pn (sj_packets j) + nframes s) (sj_queue j) = Ret (H ! pn)"
proof -
  let ?o = "id_offset (sj_packets j)"
  let ?xs = "drop ?o H" and ?k = "pn - id_offset (sj_packets j)"
  have k: "?k < length ?xs" "?xs ! ?k = H ! pn" using assms by (auto simp: id_get_iff largest_def sj_aligned_def)
  have "frames_before pn (sj_packets j) = sum_list (map length (take ?k ?xs))"
    using assms(1) by (simp add: frames_before_eq sj_aligned_def flip: take_map)
  then have "drop (frames_before pn (sj_packets j)) (sj_queue j) = concat (drop ?k ?xs)"
    using assms(1) drop_concat [of ?k ?xs] by (simp add: sj_aligned_def)
  then have "take (nframes s) (drop (frames_before pn (sj_packets j)) (sj_queue j)) = H ! pn"
    using take_concat_nth [OF k(1)] k(2) aligned_nframes [OF assms] by simp
  then show ?thesis using frames_before_total [OF assms(1), of pn] assms(2) by (simp add: queue_range_def)
qed

lemma empty_range: "sj_aligned H j \<Longrightarrow> queue_range (frames_before pn (sj_packets j)) (frames_before pn (sj_packets j)) (sj_queue j) = Ret []"
  using frames_before_total [of H j pn] by (simp add: queue_range_def)


subsection \<open>What each call does\<close>

lemma id_get_update:
  assumes "id_get d pn = Some s"
  shows "id_get (the (id_get_mut d pn f)) i = (if i = pn then Some (f s) else id_get d i)" "largest (the (id_get_mut d pn f)) = largest d"
    "id_offset (the (id_get_mut d pn f)) = id_offset d"
proof -
  let ?k = "pn - id_offset d"
  have k: "?k < length (id_deque d)" "id_deque d ! ?k = s" "id_offset d \<le> pn" using assms by (auto simp: id_get_iff largest_def)
  have eq: "the (id_get_mut d pn f) = d\<lparr>id_deque := (id_deque d)[?k := f s]\<rparr>" using k by (simp add: id_get_mut_def contain_def largest_def)
  show l: "largest (the (id_get_mut d pn f)) = largest d" "id_offset (the (id_get_mut d pn f)) = id_offset d" unfolding eq by (simp_all add: largest_def)
  have "(id_deque d)[?k := f s] ! (i - id_offset d) = (if i = pn then f s else id_deque d ! (i - id_offset d))" if "id_offset d \<le> i"
    using k that by (auto simp: nth_list_update eq_diff_iff)
  moreover have "contain d pn" using assms by (simp add: id_get_iff contain_def)
  moreover have "contain (the (id_get_mut d pn f)) i = contain d i" using l by (simp add: contain_def)
  ultimately show "id_get (the (id_get_mut d pn f)) i = (if i = pn then Some (f s) else id_get d i)"
    using l(2) by (auto simp: id_get_def eq contain_def)
qed

lemma be_acked_keeps [simp]: "nframes (snd (be_acked s)) = nframes s"
  by (cases s) auto

lemma maybe_lost_keeps: "maybe_lost s = Ret (n, s') \<Longrightarrow> nframes s' = nframes s \<and> n = nframes s"
  by (cases s) auto

lemma aligned_update:
  assumes "sj_aligned H j" "id_get (sj_packets j) pn = Some s" "nframes (f s) = nframes s"
  shows "sj_aligned H (j\<lparr>sj_packets := the (id_get_mut (sj_packets j) pn (\<lambda>_. f s))\<rparr>)"
proof -
  let ?d = "sj_packets j" and ?k = "pn - id_offset (sj_packets j)"
  have k: "?k < length (id_deque ?d)" "id_deque ?d ! ?k = s" "id_offset ?d \<le> pn" using assms(2) by (auto simp: id_get_iff largest_def)
  have eq: "the (id_get_mut ?d pn (\<lambda>_. f s)) = ?d\<lparr>id_deque := (id_deque ?d)[?k := f s]\<rparr>" using k by (simp add: id_get_mut_def contain_def largest_def)
  have "map nframes ((id_deque ?d)[?k := f s]) = map nframes (id_deque ?d)" using k assms(3) by (metis list_update_id map_update)
  then show ?thesis using assms(1) eq by (simp add: sj_aligned_def largest_def)
qed

lemma get_mut_const: "id_get d pn = Some s \<Longrightarrow> id_get_mut d pn f = id_get_mut d pn (\<lambda>_. f s)"
  by (auto simp: id_get_mut_def id_get_def)

lemma acked_inv:
  assumes inv: "sj_inv H A L j"
  shows "\<exists>fs j'. on_packet_acked pn j = Ret (fs, j') \<and> sj_inv H (if fs = [] then A else pn # A) L j' \<and> (fs \<noteq> [] \<longrightarrow> pn < length H \<and> fs = H ! pn \<and> pn \<notin> set A) \<and>
    (pn < length H \<and> pn \<notin> set A \<and> pn \<notin> L \<longrightarrow> fs = H ! pn)"
proof (cases "id_get (sj_packets j) pn")
  case None
  have al: "sj_aligned H j" using inv by (simp add: sj_inv_def)
  have "on_packet_acked pn j = Ret ([], j)" using None empty_range [OF al] by (simp add: on_packet_acked_def Let_def)
  moreover have "H ! pn = [] \<or> pn \<in> set A \<or> pn \<in> L" if "pn < length H"
    using None inv that al by (auto simp: sj_inv_def sj_aligned_def id_get_None_iff contain_def)
  ultimately show ?thesis using inv by auto
next
  case (Some s)
  let ?d' = "the (id_get_mut (sj_packets j) pn (\<lambda>s. snd (be_acked s)))"
  have al: "sj_aligned H j" and ok: "pkt_ok A L pn s" using inv Some by (auto simp: sj_inv_def)
  have pn: "pn < length H" using Some al by (auto simp: id_get_iff sj_aligned_def)
  have al': "sj_aligned H (j\<lparr>sj_packets := ?d'\<rparr>)"
    using aligned_update [OF al Some, of "\<lambda>s. snd (be_acked s)"] get_mut_const [OF Some, of "\<lambda>s. snd (be_acked s)"] by simp
  note upd = id_get_update [OF Some, of "\<lambda>s. snd (be_acked s)"]
  show ?thesis
  proof (cases "fst (be_acked s) = 0")
    case True
    then have run: "on_packet_acked pn j = Ret ([], j\<lparr>sj_packets := ?d'\<rparr>)"
      using Some empty_range [OF al] by (simp add: on_packet_acked_def Let_def)
    have same: "snd (be_acked s) = s" using True ok by (cases s) (auto simp: pkt_ok_def)
    have "sj_inv H A L (j\<lparr>sj_packets := ?d'\<rparr>)" using inv al' upd same ok by (auto simp: sj_inv_def)
    moreover have "H ! pn = []" if "pn \<notin> set A" "pn \<notin> L"
      using True ok that aligned_nframes [OF al Some] by (cases s) (auto simp: pkt_ok_def)
    ultimately show ?thesis using run by auto
  next
    case False
    then have n: "fst (be_acked s) = nframes s" "pn \<notin> set A" "0 < nframes s" using ok by (cases s; auto simp: pkt_ok_def)+
    have run: "on_packet_acked pn j = Ret (H ! pn, j\<lparr>sj_packets := ?d'\<rparr>)"
      using Some packet_range [OF al Some] n(1) by (simp add: on_packet_acked_def Let_def)
    have ne: "H ! pn \<noteq> []" using n(3) aligned_nframes [OF al Some] by auto
    have "pkt_ok (pn # A) L pn (snd (be_acked s))" using False n by (cases s) (auto simp: pkt_ok_def)
    moreover have "pkt_ok (pn # A) L i t" if "pkt_ok A L i t" "i \<noteq> pn" for i t using that by (cases t) (auto simp: pkt_ok_def)
    ultimately have "sj_inv H (pn # A) L (j\<lparr>sj_packets := ?d'\<rparr>)" using inv al' upd n(2) pn by (auto simp: sj_inv_def)
    then show ?thesis using run ne pn n(2) by auto
  qed
qed

lemma lost_inv:
  assumes inv: "sj_inv H A L j"
  shows "(pn \<in> set A \<and> id_get (sj_packets j) pn \<noteq> None \<and> may_loss_packet pn j = Panic) \<or>
    ((pn \<in> set A \<longrightarrow> id_get (sj_packets j) pn = None) \<and>
     (\<exists>fs j'. may_loss_packet pn j = Ret (fs, j') \<and> sj_inv H A (if fs = [] then L else insert pn L) j' \<and>
       (fs \<noteq> [] \<longrightarrow> pn < length H \<and> fs = H ! pn \<and> pn \<notin> set A) \<and> (pn < length H \<and> pn \<notin> set A \<and> pn \<notin> L \<longrightarrow> fs = H ! pn)))"
proof (cases "id_get (sj_packets j) pn")
  case None
  have al: "sj_aligned H j" using inv by (simp add: sj_inv_def)
  have "may_loss_packet pn j = Ret ([], j)" using None empty_range [OF al] by (simp add: may_loss_packet_def Let_def)
  moreover have "H ! pn = [] \<or> pn \<in> set A \<or> pn \<in> L" if "pn < length H"
    using None inv that al by (auto simp: sj_inv_def sj_aligned_def id_get_None_iff contain_def)
  ultimately show ?thesis using inv None by auto
next
  case (Some s)
  have al: "sj_aligned H j" and ok: "pkt_ok A L pn s" using inv Some by (auto simp: sj_inv_def)
  have pn: "pn < length H" using Some al by (auto simp: id_get_iff sj_aligned_def)
  show ?thesis
  proof (cases "maybe_lost s")
    case Panic
    then have "pn \<in> set A" using ok by (cases s) (auto simp: pkt_ok_def)
    then show ?thesis using Some Panic by (simp add: may_loss_packet_def Let_def)
  next
    case (Ret r)
    then obtain s' where ml: "maybe_lost s = Ret (nframes s, s')" and s': "nframes s' = nframes s"
      using maybe_lost_keeps [of s "fst r" "snd r"] by (cases r) auto
    let ?d' = "the (id_get_mut (sj_packets j) pn (\<lambda>_. s'))"
    have run: "may_loss_packet pn j = Ret (H ! pn, j\<lparr>sj_packets := ?d'\<rparr>)"
      using Some ml packet_range [OF al Some] by (simp add: may_loss_packet_def Let_def)
    have al': "sj_aligned H (j\<lparr>sj_packets := ?d'\<rparr>)" using aligned_update [OF al Some, of "\<lambda>_. s'"] s' by simp
    note upd = id_get_update [OF Some, of "\<lambda>_. s'"]
    have len: "nframes s = length (H ! pn)" by (rule aligned_nframes [OF al Some])
    have skip: "H ! pn = [] \<Longrightarrow> s' = s" "H ! pn \<noteq> [] \<Longrightarrow> pn \<notin> set A \<and> pkt_ok A (insert pn L) pn s'"
      using ok ml len by (cases s; auto simp: pkt_ok_def)+
    have "pkt_ok A (insert pn L) i t" if "pkt_ok A L i t" "i \<noteq> pn" for i t using that by (cases t) (auto simp: pkt_ok_def)
    then have "sj_inv H A (if H ! pn = [] then L else insert pn L) (j\<lparr>sj_packets := ?d'\<rparr>)"
      using inv al' upd skip ok pn by (auto simp: sj_inv_def)
    moreover have "pn \<notin> set A" using ok ml by (cases s) (auto simp: pkt_ok_def)
    ultimately show ?thesis using run pn skip Some by auto
  qed
qed


lemma resize_inv:
  assumes inv: "sj_inv H A L j"
  shows "\<exists>j'. sj_resize now j = Ret j' \<and> sj_inv H A L j' \<and> largest (sj_packets j') = largest (sj_packets j) \<and>
    (\<forall>pn s. id_get (sj_packets j) pn = Some s \<and> should_remain_after now s \<longrightarrow> id_get (sj_packets j') pn = Some s)"
proof -
  let ?d = "sj_packets j" and ?gone = "takeWhile (\<lambda>s. \<not> should_remain_after now s) (id_deque (sj_packets j))"
  let ?n = "length ?gone" and ?f = "sum_list (map nframes ?gone)" and ?o = "id_offset (sj_packets j)"
  have al: "sj_aligned H j" using inv by (simp add: sj_inv_def)
  have n: "?n \<le> id_len ?d" by (simp add: id_len_def length_takeWhile_le)
  have "largest ?d < u64_bound" using al by (simp add: sj_aligned_def VARINT_MAX_def)
  then have adv: "advance ?n ?d = Ret (snd (drain_to (?o + ?n) ?d))" by (rule advance_is_drain_to [OF n])
  let ?d' = "snd (drain_to (?o + ?n) ?d)"
  have d': "id_offset ?d' = ?o + ?n" "id_deque ?d' = drop ?n (id_deque ?d)" using n by (auto simp: drain_to_def Let_def id_len_def)
  have gone: "?gone = take ?n (id_deque ?d)" by (rule takeWhile_eq_take)
  have maps: "map nframes (id_deque ?d) = map length (drop ?o H)" using al by (simp add: sj_aligned_def)
  have "map nframes ?gone = take ?n (map nframes (id_deque ?d))" by (subst gone) (simp only: take_map)
  then have f: "?f = sum_list (map length (take ?n (drop ?o H)))" unfolding maps take_map by (rule arg_cong)
  have "sj_queue j = concat (drop ?o H)" using al by (simp add: sj_aligned_def)
  then have q: "drop ?f (sj_queue j) = concat (drop (?o + ?n) H)" using drop_concat [of ?n "drop ?o H"] f by (simp add: add.commute)
  have "sum_list (map nframes ?gone) \<le> sum_list (map nframes (id_deque ?d))"
    by (metis gone append_take_drop_id le_add1 map_append sum_list_append)
  then have le: "?f \<le> length (sj_queue j)" using al by (simp add: sj_aligned_def length_concat)
  let ?j' = "j\<lparr>sj_packets := ?d', sj_queue := drop ?f (sj_queue j)\<rparr>"
  have run: "sj_resize now j = Ret ?j'" using adv le by (simp add: sj_resize_def Let_def)
  have al': "sj_aligned H ?j'"
    using al d' q maps drain_to_largest [of "?o + ?n" ?d] by (simp add: sj_aligned_def drop_map [symmetric] add.commute)
  have left: "H ! pn = [] \<or> pn \<in> set A \<or> pn \<in> L" if "pn < ?o + ?n" for pn
  proof (cases "pn < ?o")
    case False
    let ?k = "pn - ?o"
    have k: "?k < ?n" using that False by simp
    then have "?k < length (id_deque ?d)" using n by (simp add: id_len_def)
    then have get: "id_get ?d pn = Some (?gone ! ?k)" using False k takeWhile_nth [of ?k _ "id_deque ?d"] by (simp add: id_get_iff largest_def)
    have "\<not> should_remain_after now (?gone ! ?k)" using k by (metis (mono_tags, lifting) nth_mem set_takeWhileD)
    moreover have "pkt_ok A L pn (?gone ! ?k)" using get inv by (simp add: sj_inv_def)
    ultimately show ?thesis using aligned_nframes [OF al get] by (cases "?gone ! ?k") (auto simp: pkt_ok_def)
  qed (use inv in \<open>auto simp: sj_inv_def\<close>)
  have "sj_inv H A L ?j'"
    using inv al' left d' drain_to_largest [of "?o + ?n" ?d] by (auto simp: sj_inv_def drain_to_get split: if_splits)
  moreover have "id_get ?d' pn = Some s" if "id_get ?d pn = Some s" "should_remain_after now s" for pn s
  proof -
    have "\<not> pn < ?o + ?n"
    proof
      assume "pn < ?o + ?n"
      moreover have "?o \<le> pn" "s = id_deque ?d ! (pn - ?o)" using that(1) by (auto simp: id_get_iff)
      ultimately have "s \<in> set ?gone" by (metis add.commute in_set_conv_nth less_diff_conv2 takeWhile_nth)
      then show False using that(2) set_takeWhileD by fastforce
    qed
    then show ?thesis using that by (simp add: drain_to_get)
  qed
  ultimately show ?thesis using run drain_to_largest [of "?o + ?n" ?d] by auto
qed

lemma retransmit_scan_eq:
  assumes "map nframes ss = map length xs" "q = pre @ concat xs" "acc = length pre"
  shows "\<exists>ss'. retransmit_scan now la q pn acc ss = Ret (ss', concat (map ((!) xs) (filter (\<lambda>i. ss' ! i \<noteq> ss ! i) [0..<length ss]))) \<and>
     length ss' = length ss \<and> (\<forall>i < length ss. ss' ! i = ss ! i \<or>
       (pn + i < la \<and> (\<exists>n st et rt. rt < now \<and> ss ! i = PktFlighting n st et rt \<and> ss' ! i = PktRetransmitted n st et)))"
  using assms
proof (induction ss arbitrary: xs pre pn acc)
  case (Cons s ss)
  from Cons.prems(1) obtain x ys where xs: "xs = x # ys" "length x = nframes s" "map nframes ss = map length ys" by (cases xs) auto
  show ?case
  proof (cases "pn < la")
    case False
    then show ?thesis by (intro exI [of _ "s # ss"]) simp
  next
    case True
    obtain again s' where sr: "should_retransmit_after now s = (again, s')" by (cases "should_retransmit_after now s")
    have s': "again \<longleftrightarrow> s' \<noteq> s" "s' \<noteq> s \<longrightarrow> (\<exists>n st et rt. rt < now \<and> s = PktFlighting n st et rt \<and> s' = PktRetransmitted n st et)"
      using sr by (cases s; auto split: if_splits)+
    have rng: "queue_range acc (acc + nframes s) q = Ret x" using Cons.prems(2,3) xs by (simp add: queue_range_def)
    have "q = (pre @ x) @ concat ys" "acc + nframes s = length (pre @ x)" using Cons.prems xs by simp_all
    from Cons.IH [OF xs(3) this, of "pn + 1"] obtain ss' where ih:
      "retransmit_scan now la q (pn + 1) (acc + nframes s) ss = Ret (ss', concat (map ((!) ys) (filter (\<lambda>i. ss' ! i \<noteq> ss ! i) [0..<length ss])))" "length ss' = length ss"
      "\<forall>i < length ss. ss' ! i = ss ! i \<or> (pn + 1 + i < la \<and> (\<exists>n st et rt. rt < now \<and> ss ! i = PktFlighting n st et rt \<and> ss' ! i = PktRetransmitted n st et))" by blast
    have shift: "concat (map ((!) xs) (filter (\<lambda>i. (s' # ss') ! i \<noteq> (s # ss) ! i) [0..<length (s # ss)])) =
        (if again then x else []) @ concat (map ((!) ys) (filter (\<lambda>i. ss' ! i \<noteq> ss ! i) [0..<length ss]))"
      by (simp add: xs(1) s'(1) upt_conv_Cons map_Suc_upt [symmetric] filter_map comp_def del: upt_Suc)
    have "retransmit_scan now la q pn acc (s # ss) = Ret (s' # ss', (if again then x else []) @ concat (map ((!) ys) (filter (\<lambda>i. ss' ! i \<noteq> ss ! i) [0..<length ss])))"
      using True sr rng ih(1) by simp
    moreover have "\<forall>i < length (s # ss). (s' # ss') ! i = (s # ss) ! i \<or>
       (pn + i < la \<and> (\<exists>n st et rt. rt < now \<and> (s # ss) ! i = PktFlighting n st et rt \<and> (s' # ss') ! i = PktRetransmitted n st et))"
      using ih(3) s'(2) True by (auto simp: nth_Cons split: nat.splits)
    ultimately show ?thesis using ih(2) shift by (intro exI [of _ "s' # ss'"]) simp
  qed
qed simp


abbreviation now_lost :: "'f sent_journal \<Rightarrow> nat set" where
  "now_lost j \<equiv> {pn. \<exists>n st et. id_get (sj_packets j) pn = Some (PktRetransmitted n st et)}"

lemma fast_inv:
  assumes inv: "sj_inv H A L j"
  shows "\<exists>fs j'. fast_retransmit now j = Ret (fs, j') \<and> sj_inv H A (L \<union> now_lost j') j' \<and>
    fs = concat (map ((!) H) (filter (\<lambda>pn. pn \<in> now_lost j' \<and> pn \<notin> L) [0..<length H]))"
proof -
  from resize_inv [OF inv, of now] obtain j1 where j1: "sj_resize now j = Ret j1" "sj_inv H A L j1" by blast
  let ?d = "sj_packets j1" and ?o = "id_offset (sj_packets j1)"
  let ?xs = "drop ?o H" and ?ss = "id_deque ?d"
  have al: "sj_aligned H j1" using j1(2) by (simp add: sj_inv_def)
  have len: "length H = ?o + length ?ss" "map nframes ?ss = map length ?xs" using al by (auto simp: sj_aligned_def largest_def)
  have "sj_queue j1 = [] @ concat ?xs" "0 = length ([] :: 'a list)" using al by (simp_all add: sj_aligned_def)
  from retransmit_scan_eq [OF len(2) this, of now "sj_largest_acked j1" ?o] obtain ss' where
    sc: "retransmit_scan now (sj_largest_acked j1) (sj_queue j1) ?o 0 ?ss = Ret (ss', concat (map ((!) ?xs) (filter (\<lambda>i. ss' ! i \<noteq> ?ss ! i) [0..<length ?ss])))"
    "length ss' = length ?ss"
    and ch: "\<forall>i < length ?ss. ss' ! i = ?ss ! i \<or> (?o + i < sj_largest_acked j1 \<and>
      (\<exists>n st et rt. rt < now \<and> ?ss ! i = PktFlighting n st et rt \<and> ss' ! i = PktRetransmitted n st et))" by blast
  let ?j' = "j1\<lparr>sj_packets := ?d\<lparr>id_deque := ss'\<rparr>\<rparr>"
  have run: "fast_retransmit now j = Ret (concat (map ((!) ?xs) (filter (\<lambda>i. ss' ! i \<noteq> ?ss ! i) [0..<length ?ss])), ?j')"
    using j1(1) sc(1) by (simp add: fast_retransmit_def)
  have get: "id_get (sj_packets ?j') pn = (if ?o \<le> pn \<and> pn < length H then Some (ss' ! (pn - ?o)) else None)"
    "id_get ?d pn = (if ?o \<le> pn \<and> pn < length H then Some (?ss ! (pn - ?o)) else None)" for pn
    using len(1) sc(2) by (auto simp: id_get_def contain_def largest_def)
  have ok: "pkt_ok A L pn (?ss ! (pn - ?o))" if "?o \<le> pn" "pn < length H" for pn
    using j1(2) that get(2) [of pn] by (auto simp: sj_inv_def)
  have "nframes (ss' ! i) = nframes (?ss ! i)" if "i < length ?ss" for i using ch [rule_format, OF that] by auto
  then have "map nframes ss' = map nframes ?ss" using sc(2) by (intro nth_equalityI) simp_all
  then have "sj_aligned H ?j'" using al sc(2) by (simp add: sj_aligned_def largest_def)
  moreover have "pkt_ok A (L \<union> now_lost ?j') pn s" if "id_get (sj_packets ?j') pn = Some s" for pn s
  proof -
    have pn: "?o \<le> pn" "pn < length H" "s = ss' ! (pn - ?o)" using that get(1) [of pn] by (auto split: if_splits)
    then have k: "pn - ?o < length ?ss" using len(1) by simp
    have "pkt_ok A L pn s \<or> (\<exists>n st et. s = PktRetransmitted n st et \<and> 0 < n \<and> pn \<notin> set A)"
      using ok [OF pn(1,2)] ch [rule_format, OF k] pn(3) by (auto simp: pkt_ok_def)
    then show ?thesis using that by (cases s) (auto simp: pkt_ok_def)
  qed
  moreover have "now_lost ?j' \<subseteq> {..<length H}" using get(1) by (auto split: if_splits)
  ultimately have inv': "sj_inv H A (L \<union> now_lost ?j') ?j'"
    using j1(2) sc(2) by (auto simp: sj_inv_def largest_def)
  have new: "ss' ! i \<noteq> ?ss ! i \<longleftrightarrow> ?o + i \<in> now_lost ?j' \<and> ?o + i \<notin> L" if "i < length ?ss" for i
  proof -
    have "?o + i \<in> L" if "?ss ! i = PktRetransmitted n st et" for n st et
      using ok [of "?o + i"] len(1) that \<open>i < length ?ss\<close> by (auto simp: pkt_ok_def)
    moreover have "?o + i \<notin> L" if "?ss ! i = PktFlighting n st et rt" for n st et rt
      using ok [of "?o + i"] len(1) that \<open>i < length ?ss\<close> by (auto simp: pkt_ok_def)
    ultimately show ?thesis using ch [rule_format, OF that] get(1) [of "?o + i"] that len(1) by (cases "?ss ! i") auto
  qed
  have "map ((+) ?o) [0..<length ?ss] = [?o..<?o + length ?ss]" by (rule nth_equalityI) auto
  then have "[0..<length H] = [0..<?o] @ map ((+) ?o) [0..<length ?ss]" using len(1) upt_add_eq_append [of 0 ?o "length ?ss"] by simp
  moreover have "filter (\<lambda>pn. pn \<in> now_lost ?j' \<and> pn \<notin> L) [0..<?o] = []" using get(1) by (auto simp: filter_empty_conv split: if_splits)
  moreover have "filter (\<lambda>pn. pn \<in> now_lost ?j' \<and> pn \<notin> L) (map ((+) ?o) [0..<length ?ss]) = map ((+) ?o) (filter (\<lambda>i. ss' ! i \<noteq> ?ss ! i) [0..<length ?ss])"
    unfolding filter_map comp_def by (intro arg_cong [of _ _ "map ((+) ?o)"] filter_cong) (use new in auto)
  ultimately have "map ((!) H) (filter (\<lambda>pn. pn \<in> now_lost ?j' \<and> pn \<notin> L) [0..<length H]) = map (\<lambda>i. H ! (?o + i)) (filter (\<lambda>i. ss' ! i \<noteq> ?ss ! i) [0..<length ?ss])"
    by simp
  also have "\<dots> = map ((!) ?xs) (filter (\<lambda>i. ss' ! i \<noteq> ?ss ! i) [0..<length ?ss])" using len(1) by simp
  finally show ?thesis using run inv' by (intro exI conjI) auto
qed

lemma guard_frames: "np_inner (fold record_frame fs g) = (np_inner g)\<lparr>sj_queue := sj_queue (np_inner g) @ fs\<rparr>"
  "np_trivial (fold record_frame fs g) = np_trivial g" "np_origin_len (fold record_frame fs g) = np_origin_len g"
  by (induction fs arbitrary: g) (simp_all add: record_frame_def)

lemma packet_guard_eq:
  "packet_guard t fs j = \<lparr>np_trivial = t, np_origin_len = length (sj_queue j), np_inner = j\<lparr>sj_queue := sj_queue j @ fs\<rparr>\<rparr>"
  using guard_frames [of fs "new_packet j"] by (auto simp: packet_guard_def new_packet_def record_trivial_def intro!: new_packet_guard.equality)

lemma push_inv:
  assumes inv: "sj_inv H A L j" and room: "largest (sj_packets j) \<le> VARINT_MAX" and s: "nframes s = length fs" "s = PktSkipped \<or> (\<exists>n st et rt. 0 < n \<and> s = PktFlighting n st et rt)"
  shows "\<exists>j'. push_pkt s (j\<lparr>sj_queue := sj_queue j @ fs\<rparr>) = Ret j' \<and> sj_inv (H @ [fs]) A L j' \<and> largest (sj_packets j') = Suc (largest (sj_packets j))"
proof -
  let ?d = "sj_packets j"
  let ?j' = "j\<lparr>sj_queue := sj_queue j @ fs, sj_packets := ?d\<lparr>id_deque := id_deque ?d @ [s]\<rparr>\<rparr>"
  have run: "push_pkt s (j\<lparr>sj_queue := sj_queue j @ fs\<rparr>) = Ret ?j'"
    using id_push_back_ok [OF room, of s] by (simp add: push_pkt_def VARINT_MAX_def)
  have al: "sj_aligned H j" and len: "length H = largest ?d" "id_offset ?d \<le> length H" using inv by (auto simp: sj_inv_def sj_aligned_def largest_def)
  have "sj_aligned (H @ [fs]) ?j'" using al len room s(1) by (simp add: sj_aligned_def largest_def)
  moreover have "pkt_ok A L (length H) s" using s(2) inv by (auto simp: pkt_ok_def sj_inv_def)
  moreover have "(H @ [fs]) ! pn = [] \<or> pn \<in> set A \<or> pn \<in> L" if "pn < id_offset ?d" for pn
    using inv that len(2) by (simp add: sj_inv_def nth_append)
  ultimately have "sj_inv (H @ [fs]) A L ?j'"
    using inv len by (auto simp: sj_inv_def id_get_snoc largest_def split: if_splits)
  then show ?thesis using run by (simp add: largest_def)
qed

lemma packet_inv:
  assumes inv: "sj_inv H A L j" and room: "largest (sj_packets j) \<le> VARINT_MAX"
  shows "\<exists>j'. build_with_time now rt et (packet_guard t fs j) = Ret j' \<and> sj_inv (if fs = [] \<and> \<not> t then H else H @ [fs]) A L j' \<and>
    largest (sj_packets j') = (if fs = [] \<and> \<not> t then largest (sj_packets j) else Suc (largest (sj_packets j)))"
proof (cases "fs = []")
  case True
  then show ?thesis
    using push_inv [OF inv room, of PktSkipped "[]"] inv by (auto simp: build_with_time_def packet_guard_eq sub64_def)
next
  case False
  have "0 < length fs" using False by simp
  then show ?thesis
    using push_inv [OF inv room, of "pkt_new (length fs) now (now + rt) (now + et)" fs] False
    by (auto simp: build_with_time_def packet_guard_eq sub64_def pkt_new_def)
qed

lemma build_room:
  assumes "sj_inv H A L j" "build_with_time now rt et (packet_guard t fs j) = Ret j'" "fs \<noteq> [] \<or> t"
  shows "largest (sj_packets j) \<le> VARINT_MAX"
proof (rule ccontr)
  assume "\<not> ?thesis"
  then have "\<exists>n. id_push_back VARINT_MAX s (sj_packets j) = (Inl (ExceedLimit n VARINT_MAX), sj_packets j)" for s
    by (intro id_push_back_exceeds) simp
  then have "push_pkt s (j\<lparr>sj_queue := sj_queue j @ fs\<rparr>) = Panic" for s
    by (metis (mono_tags, lifting) old.prod.case old.sum.simps(5) push_pkt_def sent_journal.select_convs(2) sent_journal.surjective sent_journal.update_convs(1))
  then show False using assms(2,3) by (auto simp: build_with_time_def packet_guard_eq run_simps split: if_splits)
qed

lemma largest_acked_inv: "sj_inv H A L j \<Longrightarrow> l \<le> largest (sj_packets j) \<Longrightarrow> sj_inv H A L (j\<lparr>sj_largest_acked := l\<rparr>)"
proof -
  have "sj_aligned H (j\<lparr>sj_largest_acked := l\<rparr>) = sj_aligned H j" by (simp add: sj_aligned_def)
  then show "sj_inv H A L j \<Longrightarrow> l \<le> largest (sj_packets j) \<Longrightarrow> ?thesis" by (simp add: sj_inv_def)
qed

lemma sj_new_inv: "sj_inv [] [] {} sj_new"
  by (simp add: sj_inv_def sj_aligned_def sj_new_def id_default_def largest_def id_get_def contain_def)

lemma packet_step:
  assumes "sj_inv H A L j" "build_with_time now rt et (packet_guard t fs j) = Ret j'"
  shows "sj_inv (if fs = [] \<and> \<not> t then H else H @ [fs]) A L j'"
proof (cases "fs = [] \<and> \<not> t")
  case True
  then have "j' = j" using assms(2) by (simp add: build_with_time_def packet_guard_eq sub64_def)
  then show ?thesis using True assms(1) by simp
next
  case False
  then have "largest (sj_packets j) \<le> VARINT_MAX" using build_room [OF assms] by blast
  from packet_inv [OF assms(1) this, of now rt et t fs] show ?thesis using assms(2) by (metis (no_types, lifting) run.inject)
qed

lemma largest_step: "sj_inv H A L j \<Longrightarrow> update_largest f j = (res, j') \<Longrightarrow> sj_inv H A L j'"
  by (simp only: update_largest_def Let_def split: if_splits) (auto simp: largest_acked_inv)

lemma acked_step: "sj_inv H A L j \<Longrightarrow> on_packet_acked pn j = Ret (fs, j') \<Longrightarrow> sj_inv H (if fs = [] then A else pn # A) L j'"
  using acked_inv [of H A L j pn] by (metis (no_types, lifting) Pair_inject run.inject)

lemma lost_step: "sj_inv H A L j \<Longrightarrow> may_loss_packet pn j = Ret (fs, j') \<Longrightarrow> sj_inv H A (if fs = [] then L else insert pn L) j'"
  using lost_inv [of H A L j pn] by (metis (no_types, lifting) Pair_inject run.distinct(1) run.inject)

lemma resize_step: "sj_inv H A L j \<Longrightarrow> sj_resize now j = Ret j' \<Longrightarrow> sj_inv H A L j'"
  using resize_inv [of H A L j now] by (metis (no_types, lifting) run.inject)

lemma fast_step: "sj_inv H A L j \<Longrightarrow> fast_retransmit now j = Ret (fs, j') \<Longrightarrow> sj_inv H A (L \<union> now_lost j') j'"
  using fast_inv [of H A L j now] by (metis (no_types, lifting) Pair_inject run.inject)

lemma sj_reach_inv: "sj_reach H A L j \<Longrightarrow> sj_inv H A L j"
  by (induction rule: sj_reach.induct)
    (blast intro: sj_new_inv packet_step largest_step acked_step lost_step resize_step fast_step)+

text \<open>
  C30: The journal of sent packets gives back what was recorded. After any history of packets, acknowledgements, losses and clean-ups: an acknowledgement of a packet returns exactly the frames
  recorded in it, and each packet's frames at most once (of a packet already reported lost it may return none); a loss report returns the frames of a packet that was not acknowledged; fast retransmission returns exactly the frames of the packets it
  newly declares lost; and no packet is forgotten, its frames were reported acknowledged or lost or it is still in flight. Acknowledgement, clean-up, fast retransmission and the loss report of a packet not acknowledged yet
  never panic.
\<close>

theorem sent_journal_feeds_back:
  assumes "sj_reach H A L j"
  shows "distinct A \<and>
    (\<forall>pn < length H. H ! pn = [] \<or> pn \<in> set A \<or> pn \<in> L \<or> (\<exists>n st et rt. id_get (sj_packets j) pn = Some (PktFlighting n st et rt))) \<and>
    (\<exists>fs j'. on_packet_acked pn j = Ret (fs, j') \<and> (fs \<noteq> [] \<longrightarrow> pn < length H \<and> fs = H ! pn \<and> pn \<notin> set A) \<and>
       (pn < length H \<and> pn \<notin> set A \<and> pn \<notin> L \<longrightarrow> fs = H ! pn)) \<and>
    (pn \<notin> set A \<longrightarrow> (\<exists>fs j'. may_loss_packet pn j = Ret (fs, j') \<and> (fs \<noteq> [] \<longrightarrow> pn < length H \<and> fs = H ! pn) \<and>
       (pn < length H \<and> pn \<notin> L \<longrightarrow> fs = H ! pn))) \<and>
    returns (sj_resize now j) \<and>
    (\<exists>fs j'. fast_retransmit now j = Ret (fs, j') \<and>
       fs = concat (map ((!) H) (filter (\<lambda>pn. (\<exists>n st et. id_get (sj_packets j') pn = Some (PktRetransmitted n st et)) \<and> pn \<notin> L) [0..<length H])))"
proof (intro conjI)
  have inv: "sj_inv H A L j" by (rule sj_reach_inv [OF assms])
  then have al: "sj_aligned H j" by (simp add: sj_inv_def)
  show "distinct A" using inv by (simp add: sj_inv_def)
  show "\<forall>pn < length H. H ! pn = [] \<or> pn \<in> set A \<or> pn \<in> L \<or> (\<exists>n st et rt. id_get (sj_packets j) pn = Some (PktFlighting n st et rt))"
  proof (intro allI impI)
    fix pn assume pn: "pn < length H"
    show "H ! pn = [] \<or> pn \<in> set A \<or> pn \<in> L \<or> (\<exists>n st et rt. id_get (sj_packets j) pn = Some (PktFlighting n st et rt))"
    proof (cases "id_get (sj_packets j) pn")
      case None
      then have "pn < id_offset (sj_packets j)" using pn al by (simp add: sj_aligned_def id_get_None_iff contain_def)
      then show ?thesis using inv by (auto simp: sj_inv_def)
    next
      case (Some s)
      then have "pkt_ok A L pn s" using inv by (simp add: sj_inv_def)
      then show ?thesis using Some aligned_nframes [OF al Some] by (cases s) (auto simp: pkt_ok_def)
    qed
  qed
  from acked_inv [OF inv, of pn] show "\<exists>fs j'. on_packet_acked pn j = Ret (fs, j') \<and> (fs \<noteq> [] \<longrightarrow> pn < length H \<and> fs = H ! pn \<and> pn \<notin> set A) \<and>
       (pn < length H \<and> pn \<notin> set A \<and> pn \<notin> L \<longrightarrow> fs = H ! pn)" by blast
  show "pn \<notin> set A \<longrightarrow> (\<exists>fs j'. may_loss_packet pn j = Ret (fs, j') \<and> (fs \<noteq> [] \<longrightarrow> pn < length H \<and> fs = H ! pn) \<and> (pn < length H \<and> pn \<notin> L \<longrightarrow> fs = H ! pn))"
    using lost_inv [OF inv, of pn] by blast
  show "returns (sj_resize now j)" using resize_inv [OF inv, of now] by (auto simp: returns_def)
  from fast_inv [OF inv, of now] show "\<exists>fs j'. fast_retransmit now j = Ret (fs, j') \<and>
       fs = concat (map ((!) H) (filter (\<lambda>pn. (\<exists>n st et. id_get (sj_packets j') pn = Some (PktRetransmitted n st et)) \<and> pn \<notin> L) [0..<length H]))" by auto
qed

theorem sent_journal_feeds_back_witness:
  "\<exists>j. sj_reach [[1::nat, 2], [3]] [] {} j \<and> (\<exists>j'. on_packet_acked 1 j = Ret ([3], j'))"
proof -
  obtain j1 where j1: "build_with_time 0 5 9 (packet_guard False [1::nat, 2] sj_new) = Ret j1" "sj_inv ([] @ [[1, 2]]) [] {} j1" "largest (sj_packets j1) = 1"
    using packet_inv [OF sj_new_inv, of 0 5 9 False "[1::nat, 2]"] by (auto simp: sj_new_def id_default_def largest_def)
  have r1: "sj_reach [[1::nat, 2]] [] {} j1" using sjr_packet [OF sjr_new j1(1)] by simp
  obtain j2 where j2: "build_with_time 3 5 9 (packet_guard True [3] j1) = Ret j2"
    using packet_inv [OF j1(2), of 3 5 9 True "[3]"] j1(3) by (auto simp: VARINT_MAX_def)
  have r2: "sj_reach [[1, 2], [3]] [] {} j2" using sjr_packet [OF r1 j2] by simp
  from sent_journal_feeds_back [OF r2, of 1 0] have "\<exists>j'. on_packet_acked 1 j2 = Ret ([3], j')" by auto
  then show ?thesis using r2 by blast
qed

text \<open>
  Packet numbers are taken in order. The guard of a new packet announces the number after the last one, in an encoding that exists as long as fewer than \<open>2 ^ 31\<close> packets lie between it and the largest
  acknowledged one; building the packet consumes the number exactly when a frame or a trivial frame was recorded, and nothing panics below the largest number there is.
\<close>

theorem packet_numbers_consecutive:
  assumes "sj_reach H A L j" and "largest (sj_packets j) \<le> VARINT_MAX"
  shows "(length H - sj_largest_acked j < 2 ^ 31 \<longrightarrow> (\<exists>p. guard_pn (packet_guard t fs j) = Ret (length H, p) \<and> pn_encode (length H) (sj_largest_acked j) = Ret p)) \<and>
    (\<exists>j'. build_with_time now rt et (packet_guard t fs j) = Ret j' \<and>
       guard_pn (new_packet j') = bind_run (pn_encode (length H + (if fs = [] \<and> \<not> t then 0 else 1)) (sj_largest_acked j'))
         (\<lambda>p. Ret (length H + (if fs = [] \<and> \<not> t then 0 else 1), p)))"
proof -
  have inv: "sj_inv H A L j" by (rule sj_reach_inv [OF assms(1)])
  then have len: "length H = largest (sj_packets j)" "sj_largest_acked j \<le> length H" by (auto simp: sj_inv_def sj_aligned_def)
  have "\<exists>p. guard_pn (packet_guard t fs j) = Ret (length H, p) \<and> pn_encode (length H) (sj_largest_acked j) = Ret p" if "length H - sj_largest_acked j < 2 ^ 31"
  proof -
    have "\<exists>p. pn_encode (length H) (sj_largest_acked j) = Ret p" using len(2) that by (simp only: pn_encode_Ret_iff) simp
    then show ?thesis using len(1) by (auto simp: guard_pn_def packet_guard_eq)
  qed
  moreover have "\<exists>j'. build_with_time now rt et (packet_guard t fs j) = Ret j' \<and> largest (sj_packets j') = length H + (if fs = [] \<and> \<not> t then 0 else 1)"
    using packet_inv [OF inv assms(2), of now rt et t fs] len(1) by (cases "fs = [] \<and> \<not> t") auto
  moreover have "guard_pn (new_packet j') = bind_run (pn_encode n (sj_largest_acked j')) (\<lambda>p. Ret (n, p))" if "largest (sj_packets j') = n" for j' :: "'a sent_journal" and n
    using that by (simp add: guard_pn_def new_packet_def)
  ultimately show ?thesis by (intro conjI) (rule impI, assumption, metis)
qed

theorem packet_numbers_consecutive_witness:
  "sj_reach [] [] {} (sj_new :: nat sent_journal) \<and> (\<exists>p. guard_pn (packet_guard False [7::nat] sj_new) = Ret (0, p))"
  using packet_numbers_consecutive [OF sjr_new, of False "[7::nat]" 0 0 0] sjr_new by (auto simp: sj_new_def id_default_def largest_def)

definition plain_ack :: "nat \<Rightarrow> ack_frame" where
  "plain_ack n = \<lparr>ack_largest = VarInt n, ack_delay = VarInt 0, ack_first_range = VarInt 0, ack_ranges = [], ack_ecn = None\<rparr>"

text \<open>
  The check of the largest acknowledged number is off by one: \<open>IndexDeque::largest\<close> is the number after the last, so an acknowledgement of the packet that is to be sent next is accepted and
  recorded, where the protocol demands a PROTOCOL\_VIOLATION. One number further is refused.
\<close>

theorem ack_of_next_packet_accepted:
  assumes "sj_reach H A L j"
  shows "update_largest (plain_ack (length H)) j = (Inr (), j\<lparr>sj_largest_acked := length H\<rparr>) \<and>
    update_largest (plain_ack (length H + 1)) j = (Inl (QuicError ProtocolViolation (ErrV1 (Ack 0))), j)"
proof -
  have "length H = largest (sj_packets j)" "sj_largest_acked j \<le> length H" using sj_reach_inv [OF assms] by (auto simp: sj_inv_def sj_aligned_def)
  then show ?thesis by (auto simp: update_largest_def Let_def plain_ack_def)
qed

theorem ack_of_next_packet_accepted_witness:
  "sj_reach [] [] {} (sj_new :: nat sent_journal) \<and> update_largest (plain_ack 0) (sj_new :: nat sent_journal) = (Inr (), sj_new\<lparr>sj_largest_acked := 0\<rparr>)"
  using ack_of_next_packet_accepted [OF sjr_new [where 'f = nat]] sjr_new by simp

end
