(* ===== verification/Rcvd_Journal.thy ===== *)
theory Rcvd_Journal
  imports Sent_Journal Frame_Sizes Send_Waker
begin

section \<open>The journal of received packets: qrecovery/src/journal/rcvd.rs\<close>

text \<open>
  A deque numbered by packet number records which packets arrived and which of them have been acknowledged in which packets of our own. It decides whether a packet is new, and
  writes the ACK frames. An instant is a number of nanoseconds, the current time is an argument; a \<open>HashSet\<close> is a set.
\<close>

datatype rcvd_state =
    RcvdEmpty
  | PacketReceived instant "instant option" instant
  | AckSent bool instant instant "nat set"
  | AckConfirmed bool instant instant

fun track_packet_in_ack_frame :: "nat \<Rightarrow> rcvd_state \<Rightarrow> bool \<times> rcvd_state" where
  "track_packet_in_ack_frame pn (PacketReceived recv_time latest_ack_time expire_time) =
     (True, AckSent (latest_ack_time \<noteq> None) recv_time expire_time {pn})"
| "track_packet_in_ack_frame pn (AckSent ae rt et pns) = (True, AckSent ae rt et (insert pn pns))"
| "track_packet_in_ack_frame pn (AckConfirmed ae rt et) = (True, AckConfirmed ae rt et)"
| "track_packet_in_ack_frame pn RcvdEmpty = (False, RcvdEmpty)"

fun is_expired :: "instant \<Rightarrow> rcvd_state \<Rightarrow> bool" where
  "is_expired now RcvdEmpty = True"
| "is_expired now (AckConfirmed ack_eliciting _ expire_time) = (\<not> ack_eliciting \<or> expire_time < now)"
| "is_expired now _ = False"

record rcvd_journal =
  rj_queue :: "rcvd_state index_deque"
  rj_max_ack_delay :: "duration option"
  rj_packet_include_ack :: "nat set"
  rj_earliest_not_ack_time :: "(nat \<times> instant) option"

definition rj_with_capacity :: "duration option \<Rightarrow> rcvd_journal" where
  "rj_with_capacity max_ack_delay =
     \<lparr>rj_queue = id_default, rj_max_ack_delay = max_ack_delay, rj_packet_include_ack = {}, rj_earliest_not_ack_time = None\<rparr>"

definition decode_pn :: "packet_number \<Rightarrow> rcvd_journal \<Rightarrow> (invalid_packet_number + nat) run" where
  "decode_pn pkt_number j =
     (let expected_pn = largest (rj_queue j)
      in bind_run (pn_decode pkt_number expected_pn) (\<lambda>pn. Ret
           (if pn < id_offset (rj_queue j) then Inl TooOld
            else case id_get (rj_queue j) pn of
                   None \<Rightarrow> Inr pn
                 | Some RcvdEmpty \<Rightarrow> Inr pn
                 | _ \<Rightarrow> Inl Duplicate)))"

definition on_rcvd_pn :: "instant \<Rightarrow> nat \<Rightarrow> bool \<Rightarrow> duration \<Rightarrow> rcvd_journal \<Rightarrow> rcvd_journal run" where
  "on_rcvd_pn now pn is_ack_eliciting pto j =
     (let ack_time = (if is_ack_eliciting then Some (now + (case rj_max_ack_delay j of None \<Rightarrow> 0 | Some d \<Rightarrow> d)) else None);
          expire_time = now + pto * 3;
          record = PacketReceived now ack_time expire_time
      in bind_run
           (case id_get (rj_queue j) pn of
              Some old \<Rightarrow> assert_run (old = RcvdEmpty) (expect (id_get_mut (rj_queue j) pn (\<lambda>_. record)))
            | None \<Rightarrow> (case id_insert VARINT_MAX RcvdEmpty pn record (rj_queue j) of (Inl _, _) \<Rightarrow> Panic | (Inr _, q) \<Rightarrow> Ret q))
           (\<lambda>q. Ret (j\<lparr>rj_queue := q,
              rj_earliest_not_ack_time := (if rj_earliest_not_ack_time j = None then Some (pn, now) else rj_earliest_not_ack_time j)\<rparr>)))"

text \<open>The loop that pops the expired records at the front.\<close>

fun rotate_queue :: "instant \<Rightarrow> rcvd_state list \<Rightarrow> nat \<Rightarrow> rcvd_state index_deque" where
  "rotate_queue now [] off = \<lparr>id_deque = [], id_offset = off\<rparr>"
| "rotate_queue now (s # ss) off = (if is_expired now s then rotate_queue now ss (off + 1) else \<lparr>id_deque = s # ss, id_offset = off\<rparr>)"

definition confirm_ack :: "nat set \<Rightarrow> rcvd_state \<Rightarrow> rcvd_state" where
  "confirm_ack acked_pns s =
     (case s of AckSent ae rt et pns \<Rightarrow> if \<exists>pn \<in> pns. pn \<in> acked_pns then AckConfirmed ae rt et else s | _ \<Rightarrow> s)"

definition on_rcvd_ack :: "instant \<Rightarrow> ack_frame \<Rightarrow> rcvd_journal \<Rightarrow> rcvd_journal run" where
  "on_rcvd_ack now ack_frame j =
     bind_run (ack_iter ack_frame) (\<lambda>ranges.
       let acked_pns = Set.filter (\<lambda>pn. \<exists>(l, r) \<in> set ranges. l \<le> pn \<and> pn \<le> r) (rj_packet_include_ack j);
           q = (rj_queue j)\<lparr>id_deque := map (confirm_ack acked_pns) (id_deque (rj_queue j))\<rparr>
       in Ret (j\<lparr>rj_packet_include_ack := Set.filter (\<lambda>pn. pn \<notin> acked_pns) (rj_packet_include_ack j),
                 rj_queue := rotate_queue now (id_deque q) (id_offset q)\<rparr>))"

subsection \<open>Writing an ACK frame\<close>

text \<open>
  The records from \<open>largest\<close> downwards: the first run of received packets, up to and including the first record that is not received; then the fold over the rest, which
  measures gaps and runs and stops when a run no longer fits. The results are the records gone through, in the same order, and those left.
\<close>

fun first_scan :: "nat \<Rightarrow> rcvd_state list \<Rightarrow> rcvd_state list \<times> nat \<times> rcvd_state list" where
  "first_scan pn [] = ([], 0, [])"
| "first_scan pn (s # ss) =
     (let (b, s') = track_packet_in_ack_frame pn s
      in if b then let (seen, n, rest) = first_scan pn ss in (s' # seen, n + 1, rest) else ([s'], 0, ss))"

definition range_count_size_increment :: "nat \<Rightarrow> nat run" where
  "range_count_size_increment range_count =
     (if range_count = 2 ^ 6 - 1 then Ret 1 else if range_count = 2 ^ 14 - 1 then Ret 2 else if range_count = 2 ^ 30 - 1 then Ret 4
      else if range_count = 2 ^ 62 - 1 then Panic else Ret 0)"

text \<open>The size of a finished range and the range itself; both counters are \<open>u32\<close>.\<close>

definition range_entry :: "nat \<Rightarrow> nat \<Rightarrow> nat \<Rightarrow> (nat \<times> varint \<times> varint) run" where
  "range_entry range_count gap ack =
     bind_run (sub64 gap 1) (\<lambda>gap. bind_run (sub64 ack 1) (\<lambda>ack.
     bind_run (sum_run [range_count_size_increment range_count, encoding_size (from_u32 gap), encoding_size (from_u32 ack)]) (\<lambda>size.
       Ret (size, from_u32 gap, from_u32 ack))))"

definition u32_add :: "nat \<Rightarrow> nat \<Rightarrow> nat run" where
  "u32_add a b = assert_run (a + b < 2 ^ 32) (Ret (a + b))"

record range_fold_state =
  rf_capacity :: nat
  rf_ranges :: "(varint \<times> varint) list"
  rf_gap :: nat
  rf_ack :: nat
  rf_last_is_acked :: bool

fun range_fold :: "nat \<Rightarrow> range_fold_state \<Rightarrow> rcvd_state list \<Rightarrow> (range_fold_state \<times> rcvd_state list \<times> rcvd_state list) run" where
  "range_fold pn st [] = Ret (st, [], [])"
| "range_fold pn st (s # ss) =
     (let (b, s') = track_packet_in_ack_frame pn s; (last_is_acked, s'') = track_packet_in_ack_frame pn s';
          continue = (\<lambda>st. bind_run (range_fold pn (st\<lparr>rf_last_is_acked := last_is_acked\<rparr>) ss) (\<lambda>(st, seen, rest). Ret (st, s'' # seen, rest)))
      in if rf_last_is_acked st \<and> \<not> b
         then bind_run (range_entry (length (rf_ranges st)) (rf_gap st) (rf_ack st)) (\<lambda>(size, gap, ack).
                if rf_capacity st < size then Ret (st\<lparr>rf_gap := 0, rf_ack := 0, rf_last_is_acked := False\<rparr>, [s'], ss)
                else continue (st\<lparr>rf_capacity := rf_capacity st - size, rf_ranges := rf_ranges st @ [(gap, ack)], rf_gap := 1, rf_ack := 0\<rparr>))
         else if b then bind_run (u32_add (rf_ack st) 1) (\<lambda>n. continue (st\<lparr>rf_ack := n\<rparr>))
         else bind_run (u32_add (rf_gap st) 1) (\<lambda>n. continue (st\<lparr>rf_gap := n\<rparr>)))"

text \<open>The range that is unfinished when the fold ends.\<close>

definition last_range :: "range_fold_state \<Rightarrow> (varint \<times> varint) list run" where
  "last_range st =
     (if rf_last_is_acked st
      then bind_run (range_entry (length (rf_ranges st)) (rf_gap st) (rf_ack st)) (\<lambda>(size, gap, ack).
             Ret (if size < rf_capacity st then rf_ranges st @ [(gap, ack)] else rf_ranges st))
      else Ret (rf_ranges st))"

definition gen_ack_frame_util :: "instant \<Rightarrow> nat \<Rightarrow> nat \<Rightarrow> instant \<Rightarrow> nat \<Rightarrow> rcvd_journal \<Rightarrow> ((signals + ack_frame) \<times> rcvd_journal) run" where
  "gen_ack_frame_util now pn largest_pn rcvd_time capacity j =
     (let q = rj_queue j; k = largest_pn + 1 - id_offset q;
          pkts = rev (take k (id_deque q)); above = drop k (id_deque q);
          put = (\<lambda>seen rest. j\<lparr>rj_queue := q\<lparr>id_deque := rev (seen @ rest) @ above\<rparr>\<rparr>)
      in bind_run (unwrap_result (from_u64 largest_pn)) (\<lambda>largest_v.
         bind_run (unwrap_result (from_u64 ((now - rcvd_time) div 1000))) (\<lambda>delay.
         let (seen, n, rest) = first_scan pn pkts
         in bind_run (assert_run (n < 2 ^ 32) (Ret (from_u32 (n - 1)))) (\<lambda>first_range.
         bind_run (sum_run [Ret 1, encoding_size largest_v, encoding_size delay, encoding_size first_range, Ret 1]) (\<lambda>min_len.
           if capacity < min_len then Ret (Inl {CONGESTION}, put seen rest)
           else bind_run (range_fold pn \<lparr>rf_capacity = capacity - min_len, rf_ranges = [], rf_gap = 1, rf_ack = 0, rf_last_is_acked = False\<rparr> rest)
                  (\<lambda>(st, seen2, rest2).
                bind_run (last_range st) (\<lambda>ranges.
                let j' = put (seen @ seen2) rest2
                in Ret (Inr \<lparr>ack_largest = largest_v, ack_delay = delay, ack_first_range = first_range, ack_ranges = ranges, ack_ecn = None\<rparr>,
                     j'\<lparr>rj_packet_include_ack := insert pn (rj_packet_include_ack j),
                        rj_earliest_not_ack_time :=
                          (case rj_earliest_not_ack_time j of
                             None \<Rightarrow> None
                           | Some (p, t) \<Rightarrow> if p \<le> largest_pn then None else Some (p, t))\<rparr>))))))))"

definition trigger_ack_frame :: "instant \<Rightarrow> rcvd_journal \<Rightarrow> (nat \<times> instant) option" where
  "trigger_ack_frame now j =
     (case rj_earliest_not_ack_time j of
        None \<Rightarrow> None
      | Some (_, t) \<Rightarrow>
          let max_ack_delay = (case rj_max_ack_delay j of None \<Rightarrow> 0 | Some d \<Rightarrow> d)
          in if now \<le> t + max_ack_delay then None
             else let l = largest (rj_queue j)
                  in case id_get (rj_queue j) l of
                       Some (PacketReceived rt _ _) \<Rightarrow> Some (l, rt)
                     | Some (AckSent _ rt _ _) \<Rightarrow> Some (l, rt)
                     | Some (AckConfirmed _ rt _) \<Rightarrow> Some (l, rt)
                     | _ \<Rightarrow> None)"


subsection \<open>The ranges written\<close>

definition covered :: "(nat \<times> nat) list \<Rightarrow> nat \<Rightarrow> bool" where
  "covered rs x \<longleftrightarrow> (\<exists>(l, r) \<in> set rs. l \<le> x \<and> x \<le> r)"

definition vsize :: "nat \<Rightarrow> nat" where
  "vsize x = (if x < 2 ^ 6 then 1 else if x < 2 ^ 14 then 2 else if x < 2 ^ 30 then 4 else 8)"

definition count_step :: "nat \<Rightarrow> nat" where
  "count_step n = (if n = 2 ^ 6 - 1 then 1 else if n = 2 ^ 14 - 1 then 2 else if n = 2 ^ 30 - 1 then 4 else 0)"

fun ranges_cost :: "nat \<Rightarrow> (varint \<times> varint) list \<Rightarrow> nat" where
  "ranges_cost c [] = 0"
| "ranges_cost c ((g, a) # rs) = count_step c + vsize (into_inner g) + vsize (into_inner a) + ranges_cost (c + 1) rs"

lemma encoding_size_vsize: "x < 2 ^ 62 \<Longrightarrow> encoding_size (VarInt x) = Ret (vsize x)"
  by (simp add: encoding_size_def vsize_def Let_def)

lemma count_step_vsize: "n + 1 < 2 ^ 62 \<Longrightarrow> vsize (n + 1) = vsize n + count_step n"
  by (auto simp: vsize_def count_step_def)

lemma size_bounds: "vsize x \<le> 8" "count_step n \<le> 4"
  by (simp_all add: vsize_def count_step_def)

lemma range_entry_ok:
  assumes "0 < gap" "0 < ack" "gap \<le> 2 ^ 32" "ack \<le> 2 ^ 32" "n < 2 ^ 62 - 1"
  shows "range_entry n gap ack = Ret (count_step n + vsize (gap - 1) + vsize (ack - 1), VarInt (gap - 1), VarInt (ack - 1))"
proof -
  have "range_count_size_increment n = Ret (count_step n)" using assms(5) by (simp add: range_count_size_increment_def count_step_def)
  then show ?thesis using assms by (simp add: range_entry_def sub64_def from_u32_def encoding_size_vsize)
qed

lemma track_facts [simp]:
  "fst (track_packet_in_ack_frame pn s) = (s \<noteq> RcvdEmpty)"
  "track_packet_in_ack_frame pn (snd (track_packet_in_ack_frame pn s)) = track_packet_in_ack_frame pn s"
  "snd (track_packet_in_ack_frame pn s) = RcvdEmpty \<longleftrightarrow> s = RcvdEmpty"
  by (cases s; simp)+


text \<open>
  One step of the fold, on what is seen of a record. With \<open>low\<close> records left below, the next range starts at \<open>low + gap + ack\<close>; \<open>low\<close> is the number after the next record.
\<close>

definition rcvd_at :: "nat \<Rightarrow> rcvd_state list \<Rightarrow> nat \<Rightarrow> bool" where
  "rcvd_at off ss x \<longleftrightarrow> off \<le> x \<and> x < off + length ss \<and> ss ! (off + length ss - 1 - x) \<noteq> RcvdEmpty"

lemma rcvd_at_simps [simp]:
  "\<not> rcvd_at off [] x"
  "rcvd_at off (s # ss) x \<longleftrightarrow> (x = off + length ss \<and> s \<noteq> RcvdEmpty) \<or> rcvd_at off ss x"
proof -
  show "\<not> rcvd_at off [] x" by (simp add: rcvd_at_def)
  show "rcvd_at off (s # ss) x \<longleftrightarrow> (x = off + length ss \<and> s \<noteq> RcvdEmpty) \<or> rcvd_at off ss x"
  proof (cases "x < off + length ss")
    case True
    then have "off + length (s # ss) - 1 - x = Suc (off + length ss - 1 - x)" by simp
    then show ?thesis using True by (auto simp: rcvd_at_def)
  next
    case False
    then show ?thesis by (auto simp: rcvd_at_def)
  qed
qed

definition fold_ok :: "range_fold_state \<Rightarrow> nat \<Rightarrow> bool" where
  "fold_ok st n \<longleftrightarrow> 0 < rf_gap st \<and> rf_last_is_acked st = (0 < rf_ack st) \<and> rf_gap st + rf_ack st + n < 2 ^ 32 \<and> length (rf_ranges st) + n < 2 ^ 32"

definition fold_result :: "nat \<Rightarrow> range_fold_state \<Rightarrow> rcvd_state list \<Rightarrow> (varint \<times> varint) list \<Rightarrow> bool" where
  "fold_result off st ss ext \<longleftrightarrow> (\<exists>rs. ack_scan_ranges (off + length ss + rf_gap st + rf_ack st) ext = Ret rs \<and>
     (\<forall>x. covered rs x \<longrightarrow> rcvd_at off ss x \<or> (off + length ss \<le> x \<and> x < off + length ss + rf_ack st)) \<and>
     (20 * (length ss + 1) < rf_capacity st \<longrightarrow>
       (\<forall>x. rcvd_at off ss x \<or> (off + length ss \<le> x \<and> x < off + length ss + rf_ack st) \<longrightarrow> covered rs x)) \<and>
     ranges_cost (length (rf_ranges st)) ext \<le> rf_capacity st)"

lemma scan_entry:
  assumes "0 < gap" "0 < ack"
  shows "ack_scan_ranges (low + gap + ack) ((VarInt (gap - 1), VarInt (ack - 1)) # rs) =
    bind_run (ack_scan_ranges low rs) (\<lambda>tail. Ret ((low, low + ack - 1) # tail))"
proof -
  have "low + gap + ack - (gap - 1) - 2 = low + ack - 1" "low + ack - 1 - (ack - 1) = low" using assms by auto
  moreover have "gap - 1 \<le> low + gap + ack" "2 \<le> low + gap + ack - (gap - 1)" "ack - 1 \<le> low + ack - 1" using assms by auto
  ultimately show ?thesis unfolding ack_scan_ranges.simps varint.sel sub64_def by (simp only: if_True bind_run.simps)
qed

lemma covered_Cons: "covered ((l, r) # rs) x \<longleftrightarrow> (l \<le> x \<and> x \<le> r) \<or> covered rs x"
  by (auto simp: covered_def)

lemma range_fold_received:
  assumes "s \<noteq> RcvdEmpty" "rf_ack st + 1 < 2 ^ 32"
  shows "range_fold pn st (s # ss) = bind_run (range_fold pn (st\<lparr>rf_ack := rf_ack st + 1, rf_last_is_acked := True\<rparr>) ss)
    (\<lambda>(st, seen, rest). Ret (st, snd (track_packet_in_ack_frame pn s) # seen, rest))"
  using assms by (cases s) (simp_all add: u32_add_def)

lemma range_fold_gap:
  assumes "\<not> rf_last_is_acked st" "rf_gap st + 1 < 2 ^ 32"
  shows "range_fold pn st (RcvdEmpty # ss) = bind_run (range_fold pn (st\<lparr>rf_gap := rf_gap st + 1, rf_last_is_acked := False\<rparr>) ss)
    (\<lambda>(st, seen, rest). Ret (st, RcvdEmpty # seen, rest))"
  using assms by (simp add: u32_add_def)

lemma range_fold_end:
  assumes "rf_last_is_acked st" "range_entry (length (rf_ranges st)) (rf_gap st) (rf_ack st) = Ret (sz, gap, ack)"
  shows "range_fold pn st (RcvdEmpty # ss) =
    (if rf_capacity st < sz then Ret (st\<lparr>rf_gap := 0, rf_ack := 0, rf_last_is_acked := False\<rparr>, [RcvdEmpty], ss)
     else bind_run (range_fold pn (st\<lparr>rf_capacity := rf_capacity st - sz, rf_ranges := rf_ranges st @ [(gap, ack)], rf_gap := 1, rf_ack := 0, rf_last_is_acked := False\<rparr>) ss)
       (\<lambda>(st, seen, rest). Ret (st, RcvdEmpty # seen, rest)))"
  using assms by simp

lemma range_fold_ok:
  assumes "fold_ok st (length ss)"
  shows "\<exists>st' seen rest ext. range_fold pn st ss = Ret (st', seen, rest) \<and> last_range st' = Ret (rf_ranges st @ ext) \<and> fold_result off st ss ext"
  using assms
proof (induction ss arbitrary: st)
  case Nil
  show ?case
  proof (cases "rf_last_is_acked st")
    case False
    then show ?thesis using Nil by (auto simp: last_range_def fold_ok_def fold_result_def covered_def)
  next
    case True
    let ?size = "count_step (length (rf_ranges st)) + vsize (rf_gap st - 1) + vsize (rf_ack st - 1)"
    let ?e = "(VarInt (rf_gap st - 1), VarInt (rf_ack st - 1))"
    have pos: "0 < rf_gap st" "0 < rf_ack st" using Nil True by (auto simp: fold_ok_def)
    have en: "range_entry (length (rf_ranges st)) (rf_gap st) (rf_ack st) = Ret (?size, ?e)"
      using Nil True by (intro range_entry_ok) (auto simp: fold_ok_def)
    have small: "?size \<le> 20" using size_bounds(1) [of "rf_gap st - 1"] size_bounds(1) [of "rf_ack st - 1"] size_bounds(2) [of "length (rf_ranges st)"] by simp
    show ?thesis
    proof (cases "?size < rf_capacity st")
      case fits: True
      have "fold_result off st [] [?e]"
        using scan_entry [OF pos, of off "[]"] fits pos by (auto simp: fold_result_def covered_Cons covered_def)
      then show ?thesis using True en fits by (intro exI [of _ st] exI [of _ "[]"] exI [of _ "[?e]"]) (simp add: last_range_def)
    next
      case False
      then have "fold_result off st [] []" using small by (simp add: fold_result_def covered_def)
      then show ?thesis using True en False by (intro exI [of _ st] exI [of _ "[]"] exI [of _ "[]"]) (simp add: last_range_def)
    qed
  qed
next
  case (Cons s ss)
  show ?case
  proof (cases "s = RcvdEmpty")
    case False
    let ?st = "st\<lparr>rf_ack := rf_ack st + 1, rf_last_is_acked := True\<rparr>"
    have "fold_ok ?st (length ss)" using Cons.prems by (auto simp: fold_ok_def)
    from Cons.IH [OF this] obtain st' seen rest ext where ih: "range_fold pn ?st ss = Ret (st', seen, rest)"
      "last_range st' = Ret (rf_ranges st @ ext)" "fold_result off ?st ss ext" by auto
    have run: "range_fold pn st (s # ss) = Ret (st', snd (track_packet_in_ack_frame pn s) # seen, rest)"
      using range_fold_received [OF False, of st pn ss] Cons.prems ih(1) by (simp add: fold_ok_def)
    have win: "(rcvd_at off (s # ss) x \<or> (off + length (s # ss) \<le> x \<and> x < off + length (s # ss) + rf_ack st)) =
        (rcvd_at off ss x \<or> (off + length ss \<le> x \<and> x < off + length ss + rf_ack ?st))" for x
      using False by auto
    have "fold_result off st (s # ss) ext"
      using ih(3) unfolding fold_result_def win by (elim exE conjE) (auto simp del: rcvd_at_simps)
    then show ?thesis using run ih(2) by blast
  next
    case True
    show ?thesis
    proof (cases "rf_last_is_acked st")
      case False
      let ?st = "st\<lparr>rf_gap := rf_gap st + 1, rf_last_is_acked := False\<rparr>"
      have z: "rf_ack st = 0" using Cons.prems False by (simp add: fold_ok_def)
      have "fold_ok ?st (length ss)" using Cons.prems z by (auto simp: fold_ok_def)
      from Cons.IH [OF this] obtain st' seen rest ext where ih: "range_fold pn ?st ss = Ret (st', seen, rest)"
        "last_range st' = Ret (rf_ranges st @ ext)" "fold_result off ?st ss ext" by auto
      have run: "range_fold pn st (s # ss) = Ret (st', RcvdEmpty # seen, rest)"
        using range_fold_gap [OF False, of pn ss] Cons.prems ih(1) True by (simp add: fold_ok_def)
      have win: "(rcvd_at off (s # ss) x \<or> (off + length (s # ss) \<le> x \<and> x < off + length (s # ss) + rf_ack st)) =
          (rcvd_at off ss x \<or> (off + length ss \<le> x \<and> x < off + length ss + rf_ack ?st))" for x
        using True z by auto
      have "fold_result off st (s # ss) ext" using ih(3) unfolding fold_result_def win by (elim exE conjE) (auto simp del: rcvd_at_simps)
      then show ?thesis using run ih(2) by blast
    next
      case last: True
      let ?size = "count_step (length (rf_ranges st)) + vsize (rf_gap st - 1) + vsize (rf_ack st - 1)"
      let ?e = "(VarInt (rf_gap st - 1), VarInt (rf_ack st - 1))"
      have pos: "0 < rf_gap st" "0 < rf_ack st" using Cons.prems last by (auto simp: fold_ok_def)
      have en: "range_entry (length (rf_ranges st)) (rf_gap st) (rf_ack st) = Ret (?size, ?e)"
        using Cons.prems pos by (intro range_entry_ok) (auto simp: fold_ok_def)
      have small: "?size \<le> 20" using size_bounds(1) [of "rf_gap st - 1"] size_bounds(1) [of "rf_ack st - 1"] size_bounds(2) [of "length (rf_ranges st)"] by simp
      show ?thesis
      proof (cases "rf_capacity st < ?size")
        case full: True
        then have "fold_result off st (s # ss) []" using small by (simp add: fold_result_def covered_def)
        then show ?thesis using range_fold_end [OF last en, of pn ss] full True
          by (intro exI [of _ "st\<lparr>rf_gap := 0, rf_ack := 0, rf_last_is_acked := False\<rparr>"] exI [of _ "[RcvdEmpty]"] exI [of _ ss] exI [of _ "[]"]) (simp add: last_range_def)
      next
        case fits: False
        let ?st = "st\<lparr>rf_capacity := rf_capacity st - ?size, rf_ranges := rf_ranges st @ [?e], rf_gap := 1, rf_ack := 0, rf_last_is_acked := False\<rparr>"
        have "fold_ok ?st (length ss)" using Cons.prems by (auto simp: fold_ok_def)
        from Cons.IH [OF this] obtain st' seen rest ext where ih: "range_fold pn ?st ss = Ret (st', seen, rest)"
          "last_range st' = Ret (rf_ranges st @ ?e # ext)" "fold_result off ?st ss ext" by auto
        have run: "range_fold pn st (s # ss) = Ret (st', RcvdEmpty # seen, rest)"
          using range_fold_end [OF last en, of pn ss] fits ih(1) True by simp
        have nowin: "(P \<or> (off + length ss \<le> x \<and> x < off + length ss + rf_ack ?st)) = P" for P x by auto
        from ih(3) [unfolded fold_result_def nowin] obtain rs where rs: "ack_scan_ranges (off + length ss + 1) ext = Ret rs" "\<forall>x. covered rs x \<longrightarrow> rcvd_at off ss x"
          "20 * (length ss + 1) < rf_capacity st - ?size \<longrightarrow> (\<forall>x. rcvd_at off ss x \<longrightarrow> covered rs x)"
          "ranges_cost (length (rf_ranges st) + 1) ext \<le> rf_capacity st - ?size" by auto
        have sc: "ack_scan_ranges (off + length (s # ss) + rf_gap st + rf_ack st) (?e # ext) = Ret ((off + length (s # ss), off + length (s # ss) + rf_ack st - 1) # rs)"
          using scan_entry [OF pos, of "off + length (s # ss)" ext] rs(1) by simp
        have "fold_result off st (s # ss) (?e # ext)"
        proof (unfold fold_result_def, intro exI conjI impI)
          show "\<forall>x. covered ((off + length (s # ss), off + length (s # ss) + rf_ack st - 1) # rs) x \<longrightarrow>
            rcvd_at off (s # ss) x \<or> off + length (s # ss) \<le> x \<and> x < off + length (s # ss) + rf_ack st"
            using rs(2) pos(2) by (auto simp: covered_Cons)
          assume "20 * (length (s # ss) + 1) < rf_capacity st"
          then have "20 * (length ss + 1) < rf_capacity st - ?size" using small by simp
          then have "\<forall>x. rcvd_at off ss x \<longrightarrow> covered rs x" using rs(3) by simp
          then show "\<forall>x. rcvd_at off (s # ss) x \<or> off + length (s # ss) \<le> x \<and> x < off + length (s # ss) + rf_ack st \<longrightarrow>
            covered ((off + length (s # ss), off + length (s # ss) + rf_ack st - 1) # rs) x"
            using True pos(2) by (auto simp: covered_Cons)
        qed (use sc rs(4) fits in auto)
        then show ?thesis using run ih(2) by blast
      qed
    qed
  qed
qed


lemma first_scan_eq:
  "first_scan pn ss = (map (\<lambda>s. snd (track_packet_in_ack_frame pn s)) (take (length (takeWhile (\<lambda>s. s \<noteq> RcvdEmpty) ss) + 1) ss),
     length (takeWhile (\<lambda>s. s \<noteq> RcvdEmpty) ss), drop (length (takeWhile (\<lambda>s. s \<noteq> RcvdEmpty) ss) + 1) ss)"
proof (induction ss)
  case (Cons s ss)
  then show ?case by (cases s) (simp_all add: Let_def)
qed simp

lemma range_fold_keeps:
  "range_fold pn st ss = Ret (st', seen, rest) \<Longrightarrow> map (\<lambda>s. s = RcvdEmpty) (seen @ rest) = map (\<lambda>s. s = RcvdEmpty) ss"
proof (induction ss arbitrary: st st' seen rest)
  case (Cons s ss)
  then show ?case using Cons.prems by (cases s) (auto simp: Let_def run_simps split: if_splits dest!: Cons.IH)
qed simp


lemma rcvd_at_append: "rcvd_at off (xs @ ys) x \<longleftrightarrow> rcvd_at off ys x \<or> rcvd_at (off + length ys) xs x"
  by (induction xs) (auto simp: add_ac)

lemma rcvd_at_all: "\<forall>s \<in> set ss. s \<noteq> RcvdEmpty \<Longrightarrow> rcvd_at off ss x \<longleftrightarrow> off \<le> x \<and> x < off + length ss"
  by (auto simp: rcvd_at_def)

definition received :: "rcvd_journal \<Rightarrow> nat \<Rightarrow> bool" where
  "received j x \<longleftrightarrow> (\<exists>s. id_get (rj_queue j) x = Some s \<and> s \<noteq> RcvdEmpty)"

lemma received_map:
  "id_offset (rj_queue j') = id_offset (rj_queue j) \<Longrightarrow>
     map (\<lambda>s. s = RcvdEmpty) (id_deque (rj_queue j')) = map (\<lambda>s. s = RcvdEmpty) (id_deque (rj_queue j)) \<Longrightarrow>
     received j' = received j \<and> largest (rj_queue j') = largest (rj_queue j)"
proof -
  assume off: "id_offset (rj_queue j') = id_offset (rj_queue j)"
    and m: "map (\<lambda>s. s = RcvdEmpty) (id_deque (rj_queue j')) = map (\<lambda>s. s = RcvdEmpty) (id_deque (rj_queue j))"
  from m have len: "length (id_deque (rj_queue j')) = length (id_deque (rj_queue j))" by (rule map_eq_imp_length_eq)
  have "(id_deque (rj_queue j') ! i = RcvdEmpty) = (id_deque (rj_queue j) ! i = RcvdEmpty)" if "i < length (id_deque (rj_queue j))" for i
    using arg_cong [OF m, of "\<lambda>xs. xs ! i"] that len by simp
  then have "received j' x = received j x" for x using off len by (auto simp: received_def id_get_def contain_def largest_def)
  then show "received j' = received j \<and> largest (rj_queue j') = largest (rj_queue j)" using off len by (auto simp: largest_def)
qed

lemma scan_entries_bounded:
  "ack_scan_ranges low rs = Ret out \<Longrightarrow> length rs \<le> low \<and> (\<forall>(g, a) \<in> set rs. into_inner g \<le> low \<and> into_inner a \<le> low)"
proof (induction low rs arbitrary: out rule: ack_scan_ranges.induct)
  case (2 low g a rs)
  let ?l = "low - into_inner g - 2 - into_inner a"
  from "2.prems" obtain t where t: "ack_scan_ranges ?l rs = Ret t" and le: "into_inner g \<le> low" "2 \<le> low - into_inner g" "into_inner a \<le> low - into_inner g - 2"
    by (auto simp: run_simps)
  have "length rs \<le> ?l \<and> (\<forall>(g, a) \<in> set rs. into_inner g \<le> ?l \<and> into_inner a \<le> ?l)"
    by (rule "2.IH" [OF t])
  then show ?case using le by fastforce
qed simp

lemma ranges_cost_total:
  assumes "c + length rs < 2 ^ 62"
  shows "ranges_cost c rs + vsize c = vsize (c + length rs) + (\<Sum>(g, a) \<leftarrow> rs. vsize (into_inner g) + vsize (into_inner a))"
  using assms
proof (induction rs arbitrary: c)
  case (Cons r rs)
  obtain g a where r: "r = (g, a)" by (cases r)
  have "ranges_cost (c + 1) rs + vsize (c + 1) = vsize (c + 1 + length rs) + (\<Sum>(g, a) \<leftarrow> rs. vsize (into_inner g) + vsize (into_inner a))"
    by (rule Cons.IH) (use Cons.prems in simp)
  then show ?case using count_step_vsize [of c] Cons.prems r by simp
qed simp

lemma sum_run_ranges:
  "\<forall>(g, a) \<in> set rs. into_inner g < 2 ^ 62 \<and> into_inner a < 2 ^ 62 \<Longrightarrow>
     sum_run (map (\<lambda>(gap, ack). sum_run [encoding_size gap, encoding_size ack]) rs) = Ret (\<Sum>(g, a) \<leftarrow> rs. vsize (into_inner g) + vsize (into_inner a))"
proof (induction rs)
  case (Cons r rs)
  obtain x y where r: "r = (VarInt x, VarInt y)" by (metis surj_pair varint.exhaust)
  then show ?case using Cons by (simp add: encoding_size_vsize)
qed simp

lemma ack_frame_fits:
  assumes "L < 2 ^ 62" "d < 2 ^ 62" "n < 2 ^ 62" "low \<le> 2 ^ 62 - 2" "ack_scan_ranges low rs = Ret out"
    and "1 + vsize L + vsize d + vsize n + 1 \<le> cap" "ranges_cost 0 rs \<le> cap - (1 + vsize L + vsize d + vsize n + 1)"
  shows "\<exists>m \<le> cap. frame_encoding_size (ack_encode \<lparr>ack_largest = VarInt L, ack_delay = VarInt d, ack_first_range = VarInt n, ack_ranges = rs, ack_ecn = None\<rparr>) = Ret m"
proof -
  let ?sum = "\<Sum>(g, a) \<leftarrow> rs. vsize (into_inner g) + vsize (into_inner a)"
  have b: "length rs < 2 ^ 62" "\<forall>(g, a) \<in> set rs. into_inner g < 2 ^ 62 \<and> into_inner a < 2 ^ 62"
    using scan_entries_bounded [OF assms(5)] assms(4) by auto
  have "vsize 0 = 1" by (simp add: vsize_def)
  then have cost: "ranges_cost 0 rs + 1 = vsize (length rs) + ?sum" using ranges_cost_total [of 0 rs] b(1) by simp
  have "len_size (length rs) = Ret (vsize (length rs))" using b(1) by (simp add: len_size_def from_u64_def encoding_size_vsize)
  then have "frame_encoding_size (ack_encode \<lparr>ack_largest = VarInt L, ack_delay = VarInt d, ack_first_range = VarInt n, ack_ranges = rs, ack_ecn = None\<rparr>) =
      Ret (1 + vsize L + vsize d + vsize (length rs) + vsize n + ?sum)"
    using assms(1-3) sum_run_ranges [OF b(2)] by (simp add: ack_encode_def encoding_size_vsize)
  then show ?thesis using cost assms(6,7) by auto
qed


subsection \<open>The frame written\<close>

lemma gen_ack_keeps:
  assumes "gen_ack_frame_util now pn L rt cap j = Ret (res, j')"
  shows "received j' = received j \<and> id_offset (rj_queue j') = id_offset (rj_queue j) \<and> largest (rj_queue j') = largest (rj_queue j)"
proof -
  let ?q = "rj_queue j" and ?k = "L + 1 - id_offset (rj_queue j)"
  let ?pkts = "rev (take ?k (id_deque ?q))"
  let ?n = "length (takeWhile (\<lambda>s. s \<noteq> RcvdEmpty) ?pkts)"
  let ?seen = "map (\<lambda>s. snd (track_packet_in_ack_frame pn s)) (take (?n + 1) ?pkts)" and ?rest = "drop (?n + 1) ?pkts"
  have t: "map (\<lambda>s. s = RcvdEmpty) ?seen = map (\<lambda>s. s = RcvdEmpty) (take (?n + 1) ?pkts)" by simp
  have "\<exists>seen2 rest2. map (\<lambda>s. s = RcvdEmpty) (seen2 @ rest2) = map (\<lambda>s. s = RcvdEmpty) ?rest \<and>
      rj_queue j' = ?q\<lparr>id_deque := rev (?seen @ seen2 @ rest2) @ drop ?k (id_deque ?q)\<rparr>"
  proof -
    consider "rj_queue j' = ?q\<lparr>id_deque := rev (?seen @ ?rest) @ drop ?k (id_deque ?q)\<rparr>" |
      st st' seen2 rest2 where "range_fold pn st ?rest = Ret (st', seen2, rest2)" "rj_queue j' = ?q\<lparr>id_deque := rev (?seen @ seen2 @ rest2) @ drop ?k (id_deque ?q)\<rparr>"
      using assms by (auto simp: gen_ack_frame_util_def Let_def first_scan_eq run_simps split: if_splits)
    then show ?thesis
    proof cases
      case 1
      then show ?thesis by (intro exI [of _ "[]"] exI [of _ ?rest]) simp
    next
      case 2
      then show ?thesis using range_fold_keeps [OF 2(1)] by blast
    qed
  qed
  then obtain seen2 rest2 where m: "map (\<lambda>s. s = RcvdEmpty) (seen2 @ rest2) = map (\<lambda>s. s = RcvdEmpty) ?rest"
    and q: "rj_queue j' = ?q\<lparr>id_deque := rev (?seen @ seen2 @ rest2) @ drop ?k (id_deque ?q)\<rparr>" by blast
  have "map (\<lambda>s. s = RcvdEmpty) (?seen @ seen2 @ rest2) = map (\<lambda>s. s = RcvdEmpty) (take (?n + 1) ?pkts @ ?rest)" using t m by (simp only: map_append)
  also have "\<dots> = map (\<lambda>s. s = RcvdEmpty) ?pkts" by (simp only: append_take_drop_id)
  finally have "map (\<lambda>s. s = RcvdEmpty) (rev (?seen @ seen2 @ rest2)) = map (\<lambda>s. s = RcvdEmpty) (take ?k (id_deque ?q))"
    by (simp only: rev_map [symmetric] rev_rev_ident)
  moreover have "id_deque (rj_queue j') = rev (?seen @ seen2 @ rest2) @ drop ?k (id_deque ?q)" by (simp add: q)
  ultimately have "map (\<lambda>s. s = RcvdEmpty) (id_deque (rj_queue j')) = map (\<lambda>s. s = RcvdEmpty) (take ?k (id_deque ?q)) @ map (\<lambda>s. s = RcvdEmpty) (drop ?k (id_deque ?q))"
    by (simp only: map_append)
  then have "map (\<lambda>s. s = RcvdEmpty) (id_deque (rj_queue j')) = map (\<lambda>s. s = RcvdEmpty) (id_deque ?q)" by (simp only: map_append [symmetric] append_take_drop_id)
  moreover have "id_offset (rj_queue j') = id_offset ?q" by (simp add: q)
  ultimately show ?thesis using received_map by blast
qed

lemma takeWhile_head: "xs \<noteq> [] \<Longrightarrow> P (xs ! 0) \<Longrightarrow> 0 < length (takeWhile P xs)"
  by (cases xs) auto

lemma rcvd_at_first_run:
  defines "n ss \<equiv> length (takeWhile (\<lambda>s. s \<noteq> RcvdEmpty) ss)"
  shows "rcvd_at off ss x \<longleftrightarrow> rcvd_at off (drop (n ss + 1) ss) x \<or> (off + length ss - n ss \<le> x \<and> x < off + length ss)"
proof (induction ss)
  case (Cons s ss)
  then show ?case by (cases "s = RcvdEmpty") (auto simp: n_def)
qed (simp add: n_def)

lemma gen_ack_scan:
  assumes "range_fold pn st rest = Ret (st', seen, rest2)" "last_range st' = Ret ext" "fold_result off st rest ext" and n: "n \<le> k"
    and "k = n \<Longrightarrow> rest = []" "n < k \<Longrightarrow> length rest = k - n - 1" "off + k = L + 1" "rf_gap st = 1" "rf_ack st = 0" "rf_ranges st = []" "\<not> rf_last_is_acked st"
  obtains rs where "ack_scan_ranges (L + 1 - n) ext = Ret rs" "\<forall>x. covered rs x \<longrightarrow> rcvd_at off rest x"
    "20 * (length rest + 1) < rf_capacity st \<longrightarrow> (\<forall>x. rcvd_at off rest x \<longrightarrow> covered rs x)" "ranges_cost 0 ext \<le> rf_capacity st"
proof (cases "k = n")
  case True
  then have "ext = []" using assms by (auto simp: last_range_def)
  then show thesis using that [of "[]"] assms(5) True by (simp add: covered_def)
next
  case False
  have low: "off + length rest + rf_gap st + rf_ack st = L + 1 - n" using assms False by auto
  have nowin: "(P \<or> (off + length rest \<le> x \<and> x < off + length rest + rf_ack st)) = P" for P x using assms(9) by auto
  from assms(3) [unfolded fold_result_def nowin low] show thesis using that assms(10) by auto
qed

lemma rcvd_at_rev:
  assumes "k \<le> length xs"
  shows "rcvd_at off (rev (take k xs)) x \<longleftrightarrow> off \<le> x \<and> x < off + k \<and> xs ! (x - off) \<noteq> RcvdEmpty"
proof (cases "off \<le> x \<and> x < off + k")
  case True
  then have "off + k - 1 - x < length (take k xs)" using assms by auto
  then have "rev (take k xs) ! (off + k - 1 - x) = take k xs ! (k - 1 - (off + k - 1 - x))" using assms by (simp only: rev_nth) (simp add: min_def)
  moreover have "k - 1 - (off + k - 1 - x) = x - off" "x - off < k" using True by auto
  ultimately show ?thesis using True assms by (simp add: rcvd_at_def)
next
  case False
  then show ?thesis using assms by (auto simp: rcvd_at_def)
qed

text \<open>The two ways the call ends.\<close>

lemma gen_ack_runs:
  assumes "first_scan pn (rev (take (L + 1 - id_offset (rj_queue j)) (id_deque (rj_queue j)))) = (seen, n, rest)" "L < 2 ^ 62" "(now - rt) div 1000 < 2 ^ 62" "n < 2 ^ 32"
  defines "d \<equiv> (now - rt) div 1000"
  defines "min_len \<equiv> 1 + vsize L + vsize d + vsize (n - 1) + 1"
  shows "cap < min_len \<Longrightarrow> \<exists>j'. gen_ack_frame_util now pn L rt cap j = Ret (Inl {CONGESTION}, j')"
    "\<not> cap < min_len \<Longrightarrow> range_fold pn \<lparr>rf_capacity = cap - min_len, rf_ranges = [], rf_gap = 1, rf_ack = 0, rf_last_is_acked = False\<rparr> rest = Ret (st, seen2, rest2) \<Longrightarrow>
      last_range st = Ret ext \<Longrightarrow>
      \<exists>j'. gen_ack_frame_util now pn L rt cap j =
        Ret (Inr \<lparr>ack_largest = VarInt L, ack_delay = VarInt d, ack_first_range = VarInt (n - 1), ack_ranges = ext, ack_ecn = None\<rparr>, j') \<and>
        rj_packet_include_ack j' = insert pn (rj_packet_include_ack j)"
proof -
  have e: "encoding_size (VarInt L) = Ret (vsize L)" "encoding_size (VarInt d) = Ret (vsize d)" "encoding_size (VarInt (n - 1)) = Ret (vsize (n - 1))"
    using assms(2-4) by (auto simp: d_def intro: encoding_size_vsize)
  have v: "unwrap_result (from_u64 L) = Ret (VarInt L)" "unwrap_result (from_u64 ((now - rt) div 1000)) = Ret (VarInt d)"
    using assms(2,3) by (simp_all add: from_u64_def d_def)
  have fr: "assert_run (n < 2 ^ 32) (Ret (from_u32 (n - 1))) = Ret (VarInt (n - 1))" using assms(4) by (simp add: from_u32_def)
  have min: "sum_run [Ret 1, encoding_size (VarInt L), encoding_size (VarInt d), encoding_size (VarInt (n - 1)), Ret 1] = Ret min_len"
    by (simp only: e sum_run.simps bind_run.simps) (simp add: min_len_def)
  note simps = gen_ack_frame_util_def Let_def assms(1) v fr prod.case bind_run.simps min
  show "\<exists>j'. gen_ack_frame_util now pn L rt cap j = Ret (Inl {CONGESTION}, j')" if "cap < min_len"
    by (simp only: simps that if_True) blast
  show "\<exists>j'. gen_ack_frame_util now pn L rt cap j =
        Ret (Inr \<lparr>ack_largest = VarInt L, ack_delay = VarInt d, ack_first_range = VarInt (n - 1), ack_ranges = ext, ack_ecn = None\<rparr>, j') \<and>
        rj_packet_include_ack j' = insert pn (rj_packet_include_ack j)"
    if "\<not> cap < min_len" "range_fold pn \<lparr>rf_capacity = cap - min_len, rf_ranges = [], rf_gap = 1, rf_ack = 0, rf_last_is_acked = False\<rparr> rest = Ret (st, seen2, rest2)"
      "last_range st = Ret ext"
    by (simp only: simps that if_False) simp
qed

lemma gen_ack_ok:
  assumes rc: "received j L" and L: "L \<le> VARINT_MAX - 1" and len: "length (id_deque (rj_queue j)) < 2 ^ 32 - 1" and delay: "(now - rt) div 1000 \<le> VARINT_MAX"
  shows "(\<exists>j'. cap < 27 \<and> gen_ack_frame_util now pn L rt cap j = Ret (Inl {CONGESTION}, j')) \<or>
    (\<exists>f j' rs. gen_ack_frame_util now pn L rt cap j = Ret (Inr f, j') \<and> ack_largest f = VarInt L \<and> ack_iter f = Ret rs \<and> covered rs L \<and>
       (\<forall>x. covered rs x \<longrightarrow> x \<le> L \<and> received j x) \<and>
       (27 + 20 * (length (id_deque (rj_queue j)) + 1) \<le> cap \<longrightarrow> (\<forall>x \<le> L. received j x \<longrightarrow> covered rs x)) \<and>
       (\<exists>m \<le> cap. frame_encoding_size (ack_encode f) = Ret m) \<and> rj_packet_include_ack j' = insert pn (rj_packet_include_ack j))"
proof -
  define q where "q = rj_queue j"
  define off where "off = id_offset q"
  define k where "k = L + 1 - off"
  define pkts where "pkts = rev (take k (id_deque q))"
  define n where "n = length (takeWhile (\<lambda>s. s \<noteq> RcvdEmpty) pkts)"
  define rest where "rest = drop (n + 1) pkts"
  define d where "d = (now - rt) div 1000"
  define mn where "mn = 1 + vsize L + vsize d + vsize (n - 1) + 1"
  have o: "off \<le> L" "k \<le> length (id_deque q)" using rc by (auto simp: received_def id_get_iff largest_def q_def off_def k_def)
  then have lp: "length pkts = k" "0 < k" "off + k = L + 1" by (auto simp: pkts_def k_def)
  have at: "rcvd_at off pkts x \<longleftrightarrow> x \<le> L \<and> received j x" for x
    unfolding pkts_def rcvd_at_rev [OF o(2)] lp(3) using o k_def by (auto simp: received_def id_get_iff largest_def q_def off_def)
  have "pkts ! 0 \<noteq> RcvdEmpty" using at [of L] rc lp by (auto simp: rcvd_at_def)
  then have n: "0 < n" "n \<le> k" using takeWhile_head [of pkts] length_takeWhile_le [of _ pkts] lp by (auto simp: n_def)
  have lr: "length rest = k - (n + 1)" using lp by (simp add: rest_def)
  have fs: "first_scan pn (rev (take (L + 1 - id_offset (rj_queue j)) (id_deque (rj_queue j)))) =
      (map (\<lambda>s. snd (track_packet_in_ack_frame pn s)) (take (n + 1) pkts), n, rest)"
    unfolding n_def rest_def pkts_def k_def off_def q_def by (rule first_scan_eq)
  have b: "L < 2 ^ 62" "d < 2 ^ 62" using L delay by (auto simp: VARINT_MAX_def d_def)
  have b2: "n < 2 ^ 32" "n - 1 < 2 ^ 62" "length rest < 2 ^ 32 - 1" using n o len lr by (auto simp: q_def)
  have mn_le: "mn \<le> 26" using size_bounds(1) [of L] size_bounds(1) [of d] size_bounds(1) [of "n - 1"] by (simp add: mn_def)
  let ?st = "\<lparr>rf_capacity = cap - mn, rf_ranges = [], rf_gap = 1, rf_ack = 0, rf_last_is_acked = False\<rparr>"
  have "fold_ok ?st (length rest)" using b2(3) by (simp add: fold_ok_def)
  from range_fold_ok [OF this, of pn off] obtain st' seen2 rest2 ext where
    fold: "range_fold pn ?st rest = Ret (st', seen2, rest2)" "last_range st' = Ret ext" "fold_result off ?st rest ext" by auto
  note runs = gen_ack_runs [OF fs b(1) b(2) [unfolded d_def] b2(1), folded d_def, folded mn_def]
  show ?thesis
  proof (cases "cap < mn")
    case True
    then show ?thesis using runs(1) mn_le by auto
  next
    case False
    let ?f = "\<lparr>ack_largest = VarInt L, ack_delay = VarInt d, ack_first_range = VarInt (n - 1), ack_ranges = ext, ack_ecn = None\<rparr>"
    have run: "\<exists>j'. gen_ack_frame_util now pn L rt cap j = Ret (Inr ?f, j') \<and> rj_packet_include_ack j' = insert pn (rj_packet_include_ack j)"
      by (rule runs(2) [OF False fold(1,2)])
    have lowest: "L - (n - 1) = L + 1 - n" using n by simp
    obtain rs where rs: "ack_scan_ranges (L + 1 - n) ext = Ret rs" "\<forall>x. covered rs x \<longrightarrow> rcvd_at off rest x"
      "20 * (length rest + 1) < rf_capacity ?st \<longrightarrow> (\<forall>x. rcvd_at off rest x \<longrightarrow> covered rs x)" "ranges_cost 0 ext \<le> rf_capacity ?st"
      by (rule gen_ack_scan [OF fold n(2) _ _ lp(3)]) (use lr in auto)
    have split: "rcvd_at off pkts x \<longleftrightarrow> rcvd_at off rest x \<or> (L + 1 - n \<le> x \<and> x \<le> L)" for x
      using rcvd_at_first_run [of off pkts x] lp unfolding n_def [symmetric] rest_def [symmetric] by auto
    have it: "ack_iter ?f = Ret ((L - (n - 1), L) # rs)" using rs(1) n lp by (simp add: ack_iter_def sub64_def Let_def lowest)
    have cov: "x \<le> L \<and> received j x" if "covered ((L - (n - 1), L) # rs) x" for x
      using rs(2) split [of x] at [of x] lowest that by (auto simp: covered_Cons)
    have full: "covered ((L - (n - 1), L) # rs) x" if "27 + 20 * (length (id_deque (rj_queue j)) + 1) \<le> cap" "x \<le> L" "received j x" for x
    proof -
      have "20 * (length rest + 1) < rf_capacity ?st" using that(1) mn_le lr o by (simp add: q_def)
      then show ?thesis using rs(3) split [of x] at [of x] that lowest by (auto simp: covered_Cons)
    qed
    have "\<exists>m \<le> cap. frame_encoding_size (ack_encode ?f) = Ret m"
    proof (rule ack_frame_fits [OF b b2(2) _ rs(1)])
      show "L + 1 - n \<le> 2 ^ 62 - 2" using L n by (simp add: VARINT_MAX_def)
      show "1 + vsize L + vsize d + vsize (n - 1) + 1 \<le> cap" "ranges_cost 0 ext \<le> cap - (1 + vsize L + vsize d + vsize (n - 1) + 1)"
        using False rs(4) unfolding mn_def [symmetric] by simp_all
    qed
    moreover have "covered ((L - (n - 1), L) # rs) L" by (simp add: covered_Cons)
    moreover have "ack_largest ?f = VarInt L" by simp
    ultimately show ?thesis using run it cov full by blast
  qed
qed


subsection \<open>Histories of calls\<close>

text \<open>\<open>R\<close> are the packet numbers registered. A number is registered after \<open>decode_pn\<close> let it pass.\<close>

inductive rj_reach :: "nat set \<Rightarrow> rcvd_journal \<Rightarrow> bool" where
  rjr_new: "rj_reach {} (rj_with_capacity d)"
| rjr_packet: "rj_reach R j \<Longrightarrow> decode_pn p j = Ret (Inr pn) \<Longrightarrow> on_rcvd_pn now pn ae pto j = Ret j' \<Longrightarrow> rj_reach (insert pn R) j'"
| rjr_ack_written: "rj_reach R j \<Longrightarrow> gen_ack_frame_util now pn l rt cap j = Ret (res, j') \<Longrightarrow> rj_reach R j'"
| rjr_ack_rcvd: "rj_reach R j \<Longrightarrow> on_rcvd_ack now f j = Ret j' \<Longrightarrow> rj_reach R j'"

definition rj_inv :: "nat set \<Rightarrow> rcvd_journal \<Rightarrow> bool" where
  "rj_inv R j \<longleftrightarrow> largest (rj_queue j) \<le> VARINT_MAX + 1 \<and> (\<forall>x \<in> R. x < largest (rj_queue j)) \<and>
     (\<forall>x. contain (rj_queue j) x \<longrightarrow> (received j x \<longleftrightarrow> x \<in> R))"

lemma decode_Inr:
  "decode_pn p j = Ret (Inr pn) \<Longrightarrow> pn_decode p (largest (rj_queue j)) = Ret pn \<and> id_offset (rj_queue j) \<le> pn \<and> \<not> received j pn"
  by (auto simp: decode_pn_def received_def Let_def run_simps split: if_splits option.splits rcvd_state.splits)

lemma register_ok:
  assumes off: "id_offset (rj_queue j) \<le> pn" and new: "\<not> received j pn" and pn: "pn \<le> VARINT_MAX"
  shows "\<exists>j'. on_rcvd_pn now pn ae pto j = Ret j' \<and> id_offset (rj_queue j') = id_offset (rj_queue j) \<and>
    largest (rj_queue j') = max (largest (rj_queue j)) (Suc pn) \<and> (\<forall>x. received j' x \<longleftrightarrow> x = pn \<or> received j x)"
proof -
  let ?q = "rj_queue j"
  define rec where "rec = PacketReceived now (if ae then Some (now + (case rj_max_ack_delay j of None \<Rightarrow> 0 | Some d \<Rightarrow> d)) else None) (now + pto * 3)"
  have ne: "rec \<noteq> RcvdEmpty" by (simp add: rec_def)
  have "\<exists>q'. (case id_get ?q pn of Some old \<Rightarrow> assert_run (old = RcvdEmpty) (expect (id_get_mut ?q pn (\<lambda>_. rec)))
      | None \<Rightarrow> (case id_insert VARINT_MAX RcvdEmpty pn rec ?q of (Inl _, _) \<Rightarrow> Panic | (Inr _, q) \<Rightarrow> Ret q)) = Ret q' \<and>
      id_offset q' = id_offset ?q \<and> largest q' = max (largest ?q) (Suc pn) \<and>
      (\<forall>x s. s \<noteq> RcvdEmpty \<longrightarrow> (id_get q' x = Some s \<longleftrightarrow> (if x = pn then s = rec else id_get ?q x = Some s)))"
  proof (cases "id_get ?q pn")
    case None
    obtain old q' where ins: "id_insert VARINT_MAX RcvdEmpty pn rec ?q = (Inr old, q')" using id_insert_ok [OF off pn] by blast
    have "id_get q' x = (if x = pn then Some rec else if largest ?q \<le> x \<and> x < pn then Some RcvdEmpty else id_get ?q x)" for x
      by (rule id_insert_get(1) [OF ins])
    moreover have "id_get ?q x = None" if "largest ?q \<le> x" for x using that by (simp add: id_get_None_iff contain_def)
    ultimately show ?thesis using None ins id_insert_get(3,4) [OF ins] by auto
  next
    case (Some old)
    then have "old = RcvdEmpty" using new by (auto simp: received_def)
    moreover have c: "contain ?q pn" using Some by (simp add: id_get_def split: if_splits)
    moreover obtain q' where "id_get_mut ?q pn (\<lambda>_. rec) = Some q'" using c by (auto simp: id_get_mut_def)
    ultimately show ?thesis using Some id_get_update [OF Some, of "\<lambda>_. rec"]
      by (intro exI [of _ q']) (auto simp: contain_def max_def)
  qed
  then obtain q' where q': "(case id_get ?q pn of Some old \<Rightarrow> assert_run (old = RcvdEmpty) (expect (id_get_mut ?q pn (\<lambda>_. rec)))
      | None \<Rightarrow> (case id_insert VARINT_MAX RcvdEmpty pn rec ?q of (Inl _, _) \<Rightarrow> Panic | (Inr _, q) \<Rightarrow> Ret q)) = Ret q'"
      "id_offset q' = id_offset ?q" "largest q' = max (largest ?q) (Suc pn)"
      and g: "\<forall>x s. s \<noteq> RcvdEmpty \<longrightarrow> (id_get q' x = Some s \<longleftrightarrow> (if x = pn then s = rec else id_get ?q x = Some s))" by blast
  let ?j' = "j\<lparr>rj_queue := q', rj_earliest_not_ack_time := (if rj_earliest_not_ack_time j = None then Some (pn, now) else rj_earliest_not_ack_time j)\<rparr>"
  have "on_rcvd_pn now pn ae pto j = Ret ?j'" unfolding on_rcvd_pn_def Let_def rec_def [symmetric] q'(1) bind_run.simps ..
  moreover have "(\<exists>s. id_get q' x = Some s \<and> s \<noteq> RcvdEmpty) \<longleftrightarrow> x = pn \<or> (\<exists>s. id_get ?q x = Some s \<and> s \<noteq> RcvdEmpty)" for x
    using g ne by (cases "x = pn") metis+
  then have "received ?j' x \<longleftrightarrow> x = pn \<or> received j x" for x by (simp add: received_def)
  ultimately show ?thesis using q'(2,3) by auto
qed

lemma rotate_queue_drops: "\<exists>m \<le> length xs. rotate_queue now xs off = \<lparr>id_deque = drop m xs, id_offset = off + m\<rparr>"
proof (induction xs arbitrary: off)
  case (Cons x xs)
  from Cons [of "off + 1"] obtain m where "m \<le> length xs" "rotate_queue now xs (off + 1) = \<lparr>id_deque = drop m xs, id_offset = off + 1 + m\<rparr>" by blast
  then show ?case by (cases "is_expired now x") (auto intro: exI [of _ "Suc m"] exI [of _ 0])
qed simp

lemma ack_rcvd_keeps:
  assumes "on_rcvd_ack now f j = Ret j'"
  shows "largest (rj_queue j') = largest (rj_queue j) \<and> id_offset (rj_queue j) \<le> id_offset (rj_queue j') \<and>
    (\<forall>x. contain (rj_queue j') x \<longrightarrow> contain (rj_queue j) x \<and> received j' x = received j x)"
proof -
  let ?xs = "id_deque (rj_queue j)" and ?o = "id_offset (rj_queue j)"
  obtain A where A: "rj_queue j' = rotate_queue now (map (confirm_ack A) ?xs) ?o"
    using assms by (auto simp: on_rcvd_ack_def Let_def run_simps)
  obtain m where m: "m \<le> length ?xs" "rj_queue j' = \<lparr>id_deque = drop m (map (confirm_ack A) ?xs), id_offset = ?o + m\<rparr>"
    using rotate_queue_drops [of "map (confirm_ack A) ?xs" now ?o] A by auto
  have e: "confirm_ack A s = RcvdEmpty \<longleftrightarrow> s = RcvdEmpty" for s by (cases s) (auto simp: confirm_ack_def)
  have lg: "largest (rj_queue j') = largest (rj_queue j)" using m by (simp add: largest_def)
  moreover have "contain (rj_queue j) x \<and> received j' x = received j x" if "contain (rj_queue j') x" for x
  proof -
    have x: "?o + m \<le> x" "x < ?o + length ?xs" using that m lg by (auto simp: contain_def largest_def)
    then have "drop m (map (confirm_ack A) ?xs) ! (x - (?o + m)) = confirm_ack A (?xs ! (x - ?o))" using m(1) by (simp add: add_ac)
    then show ?thesis using x m e by (auto simp: contain_def largest_def received_def id_get_def)
  qed
  ultimately show ?thesis using m by simp
qed

lemma rj_reach_inv: "rj_reach R j \<Longrightarrow> rj_inv R j"
proof (induction rule: rj_reach.induct)
  case (rjr_new d)
  show ?case by (simp add: rj_inv_def rj_with_capacity_def id_default_def largest_def contain_def)
next
  case (rjr_packet R j p pn now ae pto j')
  note dec = decode_Inr [OF rjr_packet.hyps(2)]
  have pn: "pn \<le> VARINT_MAX"
  proof (rule ccontr)
    assume "\<not> ?thesis"
    moreover from this have "id_get (rj_queue j) pn = None" using rjr_packet.IH by (auto simp: id_get_None_iff contain_def rj_inv_def)
    ultimately show False using rjr_packet.hyps(3) by (simp add: on_rcvd_pn_def id_insert_def Let_def)
  qed
  from register_ok [OF _ _ pn, of j now ae pto] dec rjr_packet.hyps(3) have
    j': "id_offset (rj_queue j') = id_offset (rj_queue j)" "largest (rj_queue j') = max (largest (rj_queue j)) (Suc pn)" "\<And>x. received j' x \<longleftrightarrow> x = pn \<or> received j x"
    by auto
  have "received j' x \<longleftrightarrow> x \<in> insert pn R" if c: "contain (rj_queue j') x" for x
  proof (cases "contain (rj_queue j) x")
    case True
    then show ?thesis using j'(3) rjr_packet.IH by (auto simp: rj_inv_def)
  next
    case False
    then have "x \<notin> R" "\<not> received j x" using c j'(1) rjr_packet.IH by (auto simp: rj_inv_def contain_def received_def id_get_def)
    then show ?thesis using j'(3) by simp
  qed
  then show ?case using rjr_packet.IH j'(2) pn by (auto simp: rj_inv_def)
next
  case (rjr_ack_written R j now pn l rt cap res j')
  from gen_ack_keeps [OF rjr_ack_written.hyps(2)] show ?case using rjr_ack_written.IH by (simp add: rj_inv_def contain_def)
next
  case (rjr_ack_rcvd R j now f j')
  from ack_rcvd_keeps [OF rjr_ack_rcvd.hyps(2)] show ?case using rjr_ack_rcvd.IH by (auto simp: rj_inv_def)
qed


subsection \<open>What the journal promises\<close>

text \<open>
  C32: A packet number is accepted at most once. Whatever was received, acknowledged and cleaned up before, for a number that decodes to at most 2 ^ 62 - 1: a number that \<open>decode_pn\<close> lets pass was never registered and can be registered without a
  panic; a number that is refused as a duplicate was registered; and one refused as too old lies below the records kept.
\<close>

theorem packet_accepted_once:
  assumes "rj_reach R j" and "pn_decode p (largest (rj_queue j)) = Ret pn" and "pn \<le> VARINT_MAX"
  shows "\<exists>r. decode_pn p j = Ret r \<and>
    (case r of
       Inr n \<Rightarrow> n = pn \<and> pn \<notin> R \<and> (\<exists>j'. on_rcvd_pn now pn ae pto j = Ret j' \<and> received j' pn \<and> (\<forall>x. received j x \<longrightarrow> received j' x))
     | Inl Duplicate \<Rightarrow> pn \<in> R
     | Inl TooOld \<Rightarrow> pn < id_offset (rj_queue j)
     | Inl _ \<Rightarrow> False)"
proof -
  have inv: "rj_inv R j" by (rule rj_reach_inv [OF assms(1)])
  show ?thesis
  proof (cases "pn < id_offset (rj_queue j)")
    case True
    then show ?thesis using assms(2) by (simp add: decode_pn_def Let_def)
  next
    case False
    show ?thesis
    proof (cases "received j pn")
      case True
      then have "decode_pn p j = Ret (Inl Duplicate)" using assms(2) False
        by (auto simp: decode_pn_def Let_def received_def split: rcvd_state.splits)
      moreover have "contain (rj_queue j) pn" using True by (auto simp: received_def id_get_def split: if_splits)
      ultimately show ?thesis using True inv by (auto simp: rj_inv_def)
    next
      case new: False
      then have "decode_pn p j = Ret (Inr pn)" using assms(2) False
        by (auto simp: decode_pn_def Let_def received_def split: option.splits rcvd_state.splits)
      moreover have "pn \<notin> R" using inv new False by (auto simp: rj_inv_def contain_def)
      moreover have "\<exists>j'. on_rcvd_pn now pn ae pto j = Ret j' \<and> received j' pn \<and> (\<forall>x. received j x \<longrightarrow> received j' x)"
        using register_ok [OF _ new assms(3), of now ae pto] False by auto
      ultimately show ?thesis by auto
    qed
  qed
qed

lemma first_packet:
  "\<exists>j. on_rcvd_pn 5 0 True 1 (rj_with_capacity None) = Ret j \<and> rj_reach {0} j \<and> received j 0 \<and> largest (rj_queue j) = 1 \<and> length (id_deque (rj_queue j)) = 1"
proof -
  let ?j = "rj_with_capacity None"
  have q: "rj_queue ?j = id_default" "largest (id_default :: rcvd_state index_deque) = 0" "\<not> received ?j 0" "id_offset (id_default :: rcvd_state index_deque) = 0"
    by (simp_all add: rj_with_capacity_def id_default_def largest_def received_def id_get_def contain_def)
  then obtain j where j: "on_rcvd_pn 5 0 True 1 ?j = Ret j" "id_offset (rj_queue j) = 0" "largest (rj_queue j) = 1" "received j 0"
    using register_ok [of ?j 0 5 True 1] by (auto simp: VARINT_MAX_def)
  have "decode_pn (U16 0) ?j = Ret (Inr 0)"
    by (simp add: decode_pn_def pn_decode_def rj_with_capacity_def id_default_def largest_def id_get_def contain_def Let_def sub64_def add64_def)
  then have "rj_reach {0} j" using rjr_packet [OF rjr_new [of None] _ j(1)] by simp
  then show ?thesis using j by (auto simp: largest_def)
qed

theorem packet_accepted_once_witness:
  "\<exists>j. rj_reach {0} j \<and> (\<exists>r. decode_pn (U16 0) j = Ret r \<and> (r = Inl Duplicate \<longrightarrow> 0 \<in> {0::nat}) \<and> r \<noteq> Inr 0)"
proof -
  obtain j where j: "rj_reach {0} j" "received j 0" "largest (rj_queue j) = 1" "length (id_deque (rj_queue j)) = 1" using first_packet by blast
  have "pn_decode (U16 0) (largest (rj_queue j)) = Ret 0" unfolding j(3) by (simp add: pn_decode_def sub64_def add64_def Let_def)
  from packet_accepted_once [OF j(1) this, of 0 False 0] have "\<exists>r. decode_pn (U16 0) j = Ret r \<and> r \<noteq> Inr 0" by fastforce
  then show ?thesis using j(1) by auto
qed

text \<open>
  C31: An ACK frame tells the truth and fits. When the largest number to acknowledge is on record, writing the frame returns: either fewer than 27 bytes are left, or there is a frame within the
  capacity whose ranges, read back the way the peer reads them, start at that number and contain only packets that were received; with a capacity of 47 bytes and 20 more for every record they contain
  all of them up to that number. The packets on record as received are not changed.
\<close>

theorem ack_frame_truthful:
  assumes "rj_reach R j" and "received j L" and "L < VARINT_MAX" and "id_len (rj_queue j) < 2 ^ 32 - 1" and "(now - rt) div 1000 \<le> VARINT_MAX"
  shows "\<exists>res j'. gen_ack_frame_util now pn L rt cap j = Ret (res, j') \<and> received j' = received j \<and>
    (case res of
       Inl sig \<Rightarrow> sig = {CONGESTION} \<and> cap < 27
     | Inr f \<Rightarrow> (\<exists>rs. ack_iter f = Ret rs \<and> covered rs L \<and> (\<forall>x. covered rs x \<longrightarrow> x \<le> L \<and> x \<in> R) \<and>
         (47 + 20 * id_len (rj_queue j) \<le> cap \<longrightarrow> (\<forall>x \<le> L. received j x \<longrightarrow> covered rs x)) \<and>
         (\<exists>m \<le> cap. frame_encoding_size (ack_encode f) = Ret m)))"
proof -
  have inv: "rj_inv R j" by (rule rj_reach_inv [OF assms(1)])
  then have inR: "x \<in> R" if "received j x" for x using that by (auto simp: rj_inv_def received_def id_get_def split: if_splits)
  have pre: "L \<le> VARINT_MAX - 1" "length (id_deque (rj_queue j)) < 2 ^ 32 - 1" using assms(3,4) by (auto simp: id_len_def)
  from gen_ack_ok [OF assms(2) pre assms(5), of cap pn] show ?thesis
  proof (elim disjE exE conjE)
    fix j' assume "cap < 27" "gen_ack_frame_util now pn L rt cap j = Ret (Inl {CONGESTION}, j')"
    then show ?thesis using gen_ack_keeps by fastforce
  next
    fix f j' rs m
    assume run: "gen_ack_frame_util now pn L rt cap j = Ret (Inr f, j')" and a: "ack_iter f = Ret rs" "covered rs L" "\<forall>x. covered rs x \<longrightarrow> x \<le> L \<and> received j x"
      "27 + 20 * (length (id_deque (rj_queue j)) + 1) \<le> cap \<longrightarrow> (\<forall>x \<le> L. received j x \<longrightarrow> covered rs x)" "m \<le> cap" "frame_encoding_size (ack_encode f) = Ret m"
    have "\<exists>rs. ack_iter f = Ret rs \<and> covered rs L \<and> (\<forall>x. covered rs x \<longrightarrow> x \<le> L \<and> x \<in> R) \<and>
         (47 + 20 * id_len (rj_queue j) \<le> cap \<longrightarrow> (\<forall>x \<le> L. received j x \<longrightarrow> covered rs x)) \<and> (\<exists>m \<le> cap. frame_encoding_size (ack_encode f) = Ret m)"
    proof (intro exI [of _ rs] conjI)
      show "\<forall>x. covered rs x \<longrightarrow> x \<le> L \<and> x \<in> R" using a(3) inR by blast
      show "47 + 20 * id_len (rj_queue j) \<le> cap \<longrightarrow> (\<forall>x \<le> L. received j x \<longrightarrow> covered rs x)" using a(4) by (simp add: id_len_def)
    qed (use a in auto)
    then show ?thesis using run gen_ack_keeps [OF run] by (intro exI [of _ "Inr f"] exI [of _ j']) simp
  qed
qed

theorem ack_frame_truthful_witness:
  "\<exists>j f j' rs. rj_reach {0} j \<and> gen_ack_frame_util 7000 3 0 5 100 j = Ret (Inr f, j') \<and> ack_iter f = Ret rs \<and> covered rs 0"
proof -
  obtain j where j: "rj_reach {0} j" "received j 0" "length (id_deque (rj_queue j)) = 1" using first_packet by blast
  have "id_len (rj_queue j) < 2 ^ 32 - 1" using j(3) by (simp add: id_len_def)
  from ack_frame_truthful [OF j(1,2) _ this, of 7000 5 3 100] obtain res j' where
    "gen_ack_frame_util 7000 3 0 5 100 j = Ret (res, j')" "case res of Inl sig \<Rightarrow> False | Inr f \<Rightarrow> \<exists>rs. ack_iter f = Ret rs \<and> covered rs 0"
    by (fastforce simp: VARINT_MAX_def split: sum.splits)
  then show ?thesis using j(1) by (cases res) auto
qed

text \<open>
  \<open>trigger_ack_frame\<close> never triggers. It looks up the record at \<open>queue.largest()\<close>, which is the number after the last record, so whatever was received and however long ago it answers
  that no acknowledgement is due.
\<close>

theorem trigger_ack_frame_never: "trigger_ack_frame now j = None"
proof -
  have "id_get (rj_queue j) (largest (rj_queue j)) = None" by (simp add: id_get_def contain_def)
  then show ?thesis by (simp add: trigger_ack_frame_def Let_def split: option.splits)
qed

end
