(* ===== verification/Journal_Pair.thy ===== *)
theory Journal_Pair
  imports Rcvd_Journal
begin

section \<open>The two journals against each other\<close>

text \<open>
  The acknowledgement handler of a packet number space (\<open>ReceiveFrame<AckFrame>\<close> for the spaces in qconnection/src/space.rs): check the largest number, go through the ranges from the top and
  hand the frames of each packet back to the component that sent them; the guard cleans up when it is dropped.
\<close>

definition acked_numbers :: "(nat \<times> nat) list \<Rightarrow> nat list" where
  "acked_numbers ranges = concat (map (\<lambda>(l, r). rev [l..<r + 1]) ranges)"

fun feed_acked :: "nat list \<Rightarrow> 'f sent_journal \<Rightarrow> ('f list \<times> 'f sent_journal) run" where
  "feed_acked [] j = Ret ([], j)"
| "feed_acked (pn # pns) j =
     bind_run (on_packet_acked pn j) (\<lambda>(fs, j). bind_run (feed_acked pns j) (\<lambda>(gs, j). Ret (fs @ gs, j)))"

definition recv_ack_frame :: "instant \<Rightarrow> ack_frame \<Rightarrow> 'f sent_journal \<Rightarrow> ((quic_error + 'f list) \<times> 'f sent_journal) run" where
  "recv_ack_frame now f j =
     (case update_largest f j of
        (Inl e, j) \<Rightarrow> bind_run (sj_resize now j) (\<lambda>j. Ret (Inl e, j))
      | (Inr _, j) \<Rightarrow>
          bind_run (ack_iter f) (\<lambda>ranges.
          bind_run (feed_acked (acked_numbers ranges) j) (\<lambda>(fs, j).
          bind_run (sj_resize now j) (\<lambda>j. Ret (Inr fs, j)))))"

lemma set_acked_numbers: "x \<in> set (acked_numbers rs) \<longleftrightarrow> covered rs x"
proof (induction rs)
  case Nil
  show ?case by (simp add: acked_numbers_def covered_def)
next
  case (Cons p rs)
  obtain l r where p: "p = (l, r)" by (cases p)
  have "acked_numbers (p # rs) = rev [l..<r + 1] @ acked_numbers rs" by (simp only: acked_numbers_def p list.map concat.simps prod.case)
  then show ?case using Cons by (auto simp: p covered_Cons simp del: upt_Suc)
qed

lemma feed_acked_ok:
  "sj_reach H A L j \<Longrightarrow> \<exists>fs j' A'. feed_acked pns j = Ret (fs, j') \<and> sj_reach H (A' @ A) L j' \<and>
     fs = concat (map ((!) H) (rev A')) \<and> set A' \<subseteq> set pns \<and> (\<forall>pn \<in> set pns. pn < length H \<and> pn \<notin> L \<longrightarrow> pn \<in> set (A' @ A) \<or> H ! pn = [])"
proof (induction pns arbitrary: A j)
  case Nil
  then show ?case by (intro exI [of _ "[]"] exI [of _ j]) simp
next
  case (Cons pn pns)
  from acked_inv [OF sj_reach_inv [OF Cons.prems], of pn] obtain fs j1 where
    ack: "on_packet_acked pn j = Ret (fs, j1)" "fs \<noteq> [] \<longrightarrow> fs = H ! pn" "pn < length H \<and> pn \<notin> set A \<and> pn \<notin> L \<longrightarrow> fs = H ! pn" by blast
  let ?A = "if fs = [] then A else pn # A"
  have "sj_reach H ?A L j1" by (rule sjr_acked [OF Cons.prems ack(1)])
  from Cons.IH [OF this] obtain gs j2 B where ih: "feed_acked pns j1 = Ret (gs, j2)" "sj_reach H (B @ ?A) L j2" "gs = concat (map ((!) H) (rev B))" "set B \<subseteq> set pns"
    "\<forall>pn \<in> set pns. pn < length H \<and> pn \<notin> L \<longrightarrow> pn \<in> set (B @ ?A) \<or> H ! pn = []" by blast
  let ?B = "if fs = [] then B else B @ [pn]"
  have "?B @ A = B @ ?A" by simp
  moreover have "fs @ gs = concat (map ((!) H) (rev ?B))" using ack(2) ih(3) by auto
  moreover have "pn < length H \<and> pn \<notin> L \<longrightarrow> pn \<in> set (?B @ A) \<or> H ! pn = []" using ack(3) by (cases "fs = []") auto
  ultimately show ?case using ack(1) ih
    by (intro exI [of _ "fs @ gs"] exI [of _ j2] exI [of _ ?B]) (auto split: if_splits)
qed

text \<open>
  C29: What one journal acknowledges the other accepts. Let a peer have received some of the packets sent, in any order and with repetitions, and let it write an ACK frame for the largest of them. The handler of
  the sender accepts that frame without an error or a panic, and hands back exactly the frames of packets that the peer received and that were not acknowledged before, each packet once; afterwards every packet
  named in the frame has been reported as acknowledged, or as lost before, or carried nothing to report.
\<close>

theorem honest_ack_accepted:
  assumes "sj_reach H A L js" and "rj_reach R jr" and "R \<subseteq> {..<length H}" and "received jr l" and "l < VARINT_MAX" and "id_len (rj_queue jr) < 2 ^ 32 - 1"
    and "gen_ack_frame_util now pn l rt cap jr = Ret (Inr f, jr')" and "(now - rt) div 1000 \<le> VARINT_MAX"
  shows "\<exists>A' js' rs. recv_ack_frame t f js = Ret (Inr (concat (map ((!) H) (rev A'))), js') \<and> sj_reach H (A' @ A) L js' \<and> ack_iter f = Ret rs \<and>
    distinct (A' @ A) \<and> set A' \<subseteq> R \<and> (\<forall>x. covered rs x \<longrightarrow> x \<in> set A' \<union> set A \<union> L \<or> H ! x = [])"
proof -
  have pre: "l \<le> VARINT_MAX - 1" "length (id_deque (rj_queue jr)) < 2 ^ 32 - 1" using assms(5,6) by (auto simp: id_len_def)
  from gen_ack_ok [OF assms(4) pre assms(8), of cap pn] assms(7) obtain rs where
    f: "ack_largest f = VarInt l" "ack_iter f = Ret rs" and cov: "\<forall>x. covered rs x \<longrightarrow> x \<le> l \<and> received jr x" by auto
  have inR: "received jr x \<Longrightarrow> x \<in> R" for x using rj_reach_inv [OF assms(2)] by (auto simp: rj_inv_def received_def id_get_def split: if_splits)
  have inv: "sj_inv H A L js" by (rule sj_reach_inv [OF assms(1)])
  have "l < largest (sj_packets js)" using inR [OF assms(4)] assms(3) inv by (auto simp: sj_inv_def sj_aligned_def)
  then obtain j1 where j1: "update_largest f js = (Inr (), j1)" using f(1) by (auto simp: update_largest_def Let_def)
  have r1: "sj_reach H A L j1" by (rule sjr_largest [OF assms(1) j1])
  from feed_acked_ok [OF r1, of "acked_numbers rs"] obtain fs j2 A' where
    fd: "feed_acked (acked_numbers rs) j1 = Ret (fs, j2)" "sj_reach H (A' @ A) L j2" "fs = concat (map ((!) H) (rev A'))" "set A' \<subseteq> set (acked_numbers rs)"
      "\<forall>pn \<in> set (acked_numbers rs). pn < length H \<and> pn \<notin> L \<longrightarrow> pn \<in> set (A' @ A) \<or> H ! pn = []" by blast
  obtain j3 where j3: "sj_resize t j2 = Ret j3" using resize_inv [OF sj_reach_inv [OF fd(2)], of t] by blast
  have r3: "sj_reach H (A' @ A) L j3" by (rule sjr_resize [OF fd(2) j3])
  have "recv_ack_frame t f js = Ret (Inr fs, j3)" using j1 f(2) fd(1) j3 by (simp add: recv_ack_frame_def)
  moreover have "distinct (A' @ A)" using sj_reach_inv [OF r3] by (simp add: sj_inv_def)
  moreover have "set A' \<subseteq> R" using fd(4) cov inR by (auto simp: set_acked_numbers)
  moreover have "x \<in> set A' \<union> set A \<union> L \<or> H ! x = []" if "covered rs x" for x
  proof -
    have "x < length H" using cov that inR assms(3) by blast
    then show ?thesis using fd(5) that by (auto simp: set_acked_numbers)
  qed
  ultimately show ?thesis using r3 f(2) fd(3) by blast
qed

theorem honest_ack_accepted_witness:
  "\<exists>js jr f jr' js'. sj_reach [[7::nat]] [] {} js \<and> rj_reach {0} jr \<and> gen_ack_frame_util 9 0 0 5 100 jr = Ret (Inr f, jr') \<and> recv_ack_frame 20 f js = Ret (Inr [7], js')"
proof -
  obtain jr where jr: "rj_reach {0} jr" "received jr 0" "length (id_deque (rj_queue jr)) = 1" using first_packet by blast
  obtain js where js: "build_with_time 0 5 9 (packet_guard False [7::nat] sj_new) = Ret js"
    using packet_inv [OF sj_new_inv, of 0 5 9 False "[7::nat]"] by (auto simp: sj_new_def id_default_def largest_def)
  have r: "sj_reach [[7::nat]] [] {} js" using sjr_packet [OF sjr_new js] by simp
  have len: "id_len (rj_queue jr) < 2 ^ 32 - 1" "length (id_deque (rj_queue jr)) < 2 ^ 32 - 1" using jr(3) by (simp_all add: id_len_def)
  obtain f jr' where f: "gen_ack_frame_util 9 0 0 5 100 jr = Ret (Inr f, jr')"
    using gen_ack_ok [OF jr(2) _ len(2), of 9 5 100 0] by (auto simp: VARINT_MAX_def)
  from f obtain rs0 where rs0: "ack_iter f = Ret rs0" "covered rs0 0" using gen_ack_ok [OF jr(2) _ len(2), of 9 5 100 0] by (auto simp: VARINT_MAX_def)
  from honest_ack_accepted [OF r jr(1) _ jr(2) _ len(1) f, of 20] obtain A' js' rs where
    h: "recv_ack_frame 20 f js = Ret (Inr (concat (map ((!) [[7]]) (rev A'))), js')" "ack_iter f = Ret rs" "distinct A'" "set A' \<subseteq> {0}" "\<forall>x. covered rs x \<longrightarrow> x \<in> set A' \<or> [[7::nat]] ! x = []"
    by (auto simp: VARINT_MAX_def)
  have "0 \<in> set A'" using h(2,5) rs0 by auto
  then have "A' = [0]" using h(3,4) by (cases A') (auto, metis distinct.simps(2) list.set_intros(1) neq_Nil_conv singletonD subsetD)
  then show ?thesis using r jr(1) f h(1) by auto
qed

end
