(* ===== verification/Packet_Space.thy ===== *)
theory Packet_Space
  imports Journal_Pair
begin

section \<open>Sent packets of one path and number space: qcongestion/src/packets.rs\<close>

text \<open>
  The packets a path has sent in one packet number space, which of them were acknowledged and which are taken for lost; and the record of what was received, which says when an
  acknowledgement is due. The congestion control algorithm is a trait object in the source; here it is the record of its methods, an argument of the operations that call it.
  Instants are nanoseconds since some origin before the connection and the current time is an argument; no packet is sent before the origin, so \<open>now - loss_delay\<close> may stop there.
\<close>

datatype epoch = EpInitial | EpHandshake | EpData

definition EPOCHS :: "epoch list" where
  "EPOCHS = [EpInitial, EpHandshake, EpData]"

datatype cc_state = Inflight | Acked | Retransmitted

record sent_packet =
  sp_packet_number :: nat
  sp_time_sent :: instant
  sp_ack_eliciting :: bool
  sp_sent_bytes :: nat
  sp_state :: cc_state
  sp_count_for_cc :: bool

definition sent_packet_new :: "nat \<Rightarrow> instant \<Rightarrow> bool \<Rightarrow> bool \<Rightarrow> nat \<Rightarrow> sent_packet" where
  "sent_packet_new packet_number time_sent ack_eliciting count_for_cc sent_bytes =
     \<lparr>sp_packet_number = packet_number, sp_time_sent = time_sent, sp_ack_eliciting = ack_eliciting, sp_sent_bytes = sent_bytes,
      sp_state = Inflight, sp_count_for_cc = count_for_cc\<rparr>"

subsection \<open>The Control trait\<close>

text \<open>\<open>on_packets_lost\<close> and \<open>process_ecn\<close> read the clock.\<close>

record 'a control =
  ctl_on_packet_sent_cc :: "sent_packet \<Rightarrow> 'a \<Rightarrow> 'a run"
  ctl_on_packet_acked :: "sent_packet \<Rightarrow> 'a \<Rightarrow> 'a run"
  ctl_on_packets_lost :: "instant \<Rightarrow> sent_packet list \<Rightarrow> bool \<Rightarrow> 'a \<Rightarrow> 'a run"
  ctl_process_ecn :: "instant \<Rightarrow> ack_frame \<Rightarrow> instant \<Rightarrow> epoch \<Rightarrow> 'a \<Rightarrow> 'a run"
  ctl_congestion_window :: "'a \<Rightarrow> nat"
  ctl_pacing_rate :: "'a \<Rightarrow> nat option"
  ctl_remove_from_bytes_in_flight :: "sent_packet list \<Rightarrow> 'a \<Rightarrow> 'a run"

subsection \<open>RcvdRecords\<close>

record rcvd_records =
  rr_epoch :: epoch
  rr_ack_immedietly :: bool
  rr_latest_rcvd_time :: "instant option"
  rr_largest_rcvd_packet :: "(nat \<times> instant) option"
  rr_max_ack_delay :: duration

definition rcvd_records_new :: "epoch \<Rightarrow> duration \<Rightarrow> rcvd_records" where
  "rcvd_records_new epoch max_ack_delay =
     \<lparr>rr_epoch = epoch, rr_ack_immedietly = False, rr_latest_rcvd_time = None, rr_largest_rcvd_packet = None, rr_max_ack_delay = max_ack_delay\<rparr>"

definition rr_on_pkt_rcvd :: "instant \<Rightarrow> nat \<Rightarrow> rcvd_records \<Rightarrow> rcvd_records" where
  "rr_on_pkt_rcvd now pn r =
     (let r = (if rr_epoch r = EpInitial \<or> rr_epoch r = EpHandshake then r\<lparr>rr_ack_immedietly := True\<rparr> else r);
          r = (if rr_latest_rcvd_time r = None then r\<lparr>rr_latest_rcvd_time := Some now\<rparr> else r);
          r = r\<lparr>rr_ack_immedietly := rr_ack_immedietly r \<or>
                  (case rr_largest_rcvd_packet r of None \<Rightarrow> False | Some (largest_pn, _) \<Rightarrow> pn < largest_pn)\<rparr>
      in r\<lparr>rr_largest_rcvd_packet :=
             (case rr_largest_rcvd_packet r of
                None \<Rightarrow> Some (pn, now)
              | Some (largest_pn, time) \<Rightarrow> if largest_pn < pn then Some (pn, now) else Some (largest_pn, time))\<rparr>)"

definition rr_need_ack :: "instant \<Rightarrow> rcvd_records \<Rightarrow> (nat \<times> instant) option" where
  "rr_need_ack now r =
     (if rr_ack_immedietly r then rr_largest_rcvd_packet r
      else if (case rr_latest_rcvd_time r of None \<Rightarrow> False | Some t \<Rightarrow> t + rr_max_ack_delay r < now) then rr_largest_rcvd_packet r
      else None)"

definition rr_on_ack_sent :: "nat \<Rightarrow> nat \<Rightarrow> rcvd_records \<Rightarrow> rcvd_records" where
  "rr_on_ack_sent pn largest_acked r = r\<lparr>rr_largest_rcvd_packet := None, rr_latest_rcvd_time := None, rr_ack_immedietly := False\<rparr>"

subsection \<open>PacketSpace\<close>

record packet_space =
  ps_largest_acked_packet :: "nat option"
  ps_time_of_last_ack_eliciting_packet :: "instant option"
  ps_loss_time :: "instant option"
  ps_sent_packets :: "sent_packet list"
  ps_rcvd_packets :: rcvd_records

record newly_acked_packets =
  na_include_ack_eliciting :: bool
  na_largest :: "nat \<times> instant"

definition with_epoch :: "epoch \<Rightarrow> duration \<Rightarrow> packet_space" where
  "with_epoch epoch max_ack_delay =
     \<lparr>ps_largest_acked_packet = None, ps_time_of_last_ack_eliciting_packet = None, ps_loss_time = None, ps_sent_packets = [],
      ps_rcvd_packets = rcvd_records_new epoch max_ack_delay\<rparr>"

definition update_largest_acked_packet :: "nat \<Rightarrow> packet_space \<Rightarrow> packet_space" where
  "update_largest_acked_packet pn s =
     s\<lparr>ps_largest_acked_packet := (case ps_largest_acked_packet s of None \<Rightarrow> Some pn | Some n \<Rightarrow> Some (max n pn))\<rparr>"

text \<open>\<open>binary_search_by(..).unwrap_or_else(|i| i.saturating_sub(1))\<close> on increasing packet numbers.\<close>

definition search_index :: "nat \<Rightarrow> sent_packet list \<Rightarrow> nat" where
  "search_index pn ps =
     (let i = length (takeWhile (\<lambda>p. sp_packet_number p < pn) ps)
      in if i < length ps \<and> sp_packet_number (ps ! i) = pn then i else i - 1)"

text \<open>The inner \<open>while\<close> of \<open>on_ack_rcvd\<close>, and the body of its loops for one acknowledged number.\<close>

fun step_back :: "sent_packet list \<Rightarrow> nat \<Rightarrow> nat \<Rightarrow> nat run" where
  "step_back ps pn 0 = Ret 0"
| "step_back ps pn (Suc i) =
     bind_run (expect (get ps (Suc i))) (\<lambda>p. if pn < sp_packet_number p then step_back ps pn i else Ret (Suc i))"

type_synonym 'a ack_scan = "nat \<times> sent_packet list \<times> 'a \<times> bool \<times> (nat \<times> instant) option"

definition ack_number :: "'a control \<Rightarrow> nat \<Rightarrow> 'a ack_scan \<Rightarrow> 'a ack_scan run" where
  "ack_number C pn st =
     (case st of (index, ps, algorithm, include_ack_eliciting, largest_acked) \<Rightarrow>
        bind_run (step_back ps pn index) (\<lambda>index.
        bind_run (expect (get ps index)) (\<lambda>p.
          if sp_packet_number p = pn \<and> sp_state p \<noteq> Acked
          then bind_run (ctl_on_packet_acked C p algorithm) (\<lambda>algorithm.
            Ret (index, ps[index := p\<lparr>sp_state := Acked\<rparr>], algorithm, include_ack_eliciting \<or> sp_ack_eliciting p,
                 (case largest_acked of
                    None \<Rightarrow> Some (pn, sp_time_sent p)
                  | Some (n, t) \<Rightarrow> Some (if n < pn then (pn, sp_time_sent p) else (n, t)))))
          else Ret (index, ps, algorithm, include_ack_eliciting, largest_acked))))"

fun ack_numbers :: "'a control \<Rightarrow> nat list \<Rightarrow> 'a ack_scan \<Rightarrow> 'a ack_scan run" where
  "ack_numbers C [] st = Ret st"
| "ack_numbers C (pn # pns) st = bind_run (ack_number C pn st) (ack_numbers C pns)"

definition ps_on_ack_rcvd :: "'a control \<Rightarrow> ack_frame \<Rightarrow> 'a \<Rightarrow> packet_space \<Rightarrow> (newly_acked_packets option \<times> 'a \<times> packet_space) run" where
  "ps_on_ack_rcvd C f algorithm s =
     (if ps_sent_packets s = [] then Ret (None, algorithm, s)
      else bind_run (ack_iter f) (\<lambda>ranges.
           bind_run (ack_numbers C (acked_numbers ranges)
                       (search_index (into_inner (ack_largest f)) (ps_sent_packets s), ps_sent_packets s, algorithm, False, None))
             (\<lambda>(_, ps, algorithm, include_ack_eliciting, largest_acked).
               Ret (case largest_acked of
                      None \<Rightarrow> None
                    | Some l \<Rightarrow> Some \<lparr>na_include_ack_eliciting = include_ack_eliciting, na_largest = l\<rparr>,
                    algorithm,
                    s\<lparr>ps_sent_packets := dropWhile (\<lambda>p. sp_state p = Acked \<or> sp_state p = Retransmitted) ps\<rparr>))))"

definition ps_no_ack_eliciting_in_flight :: "packet_space \<Rightarrow> bool" where
  "ps_no_ack_eliciting_in_flight s = list_all (\<lambda>p. \<not> sp_ack_eliciting p \<or> sp_state p \<noteq> Inflight) (ps_sent_packets s)"

text \<open>
  The lazy chain of \<open>detect_lost_packets\<close>: \<open>take_while\<close> the number is at most the largest acknowledged one, \<open>filter\<close> the packets in flight, \<open>map\<close> each to lost or to the time at
  which it will be, \<open>filter_map\<close> the lost ones. The result are the packets, the lost ones with their index, and the loss time.
\<close>

fun loss_chain :: "instant \<Rightarrow> duration \<Rightarrow> nat \<Rightarrow> nat \<Rightarrow> nat \<Rightarrow> nat \<Rightarrow> instant option \<Rightarrow> sent_packet list \<Rightarrow>
    sent_packet list \<times> (nat \<times> sent_packet) list \<times> instant option" where
  "loss_chain now loss_delay largest_acked largest_index packet_threshold idx loss_time [] = ([], [], loss_time)"
| "loss_chain now loss_delay largest_acked largest_index packet_threshold idx loss_time (p # ps) =
     (if largest_acked < sp_packet_number p then (p # ps, [], loss_time)
      else if sp_state p \<noteq> Inflight
      then (case loss_chain now loss_delay largest_acked largest_index packet_threshold (idx + 1) loss_time ps of
              (ps', loss, t) \<Rightarrow> (p # ps', loss, t))
      else if sp_time_sent p < now - loss_delay \<or> idx + packet_threshold \<le> largest_index
      then (case loss_chain now loss_delay largest_acked largest_index packet_threshold (idx + 1) loss_time ps of
              (ps', loss, t) \<Rightarrow> (p\<lparr>sp_state := Retransmitted\<rparr> # ps', (idx, p\<lparr>sp_state := Retransmitted\<rparr>) # loss, t))
      else let time = sp_time_sent p + loss_delay
           in case loss_chain now loss_delay largest_acked largest_index packet_threshold (idx + 1)
                     (case loss_time of None \<Rightarrow> Some time | Some t \<Rightarrow> Some (min t time)) ps of
                (ps', loss, t) \<Rightarrow> (p # ps', loss, t))"

definition PERSISTENT_LOSS_THRESHOLD :: nat where
  "PERSISTENT_LOSS_THRESHOLD = 3"

fun persistent_fold :: "nat option \<Rightarrow> nat \<Rightarrow> nat list \<Rightarrow> bool" where
  "persistent_fold prev count [] = False"
| "persistent_fold prev count (idx # rest) =
     (let lost_count = (case prev of None \<Rightarrow> 0 | Some p \<Rightarrow> (if idx - p = 1 then 1 else 0) * (count + 1))
      in if PERSISTENT_LOSS_THRESHOLD \<le> lost_count + 1 then True else persistent_fold (Some idx) lost_count rest)"

definition detect_lost_packets :: "'a control \<Rightarrow> instant \<Rightarrow> duration \<Rightarrow> nat \<Rightarrow> 'a \<Rightarrow> packet_space \<Rightarrow> (nat list \<times> 'a \<times> packet_space) run" where
  "detect_lost_packets C now loss_delay packet_threshold algorithm s =
     (let largest_acked = (case ps_largest_acked_packet s of None \<Rightarrow> 0 | Some n \<Rightarrow> n);
          largest_index = search_index largest_acked (ps_sent_packets s)
      in case loss_chain now loss_delay largest_acked largest_index packet_threshold 0 None (ps_sent_packets s) of
           (ps, loss, loss_time) \<Rightarrow>
             bind_run (if loss = [] then Ret algorithm
                       else ctl_on_packets_lost C now (map snd loss) (persistent_fold None 0 (map fst loss)) algorithm) (\<lambda>algorithm.
               Ret (map (\<lambda>(_, p). sp_packet_number p) loss, algorithm, s\<lparr>ps_loss_time := loss_time, ps_sent_packets := ps\<rparr>)))"

definition ps_discard :: "'a control \<Rightarrow> 'a \<Rightarrow> packet_space \<Rightarrow> ('a \<times> packet_space) run" where
  "ps_discard C algorithm s =
     bind_run (ctl_remove_from_bytes_in_flight C (filter (\<lambda>p. sp_state p = Inflight) (ps_sent_packets s)) algorithm) (\<lambda>algorithm.
       Ret (algorithm, s\<lparr>ps_sent_packets := [], ps_time_of_last_ack_eliciting_packet := None, ps_loss_time := None\<rparr>))"

subsection \<open>The acknowledgement scan against a reference\<close>

definition numbered :: "sent_packet list \<Rightarrow> bool" where
  "numbered ps \<longleftrightarrow> sorted_wrt (\<lambda>p q. sp_packet_number p < sp_packet_number q) ps"

fun fold_run :: "('x \<Rightarrow> 'a \<Rightarrow> 'a run) \<Rightarrow> 'x list \<Rightarrow> 'a \<Rightarrow> 'a run" where
  "fold_run f [] a = Ret a"
| "fold_run f (x # xs) a = bind_run (f x a) (fold_run f xs)"

definition newly_acked :: "(nat \<Rightarrow> bool) \<Rightarrow> sent_packet list \<Rightarrow> sent_packet list" where
  "newly_acked acks ps = filter (\<lambda>p. acks (sp_packet_number p) \<and> sp_state p \<noteq> Acked) ps"

definition mark_acked :: "(nat \<Rightarrow> bool) \<Rightarrow> sent_packet list \<Rightarrow> sent_packet list" where
  "mark_acked acks ps = map (\<lambda>p. if acks (sp_packet_number p) \<and> sp_state p \<noteq> Acked then p\<lparr>sp_state := Acked\<rparr> else p) ps"

lemma numbered_nth_less: "numbered ps \<Longrightarrow> i < j \<Longrightarrow> j < length ps \<Longrightarrow> sp_packet_number (ps ! i) < sp_packet_number (ps ! j)"
  unfolding numbered_def by (rule sorted_wrt_nth_less)

lemma mark_acked_number [simp]: "map sp_packet_number (mark_acked acks ps) = map sp_packet_number ps"
  by (simp add: mark_acked_def)

lemma numbered_iff_map: "numbered ps \<longleftrightarrow> sorted_wrt (<) (map sp_packet_number ps)"
  by (simp add: numbered_def sorted_wrt_map)

lemma step_back_ok:
  "i < length ps \<Longrightarrow> \<exists>k \<le> i. step_back ps pn i = Ret k \<and> (k = 0 \<or> sp_packet_number (ps ! k) \<le> pn) \<and>
     (\<forall>j. k < j \<and> j \<le> i \<longrightarrow> pn < sp_packet_number (ps ! j))"
proof (induction i)
  case (Suc i)
  show ?case
  proof (cases "pn < sp_packet_number (ps ! Suc i)")
    case True
    with Suc obtain k where "k \<le> i" "step_back ps pn i = Ret k" "k = 0 \<or> sp_packet_number (ps ! k) \<le> pn" "\<forall>j. k < j \<and> j \<le> i \<longrightarrow> pn < sp_packet_number (ps ! j)" by auto
    then show ?thesis using True Suc.prems by (intro exI [of _ k]) (auto simp: get_def le_Suc_eq)
  qed (use Suc.prems in \<open>auto simp: get_def\<close>)
qed simp

lemma step_back_finds:
  assumes "numbered ps" "i < length ps" "\<forall>j. i < j \<and> j < length ps \<longrightarrow> pn < sp_packet_number (ps ! j)"
  obtains k where "step_back ps pn i = Ret k" "k \<le> i" "\<forall>j < length ps. j \<noteq> k \<longrightarrow> sp_packet_number (ps ! j) \<noteq> pn" "\<forall>j. k < j \<and> j < length ps \<longrightarrow> pn < sp_packet_number (ps ! j)"
proof -
  obtain k where k: "k \<le> i" "step_back ps pn i = Ret k" "k = 0 \<or> sp_packet_number (ps ! k) \<le> pn" "\<forall>j. k < j \<and> j \<le> i \<longrightarrow> pn < sp_packet_number (ps ! j)"
    using step_back_ok [OF assms(2), of pn] by blast
  have above: "pn < sp_packet_number (ps ! j)" if "k < j" "j < length ps" for j using k(4) assms(3) that by (cases "j \<le> i") auto
  have "sp_packet_number (ps ! j) \<noteq> pn" if "j < length ps" "j \<noteq> k" for j
  proof (cases "j < k")
    case True
    then show ?thesis using numbered_nth_less [OF assms(1) True] k(1,3) assms(2) by fastforce
  next
    case False
    then show ?thesis using above [of j] that by auto
  qed
  then show thesis using that [OF k(2,1)] above by blast
qed

lemma newly_acked_found:
  assumes "numbered ps" "k < length ps" "sp_packet_number (ps ! k) = pn" "sp_state (ps ! k) \<noteq> Acked" "\<forall>x \<in> set pns. x < pn"
  shows "newly_acked (\<lambda>x. x \<in> set (pn # pns)) ps = newly_acked (\<lambda>x. x \<in> set pns) (ps[k := (ps ! k)\<lparr>sp_state := Acked\<rparr>]) @ [ps ! k]"
    and "mark_acked (\<lambda>x. x \<in> set (pn # pns)) ps = mark_acked (\<lambda>x. x \<in> set pns) (ps[k := (ps ! k)\<lparr>sp_state := Acked\<rparr>])"
proof -
  let ?p = "ps ! k" and ?a = "take k ps" and ?b = "drop (Suc k) ps"
  have split: "ps = ?a @ ?p # ?b" using assms(2) by (simp add: id_take_nth_drop)
  have "numbered (?a @ ?p # ?b)" using assms(1) split by argo
  then have lo: "\<forall>q \<in> set ?a. sp_packet_number q < pn" and hi: "\<forall>q \<in> set ?b. pn < sp_packet_number q"
    using assms(3) unfolding numbered_def sorted_wrt_append by auto
  have upd: "ps[k := ?p\<lparr>sp_state := Acked\<rparr>] = ?a @ ?p\<lparr>sp_state := Acked\<rparr> # ?b" using assms(2) by (simp add: upd_conv_take_nth_drop)
  have none: "newly_acked (\<lambda>x. x \<in> set (pn # pns)) ?b = []" "newly_acked (\<lambda>x. x \<in> set pns) ?b = []"
    using hi assms(5) by (fastforce simp: newly_acked_def filter_empty_conv)+
  have same: "newly_acked (\<lambda>x. x \<in> set (pn # pns)) ?a = newly_acked (\<lambda>x. x \<in> set pns) ?a"
    unfolding newly_acked_def using lo by (intro filter_cong) auto
  have app: "newly_acked P (xs @ ys) = newly_acked P xs @ newly_acked P ys" for P xs ys by (simp add: newly_acked_def)
  have one: "newly_acked (\<lambda>x. x \<in> set (pn # pns)) (?p # ?b) = [?p]" "newly_acked (\<lambda>x. x \<in> set pns) (?p\<lparr>sp_state := Acked\<rparr> # ?b) = []"
    using none assms(3,4) by (simp_all add: newly_acked_def)
  have "newly_acked (\<lambda>x. x \<in> set (pn # pns)) (?a @ ?p # ?b) = newly_acked (\<lambda>x. x \<in> set pns) (?a @ ?p\<lparr>sp_state := Acked\<rparr> # ?b) @ [?p]"
    unfolding app one same by simp
  then show "newly_acked (\<lambda>x. x \<in> set (pn # pns)) ps = newly_acked (\<lambda>x. x \<in> set pns) (ps[k := ?p\<lparr>sp_state := Acked\<rparr>]) @ [?p]"
    unfolding upd using split by argo
  have only: "sp_packet_number (ps ! j) \<noteq> pn" if "j < length ps" "j \<noteq> k" for j
    using numbered_nth_less [OF assms(1), of j k] numbered_nth_less [OF assms(1), of k j] assms(2,3) that by (cases "j < k") auto
  show "mark_acked (\<lambda>x. x \<in> set (pn # pns)) ps = mark_acked (\<lambda>x. x \<in> set pns) (ps[k := ?p\<lparr>sp_state := Acked\<rparr>])"
  proof (rule nth_equalityI)
    fix j assume "j < length (mark_acked (\<lambda>x. x \<in> set (pn # pns)) ps)"
    then have j: "j < length ps" by (simp add: mark_acked_def)
    show "mark_acked (\<lambda>x. x \<in> set (pn # pns)) ps ! j = mark_acked (\<lambda>x. x \<in> set pns) (ps[k := ?p\<lparr>sp_state := Acked\<rparr>]) ! j"
      using j assms(3,4) only [OF j] by (cases "j = k") (simp_all add: mark_acked_def)
  qed (simp add: mark_acked_def)
qed

lemma newly_acked_absent:
  assumes "\<forall>p \<in> set ps. sp_packet_number p = pn \<longrightarrow> sp_state p = Acked"
  shows "newly_acked (\<lambda>x. x \<in> set (pn # pns)) ps = newly_acked (\<lambda>x. x \<in> set pns) ps"
    and "mark_acked (\<lambda>x. x \<in> set (pn # pns)) ps = mark_acked (\<lambda>x. x \<in> set pns) ps"
  using assms by (auto simp: newly_acked_def mark_acked_def intro!: filter_cong map_cong)

lemma numbered_update [simp]: "k < length ps \<Longrightarrow> sp_packet_number q = sp_packet_number (ps ! k) \<Longrightarrow> numbered (ps[k := q]) = numbered ps"
  by (metis list_update_id map_update numbered_iff_map)

lemma ack_numbers_scan:
  assumes "numbered ps" "i < length ps" "sorted_wrt (>) pns" "\<forall>j x. i < j \<and> j < length ps \<and> x \<in> set pns \<longrightarrow> x < sp_packet_number (ps ! j)"
    "\<forall>n t x. la = Some (n, t) \<and> x \<in> set pns \<longrightarrow> x < n"
  shows "\<exists>k. ack_numbers C pns (i, ps, a, inc, la) =
    (let new = rev (newly_acked (\<lambda>x. x \<in> set pns) ps)
     in bind_run (fold_run (ctl_on_packet_acked C) new a) (\<lambda>a'.
        Ret (k, mark_acked (\<lambda>x. x \<in> set pns) ps, a', inc \<or> (\<exists>p \<in> set new. sp_ack_eliciting p),
             case la of Some l \<Rightarrow> Some l | None \<Rightarrow> map_option (\<lambda>p. (sp_packet_number p, sp_time_sent p)) (case new of [] \<Rightarrow> None | p # _ \<Rightarrow> Some p))))"
  using assms
proof (induction pns arbitrary: i ps a inc la)
  case Nil
  have "mark_acked (\<lambda>x. x \<in> set []) ps = ps" "newly_acked (\<lambda>x. x \<in> set []) ps = []" by (auto simp: mark_acked_def newly_acked_def)
  then show ?case by (cases la) (auto simp: Let_def)
next
  case (Cons pn pns)
  have "\<forall>j. i < j \<and> j < length ps \<longrightarrow> pn < sp_packet_number (ps ! j)" using Cons.prems(4) by simp
  from step_back_finds [OF Cons.prems(1,2) this] obtain k where
    k: "step_back ps pn i = Ret k" "k \<le> i" "\<forall>j < length ps. j \<noteq> k \<longrightarrow> sp_packet_number (ps ! j) \<noteq> pn" "\<forall>j. k < j \<and> j < length ps \<longrightarrow> pn < sp_packet_number (ps ! j)" by blast
  have kl: "k < length ps" using k(2) Cons.prems(2) by simp
  have below: "\<forall>x \<in> set pns. x < pn" "sorted_wrt (>) pns" using Cons.prems(3) by auto
  have ahead: "\<forall>j x. k < j \<and> j < length ps \<and> x \<in> set pns \<longrightarrow> x < sp_packet_number (ps ! j)" using k(4) below(1) by (meson order.strict_trans)
  let ?p = "ps ! k"
  show ?case
  proof (cases "sp_packet_number ?p = pn \<and> sp_state ?p \<noteq> Acked")
    case True
    define ps' where "ps' = ps[k := ?p\<lparr>sp_state := Acked\<rparr>]"
    define la' where "la' = (case la of None \<Rightarrow> Some (pn, sp_time_sent ?p) | Some (n, t) \<Rightarrow> Some (if n < pn then (pn, sp_time_sent ?p) else (n, t)))"
    have la': "la' = (case la of Some l \<Rightarrow> Some l | None \<Rightarrow> Some (pn, sp_time_sent ?p))" using Cons.prems(5) by (auto simp: la'_def split: option.splits)
    have pre: "numbered ps'" "k < length ps'" "\<forall>j x. k < j \<and> j < length ps' \<and> x \<in> set pns \<longrightarrow> x < sp_packet_number (ps' ! j)"
      using Cons.prems(1) kl ahead by (auto simp: ps'_def)
    have lt: "\<forall>n t x. la' = Some (n, t) \<and> x \<in> set pns \<longrightarrow> x < n" using Cons.prems(5) below(1) by (auto simp: la' split: option.splits)
    note ih = Cons.IH [OF pre(1,2) below(2) pre(3) lt]
    note fnd = newly_acked_found [OF Cons.prems(1) kl conjunct1 [OF True] conjunct2 [OF True] below(1), folded ps'_def]
    have step: "ack_numbers C (pn # pns) (i, ps, a, inc, la) = bind_run (ctl_on_packet_acked C ?p a) (\<lambda>a. ack_numbers C pns (k, ps', a, inc \<or> sp_ack_eliciting ?p, la'))"
      using True k(1) kl by (simp add: ack_number_def get_def bind_run_assoc ps'_def la'_def)
    show ?thesis
    proof (cases "ctl_on_packet_acked C ?p a")
      case Panic
      then show ?thesis unfolding step fnd by (simp add: Let_def)
    next
      case (Ret a1)
      from ih [of a1 "inc \<or> sp_ack_eliciting ?p"] show ?thesis unfolding step fnd Ret using True by (auto simp: Let_def la' Ret disj_assoc split: option.splits list.splits)
    qed
  next
    case False
    have "\<forall>q \<in> set ps. sp_packet_number q = pn \<longrightarrow> sp_state q = Acked" using False k(3) by (metis in_set_conv_nth)
    note abs = newly_acked_absent [OF this, of pns]
    have step: "ack_numbers C (pn # pns) (i, ps, a, inc, la) = ack_numbers C pns (k, ps, a, inc, la)"
      using False k(1) kl by (auto simp: ack_number_def get_def)
    have "\<forall>n t x. la = Some (n, t) \<and> x \<in> set pns \<longrightarrow> x < n" using Cons.prems(5) by simp
    from Cons.IH [OF Cons.prems(1) kl below(2) ahead this, of a inc] show ?thesis unfolding step abs .
  qed
qed

lemma acked_numbers_Cons: "acked_numbers ((l, r) # rs) = rev [l..<r + 1] @ acked_numbers rs"
  by (simp only: acked_numbers_def list.map concat.simps prod.case)

lemma sorted_acked_numbers: "descending_ranges rs \<Longrightarrow> sorted_wrt (>) (acked_numbers rs)"
proof (induction rs)
  case (Cons p rs)
  obtain l r where p: "p = (l, r)" by (cases p)
  have "x < l" if "x \<in> set (acked_numbers rs)" for x
    using that Cons.prems by (fastforce simp: p set_acked_numbers covered_def descending_ranges_def)
  moreover have "sorted_wrt (>) (rev [l..<r + 1])" by (simp add: sorted_wrt_rev del: upt_Suc)
  moreover have "descending_ranges rs" using Cons.prems by (simp add: descending_ranges_def)
  ultimately show ?case using Cons.IH unfolding p acked_numbers_Cons by (fastforce simp: sorted_wrt_append simp del: upt_Suc)
qed (simp add: acked_numbers_def)

lemma descending_top:
  assumes "descending_ranges rs" "covered rs x"
  shows "x \<le> snd (hd rs)"
proof (cases rs)
  case (Cons p tl)
  then show ?thesis using assms by (cases p) (fastforce simp: descending_ranges_def covered_def)
qed (use assms in \<open>simp add: covered_def\<close>)

lemma search_index_ok:
  assumes "numbered ps" "ps \<noteq> []"
  shows "search_index pn ps < length ps" "\<forall>j. search_index pn ps < j \<and> j < length ps \<longrightarrow> pn < sp_packet_number (ps ! j)"
    "search_index pn ps = 0 \<or> sp_packet_number (ps ! search_index pn ps) \<le> pn"
proof -
  let ?i = "length (takeWhile (\<lambda>p. sp_packet_number p < pn) ps)"
  have le: "?i \<le> length ps" by (rule length_takeWhile_le)
  have at: "pn \<le> sp_packet_number (ps ! ?i)" if "?i < length ps" using nth_length_takeWhile [OF that] by simp
  have lt: "sp_packet_number (ps ! j) < pn" if "j < ?i" for j using that by (metis (no_types, lifting) nth_mem set_takeWhileD takeWhile_nth)
  have gt: "pn < sp_packet_number (ps ! j)" if "?i < j" "j < length ps" for j using numbered_nth_less [OF assms(1) that] at that by simp
  let ?s = "search_index pn ps"
  have "?s < length ps \<and> (\<forall>j. ?s < j \<and> j < length ps \<longrightarrow> pn < sp_packet_number (ps ! j)) \<and> (?s = 0 \<or> sp_packet_number (ps ! ?s) \<le> pn)"
  proof (cases "?i < length ps \<and> sp_packet_number (ps ! ?i) = pn")
    case True
    then have "?s = ?i" by (simp add: search_index_def)
    then show ?thesis using True gt by simp
  next
    case False
    then have s: "?s = ?i - 1" by (auto simp: search_index_def)
    have ge: "pn < sp_packet_number (ps ! j)" if "?i \<le> j" "j < length ps" for j
      using that gt [of j] at False by (cases "j = ?i") auto
    have "?i - 1 < length ps" using le assms(2) by (cases ps) auto
    moreover have "pn < sp_packet_number (ps ! j)" if "?i - 1 < j" "j < length ps" for j using that by (intro ge) auto
    moreover have "?i - 1 = 0 \<or> sp_packet_number (ps ! (?i - 1)) \<le> pn" using lt [of "?i - 1"] by (cases "?i = 0") auto
    ultimately show ?thesis unfolding s by blast
  qed
  then show "?s < length ps" "\<forall>j. ?s < j \<and> j < length ps \<longrightarrow> pn < sp_packet_number (ps ! j)" "?s = 0 \<or> sp_packet_number (ps ! ?s) \<le> pn"
    by blast+
qed

text \<open>
  What \<open>on_ack_rcvd\<close> is to do, without indices: hand the sent packets with an acknowledged number that were not acknowledged before to the algorithm, from the highest number down, mark them, and forget the
  packets at the front about which nothing is open.
\<close>

definition ack_reference :: "'a control \<Rightarrow> (nat \<times> nat) list \<Rightarrow> 'a \<Rightarrow> packet_space \<Rightarrow> (newly_acked_packets option \<times> 'a \<times> packet_space) run" where
  "ack_reference C rs a s =
     (let new = newly_acked (covered rs) (ps_sent_packets s)
      in bind_run (fold_run (ctl_on_packet_acked C) (rev new) a) (\<lambda>a'.
           Ret (if new = [] then None
                else Some \<lparr>na_include_ack_eliciting = (\<exists>p \<in> set new. sp_ack_eliciting p), na_largest = (sp_packet_number (last new), sp_time_sent (last new))\<rparr>,
                a',
                s\<lparr>ps_sent_packets := dropWhile (\<lambda>p. sp_state p \<noteq> Inflight) (mark_acked (covered rs) (ps_sent_packets s))\<rparr>)))"

lemma on_ack_rcvd_eq:
  assumes "numbered (ps_sent_packets s)"
  shows "ps_on_ack_rcvd C f a s =
    (if ps_sent_packets s = [] then Ret (None, a, s) else bind_run (ack_iter f) (\<lambda>rs. ack_reference C rs a s))"
proof (cases "ps_sent_packets s = [] \<or> ack_iter f = Panic")
  case False
  then obtain rs where rs: "ack_iter f = Ret rs" and ne: "ps_sent_packets s \<noteq> []" by (cases "ack_iter f") auto
  let ?ps = "ps_sent_packets s" and ?pns = "acked_numbers rs" and ?l = "into_inner (ack_largest f)"
  note d = ack_iter_descending [OF rs]
  have cov: "(\<lambda>x. x \<in> set ?pns) = covered rs" by (simp add: set_acked_numbers)
  have top: "x \<le> ?l" if "x \<in> set ?pns" for x using descending_top [OF d(1)] that d(3) by (simp add: set_acked_numbers)
  note idx = search_index_ok [OF assms ne, of ?l]
  have ahead: "\<forall>j x. search_index ?l ?ps < j \<and> j < length ?ps \<and> x \<in> set ?pns \<longrightarrow> x < sp_packet_number (?ps ! j)" using idx(2) top by (meson le_less_trans)
  have nx: "\<forall>n t x. None = Some (n, t) \<and> x \<in> set ?pns \<longrightarrow> x < n" by simp
  let ?new = "newly_acked (covered rs) ?ps"
  from ack_numbers_scan [OF assms idx(1) sorted_acked_numbers [OF d(1)] ahead nx, of C a False, unfolded cov] obtain k where
    k: "ack_numbers C ?pns (search_index ?l ?ps, ?ps, a, False, None) =
      (let new = rev ?new in bind_run (fold_run (ctl_on_packet_acked C) new a) (\<lambda>a'. Ret (k, mark_acked (covered rs) ?ps, a', False \<or> (\<exists>p \<in> set new. sp_ack_eliciting p),
         case None of Some l \<Rightarrow> Some l | None \<Rightarrow> map_option (\<lambda>p. (sp_packet_number p, sp_time_sent p)) (case new of [] \<Rightarrow> None | p # _ \<Rightarrow> Some p))))" by blast
  have st: "(\<lambda>p. sp_state p = Acked \<or> sp_state p = Retransmitted) = (\<lambda>p. sp_state p \<noteq> Inflight)" by (intro ext) (metis cc_state.distinct(1,3) cc_state.exhaust)
  have hd: "(case rev ?new of [] \<Rightarrow> None | p # _ \<Rightarrow> Some p) = (if ?new = [] then None else Some (last ?new))"
    by (cases ?new rule: rev_cases) simp_all
  show ?thesis using ne rs unfolding ps_on_ack_rcvd_def ack_reference_def st
    by (simp add: k Let_def bind_run_assoc hd)
qed (auto simp: ps_on_ack_rcvd_def)

subsection \<open>Loss detection against a reference\<close>

definition retransmitted :: "sent_packet \<Rightarrow> sent_packet" where
  "retransmitted p = p\<lparr>sp_state := Retransmitted\<rparr>"

text \<open>The packets kept that were sent after \<open>p\<close> and have a number up to the largest acknowledged one.\<close>

definition sent_after :: "nat \<Rightarrow> sent_packet list \<Rightarrow> sent_packet \<Rightarrow> sent_packet list" where
  "sent_after la ps p = filter (\<lambda>q. sp_packet_number p < sp_packet_number q \<and> sp_packet_number q \<le> la) ps"

definition is_lost :: "instant \<Rightarrow> duration \<Rightarrow> nat \<Rightarrow> nat \<Rightarrow> sent_packet list \<Rightarrow> sent_packet \<Rightarrow> bool" where
  "is_lost now d threshold la ps p \<longleftrightarrow> sp_state p = Inflight \<and> sp_packet_number p \<le> la \<and>
     (sp_time_sent p + d < now \<or> threshold \<le> length (sent_after la ps p))"

definition min_time :: "duration \<Rightarrow> sent_packet \<Rightarrow> instant option \<Rightarrow> instant option" where
  "min_time d p t = (case t of None \<Rightarrow> Some (sp_time_sent p + d) | Some t \<Rightarrow> Some (min t (sp_time_sent p + d)))"

lemma loss_chain_eq:
  assumes "numbered ps"
  shows "loss_chain now d la li th idx lt ps =
    (let lost = (\<lambda>(i, p). sp_state p = Inflight \<and> sp_packet_number p \<le> la \<and> (sp_time_sent p < now - d \<or> i + th \<le> li));
         eps = enumerate idx ps
     in (map (\<lambda>x. if lost x then retransmitted (snd x) else snd x) eps, map (\<lambda>x. (fst x, retransmitted (snd x))) (filter lost eps),
         fold (\<lambda>x. min_time d (snd x)) (filter (\<lambda>x. sp_state (snd x) = Inflight \<and> sp_packet_number (snd x) \<le> la \<and> \<not> lost x) eps) lt))"
  using assms
proof (induction ps arbitrary: idx lt)
  case (Cons p ps)
  have num: "numbered ps" "\<forall>q \<in> set ps. sp_packet_number p < sp_packet_number q" using Cons.prems by (auto simp: numbered_def)
  show ?case
  proof (cases "la < sp_packet_number p")
    case True
    have "snd x \<in> set ps" if "x \<in> set (enumerate (Suc idx) ps)" for x using that by (metis enumerate_eq_zip prod.collapse set_zip_rightD)
    then have beyond: "\<forall>x \<in> set (enumerate (Suc idx) ps). la < sp_packet_number (snd x)" using num(2) True by (meson dual_order.strict_trans)
    have "map (\<lambda>x. if (case x of (i, p) \<Rightarrow> sp_state p = Inflight \<and> sp_packet_number p \<le> la \<and> (sp_time_sent p < now - d \<or> i + th \<le> li)) then retransmitted (snd x) else snd x) (enumerate (Suc idx) ps) = map snd (enumerate (Suc idx) ps)"
      using beyond by (intro map_cong) auto
    moreover have "filter (\<lambda>(i, p). sp_state p = Inflight \<and> sp_packet_number p \<le> la \<and> (sp_time_sent p < now - d \<or> i + th \<le> li)) (enumerate (Suc idx) ps) = []"
      using beyond by (auto simp: filter_empty_conv)
    moreover have "filter (\<lambda>x. sp_state (snd x) = Inflight \<and> sp_packet_number (snd x) \<le> la \<and> \<not> (case x of (i, p) \<Rightarrow> sp_state p = Inflight \<and> sp_packet_number p \<le> la \<and> (sp_time_sent p < now - d \<or> i + th \<le> li))) (enumerate (Suc idx) ps) = []"
      using beyond by (auto simp: filter_empty_conv)
    ultimately show ?thesis using True by (simp add: Let_def)
  next
    case False
    show ?thesis
    proof (cases "sp_state p = Inflight")
      case True
      then show ?thesis using False Cons.IH [OF num(1)]
        by (cases "sp_time_sent p < now - d \<or> idx + th \<le> li") (simp_all add: Let_def retransmitted_def min_time_def)
    next
      case nin: False
      then show ?thesis using False Cons.IH [OF num(1)] by (simp add: Let_def)
    qed
  qed
qed (simp add: Let_def)

lemma index_threshold:
  assumes "numbered ps" "i < length ps" "sp_packet_number (ps ! i) \<le> la"
  shows "search_index la ps - i = length (sent_after la ps (ps ! i))" "i \<le> search_index la ps"
proof -
  have ne: "ps \<noteq> []" using assms(2) by auto
  let ?s = "search_index la ps"
  note s = search_index_ok [OF assms(1) ne, of la]
  show le: "i \<le> ?s" using s(2) assms(2,3) by (metis leD leI)
  have sl: "sp_packet_number (ps ! ?s) \<le> la" using s(3) le assms(3) by auto
  have iff: "sp_packet_number (ps ! i) < sp_packet_number (ps ! j) \<and> sp_packet_number (ps ! j) \<le> la \<longleftrightarrow> i < j \<and> j \<le> ?s" if "j < length ps" for j
  proof -
    have "sp_packet_number (ps ! i) < sp_packet_number (ps ! j) \<longleftrightarrow> i < j"
      using numbered_nth_less [OF assms(1), of i j] numbered_nth_less [OF assms(1), of j i] that assms(2) by (cases i j rule: linorder_cases) auto
    moreover have "sp_packet_number (ps ! j) \<le> la \<longleftrightarrow> j \<le> ?s"
    proof
      assume "j \<le> ?s"
      then consider "j = ?s" | "j < ?s" by linarith
      then show "sp_packet_number (ps ! j) \<le> la" using numbered_nth_less [OF assms(1), of j ?s] s(1) sl by cases auto
    qed (use s(2) that in \<open>metis leD leI\<close>)
    ultimately show ?thesis by simp
  qed
  have "{j. j < length ps \<and> sp_packet_number (ps ! i) < sp_packet_number (ps ! j) \<and> sp_packet_number (ps ! j) \<le> la} = {j. j < length ps \<and> i < j \<and> j \<le> ?s}"
    by (rule Collect_cong, rule conj_cong [OF refl], rule iff)
  also have "\<dots> = {i<..?s}" using s(1) by auto
  finally have "{j. j < length ps \<and> sp_packet_number (ps ! i) < sp_packet_number (ps ! j) \<and> sp_packet_number (ps ! j) \<le> la} = {i<..?s}" .
  then show "?s - i = length (sent_after la ps (ps ! i))" by (simp add: sent_after_def length_filter_conv_card)
qed

lemma persistent_fold_Some:
  "sorted_wrt (<) xs \<Longrightarrow> \<forall>x \<in> set xs. p < x \<Longrightarrow> c \<le> 1 \<Longrightarrow>
   persistent_fold (Some p) c xs \<longleftrightarrow> (if c = 1 then p + 1 \<in> set xs else {p + 1, p + 2} \<subseteq> set xs) \<or> (\<exists>i. {i, i + 1, i + 2} \<subseteq> set xs)"
proof (induction xs arbitrary: p c)
  case (Cons x xs)
  have s: "sorted_wrt (<) xs" "\<forall>y \<in> set xs. x < y" "p < x" using Cons.prems by auto
  have three: "(\<exists>i. {i, i + 1, i + 2} \<subseteq> set (x # xs)) \<longleftrightarrow> {x + 1, x + 2} \<subseteq> set xs \<or> (\<exists>i. {i, i + 1, i + 2} \<subseteq> set xs)"
    using s(2) by fastforce
  have far: "p + 1 \<in> set (x # xs) \<longleftrightarrow> x = p + 1" "p + 2 \<in> set (x # xs) \<and> x = p + 1 \<longleftrightarrow> x = p + 1 \<and> x + 1 \<in> set xs" using s(2,3) by fastforce+
  show ?case
  proof (cases "x - p = 1")
    case True
    then have x: "x = p + 1" using s(3) by simp
    show ?thesis
    proof (cases "c = 1")
      case True
      then show ?thesis using x by (simp add: PERSISTENT_LOSS_THRESHOLD_def)
    next
      case False
      then have c: "c = 0" using Cons.prems(3) by simp
      have "persistent_fold (Some p) c (x # xs) = persistent_fold (Some x) 1 xs" using c x by (simp add: PERSISTENT_LOSS_THRESHOLD_def)
      then show ?thesis using Cons.IH [OF s(1,2), of 1] three x c by auto
    qed
  next
    case False
    then have nx: "p + 1 \<notin> set (x # xs)" using far(1) s(3) by auto
    have "persistent_fold (Some p) c (x # xs) = persistent_fold (Some x) 0 xs" using False by (simp add: PERSISTENT_LOSS_THRESHOLD_def)
    then show ?thesis using Cons.IH [OF s(1,2), of 0] three nx by auto
  qed
qed simp

lemma persistent_fold_iff: "sorted_wrt (<) xs \<Longrightarrow> persistent_fold None 0 xs \<longleftrightarrow> (\<exists>i. {i, i + 1, i + 2} \<subseteq> set xs)"
proof (cases xs)
  case (Cons x ys)
  assume s: "sorted_wrt (<) xs"
  then have "persistent_fold (Some x) 0 ys \<longleftrightarrow> {x + 1, x + 2} \<subseteq> set ys \<or> (\<exists>i. {i, i + 1, i + 2} \<subseteq> set ys)" using persistent_fold_Some [of ys x 0] Cons by auto
  moreover have "(\<exists>i. {i, i + 1, i + 2} \<subseteq> set xs) \<longleftrightarrow> {x + 1, x + 2} \<subseteq> set ys \<or> (\<exists>i. {i, i + 1, i + 2} \<subseteq> set ys)" using s Cons by fastforce
  ultimately show ?thesis using Cons by (simp add: PERSISTENT_LOSS_THRESHOLD_def)
qed simp

text \<open>What \<open>detect_lost_packets\<close> is to do, without indices, lazy iterators and folds.\<close>

definition consecutive_lost :: "(sent_packet \<Rightarrow> bool) \<Rightarrow> sent_packet list \<Rightarrow> bool" where
  "consecutive_lost lost ps \<longleftrightarrow> (\<exists>i < length ps - 2. lost (ps ! i) \<and> lost (ps ! (i + 1)) \<and> lost (ps ! (i + 2)))"

definition loss_reference :: "'a control \<Rightarrow> instant \<Rightarrow> duration \<Rightarrow> nat \<Rightarrow> 'a \<Rightarrow> packet_space \<Rightarrow> (nat list \<times> 'a \<times> packet_space) run" where
  "loss_reference C now d threshold a s =
     (let ps = ps_sent_packets s; la = (case ps_largest_acked_packet s of None \<Rightarrow> 0 | Some n \<Rightarrow> n);
          lost = is_lost now d threshold la ps;
          waiting = filter (\<lambda>p. sp_state p = Inflight \<and> sp_packet_number p \<le> la \<and> \<not> lost p) ps
      in bind_run (if filter lost ps = [] then Ret a
                   else ctl_on_packets_lost C now (map retransmitted (filter lost ps)) (consecutive_lost lost ps) a) (\<lambda>a'.
         Ret (map sp_packet_number (filter lost ps), a',
              s\<lparr>ps_loss_time := (if waiting = [] then None else Some (Min ((\<lambda>p. sp_time_sent p + d) ` set waiting))),
                ps_sent_packets := map (\<lambda>p. if lost p then retransmitted p else p) ps\<rparr>)))"

lemma fold_min_time:
  "fold (min_time d) ps t = (if ps = [] then t else Some (case t of None \<Rightarrow> Min ((\<lambda>p. sp_time_sent p + d) ` set ps) | Some u \<Rightarrow> min u (Min ((\<lambda>p. sp_time_sent p + d) ` set ps))))"
proof (induction ps arbitrary: t)
  case (Cons p ps)
  then show ?case by (cases "ps = []"; cases t) (simp_all add: min_time_def min.assoc)
qed simp

lemma filter_enumerate:
  assumes "\<And>i. i < length ps \<Longrightarrow> P (i, ps ! i) = Q (ps ! i)"
  shows "map snd (filter P (enumerate 0 ps)) = filter Q ps" "map fst (filter P (enumerate 0 ps)) = filter (\<lambda>i. Q (ps ! i)) [0..<length ps]"
    "map (\<lambda>x. if P x then f (snd x) else snd x) (enumerate 0 ps) = map (\<lambda>p. if Q p then f p else p) ps"
proof -
  have e: "enumerate 0 ps = map (\<lambda>i. (i, ps ! i)) [0..<length ps]" by (rule nth_equalityI) (auto simp: nth_enumerate_eq)
  have f: "filter P (enumerate 0 ps) = map (\<lambda>i. (i, ps ! i)) (filter (\<lambda>i. Q (ps ! i)) [0..<length ps])"
    unfolding e filter_map comp_def using assms by (intro arg_cong [where f = "map _"] filter_cong) auto
  show "map fst (filter P (enumerate 0 ps)) = filter (\<lambda>i. Q (ps ! i)) [0..<length ps]" unfolding f by (simp add: comp_def)
  have "map snd (filter P (enumerate 0 ps)) = map ((!) ps) (filter (\<lambda>i. Q (ps ! i)) [0..<length ps])" unfolding f by (simp add: comp_def)
  also have "\<dots> = filter Q (map ((!) ps) [0..<length ps])" by (simp add: filter_map comp_def)
  finally show "map snd (filter P (enumerate 0 ps)) = filter Q ps" by (simp add: map_nth)
  show "map (\<lambda>x. if P x then f (snd x) else snd x) (enumerate 0 ps) = map (\<lambda>p. if Q p then f p else p) ps"
    by (rule nth_equalityI) (auto simp: nth_enumerate_eq assms)
qed

lemma detect_lost_eq:
  assumes num: "numbered (ps_sent_packets s)"
  shows "detect_lost_packets C now d threshold a s = loss_reference C now d threshold a s"
proof -
  define ps where "ps = ps_sent_packets s"
  define la where "la = (case ps_largest_acked_packet s of None \<Rightarrow> 0 | Some n \<Rightarrow> n)"
  define lost where "lost = is_lost now d threshold la ps"
  define P where "P = (\<lambda>(i, p :: sent_packet). sp_state p = Inflight \<and> sp_packet_number p \<le> la \<and> (sp_time_sent p < now - d \<or> i + threshold \<le> search_index la ps))"
  define W where "W = (\<lambda>x :: nat \<times> sent_packet. sp_state (snd x) = Inflight \<and> sp_packet_number (snd x) \<le> la \<and> \<not> P x)"
  have n: "numbered ps" using num by (simp add: ps_def)
  have PQ: "P (i, ps ! i) = lost (ps ! i)" if "i < length ps" for i
  proof (cases "sp_packet_number (ps ! i) \<le> la")
    case True
    have "i + threshold \<le> search_index la ps \<longleftrightarrow> threshold \<le> length (sent_after la ps (ps ! i))" using index_threshold [OF n that True] by linarith
    moreover have "sp_time_sent (ps ! i) < now - d \<longleftrightarrow> sp_time_sent (ps ! i) + d < now" by linarith
    ultimately show ?thesis using True by (simp only: P_def lost_def is_lost_def case_prod_conv)
  qed (simp add: P_def lost_def is_lost_def)
  have WQ: "W (i, ps ! i) = (\<lambda>p. sp_state p = Inflight \<and> sp_packet_number p \<le> la \<and> \<not> lost p) (ps ! i)" if "i < length ps" for i
    using PQ [OF that] by (simp add: W_def)
  have fe: "map snd (filter P (enumerate 0 ps)) = filter lost ps" "map fst (filter P (enumerate 0 ps)) = filter (\<lambda>i. lost (ps ! i)) [0..<length ps]"
    "map (\<lambda>x. if P x then retransmitted (snd x) else snd x) (enumerate 0 ps) = map (\<lambda>p. if lost p then retransmitted p else p) ps"
    by (rule filter_enumerate, erule PQ)+
  have chain: "loss_chain now d la (search_index la ps) threshold 0 None ps =
    (map (\<lambda>x. if P x then retransmitted (snd x) else snd x) (enumerate 0 ps), map (\<lambda>x. (fst x, retransmitted (snd x))) (filter P (enumerate 0 ps)),
     fold (\<lambda>x. min_time d (snd x)) (filter W (enumerate 0 ps)) None)"
    unfolding loss_chain_eq [OF n] P_def W_def by (simp add: Let_def)
  define waiting where "waiting = filter (\<lambda>p. sp_state p = Inflight \<and> sp_packet_number p \<le> la \<and> \<not> lost p) ps"
  have we: "map snd (filter W (enumerate 0 ps)) = waiting" unfolding waiting_def by (rule filter_enumerate(1)) (rule WQ)
  have "fold (\<lambda>x. min_time d (snd x)) (filter W (enumerate 0 ps)) None = fold (min_time d) (map snd (filter W (enumerate 0 ps))) None"
    by (simp add: fold_map comp_def)
  also have "\<dots> = (if waiting = [] then None else Some (Min ((\<lambda>p. sp_time_sent p + d) ` set waiting)))"
    by (simp only: we fold_min_time option.case)
  finally have time: "fold (\<lambda>x. min_time d (snd x)) (filter W (enumerate 0 ps)) None = (if waiting = [] then None else Some (Min ((\<lambda>p. sp_time_sent p + d) ` set waiting)))" .
  have nil: "map (\<lambda>x. (fst x, retransmitted (snd x))) (filter P (enumerate 0 ps)) = [] \<longleftrightarrow> filter lost ps = []"
    unfolding fe(1) [symmetric] by simp
  have snds: "map snd (map (\<lambda>x. (fst x, retransmitted (snd x))) (filter P (enumerate 0 ps))) = map retransmitted (filter lost ps)"
    unfolding fe(1) [symmetric] by simp
  have fsts: "map fst (map (\<lambda>x. (fst x, retransmitted (snd x))) (filter P (enumerate 0 ps))) = filter (\<lambda>i. lost (ps ! i)) [0..<length ps]"
    unfolding fe(2) [symmetric] by simp
  have "sorted_wrt (<) (filter (\<lambda>i. lost (ps ! i)) [0..<length ps])" by (intro sorted_wrt_filter) simp
  then have "persistent_fold None 0 (filter (\<lambda>i. lost (ps ! i)) [0..<length ps]) = (\<exists>i. {i, i + 1, i + 2} \<subseteq> {i. i < length ps \<and> lost (ps ! i)})"
    using persistent_fold_iff [of "filter (\<lambda>i. lost (ps ! i)) [0..<length ps]"] by simp
  also have "\<dots> = consecutive_lost lost ps"
    unfolding consecutive_lost_def by (intro ex_cong1) auto
  finally have "persistent_fold None 0 (filter (\<lambda>i. lost (ps ! i)) [0..<length ps]) = consecutive_lost lost ps" .
  moreover have "map (\<lambda>(_, p). sp_packet_number p) (map (\<lambda>x. (fst x, retransmitted (snd x))) (filter P (enumerate 0 ps))) = map sp_packet_number (filter lost ps)"
    unfolding fe(1) [symmetric] by (simp add: retransmitted_def)
  ultimately show ?thesis
    unfolding detect_lost_packets_def loss_reference_def ps_def [symmetric] la_def [symmetric] Let_def chain prod.case nil snds fsts fe(3) time lost_def [symmetric] waiting_def [symmetric]
    by simp
qed

end
