(* ===== verification/Control_Law.thy ===== *)
theory Control_Law
  imports Packet_Space
begin

section \<open>What the packet spaces rely on of the congestion control algorithm\<close>

text \<open>
  The contract of the \<open>Control\<close> trait, as a locale over the record of its methods: each call returns and keeps the algorithm's invariant, and its count of the bytes in flight changes by the
  packets it was given. Inside the locale the operations of a packet space keep that count equal to what the packets say.
\<close>

definition bytes_of :: "sent_packet list \<Rightarrow> nat" where
  "bytes_of ps = sum_list (map sp_sent_bytes ps)"

definition counted_bytes :: "sent_packet list \<Rightarrow> nat" where
  "counted_bytes ps = bytes_of (filter sp_count_for_cc ps)"

definition flight_bytes :: "sent_packet list \<Rightarrow> nat" where
  "flight_bytes ps = counted_bytes (filter (\<lambda>p. sp_state p = Inflight) ps)"

definition open_bytes :: "sent_packet list \<Rightarrow> nat" where
  "open_bytes ps = bytes_of (filter (\<lambda>p. sp_state p \<noteq> Acked) ps)"

text \<open>The numbers of the packets in flight.\<close>

definition flying_numbers :: "sent_packet list \<Rightarrow> nat set" where
  "flying_numbers ps = sp_packet_number ` {p \<in> set ps. sp_state p = Inflight}"

named_theorems bytes_simps "sums of packet sizes"

lemma bytes_of_simps [bytes_simps]: "bytes_of [] = 0" "bytes_of (p # ps) = sp_sent_bytes p + bytes_of ps" "bytes_of (ps @ qs) = bytes_of ps + bytes_of qs"
  by (simp_all add: bytes_of_def)

lemma counted_bytes_simps [bytes_simps]:
  "counted_bytes [] = 0" "counted_bytes (p # ps) = (if sp_count_for_cc p then sp_sent_bytes p else 0) + counted_bytes ps" "counted_bytes (ps @ qs) = counted_bytes ps + counted_bytes qs"
  by (simp_all add: counted_bytes_def bytes_simps)

lemma flight_bytes_simps [bytes_simps]:
  "flight_bytes [] = 0" "flight_bytes (p # ps) = (if sp_state p = Inflight \<and> sp_count_for_cc p then sp_sent_bytes p else 0) + flight_bytes ps"
  "flight_bytes (ps @ qs) = flight_bytes ps + flight_bytes qs"
  by (simp_all add: flight_bytes_def bytes_simps)

lemma open_bytes_simps [bytes_simps]:
  "open_bytes [] = 0" "open_bytes (p # ps) = (if sp_state p \<noteq> Acked then sp_sent_bytes p else 0) + open_bytes ps" "open_bytes (ps @ qs) = open_bytes ps + open_bytes qs"
  by (simp_all add: open_bytes_def bytes_simps)

lemma bytes_of_rev [simp]: "bytes_of (rev ps) = bytes_of ps"
  by (induction ps) (simp_all add: bytes_simps)

lemma flight_bytes_rev [simp]: "flight_bytes (rev ps) = flight_bytes ps"
  by (induction ps) (simp_all add: bytes_simps)

lemma flight_bytes_mark: "flight_bytes ps = flight_bytes (newly_acked acks ps) + flight_bytes (mark_acked acks ps)"
proof (induction ps)
  case (Cons p ps)
  then show ?case by (cases "sp_state p") (auto simp: newly_acked_def mark_acked_def bytes_simps)
qed (simp add: newly_acked_def mark_acked_def bytes_simps)

lemma open_bytes_mark: "open_bytes ps = bytes_of (newly_acked acks ps) + open_bytes (mark_acked acks ps)"
proof (induction ps)
  case (Cons p ps)
  then show ?case by (auto simp: newly_acked_def mark_acked_def bytes_simps)
qed (simp add: newly_acked_def mark_acked_def bytes_simps)

lemma flight_bytes_dropWhile [simp]: "flight_bytes (dropWhile (\<lambda>p. sp_state p \<noteq> Inflight) ps) = flight_bytes ps"
  by (induction ps) (simp_all add: bytes_simps)

lemma open_bytes_dropWhile: "open_bytes (dropWhile P ps) \<le> open_bytes ps"
  by (induction ps) (simp_all add: bytes_simps)

lemma flight_bytes_lost:
  assumes "\<And>p. lost p \<Longrightarrow> sp_state p = Inflight"
  shows "flight_bytes ps = counted_bytes (map retransmitted (filter lost ps)) + flight_bytes (map (\<lambda>p. if lost p then retransmitted p else p) ps)"
proof (induction ps)
  case (Cons p ps)
  then show ?case using assms [of p] by (auto simp: retransmitted_def bytes_simps)
qed (simp add: bytes_simps)

lemma open_bytes_lost:
  assumes "\<And>p. lost p \<Longrightarrow> sp_state p = Inflight"
  shows "open_bytes (map (\<lambda>p. if lost p then retransmitted p else p) ps) = open_bytes ps"
proof (induction ps)
  case (Cons p ps)
  then show ?case using assms [of p] by (auto simp: retransmitted_def bytes_simps)
qed (simp add: bytes_simps)

lemma numbered_dropWhile: "numbered ps \<Longrightarrow> numbered (dropWhile P ps)"
  unfolding numbered_def by (metis sorted_wrt_append takeWhile_dropWhile_id)

lemma numbered_mark [simp]: "numbered (mark_acked acks ps) = numbered ps"
  by (simp add: numbered_iff_map)

lemma numbered_lost [simp]: "numbered (map (\<lambda>p. if lost p then retransmitted p else p) ps) = numbered ps"
proof -
  have "map sp_packet_number (map (\<lambda>p. if lost p then retransmitted p else p) ps) = map sp_packet_number ps" by (simp add: retransmitted_def)
  then show ?thesis unfolding numbered_iff_map by (simp only:)
qed

lemma numbered_unique: "numbered ps \<Longrightarrow> p \<in> set ps \<Longrightarrow> q \<in> set ps \<Longrightarrow> sp_packet_number p = sp_packet_number q \<Longrightarrow> p = q"
  by (metis in_set_conv_nth less_irrefl nat_neq_iff numbered_nth_less)

lemma flying_numbers_mark:
  assumes "numbered ps"
  shows "flying_numbers (dropWhile (\<lambda>p. sp_state p \<noteq> Inflight) (mark_acked acks ps)) = {x \<in> flying_numbers ps. \<not> acks x}"
proof -
  have drop: "{p \<in> set (dropWhile (\<lambda>p. sp_state p \<noteq> Inflight) qs). sp_state p = Inflight} = {p \<in> set qs. sp_state p = Inflight}" for qs
    by (induction qs) auto
  have "{p \<in> set (mark_acked acks ps). sp_state p = Inflight} = {p \<in> set ps. sp_state p = Inflight \<and> \<not> acks (sp_packet_number p)}"
    by (auto simp: mark_acked_def image_iff split: if_splits)
  then show ?thesis by (auto simp: flying_numbers_def drop)
qed

lemma flying_numbers_lost:
  assumes "numbered ps"
  shows "flying_numbers (map (\<lambda>p. if lost p then retransmitted p else p) ps) = flying_numbers ps - sp_packet_number ` {p \<in> set ps. lost p}"
proof -
  have "{p \<in> set (map (\<lambda>p. if lost p then retransmitted p else p) ps). sp_state p = Inflight} = {p \<in> set ps. sp_state p = Inflight \<and> \<not> lost p}"
    by (auto simp: retransmitted_def split: if_splits)
  then show ?thesis using numbered_unique [OF assms] by (auto simp: flying_numbers_def)
qed

locale congestion_algorithm =
  fixes C :: "'a control" and ok :: "'a \<Rightarrow> bool" and flying :: "'a \<Rightarrow> nat"
  assumes sent_law: "ok a \<Longrightarrow> flying a + sp_sent_bytes p < 2 ^ 48 \<Longrightarrow>
      \<exists>a'. ctl_on_packet_sent_cc C p a = Ret a' \<and> ok a' \<and> flying a' = flying a + sp_sent_bytes p \<and> ctl_congestion_window C a' = ctl_congestion_window C a"
    and acked_law: "ok a \<Longrightarrow> flight_bytes [p] \<le> flying a \<Longrightarrow> ctl_congestion_window C a + sp_sent_bytes p < 2 ^ 48 \<Longrightarrow>
      \<exists>a'. ctl_on_packet_acked C p a = Ret a' \<and> ok a' \<and> flying a' = flying a - flight_bytes [p] \<and>
        ctl_congestion_window C a' \<le> ctl_congestion_window C a + sp_sent_bytes p"
    and lost_law: "ok a \<Longrightarrow> counted_bytes ps \<le> flying a \<Longrightarrow>
      \<exists>a'. ctl_on_packets_lost C now ps persistent a = Ret a' \<and> ok a' \<and> flying a' = flying a - counted_bytes ps \<and> ctl_congestion_window C a' \<le> ctl_congestion_window C a"
    and ecn_law: "ok a \<Longrightarrow> \<exists>a'. ctl_process_ecn C now f t e a = Ret a' \<and> ok a' \<and> flying a' = flying a \<and> ctl_congestion_window C a' \<le> ctl_congestion_window C a"
    and remove_law: "ok a \<Longrightarrow> \<forall>p \<in> set ps. sp_state p = Inflight \<Longrightarrow> flight_bytes ps \<le> flying a \<Longrightarrow>
      \<exists>a'. ctl_remove_from_bytes_in_flight C ps a = Ret a' \<and> ok a' \<and> flying a' = flying a - flight_bytes ps \<and> ctl_congestion_window C a' = ctl_congestion_window C a"
begin

lemma acked_fold:
  "ok a \<Longrightarrow> flight_bytes ps \<le> flying a \<Longrightarrow> ctl_congestion_window C a + bytes_of ps < 2 ^ 48 \<Longrightarrow>
   \<exists>a'. fold_run (ctl_on_packet_acked C) ps a = Ret a' \<and> ok a' \<and> flying a' + flight_bytes ps = flying a \<and>
     ctl_congestion_window C a' \<le> ctl_congestion_window C a + bytes_of ps"
proof (induction ps arbitrary: a)
  case (Cons p ps)
  have split: "flight_bytes (p # ps) = flight_bytes [p] + flight_bytes ps" "bytes_of (p # ps) = sp_sent_bytes p + bytes_of ps" by (simp_all add: bytes_simps)
  obtain a1 where a1: "ctl_on_packet_acked C p a = Ret a1" "ok a1" "flying a1 = flying a - flight_bytes [p]" "ctl_congestion_window C a1 \<le> ctl_congestion_window C a + sp_sent_bytes p"
    using acked_law [OF Cons.prems(1), of p] Cons.prems(2,3) split by auto
  have "flight_bytes ps \<le> flying a1" "ctl_congestion_window C a1 + bytes_of ps < 2 ^ 48" using a1(3,4) Cons.prems(2,3) split by simp_all
  from Cons.IH [OF a1(2) this] obtain a2 where "fold_run (ctl_on_packet_acked C) ps a1 = Ret a2" "ok a2" "flying a2 + flight_bytes ps = flying a1"
    "ctl_congestion_window C a2 \<le> ctl_congestion_window C a1 + bytes_of ps" by blast
  then show ?case using a1 Cons.prems(2) split by (intro exI [of _ a2]) auto
qed (simp add: bytes_simps)

lemma ack_rcvd_law:
  assumes "ok a" "numbered (ps_sent_packets s)" "flight_bytes (ps_sent_packets s) \<le> flying a" "ctl_congestion_window C a + open_bytes (ps_sent_packets s) < 2 ^ 48" "ack_iter f = Ret rs"
  obtains new a' ps' where "ps_on_ack_rcvd C f a s = Ret (new, a', s\<lparr>ps_sent_packets := ps'\<rparr>)" "ok a'" "numbered ps'"
    "flying a' + flight_bytes (ps_sent_packets s) = flying a + flight_bytes ps'"
    "ctl_congestion_window C a' + open_bytes ps' \<le> ctl_congestion_window C a + open_bytes (ps_sent_packets s)"
    "flying_numbers ps' = {x \<in> flying_numbers (ps_sent_packets s). \<not> covered rs x}"
    "{p \<in> set ps'. sp_state p = Inflight} \<subseteq> set (ps_sent_packets s)" "sp_packet_number ` set ps' \<subseteq> sp_packet_number ` set (ps_sent_packets s)"
    "ps' = dropWhile (\<lambda>p. sp_state p \<noteq> Inflight) (mark_acked (covered rs) (ps_sent_packets s))" "new = None \<longleftrightarrow> newly_acked (covered rs) (ps_sent_packets s) = []"
proof (cases "ps_sent_packets s = []")
  case True
  have "s\<lparr>ps_sent_packets := []\<rparr> = s" using True by simp
  then show thesis using that [of None a "[]"] assms True by (simp add: ps_on_ack_rcvd_def flying_numbers_def bytes_simps numbered_def mark_acked_def newly_acked_def)
next
  case False
  let ?ps = "ps_sent_packets s" and ?drop = "dropWhile (\<lambda>p. sp_state p \<noteq> Inflight)"
  let ?new = "newly_acked (covered rs) ?ps" and ?mark = "mark_acked (covered rs) ?ps"
  have "flight_bytes (rev ?new) \<le> flying a" "ctl_congestion_window C a + bytes_of (rev ?new) < 2 ^ 48"
    using assms(3,4) flight_bytes_mark [of ?ps "covered rs"] open_bytes_mark [of ?ps "covered rs"] by simp_all
  from acked_fold [OF assms(1) this] obtain a' where
    a': "fold_run (ctl_on_packet_acked C) (rev ?new) a = Ret a'" "ok a'" "flying a' + flight_bytes (rev ?new) = flying a" "ctl_congestion_window C a' \<le> ctl_congestion_window C a + bytes_of (rev ?new)" by blast
  have "ps_on_ack_rcvd C f a s = ack_reference C rs a s" using on_ack_rcvd_eq [OF assms(2), of C f a] False assms(5) by simp
  then obtain new where new: "ps_on_ack_rcvd C f a s = Ret (new, a', s\<lparr>ps_sent_packets := ?drop ?mark\<rparr>)" "new = None \<longleftrightarrow> ?new = []" using a'(1) by (simp add: ack_reference_def Let_def)
  show thesis
  proof (rule that [OF new(1) a'(2)])
    show "numbered (?drop ?mark)" by (rule numbered_dropWhile) (simp add: assms(2))
    show "flying a' + flight_bytes ?ps = flying a + flight_bytes (?drop ?mark)" using a'(3) flight_bytes_mark [of ?ps "covered rs"] by simp
    show "ctl_congestion_window C a' + open_bytes (?drop ?mark) \<le> ctl_congestion_window C a + open_bytes ?ps"
      using a'(4) open_bytes_mark [of ?ps "covered rs"] open_bytes_dropWhile [of "\<lambda>p. sp_state p \<noteq> Inflight" ?mark] by simp
    show "flying_numbers (?drop ?mark) = {x \<in> flying_numbers ?ps. \<not> covered rs x}" by (rule flying_numbers_mark [OF assms(2)])
    show "{p \<in> set (?drop ?mark). sp_state p = Inflight} \<subseteq> set ?ps"
      by (auto dest!: set_dropWhileD simp: mark_acked_def split: if_splits)
    have "sp_packet_number ` set ?mark = sp_packet_number ` set ?ps" by (metis list.set_map mark_acked_number)
    then show "sp_packet_number ` set (?drop ?mark) \<subseteq> sp_packet_number ` set ?ps"
      by (auto dest!: set_dropWhileD)
    show "?drop ?mark = ?drop ?mark" "new = None \<longleftrightarrow> ?new = []" using new(2) by simp_all
  qed
qed

lemma detect_law:
  assumes "ok a" "numbered (ps_sent_packets s)" "flight_bytes (ps_sent_packets s) \<le> flying a"
  obtains pns a' ps' t where "detect_lost_packets C now d threshold a s = Ret (pns, a', s\<lparr>ps_loss_time := t, ps_sent_packets := ps'\<rparr>)" "ok a'" "numbered ps'"
    "flying a' + flight_bytes (ps_sent_packets s) = flying a + flight_bytes ps'"
    "ctl_congestion_window C a' + open_bytes ps' \<le> ctl_congestion_window C a + open_bytes (ps_sent_packets s)"
    "set pns \<subseteq> flying_numbers (ps_sent_packets s)" "flying_numbers ps' = flying_numbers (ps_sent_packets s) - set pns"
    "{p \<in> set ps'. sp_state p = Inflight} \<subseteq> set (ps_sent_packets s)" "distinct pns" "sp_packet_number ` set ps' = sp_packet_number ` set (ps_sent_packets s)"
    "\<forall>p \<in> set (ps_sent_packets s). is_lost now d threshold (case ps_largest_acked_packet s of None \<Rightarrow> 0 | Some n \<Rightarrow> n) (ps_sent_packets s) p \<longrightarrow> sp_packet_number p \<in> set pns"
proof -
  define ps where "ps = ps_sent_packets s"
  define lost where "lost = is_lost now d threshold (case ps_largest_acked_packet s of None \<Rightarrow> 0 | Some n \<Rightarrow> n) ps"
  define ps' where "ps' = map (\<lambda>p. if lost p then retransmitted p else p) ps"
  have infl: "lost p \<Longrightarrow> sp_state p = Inflight" for p by (simp add: lost_def is_lost_def)
  have le: "counted_bytes (map retransmitted (filter lost ps)) \<le> flying a" using flight_bytes_lost [OF infl, where ps = ps] assms(3) by (simp add: ps_def)
  have "\<exists>a'. (if filter lost ps = [] then Ret a else ctl_on_packets_lost C now (map retransmitted (filter lost ps)) (consecutive_lost lost ps) a) = Ret a' \<and> ok a' \<and>
    flying a' + counted_bytes (map retransmitted (filter lost ps)) = flying a \<and> ctl_congestion_window C a' \<le> ctl_congestion_window C a"
    using lost_law [OF assms(1) le] assms(1) le by (fastforce simp: bytes_simps)
  then obtain a' where a': "(if filter lost ps = [] then Ret a else ctl_on_packets_lost C now (map retransmitted (filter lost ps)) (consecutive_lost lost ps) a) = Ret a'" "ok a'"
    "flying a' + counted_bytes (map retransmitted (filter lost ps)) = flying a" "ctl_congestion_window C a' \<le> ctl_congestion_window C a" by blast
  obtain t where det: "detect_lost_packets C now d threshold a s = Ret (map sp_packet_number (filter lost ps), a', s\<lparr>ps_loss_time := t, ps_sent_packets := ps'\<rparr>)"
    unfolding detect_lost_eq [OF assms(2)] loss_reference_def Let_def ps_def [symmetric] lost_def [symmetric] ps'_def [symmetric] a'(1) by simp
  show thesis
  proof (rule that [OF det a'(2)])
    show "numbered ps'" using assms(2) by (simp add: ps'_def ps_def)
    show "flying a' + flight_bytes (ps_sent_packets s) = flying a + flight_bytes ps'" using a'(3) flight_bytes_lost [OF infl, where ps = ps] by (simp add: ps_def ps'_def)
    show "ctl_congestion_window C a' + open_bytes ps' \<le> ctl_congestion_window C a + open_bytes (ps_sent_packets s)"
      using a'(4) open_bytes_lost [OF infl, where ps = ps] by (simp add: ps_def ps'_def)
    show "set (map sp_packet_number (filter lost ps)) \<subseteq> flying_numbers (ps_sent_packets s)" using infl by (auto simp: flying_numbers_def ps_def)
    show "flying_numbers ps' = flying_numbers (ps_sent_packets s) - set (map sp_packet_number (filter lost ps))"
      using flying_numbers_lost [OF assms(2), of lost] by (simp add: ps'_def ps_def)
    show "{p \<in> set ps'. sp_state p = Inflight} \<subseteq> set (ps_sent_packets s)" by (auto simp: ps'_def ps_def retransmitted_def split: if_splits)
    have "distinct (map sp_packet_number ps)" using assms(2) unfolding numbered_iff_map ps_def by (simp add: strict_sorted_iff)
    then show "distinct (map sp_packet_number (filter lost ps))" by (simp add: distinct_map_filter)
    have "map sp_packet_number ps' = map sp_packet_number ps" by (simp add: ps'_def retransmitted_def)
    then show "sp_packet_number ` set ps' = sp_packet_number ` set (ps_sent_packets s)" unfolding ps_def by (metis list.set_map)
    show "\<forall>p \<in> set (ps_sent_packets s). is_lost now d threshold (case ps_largest_acked_packet s of None \<Rightarrow> 0 | Some n \<Rightarrow> n) (ps_sent_packets s) p \<longrightarrow> sp_packet_number p \<in> set (map sp_packet_number (filter lost ps))"
      by (simp add: lost_def ps_def)
  qed
qed

lemma discard_law:
  assumes "ok a" "flight_bytes (ps_sent_packets s) \<le> flying a"
  obtains a' where "ps_discard C a s = Ret (a', s\<lparr>ps_sent_packets := [], ps_time_of_last_ack_eliciting_packet := None, ps_loss_time := None\<rparr>)" "ok a'"
    "flying a' + flight_bytes (ps_sent_packets s) = flying a" "ctl_congestion_window C a' = ctl_congestion_window C a"
proof -
  let ?ps = "filter (\<lambda>p. sp_state p = Inflight) (ps_sent_packets s)"
  have eq: "flight_bytes ?ps = flight_bytes (ps_sent_packets s)" by (simp add: flight_bytes_def)
  from remove_law [OF assms(1), of ?ps] obtain a' where "ctl_remove_from_bytes_in_flight C ?ps a = Ret a'" "ok a'" "flying a' = flying a - flight_bytes ?ps" "ctl_congestion_window C a' = ctl_congestion_window C a"
    using assms(2) eq by auto
  then show thesis using assms(2) eq that [of a'] by (simp add: ps_discard_def)
qed

end

end
