(* ===== verification/New_Reno.thy ===== *)
theory New_Reno
  imports Control_Law
begin

section \<open>The congestion control algorithm: qcongestion/src/algorithm/new\_reno.rs\<close>

text \<open>
  New Reno as the path uses it behind the \<open>Control\<close> trait: the bytes in flight, the congestion window and the recovery period. The maximum datagram size is an atomic that nothing in the
  repository writes after the path was made. The events for the log are left out.
\<close>

definition INFINITRE_SSTHRESH :: nat where
  "INFINITRE_SSTHRESH = u64_bound - 1"

record new_reno =
  nr_max_datagram_size :: nat
  nr_ecn_ce_counters :: "epoch \<Rightarrow> nat"
  nr_bytes_in_flight :: nat
  nr_congestion_window :: nat
  nr_congestion_recovery_start_time :: "instant option"
  nr_ssthresh :: nat

text \<open>The products in \<open>new\<close> are products of \<open>u16\<close>.\<close>

definition mul16 :: "nat \<Rightarrow> nat \<Rightarrow> nat run" where
  "mul16 a b = (if a * b < 2 ^ 16 then Ret (a * b) else Panic)"

definition new_reno_new :: "nat \<Rightarrow> new_reno run" where
  "new_reno_new mtu =
     bind_run (mul16 mtu 10) (\<lambda>a. bind_run (mul16 mtu 2) (\<lambda>b.
       let initial_window = min a (max b 14600)
       in Ret \<lparr>nr_max_datagram_size = mtu, nr_ecn_ce_counters = (\<lambda>_. 0), nr_bytes_in_flight = 0, nr_congestion_window = initial_window,
               nr_congestion_recovery_start_time = None, nr_ssthresh = INFINITRE_SSTHRESH\<rparr>))"

definition on_packet_sent_cc :: "nat \<Rightarrow> new_reno \<Rightarrow> new_reno run" where
  "on_packet_sent_cc sent_bytes r =
     bind_run (add64 (nr_bytes_in_flight r) sent_bytes) (\<lambda>b. Ret (r\<lparr>nr_bytes_in_flight := b\<rparr>))"

definition in_congestion_recovery :: "instant \<Rightarrow> new_reno \<Rightarrow> bool" where
  "in_congestion_recovery sent_time r =
     (case nr_congestion_recovery_start_time r of None \<Rightarrow> False | Some recovery_start_time \<Rightarrow> sent_time \<le> recovery_start_time)"

text \<open>Integer division panics when the divisor is zero.\<close>

definition div64 :: "nat \<Rightarrow> nat \<Rightarrow> nat run" where
  "div64 a b = (if b = 0 then Panic else Ret (a div b))"

definition nr_on_packet_acked :: "sent_packet \<Rightarrow> new_reno \<Rightarrow> new_reno run" where
  "nr_on_packet_acked p r =
     (if \<not> sp_count_for_cc p then Ret r
      else let r = (if sp_state p = Inflight then r\<lparr>nr_bytes_in_flight := nr_bytes_in_flight r - sp_sent_bytes p\<rparr> else r)
           in if in_congestion_recovery (sp_time_sent p) r then Ret r
              else if nr_congestion_window r < nr_ssthresh r
              then bind_run (add64 (nr_congestion_window r) (sp_sent_bytes p)) (\<lambda>w. Ret (r\<lparr>nr_congestion_window := w\<rparr>))
              else bind_run (mul64 (nr_max_datagram_size r) (sp_sent_bytes p)) (\<lambda>m.
                   bind_run (div64 m (nr_congestion_window r)) (\<lambda>q.
                   bind_run (add64 (nr_congestion_window r) q) (\<lambda>w. Ret (r\<lparr>nr_congestion_window := w\<rparr>)))))"

definition on_congestion_event :: "instant \<Rightarrow> instant \<Rightarrow> new_reno \<Rightarrow> new_reno run" where
  "on_congestion_event now sent_time r =
     (if in_congestion_recovery sent_time r then Ret r
      else bind_run (sub64 (nr_congestion_window r) (nr_max_datagram_size r)) (\<lambda>ssthresh.
           Ret (r\<lparr>nr_congestion_recovery_start_time := Some now, nr_ssthresh := ssthresh,
                  nr_congestion_window := max ssthresh (2 * nr_max_datagram_size r)\<rparr>)))"

definition nr_process_ecn :: "instant \<Rightarrow> ack_frame \<Rightarrow> instant \<Rightarrow> epoch \<Rightarrow> new_reno \<Rightarrow> new_reno run" where
  "nr_process_ecn now ack sent_time epoch r =
     (case ack_ecn ack of
        None \<Rightarrow> Ret r
      | Some ecn \<Rightarrow>
          if nr_ecn_ce_counters r epoch < into_inner (ecn_ce ecn)
          then on_congestion_event now sent_time (r\<lparr>nr_ecn_ce_counters := (nr_ecn_ce_counters r)(epoch := into_inner (ecn_ce ecn))\<rparr>)
          else Ret r)"

text \<open>The loop over the lost packets: the bytes in flight that remain, and when the last lost packet was sent.\<close>

fun lost_loop :: "sent_packet list \<Rightarrow> nat \<Rightarrow> instant option \<Rightarrow> nat \<times> instant option" where
  "lost_loop [] bytes_in_flight last_loss = (bytes_in_flight, last_loss)"
| "lost_loop (p # ps) bytes_in_flight last_loss =
     (if sp_count_for_cc p
      then lost_loop ps (bytes_in_flight - sp_sent_bytes p)
             (case last_loss of None \<Rightarrow> Some (sp_time_sent p) | Some t \<Rightarrow> Some (max t (sp_time_sent p)))
      else lost_loop ps bytes_in_flight last_loss)"

definition nr_on_packets_lost :: "instant \<Rightarrow> sent_packet list \<Rightarrow> bool \<Rightarrow> new_reno \<Rightarrow> new_reno run" where
  "nr_on_packets_lost now lost_packets persistent_lost r =
     (case lost_loop lost_packets (nr_bytes_in_flight r) None of (b, sent_time_last_loss) \<Rightarrow>
        let r = r\<lparr>nr_bytes_in_flight := b\<rparr>
        in bind_run (case sent_time_last_loss of None \<Rightarrow> Ret r | Some time \<Rightarrow> on_congestion_event now time r) (\<lambda>r.
             Ret (if persistent_lost
                  then let ssthresh = nr_congestion_window r div 2
                       in r\<lparr>nr_ssthresh := ssthresh, nr_congestion_window := max ssthresh (2 * nr_max_datagram_size r),
                            nr_congestion_recovery_start_time := None\<rparr>
                  else r)))"

fun nr_remove_from_bytes_in_flight :: "sent_packet list \<Rightarrow> new_reno \<Rightarrow> new_reno run" where
  "nr_remove_from_bytes_in_flight [] r = Ret r"
| "nr_remove_from_bytes_in_flight (p # ps) r =
     bind_run (if sp_count_for_cc p \<and> sp_state p \<noteq> Retransmitted
               then bind_run (sub64 (nr_bytes_in_flight r) (sp_sent_bytes p)) (\<lambda>b. Ret (r\<lparr>nr_bytes_in_flight := b\<rparr>))
               else Ret r) (nr_remove_from_bytes_in_flight ps)"

text \<open>\<open>impl Control for NewReno\<close>.\<close>

definition new_reno_control :: "new_reno control" where
  "new_reno_control =
     \<lparr>ctl_on_packet_sent_cc = (\<lambda>p. on_packet_sent_cc (sp_sent_bytes p)),
      ctl_on_packet_acked = nr_on_packet_acked,
      ctl_on_packets_lost = nr_on_packets_lost,
      ctl_process_ecn = nr_process_ecn,
      ctl_congestion_window = nr_congestion_window,
      ctl_pacing_rate = (\<lambda>_. None),
      ctl_remove_from_bytes_in_flight = nr_remove_from_bytes_in_flight\<rparr>"

subsection \<open>The contract\<close>

text \<open>The window never falls below two datagrams, so that \<open>on_congestion_event\<close> can subtract one and \<open>on_packet_acked\<close> can divide.\<close>

definition nr_ok :: "new_reno \<Rightarrow> bool" where
  "nr_ok r \<longleftrightarrow> 0 < nr_max_datagram_size r \<and> nr_max_datagram_size r < 2 ^ 16 \<and> 2 * nr_max_datagram_size r \<le> nr_congestion_window r"

lemma new_reno_new_ok:
  assumes "0 < mtu" "mtu * 10 < 2 ^ 16"
  obtains r where "new_reno_new mtu = Ret r" "nr_ok r" "nr_bytes_in_flight r = 0" "nr_max_datagram_size r = mtu" "nr_congestion_window r < 2 ^ 16"
  using assms that by (simp add: new_reno_new_def mul16_def nr_ok_def Let_def)

lemma congestion_event_ok:
  assumes "nr_ok r"
  shows "\<exists>r'. on_congestion_event now t r = Ret r' \<and> nr_ok r' \<and> nr_bytes_in_flight r' = nr_bytes_in_flight r \<and> nr_congestion_window r' \<le> nr_congestion_window r"
proof (cases "in_congestion_recovery t r")
  case False
  then show ?thesis using assms by (simp add: on_congestion_event_def nr_ok_def sub64_def)
qed (use assms in \<open>simp add: on_congestion_event_def\<close>)

lemma lost_loop_bytes: "fst (lost_loop ps b t) = b - counted_bytes ps"
  by (induction ps arbitrary: b t) (auto simp: bytes_simps)

lemma avoidance_step:
  assumes "2 * mtu \<le> (w :: nat)" "0 < mtu"
  shows "mtu * b div w \<le> b"
proof -
  have "mtu * b div w \<le> w * b div w" using assms by (intro div_le_mono mult_le_mono1) simp
  then show ?thesis using assms by simp
qed

lemma nr_acked_ok:
  assumes "nr_ok r" "nr_congestion_window r + sp_sent_bytes p < 2 ^ 48"
  shows "\<exists>r'. nr_on_packet_acked p r = Ret r' \<and> nr_ok r' \<and> nr_bytes_in_flight r' = nr_bytes_in_flight r - flight_bytes [p] \<and>
    nr_congestion_window r' \<le> nr_congestion_window r + sp_sent_bytes p"
proof -
  let ?mtu = "nr_max_datagram_size r" and ?w = "nr_congestion_window r" and ?b = "sp_sent_bytes p"
  have w: "0 < ?mtu" "2 * ?mtu \<le> ?w" "?mtu < 2 ^ 16" using assms(1) by (simp_all add: nr_ok_def)
  have "?mtu * ?b < 2 ^ 16 * 2 ^ 48" using w(3) assms(2) by (intro mult_strict_mono) auto
  then have m: "mul64 ?mtu ?b = Ret (?mtu * ?b)" by (simp add: mul64_def)
  have q: "?mtu * ?b div ?w \<le> ?b" by (rule avoidance_step [OF w(2,1)])
  have a: "add64 ?w (?mtu * ?b div ?w) = Ret (?w + ?mtu * ?b div ?w)" "add64 ?w ?b = Ret (?w + ?b)" using q assms(2) by (simp_all add: add64_def)
  have "div64 (?mtu * ?b) ?w = Ret (?mtu * ?b div ?w)" using w by (simp add: div64_def)
  then show ?thesis using w q m a by (auto simp: nr_on_packet_acked_def Let_def nr_ok_def bytes_simps)
qed

lemma nr_lost_ok:
  assumes "nr_ok r"
  shows "\<exists>r'. nr_on_packets_lost now ps persistent r = Ret r' \<and> nr_ok r' \<and> nr_bytes_in_flight r' = nr_bytes_in_flight r - counted_bytes ps \<and>
    nr_congestion_window r' \<le> nr_congestion_window r"
proof -
  obtain b t where l: "lost_loop ps (nr_bytes_in_flight r) None = (b, t)" by fastforce
  have b: "b = nr_bytes_in_flight r - counted_bytes ps" using lost_loop_bytes [of ps "nr_bytes_in_flight r" None] l by simp
  let ?r = "r\<lparr>nr_bytes_in_flight := b\<rparr>"
  have ok: "nr_ok ?r" using assms by (simp add: nr_ok_def)
  have "\<exists>r1. (case t of None \<Rightarrow> Ret ?r | Some time \<Rightarrow> on_congestion_event now time ?r) = Ret r1 \<and> nr_ok r1 \<and> nr_bytes_in_flight r1 = b \<and> nr_congestion_window r1 \<le> nr_congestion_window r"
    using ok congestion_event_ok [OF ok, of now] by (cases t) simp_all
  then obtain r1 where r1: "(case t of None \<Rightarrow> Ret ?r | Some time \<Rightarrow> on_congestion_event now time ?r) = Ret r1" "nr_ok r1" "nr_bytes_in_flight r1 = b" "nr_congestion_window r1 \<le> nr_congestion_window r"
    by blast
  then show ?thesis using l b by (auto simp: nr_on_packets_lost_def Let_def nr_ok_def)
qed

lemma nr_ecn_ok:
  assumes "nr_ok r"
  shows "\<exists>r'. nr_process_ecn now f t e r = Ret r' \<and> nr_ok r' \<and> nr_bytes_in_flight r' = nr_bytes_in_flight r \<and> nr_congestion_window r' \<le> nr_congestion_window r"
proof -
  have "nr_ok (r\<lparr>nr_ecn_ce_counters := cs\<rparr>)" for cs using assms by (simp add: nr_ok_def)
  then have "\<exists>r'. on_congestion_event now t (r\<lparr>nr_ecn_ce_counters := cs\<rparr>) = Ret r' \<and> nr_ok r' \<and> nr_bytes_in_flight r' = nr_bytes_in_flight r \<and> nr_congestion_window r' \<le> nr_congestion_window r" for cs
    using congestion_event_ok [of "r\<lparr>nr_ecn_ce_counters := cs\<rparr>" now t] by simp
  then show ?thesis using assms by (auto simp: nr_process_ecn_def split: option.split)
qed

lemma nr_remove_ok:
  "nr_ok r \<Longrightarrow> \<forall>p \<in> set ps. sp_state p = Inflight \<Longrightarrow> flight_bytes ps \<le> nr_bytes_in_flight r \<Longrightarrow>
   \<exists>r'. nr_remove_from_bytes_in_flight ps r = Ret r' \<and> nr_ok r' \<and> nr_bytes_in_flight r' = nr_bytes_in_flight r - flight_bytes ps \<and> nr_congestion_window r' = nr_congestion_window r"
proof (induction ps arbitrary: r)
  case (Cons p ps)
  show ?case
  proof (cases "sp_count_for_cc p")
    case True
    let ?r = "r\<lparr>nr_bytes_in_flight := nr_bytes_in_flight r - sp_sent_bytes p\<rparr>"
    have "nr_ok ?r" "flight_bytes ps \<le> nr_bytes_in_flight ?r" using Cons.prems True by (simp_all add: nr_ok_def bytes_simps)
    from Cons.IH [OF this(1) _ this(2)] show ?thesis using Cons.prems True by (auto simp: bytes_simps sub64_def)
  next
    case False
    then show ?thesis using Cons.IH [OF Cons.prems(1)] Cons.prems by (auto simp: bytes_simps)
  qed
qed (simp add: bytes_simps)

lemma on_packet_sent_cc_ok:
  "nr_ok r \<Longrightarrow> nr_bytes_in_flight r + b < 2 ^ 48 \<Longrightarrow> on_packet_sent_cc b r = Ret (r\<lparr>nr_bytes_in_flight := nr_bytes_in_flight r + b\<rparr>)"
  by (simp add: on_packet_sent_cc_def add64_def)

interpretation reno: congestion_algorithm new_reno_control nr_ok nr_bytes_in_flight
proof (unfold_locales, goal_cases)
  case (1 a p)
  then show ?case by (simp add: new_reno_control_def on_packet_sent_cc_ok) (simp add: nr_ok_def)
next
  case (2 a p)
  then show ?case using nr_acked_ok [of a p] by (simp add: new_reno_control_def)
next
  case (3 a ps now persistent)
  then show ?case using nr_lost_ok [of a now ps persistent] by (simp add: new_reno_control_def)
next
  case (4 a now f t e)
  then show ?case using nr_ecn_ok [of a now f t e] by (simp add: new_reno_control_def)
next
  case (5 a ps)
  then show ?case using nr_remove_ok [of a ps] by (simp add: new_reno_control_def)
qed

subsection \<open>The two scans of a packet space\<close>

text \<open>A space with three packets of 1200 bytes in flight, the first one sent early, and a New Reno controller that counts them.\<close>

definition sample_packets :: "sent_packet list" where
  "sample_packets = [sent_packet_new 0 10 True True 1200, sent_packet_new 1 50 True True 1200, sent_packet_new 3 60 False True 1200]"

definition sample_space :: "nat option \<Rightarrow> packet_space" where
  "sample_space la = (with_epoch EpData 0)\<lparr>ps_sent_packets := sample_packets, ps_largest_acked_packet := la\<rparr>"

definition sample_reno :: new_reno where
  "sample_reno = \<lparr>nr_max_datagram_size = 1200, nr_ecn_ce_counters = (\<lambda>_. 0), nr_bytes_in_flight = 3600, nr_congestion_window = 12000,
     nr_congestion_recovery_start_time = None, nr_ssthresh = INFINITRE_SSTHRESH\<rparr>"

definition sample_ack :: ack_frame where
  "sample_ack = \<lparr>ack_largest = VarInt 3, ack_delay = VarInt 0, ack_first_range = VarInt 2, ack_ranges = [], ack_ecn = None\<rparr>"

lemma sample_numbered: "numbered (ps_sent_packets (sample_space la))"
  by (simp add: sample_space_def sample_packets_def numbered_def sent_packet_new_def)

text \<open>
  C26: The scan of the acknowledged numbers with a moving index does what its specification says. For a space whose packets stand in the order of their numbers and any ACK frame, \<open>on_ack_rcvd\<close> equals the reference,
  panics included: it never leaves the deque, hands each sent packet with an acknowledged number that was not acknowledged before to the algorithm exactly once, from the highest number down, marks these packets,
  reports the largest of them and whether one was ack-eliciting, and forgets the packets at the front that are settled.
\<close>

theorem ack_scan_reference:
  assumes "numbered (ps_sent_packets s)"
  shows "ps_on_ack_rcvd C f a s = (if ps_sent_packets s = [] then Ret (None, a, s) else bind_run (ack_iter f) (\<lambda>rs. ack_reference C rs a s))"
  using assms by (rule on_ack_rcvd_eq)

theorem ack_scan_reference_witness:
  "\<exists>a s. ps_on_ack_rcvd new_reno_control sample_ack sample_reno (sample_space None) = Ret (Some \<lparr>na_include_ack_eliciting = True, na_largest = (3, 60)\<rparr>, a, s) \<and>
     nr_congestion_window a = 14400 \<and> nr_bytes_in_flight a = 1200 \<and> map sp_state (ps_sent_packets s) = [Inflight, Acked, Acked]"
  unfolding ack_scan_reference [OF sample_numbered]
  by (simp add: sample_ack_def ack_iter_def sub64_def Let_def ack_reference_def newly_acked_def mark_acked_def covered_def sample_space_def sample_packets_def sent_packet_new_def
      new_reno_control_def nr_on_packet_acked_def in_congestion_recovery_def sample_reno_def INFINITRE_SSTHRESH_def add64_def)

text \<open>
  C27: Loss detection does what its specification says. On a space whose packets stand in the order of their numbers the lazy chain of iterators and folds equals the reference: lost are exactly the packets in flight, up to the
  largest acknowledged number, that were sent more than the loss delay ago or that at least the threshold of later packets, up to the largest acknowledged number, leave behind; they are marked, handed to the algorithm together and
  returned in order; the flag says whether three neighbours are among them; and the loss time becomes the earliest moment at which one of the others will count as lost, or none.
\<close>

theorem loss_detection_reference:
  assumes "numbered (ps_sent_packets s)"
  shows "detect_lost_packets C now d threshold a s = loss_reference C now d threshold a s"
  using assms by (rule detect_lost_eq)

theorem loss_detection_reference_witness:
  "\<exists>a s. detect_lost_packets new_reno_control 100 60 3 sample_reno (sample_space (Some 1)) = Ret ([0], a, s) \<and> ps_loss_time s = Some 110 \<and>
     nr_congestion_window a = 10800 \<and> nr_bytes_in_flight a = 2400 \<and> map sp_state (ps_sent_packets s) = [Retransmitted, Inflight, Inflight]"
  unfolding loss_detection_reference [OF sample_numbered]
  by (simp add: loss_reference_def Let_def is_lost_def sent_after_def retransmitted_def consecutive_lost_def sample_space_def sample_packets_def sent_packet_new_def
      new_reno_control_def nr_on_packets_lost_def in_congestion_recovery_def on_congestion_event_def sample_reno_def sub64_def)

end
