(* ===== verification/Ieee_Float.thy ===== *)
theory Ieee_Float
  imports Complex_Main Sent_Journal
begin

section \<open>Durations scaled by floating point numbers\<close>

text \<open>
  The round trip estimator scales durations with \<open>Duration::mul_f32\<close> and the pacer computes in \<open>f64\<close>. All values are nonnegative, far below the largest and far above the smallest
  float, so an operation is the exact one on rationals, rounded to 24 or 53 significant bits, ties to even. A duration is a number of nanoseconds.
\<close>

fun bit_length :: "nat \<Rightarrow> nat" where
  "bit_length n = (if n = 0 then 0 else Suc (bit_length (n div 2)))"

declare bit_length.simps [simp del]

definition pow2 :: "int \<Rightarrow> rat" where
  "pow2 e = 2 powi e"

definition exponent :: "rat \<Rightarrow> int" where
  "exponent x =
     (case quotient_of x of (n, d) \<Rightarrow>
        let k = int (bit_length (nat n)) - int (bit_length (nat d))
        in if pow2 k \<le> x then k else k - 1)"

definition round_even :: "rat \<Rightarrow> int" where
  "round_even x =
     (let f = \<lfloor>x\<rfloor>; r = x - of_int f
      in if r < 1 / 2 \<or> (r = 1 / 2 \<and> even f) then f else f + 1)"

definition ieee_round :: "nat \<Rightarrow> rat \<Rightarrow> rat" where
  "ieee_round p x =
     (if x = 0 then 0
      else let e = exponent x - (int p - 1) in of_int (round_even (x / pow2 e)) * pow2 e)"

definition NANOS :: nat where
  "NANOS = 10 ^ 9"

text \<open>\<open>as_secs_f32\<close> and \<open>as_secs_f64\<close> for 24 and 53 bits.\<close>

definition as_secs :: "nat \<Rightarrow> duration \<Rightarrow> rat" where
  "as_secs p d = ieee_round p (ieee_round p (of_nat (d div NANOS)) + ieee_round p (ieee_round p (of_nat (d mod NANOS)) / of_nat NANOS))"

definition from_secs :: "rat \<Rightarrow> duration run" where
  "from_secs x = (if x < 2 ^ 64 then Ret (nat (round_even (x * of_nat NANOS))) else Panic)"

definition mul_f32 :: "duration \<Rightarrow> rat \<Rightarrow> duration run" where
  "mul_f32 d k = from_secs (ieee_round 24 (k * as_secs 24 d))"

text \<open>\<open>Duration + Duration\<close> and \<open>Duration * u32\<close>.\<close>

definition dur_checked :: "nat \<Rightarrow> duration run" where
  "dur_checked d = (if d < 2 ^ 64 * NANOS then Ret d else Panic)"

subsection \<open>The rounding error\<close>

lemma pow2_pos [simp]: "0 < pow2 e"
  by (simp add: pow2_def)

lemma pow2_neq [simp]: "pow2 e \<noteq> 0"
  using pow2_pos [of e] by linarith

lemma pow2_diff: "pow2 (a - b) = pow2 a / pow2 b"
  by (simp add: pow2_def power_int_diff)

lemma pow2_nat: "pow2 (int n) = 2 ^ n"
  by (simp add: pow2_def)

lemma round_even_error: "\<bar>of_int (round_even x) - x\<bar> \<le> 1 / 2"
proof -
  have "of_int \<lfloor>x\<rfloor> \<le> x" "x < of_int \<lfloor>x\<rfloor> + 1" by linarith+
  then show ?thesis by (auto simp: round_even_def Let_def)
qed

lemma bit_length_bounds: "0 < n \<Longrightarrow> 2 ^ (bit_length n - 1) \<le> n \<and> n < 2 ^ bit_length n \<and> 0 < bit_length n"
proof (induction n rule: bit_length.induct)
  case (1 n)
  show ?case
  proof (cases "n = 1")
    case True
    then show ?thesis by (simp add: bit_length.simps)
  next
    case False
    then have n: "0 < n div 2" using 1(2) by simp
    have l: "bit_length n = Suc (bit_length (n div 2))" using 1(2) by (subst bit_length.simps) simp
    have ih: "2 ^ (bit_length (n div 2) - 1) \<le> n div 2" "n div 2 < 2 ^ bit_length (n div 2)" "0 < bit_length (n div 2)" using 1(1) 1(2) n by auto
    have "(2::nat) ^ bit_length (n div 2) = 2 * 2 ^ (bit_length (n div 2) - 1)" using ih(3) by (cases "bit_length (n div 2)") simp_all
    moreover have "2 * (n div 2) \<le> n" "n < 2 * (n div 2) + 2" by simp_all
    ultimately have "2 ^ bit_length (n div 2) \<le> n" "n < 2 * 2 ^ bit_length (n div 2)" using ih(1,2) by linarith+
    then show ?thesis unfolding l by simp
  qed
qed

lemma exponent_below:
  assumes "0 < x"
  shows "pow2 (exponent x) \<le> x"
proof -
  obtain n d where q: "quotient_of x = (n, d)" by fastforce
  have x: "x = of_int n / of_int d" "0 < d" using q quotient_of_div quotient_of_denom_pos by blast+
  then have n: "0 < n" using assms by (simp add: zero_less_divide_iff)
  define i j where "i = bit_length (nat n)" and "j = bit_length (nat d)"
  have i: "2 ^ (i - 1) \<le> nat n" "0 < i" using bit_length_bounds [of "nat n"] n by (auto simp: i_def)
  have j: "nat d < 2 ^ j" using bit_length_bounds [of "nat d"] x(2) by (auto simp: j_def)
  have "(of_nat (2 ^ (i - 1)) :: rat) \<le> of_nat (nat n)" using i(1) by (simp only: of_nat_le_iff)
  then have nn: "(2 :: rat) ^ (i - 1) \<le> of_int n" using n by simp
  have "(of_nat (nat d) :: rat) \<le> of_nat (2 ^ j)" using j by (simp only: of_nat_le_iff)
  then have dd: "of_int d \<le> (2 :: rat) ^ j" using x(2) by simp
  have "pow2 (int i - int j - 1) = pow2 (int (i - 1)) / pow2 (int j)" using i(2) by (simp add: pow2_diff [symmetric] of_nat_diff algebra_simps)
  also have "\<dots> \<le> of_int n / of_int d" unfolding pow2_nat using nn dd x(2) n by (intro frac_le) auto
  finally show ?thesis using q x(1) by (simp add: exponent_def Let_def i_def j_def)
qed

lemma ieee_round_error:
  assumes "0 \<le> x"
  shows "\<bar>ieee_round p x - x\<bar> \<le> x / 2 ^ p"
proof (cases "x = 0")
  case False
  then have x: "0 < x" using assms by simp
  define e where "e = exponent x - (int p - 1)"
  have "ieee_round p x - x = (of_int (round_even (x / pow2 e)) - x / pow2 e) * pow2 e"
    using False by (simp add: ieee_round_def e_def Let_def left_diff_distrib)
  then have "\<bar>ieee_round p x - x\<bar> = \<bar>of_int (round_even (x / pow2 e)) - x / pow2 e\<bar> * pow2 e" by (simp add: abs_mult abs_of_pos)
  also have "\<dots> \<le> 1 / 2 * pow2 e" by (intro mult_right_mono round_even_error) (simp add: less_imp_le)
  also have "\<dots> = pow2 (exponent x) / 2 ^ p"
  proof -
    have "pow2 e = pow2 (exponent x) / (pow2 (int p) / pow2 1)" by (simp add: e_def pow2_diff)
    moreover have "pow2 1 = 2" by (simp add: pow2_def)
    ultimately show ?thesis by (simp add: pow2_nat)
  qed
  also have "\<dots> \<le> x / 2 ^ p" using exponent_below [OF x] by (simp add: divide_right_mono)
  finally show ?thesis .
qed (simp add: ieee_round_def)

lemma ieee_round_lower: "0 \<le> x \<Longrightarrow> x * (1 - 1 / 2 ^ p) \<le> ieee_round p x"
  using ieee_round_error [of x p] by (simp add: algebra_simps abs_le_iff)

lemma ieee_round_nonneg: "0 \<le> x \<Longrightarrow> 0 \<le> ieee_round p x"
proof -
  assume x: "0 \<le> x"
  have "0 \<le> x * (1 - 1 / 2 ^ p)" using x by simp
  then show ?thesis using ieee_round_lower [OF x, of p] by linarith
qed

text \<open>Scaling by more than one, at the precision of \<open>f32\<close>, does not make a duration shorter.\<close>

lemma as_secs_lower: "of_nat d / of_nat NANOS * (1 - 1 / 2 ^ 24) ^ 3 \<le> as_secs 24 d"
proof -
  define u :: rat where "u = 1 - 1 / 2 ^ 24"
  have u: "0 \<le> u" "u \<le> 1" by (simp_all add: u_def)
  note lower = ieee_round_lower [where p = 24, folded u_def]
  define s n where "s = (of_nat (d div NANOS) :: rat)" and "n = (of_nat (d mod NANOS) :: rat)"
  have N: "0 < (of_nat NANOS :: rat)" by (simp add: NANOS_def)
  have "(of_nat d :: rat) = of_nat (d div NANOS) * of_nat NANOS + of_nat (d mod NANOS)" by (metis div_mult_mod_eq of_nat_add of_nat_mult)
  then have d: "of_nat d / of_nat NANOS = s + n / of_nat NANOS" using N by (simp add: s_def n_def field_simps)
  have pos: "0 \<le> s" "0 \<le> n" "0 \<le> n / of_nat NANOS" using N by (simp_all add: s_def n_def)
  have a: "s * u \<le> ieee_round 24 s" by (rule lower [OF pos(1)])
  have "n / of_nat NANOS * u \<le> ieee_round 24 n / of_nat NANOS" using lower [OF pos(2)] N divide_right_mono [of "n * u" "ieee_round 24 n" "of_nat NANOS"] by simp
  moreover have nn: "0 \<le> ieee_round 24 n / of_nat NANOS" using ieee_round_nonneg [OF pos(2)] N by simp
  ultimately have "n / of_nat NANOS * u * u \<le> ieee_round 24 n / of_nat NANOS * u" using u(1) by (intro mult_right_mono)
  also have "\<dots> \<le> ieee_round 24 (ieee_round 24 n / of_nat NANOS)" by (rule lower [OF nn])
  finally have b: "n / of_nat NANOS * u ^ 2 \<le> ieee_round 24 (ieee_round 24 n / of_nat NANOS)" by (simp add: power2_eq_square)
  have "s * u ^ 2 \<le> s * u" using u pos(1) by (simp add: power2_eq_square mult_left_mono mult_left_le)
  then have sum: "of_nat d / of_nat NANOS * u ^ 2 \<le> ieee_round 24 s + ieee_round 24 (ieee_round 24 n / of_nat NANOS)"
    unfolding d distrib_right using a b by linarith
  then have "of_nat d / of_nat NANOS * u ^ 2 * u \<le> (ieee_round 24 s + ieee_round 24 (ieee_round 24 n / of_nat NANOS)) * u" using u(1) by (intro mult_right_mono)
  also have "\<dots> \<le> as_secs 24 d" unfolding as_secs_def s_def n_def by (rule lower) (simp add: ieee_round_nonneg)
  finally show ?thesis unfolding u_def [symmetric] by (simp add: power3_eq_cube power2_eq_square mult.assoc)
qed

lemma mul_f32_longer:
  assumes "mul_f32 d k = Ret d'" "9 / 8 \<le> k"
  shows "d \<le> d'"
proof -
  define u :: rat where "u = 1 - 1 / 2 ^ 24"
  have u: "0 \<le> u" "1 \<le> 9 / 8 * u ^ 4" by (simp_all add: u_def power4_eq_xxxx)
  define y where "y = ieee_round 24 (k * as_secs 24 d) * of_nat NANOS"
  have N: "0 < (of_nat NANOS :: rat)" by (simp add: NANOS_def)
  have pos: "0 \<le> of_nat d / of_nat NANOS * u ^ 3" using N u(1) by simp
  then have as: "0 \<le> as_secs 24 d" using as_secs_lower [of d, folded u_def] by linarith
  have "9 / 8 * (of_nat d / of_nat NANOS * u ^ 3) \<le> k * as_secs 24 d" using assms(2) as_secs_lower [of d, folded u_def] pos by (intro mult_mono) auto
  then have "9 / 8 * (of_nat d / of_nat NANOS * u ^ 3) * u \<le> k * as_secs 24 d * u" using u(1) by (rule mult_right_mono)
  also have "\<dots> \<le> ieee_round 24 (k * as_secs 24 d)" using as assms(2) unfolding u_def by (intro ieee_round_lower) simp
  finally have "9 / 8 * (of_nat d / of_nat NANOS * u ^ 3) * u * of_nat NANOS \<le> y" unfolding y_def using N by (intro mult_right_mono) simp_all
  then have "of_nat d * (9 / 8 * u ^ 4) \<le> y" using N by (simp add: field_simps power4_eq_xxxx power3_eq_cube)
  moreover have "of_nat d * 1 \<le> of_nat d * (9 / 8 * u ^ 4)" using u(2) by (intro mult_left_mono) simp_all
  ultimately have "of_nat d \<le> y" by simp
  then have "of_nat d - 1 / 2 \<le> (of_int (round_even y) :: rat)" using round_even_error [of y] by linarith
  then have "(of_int (int d) :: rat) < of_int (round_even y + 1)" by simp
  then have "int d \<le> round_even y" unfolding of_int_less_iff by simp
  then show ?thesis using assms(1) by (simp add: mul_f32_def from_secs_def y_def split: if_splits)
qed

lemma ieee_round_upper: "0 \<le> x \<Longrightarrow> ieee_round p x \<le> x * (1 + 1 / 2 ^ p)"
  using ieee_round_error [of x p] by (simp add: algebra_simps abs_le_iff)

lemma as_secs_upper: "as_secs 24 d \<le> of_nat d / of_nat NANOS * (1 + 1 / 2 ^ 24) ^ 3"
proof -
  define u :: rat where "u = 1 + 1 / 2 ^ 24"
  have u: "0 \<le> u" "1 \<le> u" by (simp_all add: u_def)
  note upper = ieee_round_upper [where p = 24, folded u_def]
  define s n where "s = (of_nat (d div NANOS) :: rat)" and "n = (of_nat (d mod NANOS) :: rat)"
  have N: "0 < (of_nat NANOS :: rat)" by (simp add: NANOS_def)
  have "(of_nat d :: rat) = of_nat (d div NANOS) * of_nat NANOS + of_nat (d mod NANOS)" by (metis div_mult_mod_eq of_nat_add of_nat_mult)
  then have d: "of_nat d / of_nat NANOS = s + n / of_nat NANOS" using N by (simp add: s_def n_def field_simps)
  have pos: "0 \<le> s" "0 \<le> n" using N by (simp_all add: s_def n_def)
  have nn: "0 \<le> ieee_round 24 n / of_nat NANOS" using ieee_round_nonneg [OF pos(2)] N by simp
  have "ieee_round 24 n / of_nat NANOS \<le> n / of_nat NANOS * u" using upper [OF pos(2)] N divide_right_mono [of "ieee_round 24 n" "n * u" "of_nat NANOS"] by simp
  then have "ieee_round 24 n / of_nat NANOS * u \<le> n / of_nat NANOS * u * u" using u(1) by (intro mult_right_mono)
  then have b: "ieee_round 24 (ieee_round 24 n / of_nat NANOS) \<le> n / of_nat NANOS * u ^ 2" using upper [OF nn] by (simp add: power2_eq_square mult.assoc)
  have "s * (u * 1) \<le> s * (u * u)" using u pos(1) by (intro mult_left_mono) auto
  then have "s * u \<le> s * u ^ 2" by (simp add: power2_eq_square)
  then have sum: "ieee_round 24 s + ieee_round 24 (ieee_round 24 n / of_nat NANOS) \<le> of_nat d / of_nat NANOS * u ^ 2"
    unfolding d distrib_right using upper [OF pos(1)] b by linarith
  have "as_secs 24 d \<le> (ieee_round 24 s + ieee_round 24 (ieee_round 24 n / of_nat NANOS)) * u"
    unfolding as_secs_def s_def n_def by (rule upper) (simp add: ieee_round_nonneg)
  also have "\<dots> \<le> of_nat d / of_nat NANOS * u ^ 2 * u" using sum u(1) by (intro mult_right_mono)
  finally show ?thesis unfolding u_def [symmetric] by (simp add: power3_eq_cube power2_eq_square mult.assoc)
qed

lemma mul_f32_bounded:
  assumes "0 \<le> k" "k \<le> 2" "d \<le> 2 ^ 60"
  obtains d' where "mul_f32 d k = Ret d'" "(of_nat d' :: rat) \<le> of_nat d * k * (1 + 1 / 2 ^ 20) + 1"
proof -
  define u :: rat where "u = 1 + 1 / 2 ^ 24"
  have u: "0 \<le> u" "u ^ 4 \<le> 1 + 1 / 2 ^ 20" by (simp_all add: u_def power4_eq_xxxx)
  define x where "x = ieee_round 24 (k * as_secs 24 d)"
  have N: "0 < (of_nat NANOS :: rat)" by (simp add: NANOS_def)
  have as: "0 \<le> as_secs 24 d" unfolding as_secs_def by (intro ieee_round_nonneg add_nonneg_nonneg divide_nonneg_nonneg) simp_all
  have pos: "0 \<le> k * as_secs 24 d" using as assms(1) by simp
  have dn: "0 \<le> of_nat d * k / of_nat NANOS" using assms(1) N by simp
  have "x \<le> k * as_secs 24 d * u" unfolding x_def u_def by (rule ieee_round_upper [OF pos])
  also have "\<dots> \<le> k * (of_nat d / of_nat NANOS * u ^ 3) * u"
    using as_secs_upper [of d, folded u_def] assms(1) u(1) by (intro mult_right_mono mult_left_mono)
  also have "\<dots> = of_nat d * k / of_nat NANOS * u ^ 4" by (simp add: power3_eq_cube power4_eq_xxxx)
  also have "\<dots> \<le> of_nat d * k / of_nat NANOS * (1 + 1 / 2 ^ 20)" using u(2) dn by (rule mult_left_mono)
  finally have le: "x \<le> of_nat d * k / of_nat NANOS * (1 + 1 / 2 ^ 20)" .
  then have y: "x * of_nat NANOS \<le> of_nat d * k * (1 + 1 / 2 ^ 20)" using N by (simp add: pos_le_divide_eq)
  have "(of_nat d :: rat) \<le> of_nat (2 ^ 60)" using assms(3) by (simp only: of_nat_le_iff)
  then have "of_nat d * k \<le> 2 ^ 60 * 2" using assms(1,2) by (intro mult_mono) simp_all
  then have "of_nat d * k * (1 + 1 / 2 ^ 20) \<le> 2 ^ 61 * (1 + 1 / 2 ^ 20)" by (intro mult_right_mono) simp_all
  from order_trans [OF y this] have "x * of_nat NANOS < 2 ^ 64" by (rule le_less_trans) simp
  moreover have "x \<le> x * of_nat NANOS" using ieee_round_nonneg [OF pos, of 24] by (simp add: x_def NANOS_def mult_le_cancel_left1)
  ultimately have fits: "x < 2 ^ 64" by linarith
  have r: "of_int (round_even (x * of_nat NANOS)) \<le> x * of_nat NANOS + 1 / 2" using round_even_error [of "x * of_nat NANOS"] by linarith
  have "of_nat (nat (round_even (x * of_nat NANOS))) \<le> of_nat d * k * (1 + 1 / 2 ^ 20) + 1"
  proof (cases "0 \<le> round_even (x * of_nat NANOS)")
    case True
    then have "(of_nat (nat (round_even (x * of_nat NANOS))) :: rat) = of_int (round_even (x * of_nat NANOS))" by simp
    then show ?thesis using r y by linarith
  next
    case False
    have "0 \<le> of_nat d * k * (1 + 1 / 2 ^ 20)" using assms(1) by simp
    then show ?thesis using False by simp
  qed
  then show thesis using that fits by (simp add: mul_f32_def from_secs_def x_def)
qed

end
