(* ===== verification/Rtt.thy ===== *)
theory Rtt
  imports Ieee_Float
begin

section \<open>Round trip time: qcongestion/src/rtt.rs\<close>

text \<open>
  The estimator of the round trip time of a path, from which the loss delay and the probe timeout are computed.
\<close>

definition INITIAL_RTT :: duration where
  "INITIAL_RTT = 33 * 10 ^ 6"

definition GRANULARITY :: duration where
  "GRANULARITY = 10 ^ 6"

definition TIME_THRESHOLD :: rat where
  "TIME_THRESHOLD = 9 / 8"

record rtt =
  rtt_max_ack_delay :: duration
  rtt_first_rtt_sample :: "instant option"
  rtt_latest_rtt :: duration
  rtt_smoothed_rtt :: duration
  rtt_rttvar :: duration
  rtt_min_rtt :: duration

definition rtt_default :: rtt where
  "rtt_default =
     \<lparr>rtt_max_ack_delay = 0, rtt_first_rtt_sample = None, rtt_latest_rtt = 0, rtt_smoothed_rtt = INITIAL_RTT, rtt_rttvar = INITIAL_RTT div 2, rtt_min_rtt = 0\<rparr>"

definition rtt_update :: "instant \<Rightarrow> duration \<Rightarrow> duration \<Rightarrow> bool \<Rightarrow> rtt \<Rightarrow> rtt run" where
  "rtt_update now latest_rtt delay is_handshake_confirmed r =
     (let r = r\<lparr>rtt_latest_rtt := latest_rtt\<rparr>
      in if rtt_first_rtt_sample r = None
         then Ret (r\<lparr>rtt_min_rtt := latest_rtt, rtt_smoothed_rtt := latest_rtt, rtt_rttvar := latest_rtt div 2, rtt_first_rtt_sample := Some now\<rparr>)
         else let r = r\<lparr>rtt_min_rtt := min (rtt_min_rtt r) latest_rtt\<rparr>;
                  delay = (if is_handshake_confirmed then min delay (rtt_max_ack_delay r) else delay)
              in bind_run (dur_checked (rtt_min_rtt r + delay)) (\<lambda>plausible.
                 let adjusted_rtt = (if plausible \<le> latest_rtt then latest_rtt - delay else latest_rtt);
                     abs_diff = (if adjusted_rtt < rtt_smoothed_rtt r then rtt_smoothed_rtt r - adjusted_rtt else adjusted_rtt - rtt_smoothed_rtt r)
                 in bind_run (mul_f32 (rtt_rttvar r) (3 / 4)) (\<lambda>a. bind_run (mul_f32 abs_diff (1 / 4)) (\<lambda>b.
                    bind_run (dur_checked (a + b)) (\<lambda>rttvar.
                    bind_run (mul_f32 (rtt_smoothed_rtt r) (7 / 8)) (\<lambda>a. bind_run (mul_f32 adjusted_rtt (1 / 8)) (\<lambda>b.
                    bind_run (dur_checked (a + b)) (\<lambda>smoothed_rtt.
                      Ret (r\<lparr>rtt_rttvar := rttvar, rtt_smoothed_rtt := smoothed_rtt\<rparr>)))))))))"

definition rtt_loss_delay :: "rtt \<Rightarrow> duration run" where
  "rtt_loss_delay r = bind_run (mul_f32 (max (rtt_latest_rtt r) (rtt_smoothed_rtt r)) TIME_THRESHOLD) (\<lambda>d. Ret (max d GRANULARITY))"

text \<open>\<open>1 << pto_count\<close> is a shift of a \<open>u32\<close>.\<close>

definition shl32 :: "nat \<Rightarrow> nat run" where
  "shl32 n = (if n < 32 then Ret (2 ^ n) else Panic)"

definition rtt_base_pto :: "nat \<Rightarrow> rtt \<Rightarrow> duration run" where
  "rtt_base_pto pto_count r =
     bind_run (dur_checked (4 * rtt_rttvar r)) (\<lambda>v.
     bind_run (shl32 pto_count) (\<lambda>k.
     bind_run (dur_checked (max v GRANULARITY * k)) (\<lambda>b. dur_checked (rtt_smoothed_rtt r + b))))"

subsection \<open>What the estimates guarantee\<close>

lemma loss_delay_bounds:
  assumes "rtt_loss_delay r = Ret d"
  shows "rtt_latest_rtt r \<le> d" "rtt_smoothed_rtt r \<le> d" "GRANULARITY \<le> d"
proof -
  obtain d1 where d1: "mul_f32 (max (rtt_latest_rtt r) (rtt_smoothed_rtt r)) TIME_THRESHOLD = Ret d1" "d = max d1 GRANULARITY"
    using assms by (auto simp: rtt_loss_delay_def run_simps)
  have "max (rtt_latest_rtt r) (rtt_smoothed_rtt r) \<le> d1" by (rule mul_f32_longer [OF d1(1)]) (simp add: TIME_THRESHOLD_def)
  then show "rtt_latest_rtt r \<le> d" "rtt_smoothed_rtt r \<le> d" "GRANULARITY \<le> d" using d1(2) by auto
qed

lemma base_pto_bounds:
  assumes "rtt_base_pto n r = Ret d"
  shows "d = rtt_smoothed_rtt r + max (4 * rtt_rttvar r) GRANULARITY * 2 ^ n" "n < 32"
  using assms by (auto simp: rtt_base_pto_def run_simps dur_checked_def shl32_def split: if_splits)

inductive rtt_reach :: "duration list \<Rightarrow> rtt \<Rightarrow> bool" where
  rtt_init: "rtt_reach [] rtt_default"
| rtt_step: "rtt_reach ls r \<Longrightarrow> rtt_update now l d confirmed r = Ret r' \<Longrightarrow> rtt_reach (l # ls) r'"

lemma rtt_update_fields:
  assumes "rtt_update now l d confirmed r = Ret r'"
  shows "rtt_max_ack_delay r' = rtt_max_ack_delay r" "rtt_latest_rtt r' = l" "rtt_first_rtt_sample r' \<noteq> None"
    "rtt_min_rtt r' = (if rtt_first_rtt_sample r = None then l else min (rtt_min_rtt r) l)"
proof -
  define q where "q = r\<lparr>rtt_latest_rtt := l, rtt_min_rtt := min (rtt_min_rtt r) l\<rparr>"
  have "rtt_max_ack_delay r' = rtt_max_ack_delay r \<and> rtt_latest_rtt r' = l \<and> rtt_first_rtt_sample r' \<noteq> None \<and>
    rtt_min_rtt r' = (if rtt_first_rtt_sample r = None then l else min (rtt_min_rtt r) l)"
  proof (cases "rtt_first_rtt_sample r = None")
    case True
    then have "r' = r\<lparr>rtt_latest_rtt := l, rtt_min_rtt := l, rtt_smoothed_rtt := l, rtt_rttvar := l div 2, rtt_first_rtt_sample := Some now\<rparr>"
      using assms by (simp add: rtt_update_def Let_def)
    then show ?thesis using True by simp
  next
    case False
    then have sel: "rtt_first_rtt_sample (r\<lparr>rtt_latest_rtt := l\<rparr>) \<noteq> None" "rtt_min_rtt (r\<lparr>rtt_latest_rtt := l\<rparr>) = rtt_min_rtt r" by simp_all
    obtain a b where "q\<lparr>rtt_rttvar := a, rtt_smoothed_rtt := b\<rparr> = r'"
      using assms unfolding rtt_update_def Let_def sel(2) if_not_P [OF sel(1)] q_def [symmetric] bind_run_Ret_iff run.inject by blast
    then show ?thesis using False by (auto simp: q_def)
  qed
  then show "rtt_max_ack_delay r' = rtt_max_ack_delay r" "rtt_latest_rtt r' = l" "rtt_first_rtt_sample r' \<noteq> None"
    "rtt_min_rtt r' = (if rtt_first_rtt_sample r = None then l else min (rtt_min_rtt r) l)" by blast+
qed

lemma rtt_reach_inv:
  "rtt_reach ls r \<Longrightarrow> rtt_max_ack_delay r = 0 \<and> (rtt_first_rtt_sample r = None \<longleftrightarrow> ls = []) \<and> (ls \<noteq> [] \<longrightarrow> rtt_latest_rtt r = hd ls \<and> rtt_min_rtt r = Min (set ls))"
proof (induction rule: rtt_reach.induct)
  case (rtt_step ls r now l d confirmed r')
  note f = rtt_update_fields [OF rtt_step.hyps(2)]
  show ?case
  proof (cases "ls = []")
    case True
    then show ?thesis using rtt_step.IH f by auto
  next
    case False
    then have "Min (set (l # ls)) = min (Min (set ls)) l" by (simp add: min.commute)
    then show ?thesis using rtt_step.IH f False by auto
  qed
qed (simp add: rtt_default_def)

lemma confirmed_ignores_delay:
  assumes "rtt_reach ls r"
  shows "rtt_update now l d True r = rtt_update now l 0 True r"
proof -
  have "rtt_max_ack_delay r = 0" using rtt_reach_inv [OF assms] by simp
  then show ?thesis by (simp add: rtt_update_def Let_def cong: if_cong)
qed

subsection \<open>No overflow\<close>

text \<open>While no round trip is longer than \<open>M\<close>, the estimates stay below small multiples of \<open>M\<close>; nine years in nanoseconds are enough for any connection.\<close>

definition RTT_MAX :: duration where
  "RTT_MAX = 2 ^ 58"

definition rtt_ok :: "rtt \<Rightarrow> bool" where
  "rtt_ok r \<longleftrightarrow> rtt_latest_rtt r \<le> RTT_MAX \<and> rtt_smoothed_rtt r \<le> 2 * RTT_MAX \<and> rtt_rttvar r \<le> 4 * RTT_MAX \<and> rtt_min_rtt r \<le> RTT_MAX"

lemma rtt_default_ok: "rtt_ok rtt_default"
  by (simp add: rtt_ok_def rtt_default_def RTT_MAX_def INITIAL_RTT_def)

lemma scaled_bound:
  assumes "(of_nat x :: rat) \<le> of_nat d * k * (1 + 1 / 2 ^ 20) + 1" "d \<le> n * RTT_MAX" "0 \<le> k"
  shows "(of_nat x :: rat) \<le> of_nat n * k * (2 ^ 58 + 2 ^ 38) + 1"
proof -
  have "(of_nat d :: rat) \<le> of_nat (n * RTT_MAX)" using assms(2) by (simp only: of_nat_le_iff)
  then have "of_nat d * k * (1 + 1 / 2 ^ 20) \<le> of_nat (n * RTT_MAX) * k * (1 + 1 / 2 ^ 20)" using assms(3) by (intro mult_right_mono) simp_all
  also have "\<dots> = of_nat n * k * (2 ^ 58 + 2 ^ 38)" by (simp add: RTT_MAX_def)
  finally show ?thesis using assms(1) by linarith
qed

lemma rtt_update_ok:
  assumes "rtt_ok r" "l \<le> RTT_MAX" "d < 2 ^ 72"
  obtains r' where "rtt_update now l d confirmed r = Ret r'" "rtt_ok r'"
proof (cases "rtt_first_rtt_sample r = None")
  case True
  then show thesis using that assms by (auto simp: rtt_update_def Let_def rtt_ok_def RTT_MAX_def)
next
  case False
  define q where "q = r\<lparr>rtt_latest_rtt := l, rtt_min_rtt := min (rtt_min_rtt r) l\<rparr>"
  define e where "e = (if confirmed then min d (rtt_max_ack_delay q) else d)"
  define adj where "adj = (if rtt_min_rtt q + e \<le> l then l - e else l)"
  define diff where "diff = (if adj < rtt_smoothed_rtt q then rtt_smoothed_rtt q - adj else adj - rtt_smoothed_rtt q)"
  have b: "rtt_min_rtt q \<le> RTT_MAX" "e < 2 ^ 72" "adj \<le> 1 * RTT_MAX" "rtt_smoothed_rtt q \<le> 2 * RTT_MAX" "rtt_rttvar q \<le> 4 * RTT_MAX" "diff \<le> 2 * RTT_MAX"
    using assms by (auto simp: q_def e_def adj_def diff_def rtt_ok_def)
  have s: "x \<le> n * RTT_MAX \<Longrightarrow> n \<le> 4 \<Longrightarrow> x \<le> 2 ^ 60" for x n
    using mult_le_mono1 [of n 4 RTT_MAX] by (simp add: RTT_MAX_def)
  obtain v1 where v1: "mul_f32 (rtt_rttvar q) (3 / 4) = Ret v1" "(of_nat v1 :: rat) \<le> of_nat (rtt_rttvar q) * (3 / 4) * (1 + 1 / 2 ^ 20) + 1"
    using mul_f32_bounded [of "3 / 4" "rtt_rttvar q"] s [OF b(5)] by auto
  obtain v2 where v2: "mul_f32 diff (1 / 4) = Ret v2" "(of_nat v2 :: rat) \<le> of_nat diff * (1 / 4) * (1 + 1 / 2 ^ 20) + 1"
    using mul_f32_bounded [of "1 / 4" diff] s [OF b(6)] by auto
  obtain s1 where s1: "mul_f32 (rtt_smoothed_rtt q) (7 / 8) = Ret s1" "(of_nat s1 :: rat) \<le> of_nat (rtt_smoothed_rtt q) * (7 / 8) * (1 + 1 / 2 ^ 20) + 1"
    using mul_f32_bounded [of "7 / 8" "rtt_smoothed_rtt q"] s [OF b(4)] by auto
  obtain s2 where s2: "mul_f32 adj (1 / 8) = Ret s2" "(of_nat s2 :: rat) \<le> of_nat adj * (1 / 8) * (1 + 1 / 2 ^ 20) + 1"
    using mul_f32_bounded [of "1 / 8" adj] s [OF b(3)] by auto
  have "(of_nat (v1 + v2) :: rat) \<le> of_nat (4 * RTT_MAX)" "(of_nat (s1 + s2) :: rat) \<le> of_nat (2 * RTT_MAX)"
    using scaled_bound [OF v1(2) b(5)] scaled_bound [OF v2(2) b(6)] scaled_bound [OF s1(2) b(4)] scaled_bound [OF s2(2) b(3)] by (simp_all add: RTT_MAX_def)
  then have v: "v1 + v2 \<le> 4 * RTT_MAX" "s1 + s2 \<le> 2 * RTT_MAX" by (simp_all only: of_nat_le_iff)
  have c: "dur_checked (rtt_min_rtt q + e) = Ret (rtt_min_rtt q + e)" "dur_checked (v1 + v2) = Ret (v1 + v2)" "dur_checked (s1 + s2) = Ret (s1 + s2)"
    using b(1,2) v by (simp_all add: dur_checked_def RTT_MAX_def NANOS_def)
  have sel: "rtt_first_rtt_sample (r\<lparr>rtt_latest_rtt := l\<rparr>) \<noteq> None" "rtt_min_rtt (r\<lparr>rtt_latest_rtt := l\<rparr>) = rtt_min_rtt r" using False by simp_all
  have "rtt_update now l d confirmed r = Ret (q\<lparr>rtt_rttvar := v1 + v2, rtt_smoothed_rtt := s1 + s2\<rparr>)"
    unfolding rtt_update_def Let_def sel(2) if_not_P [OF sel(1)] q_def [symmetric] e_def [symmetric] c bind_run.simps adj_def [symmetric] diff_def [symmetric] v1(1) v2(1) s1(1) s2(1) ..
  moreover have "rtt_ok (q\<lparr>rtt_rttvar := v1 + v2, rtt_smoothed_rtt := s1 + s2\<rparr>)" using v b(1) assms(2) by (simp add: rtt_ok_def q_def)
  ultimately show thesis by (rule that)
qed

lemma loss_delay_ok:
  assumes "rtt_ok r"
  obtains d where "rtt_loss_delay r = Ret d"
proof -
  have "max (rtt_latest_rtt r) (rtt_smoothed_rtt r) \<le> 2 ^ 60" using assms by (simp add: rtt_ok_def RTT_MAX_def)
  moreover have "0 \<le> TIME_THRESHOLD" "TIME_THRESHOLD \<le> 2" by (simp_all add: TIME_THRESHOLD_def)
  ultimately obtain d where "mul_f32 (max (rtt_latest_rtt r) (rtt_smoothed_rtt r)) TIME_THRESHOLD = Ret d" using mul_f32_bounded by meson
  then have "rtt_loss_delay r = Ret (max d GRANULARITY)" by (simp add: rtt_loss_delay_def)
  then show thesis by (rule that)
qed

lemma base_pto_ok:
  assumes "rtt_ok r" "n < 32"
  obtains d where "rtt_base_pto n r = Ret d" "d \<le> 2 ^ 93 + 2 ^ 59"
proof -
  have v: "4 * rtt_rttvar r \<le> 2 ^ 62" "rtt_smoothed_rtt r \<le> 2 ^ 59" using assms(1) by (simp_all add: rtt_ok_def RTT_MAX_def)
  have k: "(2 :: nat) ^ n \<le> 2 ^ 31" using assms(2) by (intro power_increasing) simp_all
  define m where "m = max (4 * rtt_rttvar r) GRANULARITY"
  have "m \<le> 2 ^ 62" using v(1) by (simp add: m_def GRANULARITY_def)
  then have mk: "m * 2 ^ n \<le> 2 ^ 62 * 2 ^ 31" using k by (rule mult_le_mono)
  have c: "dur_checked x = Ret x" if "x \<le> 2 ^ 93 + 2 ^ 59" for x using that by (simp add: dur_checked_def NANOS_def)
  have le: "4 * rtt_rttvar r \<le> 2 ^ 93 + 2 ^ 59" "m * 2 ^ n \<le> 2 ^ 93 + 2 ^ 59" "rtt_smoothed_rtt r + m * 2 ^ n \<le> 2 ^ 93 + 2 ^ 59" using v mk by simp_all
  have "rtt_base_pto n r = Ret (rtt_smoothed_rtt r + m * 2 ^ n)"
    unfolding rtt_base_pto_def shl32_def if_P [OF assms(2)] c [OF le(1)] bind_run.simps m_def [symmetric] c [OF le(2)] c [OF le(3)] ..
  then show thesis using le(3) by (rule that)
qed

end
