(* ===== verification/Pacer.thy ===== *)
theory Pacer
  imports Ieee_Float
begin

section \<open>Pacing: qcongestion/src/pacing.rs\<close>

text \<open>
  A token bucket: sending takes bytes out of it, and it fills at the rate the congestion window allows, up to its capacity.
\<close>

definition BURST_INTERVAL :: duration where
  "BURST_INTERVAL = 10 * 10 ^ 6"

definition MIN_BURST_SIZE :: nat where
  "MIN_BURST_SIZE = 10"

definition MAX_BURST_SIZE :: nat where
  "MAX_BURST_SIZE = 1280"

definition pacing_N :: rat where
  "pacing_N = 5 / 4"

record pacer =
  pc_capacity :: nat
  pc_cwnd :: nat
  pc_tokens :: nat
  pc_last_burst_time :: instant
  pc_rate :: "nat option"

text \<open>\<open>as usize\<close> from a nonnegative \<open>f64\<close> cuts off the fraction and saturates.\<close>

definition f64_as_usize :: "rat \<Rightarrow> nat" where
  "f64_as_usize x = min (nat \<lfloor>x\<rfloor>) (u64_bound - 1)"

definition calculate_capacity :: "duration \<Rightarrow> nat \<Rightarrow> nat \<Rightarrow> nat option \<Rightarrow> nat run" where
  "calculate_capacity smoothed_rtt cwnd mtu rate =
     (let rtt = max smoothed_rtt 1;
          capacity = (case rate of
             Some r \<Rightarrow> f64_as_usize (ieee_round 53 (ieee_round 53 (of_nat r) * as_secs 53 BURST_INTERVAL))
           | None \<Rightarrow> (cwnd * BURST_INTERVAL div rtt) mod u64_bound)
      in bind_run (mul64 MIN_BURST_SIZE mtu) (\<lambda>lo. bind_run (mul64 MAX_BURST_SIZE mtu) (\<lambda>hi.
           Ret (if capacity < lo then lo else if hi < capacity then hi else capacity))))"

definition pacer_new :: "duration \<Rightarrow> nat \<Rightarrow> nat \<Rightarrow> instant \<Rightarrow> nat option \<Rightarrow> pacer run" where
  "pacer_new smoothed_rtt cwnd mtu now rate =
     bind_run (calculate_capacity smoothed_rtt cwnd mtu rate) (\<lambda>capacity.
       Ret \<lparr>pc_capacity = capacity, pc_cwnd = cwnd, pc_tokens = capacity, pc_last_burst_time = now, pc_rate = rate\<rparr>)"

definition pacer_on_sent :: "nat \<Rightarrow> pacer \<Rightarrow> pacer" where
  "pacer_on_sent packet_size p = p\<lparr>pc_tokens := pc_tokens p - packet_size\<rparr>"

text \<open>The rate without a rate of the algorithm's own. A zero round trip time makes it infinite, or no number for a zero window; \<open>as usize\<close> takes these to the largest number and to zero.\<close>

definition window_rate :: "nat \<Rightarrow> duration \<Rightarrow> nat" where
  "window_rate cwnd srtt =
     (if srtt = 0 then (if cwnd = 0 then 0 else u64_bound - 1)
      else f64_as_usize (ieee_round 53 (ieee_round 53 (pacing_N * ieee_round 53 (of_nat cwnd)) / as_secs 53 srtt)))"

definition pacer_schedule :: "duration \<Rightarrow> nat \<Rightarrow> nat \<Rightarrow> instant \<Rightarrow> nat option \<Rightarrow> pacer \<Rightarrow> (nat \<times> pacer) run" where
  "pacer_schedule srtt cwnd mtu now rate p =
     bind_run (if pc_cwnd p \<noteq> cwnd \<or> rate \<noteq> pc_rate p
               then bind_run (calculate_capacity srtt cwnd mtu rate) (\<lambda>c. Ret (p\<lparr>pc_capacity := c, pc_tokens := min (pc_tokens p) c\<rparr>))
               else Ret p) (\<lambda>p.
     let p = p\<lparr>pc_cwnd := cwnd, pc_rate := rate\<rparr>;
         r = (case rate of Some r \<Rightarrow> r | None \<Rightarrow> window_rate cwnd srtt);
         elapsed = now - pc_last_burst_time p;
         new_token = ieee_round 53 (as_secs 53 elapsed * ieee_round 53 (of_nat r));
         p = p\<lparr>pc_tokens := min (min (pc_tokens p + f64_as_usize new_token) (u64_bound - 1)) (pc_capacity p), pc_last_burst_time := now\<rparr>
     in Ret (pc_tokens p, p))"

subsection \<open>The bucket\<close>

definition pacer_ok :: "nat \<Rightarrow> pacer \<Rightarrow> bool" where
  "pacer_ok mtu p \<longleftrightarrow> pc_tokens p \<le> pc_capacity p \<and> MIN_BURST_SIZE * mtu \<le> pc_capacity p \<and> pc_capacity p \<le> MAX_BURST_SIZE * mtu"

lemma capacity_ok:
  assumes "mtu < 2 ^ 16"
  obtains c where "calculate_capacity srtt cwnd mtu rate = Ret c" "MIN_BURST_SIZE * mtu \<le> c" "c \<le> MAX_BURST_SIZE * mtu"
proof -
  have "mul64 MIN_BURST_SIZE mtu = Ret (MIN_BURST_SIZE * mtu)" "mul64 MAX_BURST_SIZE mtu = Ret (MAX_BURST_SIZE * mtu)" "MIN_BURST_SIZE * mtu \<le> MAX_BURST_SIZE * mtu"
    using assms by (simp_all add: mul64_def MIN_BURST_SIZE_def MAX_BURST_SIZE_def)
  then show thesis using that by (auto simp: calculate_capacity_def Let_def)
qed

lemma pacer_new_ok:
  assumes "mtu < 2 ^ 16"
  obtains p where "pacer_new srtt cwnd mtu now rate = Ret p" "pacer_ok mtu p"
  using capacity_ok [OF assms, of srtt cwnd rate] that by (force simp: pacer_new_def pacer_ok_def)

lemma pacer_on_sent_ok: "pacer_ok mtu p \<Longrightarrow> pacer_ok mtu (pacer_on_sent n p)"
  by (auto simp: pacer_ok_def pacer_on_sent_def)

lemma pacer_schedule_ok:
  assumes "mtu < 2 ^ 16" "pacer_ok mtu p"
  obtains p' where "pacer_schedule srtt cwnd mtu now rate p = Ret (pc_tokens p', p')" "pacer_ok mtu p'"
proof -
  obtain c where c: "calculate_capacity srtt cwnd mtu rate = Ret c" "MIN_BURST_SIZE * mtu \<le> c" "c \<le> MAX_BURST_SIZE * mtu" using capacity_ok [OF assms(1)] by blast
  define q where "q = (if pc_cwnd p \<noteq> cwnd \<or> rate \<noteq> pc_rate p then p\<lparr>pc_capacity := c, pc_tokens := min (pc_tokens p) c\<rparr> else p)"
  have "(if pc_cwnd p \<noteq> cwnd \<or> rate \<noteq> pc_rate p then bind_run (calculate_capacity srtt cwnd mtu rate) (\<lambda>c. Ret (p\<lparr>pc_capacity := c, pc_tokens := min (pc_tokens p) c\<rparr>)) else Ret p) = Ret q"
    using c(1) by (simp add: q_def)
  moreover have "pacer_ok mtu q" using c assms(2) by (simp add: q_def pacer_ok_def)
  moreover define n where "n = f64_as_usize (ieee_round 53 (as_secs 53 (now - pc_last_burst_time q) * ieee_round 53 (of_nat (case rate of Some r \<Rightarrow> r | None \<Rightarrow> window_rate cwnd srtt))))"
  ultimately show thesis
    by (intro that [of "q\<lparr>pc_cwnd := cwnd, pc_rate := rate, pc_tokens := min (min (pc_tokens q + n) (u64_bound - 1)) (pc_capacity q), pc_last_burst_time := now\<rparr>"])
      (simp_all add: pacer_schedule_def Let_def pacer_ok_def n_def)
qed

end
