(* ===== verification/Congestion.thy ===== *)
theory Congestion
  imports New_Reno Rtt Pacer
begin

section \<open>Loss detection and congestion control of a path: qcongestion/src/congestion.rs and status.rs\<close>

text \<open>
  The controller of a path ties together the packet spaces, the congestion control algorithm, the round trip estimator, the pacer and the loss detection timer. The clock is read once per call
  and is an argument. The calls of \<open>Feedback::may_loss\<close>, by which lost packets reach the journals, are kept in a list, in their order. The algorithm is the record of its methods, as in the
  packet spaces.
\<close>

subsection \<open>Status of the handshake and the path\<close>

record path_status =
  st_is_server :: bool
  st_has_handshake_key :: bool
  st_has_received_handshake_ack :: bool
  st_is_handshake_confirmed :: bool
  st_is_at_anti_amplification_limit :: bool
  st_pmtu :: nat

definition path_status_new :: "bool \<Rightarrow> nat \<Rightarrow> path_status" where
  "path_status_new is_server pmtu =
     \<lparr>st_is_server = is_server, st_has_handshake_key = False, st_has_received_handshake_ack = False, st_is_handshake_confirmed = False,
      st_is_at_anti_amplification_limit = True, st_pmtu = pmtu\<rparr>"

definition got_handshake_key :: "path_status \<Rightarrow> path_status" where
  "got_handshake_key st = st\<lparr>st_has_handshake_key := True\<rparr>"

definition received_handshake_ack :: "path_status \<Rightarrow> path_status" where
  "received_handshake_ack st = st\<lparr>st_has_received_handshake_ack := True\<rparr>"

definition handshake_confirmed :: "path_status \<Rightarrow> path_status" where
  "handshake_confirmed st = st\<lparr>st_is_handshake_confirmed := True\<rparr>"

definition release_anti_amplification_limit :: "path_status \<Rightarrow> path_status" where
  "release_anti_amplification_limit st = st\<lparr>st_is_at_anti_amplification_limit := False\<rparr>"

definition enter_anti_amplification_limit :: "path_status \<Rightarrow> path_status" where
  "enter_anti_amplification_limit st = st\<lparr>st_is_at_anti_amplification_limit := True\<rparr>"

subsection \<open>The controller\<close>

definition MSS :: nat where "MSS = 1200"
definition INIT_CWND :: nat where "INIT_CWND = MSS * 10"
definition PACKET_THRESHOLD :: nat where "PACKET_THRESHOLD = 3"

record 'a controller =
  cc_algorithm :: 'a
  cc_rtt :: rtt
  cc_loss_detection_timer :: "instant option"
  cc_pto_count :: nat
  cc_max_ack_delay :: duration
  cc_packet_spaces :: "epoch \<Rightarrow> packet_space"
  cc_pacer :: pacer
  cc_pending_burst :: bool
  cc_trackers :: "(epoch \<times> nat list) list"
  cc_need_send_ack_eliciting_packets :: "epoch \<Rightarrow> nat"
  cc_path_status :: path_status
  cc_tx_waker :: send_waker

text \<open>\<open>init\<close> with the only algorithm there is; \<open>Algorithm::Bbr\<close> ends in \<open>todo!\<close>.\<close>

datatype algorithm = Bbr | NewReno

definition controller_init :: "algorithm \<Rightarrow> duration \<Rightarrow> path_status \<Rightarrow> send_waker \<Rightarrow> instant \<Rightarrow> new_reno controller run" where
  "controller_init alg max_ack_delay st w now =
     bind_run (case alg of Bbr \<Rightarrow> Panic | NewReno \<Rightarrow> new_reno_new (st_pmtu st)) (\<lambda>a.
     bind_run (pacer_new INITIAL_RTT INIT_CWND (st_pmtu st) now None) (\<lambda>p.
       Ret \<lparr>cc_algorithm = a, cc_rtt = rtt_default, cc_loss_detection_timer = None, cc_pto_count = 0, cc_max_ack_delay = max_ack_delay,
            cc_packet_spaces = (\<lambda>e. with_epoch e max_ack_delay), cc_pacer = p, cc_pending_burst = False, cc_trackers = [],
            cc_need_send_ack_eliciting_packets = (\<lambda>_. 0), cc_path_status = st, cc_tx_waker = w\<rparr>))"

definition upd_space :: "epoch \<Rightarrow> (packet_space \<Rightarrow> packet_space) \<Rightarrow> 'a controller \<Rightarrow> 'a controller" where
  "upd_space e f c = c\<lparr>cc_packet_spaces := (cc_packet_spaces c)(e := f (cc_packet_spaces c e))\<rparr>"

subsection \<open>The loss detection timer\<close>

text \<open>\<open>Iterator::min_by_key\<close> takes the first of the least elements.\<close>

fun first_min :: "(instant \<times> epoch) list \<Rightarrow> (instant \<times> epoch) option" where
  "first_min [] = None"
| "first_min (x # xs) = (case first_min xs of None \<Rightarrow> Some x | Some y \<Rightarrow> Some (if fst y < fst x then y else x))"

definition get_loss_time_and_epoch :: "'a controller \<Rightarrow> (instant \<times> epoch) option" where
  "get_loss_time_and_epoch c = first_min (List.map_filter (\<lambda>e. map_option (\<lambda>t. (t, e)) (ps_loss_time (cc_packet_spaces c e))) EPOCHS)"

definition cc_no_ack_eliciting_in_flight :: "'a controller \<Rightarrow> bool" where
  "cc_no_ack_eliciting_in_flight c = list_all (\<lambda>e. ps_no_ack_eliciting_in_flight (cc_packet_spaces c e)) EPOCHS"

definition peer_completed_address_validation :: "'a controller \<Rightarrow> bool" where
  "peer_completed_address_validation c \<longleftrightarrow>
     st_is_server (cc_path_status c) \<or> st_has_received_handshake_ack (cc_path_status c) \<or> st_is_handshake_confirmed (cc_path_status c)"

definition backed_off_ack_delay :: "'a controller \<Rightarrow> duration \<Rightarrow> duration run" where
  "backed_off_ack_delay c d =
     bind_run (shl32 (cc_pto_count c)) (\<lambda>k. bind_run (dur_checked (cc_max_ack_delay c * k)) (\<lambda>x. dur_checked (d + x)))"

fun pto_loop :: "'a controller \<Rightarrow> epoch list \<Rightarrow> duration \<Rightarrow> (instant \<times> epoch) option \<Rightarrow> (instant \<times> epoch) option run" where
  "pto_loop c [] duration pto_time = Ret pto_time"
| "pto_loop c (e # es) duration pto_time =
     (if ps_no_ack_eliciting_in_flight (cc_packet_spaces c e) then pto_loop c es duration pto_time
      else if e = EpData \<and> \<not> st_is_handshake_confirmed (cc_path_status c) then Ret pto_time
      else bind_run (if e = EpData then backed_off_ack_delay c duration else Ret duration) (\<lambda>duration.
           bind_run (expect (ps_time_of_last_ack_eliciting_packet (cc_packet_spaces c e))) (\<lambda>sent_at.
           let t = sent_at + duration
           in pto_loop c es duration
                (case pto_time of None \<Rightarrow> Some (t, e) | Some (u, e') \<Rightarrow> if t < u then Some (t, e) else Some (u, e')))))"

definition get_pto_time_and_epoch :: "instant \<Rightarrow> 'a controller \<Rightarrow> (instant \<times> epoch) option run" where
  "get_pto_time_and_epoch now c =
     bind_run (rtt_base_pto (cc_pto_count c) (cc_rtt c)) (\<lambda>duration.
       if cc_no_ack_eliciting_in_flight c
       then Ret (Some (now + duration, if st_has_handshake_key (cc_path_status c) then EpHandshake else EpInitial))
       else pto_loop c EPOCHS duration None)"

definition set_loss_detection_timer :: "instant \<Rightarrow> 'a controller \<Rightarrow> 'a controller run" where
  "set_loss_detection_timer now c =
     (case get_loss_time_and_epoch c of
        Some (earliest_loss_time, _) \<Rightarrow> Ret (c\<lparr>cc_loss_detection_timer := Some earliest_loss_time\<rparr>)
      | None \<Rightarrow>
          if st_is_at_anti_amplification_limit (cc_path_status c) then Ret (c\<lparr>cc_loss_detection_timer := None\<rparr>)
          else if cc_no_ack_eliciting_in_flight c \<and> peer_completed_address_validation c then Ret (c\<lparr>cc_loss_detection_timer := None\<rparr>)
          else bind_run (get_pto_time_and_epoch now c) (\<lambda>p. Ret (c\<lparr>cc_loss_detection_timer := map_option fst p\<rparr>)))"

subsection \<open>Events\<close>

definition on_packet_sent :: "'a control \<Rightarrow> instant \<Rightarrow> nat \<Rightarrow> epoch \<Rightarrow> bool \<Rightarrow> bool \<Rightarrow> nat \<Rightarrow> 'a controller \<Rightarrow> 'a controller run" where
  "on_packet_sent C now packet_number epoch ack_eliciting in_flight sent_bytes c =
     (let sent = sent_packet_new packet_number now ack_eliciting in_flight sent_bytes
      in bind_run
           (if in_flight
            then let c = (if ack_eliciting
                          then (upd_space epoch (\<lambda>s. s\<lparr>ps_time_of_last_ack_eliciting_packet := Some now\<rparr>) c)
                                 \<lparr>cc_need_send_ack_eliciting_packets := (cc_need_send_ack_eliciting_packets c)(epoch := cc_need_send_ack_eliciting_packets c epoch - 1)\<rparr>
                          else c)
                 in bind_run (ctl_on_packet_sent_cc C sent (cc_algorithm c)) (\<lambda>a.
                    let c = c\<lparr>cc_algorithm := a\<rparr>
                    in bind_run (case ps_loss_time (cc_packet_spaces c epoch) of
                                   Some _ \<Rightarrow> Ret c
                                 | None \<Rightarrow> bind_run (rtt_loss_delay (cc_rtt c)) (\<lambda>d. Ret (upd_space epoch (\<lambda>s. s\<lparr>ps_loss_time := Some (now + d)\<rparr>) c)))
                       (set_loss_detection_timer now))
            else Ret c)
         (\<lambda>c. Ret ((upd_space epoch (\<lambda>s. s\<lparr>ps_sent_packets := ps_sent_packets s @ [sent]\<rparr>) c)\<lparr>cc_pacer := pacer_on_sent sent_bytes (cc_pacer c)\<rparr>)))"

text \<open>\<open>trackers[epoch].may_loss(.., detect_lost_packets(..))\<close>, which stands in two places.\<close>

definition report_lost :: "'a control \<Rightarrow> instant \<Rightarrow> epoch \<Rightarrow> 'a controller \<Rightarrow> 'a controller run" where
  "report_lost C now epoch c =
     bind_run (rtt_loss_delay (cc_rtt c)) (\<lambda>d.
     bind_run (detect_lost_packets C now d PACKET_THRESHOLD (cc_algorithm c) (cc_packet_spaces c epoch)) (\<lambda>(pns, a, s).
       Ret ((upd_space epoch (\<lambda>_. s) c)\<lparr>cc_algorithm := a, cc_trackers := cc_trackers c @ [(epoch, pns)]\<rparr>)))"

definition cc_process_ecn :: "'a control \<Rightarrow> instant \<Rightarrow> ack_frame \<Rightarrow> instant \<Rightarrow> epoch \<Rightarrow> 'a controller \<Rightarrow> 'a controller run" where
  "cc_process_ecn C now f sent_time epoch c =
     bind_run (ctl_process_ecn C now f sent_time epoch (cc_algorithm c)) (\<lambda>a. Ret (c\<lparr>cc_algorithm := a\<rparr>))"

definition on_ack_rcvd :: "'a control \<Rightarrow> instant \<Rightarrow> epoch \<Rightarrow> ack_frame \<Rightarrow> 'a controller \<Rightarrow> 'a controller run" where
  "on_ack_rcvd C now epoch f c =
     (let c = upd_space epoch (update_largest_acked_packet (into_inner (ack_largest f))) c
      in bind_run (ps_on_ack_rcvd C f (cc_algorithm c) (cc_packet_spaces c epoch)) (\<lambda>(newly, a, s).
         let c = (upd_space epoch (\<lambda>_. s) c)\<lparr>cc_algorithm := a\<rparr>
         in case newly of
              None \<Rightarrow> Ret c
            | Some n \<Rightarrow>
                bind_run (if fst (na_largest n) = into_inner (ack_largest f) \<and> na_include_ack_eliciting n
                          then bind_run (rtt_update now (now - snd (na_largest n)) (into_inner (ack_delay f) * 1000)
                                           (st_is_handshake_confirmed (cc_path_status c)) (cc_rtt c)) (\<lambda>r. Ret (c\<lparr>cc_rtt := r\<rparr>))
                          else Ret c) (\<lambda>c.
                bind_run (if ack_ecn f \<noteq> None then cc_process_ecn C now f (snd (na_largest n)) epoch c else Ret c) (\<lambda>c.
                bind_run (report_lost C now epoch c) (\<lambda>c.
                  set_loss_detection_timer now (if peer_completed_address_validation c then c\<lparr>cc_pto_count := 0\<rparr> else c))))))"

definition send_ack_eliciting_packet :: "epoch \<Rightarrow> nat \<Rightarrow> 'a controller \<Rightarrow> 'a controller run" where
  "send_ack_eliciting_packet epoch count c =
     bind_run (add64 (cc_need_send_ack_eliciting_packets c epoch) count) (\<lambda>n.
       Ret (c\<lparr>cc_tx_waker := snd (wake_by {PING} (cc_tx_waker c)), cc_need_send_ack_eliciting_packets := (cc_need_send_ack_eliciting_packets c)(epoch := n)\<rparr>))"

text \<open>\<open>pto_count\<close> is a \<open>u32\<close>.\<close>

definition on_loss_detection_timeout :: "'a control \<Rightarrow> instant \<Rightarrow> 'a controller \<Rightarrow> 'a controller run" where
  "on_loss_detection_timeout C now c =
     (case get_loss_time_and_epoch c of
        Some (_, epoch) \<Rightarrow> bind_run (report_lost C now epoch c) (set_loss_detection_timer now)
      | None \<Rightarrow>
          bind_run (if cc_no_ack_eliciting_in_flight c
                    then send_ack_eliciting_packet (if st_has_handshake_key (cc_path_status c) then EpHandshake else EpInitial) 1 c
                    else bind_run (get_pto_time_and_epoch now c) (\<lambda>p.
                         case p of Some (_, epoch) \<Rightarrow> send_ack_eliciting_packet epoch 1 c | None \<Rightarrow> Ret c)) (\<lambda>c.
          assert_run (cc_pto_count c + 1 < 2 ^ 32) (set_loss_detection_timer now (c\<lparr>cc_pto_count := cc_pto_count c + 1\<rparr>))))"

definition on_datagram_rcvd :: "'a control \<Rightarrow> instant \<Rightarrow> 'a controller \<Rightarrow> 'a controller run" where
  "on_datagram_rcvd C now c =
     (if st_is_at_anti_amplification_limit (cc_path_status c)
      then bind_run (set_loss_detection_timer now c) (\<lambda>c.
           if (case cc_loss_detection_timer c of None \<Rightarrow> False | Some t \<Rightarrow> t < now) then on_loss_detection_timeout C now c else Ret c)
      else Ret c)"

definition cc_need_ack :: "instant \<Rightarrow> 'a controller \<Rightarrow> bool" where
  "cc_need_ack now c = list_ex (\<lambda>e. rr_need_ack now (ps_rcvd_packets (cc_packet_spaces c e)) \<noteq> None) EPOCHS"

definition cc_send_quota :: "'a control \<Rightarrow> instant \<Rightarrow> 'a controller \<Rightarrow> (nat \<times> 'a controller) run" where
  "cc_send_quota C now c =
     bind_run (pacer_schedule (rtt_smoothed_rtt (cc_rtt c)) (ctl_congestion_window C (cc_algorithm c)) (st_pmtu (cc_path_status c)) now
                 (ctl_pacing_rate C (cc_algorithm c)) (cc_pacer c)) (\<lambda>(n, p). Ret (n, c\<lparr>cc_pacer := p\<rparr>))"

definition discard_epoch :: "'a control \<Rightarrow> instant \<Rightarrow> epoch \<Rightarrow> 'a controller \<Rightarrow> 'a controller run" where
  "discard_epoch C now epoch c =
     assert_run (epoch \<noteq> EpData)
       (bind_run (ps_discard C (cc_algorithm c) (cc_packet_spaces c epoch)) (\<lambda>(a, s).
          set_loss_detection_timer now ((upd_space epoch (\<lambda>_. s) c)\<lparr>cc_algorithm := a, cc_loss_detection_timer := None, cc_pto_count := 0\<rparr>)))"

definition cc_get_pto :: "epoch \<Rightarrow> 'a controller \<Rightarrow> duration run" where
  "cc_get_pto epoch c =
     bind_run (rtt_base_pto (cc_pto_count c) (cc_rtt c)) (\<lambda>d. if epoch = EpData then backed_off_ack_delay c d else Ret d)"

subsection \<open>The Transport trait\<close>

text \<open>One turn of the loop in \<open>launch\<close>, which runs every ten milliseconds.\<close>

definition transport_tick :: "'a control \<Rightarrow> instant \<Rightarrow> 'a controller \<Rightarrow> 'a controller run" where
  "transport_tick C now c =
     bind_run (if (case cc_loss_detection_timer c of None \<Rightarrow> False | Some t \<Rightarrow> t \<le> now) then on_loss_detection_timeout C now c else Ret c) (\<lambda>c.
     bind_run (if cc_pending_burst c
               then bind_run (cc_send_quota C now c) (\<lambda>(n, c).
                    Ret (if st_pmtu (cc_path_status c) \<le> n
                         then c\<lparr>cc_pending_burst := False, cc_tx_waker := snd (wake_by {CONGESTION} (cc_tx_waker c))\<rparr> else c))
               else Ret c) (\<lambda>c.
       Ret (if cc_need_ack now c then c\<lparr>cc_tx_waker := snd (wake_by {TRANSPORT} (cc_tx_waker c))\<rparr> else c)))"

definition transport_send_quota :: "'a control \<Rightarrow> instant \<Rightarrow> 'a controller \<Rightarrow> ((signals + nat) \<times> 'a controller) run" where
  "transport_send_quota C now c =
     bind_run (cc_send_quota C now c) (\<lambda>(n, c).
       Ret (if st_pmtu (cc_path_status c) \<le> n then (Inr n, c) else (Inl {CONGESTION}, c\<lparr>cc_pending_burst := True\<rparr>)))"

definition retransmit_and_expire_time :: "epoch \<Rightarrow> 'a controller \<Rightarrow> (duration \<times> duration) run" where
  "retransmit_and_expire_time epoch c =
     bind_run (rtt_loss_delay (cc_rtt c)) (\<lambda>d. bind_run (dur_checked (d + rtt_rttvar (cc_rtt c))) (\<lambda>r.
     bind_run (cc_get_pto epoch c) (\<lambda>e. Ret (r, e))))"

definition transport_need_ack :: "instant \<Rightarrow> epoch \<Rightarrow> 'a controller \<Rightarrow> (nat \<times> instant) option" where
  "transport_need_ack now epoch c = rr_need_ack now (ps_rcvd_packets (cc_packet_spaces c epoch))"

definition transport_on_pkt_sent :: "'a control \<Rightarrow> instant \<Rightarrow> epoch \<Rightarrow> nat \<Rightarrow> bool \<Rightarrow> nat \<Rightarrow> bool \<Rightarrow> nat option \<Rightarrow> 'a controller \<Rightarrow> 'a controller run" where
  "transport_on_pkt_sent C now epoch pn is_ack_eliciting sent_bytes in_flight ack c =
     bind_run (on_packet_sent C now pn epoch is_ack_eliciting in_flight sent_bytes c) (\<lambda>c.
     let c = (case ack of
                None \<Rightarrow> c
              | Some largest_acked \<Rightarrow> upd_space epoch (\<lambda>s. s\<lparr>ps_rcvd_packets := rr_on_ack_sent pn largest_acked (ps_rcvd_packets s)\<rparr>) c)
     in if epoch = EpHandshake \<and> \<not> st_is_server (cc_path_status c) then discard_epoch C now EpInitial c else Ret c)"

definition transport_on_ack_rcvd :: "'a control \<Rightarrow> instant \<Rightarrow> epoch \<Rightarrow> ack_frame \<Rightarrow> 'a controller \<Rightarrow> 'a controller run" where
  "transport_on_ack_rcvd C now epoch f c =
     bind_run (on_ack_rcvd C now epoch f c) (\<lambda>c.
       if epoch = EpHandshake \<and> st_is_server (cc_path_status c) then discard_epoch C now EpInitial c else Ret c)"

definition transport_on_pkt_rcvd :: "'a control \<Rightarrow> instant \<Rightarrow> epoch \<Rightarrow> nat \<Rightarrow> bool \<Rightarrow> 'a controller \<Rightarrow> 'a controller run" where
  "transport_on_pkt_rcvd C now epoch pn is_ack_eliciting c =
     (if \<not> is_ack_eliciting then Ret c
      else on_datagram_rcvd C now (upd_space epoch (\<lambda>s. s\<lparr>ps_rcvd_packets := rr_on_pkt_rcvd now pn (ps_rcvd_packets s)\<rparr>) c))"

definition need_send_ack_eliciting :: "epoch \<Rightarrow> 'a controller \<Rightarrow> nat" where
  "need_send_ack_eliciting epoch c = cc_need_send_ack_eliciting_packets c epoch"

definition grant_anti_amplification :: "'a controller \<Rightarrow> 'a controller" where
  "grant_anti_amplification c = c\<lparr>cc_path_status := release_anti_amplification_limit (cc_path_status c)\<rparr>"

end
