(* ===== verification/Congestion_Safety.thy ===== *)
theory Congestion_Safety
  imports Congestion
begin

section \<open>The controller keeps its books\<close>

text \<open>
  The invariant of a controller: the algorithm's count of the bytes in flight is what the packet spaces say, the packets of each space are in the order of their numbers, a space with an ack-eliciting
  packet in flight knows when the last one was sent, and the window and the open packets together stay below the bytes ever sent. Inside the contract of the algorithm every operation returns
  and keeps the invariant.
\<close>

definition kept :: "'a controller \<Rightarrow> epoch \<Rightarrow> sent_packet list" where
  "kept c e = ps_sent_packets (cc_packet_spaces c e)"

definition in_flight_numbers :: "'a controller \<Rightarrow> epoch \<Rightarrow> nat set" where
  "in_flight_numbers c e = flying_numbers (kept c e)"

definition over_epochs :: "(sent_packet list \<Rightarrow> nat) \<Rightarrow> 'a controller \<Rightarrow> nat" where
  "over_epochs f c = sum_list (map (\<lambda>e. f (kept c e)) EPOCHS)"

definition cc_inv :: "'a control \<Rightarrow> ('a \<Rightarrow> bool) \<Rightarrow> ('a \<Rightarrow> nat) \<Rightarrow> nat \<Rightarrow> 'a controller \<Rightarrow> bool" where
  "cc_inv C ok flying T c \<longleftrightarrow>
     ok (cc_algorithm c) \<and> flying (cc_algorithm c) = over_epochs flight_bytes c \<and>
     ctl_congestion_window C (cc_algorithm c) + over_epochs open_bytes c \<le> T \<and> T < 2 ^ 48 \<and>
     (\<forall>e. numbered (kept c e)) \<and>
     (\<forall>e. ps_no_ack_eliciting_in_flight (cc_packet_spaces c e) \<or> ps_time_of_last_ack_eliciting_packet (cc_packet_spaces c e) \<noteq> None) \<and>
     rtt_ok (cc_rtt c) \<and> pacer_ok (st_pmtu (cc_path_status c)) (cc_pacer c) \<and> st_pmtu (cc_path_status c) < 2 ^ 16 \<and> cc_max_ack_delay c \<le> 2 ^ 58"

text \<open>The packets reported lost in a list of calls of \<open>may_loss\<close>.\<close>

definition reported :: "(epoch \<times> nat list) list \<Rightarrow> epoch \<Rightarrow> nat list" where
  "reported calls e = concat (map snd (filter (\<lambda>(e', _). e' = e) calls))"

lemma reported_simps [simp]:
  "reported [] e = []" "reported (calls @ calls') e = reported calls e @ reported calls' e" "reported [(e', pns)] e = (if e' = e then pns else [])"
  by (simp_all add: reported_def)

lemma kept_simps [simp]:
  "kept (c\<lparr>cc_algorithm := a\<rparr>) = kept c" "kept (c\<lparr>cc_rtt := r\<rparr>) = kept c" "kept (c\<lparr>cc_loss_detection_timer := t\<rparr>) = kept c" "kept (c\<lparr>cc_pto_count := n\<rparr>) = kept c"
  "kept (c\<lparr>cc_pacer := p\<rparr>) = kept c" "kept (c\<lparr>cc_pending_burst := b\<rparr>) = kept c" "kept (c\<lparr>cc_trackers := l\<rparr>) = kept c"
  "kept (c\<lparr>cc_need_send_ack_eliciting_packets := f\<rparr>) = kept c" "kept (c\<lparr>cc_path_status := s\<rparr>) = kept c" "kept (c\<lparr>cc_tx_waker := w\<rparr>) = kept c"
  by (simp_all add: kept_def fun_eq_iff)

lemma over_epochs_kept: "kept c = kept c' \<Longrightarrow> over_epochs f c = over_epochs f c'"
  by (simp add: over_epochs_def)

lemma over_epochs_eq: "over_epochs f c = f (kept c EpInitial) + f (kept c EpHandshake) + f (kept c EpData)"
  by (simp add: over_epochs_def EPOCHS_def)

lemma over_epochs_le: "f (kept c e) \<le> over_epochs f c"
  by (cases e) (simp_all add: over_epochs_eq)

lemma over_epochs_upd: "kept c' = (kept c)(e := ps) \<Longrightarrow> over_epochs f c' + f (kept c e) = over_epochs f c + f ps"
  by (cases e) (simp_all add: over_epochs_eq)

lemma kept_upd_space [simp]: "kept (upd_space e f c) = (kept c)(e := ps_sent_packets (f (cc_packet_spaces c e)))"
  by (auto simp: kept_def upd_space_def)

lemma upd_space_simps [simp]:
  "cc_packet_spaces (upd_space e f c) = (cc_packet_spaces c)(e := f (cc_packet_spaces c e))" "cc_algorithm (upd_space e f c) = cc_algorithm c"
  "cc_rtt (upd_space e f c) = cc_rtt c" "cc_pto_count (upd_space e f c) = cc_pto_count c" "cc_path_status (upd_space e f c) = cc_path_status c"
  "cc_trackers (upd_space e f c) = cc_trackers c" "cc_max_ack_delay (upd_space e f c) = cc_max_ack_delay c" "cc_pacer (upd_space e f c) = cc_pacer c"
  "cc_need_send_ack_eliciting_packets (upd_space e f c) = cc_need_send_ack_eliciting_packets c" "cc_pending_burst (upd_space e f c) = cc_pending_burst c"
  "cc_loss_detection_timer (upd_space e f c) = cc_loss_detection_timer c" "cc_tx_waker (upd_space e f c) = cc_tx_waker c"
  by (simp_all add: upd_space_def)

lemma cc_inv_frame [simp]:
  "cc_inv C ok flying T (c\<lparr>cc_loss_detection_timer := t\<rparr>) = cc_inv C ok flying T c"
  "cc_inv C ok flying T (c\<lparr>cc_pto_count := n\<rparr>) = cc_inv C ok flying T c"
  "cc_inv C ok flying T (c\<lparr>cc_pending_burst := b\<rparr>) = cc_inv C ok flying T c"
  "cc_inv C ok flying T (c\<lparr>cc_trackers := l\<rparr>) = cc_inv C ok flying T c"
  "cc_inv C ok flying T (c\<lparr>cc_need_send_ack_eliciting_packets := f\<rparr>) = cc_inv C ok flying T c"
  "cc_inv C ok flying T (c\<lparr>cc_tx_waker := w\<rparr>) = cc_inv C ok flying T c"
  by (simp_all add: cc_inv_def over_epochs_eq)

lemma no_eliciting_subset:
  assumes "ps_no_ack_eliciting_in_flight s" "{p \<in> set (ps_sent_packets s'). sp_state p = Inflight} \<subseteq> set (ps_sent_packets s)"
  shows "ps_no_ack_eliciting_in_flight s'"
  using assms by (fastforce simp: ps_no_ack_eliciting_in_flight_def list_all_iff)

text \<open>A step that replaces the packets of one space, keeping the bytes in flight balanced, keeps the invariant.\<close>

lemma cc_inv_replace:
  assumes I: "cc_inv C ok flying T c" and alg: "ok a" "flying a + flight_bytes (kept c e) = flying (cc_algorithm c) + flight_bytes (ps_sent_packets s)"
    "ctl_congestion_window C a + open_bytes (ps_sent_packets s) \<le> ctl_congestion_window C (cc_algorithm c) + open_bytes (kept c e)"
    and s: "numbered (ps_sent_packets s)" "ps_no_ack_eliciting_in_flight s \<or> ps_time_of_last_ack_eliciting_packet s \<noteq> None"
  shows "cc_inv C ok flying T ((upd_space e (\<lambda>_. s) c)\<lparr>cc_algorithm := a\<rparr>)"
proof -
  let ?c = "(upd_space e (\<lambda>_. s) c)\<lparr>cc_algorithm := a\<rparr>"
  have k: "kept ?c = (kept c)(e := ps_sent_packets s)" by simp
  have "over_epochs flight_bytes ?c + flight_bytes (kept c e) = over_epochs flight_bytes c + flight_bytes (ps_sent_packets s)" by (rule over_epochs_upd [OF k])
  then have "flying a = over_epochs flight_bytes ?c" using I alg(2) by (simp add: cc_inv_def)
  moreover have "over_epochs open_bytes ?c + open_bytes (kept c e) = over_epochs open_bytes c + open_bytes (ps_sent_packets s)" by (rule over_epochs_upd [OF k])
  then have "ctl_congestion_window C a + over_epochs open_bytes ?c \<le> T" using I alg(3) by (simp add: cc_inv_def)
  moreover have "\<forall>e. numbered (kept ?c e)" "\<forall>e. ps_no_ack_eliciting_in_flight (cc_packet_spaces ?c e) \<or> ps_time_of_last_ack_eliciting_packet (cc_packet_spaces ?c e) \<noteq> None"
    using I s by (simp_all add: cc_inv_def)
  ultimately show ?thesis using I alg(1) unfolding cc_inv_def by simp
qed

lemma cc_inv_space:
  assumes "cc_inv C ok flying T c" "ps_sent_packets (f (cc_packet_spaces c e)) = kept c e"
    "ps_time_of_last_ack_eliciting_packet (cc_packet_spaces c e) \<noteq> None \<longrightarrow> ps_time_of_last_ack_eliciting_packet (f (cc_packet_spaces c e)) \<noteq> None"
  shows "cc_inv C ok flying T (upd_space e f c)"
proof -
  have k: "kept (upd_space e f c) = kept c" using assms(2) by (simp add: fun_eq_iff)
  have "ps_no_ack_eliciting_in_flight (f (cc_packet_spaces c e)) = ps_no_ack_eliciting_in_flight (cc_packet_spaces c e)"
    using assms(2) by (simp add: ps_no_ack_eliciting_in_flight_def kept_def)
  then have "\<forall>e'. ps_no_ack_eliciting_in_flight (cc_packet_spaces (upd_space e f c) e') \<or> ps_time_of_last_ack_eliciting_packet (cc_packet_spaces (upd_space e f c) e') \<noteq> None"
    using assms(1,3) by (auto simp: cc_inv_def)
  then show ?thesis using assms(1) over_epochs_kept [OF k] unfolding cc_inv_def by (simp only: k upd_space_simps) simp
qed

subsection \<open>The timer\<close>

lemma backed_off_ok:
  assumes "cc_max_ack_delay c \<le> 2 ^ 58" "cc_pto_count c < 32" "d \<le> 2 ^ 93 + 2 ^ 59"
  obtains x where "backed_off_ack_delay c d = Ret x"
proof -
  have "(2 :: nat) ^ cc_pto_count c \<le> 2 ^ 31" using assms(2) by (intro power_increasing) simp_all
  then have le: "cc_max_ack_delay c * 2 ^ cc_pto_count c \<le> 2 ^ 58 * 2 ^ 31" using assms(1) by (intro mult_le_mono)
  have c: "dur_checked x = Ret x" if "x \<le> 2 ^ 93 + 2 ^ 59 + 2 ^ 89" for x using that by (simp add: dur_checked_def NANOS_def)
  have "cc_max_ack_delay c * 2 ^ cc_pto_count c \<le> 2 ^ 93 + 2 ^ 59 + 2 ^ 89" "d + cc_max_ack_delay c * 2 ^ cc_pto_count c \<le> 2 ^ 93 + 2 ^ 59 + 2 ^ 89" using le assms(3) by simp_all
  then have "backed_off_ack_delay c d = Ret (d + cc_max_ack_delay c * 2 ^ cc_pto_count c)"
    unfolding backed_off_ack_delay_def shl32_def if_P [OF assms(2)] bind_run.simps by (simp only: c bind_run.simps)
  then show thesis by (rule that)
qed

lemma pto_loop_step:
  assumes "ps_no_ack_eliciting_in_flight (cc_packet_spaces c e) \<or> ps_time_of_last_ack_eliciting_packet (cc_packet_spaces c e) \<noteq> None" "e \<noteq> EpData"
  obtains p' where "pto_loop c (e # es) d p = pto_loop c es d p'"
proof (cases "ps_no_ack_eliciting_in_flight (cc_packet_spaces c e)")
  case True
  then show thesis using that by simp
next
  case False
  then obtain t where "ps_time_of_last_ack_eliciting_packet (cc_packet_spaces c e) = Some t" using assms(1) by blast
  then show thesis using that False assms(2) by (simp add: Let_def)
qed

lemma get_pto_ok:
  assumes I: "cc_inv C ok flying T c" and n: "cc_pto_count c < 32"
  obtains p where "get_pto_time_and_epoch now c = Ret p"
proof -
  have rtt: "rtt_ok (cc_rtt c)" and d: "cc_max_ack_delay c \<le> 2 ^ 58" and el: "\<And>e. ps_no_ack_eliciting_in_flight (cc_packet_spaces c e) \<or> ps_time_of_last_ack_eliciting_packet (cc_packet_spaces c e) \<noteq> None"
    using I by (auto simp: cc_inv_def)
  obtain b where b: "rtt_base_pto (cc_pto_count c) (cc_rtt c) = Ret b" "b \<le> 2 ^ 93 + 2 ^ 59" using base_pto_ok [OF rtt n] by blast
  obtain p1 where p1: "pto_loop c [EpInitial, EpHandshake, EpData] b None = pto_loop c [EpHandshake, EpData] b p1" using pto_loop_step [OF el] by blast
  obtain p2 where p2: "pto_loop c [EpHandshake, EpData] b p1 = pto_loop c [EpData] b p2" using pto_loop_step [OF el, of EpHandshake] by blast
  obtain x where x: "backed_off_ack_delay c b = Ret x" using backed_off_ok [OF d n b(2)] by blast
  have "\<exists>p. pto_loop c [EpData] b p2 = Ret p"
  proof (cases "ps_no_ack_eliciting_in_flight (cc_packet_spaces c EpData)")
    case False
    then obtain t where "ps_time_of_last_ack_eliciting_packet (cc_packet_spaces c EpData) = Some t" using el [of EpData] by blast
    then show ?thesis using x by (simp add: Let_def)
  qed simp
  then obtain p where p: "pto_loop c EPOCHS b None = Ret p" unfolding EPOCHS_def p1 p2 by blast
  then show thesis using that b(1) by (cases "cc_no_ack_eliciting_in_flight c") (simp_all add: get_pto_time_and_epoch_def)
qed

lemma set_timer_ok:
  assumes "cc_inv C ok flying T c" "cc_pto_count c < 32"
  obtains t where "set_loss_detection_timer now c = Ret (c\<lparr>cc_loss_detection_timer := t\<rparr>)"
proof -
  obtain p where p: "get_pto_time_and_epoch now c = Ret p" by (rule get_pto_ok [OF assms])
  show thesis
  proof (cases "get_loss_time_and_epoch c")
    case None
    then have "set_loss_detection_timer now c = Ret (c\<lparr>cc_loss_detection_timer :=
      (if st_is_at_anti_amplification_limit (cc_path_status c) \<or> cc_no_ack_eliciting_in_flight c \<and> peer_completed_address_validation c then None else map_option fst p)\<rparr>)"
      using p by (simp add: set_loss_detection_timer_def)
    then show thesis by (rule that)
  next
    case (Some x)
    then show thesis using that by (cases x) (simp add: set_loss_detection_timer_def)
  qed
qed

subsection \<open>The operations\<close>

text \<open>A step in which the packets of space \<open>e\<close> in flight become \<open>K\<close>, less those it reports lost.\<close>

definition numbers_kept :: "'a controller \<Rightarrow> epoch \<Rightarrow> nat set" where
  "numbers_kept c e = sp_packet_number ` set (kept c e)"

definition loss_frame :: "epoch \<Rightarrow> nat set \<Rightarrow> 'a controller \<Rightarrow> 'a controller \<Rightarrow> (epoch \<times> nat list) list \<Rightarrow> bool" where
  "loss_frame e K c c' new \<longleftrightarrow>
     cc_trackers c' = cc_trackers c @ new \<and> (\<forall>e'. e' \<noteq> e \<longrightarrow> reported new e' = []) \<and> distinct (reported new e) \<and> set (reported new e) \<subseteq> K \<and>
     in_flight_numbers c' = (in_flight_numbers c)(e := K - set (reported new e)) \<and>
     cc_path_status c' = cc_path_status c \<and> (\<forall>e'. numbers_kept c' e' \<subseteq> numbers_kept c e')"

lemma loss_frame_quiet: "loss_frame e (in_flight_numbers c e) c c []"
  by (simp add: loss_frame_def)

lemma loss_frame_step:
  assumes "loss_frame e K c c1 new" "cc_trackers c2 = cc_trackers c1" "kept c2 = kept c1" "cc_path_status c2 = cc_path_status c1"
  shows "loss_frame e K c c2 new"
  using assms by (simp add: loss_frame_def in_flight_numbers_def numbers_kept_def fun_eq_iff)

lemma loss_frame_trans:
  assumes "loss_frame e K c c1 []" "loss_frame e (in_flight_numbers c1 e) c1 c2 new"
  shows "loss_frame e K c c2 new"
  using assms unfolding loss_frame_def by fastforce

text \<open>A packet that \<open>PACKET_THRESHOLD\<close> later packets, up to the largest acknowledged number, leave behind.\<close>

definition threshold_lost :: "nat \<Rightarrow> sent_packet list \<Rightarrow> sent_packet \<Rightarrow> bool" where
  "threshold_lost la ps p \<longleftrightarrow> sp_state p = Inflight \<and> sp_packet_number p \<le> la \<and> PACKET_THRESHOLD \<le> length (sent_after la ps p)"

definition after_ack :: "(nat \<times> nat) list \<Rightarrow> sent_packet list \<Rightarrow> sent_packet list" where
  "after_ack rs ps = dropWhile (\<lambda>p. sp_state p \<noteq> Inflight) (mark_acked (covered rs) ps)"

text \<open>Room for one more probe: the timeout has doubled fewer than 31 times and the count of probes asked for is not at its end.\<close>

definition headroom :: "'a controller \<Rightarrow> bool" where
  "headroom c \<longleftrightarrow> cc_pto_count c < 31 \<and> (\<forall>e. cc_need_send_ack_eliciting_packets c e + 1 < u64_bound)"

context congestion_algorithm
begin

abbreviation keeps_books :: "nat \<Rightarrow> 'a controller \<Rightarrow> bool" where
  "keeps_books \<equiv> cc_inv C ok flying"

lemma flight_below: "keeps_books T c \<Longrightarrow> flight_bytes (kept c e) \<le> flying (cc_algorithm c)"
  using over_epochs_le [of flight_bytes c e] by (simp add: cc_inv_def)

lemma open_below: "keeps_books T c \<Longrightarrow> ctl_congestion_window C (cc_algorithm c) + open_bytes (kept c e) < 2 ^ 48"
  using over_epochs_le [of open_bytes c e] by (auto simp: cc_inv_def)

lemma report_lost_ok:
  assumes "keeps_books T c"
  obtains c' new where "report_lost C now e c = Ret c'" "keeps_books T c'" "loss_frame e (in_flight_numbers c e) c c' new"
    "cc_pto_count c' = cc_pto_count c" "cc_need_send_ack_eliciting_packets c' = cc_need_send_ack_eliciting_packets c"
    "\<forall>p \<in> set (kept c e). \<forall>n. threshold_lost n (kept c e) p \<and> ps_largest_acked_packet (cc_packet_spaces c e) = Some n \<longrightarrow> sp_packet_number p \<in> set (reported new e)"
proof -
  let ?s = "cc_packet_spaces c e"
  have ok: "ok (cc_algorithm c)" "numbered (ps_sent_packets ?s)" "rtt_ok (cc_rtt c)" using assms by (simp_all add: cc_inv_def kept_def)
  have fb: "flight_bytes (ps_sent_packets ?s) \<le> flying (cc_algorithm c)" using flight_below [OF assms, of e] by (simp add: kept_def)
  obtain d where d: "rtt_loss_delay (cc_rtt c) = Ret d" using loss_delay_ok [OF ok(3)] .
  obtain pns a' ps' t where
    r: "detect_lost_packets C now d PACKET_THRESHOLD (cc_algorithm c) ?s = Ret (pns, a', ?s\<lparr>ps_loss_time := t, ps_sent_packets := ps'\<rparr>)" "ok a'" "numbered ps'"
      "flying a' + flight_bytes (ps_sent_packets ?s) = flying (cc_algorithm c) + flight_bytes ps'"
      "ctl_congestion_window C a' + open_bytes ps' \<le> ctl_congestion_window C (cc_algorithm c) + open_bytes (ps_sent_packets ?s)"
      "set pns \<subseteq> flying_numbers (ps_sent_packets ?s)" "flying_numbers ps' = flying_numbers (ps_sent_packets ?s) - set pns"
      "{p \<in> set ps'. sp_state p = Inflight} \<subseteq> set (ps_sent_packets ?s)" "distinct pns" "sp_packet_number ` set ps' = sp_packet_number ` set (ps_sent_packets ?s)"
      "\<forall>p \<in> set (ps_sent_packets ?s). is_lost now d PACKET_THRESHOLD (case ps_largest_acked_packet ?s of None \<Rightarrow> 0 | Some n \<Rightarrow> n) (ps_sent_packets ?s) p \<longrightarrow> sp_packet_number p \<in> set pns"
    by (rule detect_law [OF ok(1,2) fb, of now d PACKET_THRESHOLD])
  let ?s' = "?s\<lparr>ps_loss_time := t, ps_sent_packets := ps'\<rparr>"
  define c1 where "c1 = (upd_space e (\<lambda>_. ?s') c)\<lparr>cc_algorithm := a'\<rparr>"
  define c' where "c' = c1\<lparr>cc_trackers := cc_trackers c @ [(e, pns)]\<rparr>"
  have "ps_no_ack_eliciting_in_flight ?s' \<or> ps_time_of_last_ack_eliciting_packet ?s' \<noteq> None"
    using assms no_eliciting_subset [of ?s ?s'] r(8) by (auto simp: cc_inv_def)
  then have "keeps_books T c1" unfolding c1_def using r(3,4,5) by (intro cc_inv_replace [OF assms r(2)]) (simp_all add: kept_def)
  then have inv: "keeps_books T c'" by (simp add: c'_def)
  have "report_lost C now e c = Ret c'" using d r(1) by (simp add: report_lost_def c'_def c1_def)
  moreover have "loss_frame e (in_flight_numbers c e) c c' [(e, pns)]"
    using r(6,7,9,10) by (auto simp: loss_frame_def c'_def c1_def in_flight_numbers_def numbers_kept_def fun_eq_iff kept_def)
  moreover have "\<forall>p \<in> set (kept c e). \<forall>n. threshold_lost n (kept c e) p \<and> ps_largest_acked_packet ?s = Some n \<longrightarrow> sp_packet_number p \<in> set (reported [(e, pns)] e)"
    using r(11) by (auto simp: is_lost_def threshold_lost_def kept_def)
  ultimately show thesis using inv by (intro that [of c' "[(e, pns)]"]) (simp_all add: c'_def c1_def)
qed

lemma on_ack_rcvd_ok:
  assumes I: "keeps_books T c" and n: "cc_pto_count c < 32" and now: "now \<le> RTT_MAX" and f: "ack_iter f = Ret rs" "into_inner (ack_delay f) < 2 ^ 62"
  obtains c' new where "on_ack_rcvd C now e f c = Ret c'" "keeps_books T c'" "loss_frame e {x \<in> in_flight_numbers c e. \<not> covered rs x} c c' new"
    "cc_pto_count c' \<le> cc_pto_count c" "cc_need_send_ack_eliciting_packets c' = cc_need_send_ack_eliciting_packets c"
    "newly_acked (covered rs) (kept c e) \<noteq> [] \<longrightarrow> (\<exists>n \<ge> into_inner (ack_largest f). \<forall>p \<in> set (after_ack rs (kept c e)). threshold_lost n (after_ack rs (kept c e)) p \<longrightarrow> sp_packet_number p \<in> set (reported new e))"
proof -
  define c0 where "c0 = upd_space e (update_largest_acked_packet (into_inner (ack_largest f))) c"
  have k0: "kept c0 = kept c" by (simp add: c0_def update_largest_acked_packet_def fun_eq_iff) (simp add: kept_def)
  have I0: "keeps_books T c0" unfolding c0_def by (rule cc_inv_space [OF I]) (simp_all add: update_largest_acked_packet_def kept_def)
  let ?s = "cc_packet_spaces c0 e"
  have ok: "ok (cc_algorithm c0)" "numbered (ps_sent_packets ?s)" using I0 by (simp_all add: cc_inv_def kept_def)
  have fb: "flight_bytes (ps_sent_packets ?s) \<le> flying (cc_algorithm c0)" and ob: "ctl_congestion_window C (cc_algorithm c0) + open_bytes (ps_sent_packets ?s) < 2 ^ 48"
    using flight_below [OF I0, of e] open_below [OF I0, of e] by (simp_all add: kept_def)
  obtain newly a' ps' where
    r: "ps_on_ack_rcvd C f (cc_algorithm c0) ?s = Ret (newly, a', ?s\<lparr>ps_sent_packets := ps'\<rparr>)" "ok a'" "numbered ps'"
      "flying a' + flight_bytes (ps_sent_packets ?s) = flying (cc_algorithm c0) + flight_bytes ps'"
      "ctl_congestion_window C a' + open_bytes ps' \<le> ctl_congestion_window C (cc_algorithm c0) + open_bytes (ps_sent_packets ?s)"
      "flying_numbers ps' = {x \<in> flying_numbers (ps_sent_packets ?s). \<not> covered rs x}" "{p \<in> set ps'. sp_state p = Inflight} \<subseteq> set (ps_sent_packets ?s)"
      "sp_packet_number ` set ps' \<subseteq> sp_packet_number ` set (ps_sent_packets ?s)"
      "ps' = dropWhile (\<lambda>p. sp_state p \<noteq> Inflight) (mark_acked (covered rs) (ps_sent_packets ?s))" "newly = None \<longleftrightarrow> newly_acked (covered rs) (ps_sent_packets ?s) = []"
    by (rule ack_rcvd_law [OF ok fb ob f(1)])
  let ?s' = "?s\<lparr>ps_sent_packets := ps'\<rparr>"
  define c1 where "c1 = (upd_space e (\<lambda>_. ?s') c0)\<lparr>cc_algorithm := a'\<rparr>"
  have "ps_no_ack_eliciting_in_flight ?s' \<or> ps_time_of_last_ack_eliciting_packet ?s' \<noteq> None"
    using I0 no_eliciting_subset [of ?s ?s'] r(7) by (auto simp: cc_inv_def)
  then have I1: "keeps_books T c1" unfolding c1_def using r(3,4,5) by (intro cc_inv_replace [OF I0 r(2)]) (simp_all add: kept_def)
  have k1: "kept c1 = (kept c)(e := ps')" by (simp add: c1_def k0)
  have fr: "cc_trackers c1 = cc_trackers c" "cc_path_status c1 = cc_path_status c" "cc_pto_count c1 = cc_pto_count c" "cc_need_send_ack_eliciting_packets c1 = cc_need_send_ack_eliciting_packets c"
    by (simp_all add: c1_def c0_def)
  have ps: "ps_sent_packets ?s = kept c e" using k0 by (simp add: kept_def fun_eq_iff)
  have L1: "loss_frame e {x \<in> in_flight_numbers c e. \<not> covered rs x} c c1 []"
    using r(6,8) by (auto simp: loss_frame_def in_flight_numbers_def numbers_kept_def k1 fr ps fun_eq_iff)
  have start: "on_ack_rcvd C now e f c = (case newly of None \<Rightarrow> Ret c1 | Some nw \<Rightarrow>
     bind_run (if fst (na_largest nw) = into_inner (ack_largest f) \<and> na_include_ack_eliciting nw
               then bind_run (rtt_update now (now - snd (na_largest nw)) (into_inner (ack_delay f) * 1000) (st_is_handshake_confirmed (cc_path_status c1)) (cc_rtt c1)) (\<lambda>r. Ret (c1\<lparr>cc_rtt := r\<rparr>))
               else Ret c1) (\<lambda>c.
     bind_run (if ack_ecn f \<noteq> None then cc_process_ecn C now f (snd (na_largest nw)) e c else Ret c) (\<lambda>c.
     bind_run (report_lost C now e c) (\<lambda>c. set_loss_detection_timer now (if peer_completed_address_validation c then c\<lparr>cc_pto_count := 0\<rparr> else c)))))"
    unfolding on_ack_rcvd_def Let_def c0_def [symmetric] r(1) bind_run.simps prod.case c1_def [symmetric] ..
  show thesis
  proof (cases newly)
    case None
    then show thesis using start I1 L1 fr r(10) ps by (intro that [of c1 "[]"]) simp_all
  next
    case (Some nw)
    have rl: "rtt_ok (cc_rtt c1)" "now - snd (na_largest nw) \<le> RTT_MAX" "into_inner (ack_delay f) * 1000 < 2 ^ 72" using I1 now f(2) by (simp_all add: cc_inv_def)
    obtain r' where r': "rtt_update now (now - snd (na_largest nw)) (into_inner (ack_delay f) * 1000) (st_is_handshake_confirmed (cc_path_status c1)) (cc_rtt c1) = Ret r'" "rtt_ok r'"
      by (rule rtt_update_ok [OF rl])
    define c2 where "c2 = (if fst (na_largest nw) = into_inner (ack_largest f) \<and> na_include_ack_eliciting nw then c1\<lparr>cc_rtt := r'\<rparr> else c1)"
    have I2: "keeps_books T c2" using I1 r'(2) by (simp add: c2_def cc_inv_def over_epochs_eq)
    have f2: "kept c2 = kept c1" "cc_trackers c2 = cc_trackers c1" "cc_path_status c2 = cc_path_status c1" "cc_pto_count c2 = cc_pto_count c1"
      "cc_need_send_ack_eliciting_packets c2 = cc_need_send_ack_eliciting_packets c1" by (simp_all add: c2_def)
    obtain a3 where a3: "ctl_process_ecn C now f (snd (na_largest nw)) e (cc_algorithm c2) = Ret a3" "ok a3" "flying a3 = flying (cc_algorithm c2)" "ctl_congestion_window C a3 \<le> ctl_congestion_window C (cc_algorithm c2)"
      using ecn_law [of "cc_algorithm c2" now f "snd (na_largest nw)" e] I2 unfolding cc_inv_def by blast
    define c3 where "c3 = (if ack_ecn f \<noteq> None then c2\<lparr>cc_algorithm := a3\<rparr> else c2)"
    have I3: "keeps_books T c3" using I2 a3 by (auto simp: c3_def cc_inv_def over_epochs_eq)
    have f3: "kept c3 = kept c1" "cc_trackers c3 = cc_trackers c1" "cc_path_status c3 = cc_path_status c1" "cc_pto_count c3 = cc_pto_count c"
      "cc_need_send_ack_eliciting_packets c3 = cc_need_send_ack_eliciting_packets c" by (simp_all add: c3_def f2 fr)
    obtain c4 new where c4: "report_lost C now e c3 = Ret c4" "keeps_books T c4" "loss_frame e (in_flight_numbers c3 e) c3 c4 new" "cc_pto_count c4 = cc_pto_count c3"
      "cc_need_send_ack_eliciting_packets c4 = cc_need_send_ack_eliciting_packets c3"
      "\<forall>p \<in> set (kept c3 e). \<forall>n. threshold_lost n (kept c3 e) p \<and> ps_largest_acked_packet (cc_packet_spaces c3 e) = Some n \<longrightarrow> sp_packet_number p \<in> set (reported new e)"
      by (rule report_lost_ok [OF I3])
    have "kept c3 e = after_ack rs (kept c e)" using k1 f3(1) r(9) ps by (simp add: after_ack_def)
    moreover have "\<exists>n \<ge> into_inner (ack_largest f). ps_largest_acked_packet (cc_packet_spaces c3 e) = Some n"
      by (simp add: c3_def c2_def c1_def c0_def update_largest_acked_packet_def split: option.split)
    ultimately have thr: "\<exists>n \<ge> into_inner (ack_largest f). \<forall>p \<in> set (after_ack rs (kept c e)). threshold_lost n (after_ack rs (kept c e)) p \<longrightarrow> sp_packet_number p \<in> set (reported new e)"
      using c4(6) by metis
    define c5 where "c5 = (if peer_completed_address_validation c4 then c4\<lparr>cc_pto_count := 0\<rparr> else c4)"
    have "keeps_books T c5" "cc_pto_count c5 < 32" using c4(2,4) f3 n by (simp_all add: c5_def)
    then obtain t where t: "set_loss_detection_timer now c5 = Ret (c5\<lparr>cc_loss_detection_timer := t\<rparr>)" by (rule set_timer_ok)
    have L: "loss_frame e {x \<in> in_flight_numbers c e. \<not> covered rs x} c c4 new"
      by (rule loss_frame_trans [OF loss_frame_step [OF L1 f3(2,1,3)] c4(3)])
    have e2: "(if fst (na_largest nw) = into_inner (ack_largest f) \<and> na_include_ack_eliciting nw
      then bind_run (rtt_update now (now - snd (na_largest nw)) (into_inner (ack_delay f) * 1000) (st_is_handshake_confirmed (cc_path_status c1)) (cc_rtt c1)) (\<lambda>r. Ret (c1\<lparr>cc_rtt := r\<rparr>))
      else Ret c1) = Ret c2" using r'(1) by (simp add: c2_def)
    have e3: "(if ack_ecn f \<noteq> None then cc_process_ecn C now f (snd (na_largest nw)) e c2 else Ret c2) = Ret c3" using a3(1) by (simp add: c3_def cc_process_ecn_def)
    have "on_ack_rcvd C now e f c = Ret (c5\<lparr>cc_loss_detection_timer := t\<rparr>)"
      unfolding start Some option.case e2 bind_run.simps e3 c4(1) c5_def [symmetric] t ..
    moreover have "loss_frame e {x \<in> in_flight_numbers c e. \<not> covered rs x} c (c5\<lparr>cc_loss_detection_timer := t\<rparr>) new" by (rule loss_frame_step [OF L]) (simp_all add: c5_def)
    ultimately show thesis using c4(2,4,5) f3 thr by (intro that [of "c5\<lparr>cc_loss_detection_timer := t\<rparr>" new]) (simp_all add: c5_def)
  qed
qed

lemma timeout_ok:
  assumes I: "keeps_books T c" and h: "headroom c"
  obtains c' e new where "on_loss_detection_timeout C now c = Ret c'" "keeps_books T c'" "loss_frame e (in_flight_numbers c e) c c' new"
proof (cases "get_loss_time_and_epoch c")
  case None
  have n: "cc_pto_count c < 32" "cc_pto_count c + 1 < 32" using h by (simp_all add: headroom_def)
  obtain p where p: "get_pto_time_and_epoch now c = Ret p" by (rule get_pto_ok [OF I n(1)])
  have probe: "\<exists>w f. send_ack_eliciting_packet e 1 c = Ret (c\<lparr>cc_tx_waker := w, cc_need_send_ack_eliciting_packets := f\<rparr>)" for e
    using h by (auto simp: send_ack_eliciting_packet_def headroom_def add64_def)
  have "\<exists>w f. (if cc_no_ack_eliciting_in_flight c
                    then send_ack_eliciting_packet (if st_has_handshake_key (cc_path_status c) then EpHandshake else EpInitial) 1 c
                    else bind_run (get_pto_time_and_epoch now c) (\<lambda>p.
                         case p of Some (_, epoch) \<Rightarrow> send_ack_eliciting_packet epoch 1 c | None \<Rightarrow> Ret c)) = Ret (c\<lparr>cc_tx_waker := w, cc_need_send_ack_eliciting_packets := f\<rparr>)"
  proof (cases p)
    case None
    have "\<exists>w f. c = c\<lparr>cc_tx_waker := w, cc_need_send_ack_eliciting_packets := f\<rparr>"
      by (rule exI [of _ "cc_tx_waker c"], rule exI [of _ "cc_need_send_ack_eliciting_packets c"]) simp
    then show ?thesis using p None probe by (cases "cc_no_ack_eliciting_in_flight c") simp_all
  next
    case (Some x)
    then show ?thesis using p probe by (cases "cc_no_ack_eliciting_in_flight c"; cases x) auto
  qed
  then obtain w f where c1: "(if cc_no_ack_eliciting_in_flight c
                    then send_ack_eliciting_packet (if st_has_handshake_key (cc_path_status c) then EpHandshake else EpInitial) 1 c
                    else bind_run (get_pto_time_and_epoch now c) (\<lambda>p.
                         case p of Some (_, epoch) \<Rightarrow> send_ack_eliciting_packet epoch 1 c | None \<Rightarrow> Ret c)) = Ret (c\<lparr>cc_tx_waker := w, cc_need_send_ack_eliciting_packets := f\<rparr>)" by blast
  define c2 where "c2 = c\<lparr>cc_tx_waker := w, cc_need_send_ack_eliciting_packets := f, cc_pto_count := cc_pto_count c + 1\<rparr>"
  have "keeps_books T c2" "cc_pto_count c2 < 32" using I n by (simp_all add: c2_def)
  then obtain t where t: "set_loss_detection_timer now c2 = Ret (c2\<lparr>cc_loss_detection_timer := t\<rparr>)" by (rule set_timer_ok)
  have "on_loss_detection_timeout C now c = Ret (c2\<lparr>cc_loss_detection_timer := t\<rparr>)"
    unfolding on_loss_detection_timeout_def None option.case c1 bind_run.simps using n t by (simp add: c2_def assert_run_def)
  moreover have "loss_frame EpInitial (in_flight_numbers c EpInitial) c (c2\<lparr>cc_loss_detection_timer := t\<rparr>) []"
    by (rule loss_frame_step [OF loss_frame_quiet]) (simp_all add: c2_def)
  moreover have "keeps_books T (c2\<lparr>cc_loss_detection_timer := t\<rparr>)" using I by (simp add: c2_def)
  ultimately show thesis using that by blast
next
  case (Some x)
  obtain t0 e where x: "x = (t0, e)" by (cases x)
  obtain c1 new where c1: "report_lost C now e c = Ret c1" "keeps_books T c1" "loss_frame e (in_flight_numbers c e) c c1 new" "cc_pto_count c1 = cc_pto_count c" by (rule report_lost_ok [OF I])
  obtain t where t: "set_loss_detection_timer now c1 = Ret (c1\<lparr>cc_loss_detection_timer := t\<rparr>)" using set_timer_ok [OF c1(2)] c1(4) h by (auto simp: headroom_def)
  have "on_loss_detection_timeout C now c = Ret (c1\<lparr>cc_loss_detection_timer := t\<rparr>)" unfolding on_loss_detection_timeout_def Some x option.case prod.case c1(1) bind_run.simps t ..
  moreover have "loss_frame e (in_flight_numbers c e) c (c1\<lparr>cc_loss_detection_timer := t\<rparr>) new" by (rule loss_frame_step [OF c1(3)]) simp_all
  moreover have "keeps_books T (c1\<lparr>cc_loss_detection_timer := t\<rparr>)" using c1(2) by simp
  ultimately show thesis using that by blast
qed

lemma discard_epoch_ok:
  assumes I: "keeps_books T c" and e: "e \<noteq> EpData"
  obtains c' where "discard_epoch C now e c = Ret c'" "keeps_books T c'" "loss_frame e {} c c' []" "kept c' = (kept c)(e := [])"
proof -
  let ?s = "cc_packet_spaces c e"
  have ok: "ok (cc_algorithm c)" and fb: "flight_bytes (ps_sent_packets ?s) \<le> flying (cc_algorithm c)" using I flight_below [OF I, of e] by (simp_all add: cc_inv_def kept_def)
  let ?s' = "?s\<lparr>ps_sent_packets := [], ps_time_of_last_ack_eliciting_packet := None, ps_loss_time := None\<rparr>"
  obtain a' where a': "ps_discard C (cc_algorithm c) ?s = Ret (a', ?s')" "ok a'" "flying a' + flight_bytes (ps_sent_packets ?s) = flying (cc_algorithm c)"
    "ctl_congestion_window C a' = ctl_congestion_window C (cc_algorithm c)" by (rule discard_law [OF ok fb])
  define c1 where "c1 = (upd_space e (\<lambda>_. ?s') c)\<lparr>cc_algorithm := a'\<rparr>"
  have I1: "keeps_books T c1" unfolding c1_def
    using a'(3,4) by (intro cc_inv_replace [OF I a'(2)]) (simp_all add: kept_def bytes_simps numbered_def ps_no_ack_eliciting_in_flight_def)
  define c2 where "c2 = c1\<lparr>cc_loss_detection_timer := None, cc_pto_count := 0\<rparr>"
  have "keeps_books T c2" "cc_pto_count c2 < 32" using I1 by (simp_all add: c2_def)
  then obtain t where t: "set_loss_detection_timer now c2 = Ret (c2\<lparr>cc_loss_detection_timer := t\<rparr>)" by (rule set_timer_ok)
  have "(upd_space e (\<lambda>_. ?s') c)\<lparr>cc_algorithm := a', cc_loss_detection_timer := None, cc_pto_count := 0\<rparr> = c2" by (simp add: c2_def c1_def)
  then have "discard_epoch C now e c = Ret (c2\<lparr>cc_loss_detection_timer := t\<rparr>)"
    using e a'(1) t by (simp add: discard_epoch_def)
  moreover have k: "kept c2 = (kept c)(e := [])" by (simp add: c2_def c1_def)
  have "cc_trackers c2 = cc_trackers c" "cc_path_status c2 = cc_path_status c" by (simp_all add: c2_def c1_def)
  then have "loss_frame e {} c c2 []" using k by (simp add: loss_frame_def in_flight_numbers_def numbers_kept_def flying_numbers_def fun_eq_iff)
  then have "loss_frame e {} c (c2\<lparr>cc_loss_detection_timer := t\<rparr>) []" by (rule loss_frame_step) simp_all
  moreover have "keeps_books T (c2\<lparr>cc_loss_detection_timer := t\<rparr>)" "kept (c2\<lparr>cc_loss_detection_timer := t\<rparr>) = (kept c)(e := [])" using I1 k by (simp_all add: c2_def)
  ultimately show thesis using that by blast
qed

lemma on_packet_sent_ok:
  assumes I: "keeps_books T c" and n: "cc_pto_count c < 32" and pn: "\<forall>x \<in> numbers_kept c e. x < pn" and el: "ack_eliciting \<longrightarrow> in_flight" and T: "T + bytes < 2 ^ 48"
  obtains c' where "on_packet_sent C now pn e ack_eliciting in_flight bytes c = Ret c'" "keeps_books (T + bytes) c'"
    "kept c' = (kept c)(e := kept c e @ [sent_packet_new pn now ack_eliciting in_flight bytes])" "cc_trackers c' = cc_trackers c" "cc_path_status c' = cc_path_status c"
    "cc_pto_count c' = cc_pto_count c" "\<forall>e'. cc_need_send_ack_eliciting_packets c' e' \<le> cc_need_send_ack_eliciting_packets c e'"
proof -
  define sent where "sent = sent_packet_new pn now ack_eliciting in_flight bytes"
  define push where "push = (\<lambda>c :: 'a controller. (upd_space e (\<lambda>s. s\<lparr>ps_sent_packets := ps_sent_packets s @ [sent]\<rparr>) c)\<lparr>cc_pacer := pacer_on_sent bytes (cc_pacer c)\<rparr>)"
  have num: "numbered (kept c e @ [sent])" using I pn by (auto simp: cc_inv_def numbered_def sorted_wrt_append numbers_kept_def sent_def sent_packet_new_def)
  have st: "sp_state sent = Inflight" "sp_count_for_cc sent = in_flight" "sp_sent_bytes sent = bytes" "sp_ack_eliciting sent = ack_eliciting" by (simp_all add: sent_def sent_packet_new_def)
  have fin: "keeps_books (T + bytes) (push c1) \<and> kept (push c1) = (kept c)(e := kept c e @ [sent]) \<and> cc_trackers (push c1) = cc_trackers c \<and> cc_path_status (push c1) = cc_path_status c"
    if c1: "ok (cc_algorithm c1)" "flying (cc_algorithm c1) = flying (cc_algorithm c) + (if in_flight then bytes else 0)" "ctl_congestion_window C (cc_algorithm c1) = ctl_congestion_window C (cc_algorithm c)"
      "kept c1 = kept c" "cc_trackers c1 = cc_trackers c" "cc_path_status c1 = cc_path_status c" "cc_rtt c1 = cc_rtt c" "cc_pacer c1 = cc_pacer c" "cc_max_ack_delay c1 = cc_max_ack_delay c"
      "\<forall>e'. ps_no_ack_eliciting_in_flight (cc_packet_spaces c1 e') \<or> ps_time_of_last_ack_eliciting_packet (cc_packet_spaces c1 e') \<noteq> None"
      "ack_eliciting \<longrightarrow> ps_time_of_last_ack_eliciting_packet (cc_packet_spaces c1 e) \<noteq> None" for c1
  proof -
    have k: "kept (push c1) = (kept c)(e := kept c e @ [sent])" using c1(4) by (simp add: push_def fun_eq_iff) (simp add: kept_def)
    have "over_epochs flight_bytes (push c1) = over_epochs flight_bytes c + (if in_flight then bytes else 0)" "over_epochs open_bytes (push c1) = over_epochs open_bytes c + bytes"
      using over_epochs_upd [OF k, of flight_bytes] over_epochs_upd [OF k, of open_bytes] st by (simp_all add: bytes_simps)
    moreover have "\<forall>e'. ps_no_ack_eliciting_in_flight (cc_packet_spaces (push c1) e') \<or> ps_time_of_last_ack_eliciting_packet (cc_packet_spaces (push c1) e') \<noteq> None"
      using c1(10,11) st by (auto simp: push_def ps_no_ack_eliciting_in_flight_def)
    moreover have "\<forall>e'. numbered (kept (push c1) e')" using num I by (simp add: k cc_inv_def)
    moreover have "pacer_ok (st_pmtu (cc_path_status c)) (pacer_on_sent bytes (cc_pacer c))" using I by (intro pacer_on_sent_ok) (simp add: cc_inv_def)
    ultimately have "keeps_books (T + bytes) (push c1)" using I T c1(1,2,3) unfolding cc_inv_def by (simp add: push_def c1)
    then show ?thesis using k c1 by (simp add: push_def)
  qed
  show thesis
  proof (cases in_flight)
    case False
    then have na: "\<not> ack_eliciting" using el by simp
    have "on_packet_sent C now pn e ack_eliciting in_flight bytes c = Ret (push c)" using False by (simp add: on_packet_sent_def push_def sent_def)
    moreover have pre: "ok (cc_algorithm c)" "\<forall>e'. ps_no_ack_eliciting_in_flight (cc_packet_spaces c e') \<or> ps_time_of_last_ack_eliciting_packet (cc_packet_spaces c e') \<noteq> None"
      using I by (simp_all add: cc_inv_def)
    ultimately show thesis using fin [of c, OF pre(1) _ refl refl refl refl refl refl refl pre(2)] False na by (intro that [of "push c"]) (simp_all add: sent_def, simp_all add: push_def)
  next
    case True
    define c1 where "c1 = (if ack_eliciting then (upd_space e (\<lambda>s. s\<lparr>ps_time_of_last_ack_eliciting_packet := Some now\<rparr>) c)
      \<lparr>cc_need_send_ack_eliciting_packets := (cc_need_send_ack_eliciting_packets c)(e := cc_need_send_ack_eliciting_packets c e - 1)\<rparr> else c)"
    have "keeps_books T (upd_space e (\<lambda>s. s\<lparr>ps_time_of_last_ack_eliciting_packet := Some now\<rparr>) c)" by (rule cc_inv_space [OF I]) (simp_all add: kept_def)
    then have I1: "keeps_books T c1" using I by (simp add: c1_def)
    have k1: "kept c1 = kept c" by (simp add: c1_def fun_eq_iff) (simp add: kept_def)
    have "flying (cc_algorithm c) + bytes < 2 ^ 48"
    proof -
      have "flight_bytes ps \<le> open_bytes ps" for ps by (induction ps) (auto simp: bytes_simps)
      then have "over_epochs flight_bytes c \<le> over_epochs open_bytes c" by (simp add: over_epochs_eq add_mono)
      then show ?thesis using I T by (simp add: cc_inv_def)
    qed
    then obtain a where a: "ctl_on_packet_sent_cc C sent (cc_algorithm c) = Ret a" "ok a" "flying a = flying (cc_algorithm c) + bytes" "ctl_congestion_window C a = ctl_congestion_window C (cc_algorithm c)"
      using sent_law [of "cc_algorithm c" sent] I st by (auto simp: cc_inv_def)
    define c2 where "c2 = c1\<lparr>cc_algorithm := a\<rparr>"
    obtain d where d: "rtt_loss_delay (cc_rtt c2) = Ret d" using loss_delay_ok [of "cc_rtt c2"] I1 by (auto simp: c2_def cc_inv_def)
    define c3 where "c3 = (case ps_loss_time (cc_packet_spaces c2 e) of Some _ \<Rightarrow> c2 | None \<Rightarrow> upd_space e (\<lambda>s. s\<lparr>ps_loss_time := Some (now + d)\<rparr>) c2)"
    have e3: "(case ps_loss_time (cc_packet_spaces c2 e) of Some _ \<Rightarrow> Ret c2 | None \<Rightarrow> bind_run (rtt_loss_delay (cc_rtt c2)) (\<lambda>d. Ret (upd_space e (\<lambda>s. s\<lparr>ps_loss_time := Some (now + d)\<rparr>) c2))) = Ret c3"
      using d by (simp add: c3_def split: option.split)
    have "\<exists>x. get_loss_time_and_epoch c3 = Some x"
    proof -
      have "ps_loss_time (cc_packet_spaces c3 e) \<noteq> None" by (simp add: c3_def split: option.split)
      then have "List.map_filter (\<lambda>e. map_option (\<lambda>t. (t, e)) (ps_loss_time (cc_packet_spaces c3 e))) EPOCHS \<noteq> []" by (cases e) (auto simp: EPOCHS_def List.map_filter_def)
      moreover have "xs \<noteq> [] \<Longrightarrow> \<exists>x. first_min xs = Some x" for xs by (cases xs) (auto split: option.split)
      ultimately show ?thesis by (simp add: get_loss_time_and_epoch_def)
    qed
    then obtain t where t: "set_loss_detection_timer now c3 = Ret (c3\<lparr>cc_loss_detection_timer := t\<rparr>)" by (auto simp: set_loss_detection_timer_def)
    have "on_packet_sent C now pn e ack_eliciting in_flight bytes c = Ret (push (c3\<lparr>cc_loss_detection_timer := t\<rparr>))"
    proof -
      have alg: "cc_algorithm c1 = cc_algorithm c" by (simp add: c1_def)
      show ?thesis unfolding on_packet_sent_def Let_def if_P [OF True] sent_def [symmetric] c1_def [symmetric] alg a(1) bind_run.simps c2_def [symmetric] e3 t push_def ..
    qed
    moreover have "kept c3 = kept c" using k1 by (auto simp: c3_def c2_def fun_eq_iff kept_def split: option.split)
    moreover have "\<forall>e'. ps_no_ack_eliciting_in_flight (cc_packet_spaces c3 e') \<or> ps_time_of_last_ack_eliciting_packet (cc_packet_spaces c3 e') \<noteq> None"
      using I1 by (auto simp: c3_def c2_def cc_inv_def ps_no_ack_eliciting_in_flight_def split: option.split)
    moreover have "ack_eliciting \<longrightarrow> ps_time_of_last_ack_eliciting_packet (cc_packet_spaces c3 e) \<noteq> None" by (simp add: c3_def c2_def c1_def split: option.split)
    moreover have "cc_algorithm c3 = a" "cc_trackers c3 = cc_trackers c" "cc_path_status c3 = cc_path_status c" "cc_rtt c3 = cc_rtt c" "cc_pacer c3 = cc_pacer c" "cc_max_ack_delay c3 = cc_max_ack_delay c"
      by (simp_all add: c3_def c2_def c1_def split: option.split)
    ultimately show thesis using fin [of "c3\<lparr>cc_loss_detection_timer := t\<rparr>"] a True
      by (intro that [of "push (c3\<lparr>cc_loss_detection_timer := t\<rparr>)"]) (simp_all add: sent_def, simp_all add: push_def c3_def c2_def c1_def split: option.split)
  qed
qed

end

end
