(* ===== verification/Congestion_Reach.thy ===== *)
theory Congestion_Reach
  imports Congestion_Safety
begin

section \<open>The controller of a path over its whole life\<close>

text \<open>
  A controller with New Reno, from its start through any sequence of calls of the \<open>Transport\<close> trait and changes of the path's status. Beside it \<open>T\<close> is the first congestion window plus the bytes sent,
  \<open>S e\<close> are the packet numbers sent in space \<open>e\<close> and \<open>A e\<close> those of them that an ACK frame named after they were sent. What the rest of the connection guarantees are the premises of the steps: numbers
  increase, an ack-eliciting packet is in flight, less than \<open>2^48\<close> bytes are sent, the clock stays below nine years, an ACK frame is one a correct peer sends, and the probe timeout has not doubled 31 times.
\<close>

abbreviation books :: "nat \<Rightarrow> new_reno controller \<Rightarrow> bool" where
  "books \<equiv> cc_inv new_reno_control nr_ok nr_bytes_in_flight"

type_synonym cc_history = "nat \<times> (epoch \<Rightarrow> nat set) \<times> (epoch \<Rightarrow> nat set) \<times> new_reno controller"

inductive cc_step :: "cc_history \<Rightarrow> cc_history \<Rightarrow> bool" where
  cc_sent: "headroom c \<Longrightarrow> \<forall>x \<in> S e. x < pn \<Longrightarrow> (eliciting \<longrightarrow> in_flight) \<Longrightarrow> T + bytes < 2 ^ 48 \<Longrightarrow>
    transport_on_pkt_sent new_reno_control now e pn eliciting bytes in_flight ack c = Ret c' \<Longrightarrow> cc_step (T, S, A, c) (T + bytes, S(e := insert pn (S e)), A, c')"
| cc_acked: "headroom c \<Longrightarrow> now \<le> RTT_MAX \<Longrightarrow> ack_iter f = Ret rs \<Longrightarrow> into_inner (ack_delay f) < 2 ^ 62 \<Longrightarrow>
    transport_on_ack_rcvd new_reno_control now e f c = Ret c' \<Longrightarrow> cc_step (T, S, A, c) (T, S, A(e := A e \<union> {x \<in> S e. covered rs x}), c')"
| cc_rcvd: "headroom c \<Longrightarrow> transport_on_pkt_rcvd new_reno_control now e pn eliciting c = Ret c' \<Longrightarrow> cc_step (T, S, A, c) (T, S, A, c')"
| cc_tick: "headroom c \<Longrightarrow> transport_tick new_reno_control now c = Ret c' \<Longrightarrow> cc_step (T, S, A, c) (T, S, A, c')"
| cc_quota: "transport_send_quota new_reno_control now c = Ret (r, c') \<Longrightarrow> cc_step (T, S, A, c) (T, S, A, c')"
| cc_discard: "discard_epoch new_reno_control now e c = Ret c' \<Longrightarrow> cc_step (T, S, A, c) (T, S, A, c')"
| cc_status: "f \<in> {got_handshake_key, received_handshake_ack, handshake_confirmed, release_anti_amplification_limit, enter_anti_amplification_limit} \<Longrightarrow>
    cc_step (T, S, A, c) (T, S, A, c\<lparr>cc_path_status := f (cc_path_status c)\<rparr>)"

inductive cc_reach :: "cc_history \<Rightarrow> bool" where
  cc_init: "controller_init alg max_ack_delay st w now = Ret c \<Longrightarrow> 0 < st_pmtu st \<Longrightarrow> st_pmtu st < 2 ^ 16 \<Longrightarrow> max_ack_delay \<le> 2 ^ 58 \<Longrightarrow> cc_reach (nr_congestion_window (cc_algorithm c), \<lambda>_. {}, \<lambda>_. {}, c)"
| cc_next: "cc_reach h \<Longrightarrow> cc_step h h' \<Longrightarrow> cc_reach h'"

definition cc_good :: "nat \<Rightarrow> (epoch \<Rightarrow> nat set) \<Rightarrow> (epoch \<Rightarrow> nat set) \<Rightarrow> new_reno controller \<Rightarrow> bool" where
  "cc_good T S A c \<longleftrightarrow> books T c \<and>
     (\<forall>e. A e \<subseteq> S e \<and> numbers_kept c e \<subseteq> S e \<and> in_flight_numbers c e \<subseteq> S e - A e \<and> distinct (reported (cc_trackers c) e) \<and>
          set (reported (cc_trackers c) e) \<subseteq> S e \<and> in_flight_numbers c e \<inter> set (reported (cc_trackers c) e) = {})"

text \<open>The new calls of \<open>may_loss\<close> name packets that were sent, are not acknowledged and were not reported before.\<close>

definition fresh_reports :: "(epoch \<Rightarrow> nat set) \<Rightarrow> (epoch \<Rightarrow> nat set) \<Rightarrow> new_reno controller \<Rightarrow> new_reno controller \<Rightarrow> bool" where
  "fresh_reports S A c c' \<longleftrightarrow>
     (\<exists>new. cc_trackers c' = cc_trackers c @ new \<and>
       (\<forall>e. distinct (reported new e) \<and> set (reported new e) \<subseteq> S e - A e - set (reported (cc_trackers c) e)))"

lemma in_flight_kept: "in_flight_numbers c e \<subseteq> numbers_kept c e"
  by (auto simp: in_flight_numbers_def flying_numbers_def numbers_kept_def)

lemma good_frame:
  assumes g: "cc_good T S A c" and l: "loss_frame e K c c' new" and K: "K \<subseteq> in_flight_numbers c e - X" and b: "books T c'" and X: "X \<subseteq> S e"
  shows "cc_good T S (A(e := A e \<union> X)) c'" "fresh_reports S (A(e := A e \<union> X)) c c'"
proof -
  have fl: "in_flight_numbers c' = (in_flight_numbers c)(e := K - set (reported new e))" and tr: "cc_trackers c' = cc_trackers c @ new"
    and new: "\<And>e'. e' \<noteq> e \<Longrightarrow> reported new e' = []" "distinct (reported new e)" "set (reported new e) \<subseteq> K" and nk: "\<And>e'. numbers_kept c' e' \<subseteq> numbers_kept c e'"
    using l by (auto simp: loss_frame_def)
  have G: "numbers_kept c e' \<subseteq> S e'" "in_flight_numbers c e' \<subseteq> S e' - A e'" "distinct (reported (cc_trackers c) e')" "set (reported (cc_trackers c) e') \<subseteq> S e'"
    "in_flight_numbers c e' \<inter> set (reported (cc_trackers c) e') = {}" "A e' \<subseteq> S e'" for e' using g by (auto simp: cc_good_def)
  have "(A(e := A e \<union> X)) e' \<subseteq> S e' \<and> numbers_kept c' e' \<subseteq> S e' \<and> in_flight_numbers c' e' \<subseteq> S e' - (A(e := A e \<union> X)) e' \<and> distinct (reported (cc_trackers c') e') \<and>
    set (reported (cc_trackers c') e') \<subseteq> S e' \<and> in_flight_numbers c' e' \<inter> set (reported (cc_trackers c') e') = {}" for e'
  proof (cases "e' = e")
    case True
    then show ?thesis using G [of e] nk [of e] new(2,3) K X unfolding fl tr by auto
  next
    case False
    then show ?thesis using G [of e'] nk [of e'] new(1) [OF False] unfolding fl tr by auto
  qed
  then show "cc_good T S (A(e := A e \<union> X)) c'" using b by (simp add: cc_good_def)
  have "distinct (reported new e') \<and> set (reported new e') \<subseteq> S e' - (A(e := A e \<union> X)) e' - set (reported (cc_trackers c) e')" for e'
  proof (cases "e' = e")
    case True
    then show ?thesis using G(2,5) [of e] new(2,3) K by auto
  qed (simp add: new(1))
  then show "fresh_reports S (A(e := A e \<union> X)) c c'" using tr by (auto simp: fresh_reports_def)
qed

lemmas good_frame0 = good_frame [where X = "{}", simplified]

lemma fresh_quiet: "cc_trackers c' = cc_trackers c \<Longrightarrow> fresh_reports S A c c'"
  by (simp add: fresh_reports_def)

lemma fresh_after: "fresh_reports S A c c' \<Longrightarrow> cc_trackers c'' = cc_trackers c' \<Longrightarrow> fresh_reports S A c c''"
  by (simp add: fresh_reports_def)

lemma fresh_before: "fresh_reports S A c c' \<Longrightarrow> cc_trackers c = cc_trackers c0 \<Longrightarrow> fresh_reports S A c0 c'"
  by (simp add: fresh_reports_def)

lemma good_same:
  assumes "cc_good T S A c" "books T c'" "kept c' = kept c" "cc_trackers c' = cc_trackers c"
  shows "cc_good T S A c'"
  using assms by (simp add: cc_good_def in_flight_numbers_def numbers_kept_def)

lemma init_good:
  assumes "controller_init alg max_ack_delay st w now = Ret c" "0 < st_pmtu st" "st_pmtu st < 2 ^ 16" "max_ack_delay \<le> 2 ^ 58"
  shows "cc_good (nr_congestion_window (cc_algorithm c)) (\<lambda>_. {}) (\<lambda>_. {}) c"
proof -
  obtain a p where a: "new_reno_new (st_pmtu st) = Ret a" and p: "pacer_new INITIAL_RTT INIT_CWND (st_pmtu st) now None = Ret p"
    and c: "c = \<lparr>cc_algorithm = a, cc_rtt = rtt_default, cc_loss_detection_timer = None, cc_pto_count = 0, cc_max_ack_delay = max_ack_delay,
            cc_packet_spaces = (\<lambda>e. with_epoch e max_ack_delay), cc_pacer = p, cc_pending_burst = False, cc_trackers = [],
            cc_need_send_ack_eliciting_packets = (\<lambda>_. 0), cc_path_status = st, cc_tx_waker = w\<rparr>"
    using assms(1) by (cases alg) (auto simp: controller_init_def run_simps)
  have "st_pmtu st * 10 < 2 ^ 16" using a by (auto simp: new_reno_new_def mul16_def split: if_splits)
  with a obtain "nr_ok a" "nr_bytes_in_flight a = 0" "nr_congestion_window a < 2 ^ 16" using new_reno_new_ok [OF assms(2), of thesis] by auto
  moreover have "pacer_ok (st_pmtu st) p" using pacer_new_ok [OF assms(3), of INITIAL_RTT INIT_CWND now None] p by auto
  moreover have "ctl_congestion_window new_reno_control = nr_congestion_window" by (simp add: new_reno_control_def)
  ultimately show ?thesis using assms rtt_default_ok
    by (simp add: cc_good_def cc_inv_def c over_epochs_eq kept_def with_epoch_def bytes_simps numbered_def ps_no_ack_eliciting_in_flight_def numbers_kept_def in_flight_numbers_def flying_numbers_def)
qed

subsection \<open>Every call returns and keeps the books\<close>

lemma reno_window [simp]: "ctl_congestion_window new_reno_control = nr_congestion_window" "ctl_pacing_rate new_reno_control = (\<lambda>_. None)"
  by (simp_all add: new_reno_control_def)

lemma flying_numbers_snoc: "sp_state p = Inflight \<Longrightarrow> flying_numbers (ps @ [p]) = insert (sp_packet_number p) (flying_numbers ps)"
proof -
  assume "sp_state p = Inflight"
  then have "{q \<in> set (ps @ [p]). sp_state q = Inflight} = insert p {q \<in> set ps. sp_state q = Inflight}" by auto
  then show ?thesis by (simp add: flying_numbers_def)
qed

lemma cc_discard_step:
  assumes "cc_good T S A c" "e \<noteq> EpData"
  obtains c' where "discard_epoch new_reno_control now e c = Ret c'" "cc_good T S A c'" "cc_trackers c' = cc_trackers c"
proof -
  have b: "books T c" using assms(1) by (simp add: cc_good_def)
  obtain c' where c': "discard_epoch new_reno_control now e c = Ret c'" "books T c'" "loss_frame e {} c c' []" by (rule reno.discard_epoch_ok [OF b assms(2)])
  have "cc_good T S A c'" using good_frame0(1) [OF assms(1) c'(3) _ c'(2)] by simp
  then show thesis using that c' by (auto simp: loss_frame_def)
qed

lemma cc_sent_step:
  assumes g: "cc_good T S A c" and h: "headroom c" and pn: "\<forall>x \<in> S e. x < pn" and el: "eliciting \<longrightarrow> in_flight" and T: "T + bytes < 2 ^ 48"
  obtains c' where "transport_on_pkt_sent new_reno_control now e pn eliciting bytes in_flight ack c = Ret c'" "cc_good (T + bytes) (S(e := insert pn (S e))) A c'" "cc_trackers c' = cc_trackers c"
    "e = EpData \<longrightarrow> kept c' = (kept c)(e := kept c e @ [sent_packet_new pn now eliciting in_flight bytes]) \<and> headroom c'"
proof -
  let ?p = "sent_packet_new pn now eliciting in_flight bytes" and ?S = "S(e := insert pn (S e))"
  have b: "books T c" and nk: "numbers_kept c e \<subseteq> S e" and AS: "A e \<subseteq> S e" using g by (simp_all add: cc_good_def)
  have "cc_pto_count c < 32" "\<forall>x \<in> numbers_kept c e. x < pn" using h nk pn by (auto simp: headroom_def)
  from reno.on_packet_sent_ok [OF b this el T] obtain c1 where
    c1: "on_packet_sent new_reno_control now pn e eliciting in_flight bytes c = Ret c1" "books (T + bytes) c1" "kept c1 = (kept c)(e := kept c e @ [?p])"
      "cc_trackers c1 = cc_trackers c" "cc_path_status c1 = cc_path_status c" "cc_pto_count c1 = cc_pto_count c"
      "\<forall>e'. cc_need_send_ack_eliciting_packets c1 e' \<le> cc_need_send_ack_eliciting_packets c e'" by metis
  have p: "sp_packet_number ?p = pn" "sp_state ?p = Inflight" by (simp_all add: sent_packet_new_def)
  have fl: "in_flight_numbers c1 = (in_flight_numbers c)(e := insert pn (in_flight_numbers c e))" "numbers_kept c1 = (numbers_kept c)(e := insert pn (numbers_kept c e))"
    using p by (simp_all add: in_flight_numbers_def numbers_kept_def flying_numbers_snoc c1(3) fun_eq_iff)
  have fresh: "pn \<notin> S e" using pn by blast
  have g1: "cc_good (T + bytes) ?S A c1"
    using g c1(2) fresh AS unfolding cc_good_def fl c1(4) by (auto simp: subset_iff)
  define c2 where "c2 = (case ack of None \<Rightarrow> c1 | Some l \<Rightarrow> upd_space e (\<lambda>s. s\<lparr>ps_rcvd_packets := rr_on_ack_sent pn l (ps_rcvd_packets s)\<rparr>) c1)"
  have k2: "kept c2 = kept c1" by (auto simp: c2_def fun_eq_iff kept_def split: option.split)
  have "books (T + bytes) (upd_space e (\<lambda>s. s\<lparr>ps_rcvd_packets := rr_on_ack_sent pn l (ps_rcvd_packets s)\<rparr>) c1)" for l by (rule cc_inv_space [OF c1(2)]) (simp_all add: kept_def)
  then have b2: "books (T + bytes) c2" using c1(2) by (simp add: c2_def split: option.split)
  have t2: "cc_trackers c2 = cc_trackers c" by (simp add: c2_def c1(4) split: option.split)
  have g2: "cc_good (T + bytes) ?S A c2" using good_same [OF g1 b2 k2] t2 c1(4) by simp
  have run: "transport_on_pkt_sent new_reno_control now e pn eliciting bytes in_flight ack c =
    (if e = EpHandshake \<and> \<not> st_is_server (cc_path_status c2) then discard_epoch new_reno_control now EpInitial c2 else Ret c2)"
    unfolding transport_on_pkt_sent_def c1(1) bind_run.simps Let_def c2_def [symmetric] ..
  obtain c3 where c3: "discard_epoch new_reno_control now EpInitial c2 = Ret c3" "cc_good (T + bytes) ?S A c3" "cc_trackers c3 = cc_trackers c2" by (rule cc_discard_step [OF g2, of EpInitial now, simplified])
  show thesis
  proof (cases "e = EpHandshake \<and> \<not> st_is_server (cc_path_status c2)")
    case True
    then show thesis using run c3 t2 by (intro that [of c3]) simp_all
  next
    case False
    moreover have "kept c2 = (kept c)(e := kept c e @ [?p])" using k2 c1(3) by simp
    moreover have "cc_pto_count c2 = cc_pto_count c1" "cc_need_send_ack_eliciting_packets c2 = cc_need_send_ack_eliciting_packets c1" by (simp_all add: c2_def split: option.split)
    then have "headroom c2" using h c1(6,7) by (auto simp: headroom_def) (meson Suc_le_mono le_less_trans)
    ultimately show thesis using run g2 t2 by (intro that [of c2]) auto
  qed
qed

lemma cc_acked_step:
  assumes g: "cc_good T S A c" and h: "headroom c" and f: "now \<le> RTT_MAX" "ack_iter f = Ret rs" "into_inner (ack_delay f) < 2 ^ 62"
  obtains c' where "transport_on_ack_rcvd new_reno_control now e f c = Ret c'" "cc_good T S (A(e := A e \<union> {x \<in> S e. covered rs x})) c'"
    "fresh_reports S (A(e := A e \<union> {x \<in> S e. covered rs x})) c c'" "e = EpData \<and> newly_acked (covered rs) (kept c e) \<noteq> [] \<longrightarrow> (\<exists>n \<ge> into_inner (ack_largest f). \<exists>new. cc_trackers c' = cc_trackers c @ new \<and>
       (\<forall>p \<in> set (after_ack rs (kept c e)). threshold_lost n (after_ack rs (kept c e)) p \<longrightarrow> sp_packet_number p \<in> set (reported new e)))"
proof -
  let ?X = "{x \<in> S e. covered rs x}" and ?K = "{x \<in> in_flight_numbers c e. \<not> covered rs x}"
  have b: "books T c" and n: "cc_pto_count c < 32" using g h by (simp_all add: cc_good_def headroom_def)
  obtain c1 new where c1: "on_ack_rcvd new_reno_control now e f c = Ret c1" "books T c1" "loss_frame e ?K c c1 new"
    "newly_acked (covered rs) (kept c e) \<noteq> [] \<longrightarrow> (\<exists>n \<ge> into_inner (ack_largest f). \<forall>p \<in> set (after_ack rs (kept c e)). threshold_lost n (after_ack rs (kept c e)) p \<longrightarrow> sp_packet_number p \<in> set (reported new e))"
    by (rule reno.on_ack_rcvd_ok [OF b n f])
  have K: "?K \<subseteq> in_flight_numbers c e - ?X" by auto
  note r = good_frame [OF g c1(3) K c1(2)]
  have g1: "cc_good T S (A(e := A e \<union> ?X)) c1" "fresh_reports S (A(e := A e \<union> ?X)) c c1" using r by auto
  have run: "transport_on_ack_rcvd new_reno_control now e f c = (if e = EpHandshake \<and> st_is_server (cc_path_status c1) then discard_epoch new_reno_control now EpInitial c1 else Ret c1)"
    by (simp add: transport_on_ack_rcvd_def c1(1))
  obtain c2 where c2: "discard_epoch new_reno_control now EpInitial c1 = Ret c2" "cc_good T S (A(e := A e \<union> ?X)) c2" "cc_trackers c2 = cc_trackers c1" by (rule cc_discard_step [OF g1(1), of EpInitial now, simplified])
  have other: "newly_acked (covered rs) (kept c e) \<noteq> [] \<longrightarrow> (\<exists>n \<ge> into_inner (ack_largest f). \<exists>new. cc_trackers c1 = cc_trackers c @ new \<and>
       (\<forall>p \<in> set (after_ack rs (kept c e)). threshold_lost n (after_ack rs (kept c e)) p \<longrightarrow> sp_packet_number p \<in> set (reported new e)))"
    using c1(3,4) by (auto simp: loss_frame_def)
  show thesis
  proof (cases "e = EpHandshake \<and> st_is_server (cc_path_status c1)")
    case True
    then show thesis using run c2 fresh_after [OF g1(2) c2(3)] by (intro that [of c2]) simp_all
  next
    case False
    then show thesis using run g1 other by (intro that [of c1]) auto
  qed
qed

lemma cc_timeout_step:
  assumes g: "cc_good T S A c" and h: "headroom c"
  obtains c' where "on_loss_detection_timeout new_reno_control now c = Ret c'" "cc_good T S A c'" "fresh_reports S A c c'"
proof -
  have b: "books T c" using g by (simp add: cc_good_def)
  obtain c' e new where c': "on_loss_detection_timeout new_reno_control now c = Ret c'" "books T c'" "loss_frame e (in_flight_numbers c e) c c' new" by (rule reno.timeout_ok [OF b h])
  show thesis using that c' good_frame0 [OF g c'(3) subset_refl c'(2)] by blast
qed

lemma cc_quota_step:
  assumes g: "cc_good T S A c"
  obtains n c' where "cc_send_quota new_reno_control now c = Ret (n, c')" "cc_good T S A c'" "cc_trackers c' = cc_trackers c" "n \<le> MAX_BURST_SIZE * st_pmtu (cc_path_status c)"
proof -
  have b: "books T c" "st_pmtu (cc_path_status c) < 2 ^ 16" "pacer_ok (st_pmtu (cc_path_status c)) (cc_pacer c)" using g by (simp_all add: cc_good_def cc_inv_def)
  obtain p where p: "pacer_schedule (rtt_smoothed_rtt (cc_rtt c)) (nr_congestion_window (cc_algorithm c)) (st_pmtu (cc_path_status c)) now None (cc_pacer c) = Ret (pc_tokens p, p)"
    "pacer_ok (st_pmtu (cc_path_status c)) p" by (rule pacer_schedule_ok [OF b(2,3)])
  have "books T (c\<lparr>cc_pacer := p\<rparr>)" using b(1) p(2) by (simp add: cc_inv_def over_epochs_eq)
  from good_same [OF g this] have "cc_good T S A (c\<lparr>cc_pacer := p\<rparr>)" by simp
  moreover have "pc_tokens p \<le> MAX_BURST_SIZE * st_pmtu (cc_path_status c)" using p(2) by (auto simp: pacer_ok_def)
  ultimately show thesis using p(1) by (intro that [of "pc_tokens p" "c\<lparr>cc_pacer := p\<rparr>"]) (simp_all add: cc_send_quota_def)
qed

lemma cc_tick_step:
  assumes g: "cc_good T S A c" and h: "headroom c"
  obtains c' where "transport_tick new_reno_control now c = Ret c'" "cc_good T S A c'" "fresh_reports S A c c'"
proof -
  have "\<exists>c1. (if (case cc_loss_detection_timer c of None \<Rightarrow> False | Some t \<Rightarrow> t \<le> now) then on_loss_detection_timeout new_reno_control now c else Ret c) = Ret c1 \<and> cc_good T S A c1 \<and> fresh_reports S A c c1"
    using cc_timeout_step [OF g h, of now] g fresh_quiet [of c c S A] by (auto split: option.split)
  then obtain c1 where c1: "(if (case cc_loss_detection_timer c of None \<Rightarrow> False | Some t \<Rightarrow> t \<le> now) then on_loss_detection_timeout new_reno_control now c else Ret c) = Ret c1"
    "cc_good T S A c1" "fresh_reports S A c c1" by blast
  define q where "q = (if cc_pending_burst c1 then bind_run (cc_send_quota new_reno_control now c1) (\<lambda>(n, c). Ret (if st_pmtu (cc_path_status c) \<le> n
    then c\<lparr>cc_pending_burst := False, cc_tx_waker := snd (wake_by {CONGESTION} (cc_tx_waker c))\<rparr> else c)) else Ret c1)"
  have "\<exists>c2. q = Ret c2 \<and> cc_good T S A c2 \<and> cc_trackers c2 = cc_trackers c1"
  proof -
    obtain n c' where n: "cc_send_quota new_reno_control now c1 = Ret (n, c')" "cc_good T S A c'" "cc_trackers c' = cc_trackers c1" by (rule cc_quota_step [OF c1(2)])
    have "cc_good T S A (c'\<lparr>cc_pending_burst := False, cc_tx_waker := snd (wake_by {CONGESTION} (cc_tx_waker c'))\<rparr>)" using n(2) by (intro good_same [OF n(2)]) (simp_all add: cc_good_def)
    then show ?thesis using n c1(2) by (simp add: q_def)
  qed
  then obtain c2 where c2: "q = Ret c2" "cc_good T S A c2" "cc_trackers c2 = cc_trackers c1" by blast
  define c3 where "c3 = (if cc_need_ack now c2 then c2\<lparr>cc_tx_waker := snd (wake_by {TRANSPORT} (cc_tx_waker c2))\<rparr> else c2)"
  have "cc_good T S A (c2\<lparr>cc_tx_waker := snd (wake_by {TRANSPORT} (cc_tx_waker c2))\<rparr>)" using c2(2) by (intro good_same [OF c2(2)]) (simp_all add: cc_good_def)
  then have "cc_good T S A c3" using c2(2) by (simp add: c3_def)
  moreover have "transport_tick new_reno_control now c = Ret c3" unfolding transport_tick_def c1(1) bind_run.simps q_def [symmetric] c2(1) c3_def ..
  moreover have "cc_trackers c3 = cc_trackers c1" using c2(3) by (simp add: c3_def)
  ultimately show thesis using that fresh_after [OF c1(3)] by blast
qed

lemma cc_rcvd_step:
  assumes g: "cc_good T S A c" and h: "headroom c"
  obtains c' where "transport_on_pkt_rcvd new_reno_control now e pn eliciting c = Ret c'" "cc_good T S A c'" "fresh_reports S A c c'"
proof (cases "eliciting \<and> st_is_at_anti_amplification_limit (cc_path_status c)")
  case False
  let ?c = "upd_space e (\<lambda>s. s\<lparr>ps_rcvd_packets := rr_on_pkt_rcvd now pn (ps_rcvd_packets s)\<rparr>) c"
  have "books T ?c" using g by (intro cc_inv_space) (simp_all add: cc_good_def kept_def)
  moreover have "kept ?c = kept c" by (simp add: fun_eq_iff) (simp add: kept_def)
  ultimately have "cc_good T S A ?c" using good_same [OF g] by simp
  then show thesis using that [of "if eliciting then ?c else c"] False g fresh_quiet [of ?c c S A] fresh_quiet [of c c S A] by (auto simp: transport_on_pkt_rcvd_def on_datagram_rcvd_def)
next
  case True
  define c0 where "c0 = upd_space e (\<lambda>s. s\<lparr>ps_rcvd_packets := rr_on_pkt_rcvd now pn (ps_rcvd_packets s)\<rparr>) c"
  have b0: "books T c0" unfolding c0_def using g by (intro cc_inv_space) (simp_all add: cc_good_def kept_def)
  have k0: "kept c0 = kept c" by (simp add: c0_def fun_eq_iff) (simp add: kept_def)
  have f0: "cc_trackers c0 = cc_trackers c" "cc_path_status c0 = cc_path_status c" "cc_pto_count c0 = cc_pto_count c" "cc_need_send_ack_eliciting_packets c0 = cc_need_send_ack_eliciting_packets c"
    by (simp_all add: c0_def)
  have "cc_pto_count c0 < 32" using h f0 by (simp add: headroom_def)
  with b0 obtain t where t: "set_loss_detection_timer now c0 = Ret (c0\<lparr>cc_loss_detection_timer := t\<rparr>)" by (rule set_timer_ok)
  define c1 where "c1 = c0\<lparr>cc_loss_detection_timer := t\<rparr>"
  have g1: "cc_good T S A c1" using good_same [OF g, of c1] b0 k0 f0 by (simp add: c1_def)
  have h1: "headroom c1" using h f0 by (simp add: headroom_def c1_def)
  have run: "transport_on_pkt_rcvd new_reno_control now e pn eliciting c = (if (case t of None \<Rightarrow> False | Some t \<Rightarrow> t < now) then on_loss_detection_timeout new_reno_control now c1 else Ret c1)"
    using True t f0 by (simp add: transport_on_pkt_rcvd_def on_datagram_rcvd_def c1_def flip: c0_def)
  obtain c2 where c2: "on_loss_detection_timeout new_reno_control now c1 = Ret c2" "cc_good T S A c2" "fresh_reports S A c1 c2" by (rule cc_timeout_step [OF g1 h1])
  have tr: "cc_trackers c1 = cc_trackers c" by (simp add: c1_def f0)
  show thesis
  proof (cases "case t of None \<Rightarrow> False | Some t \<Rightarrow> t < now")
    case True
    then show thesis using run c2 fresh_before [OF c2(3) tr] by (intro that [of c2]) simp_all
  next
    case False
    then show thesis using run g1 fresh_quiet [OF tr] by (intro that [of c1]) simp_all
  qed
qed

lemma status_good:
  assumes "cc_good T S A c" "st_pmtu (f (cc_path_status c)) = st_pmtu (cc_path_status c)"
  shows "cc_good T S A (c\<lparr>cc_path_status := f (cc_path_status c)\<rparr>)"
proof (rule good_same [OF assms(1)])
  show "books T (c\<lparr>cc_path_status := f (cc_path_status c)\<rparr>)" using assms by (simp add: cc_good_def cc_inv_def over_epochs_eq)
qed simp_all

lemma cc_step_good:
  assumes "cc_step (T, S, A, c) (T', S', A', c')" "cc_good T S A c"
  shows "cc_good T' S' A' c' \<and> fresh_reports S A' c c'"
  using assms(1)
proof cases
  case (cc_sent e pn eliciting in_flight bytes now ack)
  obtain d where "transport_on_pkt_sent new_reno_control now e pn eliciting bytes in_flight ack c = Ret d" "cc_good (T + bytes) (S(e := insert pn (S e))) A d" "cc_trackers d = cc_trackers c"
    by (rule cc_sent_step [OF assms(2) cc_sent(4-7)])
  then show ?thesis using cc_sent fresh_quiet [of d c] by simp
next
  case (cc_acked now f rs e)
  obtain d where "transport_on_ack_rcvd new_reno_control now e f c = Ret d" "cc_good T S (A(e := A e \<union> {x \<in> S e. covered rs x})) d"
    "fresh_reports S (A(e := A e \<union> {x \<in> S e. covered rs x})) c d" by (rule cc_acked_step [OF assms(2) cc_acked(4-7)])
  then show ?thesis using cc_acked by simp
next
  case (cc_rcvd now e pn eliciting)
  obtain d where "transport_on_pkt_rcvd new_reno_control now e pn eliciting c = Ret d" "cc_good T S A d" "fresh_reports S A c d" by (rule cc_rcvd_step [OF assms(2) cc_rcvd(4)])
  then show ?thesis using cc_rcvd by simp
next
  case (cc_tick now)
  obtain d where "transport_tick new_reno_control now c = Ret d" "cc_good T S A d" "fresh_reports S A c d" by (rule cc_tick_step [OF assms(2) cc_tick(4)])
  then show ?thesis using cc_tick by simp
next
  case (cc_quota now r)
  obtain n d where d: "cc_send_quota new_reno_control now c = Ret (n, d)" "cc_good T S A d" "cc_trackers d = cc_trackers c" by (rule cc_quota_step [OF assms(2)])
  have "cc_good T S A (d\<lparr>cc_pending_burst := True\<rparr>)" using d(2) by (intro good_same [OF d(2)]) (simp_all add: cc_good_def)
  then show ?thesis using cc_quota d fresh_quiet [of d c] fresh_quiet [of "d\<lparr>cc_pending_burst := True\<rparr>" c] by (auto simp: transport_send_quota_def split: if_splits)
next
  case (cc_discard now e)
  have "e \<noteq> EpData" using cc_discard by (auto simp: discard_epoch_def)
  then obtain d where "discard_epoch new_reno_control now e c = Ret d" "cc_good T S A d" "cc_trackers d = cc_trackers c" by (rule cc_discard_step [OF assms(2)])
  then show ?thesis using cc_discard fresh_quiet [of d c] by simp
next
  case (cc_status f)
  have "st_pmtu (f (cc_path_status c)) = st_pmtu (cc_path_status c)"
    using cc_status by (auto simp: got_handshake_key_def received_handshake_ack_def handshake_confirmed_def release_anti_amplification_limit_def enter_anti_amplification_limit_def)
  then show ?thesis using cc_status status_good [OF assms(2)] fresh_quiet [of "c\<lparr>cc_path_status := f (cc_path_status c)\<rparr>" c] by simp
qed

lemma cc_reach_good: "cc_reach h \<Longrightarrow> (case h of (T, S, A, c) \<Rightarrow> cc_good T S A c)"
proof (induction rule: cc_reach.induct)
  case (cc_init alg max_ack_delay st w now c)
  then show ?case using init_good [OF cc_init] by simp
next
  case (cc_next h h')
  obtain T S A c T' S' A' c' where hs: "h = (T, S, A, c)" "h' = (T', S', A', c')" by (metis prod_cases4)
  then show ?case using cc_step_good [of T S A c T' S' A' c'] cc_next by simp
qed

lemmas cc_reach_books = cc_reach_good [of "(T, S, A, c)" for T S A c, simplified]

subsection \<open>A path with one packet\<close>

definition sample_status :: path_status where
  "sample_status = path_status_new False 1200"

lemma sample_start:
  obtains c where "cc_reach (12000, \<lambda>_. {}, \<lambda>_. {}, c)" "headroom c" "kept c = (\<lambda>_. [])" "cc_trackers c = []"
proof -
  obtain r where r: "new_reno_new 1200 = Ret r" "nr_congestion_window r = 12000" by (auto simp: new_reno_new_def mul16_def Let_def)
  obtain p where p: "pacer_new INITIAL_RTT INIT_CWND 1200 0 None = Ret p" by (rule pacer_new_ok [of 1200 INITIAL_RTT INIT_CWND 0 None]) simp
  obtain c where c: "controller_init NewReno 0 sample_status send_waker_new 0 = Ret c" "kept c = (\<lambda>_. [])" "headroom c" "cc_trackers c = []" "nr_congestion_window (cc_algorithm c) = 12000"
    using r p by (auto simp: controller_init_def sample_status_def path_status_new_def kept_def with_epoch_def headroom_def fun_eq_iff)
  have "cc_reach (12000, \<lambda>_. {}, \<lambda>_. {}, c)" using cc_init [OF c(1)] c(5) by (simp add: sample_status_def path_status_new_def)
  then show thesis using c that by blast
qed

text \<open>Any number of packets of 1200 bytes sent one after the other.\<close>

lemma sample_sends:
  assumes "n \<le> 1000"
  shows "\<exists>T c. cc_reach (T, (\<lambda>_. {})(EpData := {..<n}), \<lambda>_. {}, c) \<and> T = 12000 + 1200 * n \<and> headroom c \<and> cc_trackers c = [] \<and>
    kept c = (\<lambda>_. [])(EpData := map (\<lambda>i. sent_packet_new i 5 True True 1200) [0..<n])"
  using assms
proof (induction n)
  case 0
  obtain c where "cc_reach (12000, \<lambda>_. {}, \<lambda>_. {}, c)" "headroom c" "kept c = (\<lambda>_. [])" "cc_trackers c = []" by (rule sample_start)
  then show ?case by (auto simp: fun_upd_idem)
next
  case (Suc n)
  have "n \<le> 1000" using Suc.prems by simp
  from Suc.IH [OF this] obtain T c where c: "cc_reach (T, (\<lambda>_. {})(EpData := {..<n}), \<lambda>_. {}, c)" "T = 12000 + 1200 * n" "headroom c" "cc_trackers c = []"
    "kept c = (\<lambda>_. [])(EpData := map (\<lambda>i. sent_packet_new i 5 True True 1200) [0..<n])" by blast
  let ?S = "(\<lambda>_. {})(EpData := {..<n})"
  have T: "T + 1200 < 2 ^ 48" and pn: "\<forall>x \<in> ?S EpData. x < n" using c(2) Suc.prems by simp_all
  obtain c' where c': "transport_on_pkt_sent new_reno_control 5 EpData n True 1200 True None c = Ret c'" "cc_trackers c' = cc_trackers c"
    "kept c' = (kept c)(EpData := kept c EpData @ [sent_packet_new n 5 True True 1200])" "headroom c'"
    using cc_sent_step [OF cc_reach_books [OF c(1)] c(3) pn _ T, of True True 5 None] by auto
  have "cc_step (T, ?S, \<lambda>_. {}, c) (T + 1200, ?S(EpData := insert n (?S EpData)), \<lambda>_. {}, c')" using c(3) pn T c'(1) by (intro cc_sent) simp_all
  then have "cc_reach (T + 1200, ?S(EpData := insert n (?S EpData)), \<lambda>_. {}, c')" by (rule cc_next [OF c(1)])
  moreover have "?S(EpData := insert n (?S EpData)) = (\<lambda>_. {})(EpData := {..<Suc n})" by (auto simp: fun_eq_iff lessThan_Suc)
  ultimately have r: "cc_reach (T + 1200, (\<lambda>_. {})(EpData := {..<Suc n}), \<lambda>_. {}, c')" by (simp only:)
  have k: "kept c' = (\<lambda>_. [])(EpData := map (\<lambda>i. sent_packet_new i 5 True True 1200) [0..<Suc n])" using c(5) c'(3) by simp
  have t: "T + 1200 = 12000 + 1200 * Suc n" "cc_trackers c' = []" using c(2,4) c'(2) by simp_all
  show ?case using r k t c'(4) by blast
qed

subsection \<open>The theorems\<close>

text \<open>
  C24: The controller keeps its books. Over the whole life of a path, through packets sent, acknowledged and lost in any order, timeouts, discarded spaces and changes of the handshake status, the bytes in flight that New Reno counts are
  exactly the bytes of the packets in flight in the three spaces, so no saturating subtraction ever saturates; and the congestion window stays between two datagrams and the first window plus the bytes sent
  (\<open>T\<close>, which a history starts at the window of \<open>NewReno::new\<close> and raises by the size of every packet sent).
\<close>

theorem bytes_in_flight_accounted:
  assumes "cc_reach (T, S, A, c)"
  shows "nr_bytes_in_flight (cc_algorithm c) = (\<Sum>e\<leftarrow>EPOCHS. \<Sum>p\<leftarrow>filter (\<lambda>p. sp_state p = Inflight \<and> sp_count_for_cc p) (ps_sent_packets (cc_packet_spaces c e)). sp_sent_bytes p) \<and>
    2 * nr_max_datagram_size (cc_algorithm c) \<le> nr_congestion_window (cc_algorithm c) \<and> nr_congestion_window (cc_algorithm c) \<le> T"
proof -
  have b: "books T c" using cc_reach_books [OF assms] by (simp add: cc_good_def)
  have "flight_bytes ps = (\<Sum>p\<leftarrow>filter (\<lambda>p. sp_state p = Inflight \<and> sp_count_for_cc p) ps. sp_sent_bytes p)" for ps
    by (simp add: flight_bytes_def counted_bytes_def bytes_of_def conj_commute)
  then have "nr_bytes_in_flight (cc_algorithm c) = (\<Sum>e\<leftarrow>EPOCHS. \<Sum>p\<leftarrow>filter (\<lambda>p. sp_state p = Inflight \<and> sp_count_for_cc p) (ps_sent_packets (cc_packet_spaces c e)). sp_sent_bytes p)"
    using b by (simp add: cc_inv_def over_epochs_def kept_def)
  then show ?thesis using b by (simp add: cc_inv_def nr_ok_def)
qed

theorem bytes_in_flight_accounted_witness:
  "\<exists>T S A c. cc_reach (T, S, A, c) \<and> nr_bytes_in_flight (cc_algorithm c) = 3600 \<and> nr_congestion_window (cc_algorithm c) \<le> 15600"
proof -
  have three: "(3 :: nat) \<le> 1000" by simp
  obtain T c where c: "cc_reach (T, (\<lambda>_. {})(EpData := {..<3}), \<lambda>_. {}, c)" "T = 12000 + 1200 * 3" "kept c = (\<lambda>_. [])(EpData := map (\<lambda>i. sent_packet_new i 5 True True 1200) [0..<3])"
    using sample_sends [of 3, OF three] by blast
  have "kept c EpData = map (\<lambda>i. sent_packet_new i 5 True True 1200) [0..<3]" "kept c EpInitial = []" "kept c EpHandshake = []" by (simp_all add: c(3))
  then have k: "ps_sent_packets (cc_packet_spaces c EpData) = map (\<lambda>i. sent_packet_new i 5 True True 1200) [0..<3]" "ps_sent_packets (cc_packet_spaces c EpInitial) = []"
    "ps_sent_packets (cc_packet_spaces c EpHandshake) = []" by (simp_all only: kept_def)
  have "nr_bytes_in_flight (cc_algorithm c) = 3600" using bytes_in_flight_accounted [OF c(1)] by (simp add: EPOCHS_def k sent_packet_new_def upt_rec)
  moreover have "nr_congestion_window (cc_algorithm c) \<le> 15600" using bytes_in_flight_accounted [OF c(1)] c(2) by simp
  ultimately show ?thesis using c(1) by blast
qed

text \<open>
  C25: Loss detection and congestion control never panic. In every state of a path that has doubled its probe timeout fewer than 31 times, each call returns: sending a packet with a new number, any ACK frame a correct peer sends (and in fact
  any whose ranges do not underflow), packets received, the timer, the quota and discarding the Initial and Handshake spaces. In particular no subtraction of New Reno underflows, nothing is divided by zero, the deque of sent packets is never indexed out of
  range, and the time of the last ack-eliciting packet is there when it is unwrapped.
\<close>

theorem congestion_calls_return:
  assumes "cc_reach (T, S, A, c)" and "headroom c"
  shows "((\<forall>x \<in> S e. x < pn) \<and> (eliciting \<longrightarrow> in_flight) \<and> T + bytes < 2 ^ 48 \<longrightarrow> returns (transport_on_pkt_sent new_reno_control now e pn eliciting bytes in_flight ack c)) \<and>
    (now \<le> RTT_MAX \<and> ack_fits f \<and> into_inner (ack_delay f) < 2 ^ 62 \<longrightarrow> returns (transport_on_ack_rcvd new_reno_control now e f c)) \<and>
    returns (transport_on_pkt_rcvd new_reno_control now e pn eliciting c) \<and> returns (transport_tick new_reno_control now c) \<and>
    returns (transport_send_quota new_reno_control now c) \<and> (e \<noteq> EpData \<longrightarrow> returns (discard_epoch new_reno_control now e c))"
proof (intro conjI impI)
  note g = cc_reach_books [OF assms(1)] and h = assms(2)
  show "returns (transport_on_pkt_sent new_reno_control now e pn eliciting bytes in_flight ack c)" if "(\<forall>x \<in> S e. x < pn) \<and> (eliciting \<longrightarrow> in_flight) \<and> T + bytes < 2 ^ 48"
    using cc_sent_step [OF g h, of e pn eliciting in_flight bytes now ack] that by (auto simp: returns_def)
  show "returns (transport_on_ack_rcvd new_reno_control now e f c)" if fits: "now \<le> RTT_MAX \<and> ack_fits f \<and> into_inner (ack_delay f) < 2 ^ 62"
  proof -
    obtain rs where "ack_iter f = Ret rs" using ack_fits_iter [of f] fits by blast
    then show ?thesis using cc_acked_step [OF g h, of now f rs e] fits by (auto simp: returns_def)
  qed
  show "returns (transport_on_pkt_rcvd new_reno_control now e pn eliciting c)" using cc_rcvd_step [OF g h, of now e pn eliciting] by (auto simp: returns_def)
  show "returns (transport_tick new_reno_control now c)" using cc_tick_step [OF g h, of now] by (auto simp: returns_def)
  obtain n q where "cc_send_quota new_reno_control now c = Ret (n, q)" by (rule cc_quota_step [OF g])
  then show "returns (transport_send_quota new_reno_control now c)" by (simp add: transport_send_quota_def)
  show "returns (discard_epoch new_reno_control now e c)" if "e \<noteq> EpData" using cc_discard_step [OF g that, of now] by (auto simp: returns_def)
qed

theorem congestion_calls_return_witness:
  "\<exists>c. cc_reach (15600, (\<lambda>_. {})(EpData := {..<3}), \<lambda>_. {}, c) \<and> returns (transport_on_pkt_sent new_reno_control 9 EpData 3 True 1200 True None c) \<and>
     returns (transport_on_ack_rcvd new_reno_control 9 EpData sample_ack c) \<and> returns (discard_epoch new_reno_control 9 EpInitial c)"
proof -
  have three: "(3 :: nat) \<le> 1000" by simp
  obtain T c where c: "cc_reach (T, (\<lambda>_. {})(EpData := {..<3}), \<lambda>_. {}, c)" "T = 12000 + 1200 * 3" "headroom c" using sample_sends [of 3, OF three] by blast
  have T: "T = 15600" using c(2) by simp
  have "ack_fits sample_ack" by (simp add: ack_fits_def sample_ack_def)
  moreover have "into_inner (ack_delay sample_ack) < 2 ^ 62" "(9 :: nat) \<le> RTT_MAX" by (simp_all add: sample_ack_def RTT_MAX_def)
  ultimately have "returns (transport_on_ack_rcvd new_reno_control 9 EpData sample_ack c)"
    using congestion_calls_return [OF c(1,3), of EpData 0 False False 0 9 None sample_ack] by blast
  moreover have "returns (transport_on_pkt_sent new_reno_control 9 EpData 3 True 1200 True None c)"
    using congestion_calls_return [OF c(1,3), of EpData 3 True True 1200 9 None sample_ack] c(2) by simp
  moreover have "returns (discard_epoch new_reno_control 9 EpInitial c)"
    using congestion_calls_return [OF c(1,3), of EpInitial 0 False False 0 9 None sample_ack] by blast
  ultimately show ?thesis using c(1) T by blast
qed

text \<open>
  What is reported lost, over the whole life of a path: every call of \<open>may_loss\<close> names only packets that were sent, that no ACK frame has named (the one being processed included) and that were not
  reported before.
\<close>

theorem lost_reports_fresh:
  assumes "cc_reach (T, S, A, c)" and "cc_step (T, S, A, c) (T', S', A', c')"
  shows "fresh_reports S A' c c'"
  using cc_step_good [OF assms(2) cc_reach_books [OF assms(1)]] by simp

end
