(* ===== verification/Loss_Pair.thy ===== *)
theory Loss_Pair
  imports Congestion_Reach
begin

section \<open>The controller and the journal of sent packets\<close>

text \<open>
  The 1-RTT space hands an ACK frame first to the controller of the path it came on (\<open>dispatch_data_frame\<close> in qconnection/src/space/data.rs), which reports packets lost to the journal at once, and then through a channel to the handler
  that marks the packets in the journal. The journal must never be told that a packet is lost which it holds as acknowledged: \<open>maybe_lost\<close> ends in \<open>unreachable!\<close> there.
\<close>

text \<open>\<open>impl Feedback for DataSpace\<close>; the guard on the journal cleans up when it is dropped.\<close>

fun may_loss_packets :: "nat list \<Rightarrow> 'f sent_journal \<Rightarrow> ('f list \<times> 'f sent_journal) run" where
  "may_loss_packets [] j = Ret ([], j)"
| "may_loss_packets (pn # pns) j =
     bind_run (may_loss_packet pn j) (\<lambda>(fs, j). bind_run (may_loss_packets pns j) (\<lambda>(gs, j). Ret (fs @ gs, j)))"

definition data_may_loss :: "instant \<Rightarrow> nat list \<Rightarrow> 'f sent_journal \<Rightarrow> ('f list \<times> 'f sent_journal) run" where
  "data_may_loss now pns j = bind_run (may_loss_packets pns j) (\<lambda>(fs, j). bind_run (sj_resize now j) (\<lambda>j. Ret (fs, j)))"

subsection \<open>One path\<close>

text \<open>
  A connection with one path: the journal, the controller and the ACK frames on their way to the handler. A packet goes into the journal and to the controller in one step, as it is sent only after both. The
  peer acknowledges only packets that were sent. \<open>H\<close> are the frames of the packets sent, the history of the controller is that of the previous theory.
\<close>

inductive lp_reach :: "'f list list \<Rightarrow> 'f sent_journal \<Rightarrow> cc_history \<Rightarrow> ack_frame list \<Rightarrow> bool" where
  lp_start: "cc_reach (T, S, B, c) \<Longrightarrow> S EpData = {} \<Longrightarrow> lp_reach [] sj_new (T, S, B, c) []"
| lp_send: "lp_reach H js (T, S, B, c) q \<Longrightarrow> build_with_time now rt et (packet_guard trivial fs js) = Ret js' \<Longrightarrow> fs \<noteq> [] \<or> trivial \<Longrightarrow>
    headroom c \<Longrightarrow> (eliciting \<longrightarrow> in_flight) \<Longrightarrow> T + bytes < 2 ^ 48 \<Longrightarrow>
    transport_on_pkt_sent new_reno_control now EpData (length H) eliciting bytes in_flight ack c = Ret c' \<Longrightarrow>
    lp_reach (H @ [fs]) js' (T + bytes, S(EpData := insert (length H) (S EpData)), B, c') q"
| lp_ack: "lp_reach H js (T, S, B, c) q \<Longrightarrow> ack_iter f = Ret rs \<Longrightarrow> (\<forall>x. covered rs x \<longrightarrow> x < length H) \<Longrightarrow>
    headroom c \<Longrightarrow> now \<le> RTT_MAX \<Longrightarrow> into_inner (ack_delay f) < 2 ^ 62 \<Longrightarrow>
    transport_on_ack_rcvd new_reno_control now EpData f c = Ret c' \<Longrightarrow> cc_trackers c' = cc_trackers c @ new \<Longrightarrow>
    data_may_loss now (reported new EpData) js = Ret (fs, js') \<Longrightarrow>
    lp_reach H js' (T, S, B(EpData := B EpData \<union> {x \<in> S EpData. covered rs x}), c') (q @ [f])"
| lp_other: "lp_reach H js (T, S, B, c) q \<Longrightarrow> cc_step (T, S, B, c) (T', S', B', c') \<Longrightarrow> S' EpData = S EpData \<Longrightarrow> B' EpData = B EpData \<Longrightarrow>
    cc_trackers c' = cc_trackers c @ new \<Longrightarrow> data_may_loss now (reported new EpData) js = Ret (fs, js') \<Longrightarrow> lp_reach H js' (T', S', B', c') q"
| lp_handle: "lp_reach H js h (f # q) \<Longrightarrow> recv_ack_frame now f js = Ret (res, js') \<Longrightarrow> lp_reach H js' h q"
| lp_fast: "lp_reach H js h q \<Longrightarrow> fast_retransmit now js = Ret (fs, js') \<Longrightarrow> lp_reach H js' h q"

text \<open>What the journal holds as acknowledged the controller has seen acknowledged.\<close>

definition lp_inv :: "'f list list \<Rightarrow> 'f sent_journal \<Rightarrow> cc_history \<Rightarrow> ack_frame list \<Rightarrow> bool" where
  "lp_inv H js h q \<longleftrightarrow>
     (case h of (T, S, B, c) \<Rightarrow> cc_reach h \<and> S EpData = {..<length H} \<and> (\<exists>A L. sj_reach H A L js \<and> set A \<subseteq> B EpData) \<and>
        (\<forall>f \<in> set q. \<exists>rs. ack_iter f = Ret rs \<and> (\<forall>x. covered rs x \<longrightarrow> x \<in> B EpData)))"

lemma may_loss_packets_ok:
  "sj_reach H A L j \<Longrightarrow> set pns \<inter> set A = {} \<Longrightarrow> \<exists>fs j' L'. may_loss_packets pns j = Ret (fs, j') \<and> sj_reach H A L' j'"
proof (induction pns arbitrary: j L)
  case Nil
  then show ?case by auto
next
  case (Cons pn pns)
  have "pn \<notin> set A" using Cons.prems(2) by simp
  then obtain fs j1 where j1: "may_loss_packet pn j = Ret (fs, j1)" using lost_inv [OF sj_reach_inv [OF Cons.prems(1)], of pn] by blast
  have "sj_reach H A (if fs = [] then L else insert pn L) j1" by (rule sjr_lost [OF Cons.prems(1) j1])
  from Cons.IH [OF this] Cons.prems(2) obtain gs j2 L' where "may_loss_packets pns j1 = Ret (gs, j2)" "sj_reach H A L' j2" by auto
  then show ?case using j1 by auto
qed

lemma data_may_loss_ok:
  assumes "sj_reach H A L j" "set pns \<inter> set A = {}"
  obtains fs j' L' where "data_may_loss now pns j = Ret (fs, j')" "sj_reach H A L' j'"
proof -
  obtain fs j1 L' where j1: "may_loss_packets pns j = Ret (fs, j1)" "sj_reach H A L' j1" using may_loss_packets_ok [OF assms] by blast
  obtain j2 where j2: "sj_resize now j1 = Ret j2" using resize_inv [OF sj_reach_inv [OF j1(2)], of now] by blast
  have "sj_reach H A L' j2" by (rule sjr_resize [OF j1(2) j2])
  then show thesis using that j1(1) j2 by (simp add: data_may_loss_def)
qed

lemma handle_ok:
  assumes "sj_reach H A L js" "ack_iter f = Ret rs" "\<forall>x. covered rs x \<longrightarrow> x < length H"
  obtains fs js' A' where "recv_ack_frame now f js = Ret (Inr fs, js')" "sj_reach H (A' @ A) L js'" "\<forall>x \<in> set A'. covered rs x"
proof -
  note d = ack_iter_descending [OF assms(2)]
  obtain l r tl where rs: "rs = (l, r) # tl" using d(2) by (cases rs) auto
  have "l \<le> r" "r = into_inner (ack_largest f)" using d(1,3) by (auto simp: rs descending_ranges_def)
  then have "covered rs (into_inner (ack_largest f))" by (simp add: rs covered_def)
  then have "into_inner (ack_largest f) < largest (sj_packets js)" using assms(3) sj_reach_inv [OF assms(1)] by (auto simp: sj_inv_def sj_aligned_def)
  then obtain j1 where j1: "update_largest f js = (Inr (), j1)" by (auto simp: update_largest_def Let_def)
  have r1: "sj_reach H A L j1" by (rule sjr_largest [OF assms(1) j1])
  from feed_acked_ok [OF r1, of "acked_numbers rs"] obtain fs j2 A' where
    fd: "feed_acked (acked_numbers rs) j1 = Ret (fs, j2)" "sj_reach H (A' @ A) L j2" "set A' \<subseteq> set (acked_numbers rs)" by blast
  obtain j3 where j3: "sj_resize now j2 = Ret j3" using resize_inv [OF sj_reach_inv [OF fd(2)], of now] by blast
  have "recv_ack_frame now f js = Ret (Inr fs, j3)" using j1 assms(2) fd(1) j3 by (simp add: recv_ack_frame_def)
  moreover have "\<forall>x \<in> set A'. covered rs x" using fd(3) by (auto simp: set_acked_numbers)
  ultimately show thesis using that sjr_resize [OF fd(2) j3] by blast
qed

lemma step_reports:
  assumes "cc_reach (T, S, B, c)" "cc_step (T, S, B, c) (T', S', B', c')" "cc_trackers c' = cc_trackers c @ new"
  shows "set (reported new EpData) \<inter> B' EpData = {}"
  using cc_step_good [OF assms(2) cc_reach_books [OF assms(1)]] assms(3) by (auto simp: fresh_reports_def)

lemma step_grows:
  assumes "cc_step (T, S, B, c) (T', S', B', c')"
  shows "B e \<subseteq> B' e"
  using assms by cases auto

lemma lp_reach_inv: "lp_reach H js h q \<Longrightarrow> lp_inv H js h q"
proof (induction rule: lp_reach.induct)
  case (lp_start T S B c)
  then show ?case using sjr_new by (fastforce simp: lp_inv_def)
next
  case (lp_send H js T S B c q now rt et trivial fs js' eliciting in_flight bytes ack c')
  have IH: "cc_reach (T, S, B, c)" "S EpData = {..<length H}" "\<forall>f \<in> set q. \<exists>rs. ack_iter f = Ret rs \<and> (\<forall>x. covered rs x \<longrightarrow> x \<in> B EpData)"
    using lp_send.IH by (auto simp: lp_inv_def)
  obtain A L where A: "sj_reach H A L js" "set A \<subseteq> B EpData" using lp_send.IH by (auto simp: lp_inv_def)
  have "\<forall>x \<in> S EpData. x < length H" using IH(2) by simp
  then have "cc_step (T, S, B, c) (T + bytes, S(EpData := insert (length H) (S EpData)), B, c')" using lp_send.hyps by (intro cc_sent) simp_all
  then have "cc_reach (T + bytes, S(EpData := insert (length H) (S EpData)), B, c')" by (rule cc_next [OF IH(1)])
  moreover have "sj_reach (H @ [fs]) A L js'" using sjr_packet [OF A(1) lp_send.hyps(2)] lp_send.hyps(3) by auto
  moreover have "(S(EpData := insert (length H) (S EpData))) EpData = {..<length (H @ [fs])}" using IH(2) by (simp add: lessThan_Suc)
  ultimately show ?case using IH(3) A(2) unfolding lp_inv_def prod.case by blast
next
  case (lp_ack H js T S B c q f rs now c' new fs js')
  let ?B = "B(EpData := B EpData \<union> {x \<in> S EpData. covered rs x})"
  have IH: "cc_reach (T, S, B, c)" "S EpData = {..<length H}" "\<forall>f \<in> set q. \<exists>rs. ack_iter f = Ret rs \<and> (\<forall>x. covered rs x \<longrightarrow> x \<in> B EpData)"
    using lp_ack.IH by (auto simp: lp_inv_def)
  obtain A L where A: "sj_reach H A L js" "set A \<subseteq> B EpData" using lp_ack.IH by (auto simp: lp_inv_def)
  have st: "cc_step (T, S, B, c) (T, S, ?B, c')" using lp_ack.hyps by (intro cc_acked)
  have "set (reported new EpData) \<inter> set A = {}" using step_reports [OF IH(1) st lp_ack.hyps(8)] A(2) by auto
  with A(1) obtain gs j' L' where "data_may_loss now (reported new EpData) js = Ret (gs, j')" "sj_reach H A L' j'" by (rule data_may_loss_ok)
  then have "sj_reach H A L' js'" using lp_ack.hyps(9) by simp
  moreover have "\<exists>rs. ack_iter f = Ret rs \<and> (\<forall>x. covered rs x \<longrightarrow> x \<in> ?B EpData)" using lp_ack.hyps(2,3) IH(2) by (intro exI [of _ rs]) simp
  moreover have "\<forall>g \<in> set q. \<exists>rs. ack_iter g = Ret rs \<and> (\<forall>x. covered rs x \<longrightarrow> x \<in> ?B EpData)" using IH(3) by (metis UnCI fun_upd_same)
  ultimately have "(\<exists>A L. sj_reach H A L js' \<and> set A \<subseteq> ?B EpData) \<and> (\<forall>g \<in> set (q @ [f]). \<exists>rs. ack_iter g = Ret rs \<and> (\<forall>x. covered rs x \<longrightarrow> x \<in> ?B EpData))"
    using A(2) by (intro conjI exI [of _ A] exI [of _ L']) auto
  then show ?case using cc_next [OF IH(1) st] IH(2) unfolding lp_inv_def prod.case by blast
next
  case (lp_other H js T S B c q T' S' B' c' new now fs js')
  have IH: "cc_reach (T, S, B, c)" "S EpData = {..<length H}" "\<forall>f \<in> set q. \<exists>rs. ack_iter f = Ret rs \<and> (\<forall>x. covered rs x \<longrightarrow> x \<in> B EpData)"
    using lp_other.IH by (auto simp: lp_inv_def)
  obtain A L where A: "sj_reach H A L js" "set A \<subseteq> B EpData" using lp_other.IH by (auto simp: lp_inv_def)
  have "set (reported new EpData) \<inter> set A = {}" using step_reports [OF IH(1) lp_other.hyps(2,5)] A(2) lp_other.hyps(4) by auto
  with A(1) obtain gs j' L' where "data_may_loss now (reported new EpData) js = Ret (gs, j')" "sj_reach H A L' j'" by (rule data_may_loss_ok)
  then have "sj_reach H A L' js'" using lp_other.hyps(6) by simp
  then show ?case using cc_next [OF IH(1) lp_other.hyps(2)] IH(2,3) A(2) lp_other.hyps(3,4) unfolding lp_inv_def prod.case by auto
next
  case (lp_handle H js h f q now res js')
  obtain T S B c where h: "h = (T, S, B, c)" by (cases h)
  have IH: "cc_reach (T, S, B, c)" "S EpData = {..<length H}" "\<forall>f \<in> set (f # q). \<exists>rs. ack_iter f = Ret rs \<and> (\<forall>x. covered rs x \<longrightarrow> x \<in> B EpData)"
    using lp_handle.IH by (auto simp: lp_inv_def h)
  obtain A L where A: "sj_reach H A L js" "set A \<subseteq> B EpData" using lp_handle.IH by (auto simp: lp_inv_def h)
  obtain rs where rs: "ack_iter f = Ret rs" "\<forall>x. covered rs x \<longrightarrow> x \<in> B EpData" using IH(3) by auto
  have "B EpData \<subseteq> {..<length H}" using cc_reach_books [OF IH(1)] IH(2) unfolding cc_good_def by blast
  then have "\<forall>x. covered rs x \<longrightarrow> x < length H" using rs(2) by auto
  from handle_ok [OF A(1) rs(1) this, of now] obtain gs j' A' where "recv_ack_frame now f js = Ret (Inr gs, j')" "sj_reach H (A' @ A) L j'" "\<forall>x \<in> set A'. covered rs x" by metis
  then have "sj_reach H (A' @ A) L js'" "set (A' @ A) \<subseteq> B EpData" using lp_handle.hyps(2) rs(2) A(2) by auto
  then have "\<exists>A L. sj_reach H A L js' \<and> set A \<subseteq> B EpData" by blast
  then show ?case using IH unfolding lp_inv_def h prod.case by simp
next
  case (lp_fast H js h q now fs js')
  obtain T S B c where h: "h = (T, S, B, c)" by (cases h)
  obtain A L where A: "sj_reach H A L js" "set A \<subseteq> B EpData" using lp_fast.IH by (auto simp: lp_inv_def h)
  then show ?case using lp_fast.IH sjr_fast [OF A(1) lp_fast.hyps(2)] unfolding lp_inv_def h prod.case by blast
qed

subsection \<open>Packets for the examples\<close>

definition ack_one :: "nat \<Rightarrow> ack_frame" where
  "ack_one n = \<lparr>ack_largest = VarInt n, ack_delay = VarInt 0, ack_first_range = VarInt 0, ack_ranges = [], ack_ecn = None\<rparr>"

lemma ack_one_iter [simp]: "ack_iter (ack_one n) = Ret [(n, n)]" "covered [(n, n)] x \<longleftrightarrow> x = n"
  by (auto simp: ack_one_def ack_iter_def sub64_def covered_def)

lemma ack_one_fields [simp]: "ack_largest (ack_one n) = VarInt n" "into_inner (ack_delay (ack_one n)) = 0"
  by (simp_all add: ack_one_def)

text \<open>\<open>n\<close> packets with one frame each, sent on one path.\<close>

lemma sample_pair:
  assumes "n \<le> 1000"
  shows "\<exists>T js c. lp_reach (map (\<lambda>i. [i]) [0..<n]) js (T, (\<lambda>_. {})(EpData := {..<n}), \<lambda>_. {}, c) [] \<and> T = 12000 + 1200 * n \<and> headroom c \<and> cc_trackers c = [] \<and>
    kept c = (\<lambda>_. [])(EpData := map (\<lambda>i. sent_packet_new i 5 True True 1200) [0..<n]) \<and> sj_reach (map (\<lambda>i. [i]) [0..<n]) [] {} js"
  using assms
proof (induction n)
  case 0
  obtain c where c: "cc_reach (12000, \<lambda>_. {}, \<lambda>_. {}, c)" "headroom c" "kept c = (\<lambda>_. [])" "cc_trackers c = []" by (rule sample_start)
  have "lp_reach [] sj_new (12000, \<lambda>_. {}, \<lambda>_. {}, c) []" using c(1) by (rule lp_start) simp
  moreover have "(\<lambda>_. {})(EpData := {..<0}) = (\<lambda>_. {} :: nat set)" "(\<lambda>_. [])(EpData := map (\<lambda>i. sent_packet_new i 5 True True 1200) [0..<0]) = (\<lambda>_. [])" by (auto simp: fun_eq_iff)
  ultimately show ?case using c sjr_new by (intro exI [of _ 12000] exI [of _ sj_new] exI [of _ c]) (simp only: upt_0 list.map, simp)
next
  case (Suc n)
  let ?H = "map (\<lambda>i. [i]) [0..<n]" and ?S = "(\<lambda>_. {})(EpData := {..<n})"
  have "n \<le> 1000" using Suc.prems by simp
  from Suc.IH [OF this] obtain T js c where c: "lp_reach ?H js (T, ?S, \<lambda>_. {}, c) []" "T = 12000 + 1200 * n" "headroom c" "cc_trackers c = []"
    "kept c = (\<lambda>_. [])(EpData := map (\<lambda>i. sent_packet_new i 5 True True 1200) [0..<n])" "sj_reach ?H [] {} js" by blast
  have r: "cc_reach (T, ?S, \<lambda>_. {}, c)" using lp_reach_inv [OF c(1)] by (simp add: lp_inv_def)
  have len: "length ?H = n" by simp
  have T: "T + 1200 < 2 ^ 48" and pn: "\<forall>x \<in> ?S EpData. x < length ?H" using c(2) Suc.prems by simp_all
  obtain c' where c': "transport_on_pkt_sent new_reno_control 5 EpData (length ?H) True 1200 True None c = Ret c'" "cc_trackers c' = cc_trackers c"
    "kept c' = (kept c)(EpData := kept c EpData @ [sent_packet_new (length ?H) 5 True True 1200])" "headroom c'"
    using cc_sent_step [OF cc_reach_books [OF r] c(3) pn _ T, of True True 5 None] by auto
  have "largest (sj_packets js) = n" using sj_reach_inv [OF c(6)] by (simp add: sj_inv_def sj_aligned_def)
  then have "largest (sj_packets js) \<le> VARINT_MAX" using Suc.prems by (simp add: VARINT_MAX_def)
  then obtain js' where js': "build_with_time 5 10 20 (packet_guard False [n] js) = Ret js'" using packet_inv [OF sj_reach_inv [OF c(6)], of 5 10 20 False "[n]"] by blast
  have "lp_reach (?H @ [[n]]) js' (T + 1200, ?S(EpData := insert (length ?H) (?S EpData)), \<lambda>_. {}, c') []"
    by (rule lp_send [OF c(1) js' _ c(3) _ T c'(1)]) simp_all
  moreover have "?S(EpData := insert (length ?H) (?S EpData)) = (\<lambda>_. {})(EpData := {..<Suc n})" by (auto simp: fun_eq_iff lessThan_Suc)
  moreover have H: "?H @ [[n]] = map (\<lambda>i. [i]) [0..<Suc n]" by simp
  ultimately have l: "lp_reach (map (\<lambda>i. [i]) [0..<Suc n]) js' (T + 1200, (\<lambda>_. {})(EpData := {..<Suc n}), \<lambda>_. {}, c') []" by (simp only:)
  have k: "kept c' = (\<lambda>_. [])(EpData := map (\<lambda>i. sent_packet_new i 5 True True 1200) [0..<Suc n])" using c(5) c'(3) by simp
  have t: "T + 1200 = 12000 + 1200 * Suc n" "cc_trackers c' = []" using c(2,4) c'(2) by simp_all
  have "sj_reach (?H @ [[n]]) [] {} js'" using sjr_packet [OF c(6) js'] by simp
  then have j: "sj_reach (map (\<lambda>i. [i]) [0..<Suc n]) [] {} js'" by (simp only: H)
  show ?case using l k t j c'(4) by blast
qed

subsection \<open>The theorems\<close>

text \<open>
  C28: On one path loss detection and the journal agree. Whatever packets a connection with a single path sends, and however acknowledgements of packets it sent, timeouts, fast retransmissions and the delayed handling of ACK frames
  interleave: after any further call of the controller the journal takes all packets reported lost without reaching its \<open>unreachable!\<close>, and the handler accepts every waiting ACK frame.
\<close>

theorem loss_reports_accepted:
  assumes "lp_reach H js (T, S, B, c) q"
  shows "(cc_step (T, S, B, c) (T', S', B', c') \<longrightarrow> (\<exists>new fs js'. cc_trackers c' = cc_trackers c @ new \<and> data_may_loss now (reported new EpData) js = Ret (fs, js'))) \<and>
    (\<forall>f \<in> set q. \<exists>fs js'. recv_ack_frame now f js = Ret (Inr fs, js'))"
proof (intro conjI impI ballI)
  have I: "cc_reach (T, S, B, c)" "S EpData = {..<length H}" "\<forall>f \<in> set q. \<exists>rs. ack_iter f = Ret rs \<and> (\<forall>x. covered rs x \<longrightarrow> x \<in> B EpData)"
    using lp_reach_inv [OF assms] by (auto simp: lp_inv_def)
  obtain A L where A: "sj_reach H A L js" "set A \<subseteq> B EpData" using lp_reach_inv [OF assms] by (auto simp: lp_inv_def)
  show "\<exists>new fs js'. cc_trackers c' = cc_trackers c @ new \<and> data_may_loss now (reported new EpData) js = Ret (fs, js')" if st: "cc_step (T, S, B, c) (T', S', B', c')"
  proof -
    obtain new where new: "cc_trackers c' = cc_trackers c @ new" using cc_step_good [OF st cc_reach_books [OF I(1)]] by (auto simp: fresh_reports_def)
    have "set (reported new EpData) \<inter> set A = {}" using step_reports [OF I(1) st new] A(2) step_grows [OF st, of EpData] by auto
    with A(1) obtain fs j' L' where "data_may_loss now (reported new EpData) js = Ret (fs, j')" "sj_reach H A L' j'" by (rule data_may_loss_ok)
    then show ?thesis using new by blast
  qed
  fix f assume "f \<in> set q"
  then obtain rs where rs: "ack_iter f = Ret rs" "\<forall>x. covered rs x \<longrightarrow> x \<in> B EpData" using I(3) by blast
  have "B EpData \<subseteq> {..<length H}" using cc_reach_books [OF I(1)] I(2) unfolding cc_good_def by blast
  then have "\<forall>x. covered rs x \<longrightarrow> x < length H" using rs(2) by auto
  from handle_ok [OF A(1) rs(1) this, of now] show "\<exists>fs js'. recv_ack_frame now f js = Ret (Inr fs, js')" by metis
qed

theorem loss_reports_accepted_witness:
  "\<exists>js T S B c T' S' B' c' new fs js'. lp_reach [[0 :: nat], [1], [2], [3], [4]] js (T, S, B, c) [] \<and> cc_step (T, S, B, c) (T', S', B', c') \<and>
     cc_trackers c' = cc_trackers c @ new \<and> data_may_loss 9 (reported new EpData) js = Ret (fs, js')"
proof -
  let ?S = "(\<lambda>_. {})(EpData := {..<5 :: nat})" and ?B = "\<lambda>_ :: epoch. {} :: nat set"
  have five: "(5 :: nat) \<le> 1000" "map (\<lambda>i. [i]) [0..<5] = [[0 :: nat], [1], [2], [3], [4]]" by (simp_all add: upt_rec)
  obtain T js c where c: "lp_reach [[0 :: nat], [1], [2], [3], [4]] js (T, ?S, ?B, c) []" "headroom c" using sample_pair [OF five(1), unfolded five(2)] by blast
  have r: "cc_reach (T, ?S, ?B, c)" using lp_reach_inv [OF c(1)] by (simp add: lp_inv_def)
  obtain c' where c': "transport_on_ack_rcvd new_reno_control 9 EpData (ack_one 4) c = Ret c'"
    using cc_acked_step [OF cc_reach_books [OF r] c(2), of 9 "ack_one 4" "[(4, 4)]" EpData] by (auto simp: RTT_MAX_def)
  have st: "cc_step (T, ?S, ?B, c) (T, ?S, ?B(EpData := ?B EpData \<union> {x \<in> ?S EpData. covered [(4, 4)] x}), c')"
    using c(2) c' by (intro cc_acked) (simp_all add: RTT_MAX_def)
  show ?thesis using loss_reports_accepted [OF c(1), of T ?S "?B(EpData := ?B EpData \<union> {x \<in> ?S EpData. covered [(4, 4)] x})" c' 9] c(1) st by blast
qed

subsection \<open>Two paths\<close>

lemma may_loss_keeps_records:
  assumes "may_loss_packet pn j = Ret (fs, j')" "id_get (sj_packets j) x \<noteq> None"
  shows "id_get (sj_packets j') x \<noteq> None"
proof (cases "id_get (sj_packets j) pn")
  case None
  then show ?thesis using assms by (auto simp: may_loss_packet_def Let_def run_simps)
next
  case (Some s)
  then obtain n s' where "j' = j\<lparr>sj_packets := the (id_get_mut (sj_packets j) pn (\<lambda>_. s'))\<rparr>" using assms(1) by (auto simp: may_loss_packet_def Let_def run_simps)
  then show ?thesis using id_get_update(1) [OF Some, of "\<lambda>_. s'" x] assms(2) by auto
qed

lemma may_loss_packets_panic:
  "sj_inv H A L j \<Longrightarrow> x \<in> set pns \<Longrightarrow> x \<in> set A \<Longrightarrow> id_get (sj_packets j) x \<noteq> None \<Longrightarrow> may_loss_packets pns j = Panic"
proof (induction pns arbitrary: j L)
  case (Cons pn pns)
  show ?case
  proof (cases "may_loss_packet pn j")
    case (Ret r)
    obtain fs j1 where j1: "may_loss_packet pn j = Ret (fs, j1)" using Ret by (cases r) simp
    have "pn \<noteq> x" using lost_inv [OF Cons.prems(1), of x] Cons.prems(3,4) j1 by auto
    then have "x \<in> set pns" using Cons.prems(2) by simp
    from Cons.IH [OF lost_step [OF Cons.prems(1) j1] this Cons.prems(3) may_loss_keeps_records [OF j1 Cons.prems(4)]] show ?thesis using j1 by simp
  qed simp
qed simp

text \<open>After packet 1 was acknowledged the journal still holds it, behind packet 0, which is in flight.\<close>

lemma acked_behind_flight:
  assumes j: "sj_reach H [] {} js" and H: "H ! 0 \<noteq> []" "H ! 1 = [v]" "1 < length H"
  obtains js2 where "recv_ack_frame now (ack_one 1) js = Ret (Inr [v], js2)" "sj_inv H [1] {} js2" "id_get (sj_packets js2) 1 \<noteq> None"
proof -
  have i0: "sj_inv H [] {} js" by (rule sj_reach_inv [OF j])
  then have lg: "largest (sj_packets js) = length H" by (simp add: sj_inv_def sj_aligned_def)
  define j1 where "j1 = snd (update_largest (ack_one 1) js)"
  have j1: "update_largest (ack_one 1) js = (Inr (), j1)" using H(3) lg by (cases H) (simp_all add: j1_def update_largest_def Let_def)
  have i1: "sj_inv H [] {} j1" by (rule sj_reach_inv [OF sjr_largest [OF j j1]])
  obtain fs j2 where j2: "on_packet_acked 1 j1 = Ret (fs, j2)" "sj_inv H (if fs = [] then [] else [1]) {} j2" "fs = H ! 1"
    using acked_inv [OF i1, of 1] H(3) by auto
  have i2: "sj_inv H [1] {} j2" using j2(2,3) H(2) by simp
  have al: "sj_aligned H j2" "length H = largest (sj_packets j2)" using i2 by (simp_all add: sj_inv_def sj_aligned_def)
  have off: "id_offset (sj_packets j2) = 0" using i2 H(1) by (auto simp: sj_inv_def)
  obtain s where s: "id_get (sj_packets j2) 0 = Some s" using off al(2) H(3) by (auto simp: id_get_def contain_def)
  have "nframes s \<noteq> 0" using aligned_nframes [OF al(1) s] H(1) by simp
  moreover have "pkt_ok [1] {} 0 s" using i2 s by (auto simp: sj_inv_def)
  ultimately have rem: "should_remain_after now s" by (cases s) (auto simp: pkt_ok_def)
  obtain j3 where j3: "sj_resize now j2 = Ret j3" "sj_inv H [1] {} j3" "largest (sj_packets j3) = largest (sj_packets j2)" "id_get (sj_packets j3) 0 = Some s"
    using resize_inv [OF i2, of now] s rem by blast
  have "id_offset (sj_packets j3) = 0" using j3(4) by (auto simp: id_get_def contain_def split: if_splits)
  then have "id_get (sj_packets j3) 1 \<noteq> None" using j3(3) al(2) H(3) by (simp add: id_get_def contain_def)
  moreover have "recv_ack_frame now (ack_one 1) js = Ret (Inr [v], j3)" using j1 j2(1,3) j3(1) H(2) by (simp add: recv_ack_frame_def acked_numbers_def)
  ultimately show thesis using that j3(2) by blast
qed

text \<open>
  C36: With two paths the journal panics. Five packets are sent on one path. The peer acknowledges packet 1 on the other path: that path's controller knows nothing of it, and the handler marks it in the journal. When the peer then acknowledges
  packet 4 on the first path, its controller, which was never told about packet 1, reports it lost, and the journal ends in \<open>unreachable!\<close>. Both frames acknowledge only packets that were sent.
\<close>

theorem ack_on_other_path_panics:
  "\<exists>js T c c2 c2' js2 c' new. lp_reach [[0 :: nat], [1], [2], [3], [4]] js (T, (\<lambda>_. {})(EpData := {..<5}), \<lambda>_. {}, c) [] \<and> cc_reach (12000, \<lambda>_. {}, \<lambda>_. {}, c2) \<and>
     transport_on_ack_rcvd new_reno_control 9 EpData (ack_one 1) c2 = Ret c2' \<and> recv_ack_frame 9 (ack_one 1) js = Ret (Inr [1], js2) \<and>
     transport_on_ack_rcvd new_reno_control 9 EpData (ack_one 4) c = Ret c' \<and> cc_trackers c' = cc_trackers c @ new \<and> data_may_loss 9 (reported new EpData) js2 = Panic"
proof -
  let ?S = "(\<lambda>_. {})(EpData := {..<5 :: nat})" and ?B = "\<lambda>_ :: epoch. {} :: nat set" and ?H = "[[0 :: nat], [1], [2], [3], [4]]"
  have five: "(5 :: nat) \<le> 1000" "map (\<lambda>i. [i]) [0..<5] = ?H" by (simp_all add: upt_rec)
  obtain T js c where c: "lp_reach ?H js (T, ?S, ?B, c) []" "headroom c" "kept c = (\<lambda>_. [])(EpData := map (\<lambda>i. sent_packet_new i 5 True True 1200) [0..<5])" "sj_reach ?H [] {} js"
    using sample_pair [OF five(1), unfolded five(2)] by blast
  have r: "cc_reach (T, ?S, ?B, c)" using lp_reach_inv [OF c(1)] by (simp add: lp_inv_def)
  obtain c2 where c2: "cc_reach (12000, ?B, ?B, c2)" "headroom c2" by (rule sample_start)
  obtain c2' where c2': "transport_on_ack_rcvd new_reno_control 9 EpData (ack_one 1) c2 = Ret c2'"
    using cc_acked_step [OF cc_reach_books [OF c2(1)] c2(2), of 9 "ack_one 1" "[(1, 1)]" EpData] by (auto simp: RTT_MAX_def)
  obtain js2 where js2: "recv_ack_frame 9 (ack_one 1) js = Ret (Inr [1], js2)" "sj_inv ?H [1] {} js2" "id_get (sj_packets js2) 1 \<noteq> None"
    by (rule acked_behind_flight [OF c(4), of 1]) simp_all
  have k: "kept c EpData = map (\<lambda>i. sent_packet_new i 5 True True 1200) [0..<5]" by (simp add: c(3))
  have newly: "newly_acked (covered [(4, 4)]) (kept c EpData) \<noteq> []" unfolding k by (simp add: newly_acked_def upt_rec sent_packet_new_def)
  have pre: "(9 :: nat) \<le> RTT_MAX" "ack_iter (ack_one 4) = Ret [(4, 4)]" "into_inner (ack_delay (ack_one 4)) < 2 ^ 62" by (simp_all add: RTT_MAX_def)
  obtain c' where c': "transport_on_ack_rcvd new_reno_control 9 EpData (ack_one 4) c = Ret c'"
    "EpData = EpData \<and> newly_acked (covered [(4, 4)]) (kept c EpData) \<noteq> [] \<longrightarrow> (\<exists>n \<ge> into_inner (ack_largest (ack_one 4)). \<exists>new. cc_trackers c' = cc_trackers c @ new \<and>
       (\<forall>p \<in> set (after_ack [(4, 4)] (kept c EpData)). threshold_lost n (after_ack [(4, 4)] (kept c EpData)) p \<longrightarrow> sp_packet_number p \<in> set (reported new EpData)))"
    by (rule cc_acked_step [OF cc_reach_books [OF r] c(2) pre])
  then obtain n new where n: "4 \<le> n" "cc_trackers c' = cc_trackers c @ new"
    "\<forall>p \<in> set (after_ack [(4, 4)] (kept c EpData)). threshold_lost n (after_ack [(4, 4)] (kept c EpData)) p \<longrightarrow> sp_packet_number p \<in> set (reported new EpData)" using newly unfolding ack_one_fields(1) by auto
  let ?p = "sent_packet_new 1 5 True True 1200"
  have "?p \<in> set (after_ack [(4, 4)] (kept c EpData))" unfolding k by (simp add: after_ack_def mark_acked_def upt_rec sent_packet_new_def)
  moreover have "threshold_lost n (after_ack [(4, 4)] (kept c EpData)) ?p"
    unfolding k using n(1) by (simp add: threshold_lost_def after_ack_def mark_acked_def upt_rec sent_packet_new_def sent_after_def PACKET_THRESHOLD_def)
  ultimately have "sp_packet_number ?p \<in> set (reported new EpData)" using n(3) by blast
  then have "1 \<in> set (reported new EpData)" by (simp add: sent_packet_new_def)
  then have "may_loss_packets (reported new EpData) js2 = Panic" using may_loss_packets_panic [OF js2(2) _ _ js2(3)] by simp
  then have "data_may_loss 9 (reported new EpData) js2 = Panic" by (simp add: data_may_loss_def)
  then show ?thesis using c(1) c2(1) c2' js2(1) c'(1) n(2) by blast
qed

end
