(* ===== verification/Crypto_Stream.thy ===== *)
theory Crypto_Stream
  imports Stream_Transfer Frame_Safety Stream_Io
begin

section \<open>The crypto stream: qrecovery/src/crypto.rs\<close>

text \<open>
  The stream of handshake bytes of one packet number space: a send buffer and a receive buffer with the wakers of the TLS side. The capacity of the ring buffer is what the allocation gave; writes never exceed it, so it does not change. Effects are
  those of \<open>Stream_Io\<close>; only wakers and signals occur.
\<close>

subsection \<open>The sender\<close>

record crypto_sender =
  cs_sndbuf :: send_buf
  cs_capacity :: nat
  cs_writable_waker :: "nat option"
  cs_flush_waker :: "nat option"

definition crypto_sender_create :: "nat \<Rightarrow> crypto_sender" where
  "crypto_sender_create capacity = \<lparr>cs_sndbuf = sb_with_capacity, cs_capacity = capacity, cs_writable_waker = None, cs_flush_waker = None\<rparr>"

definition cs_remaining_mut :: "crypto_sender \<Rightarrow> nat" where
  "cs_remaining_mut s = cs_capacity s - length (sb_data (cs_sndbuf s))"

text \<open>\<open>estimate_max_capacity\<close> panics beyond \<open>VARINT_MAX\<close>, where the buffer has no bytes, and for a packet of a gigabyte.\<close>

definition crypto_predicate :: "nat \<Rightarrow> nat \<Rightarrow> nat option" where
  "crypto_predicate max_size offset = (case crypto_estimate_max_capacity max_size offset of Ret r \<Rightarrow> r | Panic \<Rightarrow> None)"

type_synonym crypto_loaded = "crypto_frame \<times> byte list \<times> byte list"

definition cs_try_load_data :: "nat \<Rightarrow> nat \<Rightarrow> crypto_sender \<Rightarrow> ((signals + crypto_loaded) \<times> crypto_sender) run" where
  "cs_try_load_data k max_size s =
     bind_run (pick_up k (crypto_predicate max_size) (2 ^ 64 - 1) (cs_sndbuf s)) (\<lambda>(r, sb).
       case r of
         Inl sigs \<Rightarrow> Ret (Inl sigs, s\<lparr>cs_sndbuf := sb\<rparr>)
       | Inr (offset, is_fresh, s1, s2) \<Rightarrow>
           bind_run (unwrap_result (from_u64 offset)) (\<lambda>off.
           bind_run (unwrap_result (from_u64 (length s1 + length s2))) (\<lambda>len.
             Ret (Inr (CryptoFrame off len, s1, s2), s\<lparr>cs_sndbuf := sb\<rparr>))))"

text \<open>The bytes a loaded frame takes in the packet; the writer panics when they do not fit.\<close>

definition loaded_size :: "crypto_loaded \<Rightarrow> nat" where
  "loaded_size = (\<lambda>(f, s1, s2). 1 + varint_len (into_inner (cf_offset f)) + varint_len (into_inner (cf_length f)) + length s1 + length s2)"

text \<open>\<open>CryptoStreamOutgoing::try_load_data_into\<close>: frames are loaded until one does not go; the result is an error when that is the first.\<close>

function crypto_load_loop :: "nat \<Rightarrow> nat \<Rightarrow> bool \<Rightarrow> crypto_sender \<Rightarrow> ((signals + unit) \<times> crypto_loaded list \<times> crypto_sender) run" where
  "crypto_load_loop k room loaded s =
     (case cs_try_load_data k room s of
        Panic \<Rightarrow> Panic
      | Ret (Inl sigs, s) \<Rightarrow> Ret (if loaded then Inr () else Inl sigs, [], s)
      | Ret (Inr out, s) \<Rightarrow>
          if loaded_size out \<le> room
          then bind_run (crypto_load_loop k (room - loaded_size out) True s) (\<lambda>(r, outs, s). Ret (r, out # outs, s))
          else Panic)"
  by pat_completeness auto
termination
proof (relation "measure (\<lambda>(k, room, loaded, s). room)")
  fix k room loaded s x y xa out
  assume "loaded_size out \<le> room"
  moreover have "0 < loaded_size out" by (cases out) (simp add: loaded_size_def)
  ultimately show "((k, room - loaded_size out, True, xa), k, room, loaded, s) \<in> measure (\<lambda>(k, room, loaded, s). room)" by simp
qed simp

declare crypto_load_loop.simps [simp del]

definition crypto_try_load_data_into :: "nat \<Rightarrow> nat \<Rightarrow> crypto_sender \<Rightarrow> ((signals + unit) \<times> crypto_loaded list \<times> crypto_sender) run" where
  "crypto_try_load_data_into k room s = crypto_load_loop k room False s"

definition crypto_range :: "crypto_frame \<Rightarrow> nat \<times> nat" where
  "crypto_range f = (into_inner (cf_offset f), into_inner (cf_offset f) + into_inner (cf_length f))"

definition cs_on_data_acked :: "crypto_frame \<Rightarrow> crypto_sender \<Rightarrow> stream_effects \<Rightarrow> (crypto_sender \<times> stream_effects) run" where
  "cs_on_data_acked f s e =
     bind_run (on_data_acked (crypto_range f) (cs_sndbuf s)) (\<lambda>sb.
       let s = s\<lparr>cs_sndbuf := sb\<rparr>
       in Ret (if 0 < cs_remaining_mut s then (s\<lparr>cs_writable_waker := None\<rparr>, wake_waker (cs_writable_waker s) e) else (s, e)))"

definition cs_may_loss_data :: "crypto_frame \<Rightarrow> crypto_sender \<Rightarrow> stream_effects \<Rightarrow> (crypto_sender \<times> stream_effects) run" where
  "cs_may_loss_data f s e =
     bind_run (may_loss_data (crypto_range f) (cs_sndbuf s)) (\<lambda>sb. Ret (s\<lparr>cs_sndbuf := sb\<rparr>, wake_tx {TRANSPORT} e))"

datatype crypto_io_error = WouldBlock

definition cs_poll_write :: "nat \<Rightarrow> byte list \<Rightarrow> crypto_sender \<Rightarrow> stream_effects \<Rightarrow> ((crypto_io_error + nat) poll \<times> crypto_sender \<times> stream_effects) run" where
  "cs_poll_write waker buf s e =
     assert_run (cs_writable_waker s = None) (assert_run (cs_flush_waker s = None)
       (bind_run (add64 (written (cs_sndbuf s)) (length buf)) (\<lambda>end_pos.
          if VARINT_MAX < end_pos then Ret (Ready (Inl WouldBlock), s, e)
          else let remaining = cs_remaining_mut s
               in if 0 < remaining
                  then bind_run (sb_write (take (min remaining (length buf)) buf) (cs_sndbuf s)) (\<lambda>(n, sb).
                         Ret (Ready (Inr n), s\<lparr>cs_sndbuf := sb\<rparr>, wake_tx {TRANSPORT} e))
                  else Ret (poll.Pending, s\<lparr>cs_writable_waker := Some waker\<rparr>, e))))"

definition cs_poll_flush :: "nat \<Rightarrow> crypto_sender \<Rightarrow> (unit poll \<times> crypto_sender) run" where
  "cs_poll_flush waker s =
     assert_run (cs_flush_waker s = None)
       (Ret (if is_all_rcvd (cs_sndbuf s) then (Ready (), s) else (poll.Pending, s\<lparr>cs_flush_waker := Some waker\<rparr>)))"

subsection \<open>The receiver\<close>

record crypto_recver =
  cr_rcvbuf :: recv_buf
  cr_read_waker :: "nat option"

definition crypto_recver_create :: crypto_recver where
  "crypto_recver_create = \<lparr>cr_rcvbuf = rb_default, cr_read_waker = None\<rparr>"

definition cr_recv :: "nat \<Rightarrow> byte list \<Rightarrow> crypto_recver \<Rightarrow> stream_effects \<Rightarrow> (crypto_recver \<times> stream_effects) run" where
  "cr_recv offset data r e =
     bind_run (add64 offset (length data)) (\<lambda>end_pos.
       assert_run (end_pos \<le> VARINT_MAX)
         (bind_run (expect (rb_recv (cr_rcvbuf r) offset data)) (\<lambda>(b, _).
            Ret (if rb_is_readable b then (r\<lparr>cr_rcvbuf := b, cr_read_waker := None\<rparr>, wake_waker (cr_read_waker r) e) else (r\<lparr>cr_rcvbuf := b\<rparr>, e)))))"

definition crypto_recv_frame :: "crypto_frame \<Rightarrow> byte list \<Rightarrow> crypto_recver \<Rightarrow> stream_effects \<Rightarrow> (crypto_recver \<times> stream_effects) run" where
  "crypto_recv_frame f data r e = cr_recv (into_inner (cf_offset f)) data r e"

definition cr_poll_read :: "nat \<Rightarrow> nat \<Rightarrow> crypto_recver \<Rightarrow> (unit poll \<times> byte list \<times> crypto_recver) run" where
  "cr_poll_read waker room r =
     assert_run (cr_read_waker r = None)
       (Ret (if rb_is_readable (cr_rcvbuf r)
             then case try_read (cr_rcvbuf r) room of (b, bytes) \<Rightarrow> (Ready (), bytes, r\<lparr>cr_rcvbuf := b\<rparr>)
             else (poll.Pending, [], r\<lparr>cr_read_waker := Some waker\<rparr>)))"

subsection \<open>Both ends\<close>

text \<open>
  A crypto stream from the TLS side of one endpoint to that of the other, over a network that may lose, repeat and reorder: \<open>g\<close> is what was written, sent and acknowledged, \<open>N\<close> the fragments that were sent, \<open>got\<close> what was read,
  \<open>seen\<close> the positions that arrived. Only bytes that arrived are acknowledged; loss may be reported wrongly, from a byte that is not yet acknowledged.
\<close>

definition fragment :: "crypto_loaded \<Rightarrow> nat \<times> byte list" where
  "fragment = (\<lambda>(f, s1, s2). (into_inner (cf_offset f), s1 @ s2))"

definition covers :: "nat \<times> byte list \<Rightarrow> nat set" where
  "covers = (\<lambda>(offset, data). {offset..<offset + length data})"

inductive cp_reach :: "send_ghost \<Rightarrow> crypto_sender \<Rightarrow> (nat \<times> byte list) set \<Rightarrow> crypto_recver \<Rightarrow> byte list \<Rightarrow> nat set \<Rightarrow> bool" where
  cp_start: "cp_reach \<lparr>g_written = [], g_sent = {}, g_acked = {}\<rparr> (crypto_sender_create capacity) {} crypto_recver_create [] {}"
| cp_write: "cp_reach g s N r got seen \<Longrightarrow> cs_poll_write w buf s e = Ret (res, s', e') \<Longrightarrow>
    cp_reach (case res of Ready (Inr n) \<Rightarrow> g\<lparr>g_written := g_written g @ take n buf\<rparr> | _ \<Rightarrow> g) s' N r got seen"
| cp_flush: "cp_reach g s N r got seen \<Longrightarrow> cs_poll_flush w s = Ret (res, s') \<Longrightarrow> cp_reach g s' N r got seen"
| cp_load: "cp_reach g s N r got seen \<Longrightarrow> crypto_try_load_data_into k room s = Ret (res, outs, s') \<Longrightarrow>
    cp_reach (g\<lparr>g_sent := g_sent g \<union> \<Union> (covers ` fragment ` set outs)\<rparr>) s' (N \<union> fragment ` set outs) r got seen"
| cp_acked: "cp_reach g s N r got seen \<Longrightarrow> crypto_range f = (a, b) \<Longrightarrow> a < b \<Longrightarrow> {a..<b} \<subseteq> g_sent g \<inter> seen \<Longrightarrow> cs_on_data_acked f s e = Ret (s', e') \<Longrightarrow>
    cp_reach (g\<lparr>g_acked := g_acked g \<union> {a..<b}\<rparr>) s' N r got seen"
| cp_lost: "cp_reach g s N r got seen \<Longrightarrow> crypto_range f = (a, b) \<Longrightarrow> a < b \<Longrightarrow> {a..<b} \<subseteq> g_sent g \<Longrightarrow> a \<notin> g_acked g \<Longrightarrow> cs_may_loss_data f s e = Ret (s', e') \<Longrightarrow>
    cp_reach g s' N r got seen"
| cp_arrive: "cp_reach g s N r got seen \<Longrightarrow> (into_inner (cf_offset f), data) \<in> N \<Longrightarrow> crypto_recv_frame f data r e = Ret (r', e') \<Longrightarrow>
    cp_reach g s N r' got (seen \<union> covers (into_inner (cf_offset f), data))"
| cp_read: "cp_reach g s N r got seen \<Longrightarrow> cr_poll_read w room r = Ret (res, bytes, r') \<Longrightarrow> cp_reach g s N r' (got @ bytes) seen"

text \<open>The histories are histories of the two buffers joined by a network, so their theorems apply.\<close>

abbreviation cp_transfer :: "send_ghost \<Rightarrow> crypto_sender \<Rightarrow> (nat \<times> byte list) set \<Rightarrow> crypto_recver \<Rightarrow> byte list \<Rightarrow> nat set \<Rightarrow> transfer" where
  "cp_transfer g s N r got seen \<equiv>
     \<lparr>tr_ghost = g, tr_snd = cs_sndbuf s, tr_net = N, tr_rcv = cr_rcvbuf r, tr_got = got, tr_seen = seen\<rparr>"

lemma crypto_predicate_ok: "predicate_ok (crypto_predicate room)"
  unfolding predicate_ok_def crypto_predicate_def crypto_estimate_max_capacity_def
  by (auto simp: Let_def run_simps split: run.splits if_splits)

lemma try_load_cases:
  assumes "cs_try_load_data k room s = Ret (x, s')"
  obtains sigs sb where "x = Inl sigs" "pick_up k (crypto_predicate room) (2 ^ 64 - 1) (cs_sndbuf s) = Ret (Inl sigs, sb)" "s' = s\<lparr>cs_sndbuf := sb\<rparr>"
  | out off fresh s1 s2 sb where "x = Inr out" "pick_up k (crypto_predicate room) (2 ^ 64 - 1) (cs_sndbuf s) = Ret (Inr (off, fresh, s1, s2), sb)"
    "fragment out = (off, s1 @ s2)" "s' = s\<lparr>cs_sndbuf := sb\<rparr>" "loaded_size out = crypto_total off (length s1 + length s2)"
proof -
  obtain y sb where y: "pick_up k (crypto_predicate room) (2 ^ 64 - 1) (cs_sndbuf s) = Ret (y, sb)"
    using assms by (cases "pick_up k (crypto_predicate room) (2 ^ 64 - 1) (cs_sndbuf s)") (auto simp: cs_try_load_data_def)
  show thesis
  proof (cases y)
    case (Inl sigs)
    then show ?thesis using that(1) [of sigs sb] assms y by (simp add: cs_try_load_data_def)
  next
    case (Inr p)
    obtain off fresh s1 s2 where p: "p = (off, fresh, s1, s2)" by (cases p) auto
    obtain o' l' where ol: "from_u64 off = Inr o'" "from_u64 (length s1 + length s2) = Inr l'"
      using assms y Inr p by (cases "from_u64 off"; cases "from_u64 (length s1 + length s2)") (auto simp: cs_try_load_data_def unwrap_result_def)
    then have "into_inner o' = off" "into_inner l' = length s1 + length s2" by (auto simp: from_u64_def split: if_splits)
    moreover have "x = Inr (CryptoFrame o' l', s1, s2)" "s' = s\<lparr>cs_sndbuf := sb\<rparr>" using assms y Inr p ol by (auto simp: cs_try_load_data_def unwrap_result_def)
    ultimately show ?thesis using that(2) y Inr p by (auto simp: fragment_def loaded_size_def crypto_total_def)
  qed
qed

lemma pick_up_buffer:
  assumes "pick_up k predicate fl sb = Ret (x, sb')"
  shows "sb' = sb\<lparr>sb_state := sb_state sb'\<rparr>"
proof -
  obtain y st where y: "pick predicate fl (sb_state sb) = Ret (y, st)" using assms by (cases "pick predicate fl (sb_state sb)") (auto simp: pick_up_def)
  show ?thesis using assms y by (cases y) (auto simp: pick_up_def Let_def run_simps)
qed

lemma load_step_transfer:
  assumes t: "tr_reach (cp_transfer g s N r got seen)" and l: "cs_try_load_data k room s = Ret (Inr out, s')"
  shows "tr_reach (cp_transfer (g\<lparr>g_sent := g_sent g \<union> covers (fragment out)\<rparr>) s' (insert (fragment out) N) r got seen)"
proof -
  obtain off fresh s1 s2 sb where p: "pick_up k (crypto_predicate room) (2 ^ 64 - 1) (cs_sndbuf s) = Ret (Inr (off, fresh, s1, s2), sb)"
    "fragment out = (off, s1 @ s2)" "s' = s\<lparr>cs_sndbuf := sb\<rparr>" using l by (rule try_load_cases) auto
  show ?thesis using tr_reach.step [OF t tr_send [OF crypto_predicate_ok, of k room "2 ^ 64 - 1" _ off fresh s1 s2 sb]] p by (simp add: covers_def)
qed

lemma load_none_transfer:
  assumes t: "tr_reach (cp_transfer g s N r got seen)" and l: "cs_try_load_data k room s = Ret (Inl sigs, s')"
  shows "s' = s"
proof -
  have inv: "sb_inv (g_written g) (cs_sndbuf s)" using tr_reach_inv [OF t] by (simp add: tr_inv_def snd_inv_def)
  obtain sb where p: "pick_up k (crypto_predicate room) (2 ^ 64 - 1) (cs_sndbuf s) = Ret (Inl sigs, sb)" "s' = s\<lparr>cs_sndbuf := sb\<rparr>"
    using l by (rule try_load_cases) auto
  have "picked_data (g_written g) (crypto_predicate room) (2 ^ 64 - 1) (cs_sndbuf s) (Inl sigs) sb"
    using pick_up_correct [OF inv crypto_predicate_ok, of k room "2 ^ 64 - 1"] p(1) by auto
  then have "sb_state sb = sb_state (cs_sndbuf s)" by (simp add: picked_data_shape_def picked_shape_def)
  moreover have "sb = (cs_sndbuf s)\<lparr>sb_state := sb_state sb\<rparr>" by (rule pick_up_buffer [OF p(1)])
  ultimately show ?thesis using p(2) by simp
qed

lemma load_loop_transfer:
  "crypto_load_loop k room loaded s = Ret (res, outs, s') \<Longrightarrow> tr_reach (cp_transfer g s N r got seen) \<Longrightarrow>
   tr_reach (cp_transfer (g\<lparr>g_sent := g_sent g \<union> \<Union> (covers ` fragment ` set outs)\<rparr>) s' (N \<union> fragment ` set outs) r got seen)"
proof (induction k room loaded s arbitrary: res outs s' g N rule: crypto_load_loop.induct)
  case (1 k room loaded s)
  obtain x s1 where x: "cs_try_load_data k room s = Ret (x, s1)" using 1(2) by (cases "cs_try_load_data k room s") (auto simp: crypto_load_loop.simps [of k room])
  show ?case
  proof (cases x)
    case (Inl sigs)
    then have "outs = []" "s' = s1" using 1(2) x by (auto simp: crypto_load_loop.simps [of k room])
    moreover have "s1 = s" using load_none_transfer [OF 1(3)] x Inl by simp
    ultimately show ?thesis using 1(3) by simp
  next
    case (Inr out)
    then have le: "loaded_size out \<le> room" using 1(2) x by (auto simp: crypto_load_loop.simps [of k room] split: if_splits)
    then obtain outs' where o: "crypto_load_loop k (room - loaded_size out) True s1 = Ret (res, outs', s')" "outs = out # outs'"
      using 1(2) x Inr by (auto simp: crypto_load_loop.simps [of k room loaded] run_simps)
    have t: "tr_reach (cp_transfer (g\<lparr>g_sent := g_sent g \<union> covers (fragment out)\<rparr>) s1 (insert (fragment out) N) r got seen)"
      using load_step_transfer [OF 1(3)] x Inr by simp
    show ?thesis using 1(1) [OF x [unfolded Inr] _ _ le o(1) t] o(2) by (simp add: Un_assoc)
  qed
qed

definition cp_inv :: "send_ghost \<Rightarrow> crypto_sender \<Rightarrow> (nat \<times> byte list) set \<Rightarrow> crypto_recver \<Rightarrow> byte list \<Rightarrow> nat set \<Rightarrow> bool" where
  "cp_inv g s N r got seen \<longleftrightarrow> tr_reach (cp_transfer g s N r got seen) \<and> length (g_written g) \<le> VARINT_MAX \<and> length (sb_data (cs_sndbuf s)) \<le> cs_capacity s"

lemma cp_inv_buffers:
  assumes "cp_inv g s N r got seen"
  shows "snd_inv g (cs_sndbuf s)" "sb_inv (g_written g) (cs_sndbuf s)" "rcv_inv (g_written g) (cr_rcvbuf r) got seen" "\<forall>f \<in> N. slice_of (g_written g) f"
    "written (cs_sndbuf s) = length (g_written g)" "length (g_written g) \<le> VARINT_MAX"
  using tr_reach_inv [of "cp_transfer g s N r got seen"] assms by (auto simp: cp_inv_def tr_inv_def snd_inv_def sb_shape_def)

lemma sb_write_data: "sb_write data sb = Ret (n, sb') \<Longrightarrow> n = length data \<and> length (sb_data sb') = length (sb_data sb) + length data"
  by (auto simp: sb_write_def Let_def run_simps split: if_splits)

lemma on_data_acked_data:
  assumes "on_data_acked rng sb = Ret sb'"
  shows "length (sb_data sb') \<le> length (sb_data sb)"
proof -
  obtain st1 where st1: "ack_rcvd rng (sb_state sb) = Ret st1" using assms by (cases "ack_rcvd rng (sb_state sb)") (simp_all add: on_data_acked_def)
  obtain m st2 where "shift st1 = (m, st2)" by fastforce
  then show ?thesis using assms st1 by (auto simp: on_data_acked_def assert_run_def Let_def split: if_splits)
qed

lemma may_loss_data_data: "may_loss_data rng sb = Ret sb' \<Longrightarrow> sb_data sb' = sb_data sb"
  by (auto simp: may_loss_data_def run_simps)

lemma cp_inv_write:
  assumes I: "cp_inv g s N r got seen" and w: "cs_poll_write w buf s e = Ret (res, s', e')"
  shows "cp_inv (case res of Ready (Inr n) \<Rightarrow> g\<lparr>g_written := g_written g @ take n buf\<rparr> | _ \<Rightarrow> g) s' N r got seen"
proof -
  let ?d = "take (min (cs_remaining_mut s) (length buf)) buf"
  note B = cp_inv_buffers [OF I]
  have "res = Ready (Inl WouldBlock) \<and> s' = s \<or> res = poll.Pending \<and> s' = s\<lparr>cs_writable_waker := Some w\<rparr> \<or>
      (length (g_written g) + length buf \<le> VARINT_MAX \<and> (\<exists>n sb. sb_write ?d (cs_sndbuf s) = Ret (n, sb) \<and> res = Ready (Inr n) \<and> s' = s\<lparr>cs_sndbuf := sb\<rparr>))"
    using w B(5) by (auto simp: cs_poll_write_def assert_run_def add64_def Let_def run_simps split: if_splits)
  then show ?thesis
  proof (elim disjE conjE exE)
    fix n sb assume a: "length (g_written g) + length buf \<le> VARINT_MAX" "sb_write ?d (cs_sndbuf s) = Ret (n, sb)" "res = Ready (Inr n)" "s' = s\<lparr>cs_sndbuf := sb\<rparr>"
    have n: "n = length ?d" "length (sb_data sb) = length (sb_data (cs_sndbuf s)) + length ?d" using sb_write_data [OF a(2)] by auto
    have d: "take n buf = ?d" by (simp add: n(1))
    have op: "op_ok g (OpWrite ?d)" using a(1) by (simp add: VARINT_MAX_def)
    have t: "tr_reach (cp_transfer g s N r got seen)" using I by (simp add: cp_inv_def)
    have "tr_reach (cp_transfer (g\<lparr>g_written := g_written g @ ?d\<rparr>) s' N r got seen)"
      using tr_reach.step [OF t tr_write [of _ ?d]] step_write [OF op a(2)] a(4) by simp
    moreover have "length (sb_data sb) \<le> cs_capacity s" using n(2) I by (auto simp: cp_inv_def cs_remaining_mut_def)
    moreover have "length (g_written g @ ?d) \<le> VARINT_MAX" using a(1) by simp
    ultimately show ?thesis using a(3,4) by (simp add: cp_inv_def d)
  qed (use I in \<open>simp_all add: cp_inv_def\<close>)
qed

lemma load_loop_data: "crypto_load_loop k room loaded s = Ret (res, outs, s') \<Longrightarrow> sb_data (cs_sndbuf s') = sb_data (cs_sndbuf s) \<and> cs_capacity s' = cs_capacity s \<and>
    cs_writable_waker s' = cs_writable_waker s \<and> cs_flush_waker s' = cs_flush_waker s"
proof (induction k room loaded s arbitrary: res outs s' rule: crypto_load_loop.induct)
  case (1 k room loaded s)
  obtain x s1 where x: "cs_try_load_data k room s = Ret (x, s1)" using 1(2) by (cases "cs_try_load_data k room s") (auto simp: crypto_load_loop.simps [of k room])
  obtain y sb where sb: "pick_up k (crypto_predicate room) (2 ^ 64 - 1) (cs_sndbuf s) = Ret (y, sb)" "s1 = s\<lparr>cs_sndbuf := sb\<rparr>" by (rule try_load_cases [OF x]) auto
  have "sb_data sb = sb_data (cs_sndbuf s)" using arg_cong [OF pick_up_buffer [OF sb(1)], of sb_data] by simp
  then have s1: "sb_data (cs_sndbuf s1) = sb_data (cs_sndbuf s) \<and> cs_capacity s1 = cs_capacity s \<and> cs_writable_waker s1 = cs_writable_waker s \<and> cs_flush_waker s1 = cs_flush_waker s"
    using sb(2) by simp
  show ?case
  proof (cases x)
    case (Inl sigs)
    then show ?thesis using 1(2) x s1 by (auto simp: crypto_load_loop.simps [of k room])
  next
    case (Inr out)
    then have le: "loaded_size out \<le> room" using 1(2) x by (auto simp: crypto_load_loop.simps [of k room] split: if_splits)
    then obtain outs' where o: "crypto_load_loop k (room - loaded_size out) True s1 = Ret (res, outs', s')"
      using 1(2) x Inr by (auto simp: crypto_load_loop.simps [of k room loaded] run_simps)
    show ?thesis using 1(1) [OF x [unfolded Inr] _ _ le o] s1 by simp
  qed
qed

lemma cp_reach_inv: "cp_reach g s N r got seen \<Longrightarrow> cp_inv g s N r got seen"
proof (induction rule: cp_reach.induct)
  case (cp_start capacity)
  then show ?case using tr_reach.start by (simp add: cp_inv_def tr_init_def crypto_sender_create_def crypto_recver_create_def sb_with_capacity_def)
next
  case (cp_write g s N r got seen w buf e res s' e')
  then show ?case by (intro cp_inv_write)
next
  case (cp_flush g s N r got seen w res s')
  then show ?case by (auto simp: cp_inv_def cs_poll_flush_def assert_run_def split: if_splits)
next
  case (cp_load g s N r got seen k room res outs s')
  then show ?case using load_loop_transfer load_loop_data by (fastforce simp: cp_inv_def crypto_try_load_data_into_def)
next
  case (cp_acked g s N r got seen f a b e s' e')
  then obtain sb where sb: "on_data_acked (a, b) (cs_sndbuf s) = Ret sb" "cs_sndbuf s' = sb" "cs_capacity s' = cs_capacity s"
    by (auto simp: cs_on_data_acked_def Let_def run_simps split: if_splits)
  have t: "tr_reach (cp_transfer g s N r got seen)" using cp_acked by (simp add: cp_inv_def)
  have "snd_step (g, cs_sndbuf s) (OpAck a b) (g\<lparr>g_acked := g_acked g \<union> {a..<b}\<rparr>, sb)" using cp_acked sb(1) by (intro step_ack) auto
  then have "tr_reach (cp_transfer (g\<lparr>g_acked := g_acked g \<union> {a..<b}\<rparr>) s' N r got seen)" using tr_reach.step [OF t tr_ack [of a b]] cp_acked sb(2) by simp
  then show ?case using cp_acked.IH on_data_acked_data [OF sb(1)] sb(2,3) by (simp add: cp_inv_def)
next
  case (cp_lost g s N r got seen f a b e s' e')
  then obtain sb where sb: "may_loss_data (a, b) (cs_sndbuf s) = Ret sb" "s' = s\<lparr>cs_sndbuf := sb\<rparr>"
    by (auto simp: cs_may_loss_data_def run_simps)
  have t: "tr_reach (cp_transfer g s N r got seen)" using cp_lost by (simp add: cp_inv_def)
  have "snd_step (g, cs_sndbuf s) (OpLoss a b) (g, sb)" using cp_lost sb(1) by (intro step_loss) auto
  then have "tr_reach (cp_transfer g s' N r got seen)" using tr_reach.step [OF t tr_loss [of _ a b]] sb(2) by simp
  then show ?case using cp_lost.IH may_loss_data_data [OF sb(1)] sb(2) by (simp add: cp_inv_def)
next
  case (cp_arrive g s N r got seen f data e r' e')
  then obtain b n where b: "rb_recv (cr_rcvbuf r) (into_inner (cf_offset f)) data = Some (b, n)" "cr_rcvbuf r' = b"
    by (auto simp: crypto_recv_frame_def cr_recv_def assert_run_def expect_def run_simps split: if_splits option.splits)
  have t: "tr_reach (cp_transfer g s N r got seen)" using cp_arrive by (simp add: cp_inv_def)
  have "tr_reach (cp_transfer g s N r' got (seen \<union> covers (into_inner (cf_offset f), data)))" using tr_reach.step [OF t tr_arrive] cp_arrive(2) b by (simp add: covers_def)
  then show ?case using cp_arrive.IH by (simp add: cp_inv_def)
next
  case (cp_read g s N r got seen w room res bytes r')
  have t: "tr_reach (cp_transfer g s N r got seen)" using cp_read by (simp add: cp_inv_def)
  consider b where "try_read (cr_rcvbuf r) room = (b, bytes)" "cr_rcvbuf r' = b" | "bytes = []" "cr_rcvbuf r' = cr_rcvbuf r"
    using cp_read(2) by (auto simp: cr_poll_read_def assert_run_def split: if_splits prod.splits)
  then have "tr_reach (cp_transfer g s N r' (got @ bytes) seen)"
  proof cases
    case 1
    then show ?thesis using tr_reach.step [OF t tr_read] by simp
  qed (use t in simp)
  then show ?case using cp_read.IH by (simp add: cp_inv_def)
qed

lemma varint_len_mono: "m \<le> n \<Longrightarrow> varint_len m \<le> varint_len n"
  by (auto simp: varint_len_def)

lemma picked_fits:
  assumes "picked_data w (crypto_predicate room) fl sb (Inr (off, fresh, s1, s2)) sb'" "off \<le> VARINT_MAX" "room < 2 ^ 30"
  shows "crypto_total off (length s1 + length s2) \<le> room"
proof -
  obtain a where a: "crypto_predicate room off = Some a" "length s1 + length s2 \<le> a"
    using assms(1) by (auto simp: picked_data_shape_def picked_shape_def Let_def)
  then have "crypto_estimate_max_capacity room off = Ret (Some a)" by (simp add: crypto_predicate_def split: run.splits)
  then have "crypto_total off a \<le> room" using crypto_estimate_exact [OF assms(2,3)] by simp
  moreover have "crypto_total off (length s1 + length s2) \<le> crypto_total off a" using varint_len_mono [OF a(2)] a(2) by (simp add: crypto_total_def)
  ultimately show ?thesis by linarith
qed

lemma try_load_returns:
  assumes "sb_inv w (cs_sndbuf s)" "length w \<le> VARINT_MAX" "room < 2 ^ 30"
  obtains x s' where "cs_try_load_data k room s = Ret (x, s')" "sb_inv w (cs_sndbuf s')" "\<forall>out. x = Inr out \<longrightarrow> loaded_size out \<le> room"
proof -
  obtain y sb where y: "pick_up k (crypto_predicate room) (2 ^ 64 - 1) (cs_sndbuf s) = Ret (y, sb)" "sb_inv w sb"
    "picked_data w (crypto_predicate room) (2 ^ 64 - 1) (cs_sndbuf s) y sb"
    using pick_up_correct [OF assms(1) crypto_predicate_ok, of k room "2 ^ 64 - 1"] by blast
  show thesis
  proof (cases y)
    case (Inl sigs)
    then show ?thesis using that [of "Inl sigs" "s\<lparr>cs_sndbuf := sb\<rparr>"] y by (simp add: cs_try_load_data_def)
  next
    case (Inr p)
    obtain off fresh s1 s2 where p: "p = (off, fresh, s1, s2)" by (cases p) auto
    have d: "picked_data w (crypto_predicate room) (2 ^ 64 - 1) (cs_sndbuf s) (Inr (off, fresh, s1, s2)) sb" using y(3) Inr p by simp
    then have "off + (length s1 + length s2) \<le> length w"
      using assms(1) by (auto simp: picked_data_shape_def picked_shape_def Let_def sb_shape_def written_def)
    then have "off \<le> VARINT_MAX" "length s1 + length s2 \<le> VARINT_MAX" using assms(2) by linarith+
    then have l: "cs_try_load_data k room s = Ret (Inr (CryptoFrame (VarInt off) (VarInt (length s1 + length s2)), s1, s2), s\<lparr>cs_sndbuf := sb\<rparr>)"
      using y(1) Inr p by (simp add: cs_try_load_data_def from_u64_def unwrap_result_def VARINT_MAX_def)
    show ?thesis using that [OF l] y(2) picked_fits [OF d \<open>off \<le> VARINT_MAX\<close> assms(3)] by (simp add: loaded_size_def crypto_total_def)
  qed
qed

lemma load_loop_returns:
  "sb_inv w (cs_sndbuf s) \<Longrightarrow> length w \<le> VARINT_MAX \<Longrightarrow> room < 2 ^ 30 \<Longrightarrow> returns (crypto_load_loop k room loaded s)"
proof (induction k room loaded s rule: crypto_load_loop.induct)
  case (1 k room loaded s)
  obtain x s1 where x: "cs_try_load_data k room s = Ret (x, s1)" "sb_inv w (cs_sndbuf s1)" "\<forall>out. x = Inr out \<longrightarrow> loaded_size out \<le> room"
    by (rule try_load_returns [OF 1(2-4), of k])
  show ?case
  proof (cases x)
    case (Inl sigs)
    then show ?thesis using x(1) by (simp add: crypto_load_loop.simps [of k room])
  next
    case (Inr out)
    have "returns (crypto_load_loop k (room - loaded_size out) True s1)"
      using 1(1) [OF x(1) [unfolded Inr] _ _ _ x(2) 1(3)] x(3) Inr 1(4) by auto
    then show ?thesis using x(1,3) Inr by (auto simp: crypto_load_loop.simps [of k room loaded] elim!: returnsE)
  qed
qed

text \<open>Three bytes are written, loaded into one packet, arrive, and one of them is read.\<close>

definition crypto_sb1 :: send_buf where
  "crypto_sb1 = \<lparr>sb_offset = 0, sb_data = [1, 2, 3], sb_state = \<lparr>bm_states = [State 0 color.Pending], bm_end = 3\<rparr>\<rparr>"

definition crypto_sb2 :: send_buf where
  "crypto_sb2 = \<lparr>sb_offset = 0, sb_data = [1, 2, 3], sb_state = \<lparr>bm_states = [State 0 Flighting], bm_end = 3\<rparr>\<rparr>"

definition crypto_sample :: "send_buf \<Rightarrow> crypto_sender" where
  "crypto_sample sb = (crypto_sender_create 10)\<lparr>cs_sndbuf := sb\<rparr>"

definition crypto_sample_rcv :: crypto_recver where
  "crypto_sample_rcv = \<lparr>cr_rcvbuf = \<lparr>rb_nread = 1, rb_largest_offset = 3, rb_segments = [\<lparr>seg_offset = 1, seg_data = [2, 3]\<rparr>]\<rparr>, cr_read_waker = None\<rparr>"

lemma crypto_sample_load:
  "crypto_try_load_data_into 3 100 (crypto_sample crypto_sb1) = Ret (Inr (), [(CryptoFrame (VarInt 0) (VarInt 3), [1, 2, 3], [])], crypto_sample crypto_sb2)"
proof -
  have "pick_up 3 (crypto_predicate 100) (2 ^ 64 - 1) crypto_sb1 = Ret (Inr (0, True, [1, 2, 3], []), crypto_sb2)"
    by (simp add: crypto_sb1_def crypto_sb2_def crypto_predicate_def crypto_estimate_max_capacity_def assert_run_def from_u64_def unwrap_result_def encoding_size_def VARINT_MAX_def
        pick_up_def pick_def pick_split_def get_def set_color_def insert_at_def add64_def sub64_def slice_range_def Let_def merge_after_def same_after_def drain_range_def wadd1_def wsub1_def)
  then have a: "cs_try_load_data 3 100 (crypto_sample crypto_sb1) = Ret (Inr (CryptoFrame (VarInt 0) (VarInt 3), [1, 2, 3], []), crypto_sample crypto_sb2)"
    by (simp add: cs_try_load_data_def crypto_sample_def from_u64_def unwrap_result_def VARINT_MAX_def)
  have "\<exists>sigs. pick_up 3 (crypto_predicate 94) (2 ^ 64 - 1) crypto_sb2 = Ret (Inl sigs, crypto_sb2)"
    by (simp add: crypto_sb2_def pick_up_def pick_def Let_def)
  then obtain sigs where b: "cs_try_load_data 3 94 (crypto_sample crypto_sb2) = Ret (Inl sigs, crypto_sample crypto_sb2)" by (auto simp: cs_try_load_data_def crypto_sample_def)
  have z: "loaded_size (CryptoFrame (VarInt 0) (VarInt 3), [1, 2, 3], []) = 6" by (simp add: loaded_size_def varint_len_def)
  have "crypto_load_loop 3 94 True (crypto_sample crypto_sb2) = Ret (Inr (), [], crypto_sample crypto_sb2)" using b by (simp add: crypto_load_loop.simps)
  then show ?thesis using a z by (simp add: crypto_try_load_data_into_def crypto_load_loop.simps [of 3 100])
qed

lemma crypto_sample_reach:
  "cp_reach \<lparr>g_written = [1, 2, 3], g_sent = {0..<3}, g_acked = {}\<rparr> (crypto_sample crypto_sb2) {(0, [1, 2, 3])} crypto_sample_rcv [1] {0..<3}"
proof -
  let ?g = "\<lambda>S. \<lparr>g_written = [1, 2, 3], g_sent = S, g_acked = {}\<rparr>" and ?b = "\<lparr>rb_nread = 0, rb_largest_offset = 3, rb_segments = [\<lparr>seg_offset = 0, seg_data = [1, 2, 3]\<rparr>]\<rparr>"
  have w: "cs_poll_write 0 [1, 2, 3] (crypto_sender_create 10) no_effects = Ret (Ready (Inr 3), crypto_sample crypto_sb1, wake_tx {TRANSPORT} no_effects)"
    by (simp add: cs_poll_write_def crypto_sender_create_def crypto_sample_def crypto_sb1_def assert_run_def written_def sb_with_capacity_def add64_def VARINT_MAX_def cs_remaining_mut_def
        sb_write_def extend_to_def)
  have 1: "cp_reach (?g {}) (crypto_sample crypto_sb1) {} crypto_recver_create [] {}" using cp_write [OF cp_start w] by simp
  have c: "covers (0, [1, 2, 3]) = {0..<3}" by (simp add: covers_def numeral_3_eq_3)
  have 2: "cp_reach (?g {0..<3}) (crypto_sample crypto_sb2) {(0, [1, 2, 3])} crypto_recver_create [] {}" using cp_load [OF 1 crypto_sample_load] by (simp add: fragment_def c)
  have r: "crypto_recv_frame (CryptoFrame (VarInt 0) (VarInt 3)) [1, 2, 3] crypto_recver_create no_effects = Ret (\<lparr>cr_rcvbuf = ?b, cr_read_waker = None\<rparr>, no_effects)"
    by (simp add: crypto_recv_frame_def cr_recv_def crypto_recver_create_def add64_def assert_run_def VARINT_MAX_def expect_def recv_eval rb_is_readable_def wake_waker_def)
  have 3: "cp_reach (?g {0..<3}) (crypto_sample crypto_sb2) {(0, [1, 2, 3])} \<lparr>cr_rcvbuf = ?b, cr_read_waker = None\<rparr> [] {0..<3}" using cp_arrive [OF 2 _ r] by (simp add: c)
  have "cr_poll_read 0 1 \<lparr>cr_rcvbuf = ?b, cr_read_waker = None\<rparr> = Ret (Ready (), [1], crypto_sample_rcv)"
    by (simp add: cr_poll_read_def crypto_sample_rcv_def assert_run_def rb_is_readable_def try_read_def read_loop.simps)
  from cp_read [OF 3 this] show ?thesis by simp
qed

subsection \<open>The theorems\<close>

text \<open>
  C12: Handshake bytes arrive reliably and in order, as long as a loss is reported only for a frame whose first byte is not acknowledged yet. Whatever TLS writes and reads and however packets are cut, lost, repeated, reordered and, under that
  restriction, rightly or wrongly declared lost and sent again: the peer has read a prefix of what was written; when a flush is done, exactly the rest waits to be read; and the send buffer never holds more than it was allocated for. Without the restriction
  the second claim fails: a loss reported from an acknowledged byte on, as of a retransmission whose original was acknowledged late, makes \<open>may_loss\<close> count the bytes after it as acknowledged (theorem \<open>late_ack_then_loss_forgets\<close> of \<open>Send_Buf\<close>).
\<close>

theorem crypto_stream_reliable:
  assumes "cp_reach g s N r got seen"
  shows "got = take (length got) (g_written g) \<and> length (sb_data (cs_sndbuf s)) \<le> cs_capacity s \<and>
    (cs_poll_flush w s = Ret (Ready (), s') \<longrightarrow> snd (try_read (cr_rcvbuf r) (length (g_written g))) = drop (length got) (g_written g))"
proof -
  have t: "tr_reach (cp_transfer g s N r got seen)" "length (sb_data (cs_sndbuf s)) \<le> cs_capacity s" using cp_reach_inv [OF assms] by (simp_all add: cp_inv_def)
  have "is_all_rcvd (cs_sndbuf s)" if "cs_poll_flush w s = Ret (Ready (), s')" using that by (auto simp: cs_poll_flush_def assert_run_def split: if_splits)
  then show ?thesis using stream_transfer_reliable [OF t(1)] t(2) by auto
qed

theorem crypto_stream_reliable_witness:
  "\<exists>g s r seen. cp_reach g s {(0, [1, 2, 3])} r [1] seen \<and> g_written g = [1, 2, 3] \<and> cs_poll_flush 0 s = Ret (Ready (), s) \<and> snd (try_read (cr_rcvbuf r) 3) = [2, 3]"
proof -
  let ?g = "\<lparr>g_written = [1, 2, 3], g_sent = {0..<3}, g_acked = {}\<rparr>" and ?f = "CryptoFrame (VarInt 0) (VarInt 3)"
  have f: "crypto_range ?f = (0, 3)" by (simp add: crypto_range_def)
  have "op_ok ?g (OpAck 0 3)" by simp
  with cp_inv_buffers(1) [OF cp_reach_inv [OF crypto_sample_reach]] obtain g sb where st: "snd_step (?g, cs_sndbuf (crypto_sample crypto_sb2)) (OpAck 0 3) (g, sb)" by (rule snd_enabled)
  then have "on_data_acked (0, 3) (cs_sndbuf (crypto_sample crypto_sb2)) = Ret sb" by (auto elim: snd_stepE)
  then have s: "cs_on_data_acked ?f (crypto_sample crypto_sb2) no_effects = Ret (crypto_sample sb, no_effects)" "cs_flush_waker (crypto_sample sb) = None"
    by (simp_all add: cs_on_data_acked_def f Let_def wake_waker_def crypto_sample_def crypto_sender_create_def)
  have r: "cp_reach (?g\<lparr>g_acked := g_acked ?g \<union> {0..<3}\<rparr>) (crypto_sample sb) {(0, [1, 2, 3])} crypto_sample_rcv [1] {0..<3}" by (rule cp_acked [OF crypto_sample_reach f _ _ s(1)]) simp_all
  have "is_all_rcvd (cs_sndbuf (crypto_sample sb))" using snd_inv_all_rcvd [OF cp_inv_buffers(1) [OF cp_reach_inv [OF r]]] by auto
  then have fl: "cs_poll_flush 0 (crypto_sample sb) = Ret (Ready (), crypto_sample sb)" using s(2) by (simp add: cs_poll_flush_def assert_run_def)
  have "snd (try_read (cr_rcvbuf crypto_sample_rcv) 3) = [2, 3]" using crypto_stream_reliable [OF r, of 0 "crypto_sample sb"] fl by (auto simp: numeral_3_eq_3)
  then show ?thesis using r fl by (intro exI [of _ "?g\<lparr>g_acked := g_acked ?g \<union> {0..<3}\<rparr>"] exI [of _ "crypto_sample sb"] exI [of _ crypto_sample_rcv] exI [of _ "{0..<3}"]) simp
qed

text \<open>
  C13: The crypto stream does not panic. In every state reached with losses reported only from a byte that is not acknowledged yet, these calls return: loading a packet with less than \<open>2^30\<close> bytes of room; the acknowledgement of bytes that were sent, and
  their loss if the first of them is not acknowledged yet; the arrival of any frame the peer sent; a flush when no flush is waiting, a write of less than \<open>2^63\<close> bytes when neither a flush nor a write is waiting, a read when no read is waiting. So no assertion
  fails, every frame fits the packet it is written to, and no number leaves the range of a variable-length integer.
\<close>

theorem crypto_calls_return:
  assumes "cp_reach g s N r got seen"
  shows "(room < 2 ^ 30 \<longrightarrow> returns (crypto_try_load_data_into k room s)) \<and>
    (crypto_range f = (a, b) \<and> a < b \<and> {a..<b} \<subseteq> g_sent g \<longrightarrow> returns (cs_on_data_acked f s e) \<and> (a \<notin> g_acked g \<longrightarrow> returns (cs_may_loss_data f s e))) \<and>
    ((into_inner (cf_offset f), data) \<in> N \<longrightarrow> returns (crypto_recv_frame f data r e)) \<and>
    (cs_flush_waker s = None \<longrightarrow> returns (cs_poll_flush w s) \<and> (cs_writable_waker s = None \<and> length buf < 2 ^ 63 \<longrightarrow> returns (cs_poll_write w buf s e))) \<and>
    (cr_read_waker r = None \<longrightarrow> returns (cr_poll_read w room r))"
proof (intro conjI impI)
  note I = cp_reach_inv [OF assms] and B = cp_inv_buffers [OF cp_reach_inv [OF assms]]
  show "returns (crypto_try_load_data_into k room s)" if "room < 2 ^ 30" unfolding crypto_try_load_data_into_def by (rule load_loop_returns [OF B(2,6) that])
  show "returns (cs_on_data_acked f s e)" if c: "crypto_range f = (a, b) \<and> a < b \<and> {a..<b} \<subseteq> g_sent g"
  proof -
    have "op_ok g (OpAck a b)" using c by simp
    with B(1) obtain g' sb where "snd_step (g, cs_sndbuf s) (OpAck a b) (g', sb)" by (rule snd_enabled)
    then show ?thesis using c by (auto simp: cs_on_data_acked_def Let_def elim: snd_stepE)
  qed
  show "returns (cs_may_loss_data f s e)" if c: "crypto_range f = (a, b) \<and> a < b \<and> {a..<b} \<subseteq> g_sent g" "a \<notin> g_acked g"
  proof -
    have "op_ok g (OpLoss a b)" using c by simp
    with B(1) obtain g' sb where "snd_step (g, cs_sndbuf s) (OpLoss a b) (g', sb)" by (rule snd_enabled)
    then show ?thesis using c by (auto simp: cs_may_loss_data_def elim: snd_stepE)
  qed
  show "returns (crypto_recv_frame f data r e)" if "(into_inner (cf_offset f), data) \<in> N"
  proof -
    have "slice_of (g_written g) (into_inner (cf_offset f), data)" using B(4) that by blast
    then have "into_inner (cf_offset f) + length data \<le> VARINT_MAX" using B(6) by (simp add: slice_of_def)
    moreover have "rb_inv (cr_rcvbuf r)" using B(3) by (simp add: rcv_inv_def)
    ultimately show ?thesis using recv_ok [of "cr_rcvbuf r" "into_inner (cf_offset f)" data]
      by (auto simp: crypto_recv_frame_def cr_recv_def assert_run_def expect_def add64_def VARINT_MAX_def)
  qed
  show "returns (cs_poll_flush w s)" if "cs_flush_waker s = None" using that by (simp add: cs_poll_flush_def assert_run_def)
  show "returns (cs_poll_write w buf s e)" if c: "cs_flush_waker s = None" "cs_writable_waker s = None \<and> length buf < 2 ^ 63"
  proof (cases "length (g_written g) + length buf \<le> VARINT_MAX")
    case True
    have "length (g_written g) + min (cs_remaining_mut s) (length buf) < 2 ^ 62" using True by (simp add: VARINT_MAX_def min_def)
    then obtain sb n where "sb_write (take (min (cs_remaining_mut s) (length buf)) buf) (cs_sndbuf s) = Ret (n, sb)"
      using sb_write_correct [OF B(2), of "take (min (cs_remaining_mut s) (length buf)) buf"] by auto
    then show ?thesis using c B(5) True by (simp add: cs_poll_write_def assert_run_def add64_def VARINT_MAX_def Let_def)
  next
    case False
    then show ?thesis using c B(5,6) by (simp add: cs_poll_write_def assert_run_def add64_def VARINT_MAX_def)
  qed
  show "returns (cr_poll_read w room r)" if "cr_read_waker r = None" using that by (simp add: cr_poll_read_def assert_run_def)
qed

theorem crypto_calls_return_witness:
  "returns (crypto_try_load_data_into 3 100 (crypto_sample crypto_sb2)) \<and> returns (cs_on_data_acked (CryptoFrame (VarInt 0) (VarInt 3)) (crypto_sample crypto_sb2) no_effects) \<and>
   returns (cs_may_loss_data (CryptoFrame (VarInt 0) (VarInt 3)) (crypto_sample crypto_sb2) no_effects) \<and> returns (cs_poll_write 0 [4] (crypto_sample crypto_sb2) no_effects) \<and>
   returns (crypto_recv_frame (CryptoFrame (VarInt 0) (VarInt 3)) [1, 2, 3] crypto_sample_rcv no_effects)"
  using crypto_calls_return [OF crypto_sample_reach, of 100 3 "CryptoFrame (VarInt 0) (VarInt 3)" 0 3 no_effects "[1, 2, 3]" 0 "[4]"]
  by (simp add: crypto_range_def crypto_sample_def crypto_sender_create_def)

text \<open>
  A flush that has to wait is never completed: \<open>on_data_acked\<close> wakes the writing task but not the flushing one, and the waker stays set. Whatever is loaded, acknowledged or lost afterwards, even when every byte has been
  acknowledged, the next poll of a flush or a write fails the assertion that no flush is waiting.
\<close>

inductive cs_protocol :: "crypto_sender \<Rightarrow> stream_effects \<Rightarrow> crypto_sender \<Rightarrow> stream_effects \<Rightarrow> bool" for s e where
  cs_none: "cs_protocol s e s e"
| cs_load: "cs_protocol s e s1 e1 \<Longrightarrow> crypto_try_load_data_into k room s1 = Ret (res, outs, s2) \<Longrightarrow> cs_protocol s e s2 e1"
| cs_acked: "cs_protocol s e s1 e1 \<Longrightarrow> cs_on_data_acked f s1 e1 = Ret (s2, e2) \<Longrightarrow> cs_protocol s e s2 e2"
| cs_lost: "cs_protocol s e s1 e1 \<Longrightarrow> cs_may_loss_data f s1 e1 = Ret (s2, e2) \<Longrightarrow> cs_protocol s e s2 e2"

lemma protocol_keeps_flush_waker:
  "cs_protocol s e s1 e1 \<Longrightarrow> cs_flush_waker s1 = cs_flush_waker s \<and> set (se_woken e1) \<subseteq> set (se_woken e) \<union> set_option (cs_writable_waker s) \<and>
     set_option (cs_writable_waker s1) \<subseteq> set_option (cs_writable_waker s)"
proof (induction rule: cs_protocol.induct)
  case (cs_load s1 e1 k room res outs s2)
  then show ?case using load_loop_data unfolding crypto_try_load_data_into_def by fastforce
next
  case (cs_acked s1 e1 f s2 e2)
  have "cs_flush_waker s2 = cs_flush_waker s1 \<and> set (se_woken e2) \<subseteq> set (se_woken e1) \<union> set_option (cs_writable_waker s1) \<and>
      set_option (cs_writable_waker s2) \<subseteq> set_option (cs_writable_waker s1)"
    using cs_acked.hyps(2) by (auto simp: cs_on_data_acked_def Let_def run_simps wake_waker_def split: if_splits option.splits)
  then show ?case using cs_acked.IH by auto
next
  case (cs_lost s1 e1 f s2 e2)
  then show ?case by (auto simp: cs_may_loss_data_def run_simps wake_tx_def)
qed simp

theorem waiting_flush_never_completes:
  assumes "cs_poll_flush w s = Ret (poll.Pending, s1)" "cs_protocol s1 e s2 e2"
  shows "cs_poll_flush w' s2 = Panic \<and> cs_poll_write w' buf s2 e2 = Panic \<and> set (se_woken e2) \<subseteq> set (se_woken e) \<union> set_option (cs_writable_waker s)"
proof -
  have "cs_flush_waker s1 = Some w" "cs_writable_waker s1 = cs_writable_waker s" using assms(1) by (auto simp: cs_poll_flush_def assert_run_def split: if_splits)
  then show ?thesis using protocol_keeps_flush_waker [OF assms(2)] by (simp add: cs_poll_flush_def cs_poll_write_def assert_run_def)
qed

end
