(* ===== verification/Datagrams.thy ===== *)
theory Datagrams
  imports Frame_Sizes Stream_Io "HOL-Library.Multiset"
begin

section \<open>Unreliable datagrams: qunreliable/src/writer.rs and reader.rs\<close>

text \<open>
  The queue of datagrams to send and the queue of those received. A mutex around a \<open>Result\<close> is a sum whose left side is the error that closed the connection. The calls of \<open>wake_all_by\<close> on the send tasks are kept in
  a list, as are the wakers woken. \<open>ReadIntoBuf\<close>, which hands the datagram to a buffer of the application, is left out; it only forwards to \<open>poll_recv\<close>.
\<close>

subsection \<open>The writer\<close>

record datagram_writer =
  dw_datagrams :: "byte list list"
  dw_signals :: "signals list"

type_synonym datagram_outgoing = "conn_error + datagram_writer"

datatype datagram_error = DgConn conn_error | DgUnsupported | DgInvalidInput nat nat

definition datagram_outgoing_new :: datagram_outgoing where
  "datagram_outgoing_new = Inr \<lparr>dw_datagrams = [], dw_signals = []\<rparr>"

text \<open>The writer of the application is the shared state and the limit the peer announced.\<close>

definition new_writer :: "nat \<Rightarrow> datagram_outgoing \<Rightarrow> datagram_error + nat" where
  "new_writer max_datagram_frame_size d =
     (case d of
        Inl e \<Rightarrow> Inl (DgConn e)
      | Inr _ \<Rightarrow> if max_datagram_frame_size = 0 then Inl DgUnsupported else Inr max_datagram_frame_size)"

definition send_bytes :: "nat \<Rightarrow> byte list \<Rightarrow> datagram_outgoing \<Rightarrow> (datagram_error + unit) \<times> datagram_outgoing" where
  "send_bytes max_datagram_frame_size data d =
     (case d of
        Inl e \<Rightarrow> (Inl (DgConn e), d)
      | Inr w \<Rightarrow>
          if max_datagram_frame_size < 1 + length data then (Inl (DgInvalidInput (length data) max_datagram_frame_size), d)
          else (Inr (), Inr (w\<lparr>dw_signals := dw_signals w @ [{TRANSPORT}], dw_datagrams := dw_datagrams w @ [data]\<rparr>)))"

definition max_datagram_frame_size :: "nat \<Rightarrow> datagram_outgoing \<Rightarrow> datagram_error + nat" where
  "max_datagram_frame_size limit d = (case d of Inl e \<Rightarrow> Inl (DgConn e) | Inr _ \<Rightarrow> Inr limit)"

text \<open>What a load writes to a packet with \<open>available\<close> bytes of free space: padding, then the frame with its data.\<close>

type_synonym datagram_loaded = "nat \<times> datagram_frame \<times> byte list"

definition load_datagram :: "nat \<Rightarrow> byte list \<Rightarrow> datagram_loaded run" where
  "load_datagram max_size data =
     bind_run (unwrap_result (from_u64 (length data))) (\<lambda>data_len.
       let frame_without_len = DatagramFrame False data_len;
           frame_with_len = DatagramFrame True data_len
       in bind_run (frame_encoding_size (datagram_encode frame_with_len)) (\<lambda>with_len.
            if with_len \<le> max_size then Ret (0, frame_with_len, data)
            else bind_run (frame_encoding_size (datagram_encode frame_without_len)) (\<lambda>without_len.
                   bind_run (sub64 max_size without_len) (\<lambda>padding. Ret (padding, frame_without_len, data)))))"

definition dg_try_load_data_into :: "nat \<Rightarrow> datagram_outgoing \<Rightarrow> ((signals + unit) \<times> datagram_loaded option \<times> datagram_outgoing) run" where
  "dg_try_load_data_into available d =
     (case d of
        Inl e \<Rightarrow> Ret (Inl {}, None, d)
      | Inr w \<Rightarrow>
          (case dw_datagrams w of
             [] \<Rightarrow> Ret (Inl {TRANSPORT}, None, d)
           | data # rest \<Rightarrow>
               let max_size = available - length data
               in if max_size = 0 then Ret (Inl {CONGESTION}, None, d)
                  else bind_run (load_datagram max_size data) (\<lambda>out. Ret (Inr (), Some out, Inr (w\<lparr>dw_datagrams := rest\<rparr>)))))"

definition dw_on_conn_error :: "conn_error \<Rightarrow> datagram_outgoing \<Rightarrow> datagram_outgoing" where
  "dw_on_conn_error e d = (case d of Inl old \<Rightarrow> Inl old | Inr _ \<Rightarrow> Inl e)"

subsection \<open>The reader\<close>

record datagram_reader =
  dr_local_max_size :: nat
  dr_rcvd_datagrams :: "byte list list"
  dr_read_waker :: "nat option"

type_synonym datagram_incoming = "conn_error + datagram_reader"

definition datagram_incoming_new :: "nat \<Rightarrow> datagram_incoming" where
  "datagram_incoming_new local_max_size = Inr \<lparr>dr_local_max_size = local_max_size, dr_rcvd_datagrams = [], dr_read_waker = None\<rparr>"

definition new_reader :: "datagram_incoming \<Rightarrow> datagram_error + unit" where
  "new_reader d =
     (case d of Inl e \<Rightarrow> Inl (DgConn e) | Inr r \<Rightarrow> if dr_local_max_size r = 0 then Inl DgUnsupported else Inr ())"

definition recv_datagram :: "datagram_frame \<Rightarrow> byte list \<Rightarrow> datagram_incoming \<Rightarrow> ((conn_error + unit) \<times> datagram_incoming \<times> nat list) run" where
  "recv_datagram f data d =
     (case d of
        Inl e \<Rightarrow> Ret (Inl e, d, [])
      | Inr r \<Rightarrow> bind_run (frame_encoding_size (datagram_encode f)) (\<lambda>size.
          if dr_local_max_size r < size + length data
          then Ret (Inl (ErrQuic (QuicError ProtocolViolation (ErrV1 (get_frame_type (FrDatagram f data))))), d, [])
          else Ret (Inr (), Inr (r\<lparr>dr_rcvd_datagrams := dr_rcvd_datagrams r @ [data], dr_read_waker := None\<rparr>),
                    case dr_read_waker r of None \<Rightarrow> [] | Some k \<Rightarrow> [k])))"

definition dr_on_conn_error :: "conn_error \<Rightarrow> datagram_incoming \<Rightarrow> datagram_incoming \<times> nat list" where
  "dr_on_conn_error e d =
     (case d of Inl old \<Rightarrow> (Inl old, []) | Inr r \<Rightarrow> (Inl e, case dr_read_waker r of None \<Rightarrow> [] | Some k \<Rightarrow> [k]))"

definition poll_recv :: "nat \<Rightarrow> datagram_incoming \<Rightarrow> (datagram_error + byte list) poll \<times> datagram_incoming" where
  "poll_recv waker d =
     (case d of
        Inl e \<Rightarrow> (Ready (Inl (DgConn e)), d)
      | Inr r \<Rightarrow>
          (case dr_rcvd_datagrams r of
             data # rest \<Rightarrow> (Ready (Inr data), Inr (r\<lparr>dr_rcvd_datagrams := rest\<rparr>))
           | [] \<Rightarrow> (Pending, Inr (r\<lparr>dr_read_waker := Some waker\<rparr>))))"

text \<open>\<open>ReadIntoSlice\<close>: the datagram is cut to the length of the slice.\<close>

definition poll_read_slice :: "nat \<Rightarrow> byte list \<Rightarrow> datagram_incoming \<Rightarrow> (datagram_error + nat) poll \<times> byte list \<times> datagram_incoming" where
  "poll_read_slice waker buf d =
     (case poll_recv waker d of
        (Pending, d) \<Rightarrow> (Pending, buf, d)
      | (Ready (Inl e), d) \<Rightarrow> (Ready (Inl e), buf, d)
      | (Ready (Inr data), d) \<Rightarrow>
          let len = min (length data) (length buf) in (Ready (Inr len), take len data @ drop len buf, d))"

subsection \<open>What a load writes\<close>

definition loaded_frames :: "datagram_loaded \<Rightarrow> frame list" where
  "loaded_frames = (\<lambda>(padding, f, data). replicate padding FrPadding @ [FrDatagram f data])"

lemma datagram_sizes:
  assumes "x < 2 ^ 62"
  shows "frame_encoding_size (datagram_encode (DatagramFrame True (VarInt x))) = Ret (1 + varint_len x)"
    "frame_encoding_size (datagram_encode (DatagramFrame False (VarInt x))) = Ret 1"
  using assms by (simp_all add: datagram_encode_def encoding_size_len)

lemma load_datagram_cases:
  assumes "0 < n" "length data < 2 ^ 62"
  shows "load_datagram n data = Ret (if 1 + varint_len (length data) \<le> n then (0, DatagramFrame True (VarInt (length data)), data)
    else (n - 1, DatagramFrame False (VarInt (length data)), data))"
  using assms by (simp add: load_datagram_def from_u64_def Let_def datagram_sizes sub64_def)

text \<open>The load of a datagram into \<open>available\<close> bytes: with its length where that fits, otherwise without and padded to the end of the packet.\<close>

definition datagram_form :: "nat \<Rightarrow> byte list \<Rightarrow> datagram_loaded" where
  "datagram_form available data =
     (if 1 + varint_len (length data) + length data \<le> available then (0, DatagramFrame True (VarInt (length data)), data)
      else (available - length data - 1, DatagramFrame False (VarInt (length data)), data))"

lemma dg_try_load_cons:
  assumes "dw_datagrams w = data # rest" "length data < 2 ^ 62"
  shows "dg_try_load_data_into available (Inr w) =
    (if available \<le> length data then Ret (Inl {CONGESTION}, None, Inr w) else Ret (Inr (), Some (datagram_form available data), Inr (w\<lparr>dw_datagrams := rest\<rparr>)))"
proof (cases "available \<le> length data")
  case False
  then have "1 + varint_len (length data) \<le> available - length data \<longleftrightarrow> 1 + varint_len (length data) + length data \<le> available" by auto
  then have "load_datagram (available - length data) data = Ret (datagram_form available data)"
    using load_datagram_cases [of "available - length data" data] assms(2) False by (simp only: datagram_form_def)
  then show ?thesis using False assms(1) by (simp add: dg_try_load_data_into_def)
qed (simp add: dg_try_load_data_into_def assms(1))

lemma dg_try_load_ok:
  assumes "dg_try_load_data_into available d = Ret (r, Some out, d')" "\<forall>w. d = Inr w \<longrightarrow> (\<forall>data \<in> set (dw_datagrams w). length data < 2 ^ 62)"
  obtains w data rest where "d = Inr w" "dw_datagrams w = data # rest" "length data < available" "length data < 2 ^ 62" "r = Inr ()" "out = datagram_form available data"
    "d' = Inr (w\<lparr>dw_datagrams := rest\<rparr>)"
proof -
  obtain w where w: "d = Inr w" using assms(1) by (cases d) (simp_all add: dg_try_load_data_into_def)
  obtain data rest where q: "dw_datagrams w = data # rest" using assms(1) w by (cases "dw_datagrams w") (simp_all add: dg_try_load_data_into_def)
  have len: "length data < 2 ^ 62" using assms(2) w q by simp
  show thesis using that [OF w q _ len] assms(1) unfolding w dg_try_load_cons [OF q len] by (simp split: if_splits)
qed

lemma datagram_form_data: "snd (snd (datagram_form available data)) = data"
  by (simp add: datagram_form_def)

lemma datagram_form_frame:
  assumes "datagram_form available data = (padding, f, data')" "length data < 2 ^ 62"
  shows "data' = data" "frame_ok (FrDatagram f data)" "belongs_to (wire_type (FrDatagram f data)) (Short sp)"
    "frame_encoding_size (datagram_encode f) = Ret (if dg_encode_len f then 1 + varint_len (length data) else 1)"
  using assms by (auto simp: datagram_form_def varint_ok_def wire_type_def belongs_to_def datagram_sizes split: if_splits)

lemma loaded_length:
  assumes "length data < available" "length data < 2 ^ 62"
  shows "length (concat (map frame_bytes (loaded_frames (datagram_form available data)))) =
    (if 1 + varint_len (length data) + length data \<le> available then 1 + varint_len (length data) + length data else available)"
proof -
  have "length (concat (map frame_bytes (replicate n FrPadding))) = n" for n
    by (induction n) (simp_all add: frame_bytes_def)
  then show ?thesis using assms by (auto simp: datagram_form_def loaded_frames_def frame_bytes_def length_venc)
qed

subsection \<open>Both ends\<close>

text \<open>
  A writer and the reader of its peer, which announced \<open>m\<close> as its limit: \<open>S\<close> are the datagrams the application sent, \<open>W\<close> what is on its way in packets, which may be lost or reordered, and \<open>D\<close> what the
  other application was given. The journal of received packets takes every packet once, so nothing is delivered twice by the network.
\<close>

inductive dg_reach :: "nat \<Rightarrow> byte list list \<Rightarrow> datagram_outgoing \<Rightarrow> datagram_loaded list \<Rightarrow> datagram_incoming \<Rightarrow> byte list list \<Rightarrow> bool" for m where
  dg_start: "dg_reach m [] datagram_outgoing_new [] (datagram_incoming_new m) []"
| dg_send: "dg_reach m S d W r D \<Longrightarrow> length data < 2 ^ 62 \<Longrightarrow> send_bytes m data d = (Inr (), d') \<Longrightarrow> dg_reach m (S @ [data]) d' W r D"
| dg_load: "dg_reach m S d W r D \<Longrightarrow> dg_try_load_data_into available d = Ret (res, Some out, d') \<Longrightarrow> dg_reach m S d' (W @ [out]) r D"
| dg_lose: "dg_reach m S d W r D \<Longrightarrow> mset W' \<subseteq># mset W \<Longrightarrow> dg_reach m S d W' r D"
| dg_arrive: "dg_reach m S d ((padding, f, data) # W) r D \<Longrightarrow> recv_datagram f data r = Ret (res, r', ks) \<Longrightarrow> dg_reach m S d W r' D"
| dg_read: "dg_reach m S d W r D \<Longrightarrow> poll_recv k r = (Ready (Inr data), r') \<Longrightarrow> dg_reach m S d W r' (D @ [data])"
| dg_wait: "dg_reach m S d W r D \<Longrightarrow> poll_recv k r = (Pending, r') \<Longrightarrow> dg_reach m S d W r' D"
| dg_close: "dg_reach m S d W r D \<Longrightarrow> dr_on_conn_error e r = (r', ks) \<Longrightarrow> dg_reach m S (dw_on_conn_error e d) W r' D"

definition out_queue :: "datagram_outgoing \<Rightarrow> byte list list" where
  "out_queue d = (case d of Inl _ \<Rightarrow> [] | Inr w \<Rightarrow> dw_datagrams w)"

definition in_queue :: "datagram_incoming \<Rightarrow> byte list list" where
  "in_queue d = (case d of Inl _ \<Rightarrow> [] | Inr r \<Rightarrow> dr_rcvd_datagrams r)"

definition carried :: "datagram_loaded list \<Rightarrow> byte list multiset" where
  "carried W = image_mset (\<lambda>(padding, f, data). data) (mset W)"

definition dg_inv :: "nat \<Rightarrow> byte list list \<Rightarrow> datagram_outgoing \<Rightarrow> datagram_loaded list \<Rightarrow> datagram_incoming \<Rightarrow> byte list list \<Rightarrow> bool" where
  "dg_inv m S d W r D \<longleftrightarrow>
     mset D + mset (in_queue r) + carried W + mset (out_queue d) \<subseteq># mset S \<and>
     (\<forall>data \<in> set S. length data < 2 ^ 62 \<and> 1 + length data \<le> m) \<and>
     (\<forall>x \<in> set W. \<exists>available data. x = datagram_form available data \<and> data \<in> set S) \<and>
     (\<forall>q. r = Inr q \<longrightarrow> dr_local_max_size q = m)"

lemma carried_simps [simp]:
  "carried [] = {#}" "carried ((padding, f, data) # W) = add_mset data (carried W)" "carried (W @ V) = carried W + carried V"
  by (simp_all add: carried_def)

lemma carried_form [simp]: "carried [datagram_form available data] = {#data#}"
  by (simp add: datagram_form_def)

lemma out_queue_sent: "dg_inv m S d W r D \<Longrightarrow> data \<in> set (out_queue d) \<Longrightarrow> data \<in> set S"
proof -
  assume "dg_inv m S d W r D" "data \<in> set (out_queue d)"
  then have "mset (out_queue d) \<subseteq># mset S" by (auto simp: dg_inv_def intro: subset_mset.order_trans [rotated])
  then show "data \<in> set S" using \<open>data \<in> set (out_queue d)\<close> mset_subset_eqD by fastforce
qed

lemma dg_inv_load:
  assumes I: "dg_inv m S d W r D" and l: "dg_try_load_data_into available d = Ret (res, Some out, d')"
  shows "dg_inv m S d' (W @ [out]) r D"
proof -
  have "\<forall>w. d = Inr w \<longrightarrow> (\<forall>data \<in> set (dw_datagrams w). length data < 2 ^ 62)"
    using out_queue_sent [OF I] I by (auto simp: out_queue_def dg_inv_def)
  with l obtain w data rest where w: "d = Inr w" "dw_datagrams w = data # rest" "out = datagram_form available data" "d' = Inr (w\<lparr>dw_datagrams := rest\<rparr>)"
    by (rule dg_try_load_ok)
  have "data \<in> set S" using out_queue_sent [OF I] w by (simp add: out_queue_def)
  then show ?thesis using I w by (auto simp: dg_inv_def out_queue_def)
qed

lemma dg_inv_arrive:
  assumes I: "dg_inv m S d ((padding, f, data) # W) r D" and a: "recv_datagram f data r = Ret (res, r', ks)"
  shows "dg_inv m S d W r' D"
proof -
  have le: "mset D + mset (in_queue r) + carried W + mset (out_queue d) \<subseteq># mset S" "mset D + mset (in_queue r) + add_mset data (carried W) + mset (out_queue d) \<subseteq># mset S"
    using I by (auto simp: dg_inv_def intro: subset_mset.order_trans [rotated])
  show ?thesis
  proof (cases r)
    case (Inl e)
    then show ?thesis using I a le(1) by (auto simp: recv_datagram_def dg_inv_def)
  next
    case (Inr q)
    then have "r' = r \<or> r' = Inr (q\<lparr>dr_rcvd_datagrams := dr_rcvd_datagrams q @ [data], dr_read_waker := None\<rparr>)"
      using a by (auto simp: recv_datagram_def run_simps split: if_splits)
    then show ?thesis using I Inr le by (auto simp: dg_inv_def in_queue_def)
  qed
qed

lemma sum4_mono:
  fixes S :: "'a multiset"
  shows "D + A + B + C \<subseteq># S \<Longrightarrow> A' \<subseteq># A \<Longrightarrow> B' \<subseteq># B \<Longrightarrow> C' \<subseteq># C \<Longrightarrow> D + A' + B' + C' \<subseteq># S"
  by (meson subset_mset.add_mono subset_mset.order_refl subset_mset.order_trans)

lemma dg_reach_inv: "dg_reach m S d W r D \<Longrightarrow> dg_inv m S d W r D"
proof (induction rule: dg_reach.induct)
  case dg_start
  then show ?case by (simp add: dg_inv_def in_queue_def out_queue_def datagram_outgoing_new_def datagram_incoming_new_def)
next
  case (dg_send S d W r D data d')
  obtain w where "d = Inr w" "1 + length data \<le> m" "d' = Inr (w\<lparr>dw_signals := dw_signals w @ [{TRANSPORT}], dw_datagrams := dw_datagrams w @ [data]\<rparr>)"
    using dg_send.hyps(3) by (cases d) (auto simp: send_bytes_def split: if_splits)
  moreover have "\<forall>x \<in> set W. \<exists>available x'. x = datagram_form available x' \<and> x' \<in> set (S @ [data])" using dg_send.IH unfolding dg_inv_def by fastforce
  ultimately show ?case using dg_send.IH dg_send.hyps(2) by (simp add: dg_inv_def out_queue_def add.assoc)
next
  case (dg_lose S d W r D W')
  have "carried W' \<subseteq># carried W" unfolding carried_def by (rule image_mset_subseteq_mono [OF dg_lose.hyps(2)])
  then have "mset D + mset (in_queue r) + carried W' + mset (out_queue d) \<subseteq># mset S"
    using dg_lose.IH sum4_mono by (fastforce simp: dg_inv_def)
  moreover have "set W' \<subseteq> set W" using set_mset_mono [OF dg_lose.hyps(2)] by simp
  ultimately show ?case using dg_lose.IH by (auto simp: dg_inv_def)
next
  case (dg_read S d W r D k data r')
  then obtain q rest where "r = Inr q" "dr_rcvd_datagrams q = data # rest" "r' = Inr (q\<lparr>dr_rcvd_datagrams := rest\<rparr>)"
    by (auto simp: poll_recv_def split: sum.splits list.splits)
  then show ?case using dg_read.IH by (auto simp: dg_inv_def in_queue_def)
next
  case (dg_wait S d W r D k r')
  then obtain q where "r = Inr q" "dr_rcvd_datagrams q = []" "r' = Inr (q\<lparr>dr_read_waker := Some k\<rparr>)"
    by (auto simp: poll_recv_def split: sum.splits list.splits)
  then show ?case using dg_wait.IH by (auto simp: dg_inv_def in_queue_def)
next
  case (dg_close S d W r D e r' ks)
  have "mset (in_queue r') \<subseteq># mset (in_queue r)" "mset (out_queue (dw_on_conn_error e d)) \<subseteq># mset (out_queue d)"
    using dg_close.hyps(2) by (auto simp: dr_on_conn_error_def in_queue_def out_queue_def dw_on_conn_error_def split: sum.splits)
  then have "mset D + mset (in_queue r') + carried W + mset (out_queue (dw_on_conn_error e d)) \<subseteq># mset S"
    using dg_close.IH sum4_mono by (fastforce simp: dg_inv_def)
  moreover have "r' = r \<or> (\<exists>x. r' = Inl x)" using dg_close.hyps(2) by (auto simp: dr_on_conn_error_def split: sum.splits)
  ultimately show ?case using dg_close.IH by (auto simp: dg_inv_def)
qed (simp_all add: dg_inv_load dg_inv_arrive)

lemma recv_form_accepts:
  assumes "datagram_form available data = (padding, f, data')" "length data < 2 ^ 62" "1 + length data \<le> dr_local_max_size q"
    "dg_encode_len f \<longrightarrow> 1 + varint_len (length data) + length data \<le> dr_local_max_size q"
  shows "recv_datagram f data' (Inr q) =
    Ret (Inr (), Inr (q\<lparr>dr_rcvd_datagrams := dr_rcvd_datagrams q @ [data], dr_read_waker := None\<rparr>), case dr_read_waker q of None \<Rightarrow> [] | Some k \<Rightarrow> [k])"
  using datagram_form_frame [OF assms(1,2)] assms(3,4) by (auto simp: recv_datagram_def)

subsection \<open>The theorems\<close>

text \<open>
  Datagrams are delivered at most once and unaltered, whatever the network loses or reorders and whenever either side closes: what the application was given is a sub-multiset of what its peer sent. And every datagram on its way is accepted by
  a reader that is still open, as long as the frame it travels in respects the limit the reader announced.
\<close>

theorem datagrams_at_most_once:
  assumes "dg_reach m S d W r D"
  shows "mset D \<subseteq># mset S \<and> (\<forall>(padding, f, data) \<in> set W. \<forall>q. r = Inr q \<and> (dg_encode_len f \<longrightarrow> 1 + varint_len (length data) + length data \<le> m) \<longrightarrow>
    (\<exists>q' ks. recv_datagram f data r = Ret (Inr (), Inr q', ks) \<and> dr_rcvd_datagrams q' = dr_rcvd_datagrams q @ [data]))"
proof (intro conjI ballI)
  have I: "dg_inv m S d W r D" by (rule dg_reach_inv [OF assms])
  then show "mset D \<subseteq># mset S" by (auto simp: dg_inv_def intro: subset_mset.order_trans [rotated])
  fix x assume x: "x \<in> set W"
  show "case x of (padding, f, data) \<Rightarrow> \<forall>q. r = Inr q \<and> (dg_encode_len f \<longrightarrow> 1 + varint_len (length data) + length data \<le> m) \<longrightarrow>
    (\<exists>q' ks. recv_datagram f data r = Ret (Inr (), Inr q', ks) \<and> dr_rcvd_datagrams q' = dr_rcvd_datagrams q @ [data])"
  proof clarify
    fix padding f data q assume e: "x = (padding, f, data)" "r = Inr q" "dg_encode_len f \<longrightarrow> 1 + varint_len (length data) + length data \<le> m"
    obtain available data' where f: "datagram_form available data' = (padding, f, data)" "data' \<in> set S" using I x e(1) unfolding dg_inv_def by force
    have "data = data'" using datagram_form_data [of available data'] f(1) by simp
    moreover have "length data' < 2 ^ 62" "1 + length data' \<le> m" "dr_local_max_size q = m" using I f(2) e(2) by (auto simp: dg_inv_def)
    ultimately show "\<exists>q' ks. recv_datagram f data (Inr q) = Ret (Inr (), Inr q', ks) \<and> dr_rcvd_datagrams q' = dr_rcvd_datagrams q @ [data]"
      using recv_form_accepts [OF f(1), of q] e(3) by simp
  qed
qed

theorem datagrams_at_most_once_witness:
  "dg_reach 9 [[7, 8]] (Inr \<lparr>dw_datagrams = [], dw_signals = [{TRANSPORT}]\<rparr>) [(0, DatagramFrame True (VarInt 2), [7, 8])] (datagram_incoming_new 9) [] \<and>
   (\<exists>q' ks. recv_datagram (DatagramFrame True (VarInt 2)) [7, 8] (datagram_incoming_new 9) = Ret (Inr (), Inr q', ks) \<and> dr_rcvd_datagrams q' = [[7, 8]])"
proof -
  let ?d = "Inr \<lparr>dw_datagrams = [[7, 8]], dw_signals = [{TRANSPORT}]\<rparr> :: datagram_outgoing"
  have s: "send_bytes 9 [7, 8] datagram_outgoing_new = (Inr (), ?d)" by (simp add: send_bytes_def datagram_outgoing_new_def)
  have l: "dg_try_load_data_into 20 ?d = Ret (Inr (), Some (0, DatagramFrame True (VarInt 2), [7, 8]), Inr \<lparr>dw_datagrams = [], dw_signals = [{TRANSPORT}]\<rparr>)"
    by (simp add: dg_try_load_data_into_def load_datagram_def from_u64_def Let_def datagram_sizes varint_len_def VARINT_MAX_def)
  have r: "dg_reach 9 [[7, 8]] (Inr \<lparr>dw_datagrams = [], dw_signals = [{TRANSPORT}]\<rparr>) [(0, DatagramFrame True (VarInt 2), [7, 8])] (datagram_incoming_new 9) []"
    using dg_load [OF dg_send [OF dg_start _ s] l] by simp
  show ?thesis using datagrams_at_most_once [OF r] r by (simp add: datagram_incoming_new_def varint_len_def)
qed

text \<open>
  C22: A datagram survives the wire. When \<open>try_load_data_into\<close> loads the first datagram of the queue into the free space of a packet, what it writes fits, fills the packet whenever the length is left out, and the frame reader of the peer yields the
  frames that were in the packet before, the padding, and the datagram with exactly its bytes.
\<close>

theorem datagram_survives_wire:
  assumes "nom_ok N" "bufmut_ok B" "dg_try_load_data_into available (Inr w) = Ret (res, Some (padding, f, data), d')" "\<forall>x \<in> set (dw_datagrams w). length x < 2 ^ 62"
    "payload_ok rem lossy (Short sp) fs" "list_all self_delimiting fs"
  shows "dw_datagrams w = data # out_queue d' \<and> (\<exists>payload before. put_frames B rem fs [] = Ret before \<and>
    put_frames B rem (fs @ replicate padding FrPadding @ [FrDatagram f data]) [] = Ret payload \<and>
    length payload \<le> length before + available \<and> (\<not> dg_encode_len f \<longrightarrow> length payload = length before + available) \<and>
    read_frames N lossy (Short sp) (Suc (length fs + padding + 1)) payload =
      Ret (map (\<lambda>f. Inr (f, wire_type f)) fs @ replicate padding (Inr (FrPadding, Padding)) @ [Inr (FrDatagram f data, wire_type (FrDatagram f data))], []))"
proof -
  have "\<forall>w'. (Inr w :: datagram_outgoing) = Inr w' \<longrightarrow> (\<forall>x \<in> set (dw_datagrams w'). length x < 2 ^ 62)" using assms(4) by blast
  with assms(3) obtain w' data' rest where w: "Inr w = (Inr w' :: datagram_outgoing)" "dw_datagrams w' = data' # rest" "length data' < available" "length data' < 2 ^ 62"
    "(padding, f, data) = datagram_form available data'" "d' = Inr (w'\<lparr>dw_datagrams := rest\<rparr>)"
    by (rule dg_try_load_ok)
  note form = datagram_form_frame [OF w(5) [symmetric] w(4)]
  let ?fs = "fs @ loaded_frames (padding, f, data)" and ?bytes = "\<lambda>fs. concat (map frame_bytes fs)"
  have pad: "frame_ok FrPadding" "belongs_to (wire_type FrPadding) (Short sp)" by (simp_all add: wire_type_def belongs_to_def)
  have ok: "list_all (\<lambda>f. frame_ok f \<and> belongs_to (wire_type f) (Short sp)) ?fs" using assms(5) form pad by (auto simp: payload_ok_def loaded_frames_def list_all_iff)
  have del: "list_all self_delimiting (butlast ?fs)" using assms(6) by (auto simp: loaded_frames_def butlast_append list_all_iff self_delimiting_def)
  have k0: "reason_kept rem lossy (?bytes (take k fs)) (fs ! k)" if "k < length fs" for k using assms(5) that by (auto simp: payload_ok_def list_all_iff)
  have k: "reason_kept rem lossy (?bytes (take k ?fs)) (?fs ! k)" if "k < length ?fs" for k
    using k0 [of k] that by (cases "k < length fs") (auto simp: nth_append loaded_frames_def reason_kept_def split: if_splits)
  have "put_frames B rem ?fs [] = Ret (?bytes ?fs)" using put_frames_bytes [OF assms(2), of ?fs rem lossy "[]"] k ok by (simp add: list_all_iff)
  moreover have "put_frames B rem fs [] = Ret (?bytes fs)" using put_frames_bytes [OF assms(2), of fs rem lossy "[]"] k0 ok by (simp add: list_all_iff)
  moreover have "read_frames N lossy (Short sp) (Suc (length ?fs)) (?bytes ?fs) = Ret (map (\<lambda>f. Inr (f, wire_type f)) ?fs, [])"
    using k by (intro read_frames_read_back [OF assms(1) ok del, where rem = rem]) blast
  moreover have "length (?bytes (loaded_frames (padding, f, data))) \<le> available \<and> (\<not> dg_encode_len f \<longrightarrow> length (?bytes (loaded_frames (padding, f, data))) = available)"
    using loaded_length [OF w(3,4)] w(5) by (auto simp: datagram_form_def split: if_splits)
  moreover have "wire_type FrPadding = Padding" by (simp add: wire_type_def)
  moreover have "dw_datagrams w = data # out_queue d'" using w(1,2,6) form(1) by (simp add: out_queue_def)
  ultimately show ?thesis by (simp add: loaded_frames_def del: put_frames.simps read_frames.simps)
qed

theorem datagram_survives_wire_witness:
  "\<exists>data payload. length data = 64 \<and> put_frames bufmut_ref (\<lambda>_. 0) [FrPing, FrPadding, FrDatagram (DatagramFrame False (VarInt 64)) data] [] = Ret payload \<and> length payload = 67 \<and>
     read_frames nom_ref (\<lambda>x. x) (Short ToggleZero) 4 payload =
       Ret ([Inr (FrPing, Ping), Inr (FrPadding, Padding), Inr (FrDatagram (DatagramFrame False (VarInt 64)) data, Datagram 0)], [])"
proof -
  obtain data :: "byte list" where data: "length data = 64" using Ex_list_of_length by blast
  let ?w = "\<lparr>dw_datagrams = [data], dw_signals = []\<rparr>"
  have l: "dg_try_load_data_into 66 (Inr ?w) = Ret (Inr (), Some (1, DatagramFrame False (VarInt 64), data), Inr (?w\<lparr>dw_datagrams := []\<rparr>))"
    by (simp add: dg_try_load_cons datagram_form_def varint_len_def data)
  have p: "payload_ok (\<lambda>_. 0) (\<lambda>x. x) (Short ToggleZero) [FrPing]" "list_all self_delimiting [FrPing]" "\<forall>x \<in> set (dw_datagrams ?w). length x < 2 ^ 62"
    by (simp_all add: data payload_ok_def belongs_to_def wire_type_def self_delimiting_def reason_kept_def)
  have ping: "put_frames bufmut_ref (\<lambda>_. 0) [FrPing] [] = Ret (frame_bytes FrPing)"
    using put_frames_bytes [OF bufmut_ok_ref, of "[FrPing]" "\<lambda>_. 0" "\<lambda>x. x" "[]"] by (simp add: reason_kept_def)
  have n: "Suc (length [FrPing] + 1 + 1) = 4" "[FrPing] @ replicate 1 FrPadding @ [x] = [FrPing, FrPadding, x]" "wire_type (FrDatagram (DatagramFrame False (VarInt 64)) data) = Datagram 0"
    "map (\<lambda>f. Inr (f, wire_type f)) [FrPing] @ replicate 1 (Inr (FrPadding, Padding)) @ [y] = [Inr (FrPing, Ping), Inr (FrPadding, Padding), y]"
    for x and y :: "frame_error + frame \<times> frame_type" by (simp_all add: wire_type_def)
  note t = conjunct2 [OF datagram_survives_wire [OF nom_ok_ref bufmut_ok_ref l p(3,1,2), unfolded n ping]]
  from t obtain payload before where P: "Ret (frame_bytes FrPing) = Ret before" "put_frames bufmut_ref (\<lambda>_. 0) [FrPing, FrPadding, FrDatagram (DatagramFrame False (VarInt 64)) data] [] = Ret payload"
    "\<not> dg_encode_len (DatagramFrame False (VarInt 64)) \<longrightarrow> length payload = length before + 66"
    "read_frames nom_ref (\<lambda>x. x) (Short ToggleZero) 4 payload = Ret ([Inr (FrPing, Ping), Inr (FrPadding, Padding), Inr (FrDatagram (DatagramFrame False (VarInt 64)) data, Datagram 0)], [])"
    by blast
  have "length payload = 67" using P(1,3) by (auto simp: frame_bytes_def)
  then show ?thesis using P(2,4) data by blast
qed

text \<open>
  C37: A datagram the writer accepts can close the connection. The writer takes every datagram that would respect the peer's limit without its length; when the packet has room for the length too, the frame is written with it and
  exceeds the limit, and the peer's reader, which counts the whole frame, answers with \<open>PROTOCOL_VIOLATION\<close>.
\<close>

theorem accepted_datagram_violates_limit:
  assumes "1 + length data \<le> m" "m < 1 + varint_len (length data) + length data" "1 + varint_len (length data) + length data \<le> available" "length data < 2 ^ 62"
  shows "\<exists>d d'. send_bytes m data datagram_outgoing_new = (Inr (), d) \<and>
    dg_try_load_data_into available d = Ret (Inr (), Some (0, DatagramFrame True (VarInt (length data)), data), d') \<and>
    recv_datagram (DatagramFrame True (VarInt (length data))) data (datagram_incoming_new m) =
      Ret (Inl (ErrQuic (QuicError ProtocolViolation (ErrV1 (Datagram 1)))), datagram_incoming_new m, [])"
proof (intro exI conjI)
  let ?w = "\<lparr>dw_datagrams = [data], dw_signals = [{TRANSPORT}]\<rparr>"
  show "send_bytes m data datagram_outgoing_new = (Inr (), Inr ?w)" using assms(1) by (simp add: send_bytes_def datagram_outgoing_new_def)
  show "dg_try_load_data_into available (Inr ?w) = Ret (Inr (), Some (0, DatagramFrame True (VarInt (length data)), data), Inr (?w\<lparr>dw_datagrams := []\<rparr>))"
    using dg_try_load_cons [of ?w data "[]" available] assms(3,4) by (simp add: datagram_form_def)
  show "recv_datagram (DatagramFrame True (VarInt (length data))) data (datagram_incoming_new m) =
      Ret (Inl (ErrQuic (QuicError ProtocolViolation (ErrV1 (Datagram 1)))), datagram_incoming_new m, [])"
    using assms(2,4) by (simp add: recv_datagram_def datagram_incoming_new_def datagram_sizes)
qed

theorem accepted_datagram_violates_limit_witness:
  "\<exists>d d'. send_bytes 100 (replicate 99 0) datagram_outgoing_new = (Inr (), d) \<and>
    dg_try_load_data_into 1200 d = Ret (Inr (), Some (0, DatagramFrame True (VarInt 99), replicate 99 0), d') \<and>
    recv_datagram (DatagramFrame True (VarInt 99)) (replicate 99 0) (datagram_incoming_new 100) =
      Ret (Inl (ErrQuic (QuicError ProtocolViolation (ErrV1 (Datagram 1)))), datagram_incoming_new 100, [])"
  using accepted_datagram_violates_limit [of "replicate 99 0" 100 1200] by (simp add: varint_len_def)

end
