(* ===== verification/Spec2Isabelle.thy ===== *)
theory Spec2Isabelle
  imports Peer_Limits Index_Deque Varint Packet_Number Packed_State Packet_Headers Frame_Sizes Flow Stream_Ids Stream_Transfer Stream_Pair Cid_Pair Journal_Pair Loss_Pair Crypto_Stream Datagrams
begin

text \<open>
  A verification library for gm-quic, an implementation of the QUIC transport protocol (RFC 9000) in Rust.

  \<^bold>\<open>The program.\<close> \<open>qbase\<close> holds the wire formats (variable-length integers, packet headers and numbers, frames),
  stream identifiers, flow control, connection identifiers and transport parameters; \<open>qrecovery\<close> holds reliable delivery:
  the send buffer with its interval map of sent, lost and acknowledged bytes, the receive buffer that reassembles fragments,
  the state machines of the two halves of a stream; \<open>qcongestion\<close> detects losses, estimates the round trip time, runs New Reno and paces what a
  path sends; \<open>qconnection\<close> drives them. A connection
  cuts a datagram into packets, a packet into frames, and hands each frame to the component it concerns. On the way out the
  components are asked for frames that fit into the space that is left.

  \<^bold>\<open>How code becomes definitions.\<close> A struct is a record, an enum a datatype, a method a function that returns the updated
  state. The type \<open>run\<close> of theory \<open>Prelude\<close> separates a value (\<open>Ret\<close>) from a panic (\<open>Panic\<close>): checked
  arithmetic on \<open>u64\<close> (\<open>add64\<close>, \<open>sub64\<close>), failed assertions, \<open>unreachable!\<close> and indices out of range are
  panics of the model, so that a theorem that a call returns is a theorem that it does not panic. Integers are naturals where
  the code checks its arithmetic and machine words where bits matter (\<open>Packed_State\<close>, \<open>Packet_Types\<close>,
  \<open>Packet_Number\<close>). Locks are taken for a whole call in the code, hence a call is one step of the model. Wakers are numbers;
  a call returns the wakers it wakes and the frames it hands to its broker. Logging (\<open>qevent\<close>, \<open>tracing\<close>) is left out.

  \<^bold>\<open>Theories and sources.\<close>
  \<^item> \<open>Prelude\<close>: results, panics, polls, checked arithmetic and facts on lists. \<open>Peer_Limits\<close>: the locale of limits that only
    grow, shared by flow control and stream numbering.
  \<^item> \<open>Index_Deque\<close>: \<open>qbase/src/util/index_deque.rs\<close>. Indices stay attached to their elements.
  \<^item> \<open>Wire\<close>, \<open>Varint\<close>, \<open>Packet_Number\<close>, \<open>Packet_Types\<close>, \<open>Packet_Headers\<close>: the parser results
    of nom, \<open>varint.rs\<close>, \<open>packet/*.rs\<close>, \<open>cid/connection_id.rs\<close>. Round trips, and how a datagram is cut into packets.
  \<^item> \<open>Sid\<close>, \<open>Frame_Types\<close>, \<open>Frames\<close>, \<open>Frame_Io\<close>: \<open>sid.rs\<close>, \<open>frame.rs\<close>, \<open>frame/*.rs\<close>,
    \<open>error.rs\<close>: every frame with its parser and writer and the dispatch. \<open>Frame_Roundtrip\<close>,
    \<open>Frame_Safety\<close> and \<open>Frame_Sizes\<close> hold the theorems: what is written is read back, the reader is total on
    every input, announced sizes are the written sizes.
  \<^item> \<open>Flow\<close>: \<open>flow.rs\<close>. No side ever sends more than the other announced, and the window reopens.
  \<^item> \<open>Stream_Ids\<close>: \<open>sid/local_sid.rs\<close>, \<open>sid/remote_sid.rs\<close>, \<open>sid/handy.rs\<close>. Streams are numbered
    in order and never beyond the limit.
  \<^item> \<open>Buf_Map\<close>, \<open>Buf_Map_Loss\<close>, \<open>Buf_Map_Pick\<close>, \<open>Packed_State\<close>, \<open>Send_Buf\<close>:
    \<open>qrecovery/src/send/sndbuf.rs\<close>. The abstraction of the interval map is the colour of every byte; acknowledgement, loss
    and picking are described on it.
  \<^item> \<open>Rcv_Buf\<close>: \<open>qrecovery/src/recv/rcvbuf.rs\<close>. Reassembly refines a partial map from offsets to bytes.
  \<^item> \<open>Stream_Transfer\<close>: send buffer and receive buffer joined by a network that loses, repeats and reorders.
  \<^item> \<open>Crypto_Stream\<close>: \<open>qrecovery/src/crypto.rs\<close>, the same two buffers as the stream of handshake bytes, with the polls of the TLS side.
  \<^item> \<open>Datagrams\<close>: \<open>qunreliable/src/writer.rs\<close>, \<open>reader.rs\<close>. Datagrams are delivered at most once and survive the wire; one that the writer accepts may violate the limit of the peer.
  \<^item> \<open>Send_Waker\<close>: \<open>qbase/src/net/tx.rs\<close>. No signal to a send task is lost. \<open>Stream_Io\<close>: effects and errors the halves of a stream share.
  \<^item> \<open>Recver\<close>: \<open>qrecovery/src/recv/recver.rs\<close>, \<open>incoming.rs\<close>, \<open>reader.rs\<close>, the receiving half of a stream.
  \<^item> \<open>Send_Fin\<close>, \<open>Sender\<close>, \<open>Sender_Safety\<close>: \<open>qrecovery/src/send/sender.rs\<close>, \<open>outgoing.rs\<close>,
    \<open>writer.rs\<close>, the sending half: an invariant over every history of calls, with what was written, sent and acknowledged.
  \<^item> \<open>Stream_Pair\<close>: both halves together, from the writing to the reading application.
  \<^item> \<open>Local_Cids\<close>, \<open>Remote_Cids\<close>, \<open>Cid_Pair\<close>: \<open>qbase/src/cid/local_cid.rs\<close>, \<open>remote_cid.rs\<close>. Every connection ID, given or taken,
    is accounted for from its issue to its retirement; the two managers against each other show that the check of the limit is wrong.
  \<^item> \<open>Sent_Journal\<close>, \<open>Rcvd_Journal\<close>, \<open>Journal_Pair\<close>: \<open>qrecovery/src/journal/sent.rs\<close>, \<open>rcvd.rs\<close> and the acknowledgement handler of
    \<open>qconnection/src/space.rs\<close>. Frames come back for the packets that carried them, a packet is accepted once, an ACK frame names received packets only and fits, and the sender accepts it.
  \<^item> \<open>Packet_Space\<close>: \<open>qcongestion/src/packets.rs\<close>, the packets of one packet number space with the scan of an ACK frame and the detection of losses, and reference
    definitions of both. The trait \<open>Control\<close> is a record of functions; \<open>Control_Law\<close> is the locale of its laws, with the lemmas on packet spaces that hold for
    every algorithm. \<open>New_Reno\<close>: \<open>algorithm/new_reno.rs\<close>, which obeys the laws; the scan and the detection equal their references.
  \<^item> \<open>Ieee_Float\<close>, \<open>Rtt\<close>, \<open>Pacer\<close>: the floating point operations that \<open>rtt.rs\<close> and \<open>pacing.rs\<close> use, as exact rational operations rounded to 24 or 53
    bits, and these two files: bounds of the loss delay, of every estimate and of the capacity of a burst.
  \<^item> \<open>Congestion\<close>, \<open>Congestion_Safety\<close>, \<open>Congestion_Reach\<close>: \<open>congestion.rs\<close>, \<open>status.rs\<close>: the controller of a path. An invariant
    over every history of calls: the bytes in flight are those of the packets in flight, no call panics, only unacknowledged packets are reported lost, once.
  \<^item> \<open>Loss_Pair\<close>: \<open>Feedback\<close> of \<open>qconnection/src/space/data.rs\<close>, the controller together with the journal of sent packets: on one path the journal takes every report;
    with two paths it panics.

  \<^bold>\<open>Bounds and fuel.\<close> Loops are structural recursions or have termination proofs; \<open>recv_loop\<close>,
  \<open>ack_scan\<close> and their kin recurse on what is left of a list. No definition has fuel. The histories of the controller are bounded where its arithmetic is: instants are nanoseconds
  since the start, unbounded, and read once per call; ACK frames arrive within \<open>RTT_MAX\<close> = 2 ^ 58 ns (nine years), less than 2 ^ 48 bytes are sent, and the probe timeout is doubled fewer than 31 times
  in a row (\<open>headroom\<close>), beyond which the shift of the code leaves its type.

  \<^bold>\<open>What the histories assume of losses.\<close> In the histories of the send buffer (\<open>snd_reach\<close>), of the sending half (\<open>sender_reach\<close>) and of the crypto stream (\<open>cp_reach\<close>) a frame may be acknowledged or reported lost any number
  of times once it was sent, rightly or wrongly, but a loss is reported only while the first byte of the frame is not acknowledged. The program does not ensure this: a retransmission may be declared lost after its original was acknowledged late,
  and then \<open>may_loss\<close> counts bytes behind it as acknowledged, so that success is reported too early (theorems \<open>may_loss_forgets_after_acked\<close> and \<open>late_ack_then_loss_forgets\<close> of \<open>Send_Buf\<close>). The properties that rest on these histories say so.

  \<^bold>\<open>Not modelled.\<close> TLS and packet protection (calls into rustls), sockets and system calls (\<open>qudp\<close>, \<open>qinterface\<close>), the public API (\<open>gm-quic\<close>, \<open>h3-shim\<close>), the tasks and channels of
  \<open>qconnection\<close>, BBR (commented out of the build), transport parameters (a typed map filled by derive macros), the collection of streams (maps and
  locks around the halves that are modelled), the asynchronous cells of the handshake, socket addresses, qlog events (\<open>qevent\<close>), Display and Debug.
\<close>

end
